(* ===== verification/Isaac_Prelude.thy ===== *)
theory Isaac_Prelude
  imports Main "HOL-Library.Word"
begin

text \<open>
  Shared vocabulary of the development: the machine types of the C++ sources, the result type
  that separates a normal return, a thrown error and undefined behaviour, byte memories with
  bounds-checked access, and the little-endian and big-endian byte images of machine words.
  The lemmas here are generic facts the components share.
\<close>

unbundle bit_operations_syntax

named_theorems mem_simps "laws of bounds-checked memory access"
named_theorems byte_simps "laws of byte images of machine words"
named_theorems out_simps "evaluation of the result type"
named_theorems eval_simps "unfolding of recursions on numerals, for closed terms"

section \<open>Machine types\<close>

type_synonym byte = "8 word"
type_synonym u16 = "16 word"
type_synonym u32 = "32 word"
type_synonym u64 = "64 word"
type_synonym bytes = "byte list"

section \<open>Results: normal, thrown, undefined\<close>

text \<open>
  \<open>Throw e\<close> is a C++ exception or an error code that leaves the function early; \<open>Undef\<close> is
  behaviour the C++ standard leaves undefined (an access outside the object, a null
  dereference).  A theorem that a result is \<open>Ok\<close> therefore also says that the code stays
  inside its buffers.
\<close>

datatype ('e, 'a) outcome = Ok 'a | Throw 'e | Undef

fun bindO :: "('e, 'a) outcome \<Rightarrow> ('a \<Rightarrow> ('e, 'b) outcome) \<Rightarrow> ('e, 'b) outcome" where
  "bindO (Ok x) f = f x"
| "bindO (Throw e) f = Throw e"
| "bindO Undef f = Undef"

fun mapO :: "('a \<Rightarrow> 'b) \<Rightarrow> ('e, 'a) outcome \<Rightarrow> ('e, 'b) outcome" where
  "mapO f (Ok x) = Ok (f x)"
| "mapO f (Throw e) = Throw e"
| "mapO f Undef = Undef"

lemma bindO_eq_Ok [out_simps]: "bindO m f = Ok y \<longleftrightarrow> (\<exists>x. m = Ok x \<and> f x = Ok y)"
  by (cases m) auto

lemma bindO_eq_Undef [out_simps]:
  "bindO m f = Undef \<longleftrightarrow> m = Undef \<or> (\<exists>x. m = Ok x \<and> f x = Undef)"
  by (cases m) auto

lemma bindO_eq_Throw [out_simps]:
  "bindO m f = Throw e \<longleftrightarrow> m = Throw e \<or> (\<exists>x. m = Ok x \<and> f x = Throw e)"
  by (cases m) auto

lemma mapO_eq_Ok [out_simps]: "mapO f m = Ok y \<longleftrightarrow> (\<exists>x. m = Ok x \<and> y = f x)"
  by (cases m) auto

lemma mapO_eq_Undef [out_simps]: "mapO f m = Undef \<longleftrightarrow> m = Undef"
  by (cases m) auto

section \<open>Byte memories\<close>

text \<open>
  A memory object is a list of cells.  Reading or writing a range that does not lie inside the
  object is \<open>None\<close>; the callers turn it into \<open>Undef\<close>.
\<close>

definition peek :: "'a list \<Rightarrow> nat \<Rightarrow> nat \<Rightarrow> 'a list option" where
  "peek m off n = (if off + n \<le> length m then Some (take n (drop off m)) else None)"

definition poke :: "'a list \<Rightarrow> nat \<Rightarrow> 'a list \<Rightarrow> 'a list option" where
  "poke m off bs =
     (if off + length bs \<le> length m then Some (take off m @ bs @ drop (off + length bs) m)
      else None)"

lemma peek_Some [mem_simps]:
  "peek m off n = Some bs \<longleftrightarrow> off + n \<le> length m \<and> bs = take n (drop off m)"
  by (auto simp: peek_def)

lemma peek_None [mem_simps]: "peek m off n = None \<longleftrightarrow> length m < off + n"
  by (auto simp: peek_def)

lemma poke_Some [mem_simps]:
  "poke m off bs = Some m' \<longleftrightarrow>
     off + length bs \<le> length m \<and> m' = take off m @ bs @ drop (off + length bs) m"
  by (auto simp: poke_def)

lemma poke_None [mem_simps]: "poke m off bs = None \<longleftrightarrow> length m < off + length bs"
  by (auto simp: poke_def)

lemma length_poke: "poke m off bs = Some m' \<Longrightarrow> length m' = length m"
  by (auto simp: poke_Some)

lemma peek_length: "peek m off n = Some bs \<Longrightarrow> length bs = n"
  by (auto simp: peek_Some)

lemma peek_append: "peek (pre @ bs @ post) (length pre) (length bs) = Some bs"
  by (simp add: peek_def)

lemma peek_appendI:
  "off = length pre \<Longrightarrow> n = length bs \<Longrightarrow> peek (pre @ bs @ post) off n = Some bs"
  by (simp add: peek_append)

lemma take_poke: "poke m off bs = Some m' \<Longrightarrow> take (off + length bs) m' = take off m @ bs"
  by (auto simp: poke_Some)

lemma split_off: "n \<le> length xs \<Longrightarrow> \<exists>a r. xs = a @ r \<and> length a = n"
  by (rule exI [of _ "take n xs"], rule exI [of _ "drop n xs"]) simp

section \<open>Byte images of machine words\<close>

fun le_bytes :: "nat \<Rightarrow> 'a::len word \<Rightarrow> bytes" where
  "le_bytes 0 w = []"
| "le_bytes (Suc n) w = ucast w # le_bytes n (drop_bit 8 w)"

fun le_word :: "bytes \<Rightarrow> 'a::len word" where
  "le_word [] = 0"
| "le_word (b # bs) = ucast b OR push_bit 8 (le_word bs)"

lemma le_bytes_numeral [eval_simps]:
  "le_bytes (numeral k) w = ucast w # le_bytes (pred_numeral k) (drop_bit 8 w)"
  by (simp add: numeral_eq_Suc)

lemma length_le_bytes [simp]: "length (le_bytes n w) = n"
  by (induction n arbitrary: w) auto

lemma ucast_byte_or_shift:
  fixes w v :: "'a::len word"
  shows "(ucast (ucast w :: byte) :: 'a word) OR push_bit 8 (take_bit n (drop_bit 8 w)) =
    take_bit (n + 8) w"
proof (rule bit_word_eqI)
  fix k assume "k < LENGTH('a)"
  then show "bit ((ucast (ucast w :: byte) :: 'a word) OR push_bit 8 (take_bit n (drop_bit 8 w))) k =
      bit (take_bit (n + 8) w) k"
    by (auto simp: bit_simps)
qed

lemma le_word_le_bytes: "(le_word (le_bytes n w) :: 'a::len word) = take_bit (8 * n) w"
proof (induction n arbitrary: w)
  case 0
  then show ?case by simp
next
  case (Suc n)
  then show ?case by (simp add: ucast_byte_or_shift add.commute)
qed

lemma le_word_le_bytes_full [byte_simps]:
  "LENGTH('a::len) \<le> 8 * n \<Longrightarrow> (le_word (le_bytes n w) :: 'a word) = w"
  by (simp add: le_word_le_bytes take_bit_word_eq_self)

lemma ucast_or_shift_low:
  assumes "8 \<le> LENGTH('a::len)"
  shows "(ucast (ucast (b::byte) OR push_bit 8 (v :: 'a word)) :: byte) = b"
    and "drop_bit 8 (ucast (b::byte) OR push_bit 8 (v :: 'a word)) = take_bit (LENGTH('a) - 8) v"
proof -
  show "(ucast (ucast b OR push_bit 8 v) :: byte) = b"
    by (rule bit_word_eqI) (use assms in \<open>auto simp: bit_simps\<close>)
next
  show "drop_bit 8 (ucast b OR push_bit 8 v) = take_bit (LENGTH('a) - 8) v"
  proof (rule bit_word_eqI)
    fix k assume "k < LENGTH('a)"
    then show "bit (drop_bit 8 (ucast b OR push_bit 8 v)) k = bit (take_bit (LENGTH('a) - 8) v) k"
      using bit_imp_le_length [of b "8 + k"] by (auto simp: bit_simps)
  qed
qed

section \<open>Small numbers as 32-bit words\<close>

lemma unat_of_nat_32: "n < 2 ^ 32 \<Longrightarrow> unat (of_nat n :: 32 word) = n"
  by (simp add: unat_of_nat)

lemma sint_of_nat_32: "n < 2 ^ 31 \<Longrightarrow> sint (of_nat n :: 32 word) = int n"
  by (simp add: signed_of_nat signed_take_bit_int_eq_self)

lemma of_nat_nonneg_32: "n < 2 ^ 31 \<Longrightarrow> \<not> (of_nat n :: 32 word) <s 0"
  by (simp add: word_sless_alt sint_of_nat_32)

lemma of_nat_nonzero_32:
  assumes "0 < n" and "n < 2 ^ 32"
  shows "(of_nat n :: 32 word) \<noteq> 0"
proof
  assume "(of_nat n :: 32 word) = 0"
  then have "unat (of_nat n :: 32 word) = 0" by simp
  with assms show False by (simp add: unat_of_nat)
qed

lemma unat_ucast_64_32: "unat (w :: u64) < 2 ^ 32 \<Longrightarrow> unat (ucast w :: 32 word) = unat w"
  by (simp add: unsigned_ucast_eq take_bit_nat_eq_self)

lemma unat_ucast_32_64: "unat (ucast (w :: u32) :: u64) = unat w"
proof -
  have "unat w < 2 ^ LENGTH(32)" by (rule unsigned_less)
  then show ?thesis by (simp add: unsigned_ucast_eq take_bit_nat_eq_self)
qed

end
