(* ===== verification/Ys_Buffer.thy ===== *)
theory Ys_Buffer
  imports Isaac_Prelude
begin

text \<open>
  \<open>YS_Buf\<close> of \<open>isaac/tool/ys_buffer.hpp\<close>: the growable byte buffer every protocol reads
  from and writes to.  \<open>bmem\<close> is the heap block \<open>_buf\<close> (\<open>None\<close> for the null pointer),
  \<open>blen\<close> and \<open>bcap\<close> are \<open>_len\<close> and \<open>_cap\<close>, 64-bit \<open>size_t\<close> values that wrap around.
  Two parameters stand for the C++ runtime: \<open>junk\<close> gives the indeterminate contents of fresh
  storage and \<open>mx\<close> the largest size \<open>new[]\<close> can serve (above it \<open>std::bad_alloc\<close> is thrown).
\<close>

record ys_buf =
  bmem :: "bytes option"
  blen :: u64
  bcap :: u64

datatype buf_error = BadAlloc

type_synonym 'a buf_result = "(buf_error, 'a) outcome"

definition empty_buf :: ys_buf where
  "empty_buf = \<lparr>bmem = None, blen = 0, bcap = 0\<rparr>"

definition blockSize :: u64 where "blockSize = 1024"

definition size32KB :: u64 where "size32KB = 1024 * 32"

definition leftSize :: "ys_buf \<Rightarrow> u64" where "leftSize b = bcap b - blen b"

definition bfull :: "ys_buf \<Rightarrow> bool" where "bfull b \<longleftrightarrow> blen b = bcap b"

definition bempty :: "ys_buf \<Rightarrow> bool" where "bempty b \<longleftrightarrow> blen b = 0"

definition clear_buf :: "ys_buf \<Rightarrow> ys_buf" where "clear_buf b = b\<lparr>blen := 0\<rparr>"

definition set_length :: "u64 \<Rightarrow> ys_buf \<Rightarrow> ys_buf" where "set_length n b = b\<lparr>blen := n\<rparr>"

text \<open>\<open>offset\<close> takes an \<open>int32_t\<close>: the argument is sign-extended to \<open>size_t\<close>.\<close>

definition offset_buf :: "32 word \<Rightarrow> ys_buf \<Rightarrow> ys_buf" where
  "offset_buf off b = b\<lparr>blen := blen b + scast off\<rparr>"

text \<open>The rounding of \<open>alloc\<close>: the next multiple of the block size, in wrapping arithmetic.\<close>

definition round_block :: "u64 \<Rightarrow> u64" where
  "round_block n = ((n - 1) div blockSize + 1) * blockSize"

text \<open>
  \<open>alloc\<close>: the capacity grows by the rounded amount, a new block is taken and the first
  \<open>_len\<close> bytes are copied.  Copying more than either block holds is undefined.
\<close>

definition copy_block :: "(nat \<Rightarrow> byte) \<Rightarrow> bytes option \<Rightarrow> nat \<Rightarrow> nat \<Rightarrow> bytes buf_result" where
  "copy_block junk old len cap =
     (case old of
        None \<Rightarrow> Ok (map junk [0..<cap])
      | Some m \<Rightarrow>
          (if len \<le> length m \<and> len \<le> cap then Ok (take len m @ map junk [len..<cap]) else Undef))"

definition alloc_buf :: "(nat \<Rightarrow> byte) \<Rightarrow> u64 \<Rightarrow> u64 \<Rightarrow> ys_buf \<Rightarrow> ys_buf buf_result" where
  "alloc_buf junk mx n b =
     (if n = 0 then Ok b
      else let cap = bcap b + round_block n in
        if mx < cap then Throw BadAlloc
        else bindO (copy_block junk (bmem b) (unat (blen b)) (unat cap))
               (\<lambda>m. Ok (b\<lparr>bmem := Some m, bcap := cap\<rparr>)))"

text \<open>
  \<open>memcpy(left(), data, len)\<close> followed by \<open>_len += len\<close>.
\<close>

definition write_left :: "bytes \<Rightarrow> ys_buf \<Rightarrow> ys_buf buf_result" where
  "write_left d b =
     (case bmem b of
        None \<Rightarrow> (if d = [] then Ok b else Undef)
      | Some m \<Rightarrow>
          (case poke m (unat (blen b)) d of
             None \<Rightarrow> Undef
           | Some m' \<Rightarrow> Ok (b\<lparr>bmem := Some m', blen := blen b + of_nat (length d)\<rparr>)))"

text \<open>
  \<open>append\<close>: the loop \<open>while (leftSize() < len) alloc(leftSize() - len)\<close> with the fuel spent
  per iteration; \<open>None\<close> is "still looping".
\<close>

fun append_buf :: "nat \<Rightarrow> (nat \<Rightarrow> byte) \<Rightarrow> u64 \<Rightarrow> bytes \<Rightarrow> ys_buf \<Rightarrow> ys_buf buf_result option" where
  "append_buf 0 junk mx d b = None"
| "append_buf (Suc k) junk mx d b =
     (if leftSize b < of_nat (length d)
      then (case alloc_buf junk mx (leftSize b - of_nat (length d)) b of
              Ok b' \<Rightarrow> append_buf k junk mx d b'
            | Throw e \<Rightarrow> Some (Throw e)
            | Undef \<Rightarrow> Some Undef)
      else Some (write_left d b))"

text \<open>The copy constructor, and \<open>sData\<close>, which terminates the contents with a zero byte.\<close>

definition copy_buf :: "(nat \<Rightarrow> byte) \<Rightarrow> u64 \<Rightarrow> ys_buf \<Rightarrow> ys_buf buf_result option" where
  "copy_buf junk mx b =
     (case alloc_buf junk mx (bcap b) empty_buf of
        Ok c \<Rightarrow>
          (case bmem b of
             None \<Rightarrow> append_buf 1 junk mx [] c
           | Some m \<Rightarrow>
               (case peek m 0 (unat (blen b)) of
                  None \<Rightarrow> Some Undef
                | Some d \<Rightarrow> append_buf 1 junk mx d c))
      | Throw e \<Rightarrow> Some (Throw e)
      | Undef \<Rightarrow> Some Undef)"

definition sData_buf :: "(nat \<Rightarrow> byte) \<Rightarrow> u64 \<Rightarrow> ys_buf \<Rightarrow> ys_buf buf_result" where
  "sData_buf junk mx b =
     (case bmem b of
        None \<Rightarrow> Ok b
      | Some _ \<Rightarrow>
          bindO (if blen b = bcap b then alloc_buf junk mx blockSize b else Ok b)
            (\<lambda>c. case bmem c of
                   None \<Rightarrow> Undef
                 | Some m \<Rightarrow>
                     (case poke m (unat (blen c)) [0] of
                        None \<Rightarrow> Undef
                      | Some m' \<Rightarrow> Ok (c\<lparr>bmem := Some m'\<rparr>))))"

section \<open>Well-formed buffers and their contents\<close>

definition buf_wf :: "ys_buf \<Rightarrow> bool" where
  "buf_wf b \<longleftrightarrow> blen b \<le> bcap b \<and>
     (case bmem b of None \<Rightarrow> bcap b = 0 | Some m \<Rightarrow> length m = unat (bcap b))"

definition contents :: "ys_buf \<Rightarrow> bytes" where
  "contents b = (case bmem b of None \<Rightarrow> [] | Some m \<Rightarrow> take (unat (blen b)) m)"


section \<open>Rounding\<close>

lemma round_block_unat:
  assumes "n \<noteq> 0" and "unat n \<le> 2 ^ 64 - 1024"
  shows "unat (round_block n) = ((unat n - 1) div 1024 + 1) * 1024"
proof -
  from assms(1) have n1: "unat (n - 1) = unat n - 1"
    by (simp add: unat_minus_one)
  define q where "q = (n - 1) div blockSize"
  have q: "unat q = (unat n - 1) div 1024"
    by (simp add: q_def blockSize_def unat_div n1)
  from assms(2) have lt: "((unat n - 1) div 1024 + 1) * 1024 < 2 ^ 64"
    by simp
  have "unat ((q + 1) * blockSize) = (unat q + 1) * 1024"
    using lt by (simp add: blockSize_def unat_word_ariths q mod_mult_left_eq)
  then show ?thesis
    by (simp only: round_block_def q_def [symmetric] q)
qed

lemma round_block_ge:
  assumes "n \<noteq> 0" and "unat n \<le> 2 ^ 64 - 1024"
  shows "unat n \<le> unat (round_block n)" and "unat (round_block n) < unat n + 1024"
  using round_block_unat [OF assms] assms(1) by (simp_all add: unat_gt_0 [symmetric])

text \<open>
  Rounding the wrapped-around difference \<open>leftSize() - len\<close>: the result is the negated
  number of whole blocks of the shortage, so the capacity shrinks (or stays) instead of growing.
\<close>

lemma round_block_minus:
  assumes "0 < k" and "k < 2 ^ 63"
  shows "round_block (- of_nat k) = - of_nat (1024 * (k div 1024))"
proof -
  have uk: "unat (of_nat k :: u64) = k"
    using assms(2) by (simp add: unat_of_nat)
  have "unat (- of_nat k - 1 :: u64) = 2 ^ 64 - 1 - k"
  proof -
    have "- of_nat k - 1 = (- 1 :: u64) - of_nat k" by simp
    also have "unat \<dots> = unat (- 1 :: u64) - unat (of_nat k :: u64)"
      by (rule unat_sub) simp
    finally show ?thesis by (simp add: uk unsigned_minus_1_eq_mask mask_eq_exp_minus_1)
  qed
  then have "unat ((- of_nat k - 1 :: u64) div blockSize) = (2 ^ 64 - 1 - k) div 1024"
    by (simp add: blockSize_def unat_div)
  also have "(2 ^ 64 - 1 - k) div 1024 = 2 ^ 54 - 1 - k div 1024"
    using assms(2) by simp
  finally have "(- of_nat k - 1 :: u64) div blockSize = of_nat (2 ^ 54 - 1 - k div 1024)"
    by (metis of_nat_unat ucast_id)
  moreover have "k div 1024 \<le> 2 ^ 54 - 1" using assms(2) by simp
  ultimately have "(- of_nat k - 1 :: u64) div blockSize + 1 = 2 ^ 54 - of_nat (k div 1024)"
    by (simp add: of_nat_diff)
  then show ?thesis
    by (simp add: round_block_def blockSize_def left_diff_distrib)
qed


section \<open>Correctness of the operations\<close>

lemma alloc_buf_ok:
  assumes wf: "buf_wf b" and n: "n \<noteq> 0" "unat n \<le> 2 ^ 64 - 1024"
    and room: "unat (bcap b) + unat (round_block n) \<le> unat mx"
  shows "\<exists>b'. alloc_buf junk mx n b = Ok b' \<and> buf_wf b' \<and> contents b' = contents b \<and>
     blen b' = blen b \<and> unat (bcap b') = unat (bcap b) + unat (round_block n)"
proof -
  have cap: "unat (bcap b + round_block n) = unat (bcap b) + unat (round_block n)"
    using room by (intro unat_add_lem [THEN iffD1]) (rule le_less_trans [OF _ unsigned_less [of mx]])
  have le: "blen b \<le> bcap b + round_block n"
    using wf by (simp add: buf_wf_def word_le_nat_alt cap)
  have mx: "\<not> mx < bcap b + round_block n"
    using room by (simp add: word_less_nat_alt cap)
  show ?thesis
  proof (cases "bmem b")
    case None
    with wf have "blen b = 0" by (auto simp: buf_wf_def word_le_nat_alt unat_eq_0)
    with None n mx le cap show ?thesis
      by (simp add: alloc_buf_def Let_def copy_block_def buf_wf_def contents_def)
  next
    case (Some m)
    with wf have m: "length m = unat (bcap b)" "unat (blen b) \<le> length m"
      by (simp_all add: buf_wf_def word_le_nat_alt)
    with Some n mx le cap show ?thesis
      by (simp add: alloc_buf_def Let_def copy_block_def buf_wf_def contents_def)
  qed
qed

lemma write_left_ok:
  assumes wf: "buf_wf b" and len: "length d < 2 ^ 64"
    and room: "of_nat (length d) \<le> leftSize b"
  shows "\<exists>b'. write_left d b = Ok b' \<and> buf_wf b' \<and> contents b' = contents b @ d \<and>
     bcap b' = bcap b \<and> unat (blen b') = unat (blen b) + length d"
proof -
  have left: "unat (leftSize b) = unat (bcap b) - unat (blen b)"
    using wf by (simp add: leftSize_def buf_wf_def unat_sub)
  have d: "unat (of_nat (length d) :: u64) = length d"
    using len by (simp add: unat_of_nat)
  have fit: "unat (blen b) + length d \<le> unat (bcap b)"
    using room wf by (auto simp: word_le_nat_alt left d buf_wf_def)
  have new: "unat (blen b + of_nat (length d)) = unat (blen b) + length d"
  proof -
    have "unat (blen b) + length d < 2 ^ LENGTH(64)"
      by (rule le_less_trans [OF fit unsigned_less])
    then show ?thesis by (simp add: unat_word_ariths d)
  qed
  show ?thesis
  proof (cases "bmem b")
    case None
    with wf have "bcap b = 0" by (simp add: buf_wf_def)
    with fit have "d = []" "unat (blen b) = 0" by auto
    with None wf show ?thesis
      by (simp add: write_left_def contents_def)
  next
    case (Some m)
    with wf have m: "length m = unat (bcap b)" by (simp add: buf_wf_def)
    with Some fit new wf show ?thesis
      by (simp add: write_left_def poke_def contents_def buf_wf_def word_le_nat_alt)
  qed
qed

lemma append_buf_fits:
  assumes "buf_wf b" and "length d < 2 ^ 64" and "of_nat (length d) \<le> leftSize b"
  shows "\<exists>b'. append_buf (Suc k) junk mx d b = Some (Ok b') \<and> buf_wf b' \<and>
     contents b' = contents b @ d \<and> bcap b' = bcap b \<and> unat (blen b') = unat (blen b) + length d"
  using write_left_ok [OF assms] assms(3) by (auto simp: not_less)


section \<open>Appending past the capacity\<close>

text \<open>
  When the data does not fit, \<open>append\<close> calls \<open>alloc(leftSize() - len)\<close> with a wrapped-around
  argument, so the capacity shrinks by whole blocks of the shortage (or stays as it is).
\<close>

lemma leftSize_unat: "buf_wf b \<Longrightarrow> unat (leftSize b) = unat (bcap b) - unat (blen b)"
  by (simp add: leftSize_def buf_wf_def unat_sub)

lemma shortage_minus:
  assumes "leftSize b < of_nat n" and "n < 2 ^ 63"
  shows "\<exists>k. 0 < k \<and> k \<le> n \<and> k = n - unat (leftSize b) \<and> leftSize b - of_nat n = - of_nat k"
proof -
  define k where "k = n - unat (leftSize b)"
  have lt: "unat (leftSize b) < n"
    using assms by (simp add: word_less_nat_alt unat_of_nat)
  then have "(of_nat k :: u64) = of_nat n - of_nat (unat (leftSize b))"
    by (simp add: k_def of_nat_diff)
  then have "leftSize b - of_nat n = - of_nat k"
    by simp
  with lt show ?thesis by (auto simp: k_def)
qed

lemma alloc_wrapped:
  assumes wf: "buf_wf b" and short: "leftSize b < of_nat n" and n: "n < 2 ^ 63"
    and mx: "unat mx < 2 ^ 63"
    and ok: "alloc_buf junk mx (leftSize b - of_nat n) b = Ok b'"
  shows "buf_wf b' \<and> blen b' = blen b \<and> leftSize b' < of_nat n"
proof -
  obtain k where k: "0 < k" "k \<le> n" "leftSize b - of_nat n = - of_nat k"
    using shortage_minus [OF short n] by blast
  define s where "s = 1024 * (k div 1024)"
  define cap where "cap = bcap b - of_nat s"
  have s_le: "s \<le> n" using k(2) by (simp add: s_def)
  have s: "unat (of_nat s :: u64) = s" using s_le n by (simp add: unat_of_nat)
  have nz: "(- of_nat k :: u64) \<noteq> 0"
  proof
    assume "(- of_nat k :: u64) = 0"
    then have "unat (of_nat k :: u64) = 0" by simp
    with k(1,2) n show False by (simp add: unat_of_nat)
  qed
  from ok have ok: "\<not> mx < cap" "bindO (copy_block junk (bmem b) (unat (blen b)) (unat cap))
      (\<lambda>m. Ok (b\<lparr>bmem := Some m, bcap := cap\<rparr>)) = Ok b'"
    using nz round_block_minus [OF k(1)] k(2) n
    by (simp_all add: k(3) alloc_buf_def Let_def cap_def s_def split: if_splits)
  have s_cap: "s \<le> unat (bcap b)"
  proof (rule ccontr)
    assume "\<not> s \<le> unat (bcap b)"
    then have "unat cap = 2 ^ 64 + unat (bcap b) - s"
      by (simp add: cap_def unat_sub_if_size s word_size)
    with s_le n mx ok(1) show False
      by (simp add: word_less_nat_alt)
  qed
  then have cap: "unat cap = unat (bcap b) - s"
    by (simp add: cap_def unat_sub s word_le_nat_alt)
  from ok(2) obtain m where m: "copy_block junk (bmem b) (unat (blen b)) (unat cap) = Ok m"
      and b': "b' = b\<lparr>bmem := Some m, bcap := cap\<rparr>"
    by (auto simp: out_simps)
  have len: "length m = unat cap \<and> unat (blen b) \<le> unat cap"
    using m wf by (auto simp: copy_block_def buf_wf_def word_le_nat_alt split: option.splits if_splits)
  then have wf': "buf_wf b'"
    by (simp add: b' buf_wf_def word_le_nat_alt)
  have "unat (leftSize b') \<le> unat (leftSize b)"
    unfolding leftSize_unat [OF wf] leftSize_unat [OF wf'] by (simp add: b' cap)
  with short have "leftSize b' < of_nat n"
    by (simp add: word_less_nat_alt)
  with wf' show ?thesis by (simp add: b')
qed

lemma append_buf_no_room:
  assumes "buf_wf b" and "leftSize b < of_nat (length d)" and "length d < 2 ^ 63"
    and "unat mx < 2 ^ 63"
  shows "append_buf k junk mx d b \<noteq> Some (Ok c)"
  using assms
proof (induction k arbitrary: b)
  case 0
  then show ?case by simp
next
  case (Suc k)
  show ?case
  proof (cases "alloc_buf junk mx (leftSize b - of_nat (length d)) b")
    case (Ok b')
    from alloc_wrapped [OF Suc.prems(1,2,3,4) Ok] Suc.prems(3,4)
    have "append_buf k junk mx d b' \<noteq> Some (Ok c)" by (intro Suc.IH) auto
    with Ok Suc.prems(2) show ?thesis by simp
  qed (use Suc.prems(2) in auto)
qed


lemma alloc_wrapped_small:
  assumes wf: "buf_wf b" and short: "leftSize b < of_nat n" and n: "n < 2 ^ 63"
    and small: "n < unat (leftSize b) + 1024" and mx: "bcap b \<le> mx"
  shows "\<exists>b'. alloc_buf junk mx (leftSize b - of_nat n) b = Ok b' \<and> buf_wf b' \<and>
     bcap b' = bcap b \<and> blen b' = blen b"
proof -
  obtain k where k: "0 < k" "k \<le> n" "k = n - unat (leftSize b)" "leftSize b - of_nat n = - of_nat k"
    using shortage_minus [OF short n] by blast
  have uk: "unat (of_nat k :: u64) = k" using k(2) n by (simp add: unat_of_nat)
  then have nz: "(of_nat k :: u64) \<noteq> 0" using k(1) by auto
  have "k < 1024" using k(3) small by simp
  then have "round_block (- of_nat k) = 0"
    using round_block_minus [OF k(1)] by simp
  with nz mx have eq: "alloc_buf junk mx (leftSize b - of_nat n) b =
      bindO (copy_block junk (bmem b) (unat (blen b)) (unat (bcap b)))
        (\<lambda>m. Ok (b\<lparr>bmem := Some m, bcap := bcap b\<rparr>))"
    by (simp add: k(4) alloc_buf_def Let_def leD)
  show ?thesis
    unfolding eq using wf
    by (cases "bmem b") (auto simp: copy_block_def buf_wf_def word_le_nat_alt)
qed

lemma append_buf_diverges:
  assumes "buf_wf b" and "leftSize b < of_nat (length d)" and "length d < 2 ^ 63"
    and "length d < unat (leftSize b) + 1024" and "bcap b \<le> mx"
  shows "append_buf k junk mx d b = None"
  using assms
proof (induction k arbitrary: b)
  case 0
  then show ?case by simp
next
  case (Suc k)
  obtain b' where b': "alloc_buf junk mx (leftSize b - of_nat (length d)) b = Ok b'" "buf_wf b'"
      "bcap b' = bcap b" "blen b' = blen b"
    using alloc_wrapped_small [OF Suc.prems] by blast
  then have "leftSize b' = leftSize b" by (simp add: leftSize_def)
  with Suc.prems b' have "append_buf k junk mx d b' = None" by (intro Suc.IH) auto
  with b'(1) Suc.prems(2) show ?case by simp
qed

lemma offset_buf_small:
  assumes "n < 2 ^ 31" and "unat (blen b) + n \<le> unat (bcap b)"
  shows "unat (blen (offset_buf (of_nat n) b)) = unat (blen b) + n"
proof -
  have "sint (of_nat n :: 32 word) = int n"
    using assms(1) by (simp add: signed_of_nat signed_take_bit_int_eq_self)
  then have "(scast (of_nat n :: 32 word) :: u64) = of_nat n"
    by (metis of_int_of_nat_eq scast_eq)
  moreover have "unat (of_nat n :: u64) = n"
    using assms(1) by (simp add: unat_of_nat)
  moreover have "unat (blen b) + n < 2 ^ LENGTH(64)"
    by (rule le_less_trans [OF assms(2) unsigned_less])
  ultimately show ?thesis
    by (simp add: offset_buf_def unat_word_ariths)
qed

section \<open>Properties of the buffer\<close>

text \<open>
  \<open>append\<close> succeeds exactly when the data already fits the free space, and then it appends
  the data to the contents.  The loop that should enlarge the buffer never leads to a
  successful append, whatever the number of iterations: the size it asks \<open>alloc\<close> for is the
  wrapped-around negative of the shortage.
\<close>

theorem append_succeeds_iff_fits:
  assumes "buf_wf b" and "length d < 2 ^ 63" and "unat mx < 2 ^ 63"
  shows "(\<exists>k c. append_buf k junk mx d b = Some (Ok c)) \<longleftrightarrow> of_nat (length d) \<le> leftSize b"
    (is "?l \<longleftrightarrow> ?r")
proof
  assume ?l
  then show ?r
    using append_buf_no_room [OF assms(1) _ assms(2,3)] by (metis not_le)
next
  assume ?r
  moreover have "length d < 2 ^ 64" using assms(2) by simp
  ultimately show ?l using append_buf_fits [OF assms(1), of d 0 junk mx] by blast
qed

definition small_buf :: ys_buf where
  "small_buf = \<lparr>bmem = Some [1, 2, 3, 4], blen = 2, bcap = 4\<rparr>"

lemma small_buf_wf: "buf_wf small_buf"
  by (simp add: small_buf_def buf_wf_def)

theorem append_succeeds_iff_fits_witness:
  "(\<exists>k c. append_buf k (\<lambda>_. 0) 4096 [9, 9] small_buf = Some (Ok c)) \<and>
   \<not> (\<exists>k c. append_buf k (\<lambda>_. 0) 4096 [9, 9, 9] small_buf = Some (Ok c))"
  using append_succeeds_iff_fits [OF small_buf_wf, of "[9, 9]" 4096 "\<lambda>_. 0"]
    append_succeeds_iff_fits [OF small_buf_wf, of "[9, 9, 9]" 4096 "\<lambda>_. 0"]
  by (simp add: leftSize_def small_buf_def)

text \<open>
  when the shortage is less than one block, \<open>append\<close> never returns: \<open>alloc\<close> rounds the
  wrapped-around request to 0, so the capacity stays as it is and the loop repeats forever.
  No amount of fuel gives a result.
\<close>

theorem append_never_returns:
  assumes "buf_wf b" and "leftSize b < of_nat (length d)" and "length d < 2 ^ 63"
    and "length d < unat (leftSize b) + 1024" and "bcap b \<le> mx"
  shows "\<forall>k. append_buf k junk mx d b = None"
  using append_buf_diverges [OF assms] by blast

theorem append_never_returns_witness:
  "\<forall>k. append_buf k (\<lambda>_. 0) 4096 [9, 9, 9] small_buf = None"
  by (rule append_never_returns [OF small_buf_wf]) (simp_all add: leftSize_def small_buf_def)

text \<open>
  \<open>alloc\<close> called by its other users, with a size that does not wrap, refines "reserve more
  room": the contents are kept, the capacity grows by the size rounded up to whole blocks and
  the buffer stays well formed.
\<close>

theorem alloc_keeps_contents:
  assumes "buf_wf b" and "n \<noteq> 0" and "unat n \<le> 2 ^ 64 - 1024"
    and "unat (bcap b) + unat n + 1024 \<le> unat mx"
  shows "\<exists>b'. alloc_buf junk mx n b = Ok b' \<and> buf_wf b' \<and> contents b' = contents b \<and>
    unat (leftSize b) + unat n \<le> unat (leftSize b')"
proof -
  note r = round_block_ge [OF assms(2,3)]
  with assms(4) have "unat (bcap b) + unat (round_block n) \<le> unat mx" by simp
  then obtain b' where b': "alloc_buf junk mx n b = Ok b'" "buf_wf b'" "contents b' = contents b"
      "blen b' = blen b" "unat (bcap b') = unat (bcap b) + unat (round_block n)"
    using alloc_buf_ok [OF assms(1,2,3)] by blast
  moreover have "unat (blen b) \<le> unat (bcap b)"
    using assms(1) by (simp add: buf_wf_def word_le_nat_alt)
  ultimately show ?thesis
    using r(1) leftSize_unat [OF assms(1)] leftSize_unat [OF b'(2)] by auto
qed

theorem alloc_keeps_contents_witness:
  "\<exists>b'. alloc_buf (\<lambda>_. 0) 4096 10 small_buf = Ok b' \<and> buf_wf b' \<and>
    contents b' = contents small_buf \<and>
    unat (leftSize small_buf) + unat (10 :: u64) \<le> unat (leftSize b')"
  by (rule alloc_keeps_contents [OF small_buf_wf]) (simp_all add: small_buf_def)

end
