(* ===== verification/Ys_Socket.thy ===== *)
theory Ys_Socket
  imports Ys_Buffer "HOL-Library.Sublist"
begin

text \<open>
  The transfer loops of \<open>YS_Socket\<close> (\<open>isaac/ys_socket.h\<close>).  The operating system and the TLS
  library are not code of the repository: each of their calls is one element of an event list,
  which the loops consume in order.  A result \<open>None\<close> says that the list ended while the loop was
  still waiting.  \<open>ssl\<close> says whether the socket has a TLS session (\<open>getSsl()\<close>).
\<close>

section \<open>Sending\<close>

text \<open>
  One call of \<open>::send\<close> or \<open>YS_Ssl::write\<close>: its \<open>int32_t\<close> result, whether a negative result is
  "try again" (\<open>EAGAIN\<close>, \<open>isSslEngine\<close>), and what \<open>YS_Util::canWrite\<close> then answers.
\<close>

record os_send =
  sret :: "32 word"
  swould :: bool
  sready :: bool

text \<open>
  \<open>send\<close>: the \<open>do ... while (sendLen < dataLen)\<close> loop with \<open>sendLen\<close> and, as \<open>wire\<close>, the bytes the
  peer has been sent.  The TLS branch hands over \<open>data + sendLen\<close>, the plain branch \<open>data\<close>.
\<close>

fun send_loop :: "bool \<Rightarrow> bytes \<Rightarrow> os_send list \<Rightarrow> u32 \<Rightarrow> bytes \<Rightarrow> (32 word \<times> bytes) option" where
  "send_loop ssl d [] sendLen wire = None"
| "send_loop ssl d (e # es) sendLen wire =
     (let dataLen = of_nat (length d); start = (if ssl then unat sendLen else 0) in
      if sret e <s 0
      then if swould e
        then if sready e
          then if sendLen < dataLen then send_loop ssl d es sendLen wire else Some (sendLen, wire)
          else Some (sendLen, wire)
        else if sendLen = 0 then Some (sret e, wire) else Some (sendLen, wire)
      else let sendLen' = sendLen + sret e; wire' = wire @ take (unat (sret e)) (drop start d) in
        if sendLen' < dataLen then send_loop ssl d es sendLen' wire' else Some (sendLen', wire'))"

definition socket_send :: "bool \<Rightarrow> bytes \<Rightarrow> os_send list \<Rightarrow> (32 word \<times> bytes) option" where
  "socket_send ssl d es = send_loop ssl d es 0 []"

text \<open>\<open>send(YS_Buf &)\<close> and \<open>send(std::string &)\<close> return early on empty data.\<close>

definition socket_send_buf :: "bool \<Rightarrow> ys_buf \<Rightarrow> os_send list \<Rightarrow> (32 word \<times> bytes) option" where
  "socket_send_buf ssl b es =
     (if blen b = 0 then Some (0, []) else socket_send ssl (contents b) es)"

definition socket_send_str :: "bool \<Rightarrow> bytes \<Rightarrow> os_send list \<Rightarrow> (32 word \<times> bytes) option" where
  "socket_send_str ssl s es = (if s = [] then Some (0, []) else socket_send ssl s es)"

section \<open>Receiving\<close>

text \<open>
  One call of \<open>::recvfrom\<close> or \<open>YS_Ssl::read\<close>: the bytes it delivered (\<open>Got []\<close> is the result 0, the
  peer has closed), or a negative result, which is "try again" or another error.
\<close>

datatype os_recv = Got bytes | RecvErr bool

fun recv_loop :: "os_recv list \<Rightarrow> u32 \<Rightarrow> u32 \<Rightarrow> bytes \<Rightarrow> (32 word \<times> u32 \<times> bytes) option" where
  "recv_loop [] len recvTotal out = None"
| "recv_loop (Got bs # es) len recvTotal out =
     (if bs \<noteq> [] then
        let total = recvTotal + of_nat (length bs) in
        if total = len then Some (0, len, out @ bs) else recv_loop es len total (out @ bs)
      else if recvTotal \<noteq> 0 then Some (0, recvTotal, out)
      else Some (- 1, len, out))"
| "recv_loop (RecvErr again # es) len recvTotal out = Some (0, recvTotal, out)"

text \<open>
  \<open>recv(buf, &len)\<close>: the result, the value left in \<open>*len\<close> and the bytes written at \<open>buf\<close>.
\<close>

definition socket_recv :: "os_recv list \<Rightarrow> u32 \<Rightarrow> (32 word \<times> u32 \<times> bytes) option" where
  "socket_recv es len = recv_loop es len 0 []"

text \<open>\<open>recv(YS_Buf &)\<close>: as much as the buffer has room for.\<close>

definition socket_recv_buf :: "os_recv list \<Rightarrow> ys_buf \<Rightarrow> (32 word \<times> ys_buf) buf_result option" where
  "socket_recv_buf es b =
     (case socket_recv es (ucast (leftSize b)) of
        None \<Rightarrow> None
      | Some (r, len, bs) \<Rightarrow> Some (bindO (write_left bs b) (\<lambda>b'.
          if r \<noteq> 0 then Ok (- 1, b'\<lparr>blen := blen b\<rparr>)
          else Ok (0, offset_buf len (b'\<lparr>blen := blen b\<rparr>)))))"

section \<open>Contracts of the operating system\<close>

text \<open>
  \<open>send(2)\<close> and \<open>SSL_write\<close> never report more bytes than they were asked to send, and \<open>recv(2)\<close> and
  \<open>SSL_read\<close> never deliver more than they were asked for.
\<close>

fun send_contract :: "nat \<Rightarrow> os_send list \<Rightarrow> bool" where
  "send_contract n [] = True"
| "send_contract n (e # es) =
     (if sret e <s 0 then send_contract n es
      else unat (sret e) \<le> n \<and> send_contract (n - unat (sret e)) es)"

fun recv_contract :: "nat \<Rightarrow> os_recv list \<Rightarrow> bool" where
  "recv_contract n [] = True"
| "recv_contract n (Got bs # es) = (length bs \<le> n \<and> recv_contract (n - length bs) es)"
| "recv_contract n (RecvErr a # es) = True"

section \<open>Correctness of the loops\<close>

lemma sword_ge_0:
  fixes w :: "32 word"
  assumes "\<not> w <s 0"
  shows "unat w < 2 ^ 31"
proof -
  from assms have "0 \<le> sint w" by (simp add: word_sless_alt)
  then have "\<not> bit w 31" using bit_last_iff [of w] by simp
  moreover have "uint w < 2 ^ 32" using uint_lt2p [of w] by simp
  ultimately have "sint w = uint w"
    by (simp add: sint_uint signed_take_bit_eq_take_bit_minus bit_uint_iff take_bit_int_eq_self_iff)
  moreover have "sint w < 2 ^ 31" using sint_lt [of w] by simp
  ultimately have "uint w < 2 ^ 31" by simp
  then have "int (unat w) < int (2 ^ 31)" by (simp only: uint_nat [symmetric] of_nat_power of_nat_numeral)
  then show ?thesis by (simp only: of_nat_less_iff)
qed

lemma sent_sum:
  fixes n w :: u32
  assumes "unat n + unat w \<le> k" and "k < 2 ^ 32"
  shows "unat (n + w) = unat n + unat w"
  using assms by (simp add: unat_word_ariths)

text \<open>
  On a TLS socket the bytes on the wire are always exactly the first \<open>sendLen\<close> bytes of the data.
\<close>

lemma send_loop_ssl:
  assumes "length d < 2 ^ 31" and "send_contract (length d - unat n) es"
    and "unat n \<le> length d" and "w = take (unat n) d"
    and "send_loop True d es n w = Some (r, wire)"
  shows "(r <s 0 \<and> wire = []) \<or> (unat r \<le> length d \<and> wire = take (unat r) d)"
  using assms(2-5)
proof (induction es arbitrary: n w)
  case Nil
  then show ?case by simp
next
  case (Cons e es)
  show ?case
  proof (cases "sret e <s 0")
    case True
    with Cons.prems Cons.IH [of n w] show ?thesis
      by (cases "n = 0") (auto simp: Let_def split: if_splits)
  next
    case False
    then have le: "unat (sret e) \<le> length d - unat n" using Cons.prems(1) by simp
    then have s: "unat (n + sret e) = unat n + unat (sret e)"
      using Cons.prems(2) assms(1) by (intro sent_sum [where k = "length d"]) auto
    have w: "w @ take (unat (sret e)) (drop (unat n) d) = take (unat (n + sret e)) d"
      using Cons.prems(3) by (simp add: s take_add)
    show ?thesis
    proof (cases "n + sret e < of_nat (length d)")
      case True
      show ?thesis
        by (rule Cons.IH [of "n + sret e" "w @ take (unat (sret e)) (drop (unat n) d)"])
          (use Cons.prems False True le s w in \<open>simp_all add: Let_def\<close>)
    next
      case F: False
      with Cons.prems False w le s show ?thesis by (auto simp: Let_def)
    qed
  qed
qed

text \<open>The plain branch hands the kernel the data from its first byte in every round.\<close>

lemma send_loop_plain:
  assumes "length d < 2 ^ 31" and "send_contract (length d - unat n) es"
    and "unat n \<le> length d" and "\<forall>e\<in>set es. \<not> sret e <s 0"
    and "unat n + sum_list (map (\<lambda>e. unat (sret e)) es) = length d"
    and "\<forall>i<length es. unat n + sum_list (map (\<lambda>e. unat (sret e)) (take i es)) < length d"
    and "es \<noteq> []"
  shows "send_loop False d es n w =
    Some (of_nat (length d), w @ concat (map (\<lambda>e. take (unat (sret e)) d) es))"
  using assms(2-7)
proof (induction es arbitrary: n w)
  case Nil
  then show ?case by simp
next
  case (Cons e es)
  have len: "unat (of_nat (length d) :: u32) = length d" using assms(1) by (simp add: unat_of_nat)
  have le: "unat (sret e) \<le> length d - unat n" using Cons.prems(1,3) by simp
  then have s: "unat (n + sret e) = unat n + unat (sret e)"
    using Cons.prems(2) assms(1) by (intro sent_sum [where k = "length d"]) auto
  show ?case
  proof (cases es)
    case Nil
    with Cons.prems s have "unat (n + sret e) = length d" by simp
    then have "n + sret e = of_nat (length d)" by (metis of_nat_unat ucast_id)
    with Nil Cons.prems(3) show ?thesis by simp
  next
    case (Cons e' es')
    have more: "unat n + unat (sret e) < length d"
      using Cons Cons.prems(5)[rule_format, of 1] by simp
    have "send_loop False d es (n + sret e) (w @ take (unat (sret e)) d) =
        Some (of_nat (length d), (w @ take (unat (sret e)) d) @ concat (map (\<lambda>e. take (unat (sret e)) d) es))"
    proof (rule Cons.IH)
      show "\<forall>i<length es. unat (n + sret e) + (\<Sum>e\<leftarrow>take i es. unat (sret e)) < length d"
      proof (intro allI impI)
        fix i assume "i < length es"
        then show "unat (n + sret e) + (\<Sum>e\<leftarrow>take i es. unat (sret e)) < length d"
          using Cons.prems(5)[rule_format, of "Suc i"] s by simp
      qed
    qed (use Cons Cons.prems le s in simp_all)
    with Cons.prems(3) more show ?thesis by (simp add: s len word_less_nat_alt)
  qed
qed

section \<open>Properties of sending\<close>

text \<open>
  on a TLS socket \<open>send\<close> transmits exactly the prefix of the data its return value counts: a
  non-negative result \<open>n\<close> means the peer got the first \<open>n\<close> bytes, a negative result means it got
  nothing, however the writes were split and retried.
\<close>

theorem ssl_send_exact:
  assumes "length d < 2 ^ 31" and "send_contract (length d) es"
    and "socket_send True d es = Some (r, wire)"
  shows "(r <s 0 \<and> wire = []) \<or> (unat r \<le> length d \<and> wire = take (unat r) d)"
  using send_loop_ssl [of d 0 es "[]" r wire] assms by (simp add: socket_send_def)

text \<open>
  on a plain socket a partial write corrupts the stream: when the kernel takes \<open>k\<close> bytes and then
  the remaining number, \<open>send\<close> returns the full length, but the second write started again at the
  first byte; the peer gets the data only if its tail happens to repeat its beginning.
\<close>

theorem plain_send_resends:
  assumes "length d < 2 ^ 31" and "0 < k" and "k < length d"
  shows "\<exists>wire. socket_send False d
      [\<lparr>sret = of_nat k, swould = False, sready = False\<rparr>,
       \<lparr>sret = of_nat (length d - k), swould = False, sready = False\<rparr>] =
        Some (of_nat (length d), wire) \<and>
      wire = take k d @ take (length d - k) d \<and>
      (wire = d \<longleftrightarrow> take (length d - k) d = drop k d)"
proof -
  have pos: "\<not> (of_nat n :: 32 word) <s 0 \<and> unat (of_nat n :: 32 word) = n" if "n < 2 ^ 31" for n
  proof -
    from that have "sint (of_nat n :: 32 word) = int n"
      by (simp add: signed_of_nat signed_take_bit_int_eq_self)
    with that show ?thesis by (simp add: word_sless_alt unat_of_nat)
  qed
  have p1: "\<not> (of_nat k :: 32 word) <s 0 \<and> unat (of_nat k :: 32 word) = k"
    by (rule pos) (use assms in simp)
  have p2: "\<not> (of_nat (length d - k) :: 32 word) <s 0 \<and>
      unat (of_nat (length d - k) :: 32 word) = length d - k"
    by (rule pos) (use assms in simp)
  have "socket_send False d
      [\<lparr>sret = of_nat k, swould = False, sready = False\<rparr>,
       \<lparr>sret = of_nat (length d - k), swould = False, sready = False\<rparr>] =
        Some (of_nat (length d), take k d @ take (length d - k) d)"
    unfolding socket_send_def
    by (subst send_loop_plain) (use assms p1 p2 in \<open>auto simp: less_Suc_eq simp del: of_nat_diff\<close>)
  moreover have "take k d @ take (length d - k) d = d \<longleftrightarrow> take (length d - k) d = drop k d"
    by (metis append_take_drop_id same_append_eq)
  ultimately show ?thesis by blast
qed

theorem ssl_send_exact_witness:
  "[1, 2] = take (unat (2 :: 32 word)) ([1, 2, 3] :: bytes)"
  using ssl_send_exact [of "[1, 2, 3]"
      "[\<lparr>sret = 2, swould = False, sready = False\<rparr>, \<lparr>sret = - 1, swould = True, sready = False\<rparr>]"
      2 "[1, 2]"]
  by (simp add: socket_send_def)

theorem plain_send_resends_witness:
  "\<exists>wire. socket_send False [1, 2, 3]
      [\<lparr>sret = of_nat 1, swould = False, sready = False\<rparr>,
       \<lparr>sret = of_nat (length [1, 2, 3 :: byte] - 1), swould = False, sready = False\<rparr>] =
        Some (of_nat (length [1, 2, 3 :: byte]), wire) \<and>
      wire = take 1 [1, 2, 3] @ take (length [1, 2, 3 :: byte] - 1) [1, 2, 3] \<and>
      (wire = [1, 2, 3] \<longleftrightarrow> take (length [1, 2, 3 :: byte] - 1) [1, 2, 3 :: byte] = drop 1 [1, 2, 3])"
  by (rule plain_send_resends) simp_all

section \<open>Properties of receiving\<close>

fun got :: "os_recv list \<Rightarrow> bytes" where
  "got [] = []"
| "got (Got bs # es) = bs @ got es"
| "got (RecvErr a # es) = got es"

lemma recv_loop_result:
  assumes "recv_contract (unat len - unat n) es" and "unat n \<le> unat len" and "length out = unat n"
    and "recv_loop es len n out = Some (r, l, out')"
  shows "(r = 0 \<and> (\<exists>more. out' = out @ more \<and> prefix more (got es)) \<and> length out' = unat l \<and> unat l \<le> unat len)
    \<or> (r = - 1 \<and> n = 0 \<and> out' = out \<and> l = len \<and> (\<exists>es'. es = Got [] # es'))"
  using assms
proof (induction es len n out rule: recv_loop.induct)
  case (1 len n out)
  then show ?case by simp
next
  case (2 bs es len n out)
  show ?case
  proof (cases "bs = []")
    case True
    with 2 show ?thesis by (auto split: if_splits)
  next
    case False
    from 2(2) have le: "length bs \<le> unat len - unat n" by simp
    have ub: "unat (of_nat (length bs) :: u32) = length bs"
    proof -
      have "length bs < 2 ^ LENGTH(32)"
        by (rule le_less_trans [OF _ unsigned_less [of len]]) (use le in simp)
      then show ?thesis by (simp add: unat_of_nat)
    qed
    have s: "unat (n + of_nat (length bs)) = unat n + length bs"
    proof -
      have "unat n + length bs < 2 ^ LENGTH(32)"
        by (rule le_less_trans [OF _ unsigned_less [of len]]) (use le 2(3) in simp)
      then show ?thesis by (simp add: unat_word_ariths ub)
    qed
    show ?thesis
    proof (cases "n + of_nat (length bs) = len")
      case True
      with False 2(4,5) s have "r = 0 \<and> l = len \<and> out' = out @ bs" by (auto simp: Let_def)
      moreover have "length (out @ bs) = unat len"
        using True s 2(4) by simp
      ultimately show ?thesis by simp
    next
      case F: False
      have nz: "n + of_nat (length bs) \<noteq> 0"
      proof
        assume "n + of_nat (length bs) = 0"
        with s False show False by simp
      qed
      have "(r = 0 \<and> (\<exists>more. out' = (out @ bs) @ more \<and> prefix more (got es)) \<and> length out' = unat l \<and> unat l \<le> unat len)
    \<or> (r = - 1 \<and> n + of_nat (length bs) = 0 \<and> out' = out @ bs \<and> l = len \<and> (\<exists>es'. es = Got [] # es'))"
        by (rule 2(1)) (use False F 2 s le in \<open>simp_all add: Let_def\<close>)
      with nz show ?thesis by (auto simp: prefix_def)
    qed
  qed
next
  case (3 a es len n out)
  then show ?case by auto
qed

text \<open>
  C38: \<open>recv\<close> stays inside the caller's buffer and delivers the stream in order: it either returns 0
  with \<open>*len\<close> the number of bytes written, which are the next bytes of the stream, or -1 with
  nothing written, exactly when the first read found the peer closed.
\<close>

theorem socket_recv_exact:
  assumes "recv_contract (unat len) es" and "socket_recv es len = Some (r, l, out)"
  shows "(r = 0 \<and> length out = unat l \<and> unat l \<le> unat len \<and> prefix out (got es)) \<or>
    (r = - 1 \<and> out = [] \<and> (\<exists>es'. es = Got [] # es'))"
  using recv_loop_result [of len 0 es "[]" r l out] assms by (auto simp: socket_recv_def)

theorem socket_recv_exact_witness:
  "length [7, 8, 9 :: byte] = unat (3 :: u32) \<and> prefix [7, 8, 9] (got [Got [7, 8], Got [9], RecvErr True])"
  using socket_recv_exact [of 5 "[Got [7, 8], Got [9], RecvErr True]" 0 3 "[7, 8, 9]"]
  by (simp add: socket_recv_def)

end
