(* ===== verification/Ys_NetBuf.thy ===== *)
theory Ys_NetBuf
  imports Ys_Buffer
begin

text \<open>
  \<open>isaac/ys_handle.h\<close>: the network buffer \<open>YS_NetBuf\<close> a connection or a request owns, and the
  interface \<open>YS_Driver\<close> by which a protocol tells the network layer where a message ends.
\<close>

section \<open>Network buffers\<close>

text \<open>
  \<open>refSock\<close> is the shared pointer to the socket (its number, \<open>None\<close> for the null pointer), \<open>tid\<close> the
  business thread, \<open>ctx\<close> the protocol's receive context, \<open>cbBusiFinal\<close> says whether the completion
  callback is set.
\<close>

record 'c net_buf =
  recvData :: ys_buf
  sendData :: ys_buf
  refSock :: "nat option"
  tid :: u32
  ctx :: "'c option"
  cbBusiFinal :: bool

definition new_net_buf :: "(nat \<Rightarrow> byte) \<Rightarrow> u64 \<Rightarrow> u32 \<Rightarrow> 'c net_buf buf_result" where
  "new_net_buf junk mx t =
     bindO (alloc_buf junk mx size32KB empty_buf) (\<lambda>r.
     bindO (alloc_buf junk mx size32KB empty_buf) (\<lambda>s.
       Ok \<lparr>recvData = r, sendData = s, refSock = None, tid = t, ctx = None, cbBusiFinal = False\<rparr>))"

definition clear_net_buf :: "'c net_buf \<Rightarrow> 'c net_buf" where
  "clear_net_buf b =
     b\<lparr>recvData := clear_buf (recvData b), sendData := clear_buf (sendData b), refSock := None,
       cbBusiFinal := False, ctx := None\<rparr>"

text \<open>The default \<open>isFullPkt\<close> of \<open>YS_Driver\<close>: whatever has arrived is a message.\<close>

definition any_isFullPkt :: "ys_buf \<Rightarrow> 'c \<Rightarrow> 32 word \<times> 'c" where
  "any_isFullPkt b c = (if bempty b then ucast (bcap b) else 0, c)"

section \<open>The framing interface\<close>

text \<open>
  What the receive loops rely on.  \<open>ipf\<close> is the driver's \<open>isFullPkt\<close>, \<open>msg\<close> the set of its
  messages, \<open>seen m k c\<close> says that the context \<open>c\<close> is that of a receiver that has looked at \<open>k\<close> bytes of
  the message \<open>m\<close>, and \<open>hdr\<close> is the number of bytes the first look needs.
\<close>

locale assembling =
  fixes ipf :: "ys_buf \<Rightarrow> 'c \<Rightarrow> 32 word \<times> 'c" and msg :: "bytes \<Rightarrow> bool"
    and seen :: "bytes \<Rightarrow> nat \<Rightarrow> 'c \<Rightarrow> bool" and hdr :: nat
  assumes fresh: "bempty b \<Longrightarrow> unat (bcap b) < 2 ^ 31 \<Longrightarrow> msg m \<Longrightarrow> seen m 0 c \<Longrightarrow>
      fst (ipf b c) = ucast (bcap b) \<and> seen m 0 (snd (ipf b c))"
    and size: "msg m \<Longrightarrow> 0 < length m \<and> length m < 2 ^ 31"
    and whole: "msg m \<Longrightarrow> seen m k c \<Longrightarrow> k < length m \<Longrightarrow> contents b = m \<Longrightarrow> blen b = of_nat (length m) \<Longrightarrow>
      fst (ipf b c) = 0 \<and> seen m (length m) (snd (ipf b c))"
    and partial: "msg m \<Longrightarrow> seen m k c \<Longrightarrow> k < k' \<Longrightarrow> k' < length m \<Longrightarrow> hdr \<le> k' \<Longrightarrow> contents b = take k' m \<Longrightarrow>
      blen b = of_nat k' \<Longrightarrow> length m \<le> unat (bcap b) \<Longrightarrow> unat (bcap b) < 2 ^ 31 \<Longrightarrow>
      length m - k' \<le> unat (fst (ipf b c)) \<and> unat (fst (ipf b c)) + k' \<le> unat (bcap b) \<and> seen m k' (snd (ipf b c))"

text \<open>
  The framing of messages whose length stands in a header: no context, and the number of missing
  bytes is known exactly.
\<close>

locale framing =
  fixes ipf :: "ys_buf \<Rightarrow> 'c \<Rightarrow> 32 word \<times> 'c" and msg :: "bytes \<Rightarrow> bool" and hdr :: nat
  assumes empty_cap: "bempty b \<Longrightarrow> fst (ipf b c) = ucast (bcap b)"
    and hdr_pos: "0 < hdr"
    and hdr_size: "msg m \<Longrightarrow> hdr \<le> length m \<and> length m < 2 ^ 31"
    and missing: "msg m \<Longrightarrow> hdr \<le> k \<Longrightarrow> k \<le> length m \<Longrightarrow> contents b = take k m \<Longrightarrow>
      blen b = of_nat k \<Longrightarrow> fst (ipf b c) = of_nat (length m - k)"
    and early: "msg m \<Longrightarrow> 0 < k \<Longrightarrow> k < hdr \<Longrightarrow> contents b = take k m \<Longrightarrow>
      blen b = of_nat k \<Longrightarrow> fst (ipf b c) <s 0"

sublocale framing \<subseteq> assembling ipf msg "\<lambda>_ _ _. True" hdr
proof
  fix m k k' b c
  assume m: "msg m" and k: "k' < length m" "hdr \<le> k'" and b: "contents b = take k' m" "blen b = of_nat k'"
    "length m \<le> unat (bcap b)"
  have "fst (ipf b c) = of_nat (length m - k')" using missing [OF m k(2) _ b(1,2)] k(1) by simp
  moreover have "unat (of_nat (length m - k') :: u32) = length m - k'"
    using hdr_size [OF m] by (intro unat_of_nat_32) auto
  ultimately show "length m - k' \<le> unat (fst (ipf b c)) \<and> unat (fst (ipf b c)) + k' \<le> unat (bcap b) \<and> True"
    using k(1) b(3) by simp
next
  fix m k b c
  assume m: "msg m" and b: "contents b = m" "blen b = of_nat (length m)"
  show "fst (ipf b c) = 0 \<and> True" using missing [OF m, of "length m" b c] hdr_size [OF m] b by simp
next
  fix m assume m: "msg m"
  show "0 < length m \<and> length m < 2 ^ 31" using hdr_size [OF m] hdr_pos by auto
qed (simp add: empty_cap)

end
