(* ===== verification/Ys_ThQueue.thy ===== *)
theory Ys_ThQueue
  imports Isaac_Prelude "HOL-Library.Multiset"
begin

text \<open>
  \<open>YS_ThQueue\<close> of \<open>isaac/tool/ys_thread_queue.hpp\<close>: the queue by which the network thread and the
  business threads hand buffers to each other.  Every operation holds the mutex while it touches the
  queue, so it is one atomic step on the state.  A waiting operation reads \<open>_lockId\<close> before it takes
  the mutex (\<open>seen\<close>) and is modelled on the state in which its wait ends, whether by data, by a
  notification or by the time-out.
\<close>

record 'a th_queue =
  q_items :: "'a list"
  q_size :: nat
  q_lock :: nat

definition th_new :: "'a th_queue" where
  "th_new = \<lparr>q_items = [], q_size = 0, q_lock = 0\<rparr>"

section \<open>Operations\<close>

definition has_notify :: "nat \<Rightarrow> 'a th_queue \<Rightarrow> bool" where
  "has_notify lockId q \<longleftrightarrow> lockId \<noteq> q_lock q"

text \<open>\<open>front\<close> of an empty \<open>std::deque\<close> is undefined.\<close>

definition th_front :: "'a th_queue \<Rightarrow> (unit, 'a) outcome" where
  "th_front q = (case q_items q of [] \<Rightarrow> Undef | x # xs \<Rightarrow> Ok x)"

definition th_drop :: "'a th_queue \<Rightarrow> 'a th_queue" where
  "th_drop q = q\<lparr>q_items := tl (q_items q), q_size := q_size q - 1\<rparr>"

definition th_pop_wait :: "nat \<Rightarrow> 'a th_queue \<Rightarrow> 'a option \<times> 'a th_queue" where
  "th_pop_wait seen q =
     (case q_items q of
        [] \<Rightarrow> (None, q)
      | x # xs \<Rightarrow> if has_notify seen q then (None, q) else (Some x, th_drop q))"

definition th_pop_nowait :: "'a th_queue \<Rightarrow> 'a option \<times> 'a th_queue" where
  "th_pop_nowait q = (case q_items q of [] \<Rightarrow> (None, q) | x # xs \<Rightarrow> (Some x, th_drop q))"

definition th_pop :: "'a th_queue \<Rightarrow> bool \<times> 'a th_queue" where
  "th_pop q = (if q_items q = [] then (False, q) else (True, th_drop q))"

definition th_notify :: "'a th_queue \<Rightarrow> 'a th_queue" where
  "th_notify q = q\<lparr>q_lock := q_lock q + 1\<rparr>"

definition th_push_back :: "'a \<Rightarrow> 'a th_queue \<Rightarrow> 'a th_queue" where
  "th_push_back x q = q\<lparr>q_items := q_items q @ [x], q_size := q_size q + 1\<rparr>"

definition th_push_back_cap :: "'a \<Rightarrow> nat \<Rightarrow> 'a th_queue \<Rightarrow> bool \<times> 'a th_queue" where
  "th_push_back_cap x cap q = (if q_size q < cap then (True, th_push_back x q) else (False, q))"

fun th_push_back_all :: "'a list \<Rightarrow> 'a th_queue \<Rightarrow> 'a th_queue" where
  "th_push_back_all [] q = q"
| "th_push_back_all (x # xs) q = th_push_back_all xs (th_push_back x q)"

definition th_push_front :: "'a \<Rightarrow> 'a th_queue \<Rightarrow> 'a th_queue" where
  "th_push_front x q = q\<lparr>q_items := x # q_items q, q_size := q_size q + 1\<rparr>"

fun th_push_front_all :: "'a list \<Rightarrow> 'a th_queue \<Rightarrow> 'a th_queue" where
  "th_push_front_all [] q = q"
| "th_push_front_all (x # xs) q = th_push_front_all xs (th_push_front x q)"

text \<open>\<open>swap\<close> exchanges the contents with the caller's queue \<open>p\<close>.\<close>

definition th_swap_nowait :: "'a list \<Rightarrow> 'a th_queue \<Rightarrow> bool \<times> 'a list \<times> 'a th_queue" where
  "th_swap_nowait p q =
     (if q_items q = [] then (False, p, q)
      else (True, q_items q, q\<lparr>q_items := p, q_size := length p\<rparr>))"

definition th_swap_wait :: "nat \<Rightarrow> 'a list \<Rightarrow> 'a th_queue \<Rightarrow> bool \<times> 'a list \<times> 'a th_queue" where
  "th_swap_wait seen p q =
     (if q_items q = [] \<or> has_notify seen q then (False, p, q)
      else (True, q_items q, q\<lparr>q_items := p, q_size := length p\<rparr>))"

definition th_clear :: "'a th_queue \<Rightarrow> 'a th_queue" where
  "th_clear q = q\<lparr>q_items := [], q_size := 0\<rparr>"

definition th_empty :: "'a th_queue \<Rightarrow> bool" where
  "th_empty q \<longleftrightarrow> q_items q = []"

text \<open>
  \<open>wait\<close>: without a time-out value it only looks; the unbounded wait returns when the queue has
  data or was notified and then looks at the data; the bounded wait returns the waited-for
  condition itself.
\<close>

definition th_wait :: "nat \<Rightarrow> u64 \<Rightarrow> bool \<Rightarrow> 'a th_queue \<Rightarrow> bool" where
  "th_wait seen ms was_empty q =
     (if was_empty \<and> ms = 0 then False
      else if was_empty \<and> ms \<noteq> - 1 then \<not> th_empty q \<or> has_notify seen q
      else \<not> th_empty q)"

section \<open>The queue interface\<close>

text \<open>
  What the network layer relies on: an abstraction to the list of queued items, a push at the back
  and a pop at the front that may also return nothing.
\<close>

locale fifo =
  fixes items :: "'q \<Rightarrow> 'a list" and ok :: "'q \<Rightarrow> bool"
    and new :: 'q and push :: "'a \<Rightarrow> 'q \<Rightarrow> 'q" and pop :: "'w \<Rightarrow> 'q \<Rightarrow> 'a option \<times> 'q"
    and count :: "'q \<Rightarrow> nat"
  assumes new_items: "items new = []" and new_ok: "ok new"
    and push_items: "items (push x q) = items q @ [x]" and push_ok: "ok q \<Longrightarrow> ok (push x q)"
    and pop_none: "fst (pop w q) = None \<Longrightarrow> snd (pop w q) = q"
    and pop_some: "fst (pop w q) = Some x \<Longrightarrow> items q = x # items (snd (pop w q))"
    and pop_ok: "ok q \<Longrightarrow> ok (snd (pop w q))"
    and count: "ok q \<Longrightarrow> count q = length (items q)"
begin

lemma pop_mset:
  "mset (items q) = (case fst (pop w q) of None \<Rightarrow> {#} | Some x \<Rightarrow> {#x#}) + mset (items (snd (pop w q)))"
  using pop_none [of w q] pop_some [of w q] by (auto split: option.splits)

lemma pop_set: "fst (pop w q) = Some x \<Longrightarrow> x \<in> set (items q)"
  using pop_some [of w q x] by simp

lemma pop_subset: "set (items (snd (pop w q))) \<subseteq> set (items q)"
  using pop_none [of w q] pop_some [of w q] by (cases "fst (pop w q)") auto

text \<open>Everything pushed before is popped first: draining returns the items in their order.\<close>

fun drain :: "'w list \<Rightarrow> 'q \<Rightarrow> 'a list \<times> 'q" where
  "drain [] q = ([], q)"
| "drain (w # ws) q =
     (let r = pop w q; d = drain ws (snd r) in
      (case fst r of None \<Rightarrow> fst d | Some x \<Rightarrow> x # fst d, snd d))"

lemma drain_items: "fst (drain ws q) @ items (snd (drain ws q)) = items q"
proof (induction ws arbitrary: q)
  case Nil
  then show ?case by simp
next
  case (Cons w ws)
  show ?case
  proof (cases "fst (pop w q)")
    case None
    with pop_none [OF None] Cons show ?thesis by (simp add: Let_def)
  next
    case (Some x)
    with pop_some [OF Some] Cons show ?thesis by (simp add: Let_def)
  qed
qed

lemma drain_ok: "ok q \<Longrightarrow> ok (snd (drain ws q))"
  by (induction ws arbitrary: q) (simp_all add: Let_def pop_ok)

lemma drain_count: "ok q \<Longrightarrow> count q = length (fst (drain ws q)) + count (snd (drain ws q))"
  using arg_cong [OF drain_items [of ws q], of length] count [of q] count [of "snd (drain ws q)"]
    drain_ok [of q ws] by simp

end

text \<open>The counter \<open>_size\<close> agrees with the deque.\<close>

definition th_ok :: "'a th_queue \<Rightarrow> bool" where
  "th_ok q \<longleftrightarrow> q_size q = length (q_items q)"

interpretation wq: fifo q_items th_ok th_new th_push_back th_pop_wait q_size
  by unfold_locales
    (auto simp: th_new_def th_ok_def th_push_back_def th_pop_wait_def th_drop_def split: list.splits if_splits)

interpretation nq: fifo q_items th_ok th_new th_push_back "\<lambda>_ :: unit. th_pop_nowait" q_size
  by unfold_locales
    (auto simp: th_new_def th_ok_def th_push_back_def th_pop_nowait_def th_drop_def split: list.splits if_splits)

section \<open>Properties of the queue\<close>

lemma th_push_back_all_items: "q_items (th_push_back_all xs q) = q_items q @ xs"
  by (induction xs arbitrary: q) (simp_all add: th_push_back_def)

lemma th_push_front_all_items: "q_items (th_push_front_all xs q) = rev xs @ q_items q"
  by (induction xs arbitrary: q) (simp_all add: th_push_front_def)

lemma th_push_all_ok: "th_ok q \<Longrightarrow> th_ok (th_push_back_all xs q)" "th_ok q \<Longrightarrow> th_ok (th_push_front_all xs q)"
  by (induction xs arbitrary: q) (simp_all add: th_push_back_def th_push_front_def th_ok_def)

inductive th_step :: "'a th_queue \<Rightarrow> 'a th_queue \<Rightarrow> bool" where
  pop_wait: "th_step q (snd (th_pop_wait seen q))"
| pop_nowait: "th_step q (snd (th_pop_nowait q))"
| pop: "th_step q (snd (th_pop q))"
| notify: "th_step q (th_notify q)"
| push_back: "th_step q (th_push_back x q)"
| push_back_cap: "th_step q (snd (th_push_back_cap x cap q))"
| push_back_all: "th_step q (th_push_back_all xs q)"
| push_front: "th_step q (th_push_front x q)"
| push_front_all: "th_step q (th_push_front_all xs q)"
| swap_nowait: "th_step q (snd (snd (th_swap_nowait p q)))"
| swap_wait: "th_step q (snd (snd (th_swap_wait seen p q)))"
| clear: "th_step q (th_clear q)"

inductive th_reach :: "'a th_queue \<Rightarrow> bool" where
  start: "th_reach th_new"
| step: "th_reach q \<Longrightarrow> th_step q q' \<Longrightarrow> th_reach q'"

lemma th_step_ok: "th_step q q' \<Longrightarrow> th_ok q \<Longrightarrow> th_ok q'"
proof (induction rule: th_step.induct)
  case (pop_wait q seen)
  then show ?case by (rule wq.pop_ok)
next
  case (pop_nowait q)
  then show ?case by (rule nq.pop_ok)
next
  case (push_back_all q xs)
  then show ?case by (rule th_push_all_ok)
next
  case (push_front_all q xs)
  then show ?case by (rule th_push_all_ok)
qed (auto simp: th_ok_def th_pop_def th_drop_def th_notify_def th_push_back_def th_push_back_cap_def
    th_push_front_def th_swap_nowait_def th_swap_wait_def th_clear_def)

text \<open>
  \<open>size()\<close> is always the number of queued items: in every state that any interleaving of the
  queue's operations can reach, the separately kept counter agrees with the deque, so the
  assertions \<open>_size > 0\<close> of the pop operations hold.
\<close>

theorem th_size_exact: "th_reach q \<Longrightarrow> q_size q = length (q_items q)"
proof (induction rule: th_reach.induct)
  case start
  then show ?case by (simp add: th_new_def)
next
  case (step q q')
  then show ?case using th_step_ok [of q q'] by (simp add: th_ok_def)
qed

theorem th_size_exact_witness:
  "q_size (th_push_back 7 (th_new :: nat th_queue)) = length (q_items (th_push_back 7 (th_new :: nat th_queue)))"
  by (rule th_size_exact, rule th_reach.step [OF th_reach.start th_step.push_back])

fun th_pops :: "nat \<Rightarrow> 'a th_queue \<Rightarrow> 'a option list" where
  "th_pops 0 q = []"
| "th_pops (Suc n) q = (let r = th_pop_nowait q in fst r # th_pops n (snd r))"

lemma th_pops_items: "n = length (q_items q) \<Longrightarrow> th_pops n q = map Some (q_items q)"
proof (induction n arbitrary: q)
  case 0
  then show ?case by simp
next
  case (Suc n)
  then obtain x xs where q: "q_items q = x # xs" by (cases "q_items q") auto
  then have p: "fst (th_pop_nowait q) = Some x" by (simp add: th_pop_nowait_def)
  with q have "q_items (snd (th_pop_nowait q)) = xs" using nq.pop_some [OF p] by simp
  moreover have "n = length xs" using Suc(2) q by simp
  ultimately have "th_pops n (snd (th_pop_nowait q)) = map Some xs"
    using Suc(1) [of "snd (th_pop_nowait q)"] by simp
  with p q show ?case by (simp add: Let_def)
qed

text \<open>
  order of delivery.  Items pushed at the back come out in the order they were pushed, after
  everything already queued; a list pushed at the front comes out first, in reverse.
\<close>

theorem th_queue_order:
  "th_pops (length ys + length (q_items q) + length xs) (th_push_front_all ys (th_push_back_all xs q)) =
    map Some (rev ys @ q_items q @ xs)"
  using th_pops_items [of _ "th_push_front_all ys (th_push_back_all xs q)"]
  by (simp add: th_push_front_all_items th_push_back_all_items add.assoc)

end
