(* ===== verification/Ys_ConnList.thy ===== *)
theory Ys_ConnList
  imports Isaac_Prelude "HOL-Library.Multiset"
begin

text \<open>
  The connection table \<open>YS_ConnList\<close> (\<open>isaac/ys_conn_list.h\<close>) with the timers of
  \<open>isaac/tool/ys_timer.hpp\<close> and the per-connection data \<open>YS_EpData\<close> of \<open>isaac/ys_epoller.h\<close>.
  A socket object is a number; its descriptor and its close-wait flag are looked up through the
  functions \<open>fd\<close> and \<open>waiting\<close>.  A buffer is a number as well.
\<close>

section \<open>Timers\<close>

record timer =
  t_start :: u64
  t_out :: u64
  t_run :: bool

definition timer_new :: timer where
  "timer_new = \<lparr>t_start = 0, t_out = 0, t_run = False\<rparr>"

definition timer_start :: "u64 \<Rightarrow> u64 \<Rightarrow> timer \<Rightarrow> timer" where
  "timer_start now ms t = t\<lparr>t_run := True, t_out := ms, t_start := now\<rparr>"

definition timer_stop :: "timer \<Rightarrow> timer" where "timer_stop t = t\<lparr>t_run := False\<rparr>"

definition timer_count :: "u64 \<Rightarrow> timer \<Rightarrow> u64" where
  "timer_count now t = (if t_run t then now - t_start t else 0)"

definition timer_isTimeOut :: "u64 \<Rightarrow> timer \<Rightarrow> bool" where
  "timer_isTimeOut now t = (if t_run t then now - t_start t > t_out t else False)"

definition timer_left :: "u64 \<Rightarrow> timer \<Rightarrow> u64" where
  "timer_left now t = (if timer_isTimeOut now t then 0 else t_out t - (now - t_start t))"

definition timer_reset :: "u64 \<Rightarrow> timer \<Rightarrow> timer" where "timer_reset now t = t\<lparr>t_start := now\<rparr>"

section \<open>The table\<close>

record ep_data =
  esock :: nat
  ebuf :: "nat option"
  etmr :: timer

definition new_ep_data :: "nat \<Rightarrow> ep_data" where
  "new_ep_data s = \<lparr>esock = s, ebuf = None, etmr = timer_new\<rparr>"

text \<open>The \<open>std::map\<close> from descriptors, in ascending order of the keys.\<close>

type_synonym conn_map = "(int \<times> ep_data) list"

record conn_list =
  conn_mp :: conn_map
  conn_tmout :: u64

definition conn_new :: conn_list where "conn_new = \<lparr>conn_mp = [], conn_tmout = 0\<rparr>"

definition conn_find :: "int \<Rightarrow> conn_list \<Rightarrow> ep_data option" where
  "conn_find k cl = map_of (conn_mp cl) k"

definition conn_size :: "conn_list \<Rightarrow> nat" where "conn_size cl = length (conn_mp cl)"

definition conn_socks :: "conn_list \<Rightarrow> nat list" where
  "conn_socks cl = map (\<lambda>(k, e). esock e) (conn_mp cl)"

definition conn_setTmout :: "u64 \<Rightarrow> conn_list \<Rightarrow> conn_list" where
  "conn_setTmout ms cl = cl\<lparr>conn_tmout := ms\<rparr>"

text \<open>An update through a \<open>YS_EpData *\<close> the table holds.\<close>

definition conn_set :: "int \<Rightarrow> ep_data \<Rightarrow> conn_list \<Rightarrow> conn_list" where
  "conn_set k e cl = cl\<lparr>conn_mp := map (\<lambda>(j, d). if j = k then (j, e) else (j, d)) (conn_mp cl)\<rparr>"

text \<open>\<open>add\<close>: a second socket with a descriptor already present is refused with a null pointer.\<close>

definition conn_add :: "(nat \<Rightarrow> int) \<Rightarrow> nat \<Rightarrow> conn_list \<Rightarrow> ep_data option \<times> conn_list" where
  "conn_add fd s cl =
     (case conn_find (fd s) cl of
        Some e \<Rightarrow> (None, cl)
      | None \<Rightarrow>
          let e = new_ep_data s in
          (Some e, cl\<lparr>conn_mp := insort_key fst (fd s, e) (conn_mp cl)\<rparr>))"

definition conn_erase :: "int list \<Rightarrow> conn_map \<Rightarrow> conn_map" where
  "conn_erase ks mp = filter (\<lambda>(k, e). k \<notin> set ks) mp"

text \<open>The buffers that go with a list of \<open>YS_EpData\<close>: their destructor deletes the buffer.\<close>

fun ep_bufs :: "ep_data list \<Rightarrow> nat list" where
  "ep_bufs [] = []"
| "ep_bufs (e # es) = (case ebuf e of None \<Rightarrow> [] | Some b \<Rightarrow> [b]) @ ep_bufs es"

text \<open>
  \<open>del\<close> erases the node and then deletes \<open>iter->second\<close>, which it reads from the node it has just
  erased.  \<open>stale\<close> says what that read of freed memory yields: \<open>None\<close> is a failure, \<open>Some\<close> the old
  pointer still standing there.  The second component lists the buffers deleted with the data.
\<close>

definition conn_del :: "(ep_data \<Rightarrow> ep_data option) \<Rightarrow> (nat \<Rightarrow> int) \<Rightarrow> nat \<Rightarrow> conn_list \<Rightarrow>
    (unit, conn_list \<times> nat list) outcome" where
  "conn_del stale fd s cl =
     (case conn_find (fd s) cl of
        None \<Rightarrow> Ok (cl, [])
      | Some e \<Rightarrow>
          (case stale e of
             None \<Rightarrow> Undef
           | Some e' \<Rightarrow> Ok (cl\<lparr>conn_mp := conn_erase [fd s] (conn_mp cl)\<rparr>, ep_bufs [e'])))"

definition conn_clear :: "conn_list \<Rightarrow> conn_list \<times> nat list" where
  "conn_clear cl = (cl\<lparr>conn_mp := []\<rparr>, ep_bufs (map snd (conn_mp cl)))"

text \<open>
  \<open>getAllTimeOutBuf\<close>: the receive buffers whose timer has run out are taken from their connections
  (the caller clears and requeues them).
\<close>

definition timed_out_buf :: "u64 \<Rightarrow> ep_data \<Rightarrow> bool" where
  "timed_out_buf now e \<longleftrightarrow> ebuf e \<noteq> None \<and> timer_isTimeOut now (etmr e)"

definition conn_timeout_bufs :: "u64 \<Rightarrow> conn_list \<Rightarrow> nat list \<times> conn_list" where
  "conn_timeout_bufs now cl =
     (ep_bufs (filter (timed_out_buf now) (map snd (conn_mp cl))),
      cl\<lparr>conn_mp := map (\<lambda>(k, e). (k, if timed_out_buf now e
                                   then e\<lparr>ebuf := None, etmr := timer_stop (etmr e)\<rparr> else e)) (conn_mp cl)\<rparr>)"

text \<open>
  \<open>getAllClosedSock\<close> and \<open>getAllTimeOutSock\<close>: the data of the selected connections is deleted, with
  the buffer it may hold, then the nodes are erased by the sockets' descriptors.  The result is the
  sockets, the table and the deleted buffers.
\<close>

definition conn_drop :: "(ep_data \<Rightarrow> bool) \<Rightarrow> (nat \<Rightarrow> int) \<Rightarrow> conn_list \<Rightarrow> nat list \<times> conn_list \<times> nat list" where
  "conn_drop P fd cl =
     (let sel = filter P (map snd (conn_mp cl)); vt = map esock sel in
      (vt, cl\<lparr>conn_mp := conn_erase (map fd vt) (conn_mp cl)\<rparr>, ep_bufs sel))"

definition conn_closed_socks :: "(nat \<Rightarrow> bool) \<Rightarrow> (nat \<Rightarrow> int) \<Rightarrow> conn_list \<Rightarrow> nat list \<times> conn_list \<times> nat list" where
  "conn_closed_socks waiting fd cl = conn_drop (\<lambda>e. waiting (esock e)) fd cl"

definition conn_timeout_socks :: "u64 \<Rightarrow> (nat \<Rightarrow> int) \<Rightarrow> conn_list \<Rightarrow> nat list \<times> conn_list \<times> nat list" where
  "conn_timeout_socks now fd cl =
     (if conn_tmout cl = 0 then ([], cl, [])
      else conn_drop (\<lambda>e. timer_count now (etmr e) > conn_tmout cl) fd cl)"

section \<open>Well-formed tables\<close>

text \<open>Keys are distinct and every node is filed under the descriptor of its socket.\<close>

definition conn_wf :: "(nat \<Rightarrow> int) \<Rightarrow> conn_list \<Rightarrow> bool" where
  "conn_wf fd cl \<longleftrightarrow> distinct (map fst (conn_mp cl)) \<and> (\<forall>(k, e) \<in> set (conn_mp cl). fd (esock e) = k)"

definition held :: "conn_list \<Rightarrow> nat multiset" where
  "held cl = mset (ep_bufs (map snd (conn_mp cl)))"

lemma map_fst_set [simp]: "map (fst \<circ> (\<lambda>(j, d). if j = k then (j, e) else (j, d))) mp = map fst mp"
  by (induction mp) auto

lemma map_fst_update [simp]: "map (fst \<circ> (\<lambda>(k, e). (k, f e))) mp = map fst mp"
  by (induction mp) auto

lemma ep_bufs_append [simp]: "ep_bufs (xs @ ys) = ep_bufs xs @ ep_bufs ys"
  by (induction xs) auto

lemma ep_bufs_split: "mset (ep_bufs (filter P es)) + mset (ep_bufs (filter (\<lambda>e. \<not> P e) es)) = mset (ep_bufs es)"
  by (induction es) (auto split: option.splits)

lemma ep_bufs_set_other:
  "k \<notin> fst ` set mp \<Longrightarrow> map (\<lambda>(j, d). if j = k then (j, e) else (j, d)) mp = mp"
  by (induction mp) auto

lemma ep_bufs_set:
  assumes "distinct (map fst mp)" and "map_of mp k = Some d"
  shows "mset (ep_bufs (map snd (map (\<lambda>(j, d). if j = k then (j, e) else (j, d)) mp))) + mset (ep_bufs [d]) =
    mset (ep_bufs (map snd mp)) + mset (ep_bufs [e])"
  using assms
proof (induction mp)
  case Nil
  then show ?case by simp
next
  case (Cons x mp)
  show ?case
  proof (cases "fst x = k")
    case True
    with Cons.prems have "snd x = d" "k \<notin> fst ` set mp" by auto
    then show ?thesis using True ep_bufs_set_other [of k mp e] by (cases x) simp
  next
    case False
    with Cons.prems Cons.IH show ?thesis by (cases x) (simp add: ac_simps)
  qed
qed

lemma held_set:
  assumes "conn_wf fd cl" and "conn_find k cl = Some d"
  shows "held (conn_set k e cl) + mset (ep_bufs [d]) = held cl + mset (ep_bufs [e])"
  using ep_bufs_set [of "conn_mp cl" k d e] assms
  by (simp add: held_def conn_set_def conn_wf_def conn_find_def)

lemma conn_set_wf:
  assumes "conn_wf fd cl" and "fd (esock e) = k"
  shows "conn_wf fd (conn_set k e cl)"
  using assms
  by (auto simp: conn_wf_def conn_set_def split: if_splits)

lemma conn_find_wf: "conn_wf fd cl \<Longrightarrow> conn_find k cl = Some e \<Longrightarrow> fd (esock e) = k"
  by (auto simp: conn_wf_def conn_find_def dest!: map_of_SomeD)

lemma ep_bufs_insort: "mset (ep_bufs (map snd (insort_key fst x mp))) = mset (ep_bufs [snd x]) + mset (ep_bufs (map snd mp))"
  by (induction mp) (auto simp: ac_simps)

lemma conn_add_held: "held (snd (conn_add fd s cl)) = held cl"
  by (auto simp: conn_add_def held_def Let_def ep_bufs_insort new_ep_data_def split: option.splits)

lemma map_fst_insort: "mset (map fst (insort_key fst x mp)) = add_mset (fst x) (mset (map fst mp))"
  by (induction mp) auto

lemma conn_add_wf: "conn_wf fd cl \<Longrightarrow> conn_wf fd (snd (conn_add fd s cl))"
proof -
  assume wf: "conn_wf fd cl"
  have "distinct (map fst (insort_key fst (fd s, new_ep_data s) (conn_mp cl)))" if "conn_find (fd s) cl = None"
  proof -
    from that have "fd s \<notin> set (map fst (conn_mp cl))"
      by (auto simp: conn_find_def map_of_eq_None_iff)
    then have "distinct (fd s # map fst (conn_mp cl))" using wf by (simp add: conn_wf_def)
    moreover have "mset (fd s # map fst (conn_mp cl)) =
        mset (map fst (insort_key fst (fd s, new_ep_data s) (conn_mp cl)))"
      using map_fst_insort [of "(fd s, new_ep_data s)" "conn_mp cl"] by simp
    ultimately show ?thesis using mset_eq_imp_distinct_iff by blast
  qed
  with wf show ?thesis
    by (auto simp: conn_add_def Let_def conn_wf_def set_insort_key new_ep_data_def split: option.splits)
qed

lemma conn_erase_wf: "conn_wf fd cl \<Longrightarrow> conn_wf fd (cl\<lparr>conn_mp := conn_erase ks (conn_mp cl)\<rparr>)"
  by (auto simp: conn_wf_def conn_erase_def distinct_map inj_on_def)

text \<open>
  In a well-formed table erasing by the descriptors of the selected sockets removes exactly the
  selected nodes.
\<close>

lemma conn_erase_selected:
  assumes "conn_wf fd cl"
  shows "conn_erase (map fd (map esock (filter P (map snd (conn_mp cl))))) (conn_mp cl) =
    filter (\<lambda>(k, e). \<not> P e) (conn_mp cl)"
proof -
  have "k \<in> set (map fd (map esock (filter P (map snd (conn_mp cl))))) \<longleftrightarrow> P e"
    if ke: "(k, e) \<in> set (conn_mp cl)" for k e
  proof
    assume "k \<in> set (map fd (map esock (filter P (map snd (conn_mp cl)))))"
    then obtain j d where jd: "(j, d) \<in> set (conn_mp cl)" "P d" "k = fd (esock d)" by auto
    with assms have "j = k" by (auto simp: conn_wf_def)
    with jd ke assms have "d = e"
      by (metis conn_wf_def eq_key_imp_eq_value)
    with jd show "P e" by simp
  next
    assume "P e"
    with ke assms show "k \<in> set (map fd (map esock (filter P (map snd (conn_mp cl)))))"
      by (force simp: conn_wf_def)
  qed
  then show ?thesis unfolding conn_erase_def by (intro filter_cong) auto
qed

lemma conn_drop_mp:
  "conn_wf fd cl \<Longrightarrow> conn_mp (fst (snd (conn_drop P fd cl))) = filter (\<lambda>(k, e). \<not> P e) (conn_mp cl)"
  using conn_erase_selected [of fd cl P] by (simp add: conn_drop_def Let_def)

lemma map_snd_filter: "map snd (filter (\<lambda>(k, e). P e) mp) = filter P (map snd mp)"
  by (induction mp) auto

lemma conn_drop_held:
  assumes "conn_wf fd cl"
  shows "held cl = held (fst (snd (conn_drop P fd cl))) + mset (snd (snd (conn_drop P fd cl)))"
proof -
  have "conn_mp (fst (snd (conn_drop P fd cl))) = filter (\<lambda>(k, e). \<not> P e) (conn_mp cl)"
    by (rule conn_drop_mp [OF assms])
  then have "held (fst (snd (conn_drop P fd cl))) = mset (ep_bufs (filter (\<lambda>e. \<not> P e) (map snd (conn_mp cl))))"
    by (simp add: held_def map_snd_filter)
  moreover have "snd (snd (conn_drop P fd cl)) = ep_bufs (filter P (map snd (conn_mp cl)))"
    by (simp add: conn_drop_def Let_def)
  ultimately show ?thesis
    using ep_bufs_split [of P "map snd (conn_mp cl)"] by (simp add: held_def add.commute)
qed

lemma conn_drop_wf: "conn_wf fd cl \<Longrightarrow> conn_wf fd (fst (snd (conn_drop P fd cl)))"
  using conn_erase_wf [of fd cl] by (simp add: conn_drop_def Let_def)

lemma conn_timeout_bufs_held:
  "held cl = held (snd (conn_timeout_bufs now cl)) + mset (fst (conn_timeout_bufs now cl))"
proof -
  define g where "g = (\<lambda>e. if timed_out_buf now e then e\<lparr>ebuf := None, etmr := timer_stop (etmr e)\<rparr> else e)"
  have "mset (ep_bufs (map snd mp)) =
      mset (ep_bufs (map (snd \<circ> (\<lambda>(k, e). (k, g e))) mp)) +
      mset (ep_bufs (filter (timed_out_buf now) (map snd mp)))" for mp
  proof (induction mp)
    case Nil
    then show ?case by simp
  next
    case (Cons x mp)
    show ?case
    proof (cases "timed_out_buf now (snd x)")
      case True
      then obtain b where "ebuf (snd x) = Some b" by (auto simp: timed_out_buf_def)
      with True Cons show ?thesis by (cases x) (simp add: g_def)
    next
      case False
      with Cons show ?thesis by (cases x) (simp add: g_def)
    qed
  qed
  then show ?thesis by (simp add: held_def conn_timeout_bufs_def g_def)
qed

lemma conn_timeout_bufs_wf: "conn_wf fd cl \<Longrightarrow> conn_wf fd (snd (conn_timeout_bufs now cl))"
  by (auto simp: conn_wf_def conn_timeout_bufs_def split: if_splits)

end
