(* ===== verification/Ys_NetThread.thy ===== *)
theory Ys_NetThread
  imports Ys_Socket Ys_NetBuf Ys_ThQueue Ys_ConnList
begin

text \<open>
  The network layer of \<open>isaac/ys_thread_asyn.h\<close>: one network thread \<open>YS_NetTh\<close> with its epoll set,
  its connection table and a pool of business threads \<open>YS_ProcThread\<close>.  Network buffers travel
  between the idle queue, the connections (while a message is incomplete), the busy queue and the
  business threads.  The heap \<open>nbufs\<close> gives the contents of each buffer, \<open>working\<close> the buffers popped
  by business threads, \<open>freed\<close> those that have been deleted.
\<close>

record 'c net_th =
  nbufs :: "nat \<Rightarrow> 'c net_buf"
  q_idle :: "nat th_queue"
  q_busi :: "nat th_queue"
  working :: "nat list"
  freed :: "nat list"
  conns :: conn_list
  sfd :: "nat \<Rightarrow> int"
  swait :: "nat \<Rightarrow> bool"
  epolled :: "int list"
  running :: bool

type_synonym 'c net_result = "(buf_error, 'c net_th) outcome"

section \<open>Buffers\<close>

definition upd_buf :: "nat \<Rightarrow> ('c net_buf \<Rightarrow> 'c net_buf) \<Rightarrow> 'c net_th \<Rightarrow> 'c net_th" where
  "upd_buf b f s = s\<lparr>nbufs := (nbufs s)(b := f (nbufs s b))\<rparr>"

definition clear_recv :: "nat \<Rightarrow> 'c net_th \<Rightarrow> 'c net_th" where
  "clear_recv b s = upd_buf b (\<lambda>x. x\<lparr>recvData := clear_buf (recvData x)\<rparr>) s"

definition push_idle :: "nat \<Rightarrow> 'c net_th \<Rightarrow> 'c net_th" where
  "push_idle b s = s\<lparr>q_idle := th_push_back b (q_idle s)\<rparr>"

definition push_task :: "nat \<Rightarrow> 'c net_th \<Rightarrow> 'c net_th" where
  "push_task b s = s\<lparr>q_busi := th_push_back b (q_busi s)\<rparr>"

definition set_ep :: "int \<Rightarrow> ep_data \<Rightarrow> 'c net_th \<Rightarrow> 'c net_th" where
  "set_ep k e s = s\<lparr>conns := conn_set k e (conns s)\<rparr>"

text \<open>\<open>resize\<close> of the idle queue creates the missing buffers; \<open>fresh\<close> are their names.\<close>

definition net_resize :: "'c net_buf \<Rightarrow> nat list \<Rightarrow> u32 \<Rightarrow> 'c net_th \<Rightarrow> 'c net_th" where
  "net_resize nb fresh sz s =
     (if q_size (q_idle s) < unat sz
      then let new = take (unat sz - q_size (q_idle s)) fresh in
        s\<lparr>q_idle := th_push_back_all new (q_idle s),
          nbufs := (\<lambda>b. if b \<in> set new then nb else nbufs s b)\<rparr>
      else s)"

section \<open>Epoll registration\<close>

definition add_sock :: "int \<Rightarrow> 'c net_th \<Rightarrow> 'c net_th" where
  "add_sock k s = s\<lparr>epolled := (if k \<in> set (epolled s) then epolled s else epolled s @ [k])\<rparr>"

definition del_sock :: "int \<Rightarrow> 'c net_th \<Rightarrow> 'c net_th" where
  "del_sock k s = s\<lparr>epolled := filter (\<lambda>j. j \<noteq> k) (epolled s)\<rparr>"

text \<open>
  \<open>regSock\<close>: a connection whose socket is still open is registered again; \<open>addSock\<close> dereferences the
  pointer \<open>getData\<close> returns, which is null when the connection is no longer in the table.
\<close>

definition reg_sock :: "nat \<Rightarrow> 'c net_th \<Rightarrow> 'c net_result" where
  "reg_sock sk s =
     (if sfd s sk \<noteq> - 1
      then (case conn_find (sfd s sk) (conns s) of None \<Rightarrow> Undef | Some e \<Rightarrow> Ok (add_sock (sfd s (esock e)) s))
      else Ok s)"

section \<open>The network thread\<close>

definition add_conn :: "nat \<Rightarrow> 'c net_th \<Rightarrow> 'c net_result" where
  "add_conn sk s =
     (if running s
      then let r = conn_add (sfd s) sk (conns s) in
        (case fst r of None \<Rightarrow> Undef | Some e \<Rightarrow> Ok (add_sock (sfd s sk) (s\<lparr>conns := snd r\<rparr>)))
      else Ok s)"

text \<open>The two ways a buffer leaves a connection: back to the idle queue, or to the business threads.\<close>

definition give_back :: "int \<Rightarrow> ep_data \<Rightarrow> nat \<Rightarrow> 'c net_th \<Rightarrow> 'c net_th" where
  "give_back k e b s = push_idle b (set_ep k (e\<lparr>ebuf := None\<rparr>) s)"

definition submit :: "bool \<Rightarrow> int \<Rightarrow> ep_data \<Rightarrow> nat \<Rightarrow> 'c net_th \<Rightarrow> 'c net_th" where
  "submit cb k e b s =
     push_task b (upd_buf b (\<lambda>x. x\<lparr>refSock := Some (esock e), cbBusiFinal := cbBusiFinal x \<or> cb\<rparr>)
       (set_ep k (e\<lparr>ebuf := None\<rparr>) s))"

text \<open>The part of \<open>onEpollIn\<close> after \<open>recv\<close>; \<open>ipf\<close> is the driver's \<open>isFullPkt\<close>, \<open>sb\<close> its \<open>supportBlock\<close>.\<close>

definition after_recv :: "(ys_buf \<Rightarrow> 'c option \<Rightarrow> 32 word \<times> 'c option) \<Rightarrow> bool \<Rightarrow> int \<Rightarrow> ep_data \<Rightarrow> nat \<Rightarrow>
    32 word \<Rightarrow> 'c net_th \<Rightarrow> 'c net_th" where
  "after_recv ipf sb k e b err s =
     (if err \<noteq> 0 then give_back k e b (clear_recv b s)
      else if blen (recvData (nbufs s b)) = 0 then give_back k e b s
      else let r = ipf (recvData (nbufs s b)) (ctx (nbufs s b));
               s1 = upd_buf b (\<lambda>x. x\<lparr>ctx := snd r\<rparr>) s in
        if fst r <s 0 then give_back k e b (clear_recv b s1)
        else if bfull (recvData (nbufs s1 b))
          then if sb then submit True k e b (del_sock (sfd s1 (esock e)) s1)
            else give_back k e b (clear_recv b s1)
        else if fst r \<noteq> 0 then set_ep k (e\<lparr>ebuf := Some b\<rparr>) s1
        else submit False k e b s1)"

text \<open>
  \<open>onEpollIn\<close> for the connection filed under \<open>k\<close>: the buffer it already holds, or else a fresh timer
  and an idle buffer, receives what the kernel has.  \<open>seen\<close> is the lock counter the pop read, \<open>es\<close> the
  events of \<open>recv\<close>.
\<close>

definition on_epoll_in :: "(ys_buf \<Rightarrow> 'c option \<Rightarrow> 32 word \<times> 'c option) \<Rightarrow> bool \<Rightarrow> os_recv list \<Rightarrow> nat \<Rightarrow> u64 \<Rightarrow>
    int \<Rightarrow> 'c net_th \<Rightarrow> 'c net_result option" where
  "on_epoll_in ipf sb es seen now k s =
     (case conn_find k (conns s) of
        None \<Rightarrow> Some Undef
      | Some e0 \<Rightarrow>
          let (pbuf, e, s1) =
            (case ebuf e0 of
               Some b \<Rightarrow> (Some b, e0, s)
             | None \<Rightarrow>
                 let e = e0\<lparr>etmr := timer_start now 3000 (etmr e0)\<rparr>; p = th_pop_wait seen (q_idle s) in
                 (fst p, e, (set_ep k e s)\<lparr>q_idle := snd p\<rparr>)) in
          (case pbuf of
             None \<Rightarrow> Some (Ok s1)
           | Some b \<Rightarrow>
               (case socket_recv_buf es (recvData (nbufs s1 b)) of
                  None \<Rightarrow> None
                | Some r \<Rightarrow>
                    Some (mapO (\<lambda>(err, rd). after_recv ipf sb k e b err (upd_buf b (\<lambda>x. x\<lparr>recvData := rd\<rparr>) s1)) r))))"

text \<open>\<open>onEpollErr\<close>: see \<open>conn_del\<close> for \<open>stale\<close>.\<close>

definition on_epoll_err :: "(ep_data \<Rightarrow> ep_data option) \<Rightarrow> int \<Rightarrow> 'c net_th \<Rightarrow> 'c net_result" where
  "on_epoll_err stale k s =
     (case conn_find k (conns s) of
        None \<Rightarrow> Undef
      | Some e \<Rightarrow>
          let s1 = (case ebuf e of
                      None \<Rightarrow> s
                    | Some b \<Rightarrow> set_ep k (e\<lparr>ebuf := None\<rparr>) (push_idle b (upd_buf b clear_net_buf s))) in
          if sfd s1 (esock e) \<noteq> - 1
          then (case conn_del stale (sfd s1) (esock e) (conns s1) of
                  Undef \<Rightarrow> Undef
                | Throw u \<Rightarrow> Undef
                | Ok (cl, fr) \<Rightarrow> Ok ((del_sock (sfd s1 (esock e)) s1)\<lparr>conns := cl, freed := freed s1 @ fr\<rparr>))
          else Ok s1)"

fun push_idles :: "nat list \<Rightarrow> 'c net_th \<Rightarrow> 'c net_th" where
  "push_idles [] s = s"
| "push_idles (b # bs) s = push_idles bs (push_idle b s)"

fun clear_recvs :: "nat list \<Rightarrow> 'c net_th \<Rightarrow> 'c net_th" where
  "clear_recvs [] s = s"
| "clear_recvs (b # bs) s = clear_recvs bs (clear_recv b s)"

definition clear_timeout :: "u64 \<Rightarrow> 'c net_th \<Rightarrow> 'c net_th" where
  "clear_timeout now s =
     (let r = conn_timeout_bufs now (conns s) in
      push_idles (fst r) (clear_recvs (fst r) (s\<lparr>conns := snd r\<rparr>)))"

fun del_socks :: "nat list \<Rightarrow> 'c net_th \<Rightarrow> 'c net_th" where
  "del_socks [] s = s"
| "del_socks (sk # sks) s = del_socks sks (del_sock (sfd s sk) s)"

text \<open>Sockets closed by \<open>close()\<close> have the descriptor -1 afterwards.\<close>

fun close_socks :: "nat list \<Rightarrow> 'c net_th \<Rightarrow> 'c net_th" where
  "close_socks [] s = s"
| "close_socks (sk # sks) s =
     close_socks sks ((del_sock (sfd s sk) s)\<lparr>sfd := (sfd s)(sk := - 1)\<rparr>)"

definition clear_closed :: "u64 \<Rightarrow> 'c net_th \<Rightarrow> 'c net_th" where
  "clear_closed now s =
     (let (vt, cl, fr) = conn_closed_socks (swait s) (sfd s) (conns s);
          s1 = del_socks vt (s\<lparr>conns := cl, freed := freed s @ fr\<rparr>);
          (vt', cl', fr') = conn_timeout_socks now (sfd s1) (conns s1) in
      close_socks vt' (s1\<lparr>conns := cl', freed := freed s1 @ fr'\<rparr>))"

section \<open>The business threads\<close>

text \<open>
  \<open>YS_ProcThread::handle\<close> in its two visible steps: taking a task, and completing it (the driver's
  handler, the reply, the completion callback, and the buffer back to the idle queue).  The handler
  \<open>hdl\<close> maps the buffer to the buffer it leaves and says whether it marked the socket for closing.
  Completing a task gives the new state, the socket \<open>send\<close> was called on, and the bytes it sent there.
\<close>

definition task_take :: "nat \<Rightarrow> u32 \<Rightarrow> 'c net_th \<Rightarrow> 'c net_th" where
  "task_take seen t s =
     (let p = th_pop_wait seen (q_busi s) in
      case fst p of
        None \<Rightarrow> s
      | Some b \<Rightarrow> upd_buf b (\<lambda>x. x\<lparr>tid := t\<rparr>) (s\<lparr>q_busi := snd p, working := working s @ [b]\<rparr>))"

definition task_done :: "('c net_buf \<Rightarrow> (buf_error, 'c net_buf \<times> bool) outcome) \<Rightarrow> bool \<Rightarrow> os_send list \<Rightarrow> nat \<Rightarrow>
    'c net_th \<Rightarrow> ('c net_th \<times> nat \<times> bytes) buf_result option" where
  "task_done hdl ssl es b s =
     (case hdl (nbufs s b) of
        Throw e \<Rightarrow> Some (Throw e)
      | Undef \<Rightarrow> Some Undef
      | Ok (x, closing) \<Rightarrow>
          (case refSock x of
             None \<Rightarrow> Some Undef
           | Some sk \<Rightarrow>
               (case socket_send_buf ssl (sendData x) es of
                  None \<Rightarrow> None
                | Some (n, wire) \<Rightarrow>
                    let s1 = s\<lparr>nbufs := (nbufs s)(b := x),
                               swait := (if closing then (swait s)(sk := True) else swait s)\<rparr> in
                    Some (mapO (\<lambda>s2. (push_idle b (upd_buf b clear_net_buf (s2\<lparr>working := remove1 b (working s2)\<rparr>)), sk, wire))
                      (if cbBusiFinal x then reg_sock sk s1 else Ok s1)))))"

section \<open>Runs of the network layer\<close>

text \<open>
  One step is one handler of the network thread or one step of a business thread; the steps of the
  threads interleave freely.  A new socket is a new object with a descriptor the kernel has not
  handed out to an open connection.
\<close>

inductive net_step :: "(ys_buf \<Rightarrow> 'c option \<Rightarrow> 32 word \<times> 'c option) \<Rightarrow> bool \<Rightarrow>
    ('c net_buf \<Rightarrow> (buf_error, 'c net_buf \<times> bool) outcome) \<Rightarrow> 'c net_th \<Rightarrow> 'c net_th \<Rightarrow> bool"
  for ipf sb hdl where
  accept: "0 \<le> k \<Longrightarrow> k \<notin> fst ` set (conn_mp (conns s)) \<Longrightarrow> sk \<notin> set (conn_socks (conns s)) \<Longrightarrow>
    add_conn sk (s\<lparr>sfd := (sfd s)(sk := k), swait := (swait s)(sk := False)\<rparr>) = Ok s' \<Longrightarrow>
    net_step ipf sb hdl s s'"
| readable: "on_epoll_in ipf sb es seen now k s = Some (Ok s') \<Longrightarrow> net_step ipf sb hdl s s'"
| hangup: "on_epoll_err Some k s = Ok s' \<Longrightarrow> net_step ipf sb hdl s s'"
| timeout: "net_step ipf sb hdl s (clear_timeout now s)"
| closed: "net_step ipf sb hdl s (clear_closed now s)"
| take: "net_step ipf sb hdl s (task_take seen t s)"
| finish: "b \<in> set (working s) \<Longrightarrow> task_done hdl ssl es b s = Some (Ok (s', reply)) \<Longrightarrow>
    net_step ipf sb hdl s s'"
| stop: "net_step ipf sb hdl s (s\<lparr>running := False\<rparr>)"

inductive net_reach :: "(ys_buf \<Rightarrow> 'c option \<Rightarrow> 32 word \<times> 'c option) \<Rightarrow> bool \<Rightarrow>
    ('c net_buf \<Rightarrow> (buf_error, 'c net_buf \<times> bool) outcome) \<Rightarrow> 'c net_th \<Rightarrow> 'c net_th \<Rightarrow> bool"
  for ipf sb hdl s0 where
  init: "net_reach ipf sb hdl s0 s0"
| step: "net_reach ipf sb hdl s0 s \<Longrightarrow> net_step ipf sb hdl s s' \<Longrightarrow> net_reach ipf sb hdl s0 s'"

inductive_cases net_step_cases: "net_step ipf sb hdl s s'"

section \<open>Every buffer has one owner\<close>

definition owned :: "'c net_th \<Rightarrow> nat multiset" where
  "owned s = mset (q_items (q_idle s)) + mset (q_items (q_busi s)) + mset (working s) +
     held (conns s) + mset (freed s)"

abbreviation table_wf :: "'c net_th \<Rightarrow> bool" where
  "table_wf s \<equiv> conn_wf (sfd s) (conns s)"

lemma owned_upd_buf [simp]: "owned (upd_buf b f s) = owned s" "owned (clear_recv b s) = owned s"
  by (simp_all add: upd_buf_def clear_recv_def owned_def)

lemma owned_push [simp]:
  "owned (push_idle b s) = add_mset b (owned s)" "owned (push_task b s) = add_mset b (owned s)"
  by (simp_all add: push_idle_def push_task_def owned_def wq.push_items)

lemma owned_del_sock [simp]: "owned (del_sock k s) = owned s" "owned (add_sock k s) = owned s"
  by (simp_all add: del_sock_def add_sock_def owned_def)

lemma owned_set_ep:
  assumes "table_wf s" and "conn_find k (conns s) = Some d"
  shows "owned (set_ep k e s) + mset (ep_bufs [d]) = owned s + mset (ep_bufs [e])"
  using held_set [OF assms, of e] by (simp add: owned_def set_ep_def ac_simps)

lemma table_simps [simp]:
  "conns (upd_buf b f s) = conns s" "sfd (upd_buf b f s) = sfd s"
  "conns (clear_recv b s) = conns s" "sfd (clear_recv b s) = sfd s"
  "conns (push_idle b s) = conns s" "sfd (push_idle b s) = sfd s"
  "conns (push_task b s) = conns s" "sfd (push_task b s) = sfd s"
  "conns (add_sock k s) = conns s" "sfd (add_sock k s) = sfd s"
  "conns (del_sock k s) = conns s" "sfd (del_sock k s) = sfd s"
  "conns (set_ep k e s) = conn_set k e (conns s)" "sfd (set_ep k e s) = sfd s"
  by (simp_all add: upd_buf_def clear_recv_def push_idle_def push_task_def add_sock_def del_sock_def set_ep_def)

lemma conn_find_set: "conn_find k cl = Some d \<Longrightarrow> conn_find k (conn_set k e cl) = Some e"
proof -
  have "map_of mp k = Some d \<Longrightarrow> map_of (map (\<lambda>(j, d). if j = k then (j, e) else (j, d)) mp) k = Some e" for mp
    by (induction mp) (auto split: if_splits)
  then show "conn_find k cl = Some d \<Longrightarrow> conn_find k (conn_set k e cl) = Some e"
    by (simp add: conn_find_def conn_set_def)
qed

lemma owned_give_back:
  assumes "table_wf s" and "conn_find k (conns s) = Some d" and "ep_bufs [d] = ep_bufs [e]"
    and "ebuf e = None \<or> ebuf e = Some b"
  shows "owned (give_back k e b s) = owned s + (if ebuf e = None then {#b#} else {#})"
    and "owned (submit cb k e b s) = owned s + (if ebuf e = None then {#b#} else {#})"
    and "owned (set_ep k (e\<lparr>ebuf := Some b\<rparr>) s) = owned s + (if ebuf e = None then {#b#} else {#})"
proof -
  have "owned (set_ep k (e\<lparr>ebuf := None\<rparr>) s) + mset (ep_bufs [d]) = owned s"
    using owned_set_ep [OF assms(1,2), of "e\<lparr>ebuf := None\<rparr>"] by simp
  then show "owned (give_back k e b s) = owned s + (if ebuf e = None then {#b#} else {#})"
    "owned (submit cb k e b s) = owned s + (if ebuf e = None then {#b#} else {#})"
    using assms(3,4) by (auto simp: give_back_def submit_def)
  show "owned (set_ep k (e\<lparr>ebuf := Some b\<rparr>) s) = owned s + (if ebuf e = None then {#b#} else {#})"
    using owned_set_ep [OF assms(1,2), of "e\<lparr>ebuf := Some b\<rparr>"] assms(3,4) by auto
qed

lemma owned_after_recv:
  assumes "table_wf s" and "conn_find k (conns s) = Some e" and "ebuf e = None \<or> ebuf e = Some b"
  shows "owned (after_recv ipf sb k e b err s) = owned s + (if ebuf e = None then {#b#} else {#})"
proof -
  note g = owned_give_back [where d = e and e = e and b = b, OF _ _ refl assms(3)]
  show ?thesis
    using assms(1,2) by (auto simp: after_recv_def Let_def g)
qed

lemma table_after_recv:
  assumes "table_wf s" and "conn_find k (conns s) = Some e"
  shows "table_wf (after_recv ipf sb k e b err s) \<and> sfd (after_recv ipf sb k e b err s) = sfd s"
proof -
  have k: "sfd s (esock e) = k" by (rule conn_find_wf [OF assms])
  then have "conn_wf (sfd s) (conn_set k (e\<lparr>ebuf := x\<rparr>) (conns s))" for x
    by (intro conn_set_wf assms(1)) simp
  then show ?thesis
    by (auto simp: after_recv_def Let_def give_back_def submit_def)
qed

lemma on_epoll_in_owned:
  assumes wf: "table_wf s" and step: "on_epoll_in ipf sb es seen now k s = Some (Ok s')"
  shows "owned s' = owned s \<and> table_wf s'"
proof -
  obtain e0 where e0: "conn_find k (conns s) = Some e0"
    using step by (auto simp: on_epoll_in_def split: option.splits)
  have k0: "sfd s (esock e0) = k" by (rule conn_find_wf [OF wf e0])
  show ?thesis
  proof (cases "ebuf e0")
    case (Some b)
    with step e0 obtain err rd where
      s': "s' = after_recv ipf sb k e0 b err (upd_buf b (\<lambda>x. x\<lparr>recvData := rd\<rparr>) s)"
      by (auto simp: on_epoll_in_def out_simps split: option.splits)
    have f: "conn_find k (conns (upd_buf b (\<lambda>x. x\<lparr>recvData := rd\<rparr>) s)) = Some e0" using e0 by simp
    show ?thesis
      using owned_after_recv [OF _ f, of b ipf sb err] table_after_recv [OF _ f, of ipf sb b err] wf Some
      by (auto simp: s')
  next
    case None
    define e where "e = e0\<lparr>etmr := timer_start now 3000 (etmr e0)\<rparr>"
    define q where "q = th_pop_wait seen (q_idle s)"
    define s1 where "s1 = (set_ep k e s)\<lparr>q_idle := snd q\<rparr>"
    have ee: "ebuf e = None" "ep_bufs [e] = ep_bufs [e0]" "sfd s (esock e) = k" using None k0 by (simp_all add: e_def)
    have wf1: "table_wf s1" and f1: "conn_find k (conns s1) = Some e"
      using conn_set_wf [OF wf ee(3)] conn_find_set [OF e0, of e] by (simp_all add: s1_def)
    have o1: "owned s1 + (case fst q of None \<Rightarrow> {#} | Some b \<Rightarrow> {#b#}) = owned s"
    proof -
      have "held (conn_set k e (conns s)) = held (conns s)"
        using held_set [OF wf e0, of e] ee(2) by simp
      then show ?thesis
        using wq.pop_mset [of "q_idle s" seen] by (simp add: owned_def s1_def q_def set_ep_def ac_simps)
    qed
    show ?thesis
    proof (cases "fst q")
      case None
      with step e0 \<open>ebuf e0 = None\<close> have "s' = s1"
        by (simp add: on_epoll_in_def Let_def e_def q_def s1_def)
      with o1 wf1 None show ?thesis by simp
    next
      case (Some b)
      with step e0 \<open>ebuf e0 = None\<close> obtain err rd where
        s': "s' = after_recv ipf sb k e b err (upd_buf b (\<lambda>x. x\<lparr>recvData := rd\<rparr>) s1)"
        by (auto simp: on_epoll_in_def Let_def out_simps e_def q_def s1_def split: option.splits)
      have f: "conn_find k (conns (upd_buf b (\<lambda>x. x\<lparr>recvData := rd\<rparr>) s1)) = Some e" using f1 by simp
      show ?thesis
        using owned_after_recv [OF _ f, of b ipf sb err] table_after_recv [OF _ f, of ipf sb b err] wf1 ee o1 Some
        by (auto simp: s')
    qed
  qed
qed

lemma owned_push_idles: "owned (push_idles bs s) = mset bs + owned s"
  by (induction bs arbitrary: s) simp_all

lemma owned_clear_recvs [simp]: "owned (clear_recvs bs s) = owned s"
  by (induction bs arbitrary: s) simp_all

lemma table_lists [simp]:
  "conns (push_idles bs s) = conns s" "sfd (push_idles bs s) = sfd s"
  "conns (clear_recvs bs s) = conns s" "sfd (clear_recvs bs s) = sfd s"
  by (induction bs arbitrary: s) simp_all

lemma swait_del_sock [simp]: "swait (del_sock k s) = swait s" by (simp add: del_sock_def)

lemma table_sock_lists [simp]:
  "conns (del_socks sks s) = conns s" "sfd (del_socks sks s) = sfd s" "swait (del_socks sks s) = swait s"
  "conns (close_socks sks s) = conns s"
  by (induction sks arbitrary: s) simp_all

lemma owned_sock_lists [simp]:
  "owned (del_socks sks s) = owned s" "owned (close_socks sks s) = owned s"
proof -
  show "owned (del_socks sks s) = owned s" by (induction sks arbitrary: s) simp_all
  have "owned (s\<lparr>sfd := f\<rparr>) = owned s" for s :: "'a net_th" and f by (simp add: owned_def)
  then show "owned (close_socks sks s) = owned s" by (induction sks arbitrary: s) simp_all
qed

lemma close_socks_sfd: "sk \<notin> set sks \<Longrightarrow> sfd (close_socks sks s) sk = sfd s sk"
  by (induction sks arbitrary: s) simp_all

lemma conn_wf_cong:
  assumes "conn_wf fd cl" and "\<And>k e. (k, e) \<in> set (conn_mp cl) \<Longrightarrow> fd' (esock e) = fd (esock e)"
  shows "conn_wf fd' cl"
  using assms by (auto simp: conn_wf_def)

lemma conn_drop_socks:
  assumes "conn_wf fd cl" and "(k, e) \<in> set (conn_mp (fst (snd (conn_drop P fd cl))))"
  shows "esock e \<notin> set (fst (conn_drop P fd cl))"
  using assms by (fastforce simp: conn_drop_def Let_def conn_erase_def conn_wf_def)

lemma clear_timeout_owned: "table_wf s \<Longrightarrow> owned (clear_timeout now s) = owned s \<and> table_wf (clear_timeout now s)"
  using conn_timeout_bufs_held [of "conns s" now] conn_timeout_bufs_wf [of "sfd s" "conns s" now]
  by (simp add: clear_timeout_def Let_def owned_push_idles) (simp add: owned_def ac_simps)

lemma conn_timeout_socks_drop:
  "conn_timeout_socks now fd cl = conn_drop (\<lambda>e. conn_tmout cl \<noteq> 0 \<and> timer_count now (etmr e) > conn_tmout cl) fd cl"
  by (auto simp: conn_timeout_socks_def conn_drop_def conn_erase_def)

lemma clear_closed_owned:
  assumes wf: "table_wf s"
  shows "owned (clear_closed now s) = owned s \<and> table_wf (clear_closed now s)"
proof -
  obtain vt cl fr where d1: "conn_closed_socks (swait s) (sfd s) (conns s) = (vt, cl, fr)"
    by (cases "conn_closed_socks (swait s) (sfd s) (conns s)") auto
  have h1: "held (conns s) = held cl + mset fr" and wf1: "conn_wf (sfd s) cl"
    using conn_drop_held [OF wf, of "\<lambda>e. swait s (esock e)"] conn_drop_wf [OF wf, of "\<lambda>e. swait s (esock e)"] d1
    by (simp_all add: conn_closed_socks_def)
  let ?P = "\<lambda>e. conn_tmout cl \<noteq> 0 \<and> timer_count now (etmr e) > conn_tmout cl"
  obtain vt' cl' fr' where d2: "conn_timeout_socks now (sfd s) cl = (vt', cl', fr')"
    by (cases "conn_timeout_socks now (sfd s) cl") auto
  then have d2': "conn_drop ?P (sfd s) cl = (vt', cl', fr')" by (simp only: conn_timeout_socks_drop)
  have h2: "held cl = held cl' + mset fr'" and wf2: "conn_wf (sfd s) cl'"
    using conn_drop_held [OF wf1, of ?P] conn_drop_wf [OF wf1, of ?P] by (simp_all add: d2')
  define s2 where "s2 = (del_socks vt (s\<lparr>conns := cl, freed := freed s @ fr\<rparr>))\<lparr>conns := cl',
    freed := freed (del_socks vt (s\<lparr>conns := cl, freed := freed s @ fr\<rparr>)) @ fr'\<rparr>"
  have s': "clear_closed now s = close_socks vt' s2"
    by (simp add: clear_closed_def d1 d2 Let_def s2_def)
  have fr1: "freed (del_socks sks t) = freed t" for sks and t :: "'a net_th"
    by (induction sks arbitrary: t) (simp_all add: del_sock_def)
  have parts: "q_idle (del_socks sks t) = q_idle t" "q_busi (del_socks sks t) = q_busi t"
    "working (del_socks sks t) = working t" for sks and t :: "'a net_th"
    by (induction sks arbitrary: t) (simp_all add: del_sock_def)
  have "owned s2 = owned s"
    using h1 h2 by (simp add: s2_def owned_def fr1 parts ac_simps)
  moreover have "conn_wf (sfd (close_socks vt' s2)) cl'"
  proof (rule conn_wf_cong [OF wf2])
    fix k e assume "(k, e) \<in> set (conn_mp cl')"
    then have "esock e \<notin> set vt'" using conn_drop_socks [OF wf1, of k e ?P] by (simp add: d2')
    then show "sfd (close_socks vt' s2) (esock e) = sfd s (esock e)"
      by (simp add: close_socks_sfd s2_def)
  qed
  ultimately show ?thesis by (simp add: s' s2_def)
qed

lemma on_epoll_err_owned:
  assumes wf: "table_wf s" and step: "on_epoll_err Some k s = Ok s'"
  shows "owned s' = owned s \<and> table_wf s'"
proof -
  obtain e where e: "conn_find k (conns s) = Some e"
    using step by (auto simp: on_epoll_err_def split: option.splits)
  have k: "sfd s (esock e) = k" by (rule conn_find_wf [OF wf e])
  define s1 where "s1 = (case ebuf e of None \<Rightarrow> s
    | Some b \<Rightarrow> set_ep k (e\<lparr>ebuf := None\<rparr>) (push_idle b (upd_buf b clear_net_buf s)))"
  have s1: "table_wf s1" "sfd s1 = sfd s" "conn_find k (conns s1) = Some (e\<lparr>ebuf := None\<rparr>)" "owned s1 = owned s"
  proof -
    show "table_wf s1" "sfd s1 = sfd s"
      using wf k conn_set_wf [OF wf, of "e\<lparr>ebuf := None\<rparr>" k] by (auto simp: s1_def split: option.splits)
    show "conn_find k (conns s1) = Some (e\<lparr>ebuf := None\<rparr>)"
      using e conn_find_set [OF e] by (cases "ebuf e") (auto simp: s1_def)
    show "owned s1 = owned s"
    proof (cases "ebuf e")
      case (Some b)
      let ?t = "push_idle b (upd_buf b clear_net_buf s)"
      have "owned (set_ep k (e\<lparr>ebuf := None\<rparr>) ?t) + mset (ep_bufs [e]) = owned ?t + mset (ep_bufs [e\<lparr>ebuf := None\<rparr>])"
        by (rule owned_set_ep) (use wf e in simp_all)
      with Some show ?thesis by (simp add: s1_def)
    qed (simp add: s1_def)
  qed
  show ?thesis
  proof (cases "sfd s1 (esock e) = - 1")
    case True
    with step e have "s' = s1" by (simp add: on_epoll_err_def Let_def s1_def)
    with s1 show ?thesis by simp
  next
    case False
    let ?cl = "(conns s1)\<lparr>conn_mp := conn_erase [k] (conn_mp (conns s1))\<rparr>"
    have "conn_del Some (sfd s1) (esock e) (conns s1) = Ok (?cl, [])"
      using s1(2,3) k by (simp add: conn_del_def)
    with step e False have s': "s' = (del_sock (sfd s1 (esock e)) s1)\<lparr>conns := ?cl, freed := freed s1\<rparr>"
      by (simp add: on_epoll_err_def Let_def s1_def)
    have "held ?cl = held (conns s1)"
    proof -
      let ?P = "\<lambda>d. d = e\<lparr>ebuf := None\<rparr>"
      have in1: "(k, e\<lparr>ebuf := None\<rparr>) \<in> set (conn_mp (conns s1))"
        using s1(3) by (simp add: conn_find_def map_of_SomeD)
      have "mset (ep_bufs (filter ?P es)) = {#}" for es by (induction es) auto
      moreover have "set (map (sfd s1) (map esock (filter ?P (map snd (conn_mp (conns s1)))))) = {k}"
        using in1 s1(2) k by force
      then have "conn_erase (map (sfd s1) (map esock (filter ?P (map snd (conn_mp (conns s1)))))) (conn_mp (conns s1)) =
          conn_erase [k] (conn_mp (conns s1))" by (simp only: conn_erase_def list.set)
      ultimately show ?thesis
        using conn_drop_held [OF s1(1), of ?P] by (simp add: conn_drop_def Let_def)
    qed
    then have "owned s' = owned s1"
      by (simp add: s' owned_def del_sock_def)
    with s1(4) conn_erase_wf [OF s1(1), of "[k]"] show ?thesis by (simp add: s')
  qed
qed

lemma add_conn_owned:
  assumes "table_wf s" and "add_conn sk s = Ok s'"
  shows "owned s' = owned s \<and> table_wf s'"
  using assms conn_add_held [of "sfd s" sk "conns s"] conn_add_wf [of "sfd s" "conns s" sk]
  by (auto simp: add_conn_def Let_def owned_def add_sock_def split: if_splits option.splits)

lemma accept_wf:
  assumes "table_wf s" and "sk \<notin> set (conn_socks (conns s))"
  shows "conn_wf ((sfd s)(sk := k)) (conns s)"
  using assms by (intro conn_wf_cong [OF assms(1)]) (force simp: conn_socks_def)

lemma task_take_owned: "owned (task_take seen t s) = owned s \<and> conns (task_take seen t s) = conns s \<and> sfd (task_take seen t s) = sfd s"
  using wq.pop_mset [of "q_busi s" seen]
  by (auto simp: task_take_def Let_def upd_buf_def owned_def split: option.splits)

lemma reg_sock_owned: "reg_sock sk s = Ok s' \<Longrightarrow> \<exists>f. s' = s\<lparr>epolled := f\<rparr>"
  by (rule exI [of _ "epolled s'"]) (auto simp: reg_sock_def add_sock_def split: if_splits option.splits)

lemma task_done_cases:
  assumes "task_done hdl ssl es b s = Some (Ok (s', reply))"
  shows "\<exists>x w f. s' = push_idle b (upd_buf b clear_net_buf
    (s\<lparr>nbufs := (nbufs s)(b := x), swait := w, epolled := f, working := remove1 b (working s)\<rparr>))"
proof -
  obtain x closing where x: "hdl (nbufs s b) = Ok (x, closing)"
    using assms by (auto simp: task_done_def split: outcome.splits)
  then obtain sk n wire where sk: "refSock x = Some sk" "socket_send_buf ssl (sendData x) es = Some (n, wire)"
    using assms by (auto simp: task_done_def out_simps Let_def split: option.splits)
  define s1 where "s1 = s\<lparr>nbufs := (nbufs s)(b := x), swait := (if closing then (swait s)(sk := True) else swait s)\<rparr>"
  let ?fin = "\<lambda>s2. (push_idle b (upd_buf b clear_net_buf (s2\<lparr>working := remove1 b (working s2)\<rparr>)), sk, wire)"
  have "task_done hdl ssl es b s = Some (mapO ?fin (if cbBusiFinal x then reg_sock sk s1 else Ok s1))"
    using x sk by (simp add: task_done_def Let_def s1_def)
  with assms have "mapO ?fin (if cbBusiFinal x then reg_sock sk s1 else Ok s1) = Ok (s', reply)" by simp
  then obtain s2 where s2: "(if cbBusiFinal x then reg_sock sk s1 else Ok s1) = Ok s2"
      "s' = push_idle b (upd_buf b clear_net_buf (s2\<lparr>working := remove1 b (working s2)\<rparr>))"
    by (auto simp only: mapO_eq_Ok prod.inject)
  have "\<exists>f. s2 = s1\<lparr>epolled := f\<rparr>"
    using s2(1) reg_sock_owned [of sk s1 s2] by (cases "cbBusiFinal x") (auto intro: exI [of _ "epolled s1"])
  then obtain f where "s2 = s1\<lparr>epolled := f\<rparr>" ..
  with s2(2) have "s' = push_idle b (upd_buf b clear_net_buf
    (s\<lparr>nbufs := (nbufs s)(b := x), swait := swait s1, epolled := f, working := remove1 b (working s)\<rparr>))"
    by (simp add: s1_def)
  then show ?thesis by blast
qed

lemma task_done_owned:
  assumes "b \<in> set (working s)" and "task_done hdl ssl es b s = Some (Ok (s', reply))"
  shows "owned s' = owned s \<and> conns s' = conns s \<and> sfd s' = sfd s"
proof -
  obtain x w f where s': "s' = push_idle b (upd_buf b clear_net_buf
    (s\<lparr>nbufs := (nbufs s)(b := x), swait := w, epolled := f, working := remove1 b (working s)\<rparr>))"
    using task_done_cases [OF assms(2)] by blast
  have "mset (working s) = add_mset b (mset (remove1 b (working s)))" using assms(1) by simp
  then show ?thesis by (simp add: s') (simp add: owned_def)
qed

lemma net_step_owned:
  "net_step ipf sb hdl s s' \<Longrightarrow> table_wf s \<Longrightarrow> owned s' = owned s \<and> table_wf s'"
proof (induction rule: net_step.induct)
  case (accept k s sk s')
  let ?t = "s\<lparr>sfd := (sfd s)(sk := k), swait := (swait s)(sk := False)\<rparr>"
  have "table_wf ?t" using accept_wf [OF accept(5,3)] by simp
  from add_conn_owned [OF this accept(4)] show ?case by (simp add: owned_def)
next
  case (readable es seen now k s s')
  then show ?case using on_epoll_in_owned by blast
next
  case (hangup k s s')
  then show ?case using on_epoll_err_owned by blast
next
  case (timeout s now)
  then show ?case by (rule clear_timeout_owned)
next
  case (closed s now)
  then show ?case by (rule clear_closed_owned)
next
  case (take s seen t)
  then show ?case using task_take_owned by metis
next
  case (finish b s ssl es s' reply)
  then show ?case using task_done_owned by metis
next
  case (stop s)
  then show ?case by (simp add: owned_def)
qed

section \<open>The start state\<close>

definition net_empty :: "'c net_buf \<Rightarrow> 'c net_th" where
  "net_empty nb = \<lparr>nbufs = (\<lambda>_. nb), q_idle = th_new, q_busi = th_new, working = [], freed = [],
     conns = conn_new, sfd = (\<lambda>_. - 1), swait = (\<lambda>_. False), epolled = [], running = True\<rparr>"

text \<open>\<open>setBufQueueSize(n)\<close> before the thread starts.\<close>

definition net_start :: "'c net_buf \<Rightarrow> u32 \<Rightarrow> 'c net_th" where
  "net_start nb n = net_resize nb [0..<unat n] n (net_empty nb)"

lemma net_start_owned: "owned (net_start nb n) = mset [0..<unat n] \<and> table_wf (net_start nb n)"
  by (auto simp: net_start_def net_resize_def net_empty_def th_new_def owned_def held_def conn_new_def
      conn_wf_def th_push_back_all_items Let_def)

lemma net_reach_owned:
  "net_reach ipf sb hdl s0 s \<Longrightarrow> table_wf s0 \<Longrightarrow> owned s = owned s0 \<and> table_wf s"
proof (induction rule: net_reach.induct)
  case init
  then show ?case by simp
next
  case (step s s')
  then show ?case using net_step_owned [of ipf sb hdl s s'] by simp
qed

text \<open>
  C1: every network buffer has exactly one owner at all times.  Whatever the interleaving of accepts,
  readable and failing sockets, time-outs, closings and business threads, each buffer of the pool is
  in exactly one place: the idle queue, the busy queue, one business thread, one connection, or
  deleted.  No buffer is ever queued twice, and none that was deleted is in use.
\<close>

theorem net_one_owner:
  assumes "net_reach ipf sb hdl (net_start nb n) s" and "b < unat n"
  shows "count_list (q_items (q_idle s)) b + count_list (q_items (q_busi s)) b + count_list (working s) b +
    count (held (conns s)) b + count_list (freed s) b = 1"
proof -
  have "owned s = mset [0..<unat n]"
    using net_reach_owned [OF assms(1)] net_start_owned [of nb n] by simp
  then have "count (owned s) b = count (mset [0..<unat n]) b" by simp
  also have "\<dots> = 1" using assms(2) by (simp add: count_mset count_list_eq_length_filter distinct_count_atmost_1)
  finally show ?thesis by (simp add: owned_def count_mset)
qed

section \<open>Idle buffers are empty\<close>

definition clean :: "'c net_th \<Rightarrow> bool" where
  "clean s \<longleftrightarrow> (\<forall>b \<in> set (q_items (q_idle s)). blen (recvData (nbufs s b)) = 0) \<and>
     (\<forall>b. b \<notin> set (working s) \<longrightarrow> blen (sendData (nbufs s b)) = 0)"

definition sole :: "'c net_th \<Rightarrow> bool" where "sole s \<longleftrightarrow> (\<forall>b. count (owned s) b \<le> 1)"

lemma clean_push_idle: "clean s \<Longrightarrow> blen (recvData (nbufs s b)) = 0 \<Longrightarrow> clean (push_idle b s)"
  by (auto simp: clean_def push_idle_def wq.push_items)

lemma clean_other:
  "clean (push_task b s) = clean s" "clean (set_ep k e s) = clean s" "clean (del_sock k s) = clean s"
  "clean (add_sock k s) = clean s"
  by (auto simp: clean_def push_task_def set_ep_def del_sock_def add_sock_def)

lemma clean_clear_recv: "clean s \<Longrightarrow> clean (clear_recv b s)"
  by (auto simp: clean_def clear_recv_def upd_buf_def clear_buf_def)

lemma clear_recv_blen [simp]: "blen (recvData (nbufs (clear_recv b s) b)) = 0"
  by (simp add: clear_recv_def upd_buf_def clear_buf_def)

lemma clean_upd_data:
  assumes "\<And>x. recvData (f x) = recvData x" and "\<And>x. sendData (f x) = sendData x"
  shows "clean (upd_buf b f s) = clean s"
  using assms by (auto simp: clean_def upd_buf_def)

lemma nbufs_simps [simp]:
  "nbufs (set_ep k e s) = nbufs s" "nbufs (del_sock k s) = nbufs s" "nbufs (push_idle b s) = nbufs s"
  "nbufs (push_task b s) = nbufs s" "nbufs (add_sock k s) = nbufs s"
  by (simp_all add: set_ep_def del_sock_def push_idle_def push_task_def add_sock_def)

lemma clean_after_recv:
  assumes "clean s"
  shows "clean (after_recv ipf sb k e b err s)"
proof -
  have g: "clean (give_back k e b t)" if "clean t" "blen (recvData (nbufs t b)) = 0" for t
    using that by (auto simp: give_back_def clean_other intro!: clean_push_idle)
  have u: "clean (submit cb k e b t)" if "clean t" for t cb
    using that by (simp add: submit_def clean_other clean_upd_data)
  show ?thesis
    using assms
    by (auto simp: after_recv_def Let_def clean_upd_data clean_other intro!: g u clean_clear_recv)
qed

lemma sole_split:
  assumes "sole s" and "x \<in># held (conns s)"
  shows "x \<notin> set (q_items (q_idle s))"
proof
  assume "x \<in> set (q_items (q_idle s))"
  then have "1 \<le> count (mset (q_items (q_idle s))) x" by (simp only: count_greater_eq_one_iff set_mset_mset)
  moreover have "1 \<le> count (held (conns s)) x" using assms(2) by (simp only: count_greater_eq_one_iff)
  ultimately have "2 \<le> count (owned s) x" unfolding owned_def count_union by linarith
  with assms(1) show False by (auto simp: sole_def dest: spec [of _ x])
qed

lemma find_held: "conn_find k cl = Some e \<Longrightarrow> ebuf e = Some b \<Longrightarrow> b \<in># held cl"
proof -
  have "map_of mp k = Some e \<Longrightarrow> ebuf e = Some b \<Longrightarrow> b \<in> set (ep_bufs (map snd mp))" for mp
    by (induction mp) (auto split: if_splits)
  then show "conn_find k cl = Some e \<Longrightarrow> ebuf e = Some b \<Longrightarrow> b \<in># held cl"
    by (simp add: conn_find_def held_def)
qed

lemma clean_recv_data:
  assumes "clean s" and "b \<notin> set (q_items (q_idle s))"
  shows "clean (upd_buf b (\<lambda>x. x\<lparr>recvData := rd\<rparr>) s)"
  using assms by (auto simp: clean_def upd_buf_def)

lemma on_epoll_in_clean:
  assumes "sole s" and "clean s" and step: "on_epoll_in ipf sb es seen now k s = Some (Ok s')"
  shows "clean s'"
proof -
  obtain e0 where e0: "conn_find k (conns s) = Some e0"
    using step by (auto simp: on_epoll_in_def split: option.splits)
  show ?thesis
  proof (cases "ebuf e0")
    case (Some b)
    with step e0 obtain err rd where
      s': "s' = after_recv ipf sb k e0 b err (upd_buf b (\<lambda>x. x\<lparr>recvData := rd\<rparr>) s)"
      by (auto simp: on_epoll_in_def out_simps split: option.splits)
    have "b \<notin> set (q_items (q_idle s))"
      by (rule sole_split [OF assms(1) find_held [OF e0 Some]])
    then show ?thesis unfolding s' by (intro clean_after_recv clean_recv_data assms(2))
  next
    case None
    define e where "e = e0\<lparr>etmr := timer_start now 3000 (etmr e0)\<rparr>"
    define q where "q = th_pop_wait seen (q_idle s)"
    define s1 where "s1 = (set_ep k e s)\<lparr>q_idle := snd q\<rparr>"
    have c1: "clean s1"
      using assms(2) wq.pop_subset [of seen "q_idle s"] by (auto simp: clean_def s1_def q_def)
        (auto simp: set_ep_def)
    show ?thesis
    proof (cases "fst q")
      case None
      with step e0 \<open>ebuf e0 = None\<close> have "s' = s1"
        by (simp add: on_epoll_in_def Let_def e_def q_def s1_def)
      with c1 show ?thesis by simp
    next
      case (Some b)
      with step e0 \<open>ebuf e0 = None\<close> obtain err rd where
        s': "s' = after_recv ipf sb k e b err (upd_buf b (\<lambda>x. x\<lparr>recvData := rd\<rparr>) s1)"
        by (auto simp: on_epoll_in_def Let_def out_simps e_def q_def s1_def split: option.splits)
      have items: "q_items (q_idle s) = b # q_items (snd q)"
        using wq.pop_some Some by (simp add: q_def)
      have "count (mset (q_items (q_idle s))) b \<le> 1"
        using assms(1) unfolding sole_def by (metis (no_types, lifting) add_leD1 count_union owned_def)
      with items have "b \<notin> set (q_items (q_idle s1))"
        by (simp add: s1_def count_mset count_list_0_iff)
      then show ?thesis unfolding s' by (intro clean_after_recv clean_recv_data c1)
    qed
  qed
qed

lemma clean_clear_recvs: "clean s \<Longrightarrow> clean (clear_recvs bs s)"
  by (induction bs arbitrary: s) (simp_all add: clean_clear_recv)

lemma clear_recvs_blen: "b \<in> set bs \<or> blen (recvData (nbufs s b)) = 0 \<Longrightarrow> blen (recvData (nbufs (clear_recvs bs s) b)) = 0"
proof (induction bs arbitrary: s)
  case Nil
  then show ?case by simp
next
  case (Cons a bs)
  have "b \<in> set bs \<or> blen (recvData (nbufs (clear_recv a s) b)) = 0"
    using Cons.prems by (auto simp: clear_recv_def upd_buf_def clear_buf_def)
  then show ?case using Cons.IH by simp
qed

lemma clean_push_idles:
  "clean s \<Longrightarrow> \<forall>b \<in> set bs. blen (recvData (nbufs s b)) = 0 \<Longrightarrow> clean (push_idles bs s)"
  by (induction bs arbitrary: s) (simp_all add: clean_push_idle)

lemma clean_tables [simp]: "clean (s\<lparr>conns := c\<rparr>) = clean s" "clean (s\<lparr>freed := fr\<rparr>) = clean s"
  "clean (s\<lparr>sfd := f\<rparr>) = clean s" "clean (s\<lparr>swait := w\<rparr>) = clean s" "clean (s\<lparr>epolled := p\<rparr>) = clean s"
  "clean (s\<lparr>running := r\<rparr>) = clean s"
  by (simp_all add: clean_def)

lemma clean_sock_lists [simp]: "clean (del_socks sks s) = clean s" "clean (close_socks sks s) = clean s"
  by (induction sks arbitrary: s) (simp_all add: clean_other)

lemma net_step_clean:
  "net_step ipf sb hdl s s' \<Longrightarrow> sole s \<Longrightarrow> clean s \<Longrightarrow> clean s'"
proof (induction rule: net_step.induct)
  case (accept k s sk s')
  then show ?case
    by (auto simp: add_conn_def Let_def clean_other split: if_splits option.splits)
next
  case (readable es seen now k s s')
  then show ?case using on_epoll_in_clean by blast
next
  case (hangup k s s')
  have "clean (push_idle b (upd_buf b clear_net_buf s))" for b
    using hangup(3) by (auto simp: clean_def push_idle_def upd_buf_def clear_net_buf_def clear_buf_def wq.push_items)
  with hangup show ?case
    by (auto simp: on_epoll_err_def Let_def clean_other split: option.splits if_splits outcome.splits)
next
  case (timeout s now)
  then show ?case
    by (auto simp: clear_timeout_def Let_def clear_recvs_blen intro!: clean_push_idles clean_clear_recvs)
next
  case (closed s now)
  then show ?case by (simp add: clear_closed_def Let_def split: prod.splits)
next
  case (take s seen t)
  have "clean (s\<lparr>q_busi := q, working := working s @ [b]\<rparr>)" for q b
    using take(2) by (simp add: clean_def)
  then show ?case using take(2)
    by (auto simp: task_take_def Let_def clean_upd_data split: option.splits)
next
  case (finish b s ssl es s' reply)
  then obtain x w f where "s' = push_idle b (upd_buf b clear_net_buf
    (s\<lparr>nbufs := (nbufs s)(b := x), swait := w, epolled := f, working := remove1 b (working s)\<rparr>))"
    using task_done_cases by blast
  moreover have "c \<in> set (working s)" if "c \<noteq> b" "blen (sendData (nbufs s c)) \<noteq> 0" for c
    using finish(4) that by (auto simp: clean_def)
  ultimately show ?case using finish(4)
    by (auto simp: clean_def push_idle_def upd_buf_def clear_net_buf_def clear_buf_def wq.push_items)
next
  case (stop s)
  then show ?case by simp
qed

lemma net_start_sole: "sole (net_start nb n)"
  using net_start_owned [of nb n] by (auto simp: sole_def count_mset_set')

lemma net_reach_sole: "net_reach ipf sb hdl s0 s \<Longrightarrow> table_wf s0 \<Longrightarrow> sole s0 \<Longrightarrow> sole s"
  using net_reach_owned [of ipf sb hdl s0 s] by (simp add: sole_def)

lemma net_reach_clean:
  "net_reach ipf sb hdl s0 s \<Longrightarrow> table_wf s0 \<Longrightarrow> sole s0 \<Longrightarrow> clean s0 \<Longrightarrow> clean s"
proof (induction rule: net_reach.induct)
  case init
  then show ?case by simp
next
  case (step s s')
  then show ?case using net_step_clean [of ipf sb hdl s s'] net_reach_sole [of ipf sb hdl s0 s] by simp
qed

lemma new_net_buf_empty:
  "new_net_buf junk mx t = Ok nb \<Longrightarrow> blen (recvData nb) = 0 \<and> blen (sendData nb) = 0 \<and> ctx nb = None"
proof -
  have "alloc_buf junk mx size32KB empty_buf = Ok r \<Longrightarrow> blen r = 0" for r
    by (auto simp: alloc_buf_def empty_buf_def size32KB_def Let_def out_simps split: if_splits)
  then show "new_net_buf junk mx t = Ok nb \<Longrightarrow> blen (recvData nb) = 0 \<and> blen (sendData nb) = 0 \<and> ctx nb = None"
    by (auto simp: new_net_buf_def out_simps)
qed

lemma net_start_clean: "new_net_buf junk mx t = Ok nb \<Longrightarrow> clean (net_start nb n)"
  using new_net_buf_empty [of junk mx t nb]
  by (auto simp: clean_def net_start_def net_resize_def net_empty_def Let_def)

lemma idle_not_working: "sole s \<Longrightarrow> b \<in> set (q_items (q_idle s)) \<Longrightarrow> b \<notin> set (working s)"
proof
  assume s: "sole s" and "b \<in> set (q_items (q_idle s))" and "b \<in> set (working s)"
  then have "1 \<le> count (mset (q_items (q_idle s))) b" "1 \<le> count (mset (working s)) b"
    by (simp_all only: count_greater_eq_one_iff set_mset_mset)
  then have "2 \<le> count (owned s) b" unfolding owned_def count_union by linarith
  with s show False by (auto simp: sole_def dest: spec [of _ b])
qed

text \<open>
  C29: an idle buffer holds no data of the connection or request that used it before: in every
  reachable state the receive and the send data of all idle buffers are empty.
\<close>

theorem idle_buffers_empty:
  assumes "new_net_buf junk mx t = Ok nb" and "net_reach ipf sb hdl (net_start nb n) s"
    and "b \<in> set (q_items (q_idle s))"
  shows "blen (recvData (nbufs s b)) = 0 \<and> blen (sendData (nbufs s b)) = 0"
proof -
  have wf: "table_wf (net_start nb n)" using net_start_owned by blast
  have so: "sole s" by (rule net_reach_sole [OF assms(2) wf net_start_sole])
  have "clean s" by (rule net_reach_clean [OF assms(2) wf net_start_sole net_start_clean [OF assms(1)]])
  with idle_not_working [OF so assms(3)] assms(3) show ?thesis by (simp add: clean_def)
qed

text \<open>
  the protocol context is not cleaned up with the data.  After an invalid packet the buffer goes
  back to the idle queue with the parser context of the failed connection still attached, where the
  next connection's \<open>isFullPkt\<close> finds it.
\<close>

theorem invalid_packet_keeps_context:
  assumes "blen (recvData (nbufs s b)) \<noteq> 0"
    and "ipf (recvData (nbufs s b)) (ctx (nbufs s b)) = (r, Some c)" and "r <s 0"
  shows "b \<in> set (q_items (q_idle (after_recv ipf sb k e b 0 s))) \<and>
    ctx (nbufs (after_recv ipf sb k e b 0 s) b) = Some c"
proof -
  have "after_recv ipf sb k e b 0 s = give_back k e b (clear_recv b (upd_buf b (\<lambda>x. x\<lparr>ctx := Some c\<rparr>) s))"
    using assms by (simp add: after_recv_def Let_def)
  then show ?thesis
    by (simp add: give_back_def push_idle_def wq.push_items clear_recv_def upd_buf_def set_ep_def)
qed

text \<open>
  a complete message that fills the receive buffer exactly is discarded by drivers without block
  support: the buffer returns to the idle queue and no task is queued.
\<close>

theorem exact_fit_dropped:
  assumes "blen (recvData (nbufs s b)) \<noteq> 0" and "bfull (recvData (nbufs s b))"
    and "fst (ipf (recvData (nbufs s b)) (ctx (nbufs s b))) = 0"
  shows "q_busi (after_recv ipf False k e b 0 s) = q_busi s \<and>
    b \<in> set (q_items (q_idle (after_recv ipf False k e b 0 s))) \<and>
    blen (recvData (nbufs (after_recv ipf False k e b 0 s) b)) = 0"
proof -
  let ?s1 = "upd_buf b (\<lambda>x. x\<lparr>ctx := snd (ipf (recvData (nbufs s b)) (ctx (nbufs s b)))\<rparr>) s"
  have "after_recv ipf False k e b 0 s = give_back k e b (clear_recv b ?s1)"
    using assms by (simp add: after_recv_def Let_def upd_buf_def)
  then show ?thesis
    by (simp add: give_back_def push_idle_def wq.push_items clear_recv_def upd_buf_def set_ep_def clear_buf_def)
qed

section \<open>Buffers lost with their connections\<close>

lemma freed_lists [simp]:
  "freed (del_socks sks s) = freed s" "freed (close_socks sks s) = freed s"
  by (induction sks arbitrary: s) (simp_all add: del_sock_def)

lemma freed_buf_lists [simp]:
  "freed (push_idles bs s) = freed s" "freed (clear_recvs bs s) = freed s"
  by (induction bs arbitrary: s) (simp_all add: push_idle_def clear_recv_def upd_buf_def)

lemma freed_parts [simp]:
  "freed (give_back k e b s) = freed s" "freed (submit cb k e b s) = freed s" "freed (set_ep k e s) = freed s"
  "freed (upd_buf b f s) = freed s" "freed (clear_recv b s) = freed s" "freed (del_sock k s) = freed s"
  "freed (push_idle b s) = freed s" "freed (add_sock k s) = freed s"
  by (simp_all add: give_back_def submit_def set_ep_def upd_buf_def clear_recv_def del_sock_def
      push_idle_def push_task_def add_sock_def)

lemma freed_after_recv [simp]: "freed (after_recv ipf sb k e b err s) = freed s"
  by (simp add: after_recv_def Let_def)

lemma freed_mono: "net_step ipf sb hdl s s' \<Longrightarrow> set (freed s) \<subseteq> set (freed s')"
proof (induction rule: net_step.induct)
  case (accept k s sk s')
  then show ?case by (auto simp: add_conn_def Let_def split: if_splits option.splits)
next
  case (readable es seen now k s s')
  then show ?case
    by (auto simp: on_epoll_in_def Let_def out_simps split: option.splits)
next
  case (hangup k s s')
  then show ?case
    by (auto simp: on_epoll_err_def Let_def split: option.splits if_splits outcome.splits)
next
  case (timeout s now)
  then show ?case by (simp add: clear_timeout_def Let_def)
next
  case (closed s now)
  then show ?case by (auto simp: clear_closed_def Let_def split: prod.splits)
next
  case (take s seen t)
  then show ?case by (auto simp: task_take_def Let_def split: option.splits)
next
  case (finish b s ssl es s' reply)
  from task_done_cases [OF finish(2)] show ?case by auto
next
  case (stop s)
  then show ?case by simp
qed

lemma freed_reach: "net_reach ipf sb hdl s0 s \<Longrightarrow> set (freed s0) \<subseteq> set (freed s)"
  by (induction rule: net_reach.induct) (use freed_mono in blast)+

lemma ep_bufs_in: "e \<in> set es \<Longrightarrow> ebuf e = Some b \<Longrightarrow> b \<in> set (ep_bufs es)"
  by (induction es) auto

text \<open>
  the pool shrinks.  When a connection that holds a half-received message is dropped because its
  socket waits for closing, its buffer is deleted; in no later state is that buffer idle, queued,
  in use or held again, and nothing replaces it.
\<close>

theorem closed_connection_loses_buffer:
  assumes "net_reach ipf sb hdl (net_start nb n) s"
    and "conn_find k (conns s) = Some e" and "ebuf e = Some b" and "swait s (esock e)"
    and "net_reach ipf sb hdl (clear_closed now s) s'"
  shows "b \<in> set (freed s') \<and> b \<notin> set (q_items (q_idle s')) \<and> b \<notin> set (q_items (q_busi s')) \<and>
    b \<notin> set (working s') \<and> b \<notin># held (conns s')"
proof -
  have wf0: "table_wf (net_start nb n)" using net_start_owned by blast
  have wf: "table_wf s" using net_reach_owned [OF assms(1) wf0] by blast
  have "e \<in> set (filter (\<lambda>e. swait s (esock e)) (map snd (conn_mp (conns s))))"
    using assms(2,4) by (force simp: conn_find_def dest: map_of_SomeD)
  from ep_bufs_in [OF this assms(3)]
  have "b \<in> set (freed (clear_closed now s))"
    by (auto simp: clear_closed_def conn_closed_socks_def conn_drop_def Let_def split: prod.splits)
  then have f: "b \<in> set (freed s')" using freed_reach [OF assms(5)] by blast
  have "sole s" by (rule net_reach_sole [OF assms(1) wf0 net_start_sole])
  moreover have c: "owned (clear_closed now s) = owned s \<and> table_wf (clear_closed now s)"
    by (rule clear_closed_owned [OF wf])
  ultimately have "sole s'"
    using net_reach_owned [OF assms(5)] by (simp add: sole_def)
  then have "count (owned s') b \<le> 1" by (simp add: sole_def)
  moreover have "1 \<le> count (mset (freed s')) b" using f by (simp only: count_greater_eq_one_iff set_mset_mset)
  ultimately have "count (mset (q_items (q_idle s'))) b = 0 \<and> count (mset (q_items (q_busi s'))) b = 0 \<and>
      count (mset (working s')) b = 0 \<and> count (held (conns s')) b = 0"
    unfolding owned_def count_union by linarith
  with f show ?thesis by (auto simp: count_mset_0_iff not_in_iff)
qed

section \<open>Serving a request\<close>

text \<open>What becomes of a buffer that the event handed to the business threads.\<close>

lemma submitted_served:
  assumes "q_items (q_busi s) = []" and "\<not> cbBusiFinal (nbufs s b)"
    and "hdl ((nbufs s b)\<lparr>refSock := Some (esock e), tid := t\<rparr>) = Ok (x, closing)"
    and "refSock x = Some sk" and "\<not> cbBusiFinal x"
    and "socket_send_buf ssl (sendData x) es = Some (n, wire)"
  shows "\<exists>s'. task_done hdl ssl es b (task_take (q_lock (q_busi s)) t (submit False k e b s)) =
      Some (Ok (s', sk, wire)) \<and> b \<in> set (q_items (q_idle s')) \<and> q_items (q_busi s') = [] \<and>
    working s' = remove1 b (working s @ [b]) \<and>
    blen (recvData (nbufs s' b)) = 0 \<and> blen (sendData (nbufs s' b)) = 0 \<and>
    swait s' = (if closing then (swait s)(sk := True) else swait s)"
proof -
  define s1 where "s1 = submit False k e b s"
  have busi: "q_items (q_busi s1) = [b]" "q_lock (q_busi s1) = q_lock (q_busi s)"
    using assms(1) by (simp_all add: s1_def submit_def push_task_def th_push_back_def upd_buf_def set_ep_def)
  define s2 where "s2 = task_take (q_lock (q_busi s)) t s1"
  have "th_pop_wait (q_lock (q_busi s)) (q_busi s1) = (Some b, th_drop (q_busi s1))"
    using busi by (simp add: th_pop_wait_def has_notify_def)
  then have s2: "s2 = upd_buf b (\<lambda>x. x\<lparr>tid := t\<rparr>) (s1\<lparr>q_busi := th_drop (q_busi s1), working := working s1 @ [b]\<rparr>)"
    by (simp add: s2_def task_take_def Let_def)
  have nb: "nbufs s2 b = (nbufs s b)\<lparr>refSock := Some (esock e), tid := t\<rparr>"
    using assms(2) by (simp add: s2 s1_def submit_def upd_buf_def push_task_def set_ep_def)
  have q: "q_items (q_busi s2) = []" "working s2 = working s @ [b]" "swait s2 = swait s"
    using busi by (simp_all add: s2 upd_buf_def th_drop_def s1_def submit_def push_task_def set_ep_def)
  have "hdl (nbufs s2 b) = Ok (x, closing)" using assms(3) nb by simp
  with assms(4-6) q show ?thesis
    by (simp add: s1_def [symmetric] s2_def [symmetric] task_done_def Let_def push_idle_def upd_buf_def
        wq.push_items clear_net_buf_def clear_buf_def)
qed

text \<open>
  C19: a complete message is answered on the socket it came from.  A connection has become readable;
  the bytes go into the buffer it holds or, when it holds none, into one from the idle queue, and the driver
  accepts them.  Then the handler gets exactly these bytes with the connection's socket, what it leaves
  in the send buffer is sent on that socket and no other, a request to close marks that socket and
  no other, and the buffer is idle and empty again.
\<close>

theorem request_served:
  assumes "conn_find k (conns s) = Some e"
    and "ebuf e = Some b \<or> ebuf e = None \<and> fst (th_pop_wait seen (q_idle s)) = Some b"
    and "socket_recv_buf ev (recvData (nbufs s b)) = Some (Ok (0, rd))" and "blen rd \<noteq> 0" and "\<not> bfull rd"
    and "ipf rd (ctx (nbufs s b)) = (0, c)"
    and "q_items (q_busi s) = []" and "\<not> cbBusiFinal (nbufs s b)"
    and "hdl ((nbufs s b)\<lparr>recvData := rd, refSock := Some (esock e), tid := t, ctx := c\<rparr>) = Ok (x, closing)"
    and "refSock x = Some (esock e)" and "\<not> cbBusiFinal x"
    and "socket_send_buf ssl (sendData x) es = Some (n, wire)"
  shows "\<exists>s1 s'. on_epoll_in ipf sb ev seen now k s = Some (Ok s1) \<and>
    task_done hdl ssl es b (task_take (q_lock (q_busi s)) t s1) = Some (Ok (s', esock e, wire)) \<and>
    b \<in> set (q_items (q_idle s')) \<and> q_items (q_busi s') = [] \<and> working s' = remove1 b (working s @ [b]) \<and>
    blen (recvData (nbufs s' b)) = 0 \<and> blen (sendData (nbufs s' b)) = 0 \<and>
    swait s' = (if closing then (swait s)(esock e := True) else swait s)"
proof -
  obtain e1 t1 where on: "on_epoll_in ipf sb ev seen now k s =
      Some (Ok (after_recv ipf sb k e1 b 0 (upd_buf b (\<lambda>x. x\<lparr>recvData := rd\<rparr>) t1)))"
    and e1: "esock e1 = esock e" and t1: "nbufs t1 = nbufs s" "q_busi t1 = q_busi s" "working t1 = working s" "swait t1 = swait s"
    using assms(1-3) by (cases "ebuf e") (fastforce simp: on_epoll_in_def Let_def set_ep_def)+
  define r where "r = upd_buf b (\<lambda>x. x\<lparr>ctx := c\<rparr>) (upd_buf b (\<lambda>x. x\<lparr>recvData := rd\<rparr>) t1)"
  have a: "after_recv ipf sb k e1 b 0 (upd_buf b (\<lambda>x. x\<lparr>recvData := rd\<rparr>) t1) = submit False k e1 b r"
    using assms(4-6) by (simp add: after_recv_def Let_def upd_buf_def t1 r_def)
  have r: "nbufs r b = (nbufs s b)\<lparr>recvData := rd, ctx := c\<rparr>" "q_busi r = q_busi s" "working r = working s"
    "swait r = swait s" by (simp_all add: r_def upd_buf_def t1)
  have "(nbufs r b)\<lparr>refSock := Some (esock e1), tid := t\<rparr> =
      (nbufs s b)\<lparr>recvData := rd, refSock := Some (esock e), tid := t, ctx := c\<rparr>"
    by (cases "nbufs s b") (simp add: r(1) e1)
  then have "hdl ((nbufs r b)\<lparr>refSock := Some (esock e1), tid := t\<rparr>) = Ok (x, closing)"
    using assms(9) by simp
  moreover have "q_items (q_busi r) = []" "\<not> cbBusiFinal (nbufs r b)" using assms(7,8) r by simp_all
  ultimately show ?thesis
    using submitted_served [of r b hdl _ e1 x closing "esock e" ssl es n wire k] assms(10-12) on
    unfolding a r by blast
qed

text \<open>
  re-registration after a blocking task can run on a dead connection.  If the socket was marked
  for closing and the network thread has dropped its connection before the business thread finishes,
  the completion callback finds the socket still open, looks its data up in vain and dereferences a
  null pointer.
\<close>

theorem late_registration_null:
  assumes "conn_wf (sfd s) (conns s)" and "conn_find k (conns s) = Some e" and "swait s (esock e)"
    and "k \<noteq> - 1"
    and "hdl (nbufs s b) = Ok (x, closing)" and "refSock x = Some (esock e)" and "cbBusiFinal x"
    and "socket_send_buf ssl (sendData x) es = Some r"
  shows "task_done hdl ssl es b (clear_closed now s) = Some Undef"
proof -
  obtain vt cl fr where d1: "conn_drop (\<lambda>e. swait s (esock e)) (sfd s) (conns s) = (vt, cl, fr)"
    by (cases "conn_drop (\<lambda>e. swait s (esock e)) (sfd s) (conns s)") auto
  let ?P = "\<lambda>e. conn_tmout cl \<noteq> 0 \<and> timer_count now (etmr e) > conn_tmout cl"
  obtain vt' cl' fr' where d2: "conn_drop ?P (sfd s) cl = (vt', cl', fr')"
    by (cases "conn_drop ?P (sfd s) cl") auto
  let ?s2 = "(del_socks vt (s\<lparr>conns := cl, freed := freed s @ fr\<rparr>))\<lparr>conns := cl', freed := freed s @ fr @ fr'\<rparr>"
  have s': "clear_closed now s = close_socks vt' ?s2"
    using d1 d2 by (simp add: clear_closed_def conn_closed_socks_def conn_timeout_socks_drop Let_def)
  have nb: "nbufs (close_socks sks t) = nbufs t" "nbufs (del_socks sks t) = nbufs t" for sks and t :: "'a net_th"
    by (induction sks arbitrary: t) simp_all
  have ke1: "(k, e) \<in> set (conn_mp (conns s))" using assms(2) by (simp add: conn_find_def map_of_SomeD)
  have mp1: "conn_mp cl = filter (\<lambda>(k, e). \<not> swait s (esock e)) (conn_mp (conns s))"
    using conn_drop_mp [OF assms(1), of "\<lambda>e. swait s (esock e)"] by (simp add: d1)
  have keys: "k \<notin> fst ` set (conn_mp cl)"
  proof
    assume "k \<in> fst ` set (conn_mp cl)"
    then obtain d where d: "(k, d) \<in> set (conn_mp (conns s))" "\<not> swait s (esock d)" by (auto simp: mp1)
    have "distinct (map fst (conn_mp (conns s)))" using assms(1) by (simp add: conn_wf_def)
    from eq_key_imp_eq_value [OF this d(1) ke1] d(2) assms(3) show False by simp
  qed
  have wf1: "conn_wf (sfd s) cl" using conn_drop_wf [OF assms(1), of "\<lambda>e. swait s (esock e)"] d1 by simp
  have sub: "set (conn_mp cl') \<subseteq> set (conn_mp cl)" using d2 by (auto simp: conn_drop_def Let_def conn_erase_def)
  then have none: "conn_find k cl' = None" using keys by (auto simp: conn_find_def map_of_eq_None_iff)
  have ke: "sfd s (esock e) = k" by (rule conn_find_wf [OF assms(1,2)])
  have "esock e \<notin> set vt'"
  proof
    assume "esock e \<in> set vt'"
    moreover have "vt' = map esock (filter ?P (map snd (conn_mp cl)))"
      using d2 by (simp add: conn_drop_def Let_def)
    ultimately have "esock e \<in> esock ` snd ` set (conn_mp cl)" by auto
    then obtain j d where j: "(j, d) \<in> set (conn_mp cl)" and "esock d = esock e" by force
    with wf1 \<open>esock d = esock e\<close> ke have "j = k" by (auto simp: conn_wf_def)
    with j keys show False by force
  qed
  then have "sfd (close_socks vt' ?s2) (esock e) = k" using ke by (simp add: close_socks_sfd)
  then have "reg_sock (esock e) ((close_socks vt' ?s2)\<lparr>nbufs := f, swait := w\<rparr>) = Undef" for f w
    using assms(4) none by (simp add: reg_sock_def)
  with assms(5-8) show ?thesis by (cases r) (simp add: s' task_done_def nb Let_def)
qed

section \<open>Witnesses\<close>

definition wire_buf :: ys_buf where
  "wire_buf = \<lparr>bmem = Some [0, 0, 0, 0], blen = 0, bcap = 4\<rparr>"

definition small_net :: "unit net_buf" where
  "small_net = \<lparr>recvData = wire_buf, sendData = wire_buf, refSock = None, tid = 0, ctx = None, cbBusiFinal = False\<rparr>"

text \<open>A protocol whose messages have two bytes, and a handler that echoes and closes.\<close>

definition two_ipf :: "ys_buf \<Rightarrow> unit option \<Rightarrow> 32 word \<times> unit option" where
  "two_ipf b c = (if blen b = 1 then 1 else 0, c)"

definition closing_echo :: "unit net_buf \<Rightarrow> (buf_error, unit net_buf \<times> bool) outcome" where
  "closing_echo x = Ok (x\<lparr>sendData := recvData x\<rparr>, True)"

text \<open>A connection with descriptor 5 arrives as socket 7.\<close>

definition one_conn :: "unit net_th \<Rightarrow> unit net_th" where
  "one_conn s = add_sock 5 (s\<lparr>sfd := (sfd s)(7 := 5), swait := (swait s)(7 := False),
     conns := \<lparr>conn_mp = [(5, new_ep_data 7)], conn_tmout = 0\<rparr>\<rparr>)"

lemma one_conn_reach: "net_reach ipf sb hdl (net_start nb n) (one_conn (net_start nb n))"
proof (rule net_reach.step [OF net_reach.init])
  let ?s = "net_start nb n"
  have c: "conns ?s = conn_new" "running ?s"
    by (auto simp: net_start_def net_resize_def net_empty_def Let_def)
  show "net_step ipf sb hdl ?s (one_conn ?s)"
  proof (rule net_step.accept [where k = 5 and sk = 7])
    have "conn_add ((sfd ?s)(7 := 5)) 7 conn_new = (Some (new_ep_data 7), \<lparr>conn_mp = [(5, new_ep_data 7)], conn_tmout = 0\<rparr>)"
      by (simp add: conn_add_def conn_find_def conn_new_def Let_def)
    then show "add_conn 7 (?s\<lparr>sfd := (sfd ?s)(7 := 5), swait := (swait ?s)(7 := False)\<rparr>) = Ok (one_conn ?s)"
      by (simp add: add_conn_def c Let_def one_conn_def)
  qed (simp_all add: c conn_new_def conn_socks_def)
qed

text \<open>Data arrives on the connection; a business thread answers it.\<close>

definition run_in :: "bytes \<Rightarrow> unit net_th \<Rightarrow> unit net_th option" where
  "run_in bs s =
     (case on_epoll_in two_ipf False [Got bs, RecvErr True] 0 100 5 s of Some (Ok s') \<Rightarrow> Some s' | _ \<Rightarrow> None)"

definition run_done :: "nat \<Rightarrow> unit net_th \<Rightarrow> unit net_th option" where
  "run_done b s =
     (if b \<in> set (working s)
      then (case task_done closing_echo True [\<lparr>sret = 2, swould = False, sready = False\<rparr>] b s of
              Some (Ok (s', reply)) \<Rightarrow> Some s' | _ \<Rightarrow> None)
      else None)"

lemma run_in_reach: "run_in bs s = Some s' \<Longrightarrow> net_reach two_ipf False closing_echo s0 s \<Longrightarrow>
    net_reach two_ipf False closing_echo s0 s'"
  by (erule net_reach.step) (auto simp: run_in_def intro: net_step.readable split: option.splits outcome.splits)

lemma run_done_reach: "run_done b s = Some s' \<Longrightarrow> net_reach two_ipf False closing_echo s0 s \<Longrightarrow>
    net_reach two_ipf False closing_echo s0 s'"
  by (erule net_reach.step)
    (auto simp: run_done_def intro: net_step.finish split: if_splits option.splits outcome.splits)

definition first_state :: "unit net_th" where "first_state = net_start small_net 2"

definition half_request :: "unit net_th" where
  "half_request = the (Option.bind (run_in [1, 2] (one_conn first_state)) (\<lambda>s.
     Option.bind (run_done 0 (task_take 0 1 s)) (run_in [1])))"

lemma half_request_state:
  "Option.bind (run_in [1, 2] (one_conn first_state)) (\<lambda>s. Option.bind (run_done 0 (task_take 0 1 s)) (run_in [1])) \<noteq> None"
  "conn_find 5 (conns half_request) \<noteq> None" "ebuf (the (conn_find 5 (conns half_request))) = Some 1"
  "swait half_request (esock (the (conn_find 5 (conns half_request))))"
  by code_simp+

lemma half_request_reach: "net_reach two_ipf False closing_echo first_state half_request"
proof -
  obtain s1 where s1: "run_in [1, 2] (one_conn first_state) = Some s1"
    using half_request_state(1) by (auto simp: Option.bind_eq_Some_conv)
  with half_request_state(1) obtain s2 where s2: "run_done 0 (task_take 0 1 s1) = Some s2"
    by (auto simp: Option.bind_eq_Some_conv)
  with s1 half_request_state(1) obtain s3 where s3: "run_in [1] s2 = Some s3" by auto
  have "half_request = s3" by (simp add: half_request_def s1 s2 s3)
  moreover have "net_reach two_ipf False closing_echo first_state s1"
    unfolding first_state_def by (rule run_in_reach [OF s1 [unfolded first_state_def] one_conn_reach])
  then have "net_reach two_ipf False closing_echo first_state (task_take 0 1 s1)"
    by (rule net_reach.step [OF _ net_step.take])
  ultimately show ?thesis using run_in_reach [OF s3 run_done_reach [OF s2]] by simp
qed

theorem net_one_owner_witness:
  "count_list (q_items (q_idle half_request)) 1 + count_list (q_items (q_busi half_request)) 1 +
   count_list (working half_request) 1 + count (held (conns half_request)) 1 + count_list (freed half_request) 1 = 1"
  by (rule net_one_owner [OF half_request_reach [unfolded first_state_def]]) simp

theorem closed_connection_loses_buffer_witness:
  "1 \<in> set (freed (clear_closed 200 half_request)) \<and> 1 \<notin> set (q_items (q_idle (clear_closed 200 half_request))) \<and>
   1 \<notin> set (q_items (q_busi (clear_closed 200 half_request))) \<and> 1 \<notin> set (working (clear_closed 200 half_request)) \<and>
   1 \<notin># held (conns (clear_closed 200 half_request))"
  using closed_connection_loses_buffer [OF half_request_reach [unfolded first_state_def] _
      half_request_state(3,4) net_reach.init, of 5 200] half_request_state(2)
  by auto

theorem invalid_packet_keeps_context_witness:
  "1 \<in> set (q_items (q_idle (after_recv (\<lambda>b c. (- 1, Some ())) False 5 (new_ep_data 7) 1 0
     (upd_buf 1 (\<lambda>x. x\<lparr>recvData := wire_buf\<lparr>blen := 2\<rparr>\<rparr>) first_state)))) \<and>
   ctx (nbufs (after_recv (\<lambda>b c. (- 1, Some ())) False 5 (new_ep_data 7) 1 0
     (upd_buf 1 (\<lambda>x. x\<lparr>recvData := wire_buf\<lparr>blen := 2\<rparr>\<rparr>) first_state)) 1) = Some ()"
  by (rule invalid_packet_keeps_context [where r = "- 1"]) (simp_all add: upd_buf_def)

theorem exact_fit_dropped_witness:
  "q_busi (after_recv two_ipf False 5 (new_ep_data 7) 1 0
     (upd_buf 1 (\<lambda>x. x\<lparr>recvData := wire_buf\<lparr>blen := 4\<rparr>\<rparr>) first_state)) =
   q_busi (upd_buf 1 (\<lambda>x. x\<lparr>recvData := wire_buf\<lparr>blen := 4\<rparr>\<rparr>) first_state) \<and>
   1 \<in> set (q_items (q_idle (after_recv two_ipf False 5 (new_ep_data 7) 1 0
     (upd_buf 1 (\<lambda>x. x\<lparr>recvData := wire_buf\<lparr>blen := 4\<rparr>\<rparr>) first_state)))) \<and>
   blen (recvData (nbufs (after_recv two_ipf False 5 (new_ep_data 7) 1 0
     (upd_buf 1 (\<lambda>x. x\<lparr>recvData := wire_buf\<lparr>blen := 4\<rparr>\<rparr>) first_state)) 1)) = 0"
  by (rule exact_fit_dropped) (simp_all add: upd_buf_def bfull_def wire_buf_def two_ipf_def)

lemma new_net_buf_exists: "\<exists>nb. new_net_buf (\<lambda>_. 0) 65536 0 = Ok (nb :: unit net_buf)"
proof -
  have "\<exists>r. alloc_buf (\<lambda>_. 0) 65536 size32KB empty_buf = Ok r"
    using alloc_buf_ok [of empty_buf size32KB 65536 "\<lambda>_. 0"]
    by (auto simp: size32KB_def empty_buf_def buf_wf_def round_block_def blockSize_def)
  then show ?thesis by (auto simp: new_net_buf_def)
qed

definition real_buf :: "unit net_buf" where
  "real_buf = (case new_net_buf (\<lambda>_. 0) 65536 0 of Ok nb \<Rightarrow> nb | _ \<Rightarrow> small_net)"

theorem idle_buffers_empty_witness:
  "blen (recvData (nbufs (one_conn (net_start real_buf 2)) 1)) = 0 \<and>
   blen (sendData (nbufs (one_conn (net_start real_buf 2)) 1)) = 0"
proof (rule idle_buffers_empty [OF _ one_conn_reach])
  show "new_net_buf (\<lambda>_. 0) 65536 0 = Ok real_buf" using new_net_buf_exists by (auto simp: real_buf_def)
  show "1 \<in> set (q_items (q_idle (one_conn (net_start real_buf 2))))"
    by (simp add: one_conn_def add_sock_def net_start_def net_resize_def net_empty_def th_new_def
        th_push_back_all_items Let_def)
qed

theorem request_served_witness:
  "\<exists>s1 s'. on_epoll_in two_ipf False [Got [1, 2], RecvErr True] 0 100 5 (one_conn first_state) = Some (Ok s1) \<and>
    task_done closing_echo True [\<lparr>sret = 2, swould = False, sready = False\<rparr>] 0
      (task_take (q_lock (q_busi (one_conn first_state))) 3 s1) = Some (Ok (s', esock (new_ep_data 7), [1, 2])) \<and>
    0 \<in> set (q_items (q_idle s')) \<and> q_items (q_busi s') = [] \<and>
    working s' = remove1 0 (working (one_conn first_state) @ [0]) \<and>
    blen (recvData (nbufs s' 0)) = 0 \<and> blen (sendData (nbufs s' 0)) = 0 \<and>
    swait s' = (if True then (swait (one_conn first_state))(esock (new_ep_data 7) := True) else swait (one_conn first_state))"
proof -
  let ?rd = "wire_buf\<lparr>bmem := Some [1, 2, 0, 0], blen := 2\<rparr>"
  have b: "nbufs (one_conn first_state) 0 = small_net" by code_simp
  show ?thesis
  proof (rule request_served [where c = None and rd = ?rd and n = 2 and
        x = "small_net\<lparr>recvData := ?rd, refSock := Some 7, tid := 3, ctx := None, sendData := ?rd\<rparr>"])
    show "conn_find 5 (conns (one_conn first_state)) = Some (new_ep_data 7)" by code_simp
    show "ebuf (new_ep_data 7) = Some 0 \<or>
        ebuf (new_ep_data 7) = None \<and> fst (th_pop_wait 0 (q_idle (one_conn first_state))) = Some 0" by code_simp
    show "socket_recv_buf [Got [1, 2], RecvErr True] (recvData (nbufs (one_conn first_state) 0)) = Some (Ok (0, ?rd))"
      by code_simp
    show "q_items (q_busi (one_conn first_state)) = []" by code_simp
    show "socket_send_buf True (sendData (small_net\<lparr>recvData := ?rd, refSock := Some 7, tid := 3, ctx := None,
        sendData := ?rd\<rparr>)) [\<lparr>sret = 2, swould = False, sready = False\<rparr>] = Some (2, [1, 2])"
      by code_simp
  qed (simp_all add: b small_net_def wire_buf_def bfull_def two_ipf_def closing_echo_def new_ep_data_def)
qed

text \<open>The same connection after the handler of an earlier request asked for closing.\<close>

definition blocked_task :: "unit net_th" where
  "blocked_task = upd_buf 1 (\<lambda>x. x\<lparr>refSock := Some 7, cbBusiFinal := True\<rparr>)
     ((one_conn first_state)\<lparr>swait := (\<lambda>_. True), working := [1]\<rparr>)"

theorem late_registration_null_witness:
  "task_done closing_echo True [] 1 (clear_closed 200 blocked_task) = Some Undef"
proof (rule late_registration_null [where k = 5 and e = "new_ep_data 7" and closing = True and r = "(0, [])" and
      x = "(nbufs blocked_task 1)\<lparr>sendData := recvData (nbufs blocked_task 1)\<rparr>"])
  have b: "nbufs blocked_task 1 = small_net\<lparr>refSock := Some 7, cbBusiFinal := True\<rparr>"
    by (simp add: blocked_task_def upd_buf_def one_conn_def add_sock_def first_state_def net_start_def
        net_resize_def net_empty_def th_new_def Let_def)
  show "socket_send_buf True (sendData ((nbufs blocked_task 1)\<lparr>sendData := recvData (nbufs blocked_task 1)\<rparr>)) [] =
      Some (0, [])"
    by (simp only: b) (simp add: small_net_def wire_buf_def socket_send_buf_def)
  show "refSock ((nbufs blocked_task 1)\<lparr>sendData := recvData (nbufs blocked_task 1)\<rparr>) = Some (esock (new_ep_data 7))"
    "cbBusiFinal ((nbufs blocked_task 1)\<lparr>sendData := recvData (nbufs blocked_task 1)\<rparr>)"
    by (simp_all add: b [simplified] new_ep_data_def)
qed (simp_all add: blocked_task_def one_conn_def add_sock_def upd_buf_def conn_wf_def conn_find_def
    new_ep_data_def closing_echo_def)

end
