(* ===== verification/Ys_TcpClient.thy ===== *)
theory Ys_TcpClient
  imports Ys_Socket Ys_NetBuf
begin

text \<open>
  The synchronous TCP client of \<open>isaac/ys_tcp_client.h\<close>: sending after a writability check, and
  the loop \<open>recvPkt\<close> that collects one message from the fragments the kernel delivers.
\<close>

section \<open>Sending\<close>

text \<open>
  What the connection reports during one \<open>send\<close>: \<open>has_sock\<close> and \<open>connected\<close> describe the socket,
  \<open>reconnect\<close> is the outcome of \<open>reconnected()\<close>, \<open>num\<close> and \<open>ev\<close> what \<open>wait(100)\<close> and \<open>getEvent(0)\<close>
  return.
\<close>

record link =
  has_sock :: bool
  connected :: bool
  reconnect :: bool
  num :: "32 word"
  ev :: u32

definition EPOLLIN :: u32 where "EPOLLIN = 0x1"
definition EPOLLERR :: u32 where "EPOLLERR = 0x8"
definition EPOLLHUP :: u32 where "EPOLLHUP = 0x10"
definition EPOLLRDHUP :: u32 where "EPOLLRDHUP = 0x2000"

definition can_write :: "link \<Rightarrow> bool" where
  "can_write l =
     (if num l <s 0 then False
      else if ev l AND (EPOLLERR OR EPOLLHUP OR EPOLLRDHUP) \<noteq> 0 then reconnect l
      else True)"

definition client_send :: "link \<Rightarrow> bool \<Rightarrow> bytes \<Rightarrow> os_send list \<Rightarrow> (32 word \<times> bytes) option" where
  "client_send l ssl d es =
     (if \<not> has_sock l then Some (- 1, [])
      else if \<not> connected l \<and> \<not> reconnect l then Some (- 1, [])
      else if \<not> can_write l then Some (- 1, [])
      else map_option (\<lambda>(r, wire). (if r \<noteq> of_nat (length d) then - 1 else 0, wire))
             (socket_send ssl d es))"

section \<open>Receiving one message\<close>

text \<open>
  Each pass of the loop first asks the two-second timer; a \<open>Round\<close> is a pass in which it has not
  run out, with the events its \<open>recv\<close> sees.
\<close>

datatype recv_round = TimedOut | Round "os_recv list"

text \<open>The bytes \<open>recv\<close> stores at \<open>uData() + i\<close>, without a change of the length.\<close>

definition write_at :: "nat \<Rightarrow> bytes \<Rightarrow> ys_buf \<Rightarrow> ys_buf option" where
  "write_at i bs b =
     (case bmem b of
        None \<Rightarrow> (if bs = [] then Some b else None)
      | Some m \<Rightarrow> map_option (\<lambda>m'. b\<lparr>bmem := Some m'\<rparr>) (poke m i bs))"

fun recv_pkt_loop :: "(ys_buf \<Rightarrow> 'c \<Rightarrow> 32 word \<times> 'c) \<Rightarrow> recv_round list \<Rightarrow> 32 word \<Rightarrow> u32 \<Rightarrow>
    ys_buf \<Rightarrow> 'c \<Rightarrow> ('e, 32 word \<times> ys_buf \<times> 'c) outcome option" where
  "recv_pkt_loop ipf [] need recvTotal b c = None"
| "recv_pkt_loop ipf (TimedOut # rs) need recvTotal b c = Some (Ok (0, b, c))"
| "recv_pkt_loop ipf (Round es # rs) need recvTotal b c =
     (case socket_recv es need of
        None \<Rightarrow> None
      | Some (ret, recvLen, bs) \<Rightarrow>
          (case write_at (unat recvTotal) bs b of
             None \<Rightarrow> Some Undef
           | Some b1 \<Rightarrow>
               if ret \<noteq> 0 then Some (Ok (- 1, b1, c))
               else if recvLen = 0 then recv_pkt_loop ipf rs need recvTotal b1 c
               else let recvTotal' = recvTotal + recvLen; b2 = offset_buf recvLen b1;
                      need' = fst (ipf b2 c); c' = snd (ipf b2 c) in
                 if need' = 0 then Some (Ok (0, b2, c'))
                 else if need' <s 0 then Some (Ok (- 2, b2, c'))
                 else if bcap b2 < ucast (need' + recvTotal') then Some (Ok (- 1, b2, c'))
                 else recv_pkt_loop ipf rs need' recvTotal' b2 c'))"

definition recv_pkt :: "(ys_buf \<Rightarrow> 'c \<Rightarrow> 32 word \<times> 'c) \<Rightarrow> recv_round list \<Rightarrow> ys_buf \<Rightarrow> 'c \<Rightarrow>
    ('e, 32 word \<times> ys_buf \<times> 'c) outcome option" where
  "recv_pkt ipf rs b c =
     (let b0 = clear_buf b in recv_pkt_loop ipf rs (fst (ipf b0 c)) 0 b0 (snd (ipf b0 c)))"

text \<open>
  \<open>recvSyn\<close>: wait for an event, then receive.  The last component says whether the socket has been
  closed by \<open>closeSock\<close>.
\<close>

definition recv_syn :: "(ys_buf \<Rightarrow> 'c \<Rightarrow> 32 word \<times> 'c) \<Rightarrow> link \<Rightarrow> recv_round list \<Rightarrow> ys_buf \<Rightarrow> 'c \<Rightarrow>
    ('e, 32 word \<times> ys_buf \<times> 'c \<times> bool) outcome option" where
  "recv_syn ipf l rs b c =
     (if num l <=s 0 then Some (Ok (- 1, b, c, False))
      else if ev l AND EPOLLIN \<noteq> 0
        then map_option (mapO (\<lambda>(r, b', c'). (r, b', c', False))) (recv_pkt ipf rs b c)
      else Some (Ok (- 1, b, c, True)))"

definition send_recv :: "(ys_buf \<Rightarrow> 'c \<Rightarrow> 32 word \<times> 'c) \<Rightarrow> link \<Rightarrow> bool \<Rightarrow> bytes \<Rightarrow> os_send list \<Rightarrow>
    link \<Rightarrow> recv_round list \<Rightarrow> ys_buf \<Rightarrow> 'c \<Rightarrow> ('e, 32 word \<times> ys_buf \<times> 'c \<times> bool) outcome option" where
  "send_recv ipf l ssl d es l' rs out c =
     (case client_send l ssl d es of
        None \<Rightarrow> None
      | Some (r, wire) \<Rightarrow> if r \<noteq> 0 then Some (Ok (- 1, out, c, False)) else recv_syn ipf l' rs out c)"

section \<open>Reassembly of fragments\<close>

text \<open>The kernel has one fragment queued, and then nothing.\<close>

definition fragment :: "bytes \<Rightarrow> recv_round" where
  "fragment f = Round [Got f, RecvErr True]"

lemma socket_recv_fragment:
  assumes "f \<noteq> []" and "length f \<le> unat need"
  shows "socket_recv [Got f, RecvErr True] need = Some (0, of_nat (length f), f)"
proof -
  have "of_nat (length f) = need" if "length f = unat need"
    using that by (metis of_nat_unat ucast_id)
  with assms show ?thesis by (simp add: socket_recv_def Let_def)
qed

lemma write_at_end:
  assumes wf: "buf_wf b" "bmem b \<noteq> None" and n: "length f < 2 ^ 31"
    and room: "unat (blen b) + length f \<le> unat (bcap b)"
  shows "\<exists>b1. write_at (unat (blen b)) f b = Some b1 \<and>
    buf_wf (offset_buf (of_nat (length f)) b1) \<and> bcap b1 = bcap b \<and> bmem b1 \<noteq> None \<and>
    contents (offset_buf (of_nat (length f)) b1) = contents b @ f \<and>
    unat (blen (offset_buf (of_nat (length f)) b1)) = unat (blen b) + length f"
proof -
  obtain m where m: "bmem b = Some m" "length m = unat (bcap b)"
    using wf by (auto simp: buf_wf_def)
  let ?m' = "take (unat (blen b)) m @ f @ drop (unat (blen b) + length f) m"
  let ?b1 = "b\<lparr>bmem := Some ?m'\<rparr>"
  have w: "write_at (unat (blen b)) f b = Some ?b1"
    using m room by (simp add: write_at_def poke_def)
  have len: "unat (blen (offset_buf (of_nat (length f)) ?b1)) = unat (blen b) + length f"
    using n room by (subst offset_buf_small) simp_all
  have o: "bmem (offset_buf (of_nat (length f)) ?b1) = Some ?m'"
    "bcap (offset_buf (of_nat (length f)) ?b1) = bcap b" by (simp_all add: offset_buf_def)
  have "buf_wf (offset_buf (of_nat (length f)) ?b1)"
    using o len room m by (simp add: buf_wf_def word_le_nat_alt)
  moreover have "contents (offset_buf (of_nat (length f)) ?b1) = contents b @ f"
    using o len room m by (simp add: contents_def)
  ultimately show ?thesis using w len m by auto
qed

text \<open>
  One pass of the loop on a fragment that fits: the fragment is appended and \<open>ipf\<close> decides.
\<close>

lemma loop_fragment:
  assumes wf: "buf_wf b" "bmem b \<noteq> None" "unat (bcap b) < 2 ^ 31"
    and k: "unat (blen b) = k" "k + length f \<le> unat (bcap b)"
    and f: "f \<noteq> []" "length f \<le> unat need"
  shows "\<exists>b2. buf_wf b2 \<and> bmem b2 \<noteq> None \<and> bcap b2 = bcap b \<and> contents b2 = contents b @ f \<and>
    unat (blen b2) = k + length f \<and>
    (recv_pkt_loop ipf (fragment f # rs) need (of_nat k) b c :: ('e, _) outcome option) =
      (let need' = fst (ipf b2 c) in
       if need' = 0 then Some (Ok (0, b2, snd (ipf b2 c)))
       else if need' <s 0 then Some (Ok (- 2, b2, snd (ipf b2 c)))
       else if bcap b < ucast (need' + of_nat (k + length f)) then Some (Ok (- 1, b2, snd (ipf b2 c)))
       else recv_pkt_loop ipf rs need' (of_nat (k + length f)) b2 (snd (ipf b2 c)))"
proof -
  have lf: "length f < 2 ^ 31" using k wf(3) by simp
  obtain b1 where b1: "write_at (unat (blen b)) f b = Some b1"
      "buf_wf (offset_buf (of_nat (length f)) b1)" "bcap b1 = bcap b" "bmem b1 \<noteq> None"
      "contents (offset_buf (of_nat (length f)) b1) = contents b @ f"
      "unat (blen (offset_buf (of_nat (length f)) b1)) = unat (blen b) + length f"
    using write_at_end [OF wf(1,2) lf] k by blast
  have uk: "unat (of_nat k :: u32) = k" using k wf(3) by (intro unat_of_nat_32) simp
  have nz: "(of_nat (length f) :: u32) \<noteq> 0"
    using f(1) lf by (intro of_nat_nonzero_32) auto
  have "(recv_pkt_loop ipf (fragment f # rs) need (of_nat k) b c :: ('e, _) outcome option) =
      (let b2 = offset_buf (of_nat (length f)) b1; need' = fst (ipf b2 c) in
       if need' = 0 then Some (Ok (0, b2, snd (ipf b2 c)))
       else if need' <s 0 then Some (Ok (- 2, b2, snd (ipf b2 c)))
       else if bcap b2 < ucast (need' + of_nat (k + length f)) then Some (Ok (- 1, b2, snd (ipf b2 c)))
       else recv_pkt_loop ipf rs need' (of_nat (k + length f)) b2 (snd (ipf b2 c)))"
    using b1(1) k(1) nz
    by (simp add: fragment_def socket_recv_fragment [OF f] uk Let_def)
  with b1 k show ?thesis
    by (intro exI [of _ "offset_buf (of_nat (length f)) b1"]) (simp add: Let_def offset_buf_def)
qed

context assembling
begin

text \<open>Fragments that do not complete the message leave the loop waiting for the rest.\<close>

lemma loop_part:
  assumes "msg m" and "seen m k c" and "buf_wf b" and "bmem b \<noteq> None" and "length m \<le> unat (bcap b)"
    and "unat (bcap b) < 2 ^ 31" and "contents b = take k m" and "unat (blen b) = k"
    and "drop k m = concat fs @ t" and "t \<noteq> []" and "\<forall>f\<in>set fs. f \<noteq> []"
    and "length m - k \<le> unat need" and "fs \<noteq> [] \<Longrightarrow> hdr \<le> k + length (hd fs)"
  shows "\<exists>need' b' c'. (recv_pkt_loop ipf (map fragment fs @ rs) need (of_nat k) b c :: ('e, _) outcome option) =
      recv_pkt_loop ipf rs need' (of_nat (length m - length t)) b' c' \<and>
    length t \<le> unat need' \<and> contents b' = take (length m - length t) m \<and> buf_wf b' \<and> bmem b' \<noteq> None \<and>
    unat (blen b') = length m - length t \<and> bcap b' = bcap b \<and> seen m (length m - length t) c'"
  using assms(2-13)
proof (induction fs arbitrary: k need b c)
  case Nil
  then have t: "length m - k = length t" by (metis append_Nil concat.simps(1) length_drop)
  with Nil.prems(9) have "length m - length t = k" by (cases t) auto
  with Nil.prems t show ?case by auto
next
  case (Cons f fs)
  have lenf: "length f + length (concat fs) + length t = length m - k"
    using arg_cong [OF Cons.prems(8), of length] by simp
  have f: "f \<noteq> []" "0 < length f" using Cons.prems(10) by auto
  have fit: "k + length f \<le> unat (bcap b)" and fneed: "length f \<le> unat need" and lt: "k + length f < length m"
    using lenf f(2) Cons.prems(4,9,11) by (cases t; simp)+
  have tk: "take k m @ f = take (k + length f) m"
    using Cons.prems(8) by (simp add: take_add)
  have rest: "drop (k + length f) m = concat fs @ t"
    using Cons.prems(8) by (metis add.commute append_assoc append_eq_conv_conj concat.simps(2) drop_drop)
  obtain b2 where b2: "buf_wf b2" "bmem b2 \<noteq> None" "bcap b2 = bcap b" "contents b2 = contents b @ f"
      "unat (blen b2) = k + length f" and
    step: "(recv_pkt_loop ipf (fragment f # map fragment fs @ rs) need (of_nat k) b c :: ('e, _) outcome option) =
      (let need' = fst (ipf b2 c) in
       if need' = 0 then Some (Ok (0, b2, snd (ipf b2 c)))
       else if need' <s 0 then Some (Ok (- 2, b2, snd (ipf b2 c)))
       else if bcap b < ucast (need' + of_nat (k + length f)) then Some (Ok (- 1, b2, snd (ipf b2 c)))
       else recv_pkt_loop ipf (map fragment fs @ rs) need' (of_nat (k + length f)) b2 (snd (ipf b2 c)))"
    using loop_fragment [OF Cons.prems(2,3,5,7) fit f(1) fneed, where ipf = ipf and c = c and rs = "map fragment fs @ rs"]
    by auto
  have c2: "contents b2 = take (k + length f) m" using b2(4) Cons.prems(6) tk by simp
  have l2: "blen b2 = of_nat (k + length f)" using b2(5) by (metis of_nat_unat ucast_id)
  let ?need = "fst (ipf b2 c)"
  have p: "length m - (k + length f) \<le> unat ?need" "unat ?need + (k + length f) \<le> unat (bcap b)"
    "seen m (k + length f) (snd (ipf b2 c))"
    using partial [OF assms(1) Cons.prems(1) _ lt _ c2 l2] f(2) Cons.prems(4,5,12) b2(3) by auto
  have sz: "unat ?need < 2 ^ 31" "k + length f < 2 ^ 31" "unat ?need + (k + length f) < 2 ^ 32"
    using p(2) Cons.prems(5) by auto
  have nn: "?need \<noteq> 0" "\<not> ?need <s 0"
    using p(1) lt of_nat_nonneg_32 [OF sz(1)] by auto
  have "unat (?need + of_nat (k + length f)) = unat ?need + (k + length f)"
    using sz unat_of_nat_32 [of "k + length f"] by (subst unat_add_lem [THEN iffD1]) simp_all
  then have cap: "\<not> bcap b < ucast (?need + of_nat (k + length f))"
    using p(2) by (simp only: word_less_nat_alt unat_ucast_32_64 not_less)
  have "\<exists>need' b' c'. (recv_pkt_loop ipf (map fragment fs @ rs) ?need (of_nat (k + length f)) b2 (snd (ipf b2 c))
      :: ('e, _) outcome option) = recv_pkt_loop ipf rs need' (of_nat (length m - length t)) b' c' \<and>
      length t \<le> unat need' \<and> contents b' = take (length m - length t) m \<and> buf_wf b' \<and> bmem b' \<noteq> None \<and>
      unat (blen b') = length m - length t \<and> bcap b' = bcap b2 \<and> seen m (length m - length t) c'"
  proof (rule Cons.IH)
    show "hdr \<le> k + length f + length (hd fs)" using Cons.prems(12) by simp
  qed (use b2 c2 rest lt Cons.prems p in auto)
  with step nn cap b2(3) show ?case by (simp add: Let_def)
qed

lemma recv_pkt_part:
  assumes "msg m" and "seen m 0 c" and "buf_wf b" and "bmem b \<noteq> None" and "length m \<le> unat (bcap b)"
    and "unat (bcap b) < 2 ^ 31"
    and "m = concat fs @ t" and "t \<noteq> []" and "\<forall>f\<in>set fs. f \<noteq> []" and "fs \<noteq> [] \<Longrightarrow> hdr \<le> length (hd fs)"
  shows "\<exists>need' b' c'. (recv_pkt ipf (map fragment fs @ rs) b c :: ('e, _) outcome option) =
      recv_pkt_loop ipf rs need' (of_nat (length m - length t)) b' c' \<and>
    length t \<le> unat need' \<and> contents b' = take (length m - length t) m \<and> buf_wf b' \<and> bmem b' \<noteq> None \<and>
    unat (blen b') = length m - length t \<and> bcap b' = bcap b \<and> seen m (length m - length t) c'"
proof -
  let ?b0 = "clear_buf b"
  have b0: "buf_wf ?b0" "bmem ?b0 \<noteq> None" "bcap ?b0 = bcap b" "contents ?b0 = take 0 m" "unat (blen ?b0) = 0"
    using assms(3,4) by (auto simp: clear_buf_def buf_wf_def contents_def split: option.splits)
  have e: "bempty ?b0" by (simp add: bempty_def clear_buf_def)
  have cap: "unat (bcap ?b0) < 2 ^ 31" using assms(6) b0(3) by simp
  note fr = fresh [OF e cap assms(1,2)]
  have need: "unat (fst (ipf ?b0 c)) = unat (bcap b)"
    using assms(6) fr b0(3) by (simp add: unat_ucast_64_32)
  have s: "seen m 0 (snd (ipf ?b0 c))" using fr by simp
  show ?thesis
    using loop_part [OF assms(1) s b0(1,2) _ _ b0(4,5) _ assms(8,9), of "fst (ipf ?b0 c)" rs]
      assms(5-7,10) b0(3) need by (simp add: recv_pkt_def Let_def)
qed

text \<open>
  The message in fragments is assembled; when the timer runs out before its end, what has arrived is returned,
  with the same code 0.
\<close>

lemma recv_pkt_fragments:
  assumes "msg m" and "seen m 0 c" and "buf_wf b" and "bmem b \<noteq> None" and "length m \<le> unat (bcap b)"
    and "unat (bcap b) < 2 ^ 31"
    and "concat fs = m" and "\<forall>f\<in>set fs. f \<noteq> []" and "hdr \<le> length (hd fs)"
  shows "\<exists>b' c'. (recv_pkt ipf (map fragment fs) b c :: ('e, _) outcome option) = Some (Ok (0, b', c')) \<and>
    contents b' = m \<and> buf_wf b' \<and> bmem b' \<noteq> None \<and> blen b' = of_nat (length m) \<and> bcap b' = bcap b \<and>
    seen m (length m) c'"
proof -
  have ne: "fs \<noteq> []" using assms(1,7) size [OF assms(1)] by auto
  obtain gs f where fs: "fs = gs @ [f]" using ne by (metis append_butlast_last_id)
  have m: "m = concat gs @ f" "f \<noteq> []" "\<forall>g\<in>set gs. g \<noteq> []" using assms(7,8) fs by auto
  have g: "gs \<noteq> [] \<Longrightarrow> hdr \<le> length (hd gs)" using assms(9) fs by simp
  let ?k = "length m - length f"
  have k: "?k + length f = length m" "?k < length m" using m(1,2) by auto
  obtain need b1 c1 where p: "(recv_pkt ipf (map fragment gs @ [fragment f]) b c :: ('e, _) outcome option) =
      recv_pkt_loop ipf [fragment f] need (of_nat ?k) b1 c1"
    "length f \<le> unat need" "contents b1 = take ?k m" "buf_wf b1" "bmem b1 \<noteq> None" "unat (blen b1) = ?k" "bcap b1 = bcap b"
    "seen m ?k c1"
    using recv_pkt_part [OF assms(1-6) m g, of "[fragment f]"] by auto
  obtain b2 where b2: "buf_wf b2" "bmem b2 \<noteq> None" "bcap b2 = bcap b1" "contents b2 = contents b1 @ f"
      "unat (blen b2) = ?k + length f" and
    step: "(recv_pkt_loop ipf [fragment f] need (of_nat ?k) b1 c1 :: ('e, _) outcome option) =
      (let need' = fst (ipf b2 c1) in
       if need' = 0 then Some (Ok (0, b2, snd (ipf b2 c1)))
       else if need' <s 0 then Some (Ok (- 2, b2, snd (ipf b2 c1)))
       else if bcap b1 < ucast (need' + of_nat (?k + length f)) then Some (Ok (- 1, b2, snd (ipf b2 c1)))
       else recv_pkt_loop ipf [] need' (of_nat (?k + length f)) b2 (snd (ipf b2 c1)))"
    using loop_fragment [OF p(4,5) _ p(6) _ m(2) p(2), where ipf = ipf and c = c1 and rs = "[]"] assms(5,6) k p(7) by auto
  have c2: "contents b2 = m" using b2(4) p(3) m(1) by simp
  have l2: "blen b2 = of_nat (length m)" using b2(5) k(1) by (metis of_nat_unat ucast_id)
  have "fst (ipf b2 c1) = 0 \<and> seen m (length m) (snd (ipf b2 c1))"
    by (rule whole [OF assms(1) p(8) k(2) c2 l2])
  with p(1,7) step b2 c2 l2 fs show ?thesis by simp
qed

lemma recv_pkt_timeout:
  assumes "msg m" and "seen m 0 c" and "buf_wf b" and "bmem b \<noteq> None" and "length m \<le> unat (bcap b)"
    and "unat (bcap b) < 2 ^ 31"
    and "m = concat fs @ t" and "t \<noteq> []" and "\<forall>f\<in>set fs. f \<noteq> []" and "fs \<noteq> [] \<Longrightarrow> hdr \<le> length (hd fs)"
  shows "\<exists>b' c'. (recv_pkt ipf (map fragment fs @ [TimedOut]) b c :: ('e, _) outcome option) = Some (Ok (0, b', c')) \<and>
    contents b' = concat fs \<and> seen m (length (concat fs)) c'"
  using recv_pkt_part [OF assms(1-10), of "[TimedOut]"] assms(7) by auto

end

context framing
begin

lemma recv_pkt_short_header:
  assumes "msg m" and "buf_wf b" and "bmem b \<noteq> None" and "length f \<le> unat (bcap b)"
    and "unat (bcap b) < 2 ^ 31"
    and "f = take (length f) m" and "f \<noteq> []" and "length f < hdr"
  shows "\<exists>b' c'. (recv_pkt ipf (fragment f # rs) b c :: ('e, _) outcome option) = Some (Ok (- 2, b', c'))"
proof -
  let ?b0 = "clear_buf b"
  have b0: "buf_wf ?b0" "bmem ?b0 \<noteq> None" "bcap ?b0 = bcap b" "contents ?b0 = []" "unat (blen ?b0) = 0"
    using assms(2,3) by (auto simp: clear_buf_def buf_wf_def contents_def split: option.splits)
  have need: "unat (fst (ipf ?b0 c)) = unat (bcap b)"
    using assms(5) empty_cap [of ?b0 c] b0(3) by (simp add: bempty_def clear_buf_def unat_ucast_64_32)
  obtain b2 where b2: "contents b2 = [] @ f" "unat (blen b2) = 0 + length f" and
    step: "(recv_pkt_loop ipf (fragment f # rs) (fst (ipf ?b0 c)) (of_nat 0) ?b0 (snd (ipf ?b0 c))
        :: ('e, _) outcome option) =
      (let need' = fst (ipf b2 (snd (ipf ?b0 c))) in
       if need' = 0 then Some (Ok (0, b2, snd (ipf b2 (snd (ipf ?b0 c)))))
       else if need' <s 0 then Some (Ok (- 2, b2, snd (ipf b2 (snd (ipf ?b0 c)))))
       else if bcap ?b0 < ucast (need' + of_nat (0 + length f))
         then Some (Ok (- 1, b2, snd (ipf b2 (snd (ipf ?b0 c)))))
       else recv_pkt_loop ipf rs need' (of_nat (0 + length f)) b2 (snd (ipf b2 (snd (ipf ?b0 c)))))"
    using loop_fragment [OF b0(1,2) _ b0(5), where f = f and ipf = ipf and need = "fst (ipf ?b0 c)" and rs = rs
        and c = "snd (ipf ?b0 c)"]
      assms(4,5,7) b0(3,4) need by auto
  have l2: "blen b2 = of_nat (length f)" using b2(2) by (metis add_0 of_nat_unat ucast_id)
  have neg: "fst (ipf b2 (snd (ipf ?b0 c))) <s 0"
    by (rule early [OF assms(1) _ assms(8) _ l2]) (use assms(6,7) b2 in auto)
  then have "fst (ipf b2 (snd (ipf ?b0 c))) \<noteq> 0" by auto
  with neg step show ?thesis by (simp add: recv_pkt_def Let_def)
qed

end

end
