(* ===== verification/Ys_TcpServer.thy ===== *)
theory Ys_TcpServer
  imports Ys_NetThread Ys_TcpClient
begin

text \<open>
  The event loop of a network thread (\<open>isaac/ys_epoller.h\<close>, \<open>epollRun\<close> of
  \<open>isaac/ys_thread_asyn.h\<close>), the pool of network threads \<open>YS_BusiPool\<close> and the admission of
  connections by \<open>YS_TcpServer\<close> (\<open>isaac/ys_tcp_server.h\<close>).
\<close>

section \<open>The event loop\<close>

text \<open>
  One event epoll reports: the connection it is about (\<open>None\<close> for a null pointer), the event bits,
  and what the handler will observe.
\<close>

record ep_event =
  ev_conn :: "int option"
  ev_bits :: u32
  ev_recv :: "os_recv list"
  ev_seen :: nat
  ev_now :: u64

text \<open>\<open>dealEvent\<close>: errors first; a writable socket is not handled by the network thread.\<close>

definition deal_event :: "(ys_buf \<Rightarrow> 'c option \<Rightarrow> 32 word \<times> 'c option) \<Rightarrow> bool \<Rightarrow> (ep_data \<Rightarrow> ep_data option) \<Rightarrow>
    ep_event \<Rightarrow> 'c net_th \<Rightarrow> 'c net_result option" where
  "deal_event ipf sb stale x s =
     (case ev_conn x of
        None \<Rightarrow> Some (Ok s)
      | Some k \<Rightarrow>
          if ev_bits x AND EPOLLERR \<noteq> 0 \<or> ev_bits x AND EPOLLHUP \<noteq> 0 \<or> ev_bits x AND EPOLLRDHUP \<noteq> 0
          then Some (on_epoll_err stale k s)
          else if ev_bits x AND EPOLLIN \<noteq> 0
          then on_epoll_in ipf sb (ev_recv x) (ev_seen x) (ev_now x) k s
          else Some (Ok s))"

fun fire_once :: "(ys_buf \<Rightarrow> 'c option \<Rightarrow> 32 word \<times> 'c option) \<Rightarrow> bool \<Rightarrow> (ep_data \<Rightarrow> ep_data option) \<Rightarrow>
    ep_event list \<Rightarrow> 'c net_th \<Rightarrow> 'c net_result option" where
  "fire_once ipf sb stale [] s = Some (Ok s)"
| "fire_once ipf sb stale (x # xs) s =
     (case deal_event ipf sb stale x s of
        Some (Ok s') \<Rightarrow> fire_once ipf sb stale xs s'
      | r \<Rightarrow> r)"

text \<open>One turn of \<open>epollRun\<close>: time-outs and closings are looked at only when no event was reported.\<close>

definition epoll_turn :: "(ys_buf \<Rightarrow> 'c option \<Rightarrow> 32 word \<times> 'c option) \<Rightarrow> bool \<Rightarrow> (ep_data \<Rightarrow> ep_data option) \<Rightarrow>
    ep_event list \<Rightarrow> u64 \<Rightarrow> 'c net_th \<Rightarrow> 'c net_result option" where
  "epoll_turn ipf sb stale xs now s =
     (case fire_once ipf sb stale xs s of
        Some (Ok s') \<Rightarrow> Some (Ok (if xs = [] then clear_closed now (clear_timeout now s') else s'))
      | r \<Rightarrow> r)"

fun epoll_run :: "(ys_buf \<Rightarrow> 'c option \<Rightarrow> 32 word \<times> 'c option) \<Rightarrow> bool \<Rightarrow> (ep_data \<Rightarrow> ep_data option) \<Rightarrow>
    (ep_event list \<times> u64) list \<Rightarrow> 'c net_th \<Rightarrow> 'c net_result option" where
  "epoll_run ipf sb stale [] s = Some (Ok s)"
| "epoll_run ipf sb stale (t # ts) s =
     (if running s
      then (case epoll_turn ipf sb stale (fst t) (snd t) s of
              Some (Ok s') \<Rightarrow> epoll_run ipf sb stale ts s'
            | r \<Rightarrow> r)
      else Some (Ok s))"

lemma deal_event_reach:
  "net_reach ipf sb hdl s0 s \<Longrightarrow> deal_event ipf sb Some x s = Some (Ok s') \<Longrightarrow> net_reach ipf sb hdl s0 s'"
  by (auto simp: deal_event_def intro: net_reach.step net_step.hangup net_step.readable split: option.splits if_splits)

lemma fire_once_reach:
  "net_reach ipf sb hdl s0 s \<Longrightarrow> fire_once ipf sb Some xs s = Some (Ok s') \<Longrightarrow> net_reach ipf sb hdl s0 s'"
  by (induction xs arbitrary: s) (auto split: option.splits outcome.splits dest: deal_event_reach)

lemma epoll_turn_reach:
  "net_reach ipf sb hdl s0 s \<Longrightarrow> epoll_turn ipf sb Some xs now s = Some (Ok s') \<Longrightarrow> net_reach ipf sb hdl s0 s'"
  by (auto simp: epoll_turn_def dest: fire_once_reach
      intro: net_reach.step [OF net_reach.step [OF _ net_step.timeout] net_step.closed]
      split: option.splits outcome.splits if_splits)

lemma epoll_run_reach:
  "net_reach ipf sb hdl s0 s \<Longrightarrow> epoll_run ipf sb Some ts s = Some (Ok s') \<Longrightarrow> net_reach ipf sb hdl s0 s'"
  by (induction ts arbitrary: s) (auto split: if_splits option.splits outcome.splits dest: epoll_turn_reach)

text \<open>
  a busy server never cleans up: in a turn that reports at least one event, even one about no
  connection, a time-out of a half-received message or a socket waiting to be closed is not looked at.
\<close>

theorem busy_turn_skips_cleanup:
  assumes "xs \<noteq> []" and "\<forall>x \<in> set xs. ev_conn x = None"
  shows "epoll_turn ipf sb stale xs now s = Some (Ok s)"
proof -
  have "fire_once ipf sb stale xs s = Some (Ok s)"
    using assms(2) by (induction xs) (simp_all add: deal_event_def)
  with assms(1) show ?thesis by (simp add: epoll_turn_def)
qed

section \<open>Placing connections\<close>

definition sock_num :: "'c net_th \<Rightarrow> u32" where "sock_num th = of_nat (conn_size (conns th))"

definition conn_num :: "'c net_th list \<Rightarrow> u32" where "conn_num pool = sum_list (map sock_num pool)"

text \<open>The first thread that has no more than the average gets the connection.\<close>

fun place :: "nat \<Rightarrow> nat \<Rightarrow> 'c net_th list \<Rightarrow> (buf_error, 'c net_th list) outcome" where
  "place avg sk [] = Ok []"
| "place avg sk (th # ths) =
     (if unat (sock_num th) \<le> avg then mapO (\<lambda>th'. th' # ths) (add_conn sk th)
      else mapO (\<lambda>ths'. th # ths') (place avg sk ths))"

definition pool_add_conn :: "nat \<Rightarrow> 'c net_th list \<Rightarrow> (buf_error, 'c net_th list) outcome" where
  "pool_add_conn sk pool = place (unat (conn_num pool) div length pool) sk pool"

text \<open>
  \<open>onAccept\<close>: socket \<open>sk\<close> with descriptor \<open>k\<close> has been accepted; above the limit it is dropped.
\<close>

definition know_sock :: "nat \<Rightarrow> int \<Rightarrow> 'c net_th \<Rightarrow> 'c net_th" where
  "know_sock sk k th = th\<lparr>sfd := (sfd th)(sk := k), swait := (swait th)(sk := False)\<rparr>"

definition on_accept :: "u32 \<Rightarrow> nat \<times> int \<Rightarrow> 'c net_th list \<Rightarrow> (buf_error, 'c net_th list) outcome" where
  "on_accept maxConn c pool =
     (if conn_num pool < maxConn
      then pool_add_conn (fst c) (map (know_sock (fst c) (snd c)) pool)
      else Ok pool)"

fun accept_all :: "u32 \<Rightarrow> (nat \<times> int) list \<Rightarrow> 'c net_th list \<Rightarrow> (buf_error, 'c net_th list) outcome" where
  "accept_all maxConn [] pool = Ok pool"
| "accept_all maxConn (c # cs) pool = bindO (on_accept maxConn c pool) (accept_all maxConn cs)"

abbreviation conn_total :: "'c net_th list \<Rightarrow> nat" where
  "conn_total pool \<equiv> sum_list (map (\<lambda>th. conn_size (conns th)) pool)"

lemma conn_num_total: "conn_total pool < 2 ^ 32 \<Longrightarrow> unat (conn_num pool) = conn_total pool"
proof -
  have "conn_num pool = of_nat (conn_total pool)"
    by (induction pool) (simp_all add: conn_num_def sock_num_def)
  moreover assume "conn_total pool < 2 ^ 32"
  ultimately show ?thesis by (simp add: unat_of_nat_32)
qed

lemma sock_num_size: "th \<in> set pool \<Longrightarrow> conn_total pool < 2 ^ 32 \<Longrightarrow> unat (sock_num th) = conn_size (conns th)"
proof -
  assume "th \<in> set pool" and "conn_total pool < 2 ^ 32"
  moreover have "conn_size (conns th) \<le> conn_total pool" if "th \<in> set pool"
    using that by (induction pool) auto
  ultimately show ?thesis by (simp add: sock_num_def unat_of_nat_32)
qed

text \<open>The least loaded thread is never above the average.\<close>

lemma some_below_average: "xs \<noteq> [] \<Longrightarrow> \<exists>x \<in> set xs. x \<le> sum_list xs div length (xs :: nat list)"
proof (rule ccontr)
  assume ne: "xs \<noteq> []" and "\<not> (\<exists>x \<in> set xs. x \<le> sum_list xs div length xs)"
  then have "\<forall>x \<in> set xs. Suc (sum_list xs div length xs) \<le> x" by auto
  then have "length xs * Suc (sum_list xs div length xs) \<le> sum_list xs"
  proof -
    have "\<forall>x \<in> set ys. m \<le> x \<Longrightarrow> length ys * m \<le> sum_list ys" for ys :: "nat list" and m
      by (induction ys) auto
    then show ?thesis using \<open>\<forall>x \<in> set xs. Suc (sum_list xs div length xs) \<le> x\<close> by blast
  qed
  moreover have "sum_list xs < length xs * Suc (sum_list xs div length xs)"
    using ne by (simp add: dividend_less_times_div)
  ultimately show False by simp
qed

definition can_take :: "nat \<Rightarrow> 'c net_th \<Rightarrow> bool" where
  "can_take sk th \<longleftrightarrow> running th \<and> conn_find (sfd th sk) (conns th) = None"

lemma add_conn_grows:
  assumes "can_take sk th"
  shows "\<exists>th'. add_conn sk th = Ok th' \<and> conn_size (conns th') = Suc (conn_size (conns th)) \<and> running th' \<and>
    fst ` set (conn_mp (conns th')) \<subseteq> insert (sfd th sk) (fst ` set (conn_mp (conns th)))"
  using assms
  by (auto simp: can_take_def add_conn_def conn_add_def add_sock_def conn_size_def Let_def set_insort_key)

lemma place_grows:
  assumes "\<exists>th \<in> set ths. unat (sock_num th) \<le> avg" and "\<forall>th \<in> set ths. can_take sk th"
    and "\<forall>th \<in> set ths. unat (sock_num th) = conn_size (conns th)"
  shows "\<exists>ths'. place avg sk ths = Ok ths' \<and> length ths' = length ths \<and>
    conn_total ths' = Suc (conn_total ths) \<and> (\<forall>th \<in> set ths'. running th) \<and>
    (\<forall>th' \<in> set ths'. th' \<in> set ths \<or> conn_size (conns th') \<le> Suc avg) \<and>
    (\<forall>th' \<in> set ths'. \<exists>th \<in> set ths. fst ` set (conn_mp (conns th')) \<subseteq> insert (sfd th sk) (fst ` set (conn_mp (conns th))))"
  using assms
proof (induction ths)
  case Nil
  then show ?case by simp
next
  case (Cons th ths)
  show ?case
  proof (cases "unat (sock_num th) \<le> avg")
    case True
    obtain th' where "add_conn sk th = Ok th'" "conn_size (conns th') = Suc (conn_size (conns th))" "running th'"
        "fst ` set (conn_mp (conns th')) \<subseteq> insert (sfd th sk) (fst ` set (conn_mp (conns th)))"
      using add_conn_grows [of sk th] Cons.prems(2) by auto
    with True Cons.prems(2,3) show ?thesis by (auto simp: can_take_def)
  next
    case False
    with Cons.prems have "\<exists>th \<in> set ths. unat (sock_num th) \<le> avg" by auto
    from Cons.IH [OF this] Cons.prems(2,3) obtain ths' where
      "place avg sk ths = Ok ths'" "length ths' = length ths" "conn_total ths' = Suc (conn_total ths)"
      "\<forall>th \<in> set ths'. running th" "\<forall>th' \<in> set ths'. th' \<in> set ths \<or> conn_size (conns th') \<le> Suc avg"
      "\<forall>th' \<in> set ths'. \<exists>th \<in> set ths. fst ` set (conn_mp (conns th')) \<subseteq> insert (sfd th sk) (fst ` set (conn_mp (conns th)))"
      by auto
    with False Cons.prems(2) show ?thesis by (auto simp: can_take_def)
  qed
qed

text \<open>The pool's state between two accepts: \<open>used\<close> are the descriptors handed out so far.\<close>

definition pool_ok :: "nat \<Rightarrow> int set \<Rightarrow> 'c net_th list \<Rightarrow> bool" where
  "pool_ok m used pool \<longleftrightarrow> length pool = m \<and> (\<forall>th \<in> set pool. running th) \<and>
     (\<forall>th \<in> set pool. fst ` set (conn_mp (conns th)) \<subseteq> used) \<and>
     (\<forall>th \<in> set pool. conn_size (conns th) \<le> conn_total pool div m + 1)"

lemma know_sock_simps [simp]:
  "conns (know_sock sk k th) = conns th" "running (know_sock sk k th) = running th"
  "sfd (know_sock sk k th) sk = k" "sock_num (know_sock sk k th) = sock_num th"
  by (simp_all add: know_sock_def sock_num_def)

lemma conn_total_know [simp]: "conn_total (map (know_sock sk k) pool) = conn_total pool"
  by (induction pool) simp_all

lemma conn_num_know [simp]: "conn_num (map (know_sock sk k) pool) = conn_num pool"
  by (simp add: conn_num_def comp_def)

lemma pool_add_ok:
  assumes ok: "pool_ok m used pool" and m: "0 < m" and k: "k \<notin> used" and total: "conn_total pool < 2 ^ 32"
  shows "\<exists>pool'. pool_add_conn sk (map (know_sock sk k) pool) = Ok pool' \<and> pool_ok m (insert k used) pool' \<and>
    conn_total pool' = Suc (conn_total pool)"
proof -
  let ?p = "map (know_sock sk k) pool"
  let ?avg = "conn_total pool div m"
  have len: "length pool = m" using ok by (simp add: pool_ok_def)
  have avg: "unat (conn_num ?p) div length ?p = ?avg"
    using conn_num_total [OF total] len by simp
  have sizes: "\<forall>th \<in> set ?p. unat (sock_num th) = conn_size (conns th)"
    using sock_num_size [OF _ total] by auto
  have "map (\<lambda>th. conn_size (conns th)) pool \<noteq> []" using m len by auto
  from some_below_average [OF this] have "\<exists>th \<in> set pool. conn_size (conns th) \<le> ?avg" using len by auto
  then have below: "\<exists>th \<in> set ?p. unat (sock_num th) \<le> ?avg" using sizes by force
  have can: "\<forall>th \<in> set ?p. can_take sk th"
    using ok k by (auto simp: can_take_def pool_ok_def conn_find_def map_of_eq_None_iff)
  obtain ths' where p: "place ?avg sk ?p = Ok ths'" "length ths' = length ?p"
      "conn_total ths' = Suc (conn_total ?p)" "\<forall>th \<in> set ths'. running th"
      "\<forall>th' \<in> set ths'. th' \<in> set ?p \<or> conn_size (conns th') \<le> Suc ?avg"
      "\<forall>th' \<in> set ths'. \<exists>th \<in> set ?p. fst ` set (conn_mp (conns th')) \<subseteq> insert (sfd th sk) (fst ` set (conn_mp (conns th)))"
    using place_grows [OF below can sizes] by blast
  have "conn_size (conns th') \<le> Suc (conn_total pool) div m + 1" if "th' \<in> set ths'" for th'
  proof -
    have "conn_size (conns th') \<le> ?avg + 1"
      using p(5) that ok by (auto simp: pool_ok_def)
    moreover have "?avg \<le> Suc (conn_total pool) div m" by (rule div_le_mono) simp
    ultimately show ?thesis by linarith
  qed
  moreover have "fst ` set (conn_mp (conns th')) \<subseteq> insert k used" if th': "th' \<in> set ths'" for th'
  proof -
    obtain th where th: "th \<in> set ?p"
      "fst ` set (conn_mp (conns th')) \<subseteq> insert (sfd th sk) (fst ` set (conn_mp (conns th)))"
      using p(6) th' by blast
    from th(1) obtain t where t: "t \<in> set pool" "th = know_sock sk k t" by auto
    have "fst ` set (conn_mp (conns t)) \<subseteq> used" using ok t(1) unfolding pool_ok_def by blast
    with th(2) t(2) show ?thesis by auto
  qed
  moreover have tot: "conn_total ths' = Suc (conn_total pool)" using p(3) by (simp only: conn_total_know)
  ultimately have "pool_ok m (insert k used) ths'"
    unfolding pool_ok_def tot using p(2,4) len by auto
  with p(1) tot avg show ?thesis by (simp add: pool_add_conn_def)
qed

lemma accept_all_ok:
  assumes "pool_ok m used pool" and "0 < m" and "conn_total pool \<le> unat maxConn"
    and "distinct (map snd cs)" and "set (map snd cs) \<inter> used = {}"
  shows "\<exists>pool'. accept_all maxConn cs pool = Ok pool' \<and> (\<exists>used'. pool_ok m used' pool') \<and>
    conn_total pool' = min (conn_total pool + length cs) (unat maxConn)"
  using assms
proof (induction cs arbitrary: pool used)
  case Nil
  then show ?case by auto
next
  case (Cons c cs)
  have bound: "unat maxConn < 2 ^ 32" using unsigned_less [of maxConn] by simp
  then have total: "conn_total pool < 2 ^ 32" using Cons.prems(3) by simp
  show ?case
  proof (cases "conn_total pool < unat maxConn")
    case True
    obtain p1 where p1: "pool_add_conn (fst c) (map (know_sock (fst c) (snd c)) pool) = Ok p1"
        "pool_ok m (insert (snd c) used) p1" "conn_total p1 = Suc (conn_total pool)"
      using pool_add_ok [OF Cons.prems(1,2) _ total, of "snd c" "fst c"] Cons.prems(5) by auto
    have "on_accept maxConn c pool = Ok p1"
      using p1(1) True by (simp add: on_accept_def word_less_nat_alt conn_num_total [OF total])
    moreover obtain pool' where "accept_all maxConn cs p1 = Ok pool'" "\<exists>used'. pool_ok m used' pool'"
        "conn_total pool' = min (conn_total p1 + length cs) (unat maxConn)"
      using Cons.IH [OF p1(2)] Cons.prems(2,4,5) p1(3) True by auto
    ultimately show ?thesis using p1(3) by simp
  next
    case False
    have "on_accept maxConn c pool = Ok pool"
      using False by (simp add: on_accept_def word_less_nat_alt conn_num_total [OF total])
    with Cons.IH [OF Cons.prems(1)] Cons.prems(2-5) False show ?thesis by auto
  qed
qed

text \<open>
  C33: admission is exact and balanced.  Starting with idle threads, every accepted connection is placed
  on some thread as long as the limit is not reached, no connection above the limit is, and no thread
  ever has more than one connection above the average.
\<close>

theorem accept_balanced:
  assumes "pool \<noteq> []" and "\<forall>th \<in> set pool. running th \<and> conn_mp (conns th) = []" and "distinct (map snd cs)"
  shows "\<exists>pool'. accept_all maxConn cs pool = Ok pool' \<and> conn_total pool' = min (length cs) (unat maxConn) \<and>
    (\<forall>th \<in> set pool'. conn_size (conns th) \<le> conn_total pool' div length pool + 1)"
proof -
  have z: "conn_total pool = 0" using assms(2) by (induction pool) (auto simp: conn_size_def)
  then have "pool_ok (length pool) {} pool"
    using assms(2) by (auto simp: pool_ok_def conn_size_def)
  from accept_all_ok [OF this _ _ assms(3), of maxConn] assms(1) z show ?thesis
    by (auto simp: pool_ok_def)
qed

section \<open>Witnesses\<close>

theorem busy_turn_skips_cleanup_witness:
  "epoll_turn two_ipf False Some [\<lparr>ev_conn = None, ev_bits = 1, ev_recv = [], ev_seen = 0, ev_now = 0\<rparr>] 99999 half_request =
    Some (Ok half_request)"
  by (rule busy_turn_skips_cleanup) simp_all

theorem accept_balanced_witness:
  "\<exists>pool'. accept_all 2 [(7, 5), (8, 6), (9, 10)] [net_start small_net 2, net_start small_net 2] = Ok pool' \<and>
    conn_total pool' = min (length [(7 :: nat, 5 :: int), (8, 6), (9, 10)]) (unat (2 :: u32)) \<and>
    (\<forall>th \<in> set pool'. conn_size (conns th) \<le>
      conn_total pool' div length [net_start small_net 2, net_start small_net 2] + 1)"
  by (rule accept_balanced) (simp_all add: net_start_def net_resize_def net_empty_def Let_def conn_new_def)

end
