(* ===== verification/Ys_EventLoop.thy ===== *)
theory Ys_EventLoop
  imports Ys_TcpServer
begin

text \<open>
  What the event loop of a network thread does, stated without the heap of buffers.  In
  \<open>isaac/ys_thread_asyn.h\<close> connections, queues and business threads pass pointers to shared buffers
  around; here every connection owns the buffer it is filling, and the queues hold buffers, not
  pointers.  \<open>view\<close> reads this off the state of \<open>Ys_NetThread\<close>, \<open>loop_spec\<close> says what a run of the
  loop means on it, and the loop of the code is shown to compute exactly that.
\<close>

section \<open>The view\<close>

record 'c conn_view =
  c_sock :: nat
  c_tmr :: timer
  c_buf :: "'c net_buf option"

record 'c loop_view =
  v_conns :: "(int \<times> 'c conn_view) list"
  v_idle :: "'c net_buf th_queue"
  v_tasks :: "'c net_buf list"
  v_wait :: "nat \<Rightarrow> bool"
  v_tmout :: u64
  v_run :: bool

definition cview :: "(nat \<Rightarrow> 'c net_buf) \<Rightarrow> ep_data \<Rightarrow> 'c conn_view" where
  "cview nb e = \<lparr>c_sock = esock e, c_tmr = etmr e, c_buf = map_option nb (ebuf e)\<rparr>"

definition map_queue :: "('a \<Rightarrow> 'b) \<Rightarrow> 'a th_queue \<Rightarrow> 'b th_queue" where
  "map_queue f q = \<lparr>q_items = map f (q_items q), q_size = q_size q, q_lock = q_lock q\<rparr>"

definition view :: "'c net_th \<Rightarrow> 'c loop_view" where
  "view s = \<lparr>v_conns = map (map_prod id (cview (nbufs s))) (conn_mp (conns s)), v_idle = map_queue (nbufs s) (q_idle s),
     v_tasks = map (nbufs s) (q_items (q_busi s)), v_wait = swait s, v_tmout = conn_tmout (conns s), v_run = running s\<rparr>"

section \<open>What the loop means\<close>

text \<open>
  What becomes of a buffer after \<open>recv\<close>: the connection keeps it for the rest of the message, it is
  released, or it is a task for the business threads.
\<close>

datatype 'c fate = Keep "'c net_buf" | Release "'c net_buf" | Task "'c net_buf"

definition emptied :: "'c net_buf \<Rightarrow> 'c net_buf" where "emptied x = x\<lparr>recvData := clear_buf (recvData x)\<rparr>"

definition fate_of :: "(ys_buf \<Rightarrow> 'c option \<Rightarrow> 32 word \<times> 'c option) \<Rightarrow> bool \<Rightarrow> nat \<Rightarrow> 32 word \<Rightarrow> 'c net_buf \<Rightarrow> 'c fate" where
  "fate_of ipf sb sk err x =
     (if err \<noteq> 0 then Release (emptied x)
      else if blen (recvData x) = 0 then Release x
      else
        let (need, c) = ipf (recvData x) (ctx x); y = x\<lparr>ctx := c\<rparr> in
        if need <s 0 \<or> bfull (recvData x) \<and> \<not> sb then Release (emptied y)
        else if bfull (recvData x) then Task (y\<lparr>refSock := Some sk, cbBusiFinal := True\<rparr>)
        else if need = 0 then Task (y\<lparr>refSock := Some sk\<rparr>)
        else Keep y)"

definition put_conn :: "int \<Rightarrow> 'c conn_view \<Rightarrow> 'c loop_view \<Rightarrow> 'c loop_view" where
  "put_conn k c v = v\<lparr>v_conns := map (\<lambda>(j, d). if j = k then (j, c) else (j, d)) (v_conns v)\<rparr>"

fun settle :: "int \<Rightarrow> 'c conn_view \<Rightarrow> 'c fate \<Rightarrow> 'c loop_view \<Rightarrow> 'c loop_view" where
  "settle k c (Keep x) v = put_conn k (c\<lparr>c_buf := Some x\<rparr>) v"
| "settle k c (Release x) v = put_conn k (c\<lparr>c_buf := None\<rparr>) (v\<lparr>v_idle := th_push_back x (v_idle v)\<rparr>)"
| "settle k c (Task x) v = put_conn k (c\<lparr>c_buf := None\<rparr>) (v\<lparr>v_tasks := v_tasks v @ [x]\<rparr>)"

text \<open>
  A readable connection: the message it is collecting goes on; otherwise a message begins, with its
  timer and the first idle buffer, if there is one.
\<close>

definition readable_spec :: "(ys_buf \<Rightarrow> 'c option \<Rightarrow> 32 word \<times> 'c option) \<Rightarrow> bool \<Rightarrow> ep_event \<Rightarrow> int \<Rightarrow> 'c conn_view \<Rightarrow>
    'c loop_view \<Rightarrow> (buf_error, 'c loop_view) outcome option" where
  "readable_spec ipf sb evt k c v =
     (let fill = (\<lambda>c x v. map_option (mapO (\<lambda>(err, rd). settle k c (fate_of ipf sb (c_sock c) err (x\<lparr>recvData := rd\<rparr>)) v))
            (socket_recv_buf (ev_recv evt) (recvData x)));
          c' = c\<lparr>c_tmr := timer_start (ev_now evt) 3000 (c_tmr c)\<rparr> in
      case c_buf c of
        Some x \<Rightarrow> fill c x v
      | None \<Rightarrow>
          (case th_pop_wait (ev_seen evt) (v_idle v) of
             (None, idle) \<Rightarrow> Some (Ok (put_conn k c' v))
           | (Some x, idle) \<Rightarrow> fill c' x (v\<lparr>v_idle := idle\<rparr>)))"

text \<open>A failed connection disappears; the buffer it held is idle again, with nothing of the connection in it.\<close>

definition failed_spec :: "int \<Rightarrow> 'c conn_view \<Rightarrow> 'c loop_view \<Rightarrow> 'c loop_view" where
  "failed_spec k c v =
     v\<lparr>v_conns := filter (\<lambda>(j, d). j \<noteq> k) (v_conns v),
       v_idle := (case c_buf c of None \<Rightarrow> v_idle v | Some x \<Rightarrow> th_push_back (clear_net_buf x) (v_idle v))\<rparr>"

definition event_spec :: "(ys_buf \<Rightarrow> 'c option \<Rightarrow> 32 word \<times> 'c option) \<Rightarrow> bool \<Rightarrow> ep_event \<Rightarrow>
    'c loop_view \<Rightarrow> (buf_error, 'c loop_view) outcome option" where
  "event_spec ipf sb evt v =
     (case ev_conn evt of
        None \<Rightarrow> Some (Ok v)
      | Some k \<Rightarrow>
          if ev_bits evt AND (EPOLLERR OR EPOLLHUP OR EPOLLRDHUP OR EPOLLIN) = 0 then Some (Ok v)
          else
            (case map_of (v_conns v) k of
               None \<Rightarrow> Some Undef
             | Some c \<Rightarrow>
                 if ev_bits evt AND (EPOLLERR OR EPOLLHUP OR EPOLLRDHUP) = 0 then readable_spec ipf sb evt k c v
                 else Some (Ok (failed_spec k c v))))"

fun events_spec :: "(ys_buf \<Rightarrow> 'c option \<Rightarrow> 32 word \<times> 'c option) \<Rightarrow> bool \<Rightarrow> ep_event list \<Rightarrow>
    'c loop_view \<Rightarrow> (buf_error, 'c loop_view) outcome option" where
  "events_spec ipf sb [] v = Some (Ok v)"
| "events_spec ipf sb (evt # evs) v = Option.bind (event_spec ipf sb evt v) (\<lambda>r.
     case r of Ok v' \<Rightarrow> events_spec ipf sb evs v' | _ \<Rightarrow> Some r)"

text \<open>
  A quiet turn, connection by connection: an unfinished message that is too old is given up, and a
  connection is dropped when its socket waits to be closed or when it has been collecting too long.
\<close>

definition overdue :: "u64 \<Rightarrow> 'c conn_view \<Rightarrow> bool" where
  "overdue now c \<longleftrightarrow> c_buf c \<noteq> None \<and> timer_isTimeOut now (c_tmr c)"

definition quiet_conn :: "u64 \<Rightarrow> u64 \<Rightarrow> (nat \<Rightarrow> bool) \<Rightarrow> 'c conn_view \<Rightarrow> 'c conn_view option" where
  "quiet_conn now tmout waiting c =
     (let c' = if overdue now c then c\<lparr>c_tmr := timer_stop (c_tmr c), c_buf := None\<rparr> else c in
      if waiting (c_sock c') \<or> tmout \<noteq> 0 \<and> timer_count now (c_tmr c') > tmout then None else Some c')"

definition quiet_spec :: "u64 \<Rightarrow> 'c loop_view \<Rightarrow> 'c loop_view" where
  "quiet_spec now v =
     v\<lparr>v_conns := List.map_filter (\<lambda>(k, c). map_option (Pair k) (quiet_conn now (v_tmout v) (v_wait v) c)) (v_conns v),
       v_idle := th_push_back_all
         (List.map_filter (\<lambda>(k, c). if overdue now c then map_option emptied (c_buf c) else None) (v_conns v)) (v_idle v)\<rparr>"

fun loop_spec :: "(ys_buf \<Rightarrow> 'c option \<Rightarrow> 32 word \<times> 'c option) \<Rightarrow> bool \<Rightarrow> (ep_event list \<times> u64) list \<Rightarrow>
    'c loop_view \<Rightarrow> (buf_error, 'c loop_view) outcome option" where
  "loop_spec ipf sb [] v = Some (Ok v)"
| "loop_spec ipf sb ((evs, now) # ts) v =
     (if \<not> v_run v then Some (Ok v)
      else Option.bind (events_spec ipf sb evs v) (\<lambda>r.
        case r of
          Ok v' \<Rightarrow> loop_spec ipf sb ts (if evs = [] then quiet_spec now v' else v')
        | _ \<Rightarrow> Some r))"

section \<open>What separates the buffers\<close>

text \<open>A buffer a connection holds, or one just taken from the idle queue, is seen from nowhere else.\<close>

definition apart :: "nat \<Rightarrow> int \<Rightarrow> 'c net_th \<Rightarrow> bool" where
  "apart b k s \<longleftrightarrow> b \<notin> set (q_items (q_idle s)) \<and> b \<notin> set (q_items (q_busi s)) \<and>
     (\<forall>(j, d) \<in> set (conn_mp (conns s)). j \<noteq> k \<longrightarrow> ebuf d \<noteq> Some b)"

lemma ep_bufs_mem: "b \<in> set (ep_bufs es) \<longleftrightarrow> (\<exists>e\<in>set es. ebuf e = Some b)"
  by (induction es) (auto split: option.splits)

lemma sole_parts:
  assumes "sole s"
  shows "count_list (q_items (q_idle s)) b + count_list (q_items (q_busi s)) b + count (held (conns s)) b \<le> 1"
proof -
  have "count (owned s) b \<le> 1" using assms by (simp add: sole_def)
  then show ?thesis unfolding owned_def by (simp add: count_mset)
qed

lemma held_apart:
  assumes "sole s" and "table_wf s" and "conn_find k (conns s) = Some e" and "ebuf e = Some b"
  shows "apart b k s"
proof -
  let ?cl = "conn_set k (e\<lparr>ebuf := None\<rparr>) (conns s)"
  have "held ?cl + {#b#} = held (conns s)" using held_set [OF assms(2,3), of "e\<lparr>ebuf := None\<rparr>"] assms(4) by simp
  then have h: "count (held (conns s)) b = Suc (count (held ?cl) b)" by (metis add_mset_add_single count_add_mset)
  with sole_parts [OF assms(1), of b]
  have z: "count_list (q_items (q_idle s)) b = 0" "count_list (q_items (q_busi s)) b = 0" "count (held ?cl) b = 0" by linarith+
  have "ebuf d \<noteq> Some b" if "(j, d) \<in> set (conn_mp (conns s))" "j \<noteq> k" for j d
  proof
    assume "ebuf d = Some b"
    moreover have "(j, d) \<in> set (conn_mp ?cl)" using that by (force simp: conn_set_def)
    ultimately have "b \<in># held ?cl" by (force simp: held_def ep_bufs_mem)
    with z(3) show False by (metis not_in_iff)
  qed
  with z(1,2) show ?thesis by (auto simp: apart_def count_list_0_iff)
qed

lemma popped_apart:
  assumes "sole s" and "fst (th_pop_wait seen (q_idle s)) = Some b"
  shows "apart b k (s\<lparr>q_idle := snd (th_pop_wait seen (q_idle s))\<rparr>)"
proof -
  have i: "q_items (q_idle s) = b # q_items (snd (th_pop_wait seen (q_idle s)))" by (rule wq.pop_some [OF assms(2)])
  with sole_parts [OF assms(1), of b]
  have z: "count_list (q_items (snd (th_pop_wait seen (q_idle s)))) b = 0" "count_list (q_items (q_busi s)) b = 0"
    "count (held (conns s)) b = 0" by simp_all
  then show ?thesis
    by (force simp: apart_def count_list_0_iff not_in_iff [symmetric] held_def ep_bufs_mem)
qed

section \<open>Keys are descriptors of open sockets\<close>

definition conn_keys :: "conn_list \<Rightarrow> int set" where "conn_keys cl = fst ` set (conn_mp cl)"

definition open_keys :: "'c net_th \<Rightarrow> bool" where "open_keys s \<longleftrightarrow> (\<forall>k \<in> conn_keys (conns s). 0 \<le> k)"

lemma keys_set [simp]: "conn_keys (conn_set k e cl) = conn_keys cl"
proof -
  have "fst ` set (map (\<lambda>(j, d). if j = k then (j, e) else (j, d)) mp) = fst ` set mp" for mp :: conn_map
    by (induction mp) auto
  then show ?thesis by (simp add: conn_keys_def conn_set_def)
qed

lemma keys_after_recv [simp]: "conn_keys (conns (after_recv ipf sb k e b err s)) = conn_keys (conns s)"
  by (simp add: after_recv_def Let_def give_back_def submit_def)

lemma keys_erase: "conn_keys (cl\<lparr>conn_mp := conn_erase ks (conn_mp cl)\<rparr>) \<subseteq> conn_keys cl"
  by (auto simp: conn_keys_def conn_erase_def)

lemma keys_drop: "conn_drop P fd cl = (vt, cl', fr) \<Longrightarrow> conn_keys cl' \<subseteq> conn_keys cl"
  using keys_erase by (auto simp: conn_drop_def Let_def)

lemma keys_closed: "conn_keys (conns (clear_closed now s)) \<subseteq> conn_keys (conns s)"
  by (auto simp: clear_closed_def conn_closed_socks_def conn_timeout_socks_drop Let_def
      split: prod.splits dest!: keys_drop)

lemma keys_timeout: "conn_keys (conns (clear_timeout now s)) = conn_keys (conns s)"
  by (auto simp: clear_timeout_def conn_timeout_bufs_def conn_keys_def Let_def image_image intro!: image_cong
      split: prod.splits)

lemma net_step_keys: "net_step ipf sb hdl s s' \<Longrightarrow> open_keys s \<Longrightarrow> open_keys s'"
proof (induction rule: net_step.induct)
  case (accept k s sk s')
  then show ?case
    by (auto simp: open_keys_def conn_keys_def add_conn_def conn_add_def Let_def set_insort_key split: if_splits option.splits)
next
  case (readable es seen now k s s')
  then show ?case
    by (auto simp: open_keys_def on_epoll_in_def Let_def out_simps split: option.splits)
next
  case (hangup k s s')
  then show ?case
    by (auto simp: open_keys_def on_epoll_err_def Let_def conn_del_def dest!: subsetD [OF keys_erase]
        split: option.splits if_splits outcome.splits)
next
  case (timeout s now)
  then show ?case by (simp add: open_keys_def keys_timeout)
next
  case (closed s now)
  then show ?case using keys_closed by (fastforce simp: open_keys_def)
next
  case (take s seen t)
  then show ?case using task_take_owned [of seen t s] by (simp add: open_keys_def)
next
  case (finish b s ssl es s' reply)
  then show ?case using task_done_owned [OF finish(1,2)] by (simp add: open_keys_def)
next
  case (stop s)
  then show ?case by (simp add: open_keys_def)
qed

definition separated :: "'c net_th \<Rightarrow> bool" where
  "separated s \<longleftrightarrow> table_wf s \<and> sole s \<and> open_keys s"

lemma reach_separated: "net_reach ipf sb hdl (net_start nb n) s \<Longrightarrow> separated s"
proof (induction rule: net_reach.induct)
  case init
  have "open_keys (net_start nb n)"
    by (auto simp: open_keys_def conn_keys_def net_start_def net_resize_def net_empty_def conn_new_def Let_def)
  then show ?case using net_start_sole [of nb n] net_start_owned [of nb n] by (simp add: separated_def)
next
  case (step s s')
  then show ?case using net_step_owned [OF step(2)] net_step_keys [OF step(2)] by (simp add: separated_def sole_def)
qed

section \<open>One event\<close>

lemma view_fields [simp]:
  "v_idle (view s) = map_queue (nbufs s) (q_idle s)" "v_tasks (view s) = map (nbufs s) (q_items (q_busi s))"
  "v_conns (view s) = map (map_prod id (cview (nbufs s))) (conn_mp (conns s))" "v_wait (view s) = swait s"
  "v_tmout (view s) = conn_tmout (conns s)" "v_run (view s) = running s"
  by (simp_all add: view_def)

lemma view_del_sock [simp]: "view (del_sock k s) = view s" by (simp add: view_def del_sock_def)

lemma map_queue_push: "map_queue f (th_push_back x q) = th_push_back (f x) (map_queue f q)"
  by (simp add: map_queue_def th_push_back_def)

lemma map_queue_cong: "(\<And>x. x \<in> set (q_items q) \<Longrightarrow> f x = g x) \<Longrightarrow> map_queue f q = map_queue g q"
  by (simp add: map_queue_def)

lemma map_queue_pop:
  "th_pop_wait n (map_queue f q) = (map_option f (fst (th_pop_wait n q)), map_queue f (snd (th_pop_wait n q)))"
  by (auto simp: th_pop_wait_def map_queue_def has_notify_def th_drop_def split: list.split)

lemma cview_cong: "(\<And>b. ebuf e = Some b \<Longrightarrow> f b = g b) \<Longrightarrow> cview f e = cview g e"
  by (cases "ebuf e") (simp_all add: cview_def)

text \<open>A change of one connection and of a buffer seen from nowhere else.\<close>

lemma put_conn_view:
  assumes "apart b k s" and "c = cview ((nbufs s)(b := y)) e"
  shows "map (map_prod id (cview ((nbufs s)(b := y)))) (conn_mp (conn_set k e (conns s))) =
      map (\<lambda>(j, d). if j = k then (j, c) else (j, d)) (map (map_prod id (cview (nbufs s))) (conn_mp (conns s)))"
    and "map_queue ((nbufs s)(b := y)) (q_idle s) = map_queue (nbufs s) (q_idle s)"
    and "map ((nbufs s)(b := y)) (q_items (q_busi s)) = map (nbufs s) (q_items (q_busi s))"
proof -
  have "cview ((nbufs s)(b := y)) d = cview (nbufs s) d" if "(j, d) \<in> set (conn_mp (conns s))" "j \<noteq> k" for j d
    by (rule cview_cong) (use assms(1) that in \<open>auto simp: apart_def\<close>)
  then show "map (map_prod id (cview ((nbufs s)(b := y)))) (conn_mp (conn_set k e (conns s))) =
      map (\<lambda>(j, d). if j = k then (j, c) else (j, d)) (map (map_prod id (cview (nbufs s))) (conn_mp (conns s)))"
    by (auto simp: conn_set_def assms(2))
  show "map_queue ((nbufs s)(b := y)) (q_idle s) = map_queue (nbufs s) (q_idle s)"
    by (rule map_queue_cong) (use assms(1) in \<open>auto simp: apart_def\<close>)
  show "map ((nbufs s)(b := y)) (q_items (q_busi s)) = map (nbufs s) (q_items (q_busi s))"
    using assms(1) by (auto simp: apart_def)
qed

lemma settled_views:
  assumes "apart b k s" and "c_sock c = esock e" and "c_tmr c = etmr e"
  shows "view (set_ep k (e\<lparr>ebuf := Some b\<rparr>) (upd_buf b f s)) = settle k c (Keep (f (nbufs s b))) (view s)"
    and "view (give_back k e b (upd_buf b f s)) = settle k c (Release (f (nbufs s b))) (view s)"
    and "view (submit cb k e b (upd_buf b f s)) =
      settle k c (Task (let x = f (nbufs s b) in x\<lparr>refSock := Some (esock e), cbBusiFinal := cbBusiFinal x \<or> cb\<rparr>)) (view s)"
proof -
  have cv: "c\<lparr>c_buf := Some y\<rparr> = cview ((nbufs s)(b := y)) (e\<lparr>ebuf := Some b\<rparr>)"
    "c\<lparr>c_buf := None\<rparr> = cview ((nbufs s)(b := y)) (e\<lparr>ebuf := None\<rparr>)" for y
    using assms(2,3) by (simp_all add: cview_def)
  note pc = put_conn_view [OF assms(1) refl] cv [symmetric]
  have t: "conn_tmout (conn_set k d cl) = conn_tmout cl" for d cl by (simp add: conn_set_def)
  show "view (set_ep k (e\<lparr>ebuf := Some b\<rparr>) (upd_buf b f s)) = settle k c (Keep (f (nbufs s b))) (view s)"
    by (simp only: settle.simps cv(1)) (simp add: view_def set_ep_def upd_buf_def put_conn_def t pc(1-3) del: map_map fun_upd_apply)
  show "view (give_back k e b (upd_buf b f s)) = settle k c (Release (f (nbufs s b))) (view s)"
    by (simp only: settle.simps cv(2) [of "f (nbufs s b)"])
      (simp add: view_def give_back_def push_idle_def set_ep_def upd_buf_def put_conn_def t map_queue_push pc(1-3) del: map_map)
  let ?y = "(f (nbufs s b))\<lparr>refSock := Some (esock e), cbBusiFinal := cbBusiFinal (f (nbufs s b)) \<or> cb\<rparr>"
  show "view (submit cb k e b (upd_buf b f s)) =
      settle k c (Task (let x = f (nbufs s b) in x\<lparr>refSock := Some (esock e), cbBusiFinal := cbBusiFinal x \<or> cb\<rparr>)) (view s)"
    by (simp only: settle.simps cv(2) [of ?y] Let_def)
      (simp add: view_def submit_def push_task_def th_push_back_def set_ep_def upd_buf_def put_conn_def t pc(1-3) del: map_map)
qed

lemma upd_upd: "upd_buf b g (upd_buf b f s) = upd_buf b (\<lambda>x. g (f x)) s" by (simp add: upd_buf_def)

lemma submit_del_sock: "submit cb k e b (del_sock j s) = del_sock j (submit cb k e b s)"
  by (simp add: submit_def del_sock_def push_task_def upd_buf_def set_ep_def)

lemma after_recv_view:
  assumes "apart b k s" and "c_sock c = esock e" and "c_tmr c = etmr e"
  shows "view (after_recv ipf sb k e b err (upd_buf b (\<lambda>x. x\<lparr>recvData := rd\<rparr>) s)) =
    settle k c (fate_of ipf sb (esock e) err ((nbufs s b)\<lparr>recvData := rd\<rparr>)) (view s)"
proof -
  note sv = settled_views [OF assms]
  have n: "nbufs (upd_buf b f s) b = f (nbufs s b)" for f by (simp add: upd_buf_def)
  have t: "(x\<lparr>refSock := Some sk, cbBusiFinal := cbBusiFinal x \<or> False\<rparr>) = x\<lparr>refSock := Some sk\<rparr>" for x :: "'a net_buf" and sk
    by simp
  show ?thesis
    by (simp add: after_recv_def fate_of_def Let_def clear_recv_def upd_upd n submit_del_sock sv emptied_def t
        split: prod.split)
qed

lemma cview_fields [simp]: "c_sock (cview nb e) = esock e" "c_tmr (cview nb e) = etmr e"
    "c_buf (cview nb e) = map_option nb (ebuf e)"
  by (simp_all add: cview_def)

lemma view_find: "map_of (v_conns (view s)) k = map_option (cview (nbufs s)) (conn_find k (conns s))"
proof -
  have "map_of (map (map_prod id f) mp) k = map_option f (map_of mp k)" for f :: "ep_data \<Rightarrow> 'a conn_view" and mp
    by (induction mp) (auto simp: map_prod_def)
  then show ?thesis by (simp add: conn_find_def)
qed

lemma timer_view:
  assumes "conn_find k (conns s) = Some e0" and "ebuf e0 = None"
  shows "view (set_ep k (e0\<lparr>etmr := t\<rparr>) s) = put_conn k ((cview (nbufs s) e0)\<lparr>c_tmr := t\<rparr>) (view s)"
  using assms(2) by (auto simp: view_def put_conn_def set_ep_def conn_set_def cview_def)

lemma put_conn_twice: "put_conn k c (put_conn k d v) = put_conn k c v"
proof -
  have "(\<lambda>(j, x). if j = k then (j, c) else (j, x)) \<circ> (\<lambda>(j, x). if j = k then (j, d) else (j, x)) =
      (\<lambda>(j, x). if j = k then (j, c) else (j, x))" by auto
  then show ?thesis by (simp add: put_conn_def)
qed

lemma settle_put: "settle k c f (put_conn k d v) = settle k c f v"
proof (cases f)
  case (Keep x)
  then show ?thesis by (simp add: put_conn_twice)
next
  case (Release x)
  have "(put_conn k d v)\<lparr>v_idle := q\<rparr> = put_conn k d (v\<lparr>v_idle := q\<rparr>)" "v_idle (put_conn k d v) = v_idle v" for q
    by (simp_all add: put_conn_def)
  with Release show ?thesis by (simp add: put_conn_twice)
next
  case (Task x)
  have "(put_conn k d v)\<lparr>v_tasks := q\<rparr> = put_conn k d (v\<lparr>v_tasks := q\<rparr>)" "v_tasks (put_conn k d v) = v_tasks v" for q
    by (simp_all add: put_conn_def)
  with Task show ?thesis by (simp add: put_conn_twice)
qed

lemma mapO_pair: "mapO g (mapO (\<lambda>(err, rd). f err rd) r) = mapO (\<lambda>(err, rd). g (f err rd)) r"
  by (cases r) auto

lemma on_epoll_in_view:
  assumes sep: "separated s" and e0: "conn_find k (conns s) = Some e0"
  shows "map_option (mapO view) (on_epoll_in ipf sb (ev_recv evt) (ev_seen evt) (ev_now evt) k s) =
    readable_spec ipf sb evt k (cview (nbufs s) e0) (view s)"
proof (cases "ebuf e0")
  case (Some b)
  have ap: "apart b k s" using held_apart [OF _ _ e0 Some] sep by (simp add: separated_def)
  show ?thesis
    using e0 Some after_recv_view [OF ap, of "cview (nbufs s) e0" e0 ipf sb]
    by (auto simp: on_epoll_in_def readable_spec_def mapO_pair split: option.split)
next
  case None
  define p where "p = th_pop_wait (ev_seen evt) (q_idle s)"
  define e where "e = e0\<lparr>etmr := timer_start (ev_now evt) 3000 (etmr e0)\<rparr>"
  define s1 where "s1 = (set_ep k e s)\<lparr>q_idle := snd p\<rparr>"
  let ?c = "(cview (nbufs s) e0)\<lparr>c_tmr := timer_start (ev_now evt) 3000 (c_tmr (cview (nbufs s) e0))\<rparr>"
  have pv: "th_pop_wait (ev_seen evt) (v_idle (view s)) = (map_option (nbufs s) (fst p), map_queue (nbufs s) (snd p))"
    by (simp add: map_queue_pop p_def)
  have v: "view (set_ep k e s) = put_conn k ?c (view s)" using timer_view [OF e0 None] by (simp add: e_def)
  have on: "on_epoll_in ipf sb (ev_recv evt) (ev_seen evt) (ev_now evt) k s =
      (case fst p of
         None \<Rightarrow> Some (Ok s1)
       | Some b \<Rightarrow> (case socket_recv_buf (ev_recv evt) (recvData (nbufs s1 b)) of None \<Rightarrow> None
          | Some r \<Rightarrow> Some (mapO (\<lambda>(err, rd). after_recv ipf sb k e b err (upd_buf b (\<lambda>x. x\<lparr>recvData := rd\<rparr>) s1)) r)))"
    using e0 None by (simp add: on_epoll_in_def Let_def p_def [symmetric] e_def [symmetric] s1_def [symmetric])
  have nb: "nbufs s1 = nbufs s" by (simp add: s1_def set_ep_def)
  show ?thesis
  proof (cases "fst p")
    case None
    then have "s1 = set_ep k e s" using wq.pop_none [of "ev_seen evt" "q_idle s"] by (simp add: s1_def p_def set_ep_def)
    with None \<open>ebuf e0 = None\<close> v show ?thesis by (simp add: on readable_spec_def pv Let_def del: view_fields)
  next
    case (Some b)
    have "apart b k (s\<lparr>q_idle := snd p\<rparr>)"
      using popped_apart [of s "ev_seen evt" b k] sep Some by (simp add: separated_def p_def)
    then have ap: "apart b k s1" by (auto simp: apart_def s1_def set_ep_def conn_set_def split: if_splits)
    have v1: "view s1 = put_conn k ?c ((view s)\<lparr>v_idle := map_queue (nbufs s) (snd p)\<rparr>)"
    proof -
      have "view s1 = (view (set_ep k e s))\<lparr>v_idle := map_queue (nbufs s) (snd p)\<rparr>"
        by (simp add: s1_def view_def set_ep_def)
      then show ?thesis by (simp add: v put_conn_def)
    qed
    have "view (after_recv ipf sb k e b err (upd_buf b (\<lambda>x. x\<lparr>recvData := rd\<rparr>) s1)) =
        settle k ?c (fate_of ipf sb (c_sock ?c) err ((nbufs s b)\<lparr>recvData := rd\<rparr>))
          ((view s)\<lparr>v_idle := map_queue (nbufs s) (snd p)\<rparr>)" for err rd
      using after_recv_view [OF ap, of ?c e ipf sb err rd] by (simp add: v1 settle_put nb e_def)
    with Some \<open>ebuf e0 = None\<close> show ?thesis
      by (auto simp: on nb readable_spec_def pv Let_def mapO_pair simp del: view_fields split: option.split)
  qed
qed

lemma on_epoll_err_view:
  assumes sep: "separated s" and e: "conn_find k (conns s) = Some e"
  shows "\<exists>s'. on_epoll_err Some k s = Ok s' \<and> view s' = failed_spec k (cview (nbufs s) e) (view s)"
proof -
  have wf: "table_wf s" and k: "sfd s (esock e) = k" "k \<noteq> - 1"
    using sep conn_find_wf [OF _ e] e
    by (force simp: separated_def open_keys_def conn_keys_def conn_find_def dest: map_of_SomeD)+
  have del: "filter (\<lambda>(j, d). j \<notin> {k}) (map (\<lambda>(j, d). if j = k then (j, d') else (j, d)) mp) = filter (\<lambda>(j, d). j \<noteq> k) mp"
    for mp :: conn_map and d' by (induction mp) auto
  have fm: "map (map_prod id f) (filter (\<lambda>(j, d). j \<noteq> k) mp) = filter (\<lambda>(j, d). j \<noteq> k) (map (map_prod id f) mp)"
    for mp :: conn_map and f :: "ep_data \<Rightarrow> 'a conn_view" by (induction mp) auto
  show ?thesis
  proof (cases "ebuf e")
    case None
    let ?s = "(del_sock k s)\<lparr>conns := (conns s)\<lparr>conn_mp := conn_erase [k] (conn_mp (conns s))\<rparr>, freed := freed s @ []\<rparr>"
    have "on_epoll_err Some k s = Ok ?s"
      using e None k by (simp add: on_epoll_err_def conn_del_def Let_def)
    moreover have "view ?s = failed_spec k (cview (nbufs s) e) (view s)"
      using None by (simp add: view_def failed_spec_def del_sock_def conn_erase_def fm)
    ultimately show ?thesis by blast
  next
    case (Some b)
    let ?nb = "(nbufs s)(b := clear_net_buf (nbufs s b))"
    let ?s1 = "set_ep k (e\<lparr>ebuf := None\<rparr>) (push_idle b (upd_buf b clear_net_buf s))"
    let ?s = "(del_sock k ?s1)\<lparr>conns := (conns ?s1)\<lparr>conn_mp := conn_erase [k] (conn_mp (conns ?s1))\<rparr>, freed := freed ?s1 @ []\<rparr>"
    have "conn_find k (conn_set k (e\<lparr>ebuf := None\<rparr>) (conns s)) = Some (e\<lparr>ebuf := None\<rparr>)" by (rule conn_find_set [OF e])
    then have on: "on_epoll_err Some k s = Ok ?s"
      using e Some k by (simp add: on_epoll_err_def conn_del_def Let_def)
    have ap: "apart b k s" using held_apart [OF _ wf e Some] sep by (simp add: separated_def)
    note pc = put_conn_view [OF ap refl, of "clear_net_buf (nbufs s b)"]
    have "map (map_prod id (cview ?nb)) (filter (\<lambda>(j, d). j \<noteq> k) (conn_mp (conns s))) =
        map (map_prod id (cview (nbufs s))) (filter (\<lambda>(j, d). j \<noteq> k) (conn_mp (conns s)))"
      using ap by (auto simp: apart_def intro!: cview_cong)
    then have "view ?s = failed_spec k (cview (nbufs s) e) (view s)"
      using Some pc(2,3)
      by (simp add: view_def failed_spec_def del_sock_def conn_erase_def conn_set_def set_ep_def push_idle_def upd_buf_def
          del [simplified] fm [symmetric] map_queue_push del: map_map)
    with on show ?thesis by blast
  qed
qed

lemma deal_event_view:
  assumes "separated s"
  shows "map_option (mapO view) (deal_event ipf sb Some evt s) = event_spec ipf sb evt (view s)"
proof (cases "ev_conn evt")
  case None
  then show ?thesis by (simp add: deal_event_def event_spec_def)
next
  case (Some k)
  have "ev_bits evt AND (EPOLLERR OR EPOLLHUP OR EPOLLRDHUP) = 0 \<longleftrightarrow>
      \<not> (ev_bits evt AND EPOLLERR \<noteq> 0 \<or> ev_bits evt AND EPOLLHUP \<noteq> 0 \<or> ev_bits evt AND EPOLLRDHUP \<noteq> 0)"
    by (auto simp: bit.conj_disj_distrib or_eq_0_iff)
  moreover have "ev_bits evt AND (EPOLLERR OR EPOLLHUP OR EPOLLRDHUP OR EPOLLIN) = 0 \<longleftrightarrow>
      ev_bits evt AND (EPOLLERR OR EPOLLHUP OR EPOLLRDHUP) = 0 \<and> ev_bits evt AND EPOLLIN = 0"
    by (auto simp: bit.conj_disj_distrib or_eq_0_iff)
  ultimately show ?thesis
    using Some view_find [of s k] on_epoll_in_view [OF assms, of k _ ipf sb evt] on_epoll_err_view [OF assms, of k]
    by (cases "conn_find k (conns s)")
      (auto simp: deal_event_def event_spec_def on_epoll_in_def on_epoll_err_def simp del: view_fields)
qed

section \<open>A quiet turn\<close>

lemma emptied_twice [simp]: "emptied (emptied x) = emptied x" by (simp add: emptied_def clear_buf_def)

lemma clear_recvs_nbufs: "nbufs (clear_recvs bs s) = (\<lambda>b. if b \<in> set bs then emptied (nbufs s b) else nbufs s b)"
  by (induction bs arbitrary: s) (auto simp: clear_recv_def upd_buf_def emptied_def fun_eq_iff clear_buf_def)

lemma clear_recvs_rest [simp]:
  "q_idle (clear_recvs bs s) = q_idle s" "q_busi (clear_recvs bs s) = q_busi s" "swait (clear_recvs bs s) = swait s"
  "running (clear_recvs bs s) = running s"
  by (induction bs arbitrary: s) (simp_all add: clear_recv_def upd_buf_def)

lemma push_idles_rest [simp]:
  "nbufs (push_idles bs s) = nbufs s" "q_busi (push_idles bs s) = q_busi s" "swait (push_idles bs s) = swait s"
  "running (push_idles bs s) = running s" "q_idle (push_idles bs s) = th_push_back_all bs (q_idle s)"
  by (induction bs arbitrary: s) (simp_all add: push_idle_def)

lemma map_queue_push_all: "map_queue f (th_push_back_all bs q) = th_push_back_all (map f bs) (map_queue f q)"
  by (induction bs arbitrary: q) (simp_all add: map_queue_push)

definition given_up :: "u64 \<Rightarrow> 'c conn_view \<Rightarrow> 'c conn_view" where
  "given_up now c = (if overdue now c then c\<lparr>c_tmr := timer_stop (c_tmr c), c_buf := None\<rparr> else c)"

lemma overdue_cview [simp]: "overdue now (cview nb e) = timed_out_buf now e"
  by (simp add: overdue_def timed_out_buf_def)

lemma map_timed_out:
  "map (\<lambda>b. emptied (nb b)) (ep_bufs (filter (timed_out_buf now) (map snd mp))) =
   List.map_filter (\<lambda>(k, c). if overdue now c then map_option emptied (c_buf c) else None) (map (map_prod id (cview nb)) mp)"
proof (induction mp)
  case Nil
  then show ?case by (simp add: List.map_filter_def)
next
  case (Cons x mp)
  then show ?case by (cases x) (auto simp: List.map_filter_simps timed_out_buf_def split: option.splits)
qed

lemma clear_timeout_view:
  assumes "separated s"
  shows "view (clear_timeout now s) = (view s)\<lparr>v_conns := map (map_prod id (given_up now)) (v_conns (view s)),
    v_idle := th_push_back_all
      (List.map_filter (\<lambda>(k, c). if overdue now c then map_option emptied (c_buf c) else None) (v_conns (view s)))
      (v_idle (view s))\<rparr>"
proof -
  define bs where "bs = ep_bufs (filter (timed_out_buf now) (map snd (conn_mp (conns s))))"
  define cl where "cl = snd (conn_timeout_bufs now (conns s))"
  let ?nb = "\<lambda>b. if b \<in> set bs then emptied (nbufs s b) else nbufs s b"
  have h: "held (conns s) = held cl + mset bs"
    using conn_timeout_bufs_held [of "conns s" now] by (simp add: bs_def cl_def conn_timeout_bufs_def)
  have ct: "clear_timeout now s = push_idles bs (clear_recvs bs (s\<lparr>conns := cl\<rparr>))"
    by (simp add: clear_timeout_def Let_def bs_def cl_def conn_timeout_bufs_def)
  have away: "b \<notin> set (q_items (q_idle s)) \<and> b \<notin> set (q_items (q_busi s)) \<and> b \<notin># held cl" if "b \<in> set bs" for b
  proof -
    have "1 \<le> count (mset bs) b" using that by (simp only: count_greater_eq_one_iff set_mset_mset)
    with h have "1 + count (held cl) b \<le> count (held (conns s)) b" by simp
    moreover have "count_list (q_items (q_idle s)) b + count_list (q_items (q_busi s)) b + count (held (conns s)) b \<le> 1"
      using sole_parts [of s b] assms by (simp add: separated_def)
    ultimately have "count_list (q_items (q_idle s)) b = 0" "count_list (q_items (q_busi s)) b = 0" "count (held cl) b = 0"
      by linarith+
    then show ?thesis by (auto simp: count_list_0_iff not_in_iff)
  qed
  have "cview ?nb (if timed_out_buf now e then e\<lparr>ebuf := None, etmr := timer_stop (etmr e)\<rparr> else e) =
      given_up now (cview (nbufs s) e)" if "(k, e) \<in> set (conn_mp (conns s))" for k e
  proof (cases "timed_out_buf now e")
    case True
    then show ?thesis by (simp add: given_up_def overdue_def timed_out_buf_def cview_def)
  next
    case False
    have "(k, e) \<in> set (conn_mp cl)"
      using that False by (force simp: cl_def conn_timeout_bufs_def)
    then have "b \<notin> set bs" if "ebuf e = Some b" for b
      using away [of b] that by (force simp: held_def ep_bufs_mem)
    then have "cview ?nb e = cview (nbufs s) e" by (intro cview_cong) auto
    with False show ?thesis by (simp add: given_up_def)
  qed
  then have c: "map (map_prod id (cview ?nb)) (conn_mp cl) = map (map_prod id (given_up now)) (v_conns (view s))"
    by (auto simp: cl_def conn_timeout_bufs_def)
  have "map_queue ?nb (q_idle s) = map_queue (nbufs s) (q_idle s)"
    by (rule map_queue_cong) (use away in auto)
  moreover have "map ?nb bs = map (\<lambda>b. emptied (nbufs s b)) bs" by simp
  ultimately have q: "map_queue ?nb (th_push_back_all bs (q_idle s)) = th_push_back_all
      (List.map_filter (\<lambda>(k, c). if overdue now c then map_option emptied (c_buf c) else None) (v_conns (view s)))
      (v_idle (view s))"
    using map_timed_out [of "nbufs s" now "conn_mp (conns s)"] by (simp add: map_queue_push_all bs_def)
  have t: "map ?nb (q_items (q_busi s)) = map (nbufs s) (q_items (q_busi s))" using away by auto
  have tm: "conn_tmout cl = conn_tmout (conns s)" by (simp add: cl_def conn_timeout_bufs_def)
  have nb: "nbufs (clear_recvs bs (s\<lparr>conns := cl\<rparr>)) = ?nb" by (simp add: clear_recvs_nbufs fun_eq_iff)
  show ?thesis
    unfolding ct by (simp add: view_def [of "push_idles bs _"] nb c q t tm del: view_fields) (simp add: view_def)
qed

lemma sock_lists_rest [simp]:
  "nbufs (close_socks sks s) = nbufs s" "nbufs (del_socks sks s) = nbufs s"
  "q_idle (close_socks sks s) = q_idle s" "q_idle (del_socks sks s) = q_idle s"
  "q_busi (close_socks sks s) = q_busi s" "q_busi (del_socks sks s) = q_busi s"
  "swait (close_socks sks s) = swait s" "running (close_socks sks s) = running s" "running (del_socks sks s) = running s"
  by (induction sks arbitrary: s) (simp_all add: del_sock_def)

lemma clear_closed_view:
  assumes "table_wf s"
  shows "view (clear_closed now s) = (view s)\<lparr>v_conns := filter (\<lambda>(k, c). \<not> (swait s (c_sock c) \<or>
    conn_tmout (conns s) \<noteq> 0 \<and> timer_count now (c_tmr c) > conn_tmout (conns s))) (v_conns (view s))\<rparr>"
proof -
  obtain vt cl fr where d1: "conn_drop (\<lambda>e. swait s (esock e)) (sfd s) (conns s) = (vt, cl, fr)"
    by (cases "conn_drop (\<lambda>e. swait s (esock e)) (sfd s) (conns s)") auto
  let ?P = "\<lambda>e. conn_tmout cl \<noteq> 0 \<and> timer_count now (etmr e) > conn_tmout cl"
  obtain vt' cl' fr' where d2: "conn_drop ?P (sfd s) cl = (vt', cl', fr')"
    by (cases "conn_drop ?P (sfd s) cl") auto
  let ?s2 = "(del_socks vt (s\<lparr>conns := cl, freed := freed s @ fr\<rparr>))\<lparr>conns := cl', freed := freed s @ fr @ fr'\<rparr>"
  have s': "clear_closed now s = close_socks vt' ?s2"
    using d1 d2 by (simp add: clear_closed_def conn_closed_socks_def conn_timeout_socks_drop Let_def)
  have wf1: "conn_wf (sfd s) cl" using conn_drop_wf [OF assms, of "\<lambda>e. swait s (esock e)"] d1 by simp
  have tm: "conn_tmout cl = conn_tmout (conns s)" "conn_tmout cl' = conn_tmout (conns s)"
    using d1 d2 by (auto simp: conn_drop_def Let_def)
  have "conn_mp cl = filter (\<lambda>(k, e). \<not> swait s (esock e)) (conn_mp (conns s))"
    using conn_drop_mp [OF assms, of "\<lambda>e. swait s (esock e)"] by (simp add: d1)
  moreover have "conn_mp cl' = filter (\<lambda>(k, e). \<not> ?P e) (conn_mp cl)"
    using conn_drop_mp [OF wf1, of ?P] by (simp add: d2)
  ultimately have mp: "conn_mp cl' = filter (\<lambda>(k, e). \<not> (swait s (esock e) \<or> ?P e)) (conn_mp (conns s))"
    by (auto intro!: filter_cong)
  have "map (map_prod id (cview nb)) (filter (\<lambda>(k, e). \<not> (swait s (esock e) \<or> ?P e)) m) =
      filter (\<lambda>(k, c). \<not> (swait s (c_sock c) \<or> conn_tmout (conns s) \<noteq> 0 \<and> timer_count now (c_tmr c) > conn_tmout (conns s)))
        (map (map_prod id (cview nb)) m)" for nb :: "nat \<Rightarrow> 'a net_buf" and m
    by (induction m) (auto simp: tm)
  then show ?thesis
    unfolding s' by (simp add: view_def tm(2) mp del: filter_map)
qed

text \<open>A map followed by a filter is one pass.\<close>

lemma filter_map_pass:
  "filter (\<lambda>(k, c). \<not> P c) (map (map_prod id f) xs) =
   List.map_filter (\<lambda>(k, c). map_option (Pair k) (let d = f c in if P d then None else Some d)) xs"
  by (induction xs) (auto simp: List.map_filter_simps Let_def)

lemma quiet_turn_view:
  assumes "separated s"
  shows "view (clear_closed now (clear_timeout now s)) = quiet_spec now (view s)"
proof -
  let ?t = "clear_timeout now s"
  have wf: "table_wf ?t" using clear_timeout_owned [of s now] assms by (simp add: separated_def)
  have t: "swait ?t = swait s" "conn_tmout (conns ?t) = conn_tmout (conns s)"
    by (simp_all add: clear_timeout_def conn_timeout_bufs_def Let_def)
  let ?P = "\<lambda>c. swait s (c_sock c) \<or> conn_tmout (conns s) \<noteq> 0 \<and> timer_count now (c_tmr c) > conn_tmout (conns s)"
  have "filter (\<lambda>(k, c). \<not> ?P c) (map (map_prod id (given_up now)) (v_conns (view s))) = v_conns (quiet_spec now (view s))"
    unfolding filter_map_pass [of ?P] quiet_spec_def quiet_conn_def given_up_def [symmetric] by simp
  then show ?thesis
    unfolding clear_closed_view [OF wf] t clear_timeout_view [OF assms] by (simp add: quiet_spec_def)
qed

section \<open>The loop\<close>

lemma fire_once_view:
  "net_reach ipf sb hdl (net_start nb n) s \<Longrightarrow>
   map_option (mapO view) (fire_once ipf sb Some evts s) = events_spec ipf sb evts (view s)"
proof (induction evts arbitrary: s)
  case Nil
  then show ?case by simp
next
  case (Cons evt evts)
  have d: "map_option (mapO view) (deal_event ipf sb Some evt s) = event_spec ipf sb evt (view s)"
    by (rule deal_event_view [OF reach_separated [OF Cons.prems]])
  show ?case
  proof (cases "deal_event ipf sb Some evt s")
    case None
    with d show ?thesis by simp
  next
    case (Some r)
    show ?thesis
    proof (cases r)
      case (Ok s')
      with Some have "net_reach ipf sb hdl (net_start nb n) s'" using deal_event_reach [OF Cons.prems] by simp
      with Some Ok d Cons.IH show ?thesis by (simp add: d [symmetric])
    qed (use Some d in \<open>simp_all add: d [symmetric]\<close>)
  qed
qed

lemma running_parts [simp]:
  "running (set_ep k e s) = running s" "running (upd_buf b f s) = running s" "running (push_idle b s) = running s"
  "running (push_task b s) = running s" "running (del_sock j s) = running s" "running (clear_recv b s) = running s"
  by (simp_all add: set_ep_def upd_buf_def push_idle_def push_task_def del_sock_def clear_recv_def)

text \<open>
  C11: what the event loop does.  From every reachable state, whatever batches of events a network thread
  is given, its run computes exactly what the specification without shared buffers says: it stops when the
  thread is stopped; a failed connection is dropped, and only that one, while its buffer goes back clean; a
  readable connection continues its own message and no other, up to the task handed over with its socket;
  time-outs and closings are settled in turns without events and in no others; and it fails exactly when
  the specification fails.
\<close>

theorem event_loop_refines:
  assumes "net_reach ipf sb hdl (net_start nb n) s"
  shows "map_option (mapO view) (epoll_run ipf sb Some ts s) = loop_spec ipf sb ts (view s)"
  using assms
proof (induction ts arbitrary: s)
  case Nil
  then show ?case by simp
next
  case (Cons t ts)
  have f: "map_option (mapO view) (fire_once ipf sb Some (fst t) s) = events_spec ipf sb (fst t) (view s)"
    by (rule fire_once_view [OF Cons.prems])
  show ?case
  proof (cases "fire_once ipf sb Some (fst t) s")
    case None
    have "events_spec ipf sb (fst t) (view s) = None" using f None by simp
    then have "loop_spec ipf sb (t # ts) (view s) = (if running s then None else Some (Ok (view s)))" by (cases t) simp
    moreover have "epoll_run ipf sb Some (t # ts) s = (if running s then None else Some (Ok s))"
      using None by (simp add: epoll_turn_def)
    ultimately show ?thesis by (cases "running s") simp_all
  next
    case (Some r)
    have fails: ?thesis if "\<forall>x. r \<noteq> Ok x"
    proof -
      have e: "events_spec ipf sb (fst t) (view s) = Some (mapO view r)" using f Some by simp
      have "loop_spec ipf sb (t # ts) (view s) = (if running s then Some (mapO view r) else Some (Ok (view s)))"
        by (cases t; cases r) (use e that in simp_all)
      moreover have "epoll_run ipf sb Some (t # ts) s = (if running s then Some r else Some (Ok s))"
        by (cases r) (use Some that in \<open>simp_all add: epoll_turn_def\<close>)
      ultimately show ?thesis by (cases "running s") simp_all
    qed
    show ?thesis
    proof (cases r)
      case (Ok s1)
      let ?s2 = "if fst t = [] then clear_closed (snd t) (clear_timeout (snd t) s1) else s1"
      have turn: "epoll_turn ipf sb Some (fst t) (snd t) s = Some (Ok ?s2)" using Some Ok by (simp add: epoll_turn_def)
      have r1: "net_reach ipf sb hdl (net_start nb n) s1" using fire_once_reach [OF Cons.prems] Some Ok by blast
      have r2: "net_reach ipf sb hdl (net_start nb n) ?s2" by (rule epoll_turn_reach [OF Cons.prems turn])
      have v2: "view ?s2 = (if fst t = [] then quiet_spec (snd t) (view s1) else view s1)"
        using quiet_turn_view [OF reach_separated [OF r1]] by simp
      have e: "events_spec ipf sb (fst t) (view s) = Some (Ok (view s1))" using f Some Ok by simp
      have "loop_spec ipf sb (t # ts) (view s) =
          (if running s then loop_spec ipf sb ts (view ?s2) else Some (Ok (view s)))"
        unfolding v2 by (cases t) (use e in simp)
      moreover have "epoll_run ipf sb Some (t # ts) s = (if running s then epoll_run ipf sb Some ts ?s2 else Some (Ok s))"
        by (simp only: epoll_run.simps turn option.case outcome.case)
      ultimately show ?thesis using Cons.IH [OF r2] by (cases "running s") simp_all
    qed (rule fails, simp)+
  qed
qed

text \<open>The rest of a half-received message arrives, a null event follows, and then nothing.\<close>

definition late_rest :: "(ep_event list \<times> u64) list" where
  "late_rest =
     [([\<lparr>ev_conn = Some 5, ev_bits = EPOLLIN, ev_recv = [Got [2], RecvErr True], ev_seen = 0, ev_now = 150\<rparr>,
        \<lparr>ev_conn = None, ev_bits = EPOLLERR, ev_recv = [], ev_seen = 0, ev_now = 150\<rparr>], 150), ([], 160)]"

theorem event_loop_refines_witness:
  "map_option (mapO view) (epoll_run two_ipf False Some late_rest half_request) = loop_spec two_ipf False late_rest (view half_request) \<and>
   (case loop_spec two_ipf False late_rest (view half_request) of
      Some (Ok v) \<Rightarrow> v_conns v = [] \<and> map refSock (v_tasks v) = [Some 7] \<and> map (\<lambda>x. contents (recvData x)) (v_tasks v) = [[1, 2]]
    | _ \<Rightarrow> False)"
proof (rule conjI)
  show "map_option (mapO view) (epoll_run two_ipf False Some late_rest half_request) = loop_spec two_ipf False late_rest (view half_request)"
    by (rule event_loop_refines [OF half_request_reach [unfolded first_state_def]])
  show "case loop_spec two_ipf False late_rest (view half_request) of
      Some (Ok v) \<Rightarrow> v_conns v = [] \<and> map refSock (v_tasks v) = [Some 7] \<and> map (\<lambda>x. contents (recvData x)) (v_tasks v) = [[1, 2]]
    | _ \<Rightarrow> False" by code_simp
qed

end
