(* ===== verification/Ys_UdpServer.thy ===== *)
theory Ys_UdpServer
  imports Ys_NetBuf Ys_ThQueue
begin

text \<open>
  \<open>YS_UdpServerLite\<close> of \<open>isaac/ys_udp_server_lite.h\<close>: one thread receives datagrams into nodes, each a network
  buffer with the address of a peer, and hands complete packets to business threads.  Addresses are
  strings (\<open>ip:port\<close>); \<open>kernel\<close> holds the datagrams that wait at the socket, \<open>u_sent\<close> what has been sent.
\<close>

type_synonym addr = string

record 'c udp_node =
  n_buf :: "'c net_buf"
  n_peer :: addr

record 'c udp_server =
  nodes :: "nat \<Rightarrow> 'c udp_node"
  n_new :: nat
  que_idle :: "nat th_queue"
  que_busi :: "nat th_queue"
  que_recv :: "addr \<Rightarrow> nat option"
  u_working :: "nat list"
  kernel :: "(addr \<times> bytes) list"
  u_sent :: "(addr \<times> bytes) list"

section \<open>Receiving\<close>

text \<open>
  The loop of \<open>_recvfrom\<close> on a datagram socket: it goes on until no datagram waits (\<open>EAGAIN\<close>) or the space is
  full; a datagram longer than the space left is cut.  The result, the length, the bytes, the address
  of the last datagram taken and the datagrams left.
\<close>

fun udp_loop :: "(addr \<times> bytes) list \<Rightarrow> nat \<Rightarrow> nat \<Rightarrow> bytes \<Rightarrow> addr \<Rightarrow> int \<times> nat \<times> bytes \<times> addr \<times> (addr \<times> bytes) list" where
  "udp_loop [] len got out peer = (0, got, out, peer, [])"
| "udp_loop ((p, d) # q) len got out peer =
     (let bs = take (len - got) d in
      if bs \<noteq> []
      then (let t = got + length bs in if t = len then (0, len, out @ bs, p, q) else udp_loop q len t (out @ bs) p)
      else if got \<noteq> 0 then (0, got, out, p, q) else (- 1, len, out, p, q))"

text \<open>\<open>recvfrom(recvData.uData(), &len, peer)\<close>: the bytes are written at the start of the block.\<close>

definition write_start :: "bytes \<Rightarrow> ys_buf \<Rightarrow> ys_buf buf_result" where
  "write_start d b =
     (case bmem b of
        None \<Rightarrow> (if d = [] then Ok b else Undef)
      | Some m \<Rightarrow> (case poke m 0 d of None \<Rightarrow> Undef | Some m' \<Rightarrow> Ok (b\<lparr>bmem := Some m'\<rparr>)))"

definition upd_node :: "nat \<Rightarrow> ('c udp_node \<Rightarrow> 'c udp_node) \<Rightarrow> 'c udp_server \<Rightarrow> 'c udp_server" where
  "upd_node i f s = s\<lparr>nodes := (nodes s)(i := f (nodes s i))\<rparr>"

definition getIdle :: "'c udp_node \<Rightarrow> 'c udp_server \<Rightarrow> nat \<times> 'c udp_server" where
  "getIdle fresh s =
     (case th_pop_nowait (que_idle s) of
        (None, q) \<Rightarrow> (n_new s, upd_node (n_new s) (\<lambda>_. fresh) (s\<lparr>n_new := n_new s + 1\<rparr>))
      | (Some i, q) \<Rightarrow> (i, upd_node i (\<lambda>n. n\<lparr>n_buf := clear_net_buf (n_buf n)\<rparr>) (s\<lparr>que_idle := q\<rparr>)))"

definition getNode :: "'c udp_node \<Rightarrow> addr \<Rightarrow> 'c udp_server \<Rightarrow> nat \<times> 'c udp_server" where
  "getNode fresh a s = (case que_recv s a of Some i \<Rightarrow> (i, s) | None \<Rightarrow> getIdle fresh s)"

definition delRecv :: "addr \<Rightarrow> 'c udp_server \<Rightarrow> 'c udp_server" where
  "delRecv a s = s\<lparr>que_recv := (que_recv s)(a := None)\<rparr>"

text \<open>\<open>insert\<close> keeps an entry that is there, the assignment of \<open>operator[]\<close> replaces it.\<close>

definition pushRecv :: "nat \<Rightarrow> bool \<Rightarrow> 'c udp_server \<Rightarrow> 'c udp_server" where
  "pushRecv i isupdata s =
     (let a = n_peer (nodes s i) in
      if isupdata \<or> que_recv s a = None then s\<lparr>que_recv := (que_recv s)(a \<mapsto> i)\<rparr> else s)"

definition pushIdle :: "nat \<Rightarrow> 'c udp_server \<Rightarrow> 'c udp_server" where
  "pushIdle i s = s\<lparr>que_idle := th_push_back i (que_idle s)\<rparr>"

definition pushBusi :: "nat \<Rightarrow> 'c udp_server \<Rightarrow> 'c udp_server" where
  "pushBusi i s = s\<lparr>que_busi := th_push_back i (que_busi s)\<rparr>"

text \<open>\<open>onEpollIn\<close>; \<open>ipf\<close> is the driver's \<open>isFullPkt\<close>, \<open>fresh\<close> a new node.\<close>

definition udp_onEpollIn :: "(ys_buf \<Rightarrow> 'c option \<Rightarrow> 32 word \<times> 'c option) \<Rightarrow> 'c udp_node \<Rightarrow> 'c udp_server \<Rightarrow>
    (buf_error, 'c udp_server) outcome" where
  "udp_onEpollIn ipf fresh s0 =
     (case kernel s0 of
        [] \<Rightarrow> Ok s0
      | (ed, d0) # ds \<Rightarrow>
          let (i, s1) = getNode fresh ed s0;
              rd = recvData (n_buf (nodes s1 i));
              block = bempty rd;
              (r, len, out, peer, k) = udp_loop (kernel s1) (unat (ucast (leftSize rd) :: u32)) 0 [] (n_peer (nodes s1 i));
              s2 = s1\<lparr>kernel := k\<rparr>
          in bindO (write_start out rd) (\<lambda>rd1.
            let s3 = upd_node i (\<lambda>n. n\<lparr>n_buf := (n_buf n)\<lparr>recvData := rd1\<rparr>, n_peer := peer\<rparr>) s2 in
            if r \<noteq> 0 then Ok (pushIdle i (if block then delRecv ed s3 else s3))
            else
              let rd2 = offset_buf (of_nat len) rd1;
                  f = ipf rd2 (ctx (n_buf (nodes s3 i)));
                  s4 = upd_node i (\<lambda>n. n\<lparr>n_buf := (n_buf n)\<lparr>recvData := rd2, ctx := snd f\<rparr>\<rparr>) s3
              in Ok (if fst f <s 0 then (if block then delRecv ed (pushIdle i s4) else pushIdle i s4)
                  else if fst f \<noteq> 0 then pushRecv i block s4
                  else pushBusi i (if block then delRecv ed s4 else s4))))"

section \<open>The business threads\<close>

definition busi_take :: "'c udp_server \<Rightarrow> 'c udp_server" where
  "busi_take s =
     (case th_pop_nowait (que_busi s) of
        (None, q) \<Rightarrow> s
      | (Some i, q) \<Rightarrow> s\<lparr>que_busi := q, u_working := u_working s @ [i]\<rparr>)"

text \<open>The rest of a turn of \<open>busiRun\<close>: the handler, and its reply to the peer.  The node goes nowhere.\<close>

definition busi_done :: "('c net_buf \<Rightarrow> 'c net_buf) \<Rightarrow> nat \<Rightarrow> 'c udp_server \<Rightarrow> 'c udp_server" where
  "busi_done hdl i s =
     (let s1 = upd_node i (\<lambda>n. n\<lparr>n_buf := hdl (n_buf n)\<rparr>) (s\<lparr>u_working := remove1 i (u_working s)\<rparr>);
          sd = sendData (n_buf (nodes s1 i))
      in if bempty sd then s1 else s1\<lparr>u_sent := u_sent s1 @ [(n_peer (nodes s1 i), contents sd)]\<rparr>)"

section \<open>All waiting datagrams are one packet\<close>

lemma udp_loop_all:
  "list_all (\<lambda>x. snd x \<noteq> []) q \<Longrightarrow> got + length (concat (map snd q)) < n \<Longrightarrow>
    udp_loop q n got out peer =
      (0, got + length (concat (map snd q)), out @ concat (map snd q), if q = [] then peer else fst (last q), [])"
proof (induction q arbitrary: got out peer)
  case (Cons x q)
  obtain p d where x: "x = (p, d)" by (cases x)
  have bs: "take (n - got) d = d" and lt: "got + length d < n" using Cons.prems(2) by (simp_all add: x)
  from Cons.IH [of "got + length d" "out @ d" p] Cons.prems bs lt show ?case by (simp add: x Let_def)
qed simp

definition fresh_ok :: "'c udp_node \<Rightarrow> bool" where
  "fresh_ok n \<longleftrightarrow> blen (recvData (n_buf n)) = 0 \<and> bcap (recvData (n_buf n)) = size32KB \<and> buf_wf (recvData (n_buf n)) \<and>
     ctx (n_buf n) = None"

text \<open>No node is anywhere but with the peers whose packet is incomplete.\<close>

definition quiet :: "'c udp_server \<Rightarrow> bool" where
  "quiet s \<longleftrightarrow> q_items (que_idle s) = [] \<and> q_items (que_busi s) = [] \<and> u_working s = []"

lemma write_start_fresh:
  assumes "buf_wf b" and "bcap b = size32KB" and "length d \<le> 32768"
  shows "\<exists>m. bmem b = Some m \<and> length m = 32768 \<and> write_start d b = Ok (b\<lparr>bmem := Some (d @ drop (length d) m)\<rparr>)"
  using assms by (auto simp: buf_wf_def write_start_def poke_def size32KB_def split: option.splits)

text \<open>
  C36: What waits at the socket is one packet.  The loop that receives goes on until no datagram waits: however many
  datagrams from whatever peers are there when the server turns to the socket, the driver is given their
  texts joined as one packet, and the only reply goes to the peer of the last one.  The node is in none
  of the queues afterwards, and so lost.
\<close>

theorem udp_datagrams_merged:
  assumes q: "kernel s = q" "q \<noteq> []" "list_all (\<lambda>x. snd x \<noteq> []) q" and len: "length (concat (map snd q)) < 32768"
    and new: "que_recv s (fst (hd q)) = None" "quiet s" "fresh_ok fresh"
    and full: "\<And>b. contents b = concat (map snd q) \<Longrightarrow> ipf b None = (0, c)"
  shows "\<exists>s1 b. udp_onEpollIn ipf fresh s = Ok s1 \<and> q_items (que_busi s1) = [n_new s] \<and> n_buf (nodes s1 (n_new s)) = b \<and>
    contents (recvData b) = concat (map snd q) \<and> kernel s1 = [] \<and>
    (\<not> bempty (sendData (hdl b)) \<longrightarrow>
      u_sent (busi_done hdl (n_new s) (busi_take s1)) = u_sent s @ [(fst (last q), contents (sendData (hdl b)))]) \<and>
    quiet (busi_done hdl (n_new s) (busi_take s1)) \<and> que_recv (busi_done hdl (n_new s) (busi_take s1)) = que_recv s"
proof -
  let ?i = "n_new s"
  obtain d P where d: "d = concat (map snd q)" and P: "P = fst (last q)" by blast
  note len = len [folded d] and full = full [folded d]
  obtain ed d0 ds where qe: "q = (ed, d0) # ds" using q(2) by (cases q) auto
  then have ker: "kernel s = (ed, d0) # ds" and ed: "que_recv s ed = None" using q(1) new(1) by simp_all
  let ?b0 = "recvData (n_buf fresh)"
  have b0: "blen ?b0 = 0" "bcap ?b0 = size32KB" "buf_wf ?b0" "ctx (n_buf fresh) = None" using new(3) by (simp_all add: fresh_ok_def)
  from write_start_fresh [OF b0(3,2), of d] len obtain m where m: "length m = 32768"
    and w: "write_start d ?b0 = Ok (?b0\<lparr>bmem := Some (d @ drop (length d) m)\<rparr>)" by auto
  have left: "unat (ucast (leftSize ?b0) :: u32) = 32768" by (simp add: leftSize_def b0 size32KB_def)
  let ?b1 = "offset_buf (of_nat (length d)) (?b0\<lparr>bmem := Some (d @ drop (length d) m)\<rparr>)"
  have blen: "unat (blen ?b1) = length d"
    using offset_buf_small [of "length d" "?b0\<lparr>bmem := Some (d @ drop (length d) m)\<rparr>"] len b0(1,2) by (simp add: size32KB_def)
  have mem: "bmem ?b1 = Some (d @ drop (length d) m)" by (simp add: offset_buf_def)
  have cont: "contents ?b1 = d" unfolding contents_def mem option.case blen by simp
  have loop: "udp_loop ((ed, d0) # ds) 32768 0 [] peer = (0, length d, d, P, [])" for peer
    using udp_loop_all [OF q(3), of 0 32768 "[]" peer] len q(2) by (simp add: d P qe del: udp_loop.simps)
  let ?n = "fresh\<lparr>n_peer := P, n_buf := (n_buf fresh)\<lparr>recvData := ?b1, ctx := c\<rparr>\<rparr>"
  let ?s1 = "s\<lparr>n_new := ?i + 1, kernel := [], nodes := (nodes s)(?i := ?n), que_recv := (que_recv s)(ed := None),
    que_busi := th_push_back ?i (que_busi s)\<rparr>"
  have run: "udp_onEpollIn ipf fresh s = Ok ?s1"
    using new(2) ker ed loop w full [OF cont]
    by (simp add: udp_onEpollIn_def getNode_def getIdle_def quiet_def th_pop_nowait_def upd_node_def left b0 bempty_def
        pushBusi_def delRecv_def Let_def del: udp_loop.simps)
  have recv: "(que_recv s)(ed := None) = que_recv s" using ed by auto
  show ?thesis
    by (rule exI [of _ ?s1], rule exI [of _ "n_buf ?n"])
      (use new(2) cont recv in \<open>simp add: run quiet_def th_push_back_def busi_take_def th_pop_nowait_def th_drop_def busi_done_def
        upd_node_def Let_def d [symmetric] P [symmetric]\<close>)
qed

section \<open>A packet in two datagrams\<close>

lemma write_start_over:
  assumes "buf_wf b" and "bcap b = size32KB" and "unat (blen b) + length d \<le> 32768"
  shows "\<exists>b1. write_start d b = Ok b1 \<and> blen b1 = blen b \<and> bcap b1 = bcap b \<and> buf_wf b1 \<and>
    (let b2 = offset_buf (of_nat (length d)) b1
     in unat (blen b2) = unat (blen b) + length d \<and> length (contents b2) = unat (blen b) + length d \<and> take (length d) (contents b2) = d)"
proof -
  from write_start_fresh [OF assms(1,2), of d] assms(3) obtain m where m: "bmem b = Some m" "length m = 32768"
    "write_start d b = Ok (b\<lparr>bmem := Some (d @ drop (length d) m)\<rparr>)" by auto
  let ?b1 = "b\<lparr>bmem := Some (d @ drop (length d) m)\<rparr>"
  let ?b2 = "offset_buf (of_nat (length d)) ?b1"
  have l: "unat (blen ?b2) = unat (blen b) + length d"
    using offset_buf_small [of "length d" ?b1] assms(2,3) by (simp add: size32KB_def)
  have "bmem ?b2 = Some (d @ drop (length d) m)" by (simp add: offset_buf_def)
  then have c: "contents ?b2 = take (unat (blen b) + length d) (d @ drop (length d) m)" by (simp add: contents_def l)
  have "buf_wf ?b1" using assms m by (simp add: buf_wf_def)
  then show ?thesis
    using m(2,3) l assms(3) by (intro exI [of _ ?b1]) (simp add: Let_def c)
qed

text \<open>
  A packet in two datagrams is corrupted.  The second datagram is written over the first, at the start of the
  block; and once the driver is satisfied, the node is with the business threads while it is still the
  one the next datagram of that peer is received into.
\<close>

theorem udp_fragment_overwrites:
  assumes ker: "kernel s = [(p, a)]" and ab: "a \<noteq> []" "b \<noteq> []" "length a + length b < 32768"
    and new: "que_recv s p = None" "quiet s" "fresh_ok fresh"
    and driver: "\<And>x. contents x = a \<Longrightarrow> ipf x None = (1, Some c)" "\<And>x. fst (ipf x (Some c)) = 0"
  shows "\<exists>s1 s2. udp_onEpollIn ipf fresh s = Ok s1 \<and> udp_onEpollIn ipf fresh (s1\<lparr>kernel := [(p, b)]\<rparr>) = Ok s2 \<and>
    length (contents (recvData (n_buf (nodes s2 (n_new s))))) = length a + length b \<and>
    take (length b) (contents (recvData (n_buf (nodes s2 (n_new s))))) = b \<and>
    q_items (que_busi s2) = [n_new s] \<and> que_recv s2 p = Some (n_new s)"
proof -
  let ?i = "n_new s" and ?b0 = "recvData (n_buf fresh)"
  have b0: "blen ?b0 = 0" "bcap ?b0 = size32KB" "buf_wf ?b0" "ctx (n_buf fresh) = None" using new(3) by (simp_all add: fresh_ok_def)
  have fit: "unat (blen ?b0) + length a \<le> 32768" using ab(3) b0(1) by simp
  obtain b1 where w1: "write_start a ?b0 = Ok b1" and bb: "blen b1 = 0" "bcap b1 = size32KB" "buf_wf b1"
    and c1: "unat (blen (offset_buf (of_nat (length a)) b1)) = length a" "contents (offset_buf (of_nat (length a)) b1) = a"
    using write_start_over [OF b0(3,2) fit] b0(1,2) by (auto simp: Let_def)
  let ?b1 = "offset_buf (of_nat (length a)) b1"
  have wf1: "buf_wf ?b1" "bcap ?b1 = size32KB"
    using bb c1(1) ab(3) by (auto simp: buf_wf_def offset_buf_def word_le_nat_alt size32KB_def split: option.splits)
  have fit2: "unat (blen ?b1) + length b \<le> 32768" using ab(3) c1(1) by simp
  obtain b2 where w2: "write_start b ?b1 = Ok b2"
    and c2: "length (contents (offset_buf (of_nat (length b)) b2)) = length a + length b"
      "take (length b) (contents (offset_buf (of_nat (length b)) b2)) = b"
    using write_start_over [OF wf1 fit2] c1(1) by (auto simp: Let_def)
  have left: "unat (ucast (leftSize ?b0) :: u32) = 32768" "unat (ucast (leftSize ?b1) :: u32) = 32768 - length a"
    using leftSize_unat [OF b0(3)] leftSize_unat [OF wf1(1)] b0(1,2) wf1(2) c1(1)
    by (simp_all add: unat_ucast_64_32 size32KB_def)
  have loop: "udp_loop [(p, a)] 32768 0 [] peer = (0, length a, a, p, [])"
    "udp_loop [(p, b)] (32768 - length a) 0 [] peer = (0, length b, b, p, [])" for peer
    using ab by (simp_all add: Let_def)
  have some: "\<not> bempty ?b1" using c1(1) ab(1) by (auto simp: bempty_def)
  let ?n1 = "fresh\<lparr>n_peer := p, n_buf := (n_buf fresh)\<lparr>recvData := ?b1, ctx := Some c\<rparr>\<rparr>"
  let ?s1 = "s\<lparr>n_new := ?i + 1, kernel := [], nodes := (nodes s)(?i := ?n1), que_recv := (que_recv s)(p \<mapsto> ?i)\<rparr>"
  have run1: "udp_onEpollIn ipf fresh s = Ok ?s1"
    using new(1,2) ker loop(1) w1 driver(1) [OF c1(2)]
    by (simp add: udp_onEpollIn_def getNode_def getIdle_def quiet_def th_pop_nowait_def upd_node_def left b0 bempty_def
        pushRecv_def Let_def word_sless_alt del: udp_loop.simps)
  have run2: "\<exists>s2. udp_onEpollIn ipf fresh (?s1\<lparr>kernel := [(p, b)]\<rparr>) = Ok s2 \<and> recvData (n_buf (nodes s2 ?i)) = offset_buf (of_nat (length b)) b2 \<and>
      q_items (que_busi s2) = [?i] \<and> que_recv s2 p = Some ?i"
    using new(2) loop(2) w2 driver(2) some
    by (simp add: udp_onEpollIn_def getNode_def quiet_def upd_node_def left pushBusi_def th_push_back_def Let_def del: udp_loop.simps)
  then obtain s2 where s2: "udp_onEpollIn ipf fresh (?s1\<lparr>kernel := [(p, b)]\<rparr>) = Ok s2"
    "recvData (n_buf (nodes s2 ?i)) = offset_buf (of_nat (length b)) b2" "q_items (que_busi s2) = [?i]" "que_recv s2 p = Some ?i"
    by blast
  show ?thesis by (rule exI [of _ ?s1], rule exI [of _ s2]) (intro conjI; (rule run1 s2)?; simp only: s2 c2)
qed

section \<open>Instances\<close>

definition sample_node :: "bytes udp_node" where
  "sample_node = \<lparr>n_buf = \<lparr>recvData = \<lparr>bmem = Some (replicate 32768 0), blen = 0, bcap = size32KB\<rparr>,
     sendData = \<lparr>bmem = Some [7], blen = 1, bcap = 1\<rparr>, refSock = None, tid = 0, ctx = None, cbBusiFinal = False\<rparr>, n_peer = []\<rparr>"

definition sample_server :: "(addr \<times> bytes) list \<Rightarrow> bytes udp_server" where
  "sample_server k = \<lparr>nodes = (\<lambda>i. sample_node), n_new = 0, que_idle = th_new, que_busi = th_new, que_recv = (\<lambda>a. None),
     u_working = [], kernel = k, u_sent = []\<rparr>"

lemma sample_ok: "fresh_ok sample_node" "quiet (sample_server k)" "que_recv (sample_server k) a = None"
  by (simp_all add: fresh_ok_def sample_node_def sample_server_def quiet_def th_new_def buf_wf_def size32KB_def)

lemma udp_datagrams_merged_witness:
  "let s = sample_server [(''a'', [1, 2]), (''b'', [3])] in
    \<exists>s1. udp_onEpollIn (\<lambda>b c. (0, c)) sample_node s = Ok s1 \<and> contents (recvData (n_buf (nodes s1 0))) = [1, 2, 3] \<and>
      kernel s1 = []"
proof -
  have "kernel (sample_server k) = k" "n_new (sample_server k) = 0" for k by (simp_all add: sample_server_def)
  with udp_datagrams_merged [of "sample_server [(''a'', [1, 2]), (''b'', [3])]" "[(''a'', [1, 2]), (''b'', [3])]"
      sample_node "\<lambda>b c. (0, c)" None id]
  show ?thesis by (auto simp: sample_ok Let_def)
qed

lemma udp_fragment_overwrites_witness:
  "let s = sample_server [(''a'', [1, 2, 3])]; ipf = (\<lambda>b c. case c of None \<Rightarrow> (1, Some []) | Some x \<Rightarrow> (0, Some x)) in
    \<exists>s1 s2. udp_onEpollIn ipf sample_node s = Ok s1 \<and> udp_onEpollIn ipf sample_node (s1\<lparr>kernel := [(''a'', [4])]\<rparr>) = Ok s2 \<and>
      take 1 (contents (recvData (n_buf (nodes s2 0)))) = [4] \<and> q_items (que_busi s2) = [0] \<and> que_recv s2 ''a'' = Some 0"
proof -
  have "kernel (sample_server k) = k" "n_new (sample_server k) = 0" for k by (simp_all add: sample_server_def)
  with udp_fragment_overwrites [of "sample_server [(''a'', [1, 2, 3])]" "''a''" "[1, 2, 3]" "[4]" sample_node
      "\<lambda>b c. case c of None \<Rightarrow> (1, Some []) | Some x \<Rightarrow> (0, Some x)" "[]"]
  show ?thesis by (auto simp: sample_ok Let_def)
qed

end
