(* ===== verification/Ys_Sync.thy ===== *)
theory Ys_Sync
  imports Isaac_Prelude
begin

text \<open>
  \<open>isaac/tool/ys_shared_lock.hpp\<close>, \<open>isaac/tool/ys_condvar.hpp\<close> and \<open>isaac/ys_thread.h\<close>: the lock for readers and
  writers with its guards, the condition variable that remembers a notification, and the start and stop
  of a thread.  Each operation runs under the mutex of its object, so that it is one step; a call that
  waits gives the mutex up and is one more step each time it is woken.
\<close>

section \<open>The lock for readers and writers\<close>

text \<open>
  What a thread is waiting for: \<open>readLock\<close>, \<open>writeLock\<close>, or the \<open>writeLock\<close> called by the destructor of
  \<open>YS_WLock\<close>.  A thread asleep in \<open>_cond.wait\<close> tests its condition again when it is notified, and may do so
  at any time (a spurious wakeup).
\<close>

datatype want = WRead | WWrite | WWriteDtor

datatype lock_state = Out | Reading | Writing | Asleep want | Notified want

record shared_mutex =
  isWrite :: bool
  readCount :: u64
  thr :: "nat \<Rightarrow> lock_state"

definition fresh_mutex :: shared_mutex where
  "fresh_mutex = \<lparr>isWrite = False, readCount = 0, thr = (\<lambda>t. Out)\<rparr>"

definition isReadCond :: "shared_mutex \<Rightarrow> bool" where "isReadCond m \<longleftrightarrow> \<not> isWrite m"

definition isWriteCond :: "shared_mutex \<Rightarrow> bool" where "isWriteCond m \<longleftrightarrow> \<not> isWrite m \<and> readCount m = 0"

definition set_thr :: "nat \<Rightarrow> lock_state \<Rightarrow> shared_mutex \<Rightarrow> shared_mutex" where
  "set_thr t p m = m\<lparr>thr := (thr m)(t := p)\<rparr>"

definition notify_all :: "shared_mutex \<Rightarrow> shared_mutex" where
  "notify_all m = m\<lparr>thr := (\<lambda>t. case thr m t of Asleep w \<Rightarrow> Notified w | p \<Rightarrow> p)\<rparr>"

definition readLock :: "nat \<Rightarrow> shared_mutex \<Rightarrow> shared_mutex" where
  "readLock t m = (if isReadCond m then set_thr t Reading (m\<lparr>readCount := readCount m + 1\<rparr>) else set_thr t (Asleep WRead) m)"

definition writeLock :: "nat \<Rightarrow> shared_mutex \<Rightarrow> shared_mutex" where
  "writeLock t m = (if isWriteCond m then set_thr t Writing (m\<lparr>isWrite := True\<rparr>) else set_thr t (Asleep WWrite) m)"

definition unReadLock :: "nat \<Rightarrow> shared_mutex \<Rightarrow> shared_mutex" where
  "unReadLock t m = notify_all (set_thr t Out (m\<lparr>readCount := readCount m - 1\<rparr>))"

definition unWriteLock :: "nat \<Rightarrow> shared_mutex \<Rightarrow> shared_mutex" where
  "unWriteLock t m = notify_all (set_thr t Out (m\<lparr>isWrite := False\<rparr>))"

text \<open>The attempts wait for no time first; \<open>tmout\<close> says whether that wait ends with \<open>cv_status::timeout\<close>.\<close>

definition tryReadLock :: "bool \<Rightarrow> nat \<Rightarrow> shared_mutex \<Rightarrow> bool \<times> shared_mutex" where
  "tryReadLock tmout t m =
     (if tmout then (False, m)
      else if isReadCond m then (True, set_thr t Reading (m\<lparr>readCount := readCount m + 1\<rparr>)) else (False, m))"

definition tryWriteLock :: "bool \<Rightarrow> nat \<Rightarrow> shared_mutex \<Rightarrow> bool \<times> shared_mutex" where
  "tryWriteLock tmout t m =
     (if tmout then (False, m)
      else if isWriteCond m then (True, set_thr t Writing (m\<lparr>isWrite := True\<rparr>)) else (False, m))"

text \<open>
  The guards.  The destructor of \<open>YS_WLock\<close> calls \<open>writeLock\<close>: a thread that gets through it has left the
  guard with the lock taken once more.
\<close>

definition RLock_ctor :: "nat \<Rightarrow> shared_mutex \<Rightarrow> shared_mutex" where "RLock_ctor = readLock"

definition RLock_dtor :: "nat \<Rightarrow> shared_mutex \<Rightarrow> shared_mutex" where "RLock_dtor = unReadLock"

definition WLock_ctor :: "nat \<Rightarrow> shared_mutex \<Rightarrow> shared_mutex" where "WLock_ctor = writeLock"

definition WLock_dtor :: "nat \<Rightarrow> shared_mutex \<Rightarrow> shared_mutex" where
  "WLock_dtor t m =
     (if isWriteCond m then set_thr t Out (m\<lparr>isWrite := True\<rparr>) else set_thr t (Asleep WWriteDtor) m)"

text \<open>A thread that waits tests its condition again.\<close>

definition woken :: "nat \<Rightarrow> want \<Rightarrow> shared_mutex \<Rightarrow> shared_mutex" where
  "woken t w = (case w of WRead \<Rightarrow> readLock t | WWrite \<Rightarrow> writeLock t | WWriteDtor \<Rightarrow> WLock_dtor t)"

section \<open>Runs of \<open>n\<close> threads\<close>

text \<open>Threads that call the operations of the lock and unlock what they have locked.\<close>

inductive lock_step :: "nat \<Rightarrow> shared_mutex \<Rightarrow> shared_mutex \<Rightarrow> bool" for n where
  rlock: "t < n \<Longrightarrow> thr m t = Out \<Longrightarrow> lock_step n m (readLock t m)"
| wlock: "t < n \<Longrightarrow> thr m t = Out \<Longrightarrow> lock_step n m (writeLock t m)"
| try_read: "t < n \<Longrightarrow> thr m t = Out \<Longrightarrow> lock_step n m (snd (tryReadLock tmout t m))"
| try_write: "t < n \<Longrightarrow> thr m t = Out \<Longrightarrow> lock_step n m (snd (tryWriteLock tmout t m))"
| unread: "t < n \<Longrightarrow> thr m t = Reading \<Longrightarrow> lock_step n m (unReadLock t m)"
| unwrite: "t < n \<Longrightarrow> thr m t = Writing \<Longrightarrow> lock_step n m (unWriteLock t m)"
| wake: "t < n \<Longrightarrow> thr m t = Asleep w \<or> thr m t = Notified w \<Longrightarrow> lock_step n m (woken t w m)"

text \<open>Threads that use the guards only.\<close>

inductive guard_step :: "nat \<Rightarrow> shared_mutex \<Rightarrow> shared_mutex \<Rightarrow> bool" for n where
  rctor: "t < n \<Longrightarrow> thr m t = Out \<Longrightarrow> guard_step n m (RLock_ctor t m)"
| rdtor: "t < n \<Longrightarrow> thr m t = Reading \<Longrightarrow> guard_step n m (RLock_dtor t m)"
| wctor: "t < n \<Longrightarrow> thr m t = Out \<Longrightarrow> guard_step n m (WLock_ctor t m)"
| wdtor: "t < n \<Longrightarrow> thr m t = Writing \<Longrightarrow> guard_step n m (WLock_dtor t m)"
| gwake: "t < n \<Longrightarrow> thr m t = Asleep w \<or> thr m t = Notified w \<Longrightarrow> guard_step n m (woken t w m)"

lemmas lock_defs = readLock_def writeLock_def unReadLock_def unWriteLock_def tryReadLock_def tryWriteLock_def
  WLock_dtor_def woken_def notify_all_def set_thr_def isReadCond_def isWriteCond_def

section \<open>Readers and writers exclude each other\<close>

definition readers :: "nat \<Rightarrow> shared_mutex \<Rightarrow> nat set" where "readers n m = {t. t < n \<and> thr m t = Reading}"

text \<open>
  The invariant: the count is the number of readers, the flag stands for one writer, and who is asleep has
  nothing to do (no wakeup is lost).
\<close>

definition lock_inv :: "nat \<Rightarrow> shared_mutex \<Rightarrow> bool" where
  "lock_inv n m \<longleftrightarrow> unat (readCount m) = card (readers n m) \<and> (isWrite m \<longrightarrow> readers n m = {}) \<and>
     (isWrite m \<longleftrightarrow> (\<exists>t. thr m t = Writing)) \<and> (\<forall>t u. thr m t = Writing \<and> thr m u = Writing \<longrightarrow> t = u) \<and>
     (\<forall>t. n \<le> t \<longrightarrow> thr m t = Out) \<and> (\<forall>t. thr m t \<noteq> Asleep WWriteDtor \<and> thr m t \<noteq> Notified WWriteDtor) \<and>
     (\<forall>t. thr m t = Asleep WRead \<longrightarrow> \<not> isReadCond m) \<and> (\<forall>t. thr m t = Asleep WWrite \<longrightarrow> \<not> isWriteCond m)"

lemma finite_readers [simp]: "finite (readers n m)"
  by (simp add: readers_def)

lemma card_readers: "card (readers n m) \<le> n"
  using card_mono [of "{..<n}" "readers n m"] by (auto simp: readers_def)

lemma readers_set: "t < n \<Longrightarrow> readers n (m\<lparr>thr := (thr m)(t := p)\<rparr>) =
    (if p = Reading then insert t (readers n m) else readers n m - {t})"
  by (auto simp: readers_def)

lemma notified [simp]:
  "isWrite (notify_all m) = isWrite m" "readCount (notify_all m) = readCount m"
  "thr (notify_all m) t \<noteq> Asleep w" "thr (notify_all m) t = Writing \<longleftrightarrow> thr m t = Writing"
  "thr (notify_all m) t = Reading \<longleftrightarrow> thr m t = Reading" "thr (notify_all m) t = Out \<longleftrightarrow> thr m t = Out"
  "thr (notify_all m) t = Notified w \<longleftrightarrow> thr m t = Notified w \<or> thr m t = Asleep w"
  by (cases "thr m t"; simp add: notify_all_def; fail)+

lemma readers_notified [simp]: "readers n (notify_all m) = readers n m"
  by (simp add: readers_def)

lemma readers_cong [simp]:
  "readers n (m\<lparr>isWrite := b\<rparr>) = readers n m" "readers n (m\<lparr>readCount := c\<rparr>) = readers n m"
  "readers n (m\<lparr>isWrite := b, thr := f\<rparr>) = readers n (m\<lparr>thr := f\<rparr>)"
  "readers n (m\<lparr>readCount := c, thr := f\<rparr>) = readers n (m\<lparr>thr := f\<rparr>)"
  by (simp_all add: readers_def)

lemma lock_inv_idle:
  assumes inv: "lock_inv n m" and t: "t < n" "thr m t = Out \<or> thr m t = Asleep w \<or> thr m t = Notified w" and n: "n < 2 ^ 64"
  shows "isReadCond m \<Longrightarrow> lock_inv n (set_thr t Reading (m\<lparr>readCount := readCount m + 1\<rparr>))"
    and "isWriteCond m \<Longrightarrow> lock_inv n (set_thr t Writing (m\<lparr>isWrite := True\<rparr>))"
    and "\<not> isReadCond m \<Longrightarrow> lock_inv n (set_thr t (Asleep WRead) m)"
    and "\<not> isWriteCond m \<Longrightarrow> lock_inv n (set_thr t (Asleep WWrite) m)"
proof -
  have out: "t \<notin> readers n m" "thr m t \<noteq> Writing" using t by (auto simp: readers_def)
  have "insert t (readers n m) \<subseteq> {..<n}" using t(1) by (auto simp: readers_def)
  from card_mono [OF _ this] out(1) have "card (readers n m) < n" by simp
  with n inv have cnt: "unat (readCount m + 1) = card (readers n m) + 1"
    by (simp add: lock_inv_def unat_word_ariths)
  show "isReadCond m \<Longrightarrow> lock_inv n (set_thr t Reading (m\<lparr>readCount := readCount m + 1\<rparr>))"
    using inv t(1) out cnt by (auto simp: lock_inv_def set_thr_def isReadCond_def isWriteCond_def readers_set)
  show "isWriteCond m \<Longrightarrow> lock_inv n (set_thr t Writing (m\<lparr>isWrite := True\<rparr>))"
    using inv t(1) out by (auto simp: lock_inv_def set_thr_def isReadCond_def isWriteCond_def readers_set)
  show "\<not> isReadCond m \<Longrightarrow> lock_inv n (set_thr t (Asleep WRead) m)"
    using inv t(1) out by (auto simp: lock_inv_def set_thr_def isReadCond_def isWriteCond_def readers_set)
  show "\<not> isWriteCond m \<Longrightarrow> lock_inv n (set_thr t (Asleep WWrite) m)"
    using inv t(1) out by (auto simp: lock_inv_def set_thr_def isReadCond_def isWriteCond_def readers_set)
qed

lemma lock_inv_unread:
  assumes inv: "lock_inv n m" and t: "t < n" "thr m t = Reading"
  shows "lock_inv n (unReadLock t m)"
proof -
  have r: "t \<in> readers n m" using t by (simp add: readers_def)
  then have pos: "0 < card (readers n m)" by (auto simp: card_gt_0_iff)
  have "readCount m \<noteq> 0" using inv pos by (auto simp: lock_inv_def)
  then have "unat (readCount m - 1) = unat (readCount m) - 1" by (simp add: unat_minus_one)
  with inv t(1) r show ?thesis
    by (auto simp: lock_inv_def unReadLock_def set_thr_def readers_set)
qed

lemma lock_inv_unwrite:
  assumes inv: "lock_inv n m" and t: "t < n" "thr m t = Writing"
  shows "lock_inv n (unWriteLock t m)"
  using inv t by (auto simp: lock_inv_def unWriteLock_def set_thr_def readers_set)

lemma writer_alone: "lock_inv n m \<Longrightarrow> isWrite m \<Longrightarrow> thr m u \<noteq> Reading"
  by (cases "u < n") (auto simp: lock_inv_def readers_def)

lemma lock_step_inv:
  assumes "lock_step n m m'" and "lock_inv n m" and "n < 2 ^ 64"
  shows "lock_inv n m'"
  using assms(1)
proof cases
  case (wake t w)
  with assms(2) have "w \<noteq> WWriteDtor" by (auto simp: lock_inv_def)
  with wake lock_inv_idle [OF assms(2) wake(2) _ assms(3), of w] show ?thesis
    by (cases w) (simp_all add: woken_def readLock_def writeLock_def)
qed (use assms lock_inv_idle [OF assms(2) _ _ assms(3)] in
  \<open>simp_all add: readLock_def writeLock_def tryReadLock_def tryWriteLock_def lock_inv_unread lock_inv_unwrite\<close>)

inductive_set lock_reach :: "nat \<Rightarrow> shared_mutex set" for n where
  start: "fresh_mutex \<in> lock_reach n"
| step: "m \<in> lock_reach n \<Longrightarrow> lock_step n m m' \<Longrightarrow> m' \<in> lock_reach n"

lemma lock_reach_inv: "m \<in> lock_reach n \<Longrightarrow> n < 2 ^ 64 \<Longrightarrow> lock_inv n m"
proof (induction rule: lock_reach.induct)
  case start
  show ?case by (simp add: lock_inv_def fresh_mutex_def readers_def)
qed (rule lock_step_inv)

text \<open>
  C15: Readers and writers exclude each other.  In every state that threads calling the operations of the lock
  can reach, a thread that writes is alone, and no thread sleeps while the condition it waits for holds.
\<close>

theorem lock_excludes:
  assumes "m \<in> lock_reach n" and "n < 2 ^ 64"
  shows "(thr m t = Writing \<and> u \<noteq> t \<longrightarrow> thr m u \<noteq> Writing \<and> thr m u \<noteq> Reading) \<and>
    (thr m t = Asleep WRead \<longrightarrow> \<not> isReadCond m) \<and> (thr m t = Asleep WWrite \<longrightarrow> \<not> isWriteCond m)"
  using lock_reach_inv [OF assms] writer_alone by (auto simp: lock_inv_def)

text \<open>Once nobody holds the lock, each thread that waits gets it when it runs.\<close>

lemma free_lock_goes_on:
  assumes reach: "m \<in> lock_reach n" "n < 2 ^ 64" and free: "\<forall>u. thr m u \<noteq> Reading \<and> thr m u \<noteq> Writing"
  shows "thr m t \<noteq> Asleep w" and "thr m t = Notified w \<Longrightarrow> thr (woken t w m) t = (if w = WRead then Reading else Writing)"
proof -
  note inv = lock_reach_inv [OF reach]
  have "readers n m = {}" using free by (auto simp: readers_def)
  with inv free have m: "\<not> isWrite m" "readCount m = 0" by (auto simp: lock_inv_def unat_eq_0)
  with inv show "thr m t \<noteq> Asleep w" by (cases w) (auto simp: lock_inv_def isReadCond_def isWriteCond_def)
  show "thr (woken t w m) t = (if w = WRead then Reading else Writing)" if "thr m t = Notified w"
    using inv m that by (cases w) (auto simp: lock_inv_def lock_defs)
qed

section \<open>The guards\<close>

inductive_set guard_reach :: "nat \<Rightarrow> shared_mutex set" for n where
  start: "fresh_mutex \<in> guard_reach n"
| step: "m \<in> guard_reach n \<Longrightarrow> guard_step n m m' \<Longrightarrow> m' \<in> guard_reach n"

inductive_set guard_from :: "nat \<Rightarrow> shared_mutex \<Rightarrow> shared_mutex set" for n m where
  here: "m \<in> guard_from n m"
| more: "m1 \<in> guard_from n m \<Longrightarrow> guard_step n m1 m2 \<Longrightarrow> m2 \<in> guard_from n m"

text \<open>
  Whoever uses only the guards: the first writer to leave its guard is stuck, and the lock with it.
\<close>

definition stuck :: "shared_mutex \<Rightarrow> bool" where
  "stuck m \<longleftrightarrow> isWrite m \<and> (\<forall>t. thr m t \<noteq> Reading \<and> thr m t \<noteq> Writing)"

lemma stuck_step:
  assumes "stuck m" and "guard_step n m m'"
  shows "stuck m' \<and> (thr m t = Asleep WWriteDtor \<longrightarrow> thr m' t = Asleep WWriteDtor)"
  using assms(2)
proof cases
  case (gwake u w)
  with assms(1) show ?thesis by (cases w) (auto simp: stuck_def lock_defs)
qed (use assms(1) in \<open>auto simp: stuck_def lock_defs RLock_ctor_def WLock_ctor_def\<close>)

lemma wdtor_stuck:
  assumes "lock_inv n m" and "thr m t = Writing"
  shows "stuck (WLock_dtor t m) \<and> thr (WLock_dtor t m) t = Asleep WWriteDtor"
proof -
  have w: "isWrite m" and one: "thr m u = Writing \<Longrightarrow> u = t" for u using assms by (auto simp: lock_inv_def)
  show ?thesis using w one writer_alone [OF assms(1) w] by (auto simp: stuck_def lock_defs)
qed

lemma lock_inv_guard:
  assumes "m \<in> guard_reach n" and "n < 2 ^ 64"
  shows "lock_inv n m \<or> stuck m"
  using assms(1)
proof induction
  case start
  show ?case by (simp add: lock_inv_def fresh_mutex_def readers_def)
next
  case (step m m')
  show ?case
  proof (cases "stuck m")
    case True
    with stuck_step [OF this step(2)] show ?thesis by blast
  next
    case False
    with step have inv: "lock_inv n m" by blast
    from step(2) show ?thesis
    proof cases
      case (wdtor t)
      with wdtor_stuck [OF inv] have "stuck m'" by simp
      then show ?thesis by simp
    next
      case (gwake t w)
      then show ?thesis using lock_step_inv [OF lock_step.wake inv assms(2)] by blast
    next
      case (rctor t)
      then show ?thesis using lock_step_inv [OF lock_step.rlock inv assms(2)] by (simp add: RLock_ctor_def)
    next
      case (wctor t)
      then show ?thesis using lock_step_inv [OF lock_step.wlock inv assms(2)] by (simp add: WLock_ctor_def)
    next
      case (rdtor t)
      then show ?thesis using lock_inv_unread [OF inv] by (simp add: RLock_dtor_def)
    qed
  qed
qed

text \<open>
  C20: The write guard locks up.  The destructor of \<open>YS_WLock\<close> locks once more instead of unlocking: among threads
  that use the guards, from the moment a writer leaves its guard that thread sleeps for ever, and no
  thread is ever inside a guard again.
\<close>

theorem write_guard_deadlock:
  assumes "m \<in> guard_reach n" and "n < 2 ^ 64" and "t < n" and "thr m t = Writing" and "m' \<in> guard_from n (WLock_dtor t m)"
  shows "thr m' t = Asleep WWriteDtor \<and> isWrite m' \<and> (\<forall>u. thr m' u \<noteq> Reading \<and> thr m' u \<noteq> Writing)"
proof -
  have inv: "lock_inv n m" using lock_inv_guard [OF assms(1,2)] assms(4) by (auto simp: stuck_def)
  from assms(5) wdtor_stuck [OF this assms(4)] have "stuck m' \<and> thr m' t = Asleep WWriteDtor"
    by (induction rule: guard_from.induct) (use stuck_step in blast)+
  then show ?thesis by (simp add: stuck_def)
qed

lemma lock_excludes_witness:
  "let m = readLock 1 (writeLock 0 fresh_mutex) in thr m 0 = Writing \<and> thr m 1 = Asleep WRead \<and>
    thr m 1 \<noteq> Reading \<and> \<not> isReadCond m"
proof -
  let ?m = "readLock 1 (writeLock 0 fresh_mutex)"
  have "writeLock 0 fresh_mutex \<in> lock_reach 2"
    by (rule lock_reach.step [OF lock_reach.start lock_step.wlock]) (simp_all add: fresh_mutex_def)
  moreover have "thr (writeLock 0 fresh_mutex) 1 = Out" by (simp add: lock_defs fresh_mutex_def)
  ultimately have "?m \<in> lock_reach 2" using lock_reach.step [OF _ lock_step.rlock] by simp
  from lock_excludes [OF this, of 0 1] lock_excludes [OF this, of 1 0]
  show ?thesis by (simp add: Let_def lock_defs fresh_mutex_def)
qed

lemma write_guard_deadlock_witness:
  "let m = RLock_ctor 1 (WLock_dtor 0 (WLock_ctor 0 fresh_mutex)) in
    thr m 0 = Asleep WWriteDtor \<and> isWrite m \<and> (\<forall>u. thr m u \<noteq> Reading \<and> thr m u \<noteq> Writing)"
proof -
  let ?m = "WLock_ctor 0 fresh_mutex"
  have m: "thr ?m 0 = Writing" "thr (WLock_dtor 0 ?m) 1 = Out"
    by (simp_all add: lock_defs fresh_mutex_def WLock_ctor_def)
  have "?m \<in> guard_reach 2"
    by (rule guard_reach.step [OF guard_reach.start guard_step.wctor]) (simp_all add: fresh_mutex_def)
  moreover have "RLock_ctor 1 (WLock_dtor 0 ?m) \<in> guard_from 2 (WLock_dtor 0 ?m)"
    by (rule guard_from.more [OF guard_from.here guard_step.rctor]) (simp_all add: m [simplified])
  ultimately show ?thesis using write_guard_deadlock [of ?m 2 0 "RLock_ctor 1 (WLock_dtor 0 ?m)"] m by (simp add: Let_def)
qed

section \<open>The condition variable\<close>

text \<open>
  \<open>YS_CondVar\<close>: the flag of a notification, and the threads asleep.  A call that finds the flag set does not
  wait; otherwise it returns when it is woken (by a notification or spuriously) or when its time is over.
  \<open>cv_wait_start\<close> is the first half of a call, \<open>cv_wait_end\<close> the second.
\<close>

datatype cv_call = waitFor | waitForEx | cv_wait bool

record condvar =
  hasNotified :: bool
  cv_asleep :: "nat set"

definition cv_wait_start :: "cv_call \<Rightarrow> nat \<Rightarrow> condvar \<Rightarrow> bool option \<times> condvar" where
  "cv_wait_start c t v =
     (if hasNotified v
      then (Some True, if c = waitFor then v\<lparr>hasNotified := False\<rparr> else v)
      else (None, v\<lparr>cv_asleep := insert t (cv_asleep v)\<rparr>))"

definition cv_wait_end :: "cv_call \<Rightarrow> bool \<Rightarrow> nat \<Rightarrow> condvar \<Rightarrow> bool \<times> condvar" where
  "cv_wait_end c tmout t v =
     (let v1 = v\<lparr>cv_asleep := cv_asleep v - {t}\<rparr> in
      if tmout \<and> (c = waitFor \<or> c = waitForEx) then (False, v1)
      else (True, if c = waitFor \<or> c = cv_wait True then v1\<lparr>hasNotified := False\<rparr> else v1))"

definition notifyAll :: "condvar \<Rightarrow> condvar" where "notifyAll v = v\<lparr>hasNotified := True, cv_asleep := {}\<rparr>"

text \<open>\<open>notifyOne\<close> wakes some thread \<open>t\<close> of those asleep, if there is one.\<close>

definition notifyOne :: "nat \<Rightarrow> condvar \<Rightarrow> condvar" where
  "notifyOne t v = v\<lparr>hasNotified := True, cv_asleep := cv_asleep v - {t}\<rparr>"

text \<open>
  A notification is remembered for the next call, by \<open>waitFor\<close> once, by the others for ever: \<open>wait(true)\<close> resets
  the flag only where it had to wait.
\<close>

lemma notification_remembered:
  "cv_wait_start c t (notifyAll v) = (Some True, if c = waitFor then (notifyAll v)\<lparr>hasNotified := False\<rparr> else notifyAll v)"
  "fst (cv_wait_start c u (snd (cv_wait_start waitFor t (notifyAll v)))) = None"
  "fst (cv_wait_start c u (snd (cv_wait_start (cv_wait True) t (notifyAll v)))) = Some True"
  by (simp_all add: cv_wait_start_def notifyAll_def)

section \<open>Threads that are started and stopped\<close>

text \<open>
  \<open>YS_Thread\<close>: the flag, the pointer to the last thread made, and the threads made so far with the place
  each of them has come to in \<open>run\<close>.
\<close>

datatype run_pc = AtInit | AtLoop | InHandle | AtFinal | AtEnd | Done

record ys_thread =
  th_flag :: bool
  th_ptr :: "nat option"
  runs :: "run_pc list"

definition fresh_thread :: ys_thread where "fresh_thread = \<lparr>th_flag = False, th_ptr = None, runs = []\<rparr>"

definition thread_start :: "ys_thread \<Rightarrow> int \<times> ys_thread" where
  "thread_start h =
     (if th_flag h then (- 1, h)
      else (0, \<lparr>th_flag = True, th_ptr = Some (length (runs h)), runs = runs h @ [AtInit]\<rparr>))"

definition thread_stop :: "ys_thread \<Rightarrow> ys_thread" where "thread_stop h = h\<lparr>th_flag := False\<rparr>"

text \<open>One step of thread \<open>i\<close> in \<open>run\<close>; \<open>r\<close> is the result of \<open>init\<close>.\<close>

definition run_step :: "int \<Rightarrow> nat \<Rightarrow> ys_thread \<Rightarrow> ys_thread" where
  "run_step r i h =
     (case runs h ! i of
        AtInit \<Rightarrow> if r \<noteq> 0 then h\<lparr>th_flag := False, runs := (runs h)[i := Done]\<rparr> else h\<lparr>runs := (runs h)[i := AtLoop]\<rparr>
      | AtLoop \<Rightarrow> h\<lparr>runs := (runs h)[i := if th_flag h then InHandle else AtFinal]\<rparr>
      | InHandle \<Rightarrow> h\<lparr>runs := (runs h)[i := AtLoop]\<rparr>
      | AtFinal \<Rightarrow> h\<lparr>runs := (runs h)[i := AtEnd]\<rparr>
      | AtEnd \<Rightarrow> h\<lparr>th_flag := False, runs := (runs h)[i := Done]\<rparr>
      | Done \<Rightarrow> h)"

inductive thread_step :: "ys_thread \<Rightarrow> ys_thread \<Rightarrow> bool" where
  start: "thread_step h (snd (thread_start h))"
| stop: "thread_step h (thread_stop h)"
| run: "i < length (runs h) \<Longrightarrow> thread_step h (run_step r i h)"

inductive_set thread_reach :: "ys_thread set" where
  fresh: "fresh_thread \<in> thread_reach"
| step: "h \<in> thread_reach \<Longrightarrow> thread_step h h' \<Longrightarrow> h' \<in> thread_reach"

text \<open>The threads that have not come to the end of \<open>run\<close>.\<close>

definition alive :: "ys_thread \<Rightarrow> nat" where "alive h = length (filter (\<lambda>p. p \<noteq> Done) (runs h))"

text \<open>Runs in which a thread is started only when the ones before it have come to their end.\<close>

inductive_set orderly :: "ys_thread set" where
  fresh: "fresh_thread \<in> orderly"
| start: "h \<in> orderly \<Longrightarrow> alive h = 0 \<Longrightarrow> snd (thread_start h) \<in> orderly"
| stop: "h \<in> orderly \<Longrightarrow> thread_stop h \<in> orderly"
| run: "h \<in> orderly \<Longrightarrow> i < length (runs h) \<Longrightarrow> run_step r i h \<in> orderly"

lemma alive_update:
  "i < length (runs h) \<Longrightarrow> runs h ! i \<noteq> Done \<Longrightarrow> runs g = (runs h)[i := p] \<Longrightarrow>
    Suc (alive g) = alive h + (if p = Done then 0 else 1)"
proof -
  have upd: "i < length ps \<Longrightarrow> ps ! i \<noteq> Done \<Longrightarrow>
      Suc (length (filter (\<lambda>p. p \<noteq> Done) (ps[i := p]))) = length (filter (\<lambda>p. p \<noteq> Done) ps) + (if p = Done then 0 else 1)" for ps
  proof (induction ps arbitrary: i)
    case (Cons q qs)
    then show ?case by (cases i) auto
  qed simp
  assume "i < length (runs h)" "runs h ! i \<noteq> Done" "runs g = (runs h)[i := p]"
  with upd [of "runs h"] show ?thesis by (simp add: alive_def)
qed

lemma run_step_alive:
  assumes i: "i < length (runs h)" and inv: "alive h \<le> 1 \<and> (th_flag h \<longrightarrow> alive h = 1)"
  shows "alive (run_step r i h) \<le> 1 \<and> (th_flag (run_step r i h) \<longrightarrow> alive (run_step r i h) = 1)"
proof (cases "runs h ! i = Done")
  case False
  let ?h = "run_step r i h"
  let ?p = "runs ?h ! i"
  have p: "runs ?h = (runs h)[i := ?p]" and fl: "?p \<noteq> Done \<longrightarrow> th_flag ?h = th_flag h" "?p = Done \<longrightarrow> \<not> th_flag ?h"
    using False i by (cases "runs h ! i"; simp add: run_step_def)+
  from alive_update [OF i False p] inv fl show ?thesis by (cases "?p = Done") auto
qed (use inv in \<open>simp add: run_step_def\<close>)

text \<open>
  One thread runs.  As long as a thread is started only after the end of the one before, at most one thread
  is in \<open>run\<close>, and one is where \<open>isRunning\<close> says so.
\<close>

theorem one_thread_runs:
  assumes "h \<in> orderly"
  shows "alive h \<le> 1 \<and> (th_flag h \<longrightarrow> alive h = 1)"
  using assms
proof induction
  case (run h i r)
  then show ?case using run_step_alive by blast
qed (auto simp: fresh_thread_def alive_def thread_start_def thread_stop_def split: if_splits)

lemma one_thread_runs_witness:
  "alive (thread_stop (snd (thread_start fresh_thread))) \<le> 1 \<and>
    (th_flag (thread_stop (snd (thread_start fresh_thread))) \<longrightarrow> alive (thread_stop (snd (thread_start fresh_thread))) = 1)"
  by (rule one_thread_runs [OF orderly.stop [OF orderly.start [OF orderly.fresh]]]) (simp add: fresh_thread_def alive_def)

text \<open>
  Started anew right after a stop, the old thread goes on beside the new one (only the new one is joined by
  the destructor), and where it does stop, it stops the new one too.
\<close>

definition after_start :: ys_thread where "after_start = run_step 0 0 (snd (thread_start fresh_thread))"

lemma reach_run: "h \<in> thread_reach \<Longrightarrow> i < length (runs h) \<Longrightarrow> run_step r i h \<in> thread_reach"
  using thread_reach.step thread_step.run by blast

lemma restart_runs_two:
  "\<exists>h \<in> thread_reach. runs h = [InHandle, InHandle] \<and> th_ptr h = Some 1"
proof -
  have "after_start \<in> thread_reach" unfolding after_start_def
    by (intro thread_reach.step [OF thread_reach.step [OF thread_reach.fresh thread_step.start] thread_step.run])
      (simp add: thread_start_def fresh_thread_def)
  then have "snd (thread_start (thread_stop after_start)) \<in> thread_reach" (is "?h \<in> _")
    using thread_reach.step thread_step.start thread_step.stop by blast
  then have "run_step 0 1 (run_step 0 1 (run_step 0 0 ?h)) \<in> thread_reach"
    by (intro reach_run)
      (simp_all add: run_step_def after_start_def thread_start_def thread_stop_def fresh_thread_def)
  then show ?thesis
    by (rule bexI [rotated]) (simp add: run_step_def after_start_def thread_start_def thread_stop_def fresh_thread_def)
qed

lemma restart_is_lost:
  "let h = thread_stop after_start; h1 = run_step 0 0 (run_step 0 0 h); (r, h2) = thread_start h1; h3 = run_step 0 0 h2
   in r = 0 \<and> \<not> th_flag h3 \<and> runs h3 = [Done, AtInit]"
  by (simp add: run_step_def after_start_def thread_start_def thread_stop_def fresh_thread_def)

end
