(* ===== verification/Ys_Url.thy ===== *)
theory Ys_Url
  imports Isaac_Prelude
begin

text \<open>
  \<open>YS_Url\<close> of \<open>isaac/ys_url.h\<close>: percent decoding, and the composition and the parsing of URLs.
  The two regular expressions are modelled by the sequential scanners they amount to: each of their
  groups is followed by a character the group itself cannot contain, so that backtracking never finds
  a second match.
\<close>

section \<open>Character classes\<close>

definition chcode :: "char \<Rightarrow> nat" where "chcode c = of_char c"

definition is_digit :: "char \<Rightarrow> bool" where "is_digit c \<longleftrightarrow> 48 \<le> chcode c \<and> chcode c \<le> 57"

definition is_word :: "char \<Rightarrow> bool" where
  "is_word c \<longleftrightarrow> is_digit c \<or> (65 \<le> chcode c \<and> chcode c \<le> 90) \<or> (97 \<le> chcode c \<and> chcode c \<le> 122) \<or>
     chcode c = 95"

definition is_host :: "char \<Rightarrow> bool" where
  "is_host c \<longleftrightarrow> is_word c \<or> c = CHR ''.'' \<or> c = CHR ''-''"

definition is_path :: "char \<Rightarrow> bool" where
  "is_path c \<longleftrightarrow> c \<noteq> CHR ''?'' \<and> c \<noteq> CHR ''#'' \<and> c \<noteq> CHR '':''"

definition is_param :: "char \<Rightarrow> bool" where "is_param c \<longleftrightarrow> c \<noteq> CHR ''#''"

definition is_mark :: "char \<Rightarrow> bool" where "is_mark c \<longleftrightarrow> is_word c \<or> c = CHR ''-''"

definition is_space :: "char \<Rightarrow> bool" where
  "is_space c \<longleftrightarrow> chcode c = 32 \<or> (9 \<le> chcode c \<and> chcode c \<le> 13)"

section \<open>Percent decoding\<close>

definition hexd :: "char \<Rightarrow> nat option" where
  "hexd c =
     (if is_digit c then Some (chcode c - 48)
      else if 65 \<le> chcode c \<and> chcode c \<le> 70 then Some (chcode c - 55)
      else if 97 \<le> chcode c \<and> chcode c \<le> 102 then Some (chcode c - 87)
      else None)"

text \<open>
  What \<open>std::istringstream(hex_str) >> std::hex >> hex_value\<close> leaves in the variable: white space is
  skipped, a sign is accepted, as many digits as there are count, and text that is no number gives 0.
  For two blanks the stream is at its end and the uninitialised variable stays as it is: \<open>None\<close>.
\<close>

definition hex_value :: "char \<Rightarrow> char \<Rightarrow> int option" where
  "hex_value a b =
     (if is_space a
      then if is_space b then None
        else Some (case hexd b of Some v \<Rightarrow> int v | None \<Rightarrow> 0)
      else if a = CHR ''+'' then Some (case hexd b of Some v \<Rightarrow> int v | None \<Rightarrow> 0)
      else if a = CHR ''-'' then Some (case hexd b of Some v \<Rightarrow> - int v | None \<Rightarrow> 0)
      else Some (case hexd a of
                   None \<Rightarrow> 0
                 | Some v \<Rightarrow> (case hexd b of Some w \<Rightarrow> int (16 * v + w) | None \<Rightarrow> int v)))"

text \<open>\<open>static_cast<char>\<close> keeps the low eight bits.\<close>

definition to_char :: "int \<Rightarrow> char" where "to_char v = char_of (nat (v mod 256))"

fun url_decode :: "string \<Rightarrow> (unit, string) outcome" where
  "url_decode [] = Ok []"
| "url_decode (c # cs) =
     (if c = CHR ''%''
      then (case cs of
              a # b # rest \<Rightarrow>
                (case hex_value a b of
                   None \<Rightarrow> Undef
                 | Some v \<Rightarrow> mapO (Cons (to_char v)) (url_decode rest))
            | _ \<Rightarrow> mapO (Cons c) (url_decode cs))
      else if c = CHR ''+'' then mapO (Cons (CHR '' '')) (url_decode cs)
      else mapO (Cons c) (url_decode cs))"

section \<open>Decimal numbers\<close>

text \<open>\<open>std::to_string\<close> and \<open>std::stoi\<close> on digit strings.\<close>

definition digit_char :: "nat \<Rightarrow> char" where "digit_char d = char_of (48 + d)"

fun dec_str :: "nat \<Rightarrow> string" where
  "dec_str n = (if n < 10 then [digit_char n] else dec_str (n div 10) @ [digit_char (n mod 10)])"

declare dec_str.simps [simp del]

definition dec_val :: "string \<Rightarrow> nat" where
  "dec_val s = foldl (\<lambda>v c. 10 * v + (chcode c - 48)) 0 s"

section \<open>URLs\<close>

record url =
  protocol :: string
  user :: string
  pass :: string
  host :: string
  port :: u16
  path :: string
  param :: string
  mark :: string

definition new_url :: url where
  "new_url = \<lparr>protocol = [], user = [], pass = [], host = [], port = 0, path = [], param = [], mark = []\<rparr>"

definition path_part :: "string \<Rightarrow> string" where
  "path_part p = (case p of [] \<Rightarrow> [] | c # cs \<Rightarrow> if c = CHR ''/'' then p else CHR ''/'' # p)"

definition param_part :: "string \<Rightarrow> string" where
  "param_part q = (if q = [] then [] else CHR ''?'' # q)"

definition mark_part :: "string \<Rightarrow> string" where
  "mark_part m = (if m = [] then [] else CHR ''#'' # m)"

definition url_tail :: "url \<Rightarrow> string" where
  "url_tail u = (if host u = [] then [] else path_part (path u) @ param_part (param u) @ mark_part (mark u))"

text \<open>
  \<open>format\<close> is not a constant member: where a user is present it appends to \<open>user\<close>, not to the
  result.  The second component is the object afterwards.
\<close>

definition url_format :: "url \<Rightarrow> string \<times> url" where
  "url_format u =
     (if host u = [] then ([], u)
      else
        let u' = (if user u = [] then u
                  else let u1 = u\<lparr>user := user u @ user u\<rparr>;
                           u2 = (if pass u1 = [] then u1 else u1\<lparr>user := user u1 @ '':'' @ pass u1\<rparr>) in
                    u2\<lparr>user := user u2 @ ''@''\<rparr>) in
        ((if protocol u = [] then [] else protocol u @ ''://'') @ host u @
         (if port u = 0 then [] else CHR '':'' # dec_str (unat (port u))) @
         path_part (path u) @ param_part (param u) @ mark_part (mark u), u'))"

definition lower_char :: "char \<Rightarrow> char" where
  "lower_char c = (if 65 \<le> chcode c \<and> chcode c \<le> 90 then char_of (chcode c + 32) else c)"

definition defaultPort :: "string \<Rightarrow> u16" where
  "defaultPort p =
     (if p = [] then 80
      else let q = map lower_char p in
        if q = ''https'' then 443 else if q = ''http'' then 80 else if q = ''ssh'' then 22
        else if q = ''ftp'' then 21 else if q = ''sftp'' then 22 else 80)"

definition url_isSsl :: "url \<Rightarrow> bool" where
  "url_isSsl u = (let q = map lower_char (protocol u) in q = ''https'' \<or> q = ''ssh'' \<or> q = ''sftp'')"

section \<open>Parsing\<close>

text \<open>The expression of \<open>parseTail\<close>: \<open>(/[^?#:]*)?\<close>, \<open>(?:\?([^#]*))?\<close>, \<open>(?:#([\w-]*))?\<close>.\<close>

definition scan_path :: "string \<Rightarrow> string \<times> string" where
  "scan_path s =
     (case s of
        [] \<Rightarrow> ([], [])
      | c # cs \<Rightarrow> if c = CHR ''/'' then (c # takeWhile is_path cs, dropWhile is_path cs) else ([], s))"

definition scan_param :: "string \<Rightarrow> string \<times> string" where
  "scan_param s =
     (case s of
        [] \<Rightarrow> ([], [])
      | c # cs \<Rightarrow> if c = CHR ''?'' then (takeWhile is_param cs, dropWhile is_param cs) else ([], s))"

definition scan_mark :: "string \<Rightarrow> string option" where
  "scan_mark s =
     (case s of
        [] \<Rightarrow> Some []
      | c # cs \<Rightarrow> if c = CHR ''#'' \<and> list_all is_mark cs then Some cs else None)"

definition match_tail :: "string \<Rightarrow> (string \<times> string \<times> string) option" where
  "match_tail s =
     (let (p, r) = scan_path s; (q, r') = scan_param r in map_option (\<lambda>m. (p, q, m)) (scan_mark r'))"

text \<open>The head of the expression of \<open>parse\<close>.\<close>

definition scan_protocol :: "string \<Rightarrow> string \<times> string" where
  "scan_protocol s =
     (let w = takeWhile is_word s; r = dropWhile is_word s in
      if w \<noteq> [] \<and> take 3 r = ''://'' then (w, drop 3 r) else ([], s))"

definition scan_user :: "string \<Rightarrow> string \<times> string \<times> string" where
  "scan_user s =
     (let w = takeWhile is_word s; r = dropWhile is_word s in
      if w \<noteq> [] \<and> take 1 r = ''@'' then (w, [], drop 1 r)
      else if w \<noteq> [] \<and> take 1 r = '':''
      then let v = takeWhile is_word (drop 1 r); r' = dropWhile is_word (drop 1 r) in
        if v \<noteq> [] \<and> take 1 r' = ''@'' then (w, v, drop 1 r') else ([], [], s)
      else ([], [], s))"

definition scan_port :: "string \<Rightarrow> (string \<times> string) option" where
  "scan_port s =
     (if take 1 s = '':''
      then let d = takeWhile is_digit (drop 1 s) in
        if 1 \<le> length d \<and> length d \<le> 5 then Some (d, dropWhile is_digit (drop 1 s)) else None
      else Some ([], s))"

definition url_parse :: "string \<Rightarrow> url \<Rightarrow> (unit, 32 word \<times> url) outcome" where
  "url_parse s u =
     mapO (\<lambda>sUrl.
       let (pr, r1) = scan_protocol sUrl; (us, pw, r2) = scan_user r1;
           h = takeWhile is_host r2; r3 = dropWhile is_host r2 in
       if h = [] then (- 1, u)
       else case scan_port r3 of
         None \<Rightarrow> (- 1, u)
       | Some (d, r4) \<Rightarrow>
           (case match_tail r4 of
              None \<Rightarrow> (- 1, u)
            | Some (p, q, m) \<Rightarrow>
                (0, \<lparr>protocol = pr, user = us, pass = pw, host = h,
                     port = (if d = [] then defaultPort pr else of_nat (dec_val d)),
                     path = (if p = [] then ''/'' else p), param = q, mark = m\<rparr>)))
       (url_decode s)"

definition url_parseTail :: "string \<Rightarrow> url \<Rightarrow> (unit, 32 word \<times> url) outcome" where
  "url_parseTail s u =
     mapO (\<lambda>sUrl.
       case match_tail sUrl of
         None \<Rightarrow> (- 1, u)
       | Some (p, q, m) \<Rightarrow> (0, u\<lparr>path := (if p = [] then ''/'' else p), param := q, mark := m\<rparr>))
       (url_decode s)"

definition getPath :: "string \<Rightarrow> (unit, string) outcome" where
  "getPath s = mapO (\<lambda>(r, u). path u) (url_parseTail s new_url)"

section \<open>Decoding undoes encoding\<close>

text \<open>A reference encoder: the characters \<open>P\<close> selects are written as \<open>%XX\<close>.\<close>

definition hex_char :: "nat \<Rightarrow> char" where
  "hex_char d = (if d < 10 then char_of (48 + d) else char_of (55 + d))"

fun pct_encode :: "(char \<Rightarrow> bool) \<Rightarrow> string \<Rightarrow> string" where
  "pct_encode P [] = []"
| "pct_encode P (c # cs) =
     (if P c then CHR ''%'' # hex_char (chcode c div 16) # hex_char (chcode c mod 16) # pct_encode P cs
      else c # pct_encode P cs)"

lemma chcode_less: "chcode c < 256"
  by (simp add: chcode_def)

lemma chcode_char_of: "n < 256 \<Longrightarrow> chcode (char_of n) = n"
  by (simp add: chcode_def)

lemma char_of_chcode: "char_of (chcode c) = c" by (simp add: chcode_def)

lemma hexd_hex_char: "d < 16 \<Longrightarrow> hexd (hex_char d) = Some d"
  by (auto simp: hexd_def hex_char_def is_digit_def chcode_char_of)

lemma hex_char_plain:
  "d < 16 \<Longrightarrow> \<not> is_space (hex_char d) \<and> hex_char d \<noteq> CHR ''+'' \<and> hex_char d \<noteq> CHR ''-''"
proof -
  assume d: "d < 16"
  then have "48 \<le> chcode (hex_char d)" by (auto simp: hex_char_def chcode_char_of)
  moreover have "chcode (CHR ''+'') = 43" "chcode (CHR ''-'') = 45" by (simp_all add: chcode_def)
  ultimately show ?thesis by (auto simp: is_space_def)
qed

lemma hex_value_hex_char:
  "a < 16 \<Longrightarrow> b < 16 \<Longrightarrow> hex_value (hex_char a) (hex_char b) = Some (int (16 * a + b))"
  using hex_char_plain [of a] by (simp add: hex_value_def hexd_hex_char)

text \<open>
  percent decoding undoes percent encoding, for every string and every choice of the characters to
  escape that includes the percent and the plus sign.
\<close>

theorem url_decode_encode:
  assumes "P (CHR ''%'')" and "P (CHR ''+'')"
  shows "url_decode (pct_encode P s) = Ok s"
proof (induction s)
  case Nil
  then show ?case by simp
next
  case (Cons c s)
  show ?case
  proof (cases "P c")
    case True
    have "chcode c div 16 < 16" "chcode c mod 16 < 16" using chcode_less [of c] by auto
    then have "hex_value (hex_char (chcode c div 16)) (hex_char (chcode c mod 16)) = Some (int (chcode c))"
      by (simp add: hex_value_hex_char)
    moreover have "to_char (int (chcode c)) = c"
      using chcode_less [of c] by (simp add: to_char_def char_of_chcode)
    ultimately show ?thesis using True Cons by simp
  next
    case False
    with assms have "c \<noteq> CHR ''%''" "c \<noteq> CHR ''+''" by auto
    with False Cons show ?thesis by simp
  qed
qed

theorem url_decode_encode_witness:
  "url_decode (pct_encode (\<lambda>c. c = CHR ''%'' \<or> c = CHR ''+'' \<or> c = CHR ''/'') ''a+b/c%'') = Ok ''a+b/c%''"
  by (rule url_decode_encode) simp_all

section \<open>Parsing undoes formatting\<close>

lemma span_append:
  assumes "list_all P xs" and "ys = [] \<or> \<not> P (hd ys)"
  shows "takeWhile P (xs @ ys) = xs" and "dropWhile P (xs @ ys) = ys"
  using assms by (induction xs) (cases ys, auto)+

definition stable :: "string \<Rightarrow> bool" where
  "stable s \<longleftrightarrow> CHR ''%'' \<notin> set s \<and> CHR ''+'' \<notin> set s"

lemma url_decode_stable: "stable s \<Longrightarrow> url_decode s = Ok s"
  by (induction s) (auto simp: stable_def)

lemma dec_str_props: "dec_str n \<noteq> []" "list_all is_digit (dec_str n)"
proof -
  have d: "is_digit (digit_char k)" if "k < 10" for k
    using that by (simp add: is_digit_def digit_char_def chcode_char_of)
  show "dec_str n \<noteq> []" by (subst dec_str.simps) simp
  show "list_all is_digit (dec_str n)"
  proof (induction n rule: dec_str.induct)
    case (1 n)
    then show ?case by (subst dec_str.simps) (auto simp: d)
  qed
qed

lemma dec_val_append: "dec_val (s @ [c]) = 10 * dec_val s + (chcode c - 48)"
  by (simp add: dec_val_def)

lemma dec_val_dec_str: "dec_val (dec_str n) = n"
proof (induction n rule: dec_str.induct)
  case (1 n)
  show ?case
  proof (cases "n < 10")
    case True
    then show ?thesis by (subst dec_str.simps) (simp add: dec_val_def digit_char_def chcode_char_of)
  next
    case False
    with 1 have "dec_val (dec_str (n div 10)) = n div 10" by simp
    with False show ?thesis
      by (subst dec_str.simps) (simp add: dec_val_append digit_char_def chcode_char_of)
  qed
qed

lemma dec_str_length: "n < 10 ^ k \<Longrightarrow> 0 < k \<Longrightarrow> length (dec_str n) \<le> k"
proof (induction k arbitrary: n)
  case 0
  then show ?case by simp
next
  case (Suc k)
  show ?case
  proof (cases "n < 10")
    case True
    then show ?thesis by (subst dec_str.simps) simp
  next
    case False
    with Suc.prems have "0 < k" by (cases k) auto
    moreover have "n div 10 < 10 ^ k" using Suc.prems(1) by (simp add: div_less_iff_less_mult mult.commute)
    ultimately have "length (dec_str (n div 10)) \<le> k" using Suc.IH by blast
    with False show ?thesis by (subst dec_str.simps) simp
  qed
qed

lemma class_facts:
  "\<not> is_word (CHR '':'')" "\<not> is_word (CHR ''/'')" "\<not> is_word (CHR ''?'')" "\<not> is_word (CHR ''#'')"
  "\<not> is_host (CHR '':'')" "\<not> is_host (CHR ''/'')" "\<not> is_host (CHR ''?'')" "\<not> is_host (CHR ''#'')"
  "\<not> is_digit (CHR ''/'')" "\<not> is_digit (CHR ''?'')" "\<not> is_digit (CHR ''#'')"
  "\<not> is_path (CHR ''?'')" "\<not> is_path (CHR ''#'')" "\<not> is_param (CHR ''#'')" "is_path (CHR ''/'')"
  by (simp_all add: is_word_def is_digit_def is_host_def is_path_def is_param_def chcode_def)

definition tail_str :: "string \<Rightarrow> string \<Rightarrow> string \<Rightarrow> string" where
  "tail_str p q m = path_part p @ param_part q @ mark_part m"

lemma tail_start: "tail_str p q m = [] \<or> hd (tail_str p q m) \<in> {CHR ''/'', CHR ''?'', CHR ''#''}"
  by (auto simp: tail_str_def path_part_def param_part_def mark_part_def split: list.splits)

lemma match_tail_str:
  assumes "list_all is_path p" and "list_all is_param q" and "list_all is_mark m"
  shows "match_tail (tail_str p q m) = Some (path_part p, q, m)"
proof -
  have path: "scan_path (tail_str p q m) = (path_part p, param_part q @ mark_part m)"
  proof -
    have start: "param_part q @ mark_part m = [] \<or> \<not> is_path (hd (param_part q @ mark_part m))"
      by (auto simp: param_part_def mark_part_def class_facts)
    show ?thesis
    proof (cases p)
      case Nil
      have "param_part q @ mark_part m = [] \<or> hd (param_part q @ mark_part m) \<noteq> CHR ''/''"
        by (auto simp: param_part_def mark_part_def)
      with Nil show ?thesis
        by (cases "param_part q @ mark_part m") (auto simp: scan_path_def tail_str_def path_part_def)
    next
      case (Cons c cs)
      have all: "list_all is_path (tl (path_part p))"
        using assms(1) Cons by (auto simp: path_part_def)
      define x where "x = tl (path_part p)"
      have pp: "path_part p = CHR ''/'' # x" using Cons by (auto simp: path_part_def x_def)
      have t: "tail_str p q m = CHR ''/'' # (x @ (param_part q @ mark_part m))"
        by (simp add: tail_str_def pp)
      show ?thesis
        unfolding t pp using span_append [OF all [folded x_def] start] by (simp add: scan_path_def)
    qed
  qed
  have par: "scan_param (param_part q @ mark_part m) = (q, mark_part m)"
  proof -
    have "mark_part m = [] \<or> \<not> is_param (hd (mark_part m))"
      by (auto simp: mark_part_def class_facts)
    from span_append [OF assms(2) this] show ?thesis
      by (auto simp: scan_param_def param_part_def mark_part_def split: list.splits)
  qed
  have mk: "scan_mark (mark_part m) = Some m"
    using assms(3) by (auto simp: scan_mark_def mark_part_def split: list.splits)
  show ?thesis by (simp add: match_tail_def path par mk)
qed

text \<open>A URL without user information whose components stay within the parser's character classes.\<close>

definition url_ok :: "url \<Rightarrow> bool" where
  "url_ok u \<longleftrightarrow> list_all is_word (protocol u) \<and> user u = [] \<and> pass u = [] \<and>
     host u \<noteq> [] \<and> list_all is_host (host u) \<and> port u \<noteq> 0 \<and>
     list_all is_path (path u) \<and> list_all is_param (param u) \<and> list_all is_mark (mark u) \<and>
     stable (path u) \<and> stable (param u)"

lemma no_protocol:
  assumes "list_all is_host h" and "list_all is_digit d" and "d \<noteq> []"
  shows "scan_protocol (h @ CHR '':'' # d @ t) = ([], h @ CHR '':'' # d @ t)"
proof -
  have "take 3 (dropWhile is_word (h @ CHR '':'' # d @ t)) \<noteq> ''://''"
    using assms
  proof (induction h)
    case Nil
    then show ?case by (cases d) (auto simp: class_facts is_digit_def chcode_def)
  next
    case (Cons c h)
    then show ?case by (auto simp: is_host_def)
  qed
  then show ?thesis by (simp add: scan_protocol_def Let_def)
qed

lemma no_user:
  assumes "list_all is_host h" and "list_all is_digit d" and "d \<noteq> []"
    and t: "t = [] \<or> hd t \<in> {CHR ''/'', CHR ''?'', CHR ''#''}"
  shows "scan_user (h @ CHR '':'' # d @ t) = ([], [], h @ CHR '':'' # d @ t)"
proof -
  have w: "list_all is_word d" using assms(2) by (auto simp: list_all_iff is_word_def)
  have "t = [] \<or> \<not> is_word (hd t)" using t by (auto simp: class_facts)
  note sp = span_append [OF w this]
  have at: "take 1 t \<noteq> ''@''" using t by (cases t) auto
  have "dropWhile is_word (h @ CHR '':'' # d @ t) = CHR '':'' # d @ t \<or>
      hd (dropWhile is_word (h @ CHR '':'' # d @ t)) \<in> {CHR ''.'', CHR ''-''}"
    using assms(1) by (induction h) (auto simp: class_facts is_host_def)
  moreover have "take 1 xs \<noteq> ''@'' \<and> take 1 xs \<noteq> '':''" if "hd xs \<in> {CHR ''.'', CHR ''-''}" for xs :: string
    using that by (cases xs) auto
  ultimately have "dropWhile is_word (h @ CHR '':'' # d @ t) = CHR '':'' # d @ t \<or>
      take 1 (dropWhile is_word (h @ CHR '':'' # d @ t)) \<noteq> ''@'' \<and>
      take 1 (dropWhile is_word (h @ CHR '':'' # d @ t)) \<noteq> '':''" by blast
  with sp at show ?thesis by (auto simp: scan_user_def Let_def)
qed

text \<open>
  parsing undoes formatting.  For a URL without user information, whose parts use the characters
  the parser's classes allow and with a non-zero port, \<open>parse\<close> applied to what \<open>format\<close> writes
  succeeds with the same parts; an empty path reads back as \<open>/\<close>, a missing leading slash is added.
\<close>

theorem url_parse_format:
  assumes "url_ok u"
  shows "url_parse (fst (url_format u)) v =
    Ok (0, u\<lparr>path := (if path u = [] then ''/'' else path_part (path u))\<rparr>)"
proof -
  let ?d = "dec_str (unat (port u))" and ?t = "tail_str (path u) (param u) (mark u)"
  let ?rest = "host u @ CHR '':'' # ?d @ ?t"
  let ?pre = "if protocol u = [] then [] else protocol u @ ''://''"
  have u: "list_all is_word (protocol u)" "user u = []" "pass u = []" "host u \<noteq> []" "list_all is_host (host u)"
      "port u \<noteq> 0" "list_all is_path (path u)" "list_all is_param (param u)" "list_all is_mark (mark u)"
      "stable (path u)" "stable (param u)"
    using assms by (simp_all add: url_ok_def)
  have fmt: "fst (url_format u) = ?pre @ ?rest"
    using u by (simp add: url_format_def tail_str_def Let_def)
  have st: "stable (fst (url_format u))"
  proof -
    have "\<not> is_word (CHR ''%'')" "\<not> is_word (CHR ''+'')" "\<not> is_host (CHR ''%'')" "\<not> is_host (CHR ''+'')"
      "\<not> is_digit (CHR ''%'')" "\<not> is_digit (CHR ''+'')" "\<not> is_mark (CHR ''%'')" "\<not> is_mark (CHR ''+'')"
      by (simp_all add: is_word_def is_host_def is_digit_def is_mark_def chcode_def)
    moreover have "x \<notin> set xs" if "list_all P xs" "\<not> P x" for P and x :: char and xs
      using that by (auto simp: list_all_iff)
    ultimately have "stable (protocol u)" "stable (host u)" "stable ?d" "stable (mark u)"
      using u dec_str_props [of "unat (port u)"] unfolding stable_def by blast+
    with u(10,11) show ?thesis unfolding fmt
      by (auto simp: stable_def tail_str_def path_part_def param_part_def mark_part_def split: list.splits if_splits)
  qed
  note d = dec_str_props [of "unat (port u)"]
  have proto: "scan_protocol (?pre @ ?rest) = (protocol u, ?rest)"
  proof (cases "protocol u = []")
    case True
    with no_protocol [OF u(5) d(2,1)] show ?thesis by simp
  next
    case False
    have sp: "''://'' @ ?rest = [] \<or> \<not> is_word (hd (''://'' @ ?rest))" by (simp add: class_facts)
    from False span_append [OF u(1) sp] show ?thesis by (simp add: scan_protocol_def Let_def)
  qed
  have usr: "scan_user ?rest = ([], [], ?rest)"
    by (rule no_user [OF u(5) d(2,1) tail_start])
  have hs: "takeWhile is_host ?rest = host u" "dropWhile is_host ?rest = CHR '':'' # ?d @ ?t"
    using span_append [OF u(5), of "CHR '':'' # ?d @ ?t"] by (simp_all add: class_facts)
  have "?t = [] \<or> \<not> is_digit (hd ?t)" using tail_start [of "path u" "param u" "mark u"] by (auto simp: class_facts)
  note dd = span_append [OF d(2) this]
  have "unat (port u) < 2 ^ LENGTH(16)" by (rule unsigned_less)
  then have "unat (port u) < 10 ^ 5" by simp
  then have len: "length ?d \<le> 5" "1 \<le> length ?d" using dec_str_length [of "unat (port u)" 5] d(1) by (auto simp: Suc_le_eq)
  have prt: "scan_port (CHR '':'' # ?d @ ?t) = Some (?d, ?t)"
    using dd len by (simp add: scan_port_def Let_def)
  have val: "(of_nat (dec_val ?d) :: u16) = port u" by (simp add: dec_val_dec_str)
  show ?thesis
    unfolding url_parse_def url_decode_stable [OF st] unfolding fmt
    using proto usr hs prt match_tail_str [OF u(7-9)] u(2-4) d(1) val
    by (simp add: Let_def) (auto simp: path_part_def split: list.splits)
qed

definition sample_url :: url where
  "sample_url = \<lparr>protocol = ''http'', user = [], pass = [], host = ''a-1.org'', port = 8080, path = ''x/y'',
     param = ''k=v:w'', mark = ''top''\<rparr>"

theorem url_parse_format_witness:
  "url_parse (fst (url_format sample_url)) new_url = Ok (0, sample_url\<lparr>path := ''/x/y''\<rparr>)"
proof -
  have ok: "url_ok sample_url"
    by (simp add: sample_url_def url_ok_def is_word_def is_digit_def is_host_def is_path_def is_param_def
        is_mark_def stable_def chcode_def)
  show ?thesis using url_parse_format [OF ok, of new_url] by (simp add: sample_url_def path_part_def)
qed

text \<open>
  \<open>format\<close> loses the user information.  The text it returns is the one of the URL without user and
  password, and the object's \<open>user\<close> is overwritten with itself doubled, the password and an at sign,
  so that every further call makes it longer.
\<close>

theorem format_loses_user:
  assumes "host u \<noteq> []" and "user u \<noteq> []"
  shows "fst (url_format u) = fst (url_format (u\<lparr>user := [], pass := []\<rparr>)) \<and>
    user (snd (url_format u)) = user u @ user u @ (if pass u = [] then [] else '':'' @ pass u) @ ''@''"
  using assms by (simp add: url_format_def Let_def)

theorem format_loses_user_witness:
  "fst (url_format (sample_url\<lparr>user := ''me'', pass := ''pw''\<rparr>)) =
     fst (url_format (sample_url\<lparr>user := ''me'', pass := ''pw''\<rparr>\<lparr>user := [], pass := []\<rparr>)) \<and>
   user (snd (url_format (sample_url\<lparr>user := ''me'', pass := ''pw''\<rparr>))) =
     user (sample_url\<lparr>user := ''me'', pass := ''pw''\<rparr>) @ user (sample_url\<lparr>user := ''me'', pass := ''pw''\<rparr>) @
     (if pass (sample_url\<lparr>user := ''me'', pass := ''pw''\<rparr>) = [] then []
      else '':'' @ pass (sample_url\<lparr>user := ''me'', pass := ''pw''\<rparr>)) @ ''@''"
  by (rule format_loses_user) (simp_all add: sample_url_def)

text \<open>
  port numbers are not checked: a five-digit port from 65536 on is accepted and wraps around.
\<close>

theorem url_port_wraps:
  assumes "h \<noteq> []" and "list_all is_host h" and "65536 \<le> n" and "n < 100000"
  shows "\<exists>u. url_parse (h @ CHR '':'' # dec_str n) v = Ok (0, u) \<and> host u = h \<and> unat (port u) = n - 65536"
proof -
  note d = dec_str_props [of n]
  have nw: "\<not> is_word (CHR ''%'')" "\<not> is_word (CHR ''+'')" "\<not> is_host (CHR ''%'')" "\<not> is_host (CHR ''+'')"
    "\<not> is_digit (CHR ''%'')" "\<not> is_digit (CHR ''+'')"
    by (simp_all add: is_word_def is_host_def is_digit_def chcode_def)
  have st: "stable (h @ CHR '':'' # dec_str n)"
    using assms(2) d(2) nw unfolding stable_def list_all_iff by auto
  have proto: "scan_protocol (h @ CHR '':'' # dec_str n) = ([], h @ CHR '':'' # dec_str n)"
    using no_protocol [OF assms(2) d(2,1), of "[]"] by simp
  have usr: "scan_user (h @ CHR '':'' # dec_str n) = ([], [], h @ CHR '':'' # dec_str n)"
    using no_user [OF assms(2) d(2,1), of "[]"] by simp
  have hs: "takeWhile is_host (h @ CHR '':'' # dec_str n) = h"
    "dropWhile is_host (h @ CHR '':'' # dec_str n) = CHR '':'' # dec_str n"
    using span_append [OF assms(2), of "CHR '':'' # dec_str n"] by (simp_all add: class_facts)
  have dd: "takeWhile is_digit (dec_str n) = dec_str n" "dropWhile is_digit (dec_str n) = []"
    using span_append [OF d(2), of "[]"] by simp_all
  have len: "length (dec_str n) \<le> 5" "1 \<le> length (dec_str n)"
    using dec_str_length [of n 5] assms(4) d(1) by (auto simp: Suc_le_eq)
  have prt: "scan_port (CHR '':'' # dec_str n) = Some (dec_str n, [])"
    using len by (simp add: scan_port_def Let_def dd)
  have mt: "match_tail [] = Some ([], [], [])"
    by (simp add: match_tail_def scan_path_def scan_param_def scan_mark_def)
  have "n mod 65536 = n - 65536" using assms(3,4) by (simp add: le_mod_geq)
  then have "unat (of_nat n :: u16) = n - 65536" by (simp add: unat_of_nat)
  then show ?thesis
    unfolding url_parse_def url_decode_stable [OF st]
    using assms(1) d(1) by (simp add: Let_def dec_val_dec_str proto usr hs prt mt)
qed

theorem url_port_wraps_witness:
  "\<exists>u. url_parse (''abc'' @ CHR '':'' # dec_str 70000) new_url = Ok (0, u) \<and> host u = ''abc'' \<and>
    unat (port u) = 70000 - 65536"
  by (rule url_port_wraps) (simp_all add: is_host_def is_word_def chcode_def)

end
