(* ===== verification/Ys_HttpTypes.thy ===== *)
theory Ys_HttpTypes
  imports Ys_Url
begin

text \<open>
  The data of \<open>isaac/ys_http_parser_ex.h\<close>: the enumerations of the HTTP parser (method, status,
  parser type, flags, states and header states), its character tables, and \<open>struct http_parser\<close>.
\<close>

section \<open>Enumerations\<close>

datatype (plugins only: code) http_method =
    HTTP_DELETE | HTTP_GET | HTTP_HEAD | HTTP_POST | HTTP_PUT | HTTP_CONNECT | HTTP_OPTIONS
  | HTTP_TRACE | HTTP_COPY | HTTP_LOCK | HTTP_MKCOL | HTTP_MOVE | HTTP_PROPFIND | HTTP_PROPPATCH
  | HTTP_SEARCH | HTTP_UNLOCK | HTTP_BIND | HTTP_REBIND | HTTP_UNBIND | HTTP_ACL | HTTP_REPORT
  | HTTP_MKACTIVITY | HTTP_CHECKOUT | HTTP_MERGE | HTTP_MSEARCH | HTTP_NOTIFY | HTTP_SUBSCRIBE
  | HTTP_UNSUBSCRIBE | HTTP_PATCH | HTTP_PURGE | HTTP_MKCALENDAR | HTTP_LINK | HTTP_UNLINK
  | HTTP_SOURCE

datatype http_parser_type = HTTP_REQUEST | HTTP_RESPONSE | HTTP_BOTH

text \<open>The bits of the field \<open>flags\<close>; the field is the set of the bits that are on.\<close>

datatype http_flag =
    F_CHUNKED | F_CONNECTION_KEEP_ALIVE | F_CONNECTION_CLOSE | F_CONNECTION_UPGRADE | F_TRAILING
  | F_UPGRADE | F_SKIPBODY | F_CONTENTLENGTH

datatype (plugins only: code) http_errno =
    HPE_OK | HPE_CB_message_begin | HPE_CB_url | HPE_CB_header_field | HPE_CB_header_value
  | HPE_CB_headers_complete | HPE_CB_body | HPE_CB_message_complete | HPE_CB_status
  | HPE_CB_chunk_header | HPE_CB_chunk_complete | HPE_INVALID_EOF_STATE | HPE_HEADER_OVERFLOW
  | HPE_CLOSED_CONNECTION | HPE_INVALID_VERSION | HPE_INVALID_STATUS | HPE_INVALID_METHOD
  | HPE_INVALID_URL | HPE_INVALID_HOST | HPE_INVALID_PORT | HPE_INVALID_PATH
  | HPE_INVALID_QUERY_STRING | HPE_INVALID_FRAGMENT | HPE_LF_EXPECTED | HPE_INVALID_HEADER_TOKEN
  | HPE_INVALID_CONTENT_LENGTH | HPE_UNEXPECTED_CONTENT_LENGTH | HPE_INVALID_CHUNK_SIZE
  | HPE_INVALID_CONSTANT | HPE_INVALID_INTERNAL_STATE | HPE_STRICT | HPE_PAUSED | HPE_UNKNOWN
  | HPE_INVALID_TRANSFER_ENCODING

datatype (plugins only: code) http_state =
    s_dead | s_start_req_or_res | s_res_or_resp_H | s_start_res | s_res_H | s_res_HT | s_res_HTT
  | s_res_HTTP | s_res_http_major | s_res_http_dot | s_res_http_minor | s_res_http_end
  | s_res_first_status_code | s_res_status_code | s_res_status_start | s_res_status
  | s_res_line_almost_done | s_start_req | s_req_method | s_req_spaces_before_url | s_req_schema
  | s_req_schema_slash | s_req_schema_slash_slash | s_req_server_start | s_req_server
  | s_req_server_with_at | s_req_path | s_req_query_string_start | s_req_query_string
  | s_req_fragment_start | s_req_fragment | s_req_http_start | s_req_http_H | s_req_http_HT
  | s_req_http_HTT | s_req_http_HTTP | s_req_http_I | s_req_http_IC | s_req_http_major
  | s_req_http_dot | s_req_http_minor | s_req_http_end | s_req_line_almost_done
  | s_header_field_start | s_header_field | s_header_value_discard_ws
  | s_header_value_discard_ws_almost_done | s_header_value_discard_lws | s_header_value_start
  | s_header_value | s_header_value_lws | s_header_almost_done | s_chunk_size_start | s_chunk_size
  | s_chunk_parameters | s_chunk_size_almost_done | s_headers_almost_done | s_headers_done
  | s_chunk_data | s_chunk_data_almost_done | s_chunk_data_done | s_body_identity
  | s_body_identity_eof | s_message_done

datatype (plugins only: code) header_state =
    h_general | h_C | h_CO | h_CON | h_matching_connection | h_matching_proxy_connection
  | h_matching_content_length | h_matching_transfer_encoding | h_matching_upgrade | h_connection
  | h_content_length | h_content_length_num | h_content_length_ws | h_transfer_encoding | h_upgrade
  | h_matching_transfer_encoding_token_start | h_matching_transfer_encoding_chunked
  | h_matching_transfer_encoding_token | h_matching_connection_token_start
  | h_matching_connection_keep_alive | h_matching_connection_close | h_matching_connection_upgrade
  | h_matching_connection_token | h_transfer_encoding_chunked | h_connection_keep_alive
  | h_connection_close | h_connection_upgrade

section \<open>Names of methods and states\<close>

text \<open>
  The macro writes the third argument of each entry of \<open>HTTP_METHOD_MAP\<close> and \<open>HTTP_STATUS_MAP\<close> as a
  string; where the argument holds a dash, its two blanks are part of the string.
\<close>

fun method_str :: "http_method \<Rightarrow> string" where
  "method_str HTTP_DELETE = ''DELETE''"
| "method_str HTTP_GET = ''GET''"
| "method_str HTTP_HEAD = ''HEAD''"
| "method_str HTTP_POST = ''POST''"
| "method_str HTTP_PUT = ''PUT''"
| "method_str HTTP_CONNECT = ''CONNECT''"
| "method_str HTTP_OPTIONS = ''OPTIONS''"
| "method_str HTTP_TRACE = ''TRACE''"
| "method_str HTTP_COPY = ''COPY''"
| "method_str HTTP_LOCK = ''LOCK''"
| "method_str HTTP_MKCOL = ''MKCOL''"
| "method_str HTTP_MOVE = ''MOVE''"
| "method_str HTTP_PROPFIND = ''PROPFIND''"
| "method_str HTTP_PROPPATCH = ''PROPPATCH''"
| "method_str HTTP_SEARCH = ''SEARCH''"
| "method_str HTTP_UNLOCK = ''UNLOCK''"
| "method_str HTTP_BIND = ''BIND''"
| "method_str HTTP_REBIND = ''REBIND''"
| "method_str HTTP_UNBIND = ''UNBIND''"
| "method_str HTTP_ACL = ''ACL''"
| "method_str HTTP_REPORT = ''REPORT''"
| "method_str HTTP_MKACTIVITY = ''MKACTIVITY''"
| "method_str HTTP_CHECKOUT = ''CHECKOUT''"
| "method_str HTTP_MERGE = ''MERGE''"
| "method_str HTTP_MSEARCH = ''M - SEARCH''"
| "method_str HTTP_NOTIFY = ''NOTIFY''"
| "method_str HTTP_SUBSCRIBE = ''SUBSCRIBE''"
| "method_str HTTP_UNSUBSCRIBE = ''UNSUBSCRIBE''"
| "method_str HTTP_PATCH = ''PATCH''"
| "method_str HTTP_PURGE = ''PURGE''"
| "method_str HTTP_MKCALENDAR = ''MKCALENDAR''"
| "method_str HTTP_LINK = ''LINK''"
| "method_str HTTP_UNLINK = ''UNLINK''"
| "method_str HTTP_SOURCE = ''SOURCE''"

definition status_map :: "(nat \<times> string) list" where
  "status_map =
    [(100, ''Continue''),
     (101, ''Switching Protocols''),
     (102, ''Processing''),
     (200, ''OK''),
     (201, ''Created''),
     (202, ''Accepted''),
     (203, ''Non - Authoritative Information''),
     (204, ''No Content''),
     (205, ''Reset Content''),
     (206, ''Partial Content''),
     (207, ''Multi - Status''),
     (208, ''Already Reported''),
     (226, ''IM Used''),
     (300, ''Multiple Choices''),
     (301, ''Moved Permanently''),
     (302, ''Found''),
     (303, ''See Other''),
     (304, ''Not Modified''),
     (305, ''Use Proxy''),
     (307, ''Temporary Redirect''),
     (308, ''Permanent Redirect''),
     (400, ''Bad Request''),
     (401, ''Unauthorized''),
     (402, ''Payment Required''),
     (403, ''Forbidden''),
     (404, ''Not Found''),
     (405, ''Method Not Allowed''),
     (406, ''Not Acceptable''),
     (407, ''Proxy Authentication Required''),
     (408, ''Request Timeout''),
     (409, ''Conflict''),
     (410, ''Gone''),
     (411, ''Length Required''),
     (412, ''Precondition Failed''),
     (413, ''Payload Too Large''),
     (414, ''URI Too Long''),
     (415, ''Unsupported Media Type''),
     (416, ''Range Not Satisfiable''),
     (417, ''Expectation Failed''),
     (421, ''Misdirected Request''),
     (422, ''Unprocessable Entity''),
     (423, ''Locked''),
     (424, ''Failed Dependency''),
     (426, ''Upgrade Required''),
     (428, ''Precondition Required''),
     (429, ''Too Many Requests''),
     (431, ''Request Header Fields Too Large''),
     (451, ''Unavailable For Legal Reasons''),
     (500, ''Internal Server Error''),
     (501, ''Not Implemented''),
     (502, ''Bad Gateway''),
     (503, ''Service Unavailable''),
     (504, ''Gateway Timeout''),
     (505, ''HTTP Version Not Supported''),
     (506, ''Variant Also Negotiates''),
     (507, ''Insufficient Storage''),
     (508, ''Loop Detected''),
     (510, ''Not Extended''),
     (511, ''Network Authentication Required'')]"

definition http_status_str :: "nat \<Rightarrow> string" where
  "http_status_str n = (case map_of status_map n of Some t \<Rightarrow> t | None \<Rightarrow> ''<unknown>'')"

section \<open>Character tables\<close>

text \<open>
  \<open>get_tokens\<close>: the character a header name is compared with, 0 for a character that is no token.  The
  initialiser has 128 entries; C fills the other 128 with 0.
\<close>

definition tokens :: "nat list" where
  "tokens =
    [0, 0, 0, 0, 0, 0, 0, 0, 0, 0, 0, 0, 0, 0, 0, 0,
     0, 0, 0, 0, 0, 0, 0, 0, 0, 0, 0, 0, 0, 0, 0, 0,
     32, 33, 0, 35, 36, 37, 38, 39, 0, 0, 42, 43, 0, 45, 46, 0,
     48, 49, 50, 51, 52, 53, 54, 55, 56, 57, 0, 0, 0, 0, 0, 0,
     0, 97, 98, 99, 100, 101, 102, 103, 104, 105, 106, 107, 108, 109, 110, 111,
     112, 113, 114, 115, 116, 117, 118, 119, 120, 121, 122, 0, 0, 0, 94, 95,
     96, 97, 98, 99, 100, 101, 102, 103, 104, 105, 106, 107, 108, 109, 110, 111,
     112, 113, 114, 115, 116, 117, 118, 119, 120, 121, 122, 0, 124, 0, 126, 0]"

definition STRICT_TOKEN :: "char \<Rightarrow> nat" where
  "STRICT_TOKEN c = (if c = CHR '' '' then 0 else if chcode c < 128 then tokens ! chcode c else 0)"

text \<open>
  \<open>get_unhex\<close>: here too the table of 256 entries has an initialiser of 128, so that every character
  from 128 on has the value 0, not -1.
\<close>

definition unhex :: "char \<Rightarrow> nat option" where
  "unhex c = (if chcode c < 128 then hexd c else Some 0)"

text \<open>\<open>get_normal_url_char\<close>, a bit map, in the strict mode the file switches on.\<close>

definition normal_url_char :: "nat list" where
  "normal_url_char = [0, 0, 0, 0, 246, 255, 255, 127, 255, 255, 255, 255, 255, 255, 255, 127]"

definition IS_URL_CHAR :: "char \<Rightarrow> bool" where
  "IS_URL_CHAR c \<longleftrightarrow> chcode c < 128 \<and> odd (normal_url_char ! (chcode c div 8) div 2 ^ (chcode c mod 8))"

definition LOWER :: "char \<Rightarrow> nat" where "LOWER c = (chcode c) OR 32"

definition IS_ALPHA :: "char \<Rightarrow> bool" where "IS_ALPHA c \<longleftrightarrow> 97 \<le> LOWER c \<and> LOWER c \<le> 122"

definition IS_ALPHANUM :: "char \<Rightarrow> bool" where "IS_ALPHANUM c \<longleftrightarrow> IS_ALPHA c \<or> is_digit c"

definition IS_MARK :: "char \<Rightarrow> bool" where
  "IS_MARK c \<longleftrightarrow> c \<in> set ''-_.!~*()'' \<or> chcode c = 39"

definition IS_USERINFO_CHAR :: "char \<Rightarrow> bool" where
  "IS_USERINFO_CHAR c \<longleftrightarrow> IS_ALPHANUM c \<or> IS_MARK c \<or> c \<in> set ''%;:&=+$,''"

abbreviation CR :: char where "CR \<equiv> CHR 0x0D"
abbreviation LF :: char where "LF \<equiv> CHR 0x0A"
abbreviation HTAB :: char where "HTAB \<equiv> CHR 0x09"

definition IS_HEADER_CHAR :: "char \<Rightarrow> bool" where
  "IS_HEADER_CHAR c \<longleftrightarrow> c = CR \<or> c = LF \<or> c = HTAB \<or> (31 < chcode c \<and> chcode c \<noteq> 127)"

text \<open>A C string read at an index: the terminating 0 follows the last character.\<close>

definition lit_at :: "string \<Rightarrow> nat \<Rightarrow> nat" where
  "lit_at s i = (if i < length s then chcode (s ! i) else 0)"

section \<open>The parser\<close>

text \<open>
  \<open>struct http_parser\<close>: \<open>p_te\<close> is the one bit of \<open>extra_flags\<close> in use, \<open>p_index\<close> has five bits in the
  source.  \<open>p_nread\<close> and \<open>p_state\<close> also stand for the local copies \<open>nread\<close> and \<open>p_state\<close> of a call.
\<close>

record http_parser =
  p_type :: http_parser_type
  p_flags :: "http_flag set"
  p_state :: http_state
  p_hstate :: header_state
  p_index :: nat
  p_te :: bool
  p_lenient :: bool
  p_nread :: u32
  p_clen :: u64
  p_major :: nat
  p_minor :: nat
  p_status :: u16
  p_method :: http_method
  p_errno :: http_errno
  p_upgrade :: bool

definition http_parser_init :: "http_parser_type \<Rightarrow> http_parser" where
  "http_parser_init t =
     \<lparr>p_type = t, p_flags = {},
      p_state = (if t = HTTP_REQUEST then s_start_req else if t = HTTP_RESPONSE then s_start_res
                 else s_start_req_or_res),
      p_hstate = h_general, p_index = 0, p_te = False, p_lenient = False, p_nread = 0, p_clen = 0,
      p_major = 0, p_minor = 0, p_status = 0, p_method = HTTP_DELETE, p_errno = HPE_OK,
      p_upgrade = False\<rparr>"

text \<open>The callbacks of \<open>http_parser_settings\<close> that \<open>ys_http_parser.h\<close> sets; each of them returns 0.\<close>

datatype http_cb =
    on_message_begin | on_url string | on_status string | on_header_field string
  | on_header_value string | on_headers_complete | on_body string | on_message_complete

text \<open>
  The locals of a call of \<open>http_parser_execute\<close>: \<open>x_pos\<close> is \<open>p - data\<close>, the marks are the offsets of
  pointers into the data, \<open>x_cb\<close> the callbacks made so far.
\<close>

record http_exec = http_parser +
  x_pos :: nat
  url_mark :: "nat option"
  status_mark :: "nat option"
  header_field_mark :: "nat option"
  header_value_mark :: "nat option"
  body_mark :: "nat option"
  x_cb :: "http_cb list"

end
