(* ===== verification/Ys_HttpExec.thy ===== *)
theory Ys_HttpExec
  imports Ys_HttpTypes
begin

text \<open>
  \<open>HttpParser::http_parser_execute\<close> of \<open>isaac/ys_http_parser_ex.h\<close>: one definition per group of
  \<open>case\<close> labels of its \<open>switch\<close>, the loops over header names and header values, and the loop over
  the data.  The parser runs with the callbacks of \<open>ys_http_parser.h\<close>, each of which returns 0; the
  callbacks \<open>on_chunk_header\<close> and \<open>on_chunk_complete\<close> are null there.
\<close>

section \<open>Control flow\<close>

text \<open>
  How a \<open>case\<close> is left: \<open>Next\<close> goes on with the next character, \<open>Again\<close> is \<open>REEXECUTE()\<close>, \<open>Return\<close> leaves
  the function with a number of characters consumed, \<open>Abort\<close> is a failed assertion.
\<close>

datatype ctl = Next http_exec | Again http_exec | Return http_exec nat | Abort

definition fail :: "http_errno \<Rightarrow> http_exec \<Rightarrow> ctl" where
  "fail e s = Return (s\<lparr>p_errno := e\<rparr>) (x_pos s)"

definition max_header_size :: nat where "max_header_size = 80 * 1024"

definition count_header :: "nat \<Rightarrow> http_exec \<Rightarrow> (http_exec \<Rightarrow> ctl) \<Rightarrow> ctl" where
  "count_header n s k =
     (let s' = s\<lparr>p_nread := p_nread s + of_nat n\<rparr>
      in if of_nat max_header_size < p_nread s' then fail HPE_HEADER_OVERFLOW s' else k s')"

definition goto :: "http_state \<Rightarrow> http_exec \<Rightarrow> ctl" where "goto t s = Next (s\<lparr>p_state := t\<rparr>)"

definition again :: "http_state \<Rightarrow> http_exec \<Rightarrow> ctl" where "again t s = Again (s\<lparr>p_state := t\<rparr>)"

definition notify :: "http_cb \<Rightarrow> http_exec \<Rightarrow> http_exec" where
  "notify cb s = s\<lparr>x_cb := x_cb s @ [cb]\<rparr>"

definition mark_at :: "nat option \<Rightarrow> nat \<Rightarrow> nat option" where
  "mark_at m p = (case m of None \<Rightarrow> Some p | Some q \<Rightarrow> Some q)"

definition slice :: "string \<Rightarrow> nat \<Rightarrow> nat \<Rightarrow> string" where "slice d m p = take (p - m) (drop m d)"

text \<open>\<open>CALLBACK_DATA\<close>: a token runs from its mark to the position \<open>p\<close>.\<close>

definition data_url :: "string \<Rightarrow> nat \<Rightarrow> http_exec \<Rightarrow> http_exec" where
  "data_url d p s = (case url_mark s of None \<Rightarrow> s
     | Some m \<Rightarrow> notify (on_url (slice d m p)) (s\<lparr>url_mark := None\<rparr>))"

definition data_status :: "string \<Rightarrow> nat \<Rightarrow> http_exec \<Rightarrow> http_exec" where
  "data_status d p s = (case status_mark s of None \<Rightarrow> s
     | Some m \<Rightarrow> notify (on_status (slice d m p)) (s\<lparr>status_mark := None\<rparr>))"

definition data_header_field :: "string \<Rightarrow> nat \<Rightarrow> http_exec \<Rightarrow> http_exec" where
  "data_header_field d p s = (case header_field_mark s of None \<Rightarrow> s
     | Some m \<Rightarrow> notify (on_header_field (slice d m p)) (s\<lparr>header_field_mark := None\<rparr>))"

definition data_header_value :: "string \<Rightarrow> nat \<Rightarrow> http_exec \<Rightarrow> http_exec" where
  "data_header_value d p s = (case header_value_mark s of None \<Rightarrow> s
     | Some m \<Rightarrow> notify (on_header_value (slice d m p)) (s\<lparr>header_value_mark := None\<rparr>))"

definition data_body :: "string \<Rightarrow> nat \<Rightarrow> http_exec \<Rightarrow> http_exec" where
  "data_body d p s = (case body_mark s of None \<Rightarrow> s
     | Some m \<Rightarrow> notify (on_body (slice d m p)) (s\<lparr>body_mark := None\<rparr>))"

text \<open>\<open>PARSING_HEADER\<close>: the states up to \<open>s_headers_done\<close>.\<close>

definition PARSING_HEADER :: "http_state \<Rightarrow> bool" where
  "PARSING_HEADER t \<longleftrightarrow> t \<notin> {s_chunk_data, s_chunk_data_almost_done, s_chunk_data_done,
     s_body_identity, s_body_identity_eof, s_message_done}"

definition idx_inc :: "http_exec \<Rightarrow> http_exec" where
  "idx_inc s = s\<lparr>p_index := (p_index s + 1) mod 32\<rparr>"

definition needs_eof :: "'a http_parser_scheme \<Rightarrow> bool" where
  "needs_eof s =
     (if p_type s = HTTP_REQUEST then False
      else if p_status s div 100 = 1 \<or> p_status s = 204 \<or> p_status s = 304 \<or> F_SKIPBODY \<in> p_flags s
        then False
      else if p_te s \<and> F_CHUNKED \<notin> p_flags s then True
      else if F_CHUNKED \<in> p_flags s \<or> p_clen s \<noteq> - 1 then False
      else True)"

definition should_keep_alive :: "'a http_parser_scheme \<Rightarrow> bool" where
  "should_keep_alive s =
     (if 0 < p_major s \<and> 0 < p_minor s
      then (if F_CONNECTION_CLOSE \<in> p_flags s then False else \<not> needs_eof s)
      else (if F_CONNECTION_KEEP_ALIVE \<notin> p_flags s then False else \<not> needs_eof s))"

definition NEW_MESSAGE :: "'a http_parser_scheme \<Rightarrow> http_state" where
  "NEW_MESSAGE s =
     (if should_keep_alive s then (if p_type s = HTTP_REQUEST then s_start_req else s_start_res)
      else s_dead)"

section \<open>URLs\<close>

definition parse_url_char :: "http_state \<Rightarrow> char \<Rightarrow> http_state" where
  "parse_url_char s ch =
     (let server = (if ch = CHR ''/'' then s_req_path
            else if ch = CHR ''?'' then s_req_query_string_start
            else if ch = CHR ''@'' then s_req_server_with_at
            else if IS_USERINFO_CHAR ch \<or> ch = CHR ''['' \<or> ch = CHR '']'' then s_req_server
            else s_dead)
      in
      if ch = CHR '' '' \<or> ch = CR \<or> ch = LF \<or> ch = HTAB \<or> ch = CHR 0x0C then s_dead
      else case s of
        s_req_spaces_before_url \<Rightarrow>
          (if ch = CHR ''/'' \<or> ch = CHR ''*'' then s_req_path
           else if IS_ALPHA ch then s_req_schema else s_dead)
      | s_req_schema \<Rightarrow> (if IS_ALPHA ch then s else if ch = CHR '':'' then s_req_schema_slash else s_dead)
      | s_req_schema_slash \<Rightarrow> (if ch = CHR ''/'' then s_req_schema_slash_slash else s_dead)
      | s_req_schema_slash_slash \<Rightarrow> (if ch = CHR ''/'' then s_req_server_start else s_dead)
      | s_req_server_with_at \<Rightarrow> (if ch = CHR ''@'' then s_dead else server)
      | s_req_server_start \<Rightarrow> server
      | s_req_server \<Rightarrow> server
      | s_req_path \<Rightarrow>
          (if IS_URL_CHAR ch then s
           else if ch = CHR ''?'' then s_req_query_string_start
           else if ch = CHR ''#'' then s_req_fragment_start else s_dead)
      | s_req_query_string_start \<Rightarrow>
          (if IS_URL_CHAR ch then s_req_query_string
           else if ch = CHR ''?'' then s_req_query_string
           else if ch = CHR ''#'' then s_req_fragment_start else s_dead)
      | s_req_query_string \<Rightarrow>
          (if IS_URL_CHAR ch then s_req_query_string
           else if ch = CHR ''?'' then s_req_query_string
           else if ch = CHR ''#'' then s_req_fragment_start else s_dead)
      | s_req_fragment_start \<Rightarrow>
          (if IS_URL_CHAR ch then s_req_fragment
           else if ch = CHR ''?'' then s_req_fragment
           else if ch = CHR ''#'' then s else s_dead)
      | s_req_fragment \<Rightarrow>
          (if IS_URL_CHAR ch then s
           else if ch = CHR ''?'' \<or> ch = CHR ''#'' then s else s_dead)
      | _ \<Rightarrow> s_dead)"

definition url_states :: "http_state set" where
  "url_states = {s_req_path, s_req_schema, s_req_schema_slash, s_req_schema_slash_slash,
     s_req_server_start, s_req_server, s_req_server_with_at, s_req_query_string_start,
     s_req_query_string, s_req_fragment_start, s_req_fragment}"

definition url_step :: "char \<Rightarrow> http_exec \<Rightarrow> ctl" where
  "url_step ch s =
     (let t = parse_url_char (p_state s) ch
      in if t = s_dead then fail HPE_INVALID_URL (s\<lparr>p_state := t\<rparr>) else goto t s)"

text \<open>The first states of a URL, in which no white space may follow.\<close>

definition step_url_start :: "char \<Rightarrow> http_exec \<Rightarrow> ctl" where
  "step_url_start ch s =
     (if ch = CHR '' '' \<or> ch = CR \<or> ch = LF then fail HPE_INVALID_URL s else url_step ch s)"

definition step_url :: "string \<Rightarrow> char \<Rightarrow> http_exec \<Rightarrow> ctl" where
  "step_url d ch s =
     (if ch = CHR '' '' then Next (data_url d (x_pos s) (s\<lparr>p_state := s_req_http_start\<rparr>))
      else if ch = CR \<or> ch = LF
        then Next (data_url d (x_pos s) (s\<lparr>p_major := 0, p_minor := 9,
               p_state := (if ch = CR then s_req_line_almost_done else s_header_field_start)\<rparr>))
      else url_step ch s)"

definition step_spaces_before_url :: "char \<Rightarrow> http_exec \<Rightarrow> ctl" where
  "step_spaces_before_url ch s =
     (if ch = CHR '' '' then Next s
      else let s1 = s\<lparr>url_mark := mark_at (url_mark s) (x_pos s)\<rparr>;
               s2 = (if p_method s1 = HTTP_CONNECT then s1\<lparr>p_state := s_req_server_start\<rparr> else s1)
           in url_step ch s2)"

section \<open>The status line and the request line\<close>

text \<open>States in which one character is expected: \<open>STRICT_CHECK(ch != c)\<close>.\<close>

definition expect :: "http_errno \<Rightarrow> char \<Rightarrow> http_state \<Rightarrow> char \<Rightarrow> http_exec \<Rightarrow> ctl" where
  "expect e c t ch s = (if ch \<noteq> c then fail e s else goto t s)"

definition new_message_fields :: "http_exec \<Rightarrow> http_exec" where
  "new_message_fields s = s\<lparr>p_flags := {}, p_te := False, p_clen := - 1\<rparr>"

definition step_dead :: "char \<Rightarrow> http_exec \<Rightarrow> ctl" where
  "step_dead ch s = (if ch = CR \<or> ch = LF then Next s else fail HPE_CLOSED_CONNECTION s)"

definition step_start_req_or_res :: "char \<Rightarrow> http_exec \<Rightarrow> ctl" where
  "step_start_req_or_res ch s =
     (if ch = CR \<or> ch = LF then Next s
      else let s1 = new_message_fields s
           in if ch = CHR ''H'' then Next (notify on_message_begin (s1\<lparr>p_state := s_res_or_resp_H\<rparr>))
              else again s_start_req (s1\<lparr>p_type := HTTP_REQUEST\<rparr>))"

definition step_res_or_resp_H :: "char \<Rightarrow> http_exec \<Rightarrow> ctl" where
  "step_res_or_resp_H ch s =
     (if ch = CHR ''T'' then goto s_res_HT (s\<lparr>p_type := HTTP_RESPONSE\<rparr>)
      else if ch \<noteq> CHR ''E'' then fail HPE_INVALID_CONSTANT s
      else goto s_req_method (s\<lparr>p_type := HTTP_REQUEST, p_method := HTTP_HEAD, p_index := 2\<rparr>))"

definition step_start_res :: "char \<Rightarrow> http_exec \<Rightarrow> ctl" where
  "step_start_res ch s =
     (if ch = CR \<or> ch = LF then Next s
      else let s1 = new_message_fields s
           in if ch = CHR ''H'' then Next (notify on_message_begin (s1\<lparr>p_state := s_res_H\<rparr>))
              else fail HPE_INVALID_CONSTANT s1)"

definition digit_of :: "char \<Rightarrow> nat" where "digit_of ch = chcode ch - 48"

text \<open>The version number; the states of requests and responses differ only in their names.\<close>

definition step_http_major :: "http_state \<Rightarrow> char \<Rightarrow> http_exec \<Rightarrow> ctl" where
  "step_http_major t ch s =
     (if \<not> is_digit ch then fail HPE_INVALID_VERSION s else goto t (s\<lparr>p_major := digit_of ch\<rparr>))"

definition step_http_minor :: "http_state \<Rightarrow> char \<Rightarrow> http_exec \<Rightarrow> ctl" where
  "step_http_minor t ch s =
     (if \<not> is_digit ch then fail HPE_INVALID_VERSION s else goto t (s\<lparr>p_minor := digit_of ch\<rparr>))"

definition step_res_first_status_code :: "char \<Rightarrow> http_exec \<Rightarrow> ctl" where
  "step_res_first_status_code ch s =
     (if \<not> is_digit ch then (if ch = CHR '' '' then Next s else fail HPE_INVALID_STATUS s)
      else goto s_res_status_code (s\<lparr>p_status := of_nat (digit_of ch)\<rparr>))"

definition step_res_status_code :: "char \<Rightarrow> http_exec \<Rightarrow> ctl" where
  "step_res_status_code ch s =
     (if \<not> is_digit ch
      then if ch = CHR '' '' then goto s_res_status_start s
        else if ch = CR \<or> ch = LF then again s_res_status_start s
        else fail HPE_INVALID_STATUS s
      else let s1 = s\<lparr>p_status := p_status s * 10 + of_nat (digit_of ch)\<rparr>
           in if 999 < p_status s1 then fail HPE_INVALID_STATUS s1 else Next s1)"

definition step_res_status_start :: "char \<Rightarrow> http_exec \<Rightarrow> ctl" where
  "step_res_status_start ch s =
     (let s1 = s\<lparr>status_mark := mark_at (status_mark s) (x_pos s), p_state := s_res_status, p_index := 0\<rparr>
      in if ch = CR \<or> ch = LF then Again s1 else Next s1)"

definition step_res_status :: "string \<Rightarrow> char \<Rightarrow> http_exec \<Rightarrow> ctl" where
  "step_res_status d ch s =
     (if ch = CR then Next (data_status d (x_pos s) (s\<lparr>p_state := s_res_line_almost_done\<rparr>))
      else if ch = LF then Next (data_status d (x_pos s) (s\<lparr>p_state := s_header_field_start\<rparr>))
      else Next s)"

definition first_method :: "char \<Rightarrow> http_method option" where
  "first_method ch = map_of
     [(CHR ''A'', HTTP_ACL), (CHR ''B'', HTTP_BIND), (CHR ''C'', HTTP_CONNECT),
      (CHR ''D'', HTTP_DELETE), (CHR ''G'', HTTP_GET), (CHR ''H'', HTTP_HEAD),
      (CHR ''L'', HTTP_LOCK), (CHR ''M'', HTTP_MKCOL), (CHR ''N'', HTTP_NOTIFY),
      (CHR ''O'', HTTP_OPTIONS), (CHR ''P'', HTTP_POST), (CHR ''R'', HTTP_REPORT),
      (CHR ''S'', HTTP_SUBSCRIBE), (CHR ''T'', HTTP_TRACE), (CHR ''U'', HTTP_UNLOCK)] ch"

definition step_start_req :: "char \<Rightarrow> http_exec \<Rightarrow> ctl" where
  "step_start_req ch s =
     (if ch = CR \<or> ch = LF then Next s
      else let s1 = new_message_fields s
           in if \<not> IS_ALPHA ch then fail HPE_INVALID_METHOD s1
              else case first_method ch of
                     None \<Rightarrow> fail HPE_INVALID_METHOD (s1\<lparr>p_method := HTTP_DELETE, p_index := 1\<rparr>)
                   | Some m \<Rightarrow> Next (notify on_message_begin
                       (s1\<lparr>p_method := m, p_index := 1, p_state := s_req_method\<rparr>)))"

text \<open>
  The switch on method, index and character.  An index beyond the terminating 0 of the name would be a
  read out of bounds; it is \<open>Abort\<close> here, so that the absence of \<open>Abort\<close> covers it.
\<close>

definition method_switch :: "((http_method \<times> nat \<times> char) \<times> http_method) list" where
  "method_switch =
     [((HTTP_POST, 1, CHR ''U''), HTTP_PUT), ((HTTP_POST, 1, CHR ''A''), HTTP_PATCH),
      ((HTTP_POST, 1, CHR ''R''), HTTP_PROPFIND), ((HTTP_PUT, 2, CHR ''R''), HTTP_PURGE),
      ((HTTP_CONNECT, 1, CHR ''H''), HTTP_CHECKOUT), ((HTTP_CONNECT, 2, CHR ''P''), HTTP_COPY),
      ((HTTP_MKCOL, 1, CHR ''O''), HTTP_MOVE), ((HTTP_MKCOL, 1, CHR ''E''), HTTP_MERGE),
      ((HTTP_MKCOL, 1, CHR ''-''), HTTP_MSEARCH), ((HTTP_MKCOL, 2, CHR ''A''), HTTP_MKACTIVITY),
      ((HTTP_MKCOL, 3, CHR ''A''), HTTP_MKCALENDAR), ((HTTP_SUBSCRIBE, 1, CHR ''E''), HTTP_SEARCH),
      ((HTTP_SUBSCRIBE, 1, CHR ''O''), HTTP_SOURCE), ((HTTP_REPORT, 2, CHR ''B''), HTTP_REBIND),
      ((HTTP_PROPFIND, 4, CHR ''P''), HTTP_PROPPATCH), ((HTTP_LOCK, 1, CHR ''I''), HTTP_LINK),
      ((HTTP_UNLOCK, 2, CHR ''S''), HTTP_UNSUBSCRIBE), ((HTTP_UNLOCK, 2, CHR ''B''), HTTP_UNBIND),
      ((HTTP_UNLOCK, 3, CHR ''I''), HTTP_UNLINK)]"

definition step_req_method :: "char \<Rightarrow> http_exec \<Rightarrow> ctl" where
  "step_req_method ch s =
     (let matcher = method_str (p_method s) in
      if length matcher < p_index s then Abort
      else if chcode ch = 0 then fail HPE_INVALID_METHOD s
      else if ch = CHR '' '' \<and> lit_at matcher (p_index s) = 0
        then Next (idx_inc (s\<lparr>p_state := s_req_spaces_before_url\<rparr>))
      else if chcode ch = lit_at matcher (p_index s) then Next (idx_inc s)
      else if (65 \<le> chcode ch \<and> chcode ch \<le> 90) \<or> ch = CHR ''-''
        then case map_of method_switch (p_method s, p_index s, ch) of
               Some m \<Rightarrow> Next (idx_inc (s\<lparr>p_method := m\<rparr>))
             | None \<Rightarrow> fail HPE_INVALID_METHOD s
      else fail HPE_INVALID_METHOD s)"

definition step_req_http_start :: "char \<Rightarrow> http_exec \<Rightarrow> ctl" where
  "step_req_http_start ch s =
     (if ch = CHR '' '' then Next s
      else if ch = CHR ''H'' then goto s_req_http_H s
      else if ch = CHR ''I'' \<and> p_method s = HTTP_SOURCE then goto s_req_http_I s
      else fail HPE_INVALID_CONSTANT s)"

definition step_req_http_end :: "char \<Rightarrow> http_exec \<Rightarrow> ctl" where
  "step_req_http_end ch s =
     (if ch = CR then goto s_req_line_almost_done s
      else if ch = LF then goto s_header_field_start s
      else fail HPE_INVALID_VERSION s)"

section \<open>Header names\<close>

definition step_header_field_start :: "char \<Rightarrow> http_exec \<Rightarrow> ctl" where
  "step_header_field_start ch s =
     (if ch = CR then goto s_headers_almost_done s
      else if ch = LF then again s_headers_almost_done s
      else let c = STRICT_TOKEN ch in
        if c = 0 then fail HPE_INVALID_HEADER_TOKEN s
        else let s1 = s\<lparr>header_field_mark := mark_at (header_field_mark s) (x_pos s), p_index := 0,
                        p_state := s_header_field\<rparr>
             in Next (s1\<lparr>p_hstate :=
                  (if c = chcode (CHR ''c'') then h_C
                   else if c = chcode (CHR ''p'') then h_matching_proxy_connection
                   else if c = chcode (CHR ''t'') then h_matching_transfer_encoding
                   else if c = chcode (CHR ''u'') then h_matching_upgrade
                   else h_general)\<rparr>))"

text \<open>One character of a name that is being compared with a known name.\<close>

definition match_name :: "string \<Rightarrow> header_state \<Rightarrow> nat \<Rightarrow> http_exec \<Rightarrow> http_exec" where
  "match_name name found c s =
     (let s1 = idx_inc s in
      if length name < p_index s1 \<or> c \<noteq> lit_at name (p_index s1) then s1\<lparr>p_hstate := h_general\<rparr>
      else if p_index s1 = length name - 1 then s1\<lparr>p_hstate := found\<rparr>
      else s1)"

text \<open>The inner loop of \<open>h_general\<close>: it moves to the last character before one that is no token.\<close>

function skip_tokens :: "string \<Rightarrow> nat \<Rightarrow> nat \<Rightarrow> nat" where
  "skip_tokens d p pe =
     (if p + 1 < pe \<and> STRICT_TOKEN (d ! (p + 1)) \<noteq> 0 then skip_tokens d (p + 1) pe else p)"
  by pat_completeness auto
termination by (relation "measure (\<lambda>(d, p, pe). pe - p)") auto

declare skip_tokens.simps [simp del]

text \<open>One turn of the loop over the name, \<open>None\<close> where the assertion of the default case fails.\<close>

definition field_char :: "string \<Rightarrow> http_exec \<Rightarrow> http_exec option" where
  "field_char d s =
     (let ch = d ! x_pos s; c = STRICT_TOKEN ch in
      case p_hstate s of
        h_general \<Rightarrow> Some (s\<lparr>x_pos := skip_tokens d (x_pos s)
            (x_pos s + min (length d - x_pos s) max_header_size)\<rparr>)
      | h_C \<Rightarrow> Some (idx_inc (s\<lparr>p_hstate := (if c = chcode (CHR ''o'') then h_CO else h_general)\<rparr>))
      | h_CO \<Rightarrow> Some (idx_inc (s\<lparr>p_hstate := (if c = chcode (CHR ''n'') then h_CON else h_general)\<rparr>))
      | h_CON \<Rightarrow> Some (idx_inc (s\<lparr>p_hstate :=
           (if c = chcode (CHR ''n'') then h_matching_connection
            else if c = chcode (CHR ''t'') then h_matching_content_length else h_general)\<rparr>))
      | h_matching_connection \<Rightarrow> Some (match_name ''connection'' h_connection c s)
      | h_matching_proxy_connection \<Rightarrow> Some (match_name ''proxy-connection'' h_connection c s)
      | h_matching_content_length \<Rightarrow> Some (match_name ''content-length'' h_content_length c s)
      | h_matching_transfer_encoding \<Rightarrow>
          (let s1 = match_name ''transfer-encoding'' h_transfer_encoding c s
           in Some (if p_hstate s1 = h_transfer_encoding then s1\<lparr>p_te := True\<rparr> else s1))
      | h_matching_upgrade \<Rightarrow> Some (match_name ''upgrade'' h_upgrade c s)
      | h_connection \<Rightarrow> Some (if ch \<noteq> CHR '' '' then s\<lparr>p_hstate := h_general\<rparr> else s)
      | h_content_length \<Rightarrow> Some (if ch \<noteq> CHR '' '' then s\<lparr>p_hstate := h_general\<rparr> else s)
      | h_transfer_encoding \<Rightarrow> Some (if ch \<noteq> CHR '' '' then s\<lparr>p_hstate := h_general\<rparr> else s)
      | h_upgrade \<Rightarrow> Some (if ch \<noteq> CHR '' '' then s\<lparr>p_hstate := h_general\<rparr> else s)
      | _ \<Rightarrow> None)"

lemma skip_tokens_ge: "p \<le> skip_tokens d p pe"
proof (induction d p pe rule: skip_tokens.induct)
  case (1 d p pe)
  then show ?case by (subst skip_tokens.simps) auto
qed

lemma match_name_pos [simp]: "x_pos (match_name n f c s) = x_pos s"
  by (simp add: match_name_def idx_inc_def Let_def)

lemma field_char_pos: "field_char d s = Some s' \<Longrightarrow> x_pos s \<le> x_pos s'"
  by (auto simp: field_char_def Let_def idx_inc_def skip_tokens_ge split: header_state.splits if_splits)

function field_loop :: "string \<Rightarrow> http_exec \<Rightarrow> http_exec option" where
  "field_loop d s =
     (if x_pos s < length d \<and> STRICT_TOKEN (d ! x_pos s) \<noteq> 0
      then case field_char d s of
             None \<Rightarrow> None
           | Some s' \<Rightarrow> field_loop d (s'\<lparr>x_pos := x_pos s' + 1\<rparr>)
      else Some s)"
  by pat_completeness auto
termination
  by (relation "measure (\<lambda>(d, s). length d - x_pos s)") (auto dest: field_char_pos)

declare field_loop.simps [simp del]

definition step_header_field :: "string \<Rightarrow> http_exec \<Rightarrow> ctl" where
  "step_header_field d s =
     (let start = x_pos s in
      case field_loop d s of
        None \<Rightarrow> Abort
      | Some s1 \<Rightarrow>
          if x_pos s1 = length d
          then let s2 = s1\<lparr>x_pos := x_pos s1 - 1\<rparr> in count_header (x_pos s2 - start) s2 Next
          else count_header (x_pos s1 - start) s1 (\<lambda>s2.
            if d ! x_pos s2 = CHR '':''
            then Next (data_header_field d (x_pos s2) (s2\<lparr>p_state := s_header_value_discard_ws\<rparr>))
            else fail HPE_INVALID_HEADER_TOKEN s2))"

section \<open>Header values\<close>

definition step_header_value_start :: "char \<Rightarrow> http_exec \<Rightarrow> ctl" where
  "step_header_value_start ch s =
     (let s1 = s\<lparr>header_value_mark := mark_at (header_value_mark s) (x_pos s),
            p_state := s_header_value, p_index := 0\<rparr>;
          c = LOWER ch
      in case p_hstate s1 of
           h_upgrade \<Rightarrow> Next (s1\<lparr>p_flags := insert F_UPGRADE (p_flags s1), p_hstate := h_general\<rparr>)
         | h_transfer_encoding \<Rightarrow>
             Next (s1\<lparr>p_hstate := (if c = chcode (CHR ''c'') then h_matching_transfer_encoding_chunked
                                else h_matching_transfer_encoding_token)\<rparr>)
         | h_matching_transfer_encoding_token_start \<Rightarrow> Next s1
         | h_content_length \<Rightarrow>
             (if \<not> is_digit ch then fail HPE_INVALID_CONTENT_LENGTH s1
              else if F_CONTENTLENGTH \<in> p_flags s1 then fail HPE_UNEXPECTED_CONTENT_LENGTH s1
              else Next (s1\<lparr>p_flags := insert F_CONTENTLENGTH (p_flags s1),
                     p_clen := of_nat (digit_of ch), p_hstate := h_content_length_num\<rparr>))
         | h_content_length_ws \<Rightarrow> Next s1
         | h_connection \<Rightarrow>
             Next (s1\<lparr>p_hstate :=
               (if c = chcode (CHR ''k'') then h_matching_connection_keep_alive
                else if c = chcode (CHR ''c'') then h_matching_connection_close
                else if c = chcode (CHR ''u'') then h_matching_connection_upgrade
                else h_matching_connection_token)\<rparr>)
         | h_matching_connection_token_start \<Rightarrow> Next s1
         | _ \<Rightarrow> Next (s1\<lparr>p_hstate := h_general\<rparr>))"

definition step_header_value_discard_ws :: "char \<Rightarrow> http_exec \<Rightarrow> ctl" where
  "step_header_value_discard_ws ch s =
     (if ch = CHR '' '' \<or> ch = HTAB then Next s
      else if ch = CR then goto s_header_value_discard_ws_almost_done s
      else if ch = LF then goto s_header_value_discard_lws s
      else step_header_value_start ch s)"

text \<open>
  The switch on the local \<open>h_state\<close> in the loop over a value, without its case \<open>h_general\<close>.  \<open>VErr\<close> is
  an error (with \<open>p_hstate\<close> already stored), \<open>VAbort\<close> a failed assertion.
\<close>

datatype vstep = VGo http_exec header_state | VErr http_exec | VAbort

definition match_value ::
    "string \<Rightarrow> header_state \<Rightarrow> header_state \<Rightarrow> header_state \<Rightarrow> nat \<Rightarrow> http_exec \<Rightarrow> vstep" where
  "match_value word found other h c s =
     (let s1 = idx_inc s in
      if length word < p_index s1 \<or> c \<noteq> lit_at word (p_index s1) then VGo s1 other
      else if p_index s1 = length word - 1 then VGo s1 found
      else VGo s1 h)"

definition clen_limit :: "nat \<Rightarrow> u64" where "clen_limit b = (- 1 - of_nat b) div of_nat b"

definition content_length_char :: "char \<Rightarrow> http_exec \<Rightarrow> vstep" where
  "content_length_char ch s =
     (if ch = CHR '' '' then VGo s h_content_length_ws
      else if \<not> is_digit ch
        then VErr (s\<lparr>p_errno := HPE_INVALID_CONTENT_LENGTH, p_hstate := h_content_length_num\<rparr>)
      else let t = p_clen s * 10 + of_nat (digit_of ch) in
        if clen_limit 10 < p_clen s
        then VErr (s\<lparr>p_errno := HPE_INVALID_CONTENT_LENGTH, p_hstate := h_content_length_num\<rparr>)
        else VGo (s\<lparr>p_clen := t\<rparr>) h_content_length_num)"

definition te_token_start :: "nat \<Rightarrow> header_state" where
  "te_token_start c =
     (if c = chcode (CHR ''c'') then h_matching_transfer_encoding_chunked
      else if STRICT_TOKEN (char_of c) \<noteq> 0 then h_matching_transfer_encoding_token
      else if c = 32 \<or> c = 9 then h_matching_transfer_encoding_token_start
      else h_general)"

definition conn_token_start :: "nat \<Rightarrow> header_state" where
  "conn_token_start c =
     (if c = chcode (CHR ''k'') then h_matching_connection_keep_alive
      else if c = chcode (CHR ''c'') then h_matching_connection_close
      else if c = chcode (CHR ''u'') then h_matching_connection_upgrade
      else if STRICT_TOKEN (char_of c) \<noteq> 0 then h_matching_connection_token
      else if c = 32 \<or> c = 9 then h_matching_connection_token_start
      else h_general)"

definition conn_flag_char :: "char \<Rightarrow> http_flag \<Rightarrow> header_state \<Rightarrow> http_exec \<Rightarrow> vstep" where
  "conn_flag_char ch f h s =
     (if ch = CHR '','' then VGo (s\<lparr>p_flags := insert f (p_flags s), p_index := 0\<rparr>)
        h_matching_connection_token_start
      else if ch \<noteq> CHR '' '' then VGo s h_matching_connection_token
      else VGo s h)"

definition value_char :: "char \<Rightarrow> http_exec \<Rightarrow> header_state \<Rightarrow> vstep" where
  "value_char ch s h =
     (let c = LOWER ch in
      case h of
        h_connection \<Rightarrow> VAbort
      | h_transfer_encoding \<Rightarrow> VAbort
      | h_content_length \<Rightarrow> (if ch = CHR '' '' then VGo s h else content_length_char ch s)
      | h_content_length_num \<Rightarrow> content_length_char ch s
      | h_content_length_ws \<Rightarrow>
          (if ch = CHR '' '' then VGo s h
           else VErr (s\<lparr>p_errno := HPE_INVALID_CONTENT_LENGTH, p_hstate := h\<rparr>))
      | h_matching_transfer_encoding_token_start \<Rightarrow> VGo s (te_token_start c)
      | h_matching_transfer_encoding_chunked \<Rightarrow>
          match_value ''chunked'' h_transfer_encoding_chunked h_matching_transfer_encoding_token h c s
      | h_matching_transfer_encoding_token \<Rightarrow>
          (if ch = CHR '','' then VGo (s\<lparr>p_index := 0\<rparr>) h_matching_transfer_encoding_token_start
           else VGo s h)
      | h_matching_connection_token_start \<Rightarrow> VGo s (conn_token_start c)
      | h_matching_connection_keep_alive \<Rightarrow>
          match_value ''keep-alive'' h_connection_keep_alive h_matching_connection_token h c s
      | h_matching_connection_close \<Rightarrow>
          match_value ''close'' h_connection_close h_matching_connection_token h c s
      | h_matching_connection_upgrade \<Rightarrow>
          match_value ''upgrade'' h_connection_upgrade h_matching_connection_token h c s
      | h_matching_connection_token \<Rightarrow>
          (if ch = CHR '','' then VGo (s\<lparr>p_index := 0\<rparr>) h_matching_connection_token_start else VGo s h)
      | h_transfer_encoding_chunked \<Rightarrow>
          (if ch \<noteq> CHR '' '' then VGo s h_matching_transfer_encoding_token else VGo s h)
      | h_connection_keep_alive \<Rightarrow> conn_flag_char ch F_CONNECTION_KEEP_ALIVE h s
      | h_connection_close \<Rightarrow> conn_flag_char ch F_CONNECTION_CLOSE h s
      | h_connection_upgrade \<Rightarrow> conn_flag_char ch F_CONNECTION_UPGRADE h s
      | _ \<Rightarrow> VGo (s\<lparr>p_state := s_header_value\<rparr>) h_general)"

text \<open>The scan of \<open>h_general\<close>: \<open>Inl\<close> is the position of a forbidden character.\<close>

function value_scan :: "string \<Rightarrow> bool \<Rightarrow> nat \<Rightarrow> nat \<Rightarrow> nat + nat" where
  "value_scan d lenient p pe =
     (if p < pe
      then if d ! p = CR \<or> d ! p = LF then Inr (p - 1)
        else if \<not> lenient \<and> \<not> IS_HEADER_CHAR (d ! p) then Inl p
        else value_scan d lenient (p + 1) pe
      else Inr p)"
  by pat_completeness auto
termination by (relation "measure (\<lambda>(d, l, p, pe). pe - p)") auto

declare value_scan.simps [simp del]

definition value_turn :: "string \<Rightarrow> http_exec \<Rightarrow> header_state \<Rightarrow> vstep" where
  "value_turn d s h =
     (if h = h_general
      then case value_scan d (p_lenient s) (x_pos s)
                  (x_pos s + min (length d - x_pos s) max_header_size) of
             Inl p \<Rightarrow> VErr (s\<lparr>x_pos := p, p_errno := HPE_INVALID_HEADER_TOKEN\<rparr>)
           | Inr p \<Rightarrow> VGo (s\<lparr>x_pos := (if p = length d then p - 1 else p)\<rparr>) h
      else value_char (d ! x_pos s) s h)"

lemma value_scan_bounds:
  "p \<le> pe \<Longrightarrow> value_scan d l p pe = Inr q \<Longrightarrow> p - 1 \<le> q \<and> q \<le> pe"
proof (induction d l p pe rule: value_scan.induct)
  case (1 d l p pe)
  then show ?case by (subst (asm) value_scan.simps) (auto split: if_splits)
qed

lemma value_scan_Inl: "value_scan d l p pe = Inl q \<Longrightarrow> q < pe"
proof (induction d l p pe rule: value_scan.induct)
  case (1 d l p pe)
  then show ?case by (subst (asm) (2) value_scan.simps) (auto split: if_splits)
qed

lemma value_scan_ge:
  assumes "p < pe" and "d ! p \<noteq> CR" and "d ! p \<noteq> LF" and "value_scan d l p pe = Inr q"
  shows "p \<le> q \<and> q \<le> pe"
proof -
  from assms have "value_scan d l (p + 1) pe = Inr q"
    by (subst (asm) value_scan.simps) (simp split: if_splits)
  from value_scan_bounds [OF _ this] assms(1) show ?thesis by simp
qed

lemma value_char_pos: "value_char ch s h = VGo s' h' \<Longrightarrow> x_pos s' = x_pos s"
  by (cases h)
    (auto simp: value_char_def Let_def content_length_char_def match_value_def conn_flag_char_def
      idx_inc_def split: if_splits)

lemma value_turn_pos:
  assumes turn: "value_turn d s h = VGo s' h'" and lt: "x_pos s < length d"
    and ch: "d ! x_pos s \<noteq> CR" "d ! x_pos s \<noteq> LF"
  shows "x_pos s \<le> x_pos s' \<and> x_pos s' < length d"
proof (cases "h = h_general")
  case True
  let ?pe = "x_pos s + min (length d - x_pos s) max_header_size"
  from True turn obtain q where q: "value_scan d (p_lenient s) (x_pos s) ?pe = Inr q"
    and s': "s' = s\<lparr>x_pos := (if q = length d then q - 1 else q)\<rparr>"
    by (auto simp: value_turn_def split: sum.splits)
  have "x_pos s < ?pe" using lt by (simp add: max_header_size_def)
  from value_scan_ge [OF this ch q] have "x_pos s \<le> q" "q \<le> ?pe" by auto
  with lt show ?thesis unfolding s' by (auto simp: min_def split: if_splits)
next
  case False
  with turn have "value_char (d ! x_pos s) s h = VGo s' h'" by (simp add: value_turn_def)
  from value_char_pos [OF this] lt show ?thesis by simp
qed

text \<open>
  The loop over a value, with the local \<open>h_state\<close> as its last argument.  \<open>LEnd\<close> is the end of the loop, at
  the carriage return (whose callback is made) or at the end of the data, \<open>LLf\<close> a line feed, \<open>LErr\<close> an
  error, \<open>LAbort\<close> a failed assertion.
\<close>

datatype vloop = LEnd http_exec header_state | LLf http_exec header_state | LErr http_exec | LAbort

function value_loop :: "string \<Rightarrow> http_exec \<Rightarrow> header_state \<Rightarrow> vloop" where
  "value_loop d s h =
     (if x_pos s < length d
      then let ch = d ! x_pos s in
        if ch = CR
        then LEnd (data_header_value d (x_pos s) (s\<lparr>p_state := s_header_almost_done, p_hstate := h\<rparr>)) h
        else if ch = LF then LLf s h
        else if \<not> p_lenient s \<and> \<not> IS_HEADER_CHAR ch
        then LErr (s\<lparr>p_errno := HPE_INVALID_HEADER_TOKEN\<rparr>)
        else case value_turn d s h of
               VGo s' h' \<Rightarrow> value_loop d (s'\<lparr>x_pos := x_pos s' + 1\<rparr>) h'
             | VErr s' \<Rightarrow> LErr s'
             | VAbort \<Rightarrow> LAbort
      else LEnd s h)"
  by pat_completeness auto
termination
  by (relation "measure (\<lambda>(d, s, h). length d - x_pos s)") (auto dest: value_turn_pos)

declare value_loop.simps [simp del]

text \<open>The five ways a turn of the loop over a value can go.\<close>

lemma value_loop_end: "\<not> x_pos s < length d \<Longrightarrow> value_loop d s h = LEnd s h"
  by (subst value_loop.simps) simp

lemma value_loop_CR:
  "x_pos s < length d \<Longrightarrow> d ! x_pos s = CR \<Longrightarrow> value_loop d s h =
    LEnd (data_header_value d (x_pos s) (s\<lparr>p_state := s_header_almost_done, p_hstate := h\<rparr>)) h"
  by (subst value_loop.simps) simp

lemma value_loop_LF: "x_pos s < length d \<Longrightarrow> d ! x_pos s = LF \<Longrightarrow> value_loop d s h = LLf s h"
  by (subst value_loop.simps) simp

lemma value_loop_bad:
  "x_pos s < length d \<Longrightarrow> d ! x_pos s \<noteq> CR \<Longrightarrow> d ! x_pos s \<noteq> LF \<Longrightarrow>
    \<not> p_lenient s \<Longrightarrow> \<not> IS_HEADER_CHAR (d ! x_pos s) \<Longrightarrow>
    value_loop d s h = LErr (s\<lparr>p_errno := HPE_INVALID_HEADER_TOKEN\<rparr>)"
  by (subst value_loop.simps) simp

lemma value_loop_turn:
  "x_pos s < length d \<Longrightarrow> d ! x_pos s \<noteq> CR \<Longrightarrow> d ! x_pos s \<noteq> LF \<Longrightarrow>
    p_lenient s \<or> IS_HEADER_CHAR (d ! x_pos s) \<Longrightarrow>
    value_loop d s h =
      (case value_turn d s h of
         VGo s' h' \<Rightarrow> value_loop d (s'\<lparr>x_pos := x_pos s' + 1\<rparr>) h'
       | VErr s' \<Rightarrow> LErr s'
       | VAbort \<Rightarrow> LAbort)"
  by (subst value_loop.simps) auto

text \<open>The induction the loop gives, with the case of a turn reduced to the next one.\<close>

lemma value_loop_induct [case_names stop CR LF bad err abort go]:
  assumes stop: "\<And>s h. \<not> x_pos s < length d \<Longrightarrow> P s h (LEnd s h)"
    and CR: "\<And>s h. x_pos s < length d \<Longrightarrow> d ! x_pos s = CR \<Longrightarrow> P s h
      (LEnd (data_header_value d (x_pos s) (s\<lparr>p_state := s_header_almost_done, p_hstate := h\<rparr>)) h)"
    and LF: "\<And>s h. x_pos s < length d \<Longrightarrow> d ! x_pos s = LF \<Longrightarrow> P s h (LLf s h)"
    and bad: "\<And>s h. x_pos s < length d \<Longrightarrow> d ! x_pos s \<noteq> CR \<Longrightarrow> d ! x_pos s \<noteq> LF \<Longrightarrow>
      \<not> p_lenient s \<Longrightarrow> \<not> IS_HEADER_CHAR (d ! x_pos s) \<Longrightarrow>
      P s h (LErr (s\<lparr>p_errno := HPE_INVALID_HEADER_TOKEN\<rparr>))"
    and err: "\<And>s h s'. x_pos s < length d \<Longrightarrow> value_turn d s h = VErr s' \<Longrightarrow> d ! x_pos s \<noteq> CR \<Longrightarrow>
      d ! x_pos s \<noteq> LF \<Longrightarrow> p_lenient s \<or> IS_HEADER_CHAR (d ! x_pos s) \<Longrightarrow> P s h (LErr s')"
    and abort: "\<And>s h. x_pos s < length d \<Longrightarrow> value_turn d s h = VAbort \<Longrightarrow> d ! x_pos s \<noteq> CR \<Longrightarrow>
      d ! x_pos s \<noteq> LF \<Longrightarrow> p_lenient s \<or> IS_HEADER_CHAR (d ! x_pos s) \<Longrightarrow> P s h LAbort"
    and go: "\<And>s h s' h' r. x_pos s < length d \<Longrightarrow> d ! x_pos s \<noteq> CR \<Longrightarrow> d ! x_pos s \<noteq> LF \<Longrightarrow>
      value_turn d s h = VGo s' h' \<Longrightarrow> value_loop d (s'\<lparr>x_pos := x_pos s' + 1\<rparr>) h' = r \<Longrightarrow>
      P (s'\<lparr>x_pos := x_pos s' + 1\<rparr>) h' r \<Longrightarrow> p_lenient s \<or> IS_HEADER_CHAR (d ! x_pos s) \<Longrightarrow> P s h r"
  shows "P s h (value_loop d s h)"
proof (induction "length d - x_pos s" arbitrary: s h rule: less_induct)
  case less
  consider "\<not> x_pos s < length d" | "x_pos s < length d" "d ! x_pos s = CR"
    | "x_pos s < length d" "d ! x_pos s = LF"
    | "x_pos s < length d" "d ! x_pos s \<noteq> CR" "d ! x_pos s \<noteq> LF" "\<not> p_lenient s"
      "\<not> IS_HEADER_CHAR (d ! x_pos s)"
    | "x_pos s < length d" "d ! x_pos s \<noteq> CR" "d ! x_pos s \<noteq> LF"
      "p_lenient s \<or> IS_HEADER_CHAR (d ! x_pos s)"
    by blast
  then show ?case
  proof cases
    case 5
    show ?thesis
    proof (cases "value_turn d s h")
      case (VGo s1 h1)
      from value_turn_pos [OF VGo 5(1-3)]
      have "length d - x_pos (s1\<lparr>x_pos := x_pos s1 + 1\<rparr>) < length d - x_pos s" by simp linarith
      from go [OF 5(1-3) VGo refl less [OF this] 5(4)] show ?thesis
        using value_loop_turn [OF 5] VGo by simp
    next
      case (VErr s1)
      with err [OF 5(1) VErr 5(2-4)] value_loop_turn [OF 5] show ?thesis by simp
    next
      case VAbort
      with abort [OF 5(1) VAbort 5(2-4)] value_loop_turn [OF 5] show ?thesis by simp
    qed
  qed (use stop CR LF bad in \<open>simp_all add: value_loop_end value_loop_CR value_loop_LF value_loop_bad\<close>)
qed

definition step_header_value :: "string \<Rightarrow> http_exec \<Rightarrow> ctl" where
  "step_header_value d s =
     (let start = x_pos s in
      case value_loop d s (p_hstate s) of
        LEnd s1 h \<Rightarrow>
          let s2 = s1\<lparr>p_hstate := h\<rparr>;
              s3 = (if x_pos s2 = length d then s2\<lparr>x_pos := x_pos s2 - 1\<rparr> else s2)
          in count_header (x_pos s3 - start) s3 Next
      | LLf s1 h \<Rightarrow>
          count_header (x_pos s1 - start) (s1\<lparr>p_state := s_header_almost_done\<rparr>)
            (\<lambda>s2. Again (data_header_value d (x_pos s2) (s2\<lparr>p_hstate := h\<rparr>)))
      | LErr s1 \<Rightarrow> Return s1 (x_pos s1)
      | LAbort \<Rightarrow> Abort)"

definition step_header_almost_done :: "char \<Rightarrow> http_exec \<Rightarrow> ctl" where
  "step_header_almost_done ch s = expect HPE_LF_EXPECTED LF s_header_value_lws ch s"

text \<open>The flag a finished header leaves.\<close>

definition header_flag :: "header_state \<Rightarrow> http_flag set" where
  "header_flag h =
     (case h of h_connection_keep_alive \<Rightarrow> {F_CONNECTION_KEEP_ALIVE}
      | h_connection_close \<Rightarrow> {F_CONNECTION_CLOSE}
      | h_transfer_encoding_chunked \<Rightarrow> {F_CHUNKED}
      | h_connection_upgrade \<Rightarrow> {F_CONNECTION_UPGRADE}
      | _ \<Rightarrow> {})"

definition step_header_value_lws :: "char \<Rightarrow> http_exec \<Rightarrow> ctl" where
  "step_header_value_lws ch s =
     (if ch = CHR '' '' \<or> ch = HTAB
      then again s_header_value_start
        (if p_hstate s = h_content_length_num then s\<lparr>p_hstate := h_content_length_ws\<rparr> else s)
      else again s_header_field_start (s\<lparr>p_flags := p_flags s \<union> header_flag (p_hstate s)\<rparr>))"

definition step_header_value_discard_lws :: "string \<Rightarrow> char \<Rightarrow> http_exec \<Rightarrow> ctl" where
  "step_header_value_discard_lws d ch s =
     (if ch = CHR '' '' \<or> ch = HTAB then goto s_header_value_discard_ws s
      else if p_hstate s = h_content_length then fail HPE_INVALID_CONTENT_LENGTH s
      else let s1 = s\<lparr>p_flags := p_flags s \<union> header_flag (p_hstate s),
                  header_value_mark := mark_at (header_value_mark s) (x_pos s),
                  p_state := s_header_field_start\<rparr>
           in Again (data_header_value d (x_pos s1) s1))"

section \<open>The end of the headers\<close>

definition step_headers_almost_done :: "char \<Rightarrow> http_exec \<Rightarrow> ctl" where
  "step_headers_almost_done ch s =
     (if ch \<noteq> LF then fail HPE_STRICT s
      else if F_TRAILING \<in> p_flags s then again s_message_done s
      else if p_te s \<and> F_CONTENTLENGTH \<in> p_flags s \<and> (\<not> p_lenient s \<or> F_CHUNKED \<in> p_flags s)
        then fail HPE_UNEXPECTED_CONTENT_LENGTH s
      else let up = (if F_UPGRADE \<in> p_flags s \<and> F_CONNECTION_UPGRADE \<in> p_flags s
                     then p_type s = HTTP_REQUEST \<or> p_status s = 101
                     else p_method s = HTTP_CONNECT)
           in Again (notify on_headers_complete (s\<lparr>p_state := s_headers_done, p_upgrade := up\<rparr>)))"

definition new_message :: "http_exec \<Rightarrow> http_exec" where
  "new_message s = notify on_message_complete (s\<lparr>p_state := NEW_MESSAGE s\<rparr>)"

definition step_headers_done :: "char \<Rightarrow> http_exec \<Rightarrow> ctl" where
  "step_headers_done ch s0 =
     (if ch \<noteq> LF then fail HPE_STRICT s0
      else let s = s0\<lparr>p_nread := 0\<rparr>;
               hasBody = (F_CHUNKED \<in> p_flags s \<or> (0 < p_clen s \<and> p_clen s \<noteq> - 1))
           in
        if p_upgrade s \<and> (p_method s = HTTP_CONNECT \<or> F_SKIPBODY \<in> p_flags s \<or> \<not> hasBody)
        then Return (new_message s) (x_pos s + 1)
        else if F_SKIPBODY \<in> p_flags s then Next (new_message s)
        else if F_CHUNKED \<in> p_flags s then goto s_chunk_size_start s
        else if p_te s
        then if p_type s = HTTP_REQUEST \<and> \<not> p_lenient s then fail HPE_INVALID_TRANSFER_ENCODING s
             else goto s_body_identity_eof s
        else if p_clen s = 0 then Next (new_message s)
        else if p_clen s \<noteq> - 1 then goto s_body_identity s
        else if \<not> needs_eof s then Next (new_message s)
        else goto s_body_identity_eof s)"

section \<open>The body\<close>

text \<open>The characters of the body this call can take, and the move to the last of them.\<close>

definition to_read :: "string \<Rightarrow> http_exec \<Rightarrow> nat" where
  "to_read d s = min (unat (p_clen s)) (length d - x_pos s)"

definition take_body :: "string \<Rightarrow> http_exec \<Rightarrow> http_exec" where
  "take_body d s =
     s\<lparr>body_mark := mark_at (body_mark s) (x_pos s), p_clen := p_clen s - of_nat (to_read d s),
       x_pos := x_pos s + to_read d s - 1\<rparr>"

definition step_body_identity :: "string \<Rightarrow> http_exec \<Rightarrow> ctl" where
  "step_body_identity d s =
     (if p_clen s = 0 \<or> p_clen s = - 1 then Abort
      else let s1 = take_body d s in
        if p_clen s1 = 0 then Again (data_body d (x_pos s1 + 1) (s1\<lparr>p_state := s_message_done\<rparr>))
        else Next s1)"

definition step_body_identity_eof :: "string \<Rightarrow> http_exec \<Rightarrow> ctl" where
  "step_body_identity_eof d s =
     Next (s\<lparr>body_mark := mark_at (body_mark s) (x_pos s), x_pos := length d - 1\<rparr>)"

definition step_message_done :: "http_exec \<Rightarrow> ctl" where
  "step_message_done s =
     (let s1 = new_message s in if p_upgrade s1 then Return s1 (x_pos s1 + 1) else Next s1)"

definition step_chunk_size_start :: "char \<Rightarrow> http_exec \<Rightarrow> ctl" where
  "step_chunk_size_start ch s =
     (if p_nread s \<noteq> 1 \<or> F_CHUNKED \<notin> p_flags s then Abort
      else case unhex ch of
             None \<Rightarrow> fail HPE_INVALID_CHUNK_SIZE s
           | Some v \<Rightarrow> goto s_chunk_size (s\<lparr>p_clen := of_nat v\<rparr>))"

definition step_chunk_size :: "char \<Rightarrow> http_exec \<Rightarrow> ctl" where
  "step_chunk_size ch s =
     (if F_CHUNKED \<notin> p_flags s then Abort
      else if ch = CR then goto s_chunk_size_almost_done s
      else case unhex ch of
             None \<Rightarrow> (if ch = CHR '';'' \<or> ch = CHR '' '' then goto s_chunk_parameters s
                      else fail HPE_INVALID_CHUNK_SIZE s)
           | Some v \<Rightarrow>
               (if clen_limit 16 < p_clen s then fail HPE_INVALID_CONTENT_LENGTH s
                else Next (s\<lparr>p_clen := p_clen s * 16 + of_nat v\<rparr>)))"

definition step_chunk_parameters :: "char \<Rightarrow> http_exec \<Rightarrow> ctl" where
  "step_chunk_parameters ch s =
     (if F_CHUNKED \<notin> p_flags s then Abort
      else if ch = CR then goto s_chunk_size_almost_done s else Next s)"

definition step_chunk_size_almost_done :: "char \<Rightarrow> http_exec \<Rightarrow> ctl" where
  "step_chunk_size_almost_done ch s0 =
     (if F_CHUNKED \<notin> p_flags s0 then Abort
      else if ch \<noteq> LF then fail HPE_STRICT s0
      else let s = s0\<lparr>p_nread := 0\<rparr> in
        if p_clen s = 0 then goto s_header_field_start (s\<lparr>p_flags := insert F_TRAILING (p_flags s)\<rparr>)
        else goto s_chunk_data s)"

definition step_chunk_data :: "string \<Rightarrow> http_exec \<Rightarrow> ctl" where
  "step_chunk_data d s =
     (if F_CHUNKED \<notin> p_flags s \<or> p_clen s = 0 \<or> p_clen s = - 1 then Abort
      else let s1 = take_body d s in
        Next (if p_clen s1 = 0 then s1\<lparr>p_state := s_chunk_data_almost_done\<rparr> else s1))"

definition step_chunk_data_almost_done :: "string \<Rightarrow> char \<Rightarrow> http_exec \<Rightarrow> ctl" where
  "step_chunk_data_almost_done d ch s =
     (if F_CHUNKED \<notin> p_flags s \<or> p_clen s \<noteq> 0 then Abort
      else if ch \<noteq> CR then fail HPE_STRICT s
      else Next (data_body d (x_pos s) (s\<lparr>p_state := s_chunk_data_done\<rparr>)))"

definition step_chunk_data_done :: "char \<Rightarrow> http_exec \<Rightarrow> ctl" where
  "step_chunk_data_done ch s =
     (if F_CHUNKED \<notin> p_flags s then Abort
      else if ch \<noteq> LF then fail HPE_STRICT s
      else goto s_chunk_size_start (s\<lparr>p_nread := 0\<rparr>))"

section \<open>The switch\<close>

definition step :: "string \<Rightarrow> char \<Rightarrow> http_exec \<Rightarrow> ctl" where
  "step d ch s =
     (case p_state s of
        s_dead \<Rightarrow> step_dead ch s
      | s_start_req_or_res \<Rightarrow> step_start_req_or_res ch s
      | s_res_or_resp_H \<Rightarrow> step_res_or_resp_H ch s
      | s_start_res \<Rightarrow> step_start_res ch s
      | s_res_H \<Rightarrow> expect HPE_STRICT (CHR ''T'') s_res_HT ch s
      | s_res_HT \<Rightarrow> expect HPE_STRICT (CHR ''T'') s_res_HTT ch s
      | s_res_HTT \<Rightarrow> expect HPE_STRICT (CHR ''P'') s_res_HTTP ch s
      | s_res_HTTP \<Rightarrow> expect HPE_STRICT (CHR ''/'') s_res_http_major ch s
      | s_res_http_major \<Rightarrow> step_http_major s_res_http_dot ch s
      | s_res_http_dot \<Rightarrow> expect HPE_INVALID_VERSION (CHR ''.'') s_res_http_minor ch s
      | s_res_http_minor \<Rightarrow> step_http_minor s_res_http_end ch s
      | s_res_http_end \<Rightarrow> expect HPE_INVALID_VERSION (CHR '' '') s_res_first_status_code ch s
      | s_res_first_status_code \<Rightarrow> step_res_first_status_code ch s
      | s_res_status_code \<Rightarrow> step_res_status_code ch s
      | s_res_status_start \<Rightarrow> step_res_status_start ch s
      | s_res_status \<Rightarrow> step_res_status d ch s
      | s_res_line_almost_done \<Rightarrow> expect HPE_STRICT LF s_header_field_start ch s
      | s_start_req \<Rightarrow> step_start_req ch s
      | s_req_method \<Rightarrow> step_req_method ch s
      | s_req_spaces_before_url \<Rightarrow> step_spaces_before_url ch s
      | s_req_schema \<Rightarrow> step_url_start ch s
      | s_req_schema_slash \<Rightarrow> step_url_start ch s
      | s_req_schema_slash_slash \<Rightarrow> step_url_start ch s
      | s_req_server_start \<Rightarrow> step_url_start ch s
      | s_req_server \<Rightarrow> step_url d ch s
      | s_req_server_with_at \<Rightarrow> step_url d ch s
      | s_req_path \<Rightarrow> step_url d ch s
      | s_req_query_string_start \<Rightarrow> step_url d ch s
      | s_req_query_string \<Rightarrow> step_url d ch s
      | s_req_fragment_start \<Rightarrow> step_url d ch s
      | s_req_fragment \<Rightarrow> step_url d ch s
      | s_req_http_start \<Rightarrow> step_req_http_start ch s
      | s_req_http_H \<Rightarrow> expect HPE_STRICT (CHR ''T'') s_req_http_HT ch s
      | s_req_http_HT \<Rightarrow> expect HPE_STRICT (CHR ''T'') s_req_http_HTT ch s
      | s_req_http_HTT \<Rightarrow> expect HPE_STRICT (CHR ''P'') s_req_http_HTTP ch s
      | s_req_http_I \<Rightarrow> expect HPE_STRICT (CHR ''C'') s_req_http_IC ch s
      | s_req_http_IC \<Rightarrow> expect HPE_STRICT (CHR ''E'') s_req_http_HTTP ch s
      | s_req_http_HTTP \<Rightarrow> expect HPE_STRICT (CHR ''/'') s_req_http_major ch s
      | s_req_http_major \<Rightarrow> step_http_major s_req_http_dot ch s
      | s_req_http_dot \<Rightarrow> expect HPE_INVALID_VERSION (CHR ''.'') s_req_http_minor ch s
      | s_req_http_minor \<Rightarrow> step_http_minor s_req_http_end ch s
      | s_req_http_end \<Rightarrow> step_req_http_end ch s
      | s_req_line_almost_done \<Rightarrow> expect HPE_LF_EXPECTED LF s_header_field_start ch s
      | s_header_field_start \<Rightarrow> step_header_field_start ch s
      | s_header_field \<Rightarrow> step_header_field d s
      | s_header_value_discard_ws \<Rightarrow> step_header_value_discard_ws ch s
      | s_header_value_discard_ws_almost_done \<Rightarrow> expect HPE_STRICT LF s_header_value_discard_lws ch s
      | s_header_value_discard_lws \<Rightarrow> step_header_value_discard_lws d ch s
      | s_header_value_start \<Rightarrow> step_header_value_start ch s
      | s_header_value \<Rightarrow> step_header_value d s
      | s_header_value_lws \<Rightarrow> step_header_value_lws ch s
      | s_header_almost_done \<Rightarrow> step_header_almost_done ch s
      | s_chunk_size_start \<Rightarrow> step_chunk_size_start ch s
      | s_chunk_size \<Rightarrow> step_chunk_size ch s
      | s_chunk_parameters \<Rightarrow> step_chunk_parameters ch s
      | s_chunk_size_almost_done \<Rightarrow> step_chunk_size_almost_done ch s
      | s_headers_almost_done \<Rightarrow> step_headers_almost_done ch s
      | s_headers_done \<Rightarrow> step_headers_done ch s
      | s_chunk_data \<Rightarrow> step_chunk_data d s
      | s_chunk_data_almost_done \<Rightarrow> step_chunk_data_almost_done d ch s
      | s_chunk_data_done \<Rightarrow> step_chunk_data_done ch s
      | s_body_identity \<Rightarrow> step_body_identity d s
      | s_body_identity_eof \<Rightarrow> step_body_identity_eof d s
      | s_message_done \<Rightarrow> step_message_done s)"

lemmas ctl_defs = fail_def goto_def again_def notify_def count_header_def expect_def Let_def
  data_url_def data_status_def data_header_field_def data_header_value_def data_body_def
  new_message_fields_def idx_inc_def new_message_def url_step_def

lemmas step_defs =
  step_dead_def step_start_req_or_res_def step_res_or_resp_H_def step_start_res_def
  step_http_major_def step_http_minor_def step_res_first_status_code_def step_res_status_code_def
  step_res_status_start_def step_res_status_def step_start_req_def step_req_method_def
  step_spaces_before_url_def step_url_start_def step_url_def step_req_http_start_def
  step_req_http_end_def step_header_field_start_def step_header_value_discard_ws_def
  step_header_value_discard_lws_def step_header_value_start_def step_header_value_lws_def
  step_header_almost_done_def step_chunk_size_start_def step_chunk_size_def
  step_chunk_parameters_def step_chunk_size_almost_done_def step_headers_almost_done_def
  step_headers_done_def step_chunk_data_def step_chunk_data_almost_done_def
  step_chunk_data_done_def step_body_identity_def step_body_identity_eof_def
  step_message_done_def

text \<open>
  \<open>REEXECUTE()\<close> only goes down in the following order of the states, so that the jumps on one
  character come to an end.
\<close>

definition rank :: "http_state \<Rightarrow> nat" where
  "rank t =
     (case t of s_start_req_or_res \<Rightarrow> 9 | s_start_req \<Rightarrow> 8 | s_res_status_code \<Rightarrow> 9
      | s_res_status_start \<Rightarrow> 8 | s_res_status \<Rightarrow> 7 | s_header_value_discard_lws \<Rightarrow> 9
      | s_header_value \<Rightarrow> 10 | s_header_almost_done \<Rightarrow> 9 | s_header_value_lws \<Rightarrow> 8
      | s_header_value_start \<Rightarrow> 7 | s_header_field_start \<Rightarrow> 6 | s_headers_almost_done \<Rightarrow> 5
      | s_headers_done \<Rightarrow> 4 | s_body_identity \<Rightarrow> 4 | s_message_done \<Rightarrow> 3 | _ \<Rightarrow> 0)"

lemma step_header_value_again:
  "step_header_value d s = Again s' \<Longrightarrow> p_state s' = s_header_almost_done"
  by (auto simp: step_header_value_def Let_def count_header_def fail_def data_header_value_def
      notify_def split: vloop.splits if_splits option.splits)

lemma step_header_field_again: "step_header_field d s \<noteq> Again s'"
  by (auto simp: step_header_field_def Let_def count_header_def fail_def
      split: option.splits if_splits)

lemma step_again_rank: "step d ch s = Again s' \<Longrightarrow> rank (p_state s') < rank (p_state s)"
  by (cases "p_state s")
    (auto simp: step_def step_defs ctl_defs rank_def step_header_field_again
      dest!: step_header_value_again split: if_splits option.splits header_state.splits)

section \<open>The loop over the data\<close>

lemma skip_tokens_less: "p < pe \<Longrightarrow> skip_tokens d p pe < pe"
proof (induction d p pe rule: skip_tokens.induct)
  case (1 d p pe)
  then show ?case by (subst skip_tokens.simps) auto
qed

lemma field_char_less:
  assumes "field_char d s = Some s'" and "x_pos s < length d"
  shows "x_pos s' < length d"
proof (cases "p_hstate s = h_general")
  case True
  let ?pe = "x_pos s + min (length d - x_pos s) max_header_size"
  have "x_pos s < ?pe" using assms(2) by (simp add: max_header_size_def)
  from skip_tokens_less [OF this, of d] True assms show ?thesis
    by (auto simp: field_char_def Let_def)
next
  case False
  with assms show ?thesis
    by (auto simp: field_char_def Let_def idx_inc_def split: header_state.splits if_splits)
qed

lemma field_loop_pos:
  "field_loop d s = Some s' \<Longrightarrow> x_pos s \<le> length d \<Longrightarrow> x_pos s \<le> x_pos s' \<and> x_pos s' \<le> length d"
proof (induction d s rule: field_loop.induct)
  case (1 d s)
  show ?case
  proof (cases "x_pos s < length d \<and> STRICT_TOKEN (d ! x_pos s) \<noteq> 0")
    case True
    with 1(2) obtain s1 where s1: "field_char d s = Some s1"
      and loop: "field_loop d (s1\<lparr>x_pos := x_pos s1 + 1\<rparr>) = Some s'"
      by (subst (asm) field_loop.simps) (auto split: option.splits)
    from field_char_pos [OF s1] field_char_less [OF s1] True 1(1) [OF True s1 loop]
    show ?thesis by auto
  next
    case False
    with 1(2,3) show ?thesis by (subst (asm) field_loop.simps) (auto split: if_splits)
  qed
qed

lemma data_pos [simp]:
  "x_pos (data_url d p s) = x_pos s" "x_pos (data_status d p s) = x_pos s"
  "x_pos (data_header_field d p s) = x_pos s" "x_pos (data_header_value d p s) = x_pos s"
  "x_pos (data_body d p s) = x_pos s" "x_pos (notify c s) = x_pos s" "x_pos (new_message s) = x_pos s"
  by (auto simp: ctl_defs split: option.splits)

lemma value_turn_err_pos:
  "value_turn d s h = VErr s' \<Longrightarrow> x_pos s < length d \<Longrightarrow> x_pos s' \<le> length d \<and> p_errno s' \<noteq> HPE_OK"
proof (cases "h = h_general")
  case True
  assume "value_turn d s h = VErr s'" and "x_pos s < length d"
  with True value_scan_Inl [of d "p_lenient s" "x_pos s"
      "x_pos s + min (length d - x_pos s) max_header_size"]
  show ?thesis by (auto simp: value_turn_def min_def split: sum.splits if_splits)
next
  case False
  assume "value_turn d s h = VErr s'" and "x_pos s < length d"
  with False show ?thesis
    by (cases h) (auto simp: value_turn_def value_char_def Let_def content_length_char_def
        match_value_def conn_flag_char_def split: if_splits)
qed

lemma value_loop_pos:
  "x_pos s \<le> length d \<longrightarrow>
    (case value_loop d s h of
       LEnd s' h' \<Rightarrow> x_pos s \<le> x_pos s' \<and> x_pos s' \<le> length d
     | LLf s' h' \<Rightarrow> x_pos s \<le> x_pos s' \<and> x_pos s' < length d
     | LErr s' \<Rightarrow> x_pos s' \<le> length d \<and> p_errno s' \<noteq> HPE_OK
     | LAbort \<Rightarrow> True)"
proof (induction s h rule: value_loop_induct [where d = d])
  case (err s h s')
  from value_turn_err_pos [OF err(2,1)] show ?case by simp
next
  case (go s h s' h' r)
  from value_turn_pos [OF go(4,1-3)] go.IH show ?case by (cases r) auto
qed simp_all

lemma step_header_value_pos:
  assumes "x_pos s < length d"
  shows "step_header_value d s = Next s' \<or> step_header_value d s = Again s' \<longrightarrow>
    x_pos s \<le> x_pos s' \<and> x_pos s' < length d"
  using value_loop_pos [of s d "p_hstate s"] assms
  by (cases "value_loop d s (p_hstate s)")
    (auto simp: step_header_value_def Let_def count_header_def fail_def split: if_splits)

lemma step_header_field_pos:
  assumes "x_pos s < length d" and "step_header_field d s = Next s'"
  shows "x_pos s \<le> x_pos s' \<and> x_pos s' < length d"
  using assms field_loop_pos [of d s]
  by (fastforce simp: step_header_field_def Let_def count_header_def fail_def
      split: option.splits if_splits)

lemma to_read_pos: "x_pos s < length d \<Longrightarrow> p_clen s \<noteq> 0 \<Longrightarrow> 0 < to_read d s"
  by (simp add: to_read_def unat_gt_0)

lemma to_read_le: "x_pos s < length d \<Longrightarrow> x_pos s + to_read d s \<le> length d"
  by (simp add: to_read_def)

lemma take_body_pos:
  "x_pos s < length d \<Longrightarrow> p_clen s \<noteq> 0 \<Longrightarrow>
    x_pos s \<le> x_pos (take_body d s) \<and> x_pos (take_body d s) < length d"
  using to_read_pos [of s d] to_read_le [of s d] by (simp add: take_body_def) linarith

text \<open>
  \<open>ctl_post N A R b c\<close>: the state of \<open>c\<close> satisfies \<open>N\<close> where the loop goes on, \<open>A\<close> where the character is
  processed again, \<open>R\<close> where the function returns; \<open>b\<close> says whether an abort is allowed.
\<close>

primrec ctl_post ::
    "(http_exec \<Rightarrow> bool) \<Rightarrow> (http_exec \<Rightarrow> bool) \<Rightarrow> (http_exec \<Rightarrow> nat \<Rightarrow> bool) \<Rightarrow> bool \<Rightarrow> ctl \<Rightarrow> bool" where
  "ctl_post N A R b (Next s) = N s"
| "ctl_post N A R b (Again s) = A s"
| "ctl_post N A R b (Return s n) = R s n"
| "ctl_post N A R b Abort = b"

lemma ctl_post_if:
  "ctl_post N A R b (if c then x else y) = (if c then ctl_post N A R b x else ctl_post N A R b y)"
  by simp

text \<open>The states whose \<open>case\<close> moves the position.\<close>

definition bulk_states :: "http_state set" where
  "bulk_states = {s_header_field, s_header_value, s_body_identity, s_chunk_data, s_body_identity_eof}"

lemma step_pos_plain:
  "p_state s \<notin> bulk_states \<Longrightarrow>
    ctl_post (\<lambda>s'. x_pos s' = x_pos s) (\<lambda>s'. x_pos s' = x_pos s)
      (\<lambda>s' n. n = x_pos s \<or> n = x_pos s + 1) True (step d ch s)"
  by (cases "p_state s"; (simp add: bulk_states_def; fail)?;
      simp add: step_def step_defs ctl_defs ctl_post_if split: option.splits header_state.splits)

lemma step_pos:
  assumes "x_pos s < length d" and "step d ch s = Next s' \<or> step d ch s = Again s'"
  shows "x_pos s \<le> x_pos s' \<and> x_pos s' < length d"
proof (cases "p_state s \<in> bulk_states")
  case True
  then consider "p_state s = s_header_field" | "p_state s = s_header_value"
    | "p_state s = s_body_identity" | "p_state s = s_chunk_data" | "p_state s = s_body_identity_eof"
    unfolding bulk_states_def by blast
  then show ?thesis
  proof cases
    case 1
    with assms(2) have "step_header_field d s = Next s'"
      by (simp add: step_def step_header_field_again)
    with assms(1) show ?thesis by (rule step_header_field_pos)
  next
    case 2
    with assms(2) have "step_header_value d s = Next s' \<or> step_header_value d s = Again s'"
      by (simp add: step_def)
    with step_header_value_pos [OF assms(1)] show ?thesis by blast
  next
    case 3
    with assms(2) have "p_clen s \<noteq> 0"
      and "s' = take_body d s \<or> x_pos s' = x_pos (take_body d s)"
      by (auto simp: step_def step_body_identity_def Let_def split: if_splits)
    with take_body_pos [OF assms(1)] show ?thesis by auto
  next
    case 4
    with assms(2) have "p_clen s \<noteq> 0"
      and "s' = take_body d s \<or> x_pos s' = x_pos (take_body d s)"
      by (auto simp: step_def step_chunk_data_def Let_def split: if_splits)
    with take_body_pos [OF assms(1)] show ?thesis by auto
  next
    case 5
    with assms show ?thesis by (auto simp: step_def step_body_identity_eof_def)
  qed
next
  case False
  from step_pos_plain [OF this, of d ch] assms show ?thesis by auto
qed

text \<open>The processing of one character, with its jumps.\<close>

function run_char :: "string \<Rightarrow> http_exec \<Rightarrow> ctl" where
  "run_char d s = (case step d (d ! x_pos s) s of Again s' \<Rightarrow> run_char d s' | c \<Rightarrow> c)"
  by pat_completeness auto
termination by (relation "measure (\<lambda>(d, s). rank (p_state s))") (auto dest: step_again_rank)

declare run_char.simps [simp del]

lemma run_char_pos:
  "x_pos s < length d \<Longrightarrow> run_char d s = Next s' \<Longrightarrow> x_pos s \<le> x_pos s' \<and> x_pos s' < length d"
proof (induction d s rule: run_char.induct)
  case (1 d s)
  show ?case
  proof (cases "step d (d ! x_pos s) s")
    case (Again s1)
    from Again 1(3) have "run_char d s1 = Next s'" by (subst (asm) run_char.simps) simp
    moreover from step_pos [OF 1(2)] Again have "x_pos s \<le> x_pos s1 \<and> x_pos s1 < length d" by auto
    ultimately show ?thesis using 1(1) [OF Again] by auto
  next
    case (Next s1)
    with 1(3) have "s1 = s'" by (subst (asm) run_char.simps) simp
    with step_pos [OF 1(2)] Next show ?thesis by auto
  qed (use 1(3) in \<open>subst (asm) run_char.simps, simp\<close>)+
qed

lemma run_char_not_again: "run_char d s \<noteq> Again s'"
proof (induction d s rule: run_char.induct)
  case (1 d s)
  then show ?case by (subst run_char.simps) (auto split: ctl.splits)
qed

definition turn :: "string \<Rightarrow> http_exec \<Rightarrow> ctl" where
  "turn d s = (if PARSING_HEADER (p_state s) then count_header 1 s (run_char d) else run_char d s)"

lemma turn_pos:
  "x_pos s < length d \<Longrightarrow> turn d s = Next s' \<Longrightarrow> x_pos s \<le> x_pos s' \<and> x_pos s' < length d"
  using run_char_pos [of s d s'] run_char_pos [of "s\<lparr>p_nread := p_nread s + 1\<rparr>" d s']
  by (auto simp: turn_def count_header_def Let_def fail_def split: if_splits)

text \<open>The callbacks for the tokens that are open when the data ends.\<close>

definition exec_end :: "string \<Rightarrow> http_exec \<Rightarrow> http_exec" where
  "exec_end d s =
     (let p = x_pos s
      in data_status d p (data_body d p (data_url d p (data_header_value d p (data_header_field d p s)))))"

definition marks :: "http_exec \<Rightarrow> nat" where
  "marks s = length (filter (\<lambda>m. m \<noteq> None)
     [header_field_mark s, header_value_mark s, url_mark s, body_mark s, status_mark s])"

function exec_loop :: "string \<Rightarrow> http_exec \<Rightarrow> (http_exec \<times> nat) option" where
  "exec_loop d s =
     (if x_pos s < length d
      then case turn d s of
             Next s' \<Rightarrow> exec_loop d (s'\<lparr>x_pos := x_pos s' + 1\<rparr>)
           | Return s' n \<Rightarrow> Some (s', n)
           | _ \<Rightarrow> None
      else if 1 < marks s then None
      else Some (exec_end d s, length d))"
  by pat_completeness auto
termination
  by (relation "measure (\<lambda>(d, s). length d - x_pos s)") (auto dest: turn_pos)

declare exec_loop.simps [simp del]

definition exec_start :: "http_parser \<Rightarrow> http_exec" where
  "exec_start p = http_parser.extend p
     \<lparr>x_pos = 0,
      url_mark = (if p_state p \<in> url_states then Some 0 else None),
      status_mark = (if p_state p = s_res_status then Some 0 else None),
      header_field_mark = (if p_state p = s_header_field then Some 0 else None),
      header_value_mark = (if p_state p = s_header_value then Some 0 else None),
      body_mark = None, x_cb = []\<rparr>"

text \<open>
  The result of a call: the parser after it, the callbacks made and the number of characters
  consumed.  \<open>None\<close> is a failed assertion.
\<close>

definition http_parser_execute ::
    "http_parser \<Rightarrow> string \<Rightarrow> (http_parser \<times> http_cb list \<times> nat) option" where
  "http_parser_execute p d =
     (if p_errno p \<noteq> HPE_OK then Some (p, [], 0)
      else if d = []
      then if p_state p = s_body_identity_eof then Some (p, [on_message_complete], 0)
        else if p_state p \<in> {s_dead, s_start_req_or_res, s_start_res, s_start_req} then Some (p, [], 0)
        else Some (p\<lparr>p_errno := HPE_INVALID_EOF_STATE\<rparr>, [], 1)
      else map_option (\<lambda>(s, n). (http_parser.truncate s, x_cb s, n)) (exec_loop d (exec_start p)))"

end
