(* ===== verification/Ys_HttpSafe.thy ===== *)
theory Ys_HttpSafe
  imports Ys_HttpExec
begin

text \<open>
  Safety of \<open>http_parser_execute\<close>: the invariant of the parser between calls and within a call, and
  what follows from it: no assertion of the source fails, no index leaves a constant string, and a
  call consumes no more than it was given.
\<close>

section \<open>The invariant\<close>

definition field_hstates :: "header_state set" where
  "field_hstates = {h_general, h_C, h_CO, h_CON, h_matching_connection, h_matching_proxy_connection,
     h_matching_content_length, h_matching_transfer_encoding, h_matching_upgrade, h_connection,
     h_content_length, h_transfer_encoding, h_upgrade}"

definition chunk_states :: "http_state set" where
  "chunk_states = {s_chunk_size_start, s_chunk_size, s_chunk_parameters, s_chunk_size_almost_done,
     s_chunk_data, s_chunk_data_almost_done, s_chunk_data_done}"

text \<open>
  \<open>n\<close> is the value of \<open>nread\<close> at the start of a chunk size: 0 between characters, 1 while the first
  character is processed.
\<close>

definition parser_wf :: "u32 \<Rightarrow> 'a http_parser_scheme \<Rightarrow> bool" where
  "parser_wf n s \<longleftrightarrow>
     p_errno s = HPE_OK \<and> p_nread s \<le> of_nat max_header_size \<and>
     (p_state s \<in> chunk_states \<longrightarrow> F_CHUNKED \<in> p_flags s) \<and>
     (p_state s = s_chunk_size_start \<longrightarrow> p_nread s = n) \<and>
     (p_state s \<in> {s_chunk_size, s_chunk_parameters, s_chunk_size_almost_done, s_chunk_data,
        s_body_identity} \<longrightarrow> p_clen s \<noteq> - 1) \<and>
     (p_state s \<in> {s_chunk_data, s_body_identity} \<longrightarrow> p_clen s \<noteq> 0) \<and>
     (p_state s = s_chunk_data_almost_done \<longrightarrow> p_clen s = 0) \<and>
     (p_state s = s_header_field \<longrightarrow> p_hstate s \<in> field_hstates) \<and>
     (p_state s = s_header_value \<longrightarrow> p_hstate s \<notin> {h_connection, h_transfer_encoding}) \<and>
     (p_state s = s_req_method \<longrightarrow> p_index s \<le> length (method_str (p_method s)))"

text \<open>Which token is open in which state.\<close>

definition body_states :: "http_state set" where
  "body_states = {s_body_identity, s_body_identity_eof, s_chunk_data, s_chunk_data_almost_done}"

definition marks_ok :: "http_exec \<Rightarrow> bool" where
  "marks_ok s \<longleftrightarrow>
     (url_mark s \<noteq> None \<longleftrightarrow> p_state s \<in> url_states) \<and>
     (status_mark s \<noteq> None \<longleftrightarrow> p_state s = s_res_status) \<and>
     (header_field_mark s \<noteq> None \<longleftrightarrow> p_state s = s_header_field) \<and>
     (header_value_mark s \<noteq> None \<longleftrightarrow> p_state s = s_header_value) \<and>
     (body_mark s \<noteq> None \<longrightarrow> p_state s \<in> body_states)"

definition exec_wf :: "u32 \<Rightarrow> http_exec \<Rightarrow> bool" where
  "exec_wf n s \<longleftrightarrow> parser_wf n s \<and> marks_ok s"

lemmas set_defs = url_states_def body_states_def chunk_states_def field_hstates_def

text \<open>Between two messages nothing is open and nothing is required.\<close>

lemma new_message_state: "NEW_MESSAGE s \<in> {s_start_req, s_start_res, s_dead}"
  by (simp add: NEW_MESSAGE_def)

section \<open>Facts of the tables\<close>

lemma parse_url_char_state: "parse_url_char t ch \<in> insert s_dead url_states"
  by (cases t) (simp_all add: parse_url_char_def url_states_def Let_def)

lemma unhex_less: "unhex ch = Some v \<Longrightarrow> v < 16"
  by (auto simp: unhex_def hexd_def is_digit_def split: if_splits)

lemma method_first: "1 \<le> length (method_str m)"
  by (cases m) simp_all

lemma method_short: "length (method_str m) \<le> 11"
  by (cases m) simp_all

lemma method_switch_index:
  "map_of method_switch (m, i, ch) = Some m' \<Longrightarrow> i + 1 \<le> length (method_str m')"
  by (drule map_of_SomeD) (auto simp: method_switch_def)

lemma lit_at_nonzero: "chcode ch = lit_at w i \<Longrightarrow> chcode ch \<noteq> 0 \<Longrightarrow> i + 1 \<le> length w"
  by (auto simp: lit_at_def split: if_splits)

lemma unat_max_64: "unat (- 1 :: u64) = 2 ^ 64 - 1"
  by (simp add: unsigned_minus_1_eq_mask mask_eq_exp_minus_1)

lemma clen_limit_16: "clen_limit 16 = 0x0FFFFFFFFFFFFFFE" by (code_simp)

lemma clen_limit_10: "clen_limit 10 = 1844674407370955160" by (code_simp)

lemma chunk_size_no_max:
  assumes "\<not> clen_limit 16 < c" and "v < 16"
  shows "c * 16 + of_nat v \<noteq> - 1"
proof
  assume "c * 16 + of_nat v = - 1"
  then have "unat (c * 16 + of_nat v) = 2 ^ 64 - 1" by (simp only: unat_max_64)
  moreover have c: "unat c \<le> 0x0FFFFFFFFFFFFFFE"
    using assms(1) by (simp add: clen_limit_16 word_le_nat_alt not_less)
  then have "unat (c * 16 + of_nat v) = unat c * 16 + v"
    using assms(2) by (simp add: unat_word_ariths unat_of_nat)
  ultimately show False using c assms(2) by simp
qed

lemma unat_take_64: "n \<le> unat (c :: u64) \<Longrightarrow> unat (c - of_nat n) = unat c - n"
proof -
  assume n: "n \<le> unat c"
  have "unat c < 2 ^ LENGTH(64)" by (rule unsigned_less)
  with n have "unat (of_nat n :: u64) = n" by (simp add: unat_of_nat)
  with n show ?thesis by (metis unat_sub word_le_nat_alt)
qed

lemma take_body_clen:
  assumes "p_clen s \<noteq> - 1"
  shows "p_clen (take_body d s) \<noteq> - 1"
proof
  assume eq: "p_clen (take_body d s) = - 1"
  have "to_read d s \<le> unat (p_clen s)" by (simp add: to_read_def)
  then have "unat (p_clen (take_body d s)) \<le> unat (p_clen s)" by (simp add: take_body_def unat_take_64)
  with eq have "unat (- 1 :: u64) \<le> unat (p_clen s)" by simp
  then have "p_clen s = - 1" by (simp add: word_le_nat_alt [symmetric] word_order.extremum_unique)
  with assms show False ..
qed

lemma one_le_max: "(1 :: u32) \<le> of_nat max_header_size"
  by (simp add: max_header_size_def)

section \<open>Every step keeps the invariant\<close>

lemma match_name_wf:
  "p_state (match_name w f c s) = p_state s" "p_errno (match_name w f c s) = p_errno s"
  "p_flags (match_name w f c s) = p_flags s"
  "f \<in> field_hstates \<Longrightarrow> p_hstate s \<in> field_hstates \<Longrightarrow> p_hstate (match_name w f c s) \<in> field_hstates"
  "url_mark (match_name w f c s) = url_mark s" "status_mark (match_name w f c s) = status_mark s"
  "header_field_mark (match_name w f c s) = header_field_mark s"
  "header_value_mark (match_name w f c s) = header_value_mark s"
  "body_mark (match_name w f c s) = body_mark s" "x_cb (match_name w f c s) = x_cb s"
  by (auto simp: match_name_def idx_inc_def Let_def field_hstates_def)

lemma field_char_wf:
  assumes "exec_wf n s" and st: "p_state s = s_header_field"
  shows "\<exists>s'. field_char d s = Some s' \<and> p_state s' = s_header_field \<and> exec_wf n s'"
proof -
  from assms have h: "p_hstate s \<in> field_hstates" by (simp add: exec_wf_def parser_wf_def)
  show ?thesis
    using assms h
    by (cases "p_hstate s")
      (simp_all add: field_char_def Let_def exec_wf_def parser_wf_def marks_ok_def idx_inc_def
        match_name_def set_defs)
qed

lemma field_loop_wf:
  "exec_wf n s \<Longrightarrow> p_state s = s_header_field \<Longrightarrow>
    \<exists>s'. field_loop d s = Some s' \<and> p_state s' = s_header_field \<and> exec_wf n s'"
proof (induction d s rule: field_loop.induct)
  case (1 d s)
  show ?case
  proof (cases "x_pos s < length d \<and> STRICT_TOKEN (d ! x_pos s) \<noteq> 0")
    case True
    from field_char_wf [OF 1(2,3)] obtain s1 where s1: "field_char d s = Some s1"
      "p_state s1 = s_header_field" "exec_wf n s1" by blast
    then have "exec_wf n (s1\<lparr>x_pos := x_pos s1 + 1\<rparr>)"
      by (simp add: exec_wf_def parser_wf_def marks_ok_def)
    from 1(1) [OF True s1(1) this] s1 True show ?thesis by (subst field_loop.simps) simp
  next
    case False
    then have "field_loop d s = Some s" by (subst field_loop.simps) (rule if_not_P)
    with 1(2,3) show ?thesis by simp
  qed
qed

lemma step_header_field_wf:
  assumes "exec_wf 1 s" and "p_state s = s_header_field"
  shows "ctl_post (exec_wf 0) (exec_wf 1) (\<lambda>s' n. p_errno s' = HPE_OK \<longrightarrow> parser_wf 0 s') False
    (step_header_field d s)"
proof -
  from field_loop_wf [OF assms] obtain s' where "field_loop d s = Some s'"
    "p_state s' = s_header_field" "exec_wf 1 s'" by blast
  then show ?thesis
    by (auto simp: step_header_field_def Let_def count_header_def fail_def data_header_field_def
        notify_def exec_wf_def parser_wf_def marks_ok_def set_defs split: option.splits)
qed

text \<open>The states a value can be in.\<close>

definition value_hs :: "header_state \<Rightarrow> bool" where
  "value_hs h \<longleftrightarrow> h \<notin> {h_connection, h_transfer_encoding}"

lemma value_char_wf:
  assumes "exec_wf n s" and "p_state s = s_header_value" and "value_hs h"
  shows "case value_char ch s h of
      VGo s' h' \<Rightarrow> exec_wf n (s'\<lparr>p_hstate := h'\<rparr>) \<and> exec_wf n s' \<and> p_state s' = s_header_value \<and> value_hs h'
    | VErr s' \<Rightarrow> p_errno s' \<noteq> HPE_OK
    | VAbort \<Rightarrow> False"
  using assms
  by (cases h)
    (simp_all add: value_hs_def value_char_def Let_def content_length_char_def match_value_def
      conn_flag_char_def idx_inc_def te_token_start_def conn_token_start_def exec_wf_def parser_wf_def
      marks_ok_def set_defs)

lemma exec_wf_pos [simp]: "exec_wf n (s\<lparr>x_pos := p\<rparr>) = exec_wf n s"
  by (simp add: exec_wf_def parser_wf_def marks_ok_def)

lemma value_turn_wf:
  assumes "exec_wf n s" and "p_state s = s_header_value" and "value_hs h"
  shows "case value_turn d s h of
      VGo s' h' \<Rightarrow> exec_wf n s' \<and> p_state s' = s_header_value \<and> value_hs h'
    | VErr s' \<Rightarrow> p_errno s' \<noteq> HPE_OK
    | VAbort \<Rightarrow> False"
proof (cases "h = h_general")
  case True
  with assms show ?thesis by (auto simp: value_turn_def value_hs_def split: sum.splits)
next
  case False
  with value_char_wf [OF assms, of "d ! x_pos s"] show ?thesis
    by (simp add: value_turn_def split: vstep.splits)
qed

lemma value_turn_state:
  "value_turn d s h = VGo s' h' \<Longrightarrow> p_state s = s_header_value \<Longrightarrow> p_state s' = s_header_value"
  by (cases h)
    (auto simp: value_turn_def value_char_def Let_def content_length_char_def match_value_def
      conn_flag_char_def idx_inc_def split: if_splits sum.splits)

lemma value_loop_wf:
  "exec_wf 1 s \<and> p_state s = s_header_value \<and> value_hs h \<longrightarrow>
    (case value_loop d s h of
       LEnd s' h' \<Rightarrow> p_state s' \<noteq> s_chunk_size_start \<and> exec_wf 1 (s'\<lparr>p_hstate := h'\<rparr>)
     | LLf s' h' \<Rightarrow> exec_wf 1 s' \<and> p_state s' = s_header_value \<and> value_hs h'
     | LErr s' \<Rightarrow> p_errno s' \<noteq> HPE_OK
     | LAbort \<Rightarrow> False)"
proof (induction s h rule: value_loop_induct [where d = d])
  case (stop s h)
  then show ?case
    by (intro impI, elim conjE)
      (simp add: exec_wf_def parser_wf_def marks_ok_def value_hs_def set_defs)
next
  case (CR s h)
  then show ?case
    by (intro impI, elim conjE)
      (simp add: data_header_value_def notify_def exec_wf_def parser_wf_def marks_ok_def
        value_hs_def set_defs split: option.splits)
next
  case (err s h s')
  with value_turn_wf [of 1 s h d] show ?case by auto
next
  case (abort s h)
  with value_turn_wf [of 1 s h d] show ?case by auto
next
  case (go s h s' h' r)
  with value_turn_wf [of 1 s h d] show ?case by (simp del: disj_not1)
qed simp_all

lemma step_header_value_wf:
  assumes "exec_wf 1 s" and "p_state s = s_header_value"
  shows "ctl_post (exec_wf 0) (exec_wf 1) (\<lambda>s' n. p_errno s' = HPE_OK \<longrightarrow> parser_wf 0 s') False
    (step_header_value d s)"
proof -
  have "value_hs (p_hstate s)" using assms by (simp add: exec_wf_def parser_wf_def value_hs_def)
  with value_loop_wf [of s "p_hstate s" d] assms
  have loop: "case value_loop d s (p_hstate s) of
       LEnd s' h' \<Rightarrow> p_state s' \<noteq> s_chunk_size_start \<and> exec_wf 1 (s'\<lparr>p_hstate := h'\<rparr>)
     | LLf s' h' \<Rightarrow> exec_wf 1 s' \<and> p_state s' = s_header_value \<and> value_hs h'
     | LErr s' \<Rightarrow> p_errno s' \<noteq> HPE_OK | LAbort \<Rightarrow> False" by simp
  show ?thesis
  proof (cases "value_loop d s (p_hstate s)")
    case (LEnd s1 h)
    with loop show ?thesis
      by (simp add: step_header_value_def Let_def count_header_def fail_def ctl_post_if exec_wf_def
          parser_wf_def marks_ok_def not_less)
  next
    case (LLf s1 h)
    with loop have "p_state s1 = s_header_value" "exec_wf 1 s1" "value_hs h" by simp_all
    with LLf show ?thesis
      by (simp add: step_header_value_def Let_def count_header_def fail_def ctl_post_if
          data_header_value_def notify_def exec_wf_def parser_wf_def marks_ok_def value_hs_def set_defs
          not_less split: option.splits)
  qed (use loop in \<open>simp_all add: step_header_value_def\<close>)
qed

text \<open>What the invariant says in the states of a URL and between messages.\<close>

lemma exec_wf_url:
  "p_state s \<in> url_states \<Longrightarrow> exec_wf n s \<longleftrightarrow> p_errno s = HPE_OK \<and>
    p_nread s \<le> of_nat max_header_size \<and> url_mark s \<noteq> None \<and>
    status_mark s = None \<and> header_field_mark s = None \<and> header_value_mark s = None \<and> body_mark s = None"
  by (cases "p_state s"; (simp add: url_states_def; fail)?;
      simp add: exec_wf_def parser_wf_def marks_ok_def set_defs)

lemma exec_wf_idle:
  "p_state s = t \<Longrightarrow> t \<in> {s_start_req, s_start_res, s_dead} \<Longrightarrow> exec_wf n s \<longleftrightarrow>
    p_errno s = HPE_OK \<and> p_nread s \<le> of_nat max_header_size \<and> url_mark s = None \<and>
    status_mark s = None \<and> header_field_mark s = None \<and> header_value_mark s = None \<and> body_mark s = None"
  by (cases t; (simp; fail)?; simp add: exec_wf_def parser_wf_def marks_ok_def set_defs)

lemma new_message_wf:
  assumes "p_errno s = HPE_OK" and "p_nread s \<le> of_nat max_header_size" and "url_mark s = None" and "status_mark s = None"
    and "header_field_mark s = None" and "header_value_mark s = None" and "body_mark s = None"
  shows "exec_wf n (new_message s)"
proof -
  have "p_state (new_message s) = NEW_MESSAGE s" by (simp add: new_message_def notify_def)
  from exec_wf_idle [OF this new_message_state] assms show ?thesis
    by (simp add: new_message_def notify_def)
qed

lemma url_step_wf:
  assumes "p_errno s = HPE_OK" and "p_nread s \<le> of_nat max_header_size" and "url_mark s \<noteq> None" and "status_mark s = None"
    "header_field_mark s = None" "header_value_mark s = None" "body_mark s = None"
  shows "ctl_post (exec_wf 0) (exec_wf 1) (\<lambda>s' n. p_errno s' = HPE_OK \<longrightarrow> parser_wf 0 s') False
    (url_step ch s)"
proof (cases "parse_url_char (p_state s) ch = s_dead")
  case True
  then show ?thesis by (simp add: url_step_def fail_def)
next
  case False
  then have "p_state (s\<lparr>p_state := parse_url_char (p_state s) ch\<rparr>) \<in> url_states"
    using parse_url_char_state [of "p_state s" ch] by simp
  from exec_wf_url [OF this] assms False show ?thesis by (simp add: url_step_def Let_def goto_def)
qed

definition url_like :: "http_state set" where
  "url_like = insert s_req_spaces_before_url url_states"

lemma step_url_wf:
  assumes "exec_wf 1 s" and "p_state s \<in> url_like"
  shows "ctl_post (exec_wf 0) (exec_wf 1) (\<lambda>s' n. p_errno s' = HPE_OK \<longrightarrow> parser_wf 0 s') False
    (step d ch s)"
proof (cases "p_state s = s_req_spaces_before_url")
  case True
  let ?s = "s\<lparr>url_mark := mark_at (url_mark s) (x_pos s)\<rparr>"
  let ?s2 = "if p_method ?s = HTTP_CONNECT then ?s\<lparr>p_state := s_req_server_start\<rparr> else ?s"
  have "ctl_post (exec_wf 0) (exec_wf 1) (\<lambda>s' n. p_errno s' = HPE_OK \<longrightarrow> parser_wf 0 s') False
      (url_step ch ?s2)"
    by (rule url_step_wf)
      (use assms True in \<open>simp_all add: exec_wf_def parser_wf_def marks_ok_def set_defs mark_at_def
        split: option.splits\<close>)
  moreover have "step d ch s = (if ch = CHR '' '' then Next s else url_step ch ?s2)"
    using True by (simp add: step_def step_spaces_before_url_def Let_def)
  moreover have "exec_wf 0 s"
    using assms True by (simp add: exec_wf_def parser_wf_def)
  ultimately show ?thesis by (simp only: ctl_post_if ctl_post.simps) simp
next
  case False
  with assms(2) have u: "p_state s \<in> url_states" by (simp add: url_like_def)
  have step: "step d ch s = step_url_start ch s \<or> step d ch s = step_url d ch s"
    using u by (cases "p_state s"; (simp add: url_states_def; fail)?; simp add: step_def)
  from u assms(1) obtain m where m: "url_mark s = Some m" "status_mark s = None"
    "header_field_mark s = None" "header_value_mark s = None" "body_mark s = None" "p_errno s = HPE_OK"
    "p_nread s \<le> of_nat max_header_size"
    by (auto simp: exec_wf_url)
  then have url: "ctl_post (exec_wf 0) (exec_wf 1) (\<lambda>s' n. p_errno s' = HPE_OK \<longrightarrow> parser_wf 0 s') False
      (url_step ch s)"
    by (intro url_step_wf) simp_all
  have start: "ctl_post (exec_wf 0) (exec_wf 1) (\<lambda>s' n. p_errno s' = HPE_OK \<longrightarrow> parser_wf 0 s') False
      (step_url_start ch s)"
    using url by (simp add: step_url_start_def fail_def ctl_post_if)
  have "ctl_post (exec_wf 0) (exec_wf 1) (\<lambda>s' n. p_errno s' = HPE_OK \<longrightarrow> parser_wf 0 s') False
      (step_url d ch s)"
    using url m
    by (simp add: step_url_def ctl_post_if data_url_def notify_def exec_wf_def parser_wf_def
        marks_ok_def set_defs)
  with start step show ?thesis by auto
qed

abbreviation step_ok :: "ctl \<Rightarrow> bool" where
  "step_ok \<equiv> ctl_post (exec_wf 0) (exec_wf 1) (\<lambda>s' n. p_errno s' = HPE_OK \<longrightarrow> parser_wf 0 s') False"

lemma step_header_value_start_wf:
  assumes "p_errno s = HPE_OK" and "p_nread s \<le> of_nat max_header_size" and "url_mark s = None" and "status_mark s = None"
    and "header_field_mark s = None" and "header_value_mark s = None" and "body_mark s = None"
  shows "step_ok (step_header_value_start ch s)"
  using assms
  by (cases "p_hstate s")
    (simp_all add: step_header_value_start_def Let_def fail_def ctl_post_if exec_wf_def parser_wf_def
      marks_ok_def set_defs mark_at_def)

definition other_states :: "http_state set" where
  "other_states = {s_req_method, s_start_req, s_body_identity, s_body_identity_eof, s_chunk_data,
     s_chunk_data_almost_done, s_chunk_size_start, s_chunk_size, s_message_done, s_headers_done,
     s_header_value_start, s_header_value_discard_ws}"

lemma step_plain_wf:
  "exec_wf 1 s \<Longrightarrow> p_state s \<notin> url_like \<union> bulk_states \<union> other_states \<Longrightarrow> step_ok (step d ch s)"
  by (cases "p_state s"; (simp add: bulk_states_def url_like_def url_states_def other_states_def; fail)?;
      simp add: step_def step_defs ctl_defs ctl_post_if exec_wf_def parser_wf_def marks_ok_def set_defs
        mark_at_def split: option.splits header_state.splits)

lemma take_body_wf:
  "url_mark (take_body d s) = url_mark s" "status_mark (take_body d s) = status_mark s"
  "header_field_mark (take_body d s) = header_field_mark s"
  "header_value_mark (take_body d s) = header_value_mark s" "p_state (take_body d s) = p_state s"
  "p_errno (take_body d s) = p_errno s" "p_flags (take_body d s) = p_flags s"
  "x_cb (take_body d s) = x_cb s" "p_nread (take_body d s) = p_nread s"
  "p_hstate (take_body d s) = p_hstate s" "p_index (take_body d s) = p_index s"
  "p_method (take_body d s) = p_method s"
  by (simp_all add: take_body_def)

lemma step_other_wf:
  assumes wf: "exec_wf 1 s" and "p_state s \<in> other_states"
  shows "step_ok (step d ch s)"
proof -
  from assms(2) consider "p_state s = s_req_method" | "p_state s = s_start_req"
    | "p_state s = s_body_identity" | "p_state s = s_body_identity_eof" | "p_state s = s_chunk_data"
    | "p_state s = s_chunk_data_almost_done" | "p_state s = s_chunk_size_start"
    | "p_state s = s_chunk_size" | "p_state s = s_message_done" | "p_state s = s_headers_done"
    | "p_state s = s_header_value_start" | "p_state s = s_header_value_discard_ws"
    unfolding other_states_def by blast
  then show ?thesis
  proof cases
    case 1
    let ?m = "method_str (p_method s)"
    from wf 1 have i: "p_index s \<le> length ?m" and "p_index s + 1 < 32"
      using method_short [of "p_method s"] by (auto simp: exec_wf_def parser_wf_def)
    then have inc: "(p_index s + 1) mod 32 = p_index s + 1" by simp
    have "chcode ch = lit_at ?m (p_index s) \<Longrightarrow> chcode ch \<noteq> 0 \<Longrightarrow> p_index s + 1 \<le> length ?m"
      by (rule lit_at_nonzero)
    with wf 1 i inc method_switch_index [of "p_method s" "p_index s" ch] show ?thesis
      by (simp add: step_def step_req_method_def Let_def idx_inc_def fail_def ctl_post_if exec_wf_def
          parser_wf_def marks_ok_def set_defs split: option.splits)
  next
    case 2
    with wf method_first [simplified] show ?thesis
      by (simp add: step_def step_start_req_def ctl_defs ctl_post_if exec_wf_def parser_wf_def
          marks_ok_def set_defs split: option.splits)
  next
    case 3
    with wf take_body_clen [of s d] show ?thesis
      by (simp add: step_def step_body_identity_def Let_def ctl_post_if data_body_def notify_def
          exec_wf_def parser_wf_def marks_ok_def set_defs take_body_wf split: option.splits)
  next
    case 4
    with wf show ?thesis
      by (simp add: step_def step_body_identity_eof_def exec_wf_def parser_wf_def marks_ok_def set_defs)
  next
    case 5
    with wf take_body_clen [of s d] show ?thesis
      by (simp add: step_def step_chunk_data_def Let_def ctl_post_if exec_wf_def parser_wf_def
          marks_ok_def set_defs take_body_wf)
  next
    case 6
    with wf show ?thesis
      by (simp add: step_def step_chunk_data_almost_done_def fail_def ctl_post_if data_body_def
          notify_def exec_wf_def parser_wf_def marks_ok_def set_defs split: option.splits)
  next
    case 7
    have "v < 16 \<Longrightarrow> (of_nat v :: u64) \<noteq> - 1" for v
      using chunk_size_no_max [of 0 v] by simp
    with wf 7 unhex_less [of ch] one_le_max show ?thesis
      by (simp add: step_def step_chunk_size_start_def fail_def goto_def ctl_post_if exec_wf_def
          parser_wf_def marks_ok_def set_defs split: option.splits)
  next
    case 8
    with wf chunk_size_no_max [of "p_clen s"] unhex_less [of ch] show ?thesis
      by (simp add: step_def step_chunk_size_def fail_def goto_def ctl_post_if exec_wf_def
          parser_wf_def marks_ok_def set_defs split: option.splits)
  next
    case 9
    with wf have "exec_wf 0 (new_message s)" by (intro new_message_wf)
        (simp_all add: exec_wf_def parser_wf_def marks_ok_def set_defs)
    with 9 show ?thesis
      by (simp add: step_def step_message_done_def Let_def ctl_post_if exec_wf_def)
  next
    case 10
    let ?s = "s\<lparr>p_nread := 0\<rparr>"
    from wf 10 have "exec_wf 0 (new_message ?s)" by (intro new_message_wf)
        (simp_all add: exec_wf_def parser_wf_def marks_ok_def set_defs)
    with wf 10 show ?thesis
      by (simp add: step_def step_headers_done_def Let_def ctl_post_if fail_def goto_def exec_wf_def
          parser_wf_def marks_ok_def set_defs)
  next
    case 11
    with wf step_header_value_start_wf [of s ch] show ?thesis
      by (simp add: step_def exec_wf_def parser_wf_def marks_ok_def set_defs)
  next
    case 12
    with wf have "step_ok (step_header_value_start ch s)"
      by (intro step_header_value_start_wf)
        (simp_all add: exec_wf_def parser_wf_def marks_ok_def set_defs)
    moreover have "step_ok (if ch = CHR '' '' \<or> ch = HTAB then Next s
        else if ch = CR then goto s_header_value_discard_ws_almost_done s
        else goto s_header_value_discard_lws s)"
      using wf 12 by (simp add: goto_def exec_wf_def parser_wf_def marks_ok_def set_defs)
    ultimately show ?thesis using 12
      by (simp only: step_def step_header_value_discard_ws_def ctl_post_if http_state.case)
        (simp split: if_splits)
  qed
qed

lemma step_keeps_wf:
  assumes "exec_wf 1 s"
  shows "step_ok (step d ch s)"
proof -
  consider "p_state s \<in> url_like" | "p_state s \<in> other_states"
    | "p_state s = s_header_field" | "p_state s = s_header_value"
    | "p_state s \<notin> url_like \<union> bulk_states \<union> other_states"
    unfolding bulk_states_def other_states_def by blast
  then show ?thesis
  proof cases
    case 1
    with assms show ?thesis by (rule step_url_wf)
  next
    case 2
    with assms show ?thesis by (rule step_other_wf)
  next
    case 3
    with step_header_field_wf [OF assms] show ?thesis by (simp add: step_def)
  next
    case 4
    with step_header_value_wf [OF assms] show ?thesis by (simp add: step_def)
  next
    case 5
    with assms show ?thesis by (rule step_plain_wf)
  qed
qed

section \<open>What a call returns\<close>

text \<open>The number a call returns stays within the data; without an error it stops early only to upgrade.\<close>

abbreviation ret_ok :: "string \<Rightarrow> ctl \<Rightarrow> bool" where
  "ret_ok d \<equiv> ctl_post (\<lambda>_. True) (\<lambda>_. True)
     (\<lambda>s' n. n \<le> length d \<and> (p_errno s' = HPE_OK \<longrightarrow> p_upgrade s')) True"

lemma ret_ok_count: "x_pos s \<le> length d \<Longrightarrow> (\<And>s'. x_pos s' = x_pos s \<Longrightarrow> ret_ok d (k s')) \<Longrightarrow>
    ret_ok d (count_header n s k)"
  by (simp add: count_header_def Let_def fail_def)

lemma step_header_field_ret: "x_pos s < length d \<Longrightarrow> ret_ok d (step_header_field d s)"
  using field_loop_pos [of d s]
  by (auto simp: step_header_field_def Let_def fail_def intro!: ret_ok_count split: option.splits)

lemma step_header_value_ret: "x_pos s < length d \<Longrightarrow> ret_ok d (step_header_value d s)"
  using value_loop_pos [of s d "p_hstate s"]
  by (cases "value_loop d s (p_hstate s)")
    (auto simp: step_header_value_def Let_def intro!: ret_ok_count)

lemma new_message_fields:
  "p_errno (new_message s) = p_errno s" "p_upgrade (new_message s) = p_upgrade s"
  by (simp_all add: new_message_def notify_def)

lemma step_plain_ret:
  "p_state s \<notin> bulk_states \<Longrightarrow> p_errno s = HPE_OK \<Longrightarrow> x_pos s < length d \<Longrightarrow> ret_ok d (step d ch s)"
  by (cases "p_state s"; (simp add: bulk_states_def; fail)?;
      simp add: step_def step_defs ctl_defs ctl_post_if split: option.splits header_state.splits)

lemma step_ret:
  assumes "x_pos s < length d" and "p_errno s = HPE_OK"
  shows "ret_ok d (step d ch s)"
proof -
  consider "p_state s = s_header_field" | "p_state s = s_header_value"
    | "p_state s \<in> {s_body_identity, s_chunk_data, s_body_identity_eof}" | "p_state s \<notin> bulk_states"
    unfolding bulk_states_def by blast
  then show ?thesis
  proof cases
    case 1
    with step_header_field_ret [OF assms(1)] show ?thesis by (simp add: step_def)
  next
    case 2
    with step_header_value_ret [OF assms(1)] show ?thesis by (simp add: step_def)
  next
    case 3
    then show ?thesis
      by (auto simp: step_def step_body_identity_def step_chunk_data_def step_body_identity_eof_def
          Let_def)
  next
    case 4
    from step_plain_ret [OF this assms(2,1)] show ?thesis .
  qed
qed

lemma run_char_wf:
  "exec_wf 1 s \<Longrightarrow> x_pos s < length d \<Longrightarrow>
    ctl_post (exec_wf 0) (\<lambda>_. False) (\<lambda>s' n. p_errno s' = HPE_OK \<longrightarrow> parser_wf 0 s') False (run_char d s) \<and>
    ret_ok d (run_char d s)"
proof (induction d s rule: run_char.induct)
  case (1 d s)
  have ok: "step_ok (step d (d ! x_pos s) s)" using 1(2) by (rule step_keeps_wf)
  have "p_errno s = HPE_OK" using 1(2) by (simp add: exec_wf_def parser_wf_def)
  with 1(3) have ret: "ret_ok d (step d (d ! x_pos s) s)" by (rule step_ret)
  show ?case
  proof (cases "step d (d ! x_pos s) s")
    case (Again s1)
    from step_pos [OF 1(3)] Again have "x_pos s1 < length d" by auto
    moreover from ok Again have "exec_wf 1 s1" by simp
    moreover have "run_char d s = run_char d s1" using Again by (subst run_char.simps) simp
    ultimately show ?thesis using 1(1) [OF Again] by simp
  qed (use ok ret in \<open>simp_all add: run_char.simps\<close>)
qed

lemma turn_wf:
  assumes wf: "exec_wf 0 s" and lt: "x_pos s < length d"
  shows "ctl_post (exec_wf 0) (\<lambda>_. False) (\<lambda>s' n. p_errno s' = HPE_OK \<longrightarrow> parser_wf 0 s') False (turn d s) \<and>
    ret_ok d (turn d s)"
proof (cases "PARSING_HEADER (p_state s)")
  case True
  let ?s = "s\<lparr>p_nread := p_nread s + 1\<rparr>"
  show ?thesis
  proof (cases "of_nat max_header_size < p_nread s + 1")
    case over: True
    with True lt show ?thesis by (simp add: turn_def count_header_def fail_def)
  next
    case False
    then have "p_nread s + 1 \<le> of_nat max_header_size" by (simp add: not_less)
    with wf have "exec_wf 1 ?s" by (simp add: exec_wf_def parser_wf_def marks_ok_def)
    from run_char_wf [OF this] lt True False show ?thesis
      by (simp add: turn_def count_header_def)
  qed
next
  case False
  then have "p_state s \<noteq> s_chunk_size_start" by (auto simp: PARSING_HEADER_def)
  with wf have "exec_wf 1 s" by (simp add: exec_wf_def parser_wf_def)
  from run_char_wf [OF this lt] False show ?thesis by (simp add: turn_def)
qed

lemma wf_marks: "exec_wf n s \<Longrightarrow> marks s \<le> 1"
  by (cases "p_state s")
    (simp_all add: marks_def exec_wf_def parser_wf_def marks_ok_def set_defs)

lemma exec_end_parser: "http_parser.truncate (exec_end d s) = http_parser.truncate s"
  by (simp add: exec_end_def ctl_defs http_parser.truncate_def split: option.splits)

lemma exec_loop_wf:
  "exec_wf 0 s \<Longrightarrow> x_pos s \<le> length d \<Longrightarrow>
    \<exists>s' n. exec_loop d s = Some (s', n) \<and> n \<le> length d \<and>
      (p_errno s' = HPE_OK \<longrightarrow> parser_wf 0 s' \<and> (n = length d \<or> p_upgrade s'))"
proof (induction d s rule: exec_loop.induct)
  case (1 d s)
  show ?case
  proof (cases "x_pos s < length d")
    case True
    from turn_wf [OF 1(2) True]
    have t: "ctl_post (exec_wf 0) (\<lambda>_. False) (\<lambda>s' n. p_errno s' = HPE_OK \<longrightarrow> parser_wf 0 s') False (turn d s)"
      and r: "ret_ok d (turn d s)" by auto
    show ?thesis
    proof (cases "turn d s")
      case (Next s1)
      with t have wf: "exec_wf 0 (s1\<lparr>x_pos := x_pos s1 + 1\<rparr>)" by simp
      from turn_pos [OF True Next] have le: "x_pos (s1\<lparr>x_pos := x_pos s1 + 1\<rparr>) \<le> length d" by simp
      have "exec_loop d s = exec_loop d (s1\<lparr>x_pos := x_pos s1 + 1\<rparr>)"
        using True Next by (subst exec_loop.simps) simp
      with 1(1) [OF True Next wf le] show ?thesis by simp
    qed (use t r True in \<open>simp_all add: exec_loop.simps\<close>)
  next
    case False
    have "\<not> 1 < marks s" using wf_marks [OF 1(2)] by simp
    then have "exec_loop d s = Some (exec_end d s, length d)"
      using False by (subst exec_loop.simps) simp
    moreover have "parser_wf 0 (exec_end d s)"
      using 1(2) by (simp add: exec_end_def ctl_defs exec_wf_def parser_wf_def split: option.splits)
    ultimately show ?thesis by simp
  qed
qed

section \<open>No assertion fails\<close>

text \<open>The parsers a program can have: a fresh one, and what a call leaves.\<close>

inductive parser_reach :: "http_parser \<Rightarrow> bool" where
  fresh: "parser_reach (http_parser_init t)"
| call: "parser_reach p \<Longrightarrow> http_parser_execute p d = Some (p', cbs, n) \<Longrightarrow> parser_reach p'"

lemma exec_start_wf: "parser_wf 0 p \<Longrightarrow> exec_wf 0 (exec_start p)"
  by (cases "p_state p")
    (simp_all add: exec_start_def http_parser.defs exec_wf_def parser_wf_def marks_ok_def set_defs)

lemma truncate_wf: "parser_wf n s \<Longrightarrow> parser_wf n (http_parser.truncate s)"
  by (simp add: http_parser.truncate_def parser_wf_def)

lemma execute_wf:
  assumes "p_errno p = HPE_OK \<longrightarrow> parser_wf 0 p"
  shows "\<exists>p' cbs n. http_parser_execute p d = Some (p', cbs, n) \<and>
    (n \<le> length d \<or> d = [] \<and> n = 1) \<and> (p_errno p' = HPE_OK \<longrightarrow> parser_wf 0 p') \<and>
    (p_errno p = HPE_OK \<and> p_errno p' = HPE_OK \<longrightarrow> n = length d \<or> p_upgrade p')"
proof -
  consider "p_errno p \<noteq> HPE_OK" | "p_errno p = HPE_OK" "d = []" | "p_errno p = HPE_OK" "d \<noteq> []"
    by blast
  then show ?thesis
  proof cases
    case 3
    with assms have "exec_wf 0 (exec_start p)" by (simp add: exec_start_wf)
    from exec_loop_wf [OF this, of d] obtain s n where "exec_loop d (exec_start p) = Some (s, n)"
      "n \<le> length d" "p_errno s = HPE_OK \<longrightarrow> parser_wf 0 s \<and> (n = length d \<or> p_upgrade s)"
      by (auto simp: exec_start_def http_parser.defs)
    with 3 show ?thesis
      by (auto simp: http_parser_execute_def truncate_wf) (simp_all add: http_parser.truncate_def)
  qed (use assms in \<open>simp_all add: http_parser_execute_def\<close>)
qed

lemma reach_wf: "parser_reach p \<Longrightarrow> p_errno p = HPE_OK \<longrightarrow> parser_wf 0 p"
proof (induction rule: parser_reach.induct)
  case (fresh t)
  then show ?case
    by (cases t) (simp_all add: http_parser_init_def parser_wf_def chunk_states_def)
next
  case (call p d p' cbs n)
  with execute_wf [of p d] show ?case by auto
qed

text \<open>
  C6: safety of the HTTP parser.  However the bytes of a connection are cut into calls, and whatever
  they are, no assertion of the parser fails and no comparison runs past the end of a method name:
  every call returns.  It consumes at most what it was given (1 of 0 at an unexpected end of the
  stream), and without an error it consumes everything unless the protocol is being upgraded.
\<close>

theorem parser_never_aborts:
  assumes "parser_reach p"
  shows "\<exists>p' cbs n. http_parser_execute p d = Some (p', cbs, n) \<and>
    (n \<le> length d \<or> d = [] \<and> n = 1) \<and>
    (p_errno p = HPE_OK \<and> p_errno p' = HPE_OK \<longrightarrow> n = length d \<or> p_upgrade p')"
  using execute_wf [OF reach_wf [OF assms], of d] by blast

theorem parser_never_aborts_witness:
  "\<exists>p' cbs n. http_parser_execute (http_parser_init HTTP_REQUEST) ''GET /'' = Some (p', cbs, n) \<and>
    (n \<le> length ''GET /'' \<or> ''GET /'' = [] \<and> n = 1) \<and>
    (p_errno (http_parser_init HTTP_REQUEST) = HPE_OK \<and> p_errno p' = HPE_OK \<longrightarrow>
      n = length ''GET /'' \<or> p_upgrade p')"
  by (rule parser_never_aborts [OF parser_reach.fresh])

end
