(* ===== verification/Ys_HttpFrag.thy ===== *)
theory Ys_HttpFrag
  imports Ys_HttpSafe
begin

text \<open>
  The HTTP parser does not depend on how its input is cut: \<open>http_parser_execute\<close> with its inner loops
  agrees with an execution that takes one character at a time, and a message cut in two has the same
  effect on the consumer of the callbacks as the whole message.
\<close>

section \<open>Consumers of callbacks\<close>

text \<open>
  What a consumer of the callbacks has to promise: a token delivered in two pieces has the effect of
  the token delivered in one.
\<close>

locale http_consumer =
  fixes f :: "http_cb \<Rightarrow> 'c \<Rightarrow> 'c"
  assumes url: "f (on_url (a @ b)) c = f (on_url b) (f (on_url a) c)"
    and status: "f (on_status (a @ b)) c = f (on_status b) (f (on_status a) c)"
    and field: "f (on_header_field (a @ b)) c = f (on_header_field b) (f (on_header_field a) c)"
    and val: "f (on_header_value (a @ b)) c = f (on_header_value b) (f (on_header_value a) c)"
    and body: "f (on_body (a @ b)) c = f (on_body b) (f (on_body a) c)"
begin

lemma nil:
  "f (on_url b) (f (on_url []) c) = f (on_url b) c"
  "f (on_status b) (f (on_status []) c) = f (on_status b) c"
  "f (on_header_field b) (f (on_header_field []) c) = f (on_header_field b) c"
  "f (on_header_value b) (f (on_header_value []) c) = f (on_header_value b) c"
  using url [of "[]" b c] status [of "[]" b c] field [of "[]" b c] val [of "[]" b c] by simp_all

end

section \<open>Open tokens\<close>

text \<open>The callbacks for the tokens open at position \<open>p\<close>, as the end of a call makes them.\<close>

definition open_cb :: "string \<Rightarrow> http_exec \<Rightarrow> nat \<Rightarrow> http_cb list" where
  "open_cb d s p =
     (case header_field_mark s of None \<Rightarrow> [] | Some m \<Rightarrow> [on_header_field (slice d m p)]) @
     (case header_value_mark s of None \<Rightarrow> [] | Some m \<Rightarrow> [on_header_value (slice d m p)]) @
     (case url_mark s of None \<Rightarrow> [] | Some m \<Rightarrow> [on_url (slice d m p)]) @
     (case body_mark s of None \<Rightarrow> [] | Some m \<Rightarrow> [on_body (slice d m p)]) @
     (case status_mark s of None \<Rightarrow> [] | Some m \<Rightarrow> [on_status (slice d m p)])"

lemma exec_end_cb: "x_cb (exec_end d s) = x_cb s @ open_cb d s (x_pos s)"
  by (simp add: exec_end_def open_cb_def ctl_defs split: option.splits)

lemma slice_empty [simp]: "slice d p p = []"
  by (simp add: slice_def)

lemma slice_Suc: "m \<le> p \<Longrightarrow> p < length d \<Longrightarrow> slice d m (Suc p) = slice d m p @ [d ! p]"
  by (simp add: slice_def Suc_diff_le take_Suc_conv_app_nth)

lemma slice_one [simp]: "p < length d \<Longrightarrow> slice d p (Suc p) = [d ! p]"
  by (simp add: slice_Suc)

section \<open>Equal parsers\<close>

definition peq :: "http_exec \<Rightarrow> http_exec \<Rightarrow> bool" where
  "peq t s \<longleftrightarrow> p_type t = p_type s \<and> p_flags t = p_flags s \<and> p_state t = p_state s \<and>
     p_hstate t = p_hstate s \<and> p_index t = p_index s \<and> p_te t = p_te s \<and> p_lenient t = p_lenient s \<and>
     p_nread t = p_nread s \<and> p_clen t = p_clen s \<and> p_major t = p_major s \<and> p_minor t = p_minor s \<and>
     p_status t = p_status s \<and> p_method t = p_method s \<and> p_errno t = p_errno s \<and>
     p_upgrade t = p_upgrade s"

lemma peq_truncate: "peq t s \<longleftrightarrow> http_parser.truncate t = http_parser.truncate s"
  by (auto simp: peq_def http_parser.truncate_def)

lemma peq_NEW_MESSAGE: "peq t s \<Longrightarrow> NEW_MESSAGE t = NEW_MESSAGE s" "peq t s \<Longrightarrow> needs_eof t = needs_eof s"
  by (simp_all add: peq_def NEW_MESSAGE_def should_keep_alive_def needs_eof_def)

lemma NEW_MESSAGE_nread [simp]:
  "NEW_MESSAGE (s\<lparr>p_nread := n\<rparr>) = NEW_MESSAGE s" "needs_eof (s\<lparr>p_nread := n\<rparr>) = needs_eof s"
  by (simp_all add: NEW_MESSAGE_def should_keep_alive_def needs_eof_def)

lemma NEW_MESSAGE_exec [simp]:
  "NEW_MESSAGE (s\<lparr>p_state := x\<rparr>) = NEW_MESSAGE s" "needs_eof (s\<lparr>p_state := x\<rparr>) = needs_eof s"
  by (simp_all add: NEW_MESSAGE_def should_keep_alive_def needs_eof_def)

text \<open>Two results of the same kind, with related states.\<close>

fun ctl_rel :: "(http_exec \<Rightarrow> http_exec \<Rightarrow> bool) \<Rightarrow> (http_exec \<Rightarrow> http_exec \<Rightarrow> bool) \<Rightarrow>
    (http_exec \<Rightarrow> http_exec \<Rightarrow> bool) \<Rightarrow> ctl \<Rightarrow> ctl \<Rightarrow> bool" where
  "ctl_rel N A R (Next s) (Next t) = N s t"
| "ctl_rel N A R (Again s) (Again t) = A s t"
| "ctl_rel N A R (Return s n) (Return t k) = R s t"
| "ctl_rel N A R Abort Abort = True"
| "ctl_rel N A R _ _ = False"

lemma ctl_rel_if:
  "ctl_rel N A R (if b then x else y) (if b then x' else y') =
    (if b then ctl_rel N A R x x' else ctl_rel N A R y y')"
  by simp

text \<open>
  \<open>s\<close> stands at position \<open>p\<close> of the data \<open>d\<close>, \<open>t\<close> at position \<open>q\<close> of \<open>e\<close>: the same tokens are open, and the
  callbacks made so far, those for the open tokens included, have had the same effect.
\<close>

definition same_mark :: "nat \<Rightarrow> nat \<Rightarrow> nat option \<Rightarrow> nat option \<Rightarrow> bool" where
  "same_mark p q m k \<longleftrightarrow> (case m of None \<Rightarrow> k = None | Some i \<Rightarrow> i \<le> p \<and> (\<exists>j. k = Some j \<and> j \<le> q))"

definition mark_le :: "nat \<Rightarrow> nat option \<Rightarrow> bool" where
  "mark_le p m \<longleftrightarrow> (case m of None \<Rightarrow> True | Some i \<Rightarrow> i \<le> p)"

definition sim :: "(http_cb \<Rightarrow> 'c \<Rightarrow> 'c) \<Rightarrow> 'c \<Rightarrow> 'c \<Rightarrow> string \<Rightarrow> string \<Rightarrow> nat \<Rightarrow> nat \<Rightarrow>
    http_exec \<Rightarrow> http_exec \<Rightarrow> bool" where
  "sim f c c' d e p q s t \<longleftrightarrow>
     peq t s \<and> same_mark p q (url_mark s) (url_mark t) \<and>
     same_mark p q (status_mark s) (status_mark t) \<and>
     same_mark p q (header_field_mark s) (header_field_mark t) \<and>
     same_mark p q (header_value_mark s) (header_value_mark t) \<and>
     mark_le p (body_mark s) \<and> mark_le q (body_mark t) \<and>
     fold f (x_cb s @ open_cb d s p) c = fold f (x_cb t @ open_cb e t q) c'"

definition sim_ret :: "(http_cb \<Rightarrow> 'c \<Rightarrow> 'c) \<Rightarrow> 'c \<Rightarrow> 'c \<Rightarrow> http_exec \<Rightarrow> http_exec \<Rightarrow> bool" where
  "sim_ret f c c' s t \<longleftrightarrow> peq t s \<and>
     (p_errno s = HPE_OK \<longrightarrow> fold f (x_cb s) c = fold f (x_cb t) c')"

lemmas sim_defs = sim_def same_mark_def mark_le_def open_cb_def

lemma peqD:
  assumes "peq t s"
  shows "p_type t = p_type s" "p_flags t = p_flags s" "p_state t = p_state s"
    "p_hstate t = p_hstate s" "p_index t = p_index s" "p_te t = p_te s" "p_lenient t = p_lenient s"
    "p_nread t = p_nread s" "p_clen t = p_clen s" "p_major t = p_major s" "p_minor t = p_minor s"
    "p_status t = p_status s" "p_method t = p_method s" "p_errno t = p_errno s"
    "p_upgrade t = p_upgrade s" "NEW_MESSAGE t = NEW_MESSAGE s" "needs_eof t = needs_eof s"
  using assms peq_NEW_MESSAGE [OF assms] by (simp_all add: peq_def)

section \<open>States without an open token\<close>

definition token_states :: "http_state set" where
  "token_states = url_states \<union> body_states \<union> {s_res_status, s_header_field, s_header_value}"

definition closed :: "http_exec \<Rightarrow> bool" where
  "closed s \<longleftrightarrow> url_mark s = None \<and> status_mark s = None \<and> header_field_mark s = None \<and>
     header_value_mark s = None \<and> body_mark s = None"

lemma wf_closed: "exec_wf n s \<Longrightarrow> p_state s \<notin> token_states \<Longrightarrow> closed s"
  by (auto simp: exec_wf_def marks_ok_def closed_def token_states_def)

lemma wf_token_url:
  "exec_wf n s \<Longrightarrow> p_state s \<in> url_states \<Longrightarrow> url_mark s \<noteq> None \<and> status_mark s = None \<and>
    header_field_mark s = None \<and> header_value_mark s = None \<and> body_mark s = None"
  by (simp add: exec_wf_url)

lemma wf_token_body:
  "exec_wf n s \<Longrightarrow> p_state s \<in> body_states \<Longrightarrow> url_mark s = None \<and> status_mark s = None \<and>
    header_field_mark s = None \<and> header_value_mark s = None"
  by (cases "p_state s"; (simp add: body_states_def; fail)?;
      simp add: exec_wf_def marks_ok_def url_states_def)

lemma wf_token_one:
  "exec_wf n s \<Longrightarrow> p_state s = s_res_status \<Longrightarrow> status_mark s \<noteq> None \<and> url_mark s = None \<and>
    header_field_mark s = None \<and> header_value_mark s = None \<and> body_mark s = None"
  "exec_wf n s \<Longrightarrow> p_state s = s_header_field \<Longrightarrow> header_field_mark s \<noteq> None \<and> url_mark s = None \<and>
    status_mark s = None \<and> header_value_mark s = None \<and> body_mark s = None \<and> p_hstate s \<in> field_hstates"
  "exec_wf n s \<Longrightarrow> p_state s = s_header_value \<Longrightarrow> header_value_mark s \<noteq> None \<and> url_mark s = None \<and>
    status_mark s = None \<and> header_field_mark s = None \<and> body_mark s = None"
  by (simp_all add: exec_wf_def parser_wf_def marks_ok_def url_states_def body_states_def)

lemma wf_closed_one:
  "exec_wf n s \<Longrightarrow> p_state s \<in> {s_req_spaces_before_url, s_header_value_start,
     s_header_value_discard_ws, s_start_req, s_req_method} \<Longrightarrow> closed s"
  by (cases "p_state s"; (simp; fail)?; simp add: exec_wf_def marks_ok_def closed_def set_defs)

definition plain_states :: "http_state set" where
  "plain_states = UNIV - token_states - {s_req_spaces_before_url, s_header_value_start,
     s_header_value_discard_ws, s_start_req, s_req_method}"

text \<open>What a turn of the loop over a name changes, and on what the change depends.\<close>

lemma match_name_peq:
  "peq t s \<Longrightarrow> p_hstate (match_name w g c t) = p_hstate (match_name w g c s) \<and>
    p_index (match_name w g c t) = p_index (match_name w g c s) \<and>
    p_te (match_name w g c t) = p_te (match_name w g c s)"
  by (simp add: match_name_def idx_inc_def Let_def peq_def)

lemma field_char_frame:
  assumes "field_char d s = Some s'" and "p_hstate s \<noteq> h_general"
  shows "field_char d s = Some (s\<lparr>p_hstate := p_hstate s', p_index := p_index s', p_te := p_te s'\<rparr>)"
proof -
  have "s' = s\<lparr>p_hstate := p_hstate s', p_index := p_index s', p_te := p_te s'\<rparr>"
    using assms
    by (cases "p_hstate s") (auto simp: field_char_def Let_def idx_inc_def match_name_def)
  from arg_cong [OF this, of Some] show ?thesis by (rule trans [OF assms(1)])
qed

lemma field_char_det:
  assumes "field_char d s = Some s'" and "peq t s" and "p_hstate s \<noteq> h_general"
    and "d ! x_pos s = e ! x_pos t"
  shows "\<exists>t'. field_char e t = Some t' \<and> p_hstate t' = p_hstate s' \<and> p_index t' = p_index s' \<and> p_te t' = p_te s'"
proof -
  have t: "p_hstate t = p_hstate s" "p_index t = p_index s" "p_te t = p_te s"
    using assms(2) by (simp_all add: peq_def)
  show ?thesis
    using assms(1,3,4)
    by (cases "p_hstate s"; clarsimp simp: field_char_def Let_def idx_inc_def t match_name_peq [OF assms(2)])
qed

lemma field_char_general:
  "p_hstate s = h_general \<Longrightarrow> length d = Suc (x_pos s) \<Longrightarrow> field_char d s = Some s"
  by (simp add: field_char_def max_header_size_def skip_tokens.simps)

lemma field_char_some:
  "p_hstate s \<in> field_hstates \<Longrightarrow> \<exists>s'. field_char d s = Some s'"
  by (cases "p_hstate s") (simp_all add: field_char_def Let_def field_hstates_def)

text \<open>The same for a turn of the loop over a value.\<close>

fun vstep_rel :: "http_exec \<Rightarrow> http_exec \<Rightarrow> vstep \<Rightarrow> vstep \<Rightarrow> bool" where
  "vstep_rel s t (VGo s' h) (VGo t' k) \<longleftrightarrow> k = h \<and>
     s' = s\<lparr>p_flags := p_flags s', p_index := p_index s', p_clen := p_clen s'\<rparr> \<and>
     t' = t\<lparr>p_flags := p_flags s', p_index := p_index s', p_clen := p_clen s'\<rparr>"
| "vstep_rel s t (VErr s') (VErr t') \<longleftrightarrow> peq t' s' \<and> p_errno s' \<noteq> HPE_OK"
| "vstep_rel s t VAbort VAbort \<longleftrightarrow> True"
| "vstep_rel s t _ _ \<longleftrightarrow> False"

lemma vstep_rel_if:
  "vstep_rel s t (if b then x else y) (if b then x' else y') =
    (if b then vstep_rel s t x x' else vstep_rel s t y y')"
  by simp

lemma value_char_rel:
  assumes "peq t s" and "p_state s = s_header_value"
  shows "vstep_rel s t (value_char ch s h) (value_char ch t h)"
  using assms
  by (cases h)
    (simp_all add: value_char_def Let_def content_length_char_def match_value_def conn_flag_char_def
      idx_inc_def vstep_rel_if peq_def)

lemma value_turn_one:
  assumes "length d = Suc (x_pos s)" and "d ! x_pos s \<noteq> CR" and "d ! x_pos s \<noteq> LF"
    and "p_lenient s \<or> IS_HEADER_CHAR (d ! x_pos s)"
  shows "value_turn d s h = (if h = h_general then VGo s h else value_char (d ! x_pos s) s h)"
  using assms by (auto simp: value_turn_def max_header_size_def value_scan.simps)

context http_consumer
begin

abbreviation srel :: "'c \<Rightarrow> 'c \<Rightarrow> string \<Rightarrow> string \<Rightarrow> http_exec \<Rightarrow> http_exec \<Rightarrow> ctl \<Rightarrow> ctl \<Rightarrow> bool" where
  "srel c c' d e s t \<equiv> ctl_rel
     (\<lambda>s' t'. sim f c c' d e (Suc (x_pos s)) (Suc (x_pos t)) s' t')
     (\<lambda>s' t'. sim f c c' d e (x_pos s) (x_pos t) s' t' \<and> x_pos s' = x_pos s \<and> x_pos t' = x_pos t)
     (sim_ret f c c')"

lemma step_sim_plain:
  "sim f c c' d e (x_pos s) (x_pos t) s t \<Longrightarrow> closed s \<Longrightarrow> closed t \<Longrightarrow>
    x_pos s < length d \<Longrightarrow> x_pos t < length e \<Longrightarrow> d ! x_pos s = ch \<Longrightarrow> e ! x_pos t = ch \<Longrightarrow>
    NEW_MESSAGE t = NEW_MESSAGE s \<Longrightarrow> needs_eof t = needs_eof s \<Longrightarrow>
    p_state s \<in> plain_states \<Longrightarrow> srel c c' d e s t (step d ch s) (step e ch t)"
  by (cases "p_state s"; (simp add: plain_states_def token_states_def set_defs; fail)?;
      simp add: step_def step_defs ctl_defs ctl_rel_if closed_def sim_defs sim_ret_def
        peq_def mark_at_def slice_Suc split: option.splits)

lemma step_sim_value_start:
  assumes "sim f c c' d e (x_pos s) (x_pos t) s t" and "closed s" and "closed t"
    and "x_pos s < length d" and "x_pos t < length e" and "d ! x_pos s = ch" and "e ! x_pos t = ch"
  shows "srel c c' d e s t (step_header_value_start ch s) (step_header_value_start ch t)"
  using assms
  by (cases "p_hstate s")
    (simp_all add: step_header_value_start_def Let_def fail_def ctl_rel_if closed_def sim_defs
      sim_ret_def peq_def mark_at_def slice_Suc)

lemma step_sim_start_req:
  assumes "sim f c c' d e (x_pos s) (x_pos t) s t" and "closed s" and "closed t"
  shows "srel c c' d e s t (step_start_req ch s) (step_start_req ch t)"
    and "srel c c' d e s t (step_req_method ch s) (step_req_method ch t)"
  using assms
  by (simp_all add: step_start_req_def step_req_method_def ctl_defs ctl_rel_if closed_def sim_defs
      sim_ret_def peq_def split: option.splits)

lemma sim_state:
  "sim f c c' d e p q s t \<Longrightarrow> sim f c c' d e p q (s\<lparr>p_state := x\<rparr>) (t\<lparr>p_state := x\<rparr>)"
  by (simp add: sim_def peq_def open_cb_def)

lemma url_step_sim:
  assumes sim: "sim f c c' d e (Suc (x_pos s)) (Suc (x_pos t)) s' t'"
  shows "srel c c' d e s t (url_step ch s') (url_step ch t')"
proof -
  have eq: "p_state t' = p_state s'" using sim by (simp add: sim_def peq_def)
  have peq: "peq t' s'" using sim by (simp add: sim_def)
  let ?x = "parse_url_char (p_state s') ch"
  have "sim_ret f c c' (s'\<lparr>p_state := s_dead, p_errno := HPE_INVALID_URL\<rparr>)
      (t'\<lparr>p_state := s_dead, p_errno := HPE_INVALID_URL\<rparr>)"
    using peq by (simp add: sim_ret_def peq_def)
  with sim_state [OF sim, of ?x] show ?thesis
    by (simp add: url_step_def Let_def fail_def goto_def eq)
qed

lemma step_sim_spaces:
  assumes "sim f c c' d e (x_pos s) (x_pos t) s t" and "closed s" and "closed t"
    and "x_pos s < length d" and "x_pos t < length e" and "d ! x_pos s = ch" and "e ! x_pos t = ch"
  shows "srel c c' d e s t (step_spaces_before_url ch s) (step_spaces_before_url ch t)"
proof -
  let ?u = "\<lambda>s. if p_method (s\<lparr>url_mark := mark_at (url_mark s) (x_pos s)\<rparr>) = HTTP_CONNECT
    then s\<lparr>url_mark := mark_at (url_mark s) (x_pos s), p_state := s_req_server_start\<rparr>
    else s\<lparr>url_mark := mark_at (url_mark s) (x_pos s)\<rparr>"
  have "sim f c c' d e (Suc (x_pos s)) (Suc (x_pos t)) (?u s) (?u t)"
    using assms by (simp add: closed_def sim_defs peq_def mark_at_def slice_Suc)
  from url_step_sim [OF this, of ch]
  have "srel c c' d e s t (url_step ch (?u s)) (url_step ch (?u t))" .
  moreover have "sim f c c' d e (Suc (x_pos s)) (Suc (x_pos t)) s t"
    using assms(1-3) by (simp add: closed_def sim_defs)
  ultimately show ?thesis
    by (simp only: step_spaces_before_url_def Let_def ctl_rel_if ctl_rel.simps if_True if_False) simp
qed

text \<open>The states of a URL.\<close>

lemma step_sim_url:
  assumes sim: "sim f c c' d e (x_pos s) (x_pos t) s t"
    and s: "url_mark s = Some m" "status_mark s = None" "header_field_mark s = None"
      "header_value_mark s = None" "body_mark s = None"
    and t: "body_mark t = None"
    and pos: "x_pos s < length d" "x_pos t < length e" "d ! x_pos s = ch" "e ! x_pos t = ch"
  shows "srel c c' d e s t (step_url_start ch s) (step_url_start ch t)"
    and "srel c c' d e s t (step_url d ch s) (step_url e ch t)"
proof -
  from sim s obtain k where k: "url_mark t = Some k" "k \<le> x_pos t" and m: "m \<le> x_pos s"
    and t': "status_mark t = None" "header_field_mark t = None" "header_value_mark t = None"
    and eq: "f (on_url (slice d m (x_pos s))) (fold f (x_cb s) c) =
      f (on_url (slice e k (x_pos t))) (fold f (x_cb t) c')" and peq: "peq t s"
    using t by (auto simp: sim_defs)
  have "sim f c c' d e (Suc (x_pos s)) (Suc (x_pos t)) s t"
    using s t t' k m pos eq peq by (simp add: sim_defs slice_Suc url)
  from url_step_sim [OF this] have step: "srel c c' d e s t (url_step ch s) (url_step ch t)" .
  have err: "sim_ret f c c' (s\<lparr>p_errno := HPE_INVALID_URL\<rparr>) (t\<lparr>p_errno := HPE_INVALID_URL\<rparr>)"
    using peq by (simp add: sim_ret_def peq_def)
  show "srel c c' d e s t (step_url_start ch s) (step_url_start ch t)"
    using step err by (simp add: step_url_start_def fail_def)
  have "sim f c c' d e (Suc (x_pos s)) (Suc (x_pos t)) (data_url d (x_pos s) (s\<lparr>p_state := x\<rparr>))
      (data_url e (x_pos t) (t\<lparr>p_state := x\<rparr>))" for x
    using s t t' k m eq peq by (simp add: sim_defs data_url_def notify_def peq_def)
  moreover have "sim f c c' d e (Suc (x_pos s)) (Suc (x_pos t))
      (data_url d (x_pos s) (s\<lparr>p_major := 0, p_minor := 9, p_state := x\<rparr>))
      (data_url e (x_pos t) (t\<lparr>p_major := 0, p_minor := 9, p_state := x\<rparr>))" for x
    using s t t' k m eq peq by (simp add: sim_defs data_url_def notify_def peq_def)
  ultimately show "srel c c' d e s t (step_url d ch s) (step_url e ch t)"
    using step by (simp add: step_url_def)
qed

text \<open>The reason phrase.\<close>

lemma step_sim_status:
  assumes sim: "sim f c c' d e (x_pos s) (x_pos t) s t"
    and s: "status_mark s = Some m" "url_mark s = None" "header_field_mark s = None"
      "header_value_mark s = None" "body_mark s = None"
    and t: "body_mark t = None"
    and pos: "x_pos s < length d" "x_pos t < length e" "d ! x_pos s = ch" "e ! x_pos t = ch"
  shows "srel c c' d e s t (step_res_status d ch s) (step_res_status e ch t)"
proof -
  from sim s obtain k where k: "status_mark t = Some k" "k \<le> x_pos t" and m: "m \<le> x_pos s"
    and t': "url_mark t = None" "header_field_mark t = None" "header_value_mark t = None"
    and eq: "f (on_status (slice d m (x_pos s))) (fold f (x_cb s) c) =
      f (on_status (slice e k (x_pos t))) (fold f (x_cb t) c')" and peq: "peq t s"
    using t by (auto simp: sim_defs)
  then show ?thesis
    using s t pos
    by (simp add: step_res_status_def ctl_rel_if sim_defs slice_Suc status data_status_def notify_def
        peq_def)
qed

text \<open>A header name, where the data end with this character.\<close>

lemma step_sim_field:
  assumes sim: "sim f c c' d e (x_pos s) (x_pos t) s t"
    and s: "header_field_mark s = Some m" "url_mark s = None" "status_mark s = None"
      "header_value_mark s = None" "body_mark s = None" "p_hstate s \<in> field_hstates"
    and t: "body_mark t = None"
    and pos: "length d = Suc (x_pos s)" "length e = Suc (x_pos t)" "d ! x_pos s = ch" "e ! x_pos t = ch"
  shows "srel c c' d e s t (step_header_field d s) (step_header_field e t)"
proof -
  from sim s obtain k where k: "header_field_mark t = Some k" "k \<le> x_pos t" and m: "m \<le> x_pos s"
    and t': "url_mark t = None" "status_mark t = None" "header_value_mark t = None"
    and eq: "f (on_header_field (slice d m (x_pos s))) (fold f (x_cb s) c) =
      f (on_header_field (slice e k (x_pos t))) (fold f (x_cb t) c')" and peq: "peq t s"
    using t by (auto simp: sim_defs)
  show ?thesis
  proof (cases "STRICT_TOKEN ch = 0")
    case True
    then have "field_loop d s = Some s" "field_loop e t = Some t"
      using pos by (simp_all add: field_loop.simps)
    then show ?thesis
      using s t t' k m eq peq pos
      by (simp add: step_header_field_def Let_def count_header_def fail_def ctl_rel_if sim_defs
          sim_ret_def slice_Suc data_header_field_def notify_def peq_def)
  next
    case False
    have "\<exists>h i b. field_char d s = Some (s\<lparr>p_hstate := h, p_index := i, p_te := b\<rparr>) \<and>
      field_char e t = Some (t\<lparr>p_hstate := h, p_index := i, p_te := b\<rparr>)"
    proof (cases "p_hstate s = h_general")
      case True
      with peq have "p_hstate t = h_general" by (simp add: peq_def)
      with True pos have "field_char d s = Some s" "field_char e t = Some t"
        by (simp_all add: field_char_general)
      moreover have "s = s\<lparr>p_hstate := p_hstate s, p_index := p_index s, p_te := p_te s\<rparr>" by simp
      moreover have "t = t\<lparr>p_hstate := p_hstate s, p_index := p_index s, p_te := p_te s\<rparr>"
        using peq by (simp add: peq_def)
      ultimately show ?thesis by metis
    next
      case False
      from field_char_some [OF s(6)] obtain s' where s': "field_char d s = Some s'" by blast
      from field_char_det [OF s' peq False, of e] pos obtain t1 where t1: "field_char e t = Some t1"
        "p_hstate t1 = p_hstate s'" "p_index t1 = p_index s'" "p_te t1 = p_te s'" by auto
      from False peq have "p_hstate t \<noteq> h_general" by (simp add: peq_def)
      note field_char_frame [OF t1(1) this, unfolded t1(2-4)]
      with field_char_frame [OF s' False] show ?thesis by blast
    qed
    then obtain h i b where fc: "field_char d s = Some (s\<lparr>p_hstate := h, p_index := i, p_te := b\<rparr>)"
      "field_char e t = Some (t\<lparr>p_hstate := h, p_index := i, p_te := b\<rparr>)" by blast
    then have "field_loop d s = Some (s\<lparr>p_hstate := h, p_index := i, p_te := b, x_pos := Suc (x_pos s)\<rparr>)"
      "field_loop e t = Some (t\<lparr>p_hstate := h, p_index := i, p_te := b, x_pos := Suc (x_pos t)\<rparr>)"
      using pos False by (simp_all add: field_loop.simps)
    then show ?thesis
      using s t t' k m eq peq pos
      by (simp add: step_header_field_def Let_def count_header_def fail_def ctl_rel_if sim_defs
          sim_ret_def slice_Suc field peq_def)
  qed
qed

text \<open>A header value, where the data end with this character.\<close>

lemma step_sim_value:
  assumes sim: "sim f c c' d e (x_pos s) (x_pos t) s t"
    and s: "header_value_mark s = Some m" "url_mark s = None" "status_mark s = None"
      "header_field_mark s = None" "body_mark s = None" "p_state s = s_header_value"
    and t: "body_mark t = None"
    and pos: "length d = Suc (x_pos s)" "length e = Suc (x_pos t)" "d ! x_pos s = ch" "e ! x_pos t = ch"
  shows "srel c c' d e s t (step_header_value d s) (step_header_value e t)"
proof -
  from sim s obtain k where k: "header_value_mark t = Some k" "k \<le> x_pos t" and m: "m \<le> x_pos s"
    and t': "url_mark t = None" "status_mark t = None" "header_field_mark t = None"
    and eq: "f (on_header_value (slice d m (x_pos s))) (fold f (x_cb s) c) =
      f (on_header_value (slice e k (x_pos t))) (fold f (x_cb t) c')" and peq: "peq t s"
    using t by (auto simp: sim_defs)
  have lt: "x_pos s < length d" "x_pos t < length e" using pos by auto
  consider "ch = CR" | "ch = LF" | "ch \<noteq> CR" "ch \<noteq> LF" "\<not> p_lenient s" "\<not> IS_HEADER_CHAR ch"
    | "ch \<noteq> CR" "ch \<noteq> LF" "p_lenient s \<or> IS_HEADER_CHAR ch"
    by blast
  then show ?thesis
  proof cases
    case 1
    then show ?thesis
      using s t t' k m eq peq pos lt
      by (simp add: step_header_value_def value_loop_CR Let_def count_header_def fail_def ctl_rel_if
          sim_defs sim_ret_def data_header_value_def notify_def peq_def)
  next
    case 2
    then show ?thesis
      using s t t' k m eq peq pos lt
      by (simp add: step_header_value_def value_loop_LF Let_def count_header_def fail_def ctl_rel_if
          sim_defs sim_ret_def data_header_value_def notify_def peq_def)
  next
    case 3
    then show ?thesis
      using s t t' k m eq peq pos lt
      by (simp add: step_header_value_def value_loop_bad Let_def fail_def sim_ret_def peq_def)
  next
    case 4
    from 4 peq pos have lt4: "p_lenient t \<or> IS_HEADER_CHAR (e ! x_pos t)"
      "p_lenient s \<or> IS_HEADER_CHAR (d ! x_pos s)" by (auto simp: peq_def)
    have hs: "p_hstate t = p_hstate s" using peq by (simp add: peq_def)
    let ?h = "p_hstate s"
    have vs: "value_turn d s ?h = (if ?h = h_general then VGo s ?h else value_char ch s ?h)"
      using value_turn_one [of d s ?h] 4 lt4 pos by simp
    have vt: "value_turn e t ?h = (if ?h = h_general then VGo t ?h else value_char ch t ?h)"
      using value_turn_one [of e t ?h] 4 lt4 pos by simp
    have rel: "vstep_rel s t (value_turn d s ?h) (value_turn e t ?h)"
    proof (cases "?h = h_general")
      case True
      have "vstep_rel s t (VGo s ?h) (VGo t ?h)" using peq by (simp add: peq_def)
      moreover have "value_turn d s ?h = VGo s ?h" "value_turn e t ?h = VGo t ?h"
        using vs vt True by simp_all
      ultimately show ?thesis by (simp only:)
    next
      case False
      with value_char_rel [OF peq s(6)] show ?thesis by (simp add: vs vt)
    qed
    note ls = value_loop_turn [OF lt(1), of ?h] and lt' = value_loop_turn [OF lt(2), of ?h]
    show ?thesis
    proof (cases "value_turn d s ?h")
      case (VGo s1 h1)
      with rel obtain t1 where t1: "value_turn e t ?h = VGo t1 h1"
        "s1 = s\<lparr>p_flags := p_flags s1, p_index := p_index s1, p_clen := p_clen s1\<rparr>"
        "t1 = t\<lparr>p_flags := p_flags s1, p_index := p_index s1, p_clen := p_clen s1\<rparr>"
        by (cases "value_turn e t ?h") auto
      then obtain fl i cl where u: "s1 = s\<lparr>p_flags := fl, p_index := i, p_clen := cl\<rparr>"
        "t1 = t\<lparr>p_flags := fl, p_index := i, p_clen := cl\<rparr>" by blast
      have "value_loop d s ?h = LEnd (s1\<lparr>x_pos := Suc (x_pos s)\<rparr>) h1"
        using ls 4 lt4 pos VGo u by (simp add: value_loop_end)
      moreover have "value_loop e t ?h = LEnd (t1\<lparr>x_pos := Suc (x_pos t)\<rparr>) h1"
        using lt' 4 lt4 pos t1(1) u by (simp add: value_loop_end)
      ultimately show ?thesis
        using s t t' k m eq peq pos hs
        by (simp add: step_header_value_def Let_def count_header_def fail_def ctl_rel_if sim_defs
            sim_ret_def slice_Suc val peq_def u)
    next
      case (VErr s1)
      with rel obtain t1 where t1: "value_turn e t ?h = VErr t1" "peq t1 s1" "p_errno s1 \<noteq> HPE_OK"
        by (cases "value_turn e t ?h") auto
      with VErr ls lt' 4 lt4 pos show ?thesis
        by (simp add: step_header_value_def hs sim_ret_def)
    next
      case VAbort
      with rel have "value_turn e t ?h = VAbort" by (cases "value_turn e t ?h") auto
      with VAbort ls lt' 4 lt4 pos show ?thesis by (simp add: step_header_value_def hs)
    qed
  qed
qed

text \<open>The body.\<close>

lemma take_body_one:
  assumes "length d = Suc (x_pos s)" and "p_clen s \<noteq> 0"
  shows "take_body d s = s\<lparr>body_mark := mark_at (body_mark s) (x_pos s), p_clen := p_clen s - 1\<rparr>"
proof -
  have "to_read d s = 1" using assms by (simp add: to_read_def unat_gt_0 Suc_leI)
  then show ?thesis by (simp add: take_body_def)
qed

lemma step_sim_body:
  assumes sim: "sim f c c' d e (x_pos s) (x_pos t) s t"
    and s: "header_value_mark s = None" "url_mark s = None" "status_mark s = None"
      "header_field_mark s = None"
    and pos: "length d = Suc (x_pos s)" "length e = Suc (x_pos t)" "d ! x_pos s = ch" "e ! x_pos t = ch"
    and st: "p_state s \<in> {s_body_identity, s_chunk_data, s_body_identity_eof, s_chunk_data_almost_done}"
  shows "srel c c' d e s t (step d ch s) (step e ch t)"
proof -
  have peq: "peq t s" using sim by (simp add: sim_def)
  from sim s have t: "header_value_mark t = None" "url_mark t = None" "status_mark t = None"
    "header_field_mark t = None" by (auto simp: sim_defs)
  have adv: "sim f c c' d e (Suc (x_pos s)) (Suc (x_pos t))
      (s\<lparr>body_mark := mark_at (body_mark s) (x_pos s)\<rparr>) (t\<lparr>body_mark := mark_at (body_mark t) (x_pos t)\<rparr>)"
    using sim s t pos
    by (cases "body_mark s"; cases "body_mark t")
      (simp_all add: sim_defs mark_at_def slice_Suc body peq_def)
  consider "p_state s = s_body_identity" | "p_state s = s_chunk_data"
    | "p_state s = s_body_identity_eof" | "p_state s = s_chunk_data_almost_done"
    using st by blast
  then show ?thesis
  proof cases
    case 1
    show ?thesis
    proof (cases "p_clen s = 0 \<or> p_clen s = - 1")
      case True
      with 1 peq show ?thesis by (auto simp: step_def step_body_identity_def peq_def)
    next
      case False
      with peq have tb: "take_body d s = s\<lparr>body_mark := mark_at (body_mark s) (x_pos s), p_clen := p_clen s - 1\<rparr>"
        "take_body e t = t\<lparr>body_mark := mark_at (body_mark t) (x_pos t), p_clen := p_clen s - 1\<rparr>"
        using pos by (simp_all add: take_body_one peq_def)
      obtain i where i: "mark_at (body_mark s) (x_pos s) = Some i"
        by (cases "body_mark s") (auto simp: mark_at_def)
      obtain j where j: "mark_at (body_mark t) (x_pos t) = Some j"
        by (cases "body_mark t") (auto simp: mark_at_def)
      have eq: "f (on_body (slice d i (Suc (x_pos s)))) (fold f (x_cb s) c) =
          f (on_body (slice e j (Suc (x_pos t)))) (fold f (x_cb t) c')"
        "i \<le> Suc (x_pos s)" "j \<le> Suc (x_pos t)"
        using adv s t i j by (simp_all add: sim_defs)
      show ?thesis
        using 1 False peq s t eq
        by (simp add: step_def step_body_identity_def tb i j Let_def ctl_rel_if data_body_def
            notify_def sim_defs peq_def)
    qed
  next
    case 2
    show ?thesis
    proof (cases "p_clen s = 0 \<or> p_clen s = - 1")
      case True
      with 2 peq show ?thesis by (auto simp: step_def step_chunk_data_def peq_def)
    next
      case False
      with peq have tb: "take_body d s = s\<lparr>body_mark := mark_at (body_mark s) (x_pos s), p_clen := p_clen s - 1\<rparr>"
        "take_body e t = t\<lparr>body_mark := mark_at (body_mark t) (x_pos t), p_clen := p_clen s - 1\<rparr>"
        using pos by (simp_all add: take_body_one peq_def)
      with 2 False peq adv s t show ?thesis
        by (simp add: step_def step_chunk_data_def Let_def ctl_rel_if sim_defs peq_def)
    qed
  next
    case 3
    with peq adv s t pos show ?thesis
      by (simp add: step_def step_body_identity_eof_def sim_defs peq_def)
  next
    case 4
    with peq sim s t show ?thesis
      by (cases "body_mark s"; cases "body_mark t")
        (simp_all add: step_def step_chunk_data_almost_done_def fail_def ctl_rel_if data_body_def
          notify_def sim_defs sim_ret_def peq_def)
  qed
qed

text \<open>All states together, and the jumps on one character.\<close>

lemma step_sim:
  assumes sim: "sim f c c' d e (x_pos s) (x_pos t) s t" and wf: "exec_wf 1 s" "exec_wf 1 t"
    and pos: "length d = Suc (x_pos s)" "length e = Suc (x_pos t)" "d ! x_pos s = ch" "e ! x_pos t = ch"
  shows "srel c c' d e s t (step d ch s) (step e ch t)"
proof -
  have peq: "peq t s" using sim by (simp add: sim_def)
  then have st: "p_state t = p_state s" by (simp add: peq_def)
  have lt: "x_pos s < length d" "x_pos t < length e" using pos by auto
  consider "p_state s \<in> url_states" | "p_state s = s_res_status" | "p_state s = s_header_field"
    | "p_state s = s_header_value" | "p_state s \<in> body_states"
    | "p_state s \<in> plain_states"
    | "p_state s = s_req_spaces_before_url" | "p_state s = s_header_value_start"
    | "p_state s = s_header_value_discard_ws" | "p_state s = s_start_req" | "p_state s = s_req_method"
    unfolding plain_states_def token_states_def by blast
  then show ?thesis
  proof cases
    case 1
    from wf_token_url [OF wf(1) 1] wf_token_url [OF wf(2)] 1 st obtain m where
      "url_mark s = Some m" "status_mark s = None" "header_field_mark s = None"
      "header_value_mark s = None" "body_mark s = None" "body_mark t = None" by auto
    from step_sim_url [OF sim this lt pos(3,4)]
    have "srel c c' d e s t (step_url_start ch s) (step_url_start ch t)"
      "srel c c' d e s t (step_url d ch s) (step_url e ch t)" .
    with 1 st show ?thesis
      by (cases "p_state s"; (simp add: url_states_def; fail)?; simp add: step_def)
  next
    case 2
    from wf_token_one(1) [OF wf(1) 2] wf_token_one(1) [OF wf(2)] 2 st obtain m where
      "status_mark s = Some m" "url_mark s = None" "header_field_mark s = None"
      "header_value_mark s = None" "body_mark s = None" "body_mark t = None" by auto
    from step_sim_status [OF sim this lt pos(3,4)] 2 st show ?thesis by (simp add: step_def)
  next
    case 3
    from wf_token_one(2) [OF wf(1) 3] wf_token_one(2) [OF wf(2)] 3 st obtain m where
      "header_field_mark s = Some m" "url_mark s = None" "status_mark s = None"
      "header_value_mark s = None" "body_mark s = None" "p_hstate s \<in> field_hstates" "body_mark t = None"
      by auto
    from step_sim_field [OF sim this pos] 3 st show ?thesis by (simp add: step_def)
  next
    case 4
    from wf_token_one(3) [OF wf(1) 4] wf_token_one(3) [OF wf(2)] 4 st obtain m where
      "header_value_mark s = Some m" "url_mark s = None" "status_mark s = None"
      "header_field_mark s = None" "body_mark s = None" "p_state s = s_header_value" "body_mark t = None"
      by auto
    from step_sim_value [OF sim this pos] 4 st show ?thesis by (simp add: step_def)
  next
    case 5
    from wf_token_body [OF wf(1) 5] have "header_value_mark s = None" "url_mark s = None"
      "status_mark s = None" "header_field_mark s = None" by auto
    from step_sim_body [OF sim this pos] 5 show ?thesis by (auto simp: body_states_def)
  next
    case 6
    then have "p_state s \<notin> token_states" by (simp add: plain_states_def)
    with wf_closed [OF wf(1)] wf_closed [OF wf(2)] st have "closed s" "closed t" by simp_all
    from step_sim_plain [OF sim this lt pos(3,4) peqD(16,17) [OF peq] 6] show ?thesis .
  next
    case 7
    then have "closed s" "closed t"
      using wf_closed_one [OF wf(1)] wf_closed_one [OF wf(2)] st by simp_all
    from step_sim_spaces [OF sim this lt pos(3,4)] 7 st show ?thesis by (simp add: step_def)
  next
    case 8
    then have "closed s" "closed t"
      using wf_closed_one [OF wf(1)] wf_closed_one [OF wf(2)] st by simp_all
    from step_sim_value_start [OF sim this lt pos(3,4)] 8 st show ?thesis by (simp add: step_def)
  next
    case 9
    then have cl: "closed s" "closed t"
      using wf_closed_one [OF wf(1)] wf_closed_one [OF wf(2)] st by simp_all
    have "sim f c c' d e (Suc (x_pos s)) (Suc (x_pos t)) s t"
      using sim cl by (simp add: closed_def sim_defs)
    with sim_state [OF this] step_sim_value_start [OF sim cl lt pos(3,4)] 9 st show ?thesis
      by (simp add: step_def step_header_value_discard_ws_def goto_def)
  next
    case 10
    then have "closed s" "closed t"
      using wf_closed_one [OF wf(1)] wf_closed_one [OF wf(2)] st by simp_all
    from step_sim_start_req(1) [OF sim this] 10 st show ?thesis by (simp add: step_def)
  next
    case 11
    then have "closed s" "closed t"
      using wf_closed_one [OF wf(1)] wf_closed_one [OF wf(2)] st by simp_all
    from step_sim_start_req(2) [OF sim this] 11 st show ?thesis by (simp add: step_def)
  qed
qed

lemma run_char_sim:
  "sim f c c' d e (x_pos s) (x_pos t) s t \<Longrightarrow> exec_wf 1 s \<Longrightarrow> exec_wf 1 t \<Longrightarrow>
    length d = Suc (x_pos s) \<Longrightarrow> length e = Suc (x_pos t) \<Longrightarrow> d ! x_pos s = e ! x_pos t \<Longrightarrow>
    ctl_rel (sim f c c' d e (length d) (length e)) (\<lambda>_ _. False) (sim_ret f c c')
      (run_char d s) (run_char e t)"
proof (induction d s arbitrary: t rule: run_char.induct)
  case (1 d s)
  have srel: "srel c c' d e s t (step d (d ! x_pos s) s) (step e (e ! x_pos t) t)"
    using step_sim [OF 1(2-6) refl 1(7) [symmetric]] 1(7) by simp
  have wf: "step_ok (step d (d ! x_pos s) s)" "step_ok (step e (e ! x_pos t) t)"
    using 1(3,4) by (simp_all add: step_keeps_wf)
  show ?case
  proof (cases "step d (d ! x_pos s) s")
    case (Again s1)
    with srel obtain t1 where t1: "step e (e ! x_pos t) t = Again t1"
      and rel: "sim f c c' d e (x_pos s) (x_pos t) s1 t1" "x_pos s1 = x_pos s" "x_pos t1 = x_pos t"
      by (cases "step e (e ! x_pos t) t") auto
    have "run_char d s = run_char d s1" "run_char e t = run_char e t1"
      using Again t1 by (simp_all add: run_char.simps [of d s] run_char.simps [of e t])
    moreover have "ctl_rel (sim f c c' d e (length d) (length e)) (\<lambda>_ _. False) (sim_ret f c c')
        (run_char d s1) (run_char e t1)"
      using 1(1) [OF Again, of t1] rel wf Again t1 1(5-7) by simp
    ultimately show ?thesis by simp
  next
    case (Next s1)
    with srel 1(5,6) show ?thesis
      by (cases "step e (e ! x_pos t) t") (simp_all add: run_char.simps)
  next
    case (Return s1 n)
    with srel show ?thesis by (cases "step e (e ! x_pos t) t") (simp_all add: run_char.simps)
  next
    case Abort
    with wf show ?thesis by simp
  qed
qed

lemma sim_nread:
  "sim f c c' d e p q s t \<Longrightarrow> sim f c c' d e p q (s\<lparr>p_nread := n\<rparr>) (t\<lparr>p_nread := n\<rparr>)"
  by (simp add: sim_def peq_def open_cb_def)

lemma turn_sim:
  assumes sim: "sim f c c' d e (x_pos s) (x_pos t) s t" and wf: "exec_wf 0 s" "exec_wf 0 t"
    and pos: "length d = Suc (x_pos s)" "length e = Suc (x_pos t)" "d ! x_pos s = e ! x_pos t"
  shows "ctl_rel (sim f c c' d e (length d) (length e)) (\<lambda>_ _. False) (sim_ret f c c') (turn d s) (turn e t)"
proof -
  have peq: "peq t s" using sim by (simp add: sim_def)
  then have st: "p_state t = p_state s" "p_nread t = p_nread s" by (simp_all add: peq_def)
  show ?thesis
  proof (cases "PARSING_HEADER (p_state s)")
    case False
    then have "p_state s \<noteq> s_chunk_size_start" by (auto simp: PARSING_HEADER_def)
    with wf st have "exec_wf 1 s" "exec_wf 1 t" by (simp_all add: exec_wf_def parser_wf_def)
    from run_char_sim [OF sim this pos] False st show ?thesis by (simp add: turn_def)
  next
    case True
    let ?s = "s\<lparr>p_nread := p_nread s + 1\<rparr>" and ?t = "t\<lparr>p_nread := p_nread s + 1\<rparr>"
    show ?thesis
    proof (cases "of_nat max_header_size < p_nread s + 1")
      case over: True
      with True st peq show ?thesis
        by (simp add: turn_def count_header_def fail_def sim_ret_def peq_def)
    next
      case False
      then have "p_nread s + 1 \<le> of_nat max_header_size" by (simp add: not_less)
      with wf st have "exec_wf 1 ?s" "exec_wf 1 ?t" by (simp_all add: exec_wf_def parser_wf_def marks_ok_def)
      from run_char_sim [OF _ this, of c c' d e] sim_nread [OF sim] True False st pos show ?thesis
        by (simp add: turn_def count_header_def)
    qed
  qed
qed

end

section \<open>One character at a time\<close>

text \<open>A turn that sees no more than its character.\<close>

definition cturn :: "string \<Rightarrow> http_exec \<Rightarrow> ctl" where
  "cturn d s = turn (take (Suc (x_pos s)) d) s"

lemma slice_take: "k \<le> n \<Longrightarrow> slice (take n d) m k = slice d m k"
  by (simp add: slice_def drop_take min.absorb1)

lemma data_take:
  "k \<le> n \<Longrightarrow> data_url (take n d) k s = data_url d k s"
  "k \<le> n \<Longrightarrow> data_status (take n d) k s = data_status d k s"
  "k \<le> n \<Longrightarrow> data_header_field (take n d) k s = data_header_field d k s"
  "k \<le> n \<Longrightarrow> data_header_value (take n d) k s = data_header_value d k s"
  "k \<le> n \<Longrightarrow> data_body (take n d) k s = data_body d k s"
  by (simp_all add: data_url_def data_status_def data_header_field_def data_header_value_def
      data_body_def slice_take split: option.splits)

lemma step_take:
  "p_state s \<notin> bulk_states \<Longrightarrow> x_pos s < n \<Longrightarrow> step (take n d) ch s = step d ch s"
  by (cases "p_state s"; (simp add: bulk_states_def; fail)?;
      simp add: step_def step_url_def step_res_status_def step_header_value_discard_lws_def
        step_chunk_data_almost_done_def data_take Let_def)

lemma step_again_plain: "step d ch s = Again s' \<Longrightarrow> p_state s' \<notin> bulk_states"
proof -
  assume eq: "step d ch s = Again s'"
  have "ctl_post (\<lambda>_. True) (\<lambda>s'. p_state s' \<notin> bulk_states) (\<lambda>_ _. True) True (step d ch s)"
    if "p_state s \<notin> bulk_states"
    using that
    by (cases "p_state s"; (simp add: bulk_states_def; fail)?;
        simp add: step_def step_defs ctl_defs ctl_post_if bulk_states_def
          split: option.splits header_state.splits)
  moreover have ?thesis if "p_state s \<in> bulk_states"
  proof -
    from that consider "p_state s = s_header_field" | "p_state s = s_header_value"
      | "p_state s = s_body_identity" | "p_state s \<in> {s_chunk_data, s_body_identity_eof}"
      unfolding bulk_states_def by blast
    then show ?thesis
    proof cases
      case 2
      with eq step_header_value_again [of d s s'] show ?thesis by (simp add: step_def bulk_states_def)
    qed (use eq in \<open>auto simp: step_def step_header_field_again step_body_identity_def
          step_chunk_data_def step_body_identity_eof_def Let_def data_body_def notify_def
          bulk_states_def split: if_splits option.splits\<close>)
  qed
  ultimately show ?thesis using eq by fastforce
qed

lemma run_char_take:
  "step (take n d) (d ! x_pos s) s = step d (d ! x_pos s) s \<Longrightarrow> x_pos s < n \<Longrightarrow> n \<le> length d \<Longrightarrow>
    (\<And>s'. step d (d ! x_pos s) s = Again s' \<Longrightarrow> x_pos s' < n) \<Longrightarrow>
    run_char (take n d) s = run_char d s"
proof (induction d s rule: run_char.induct)
  case (1 d s)
  show ?case
  proof (cases "step d (d ! x_pos s) s")
    case (Again s1)
    have lt: "x_pos s1 < n" by (rule 1(5) [OF Again])
    have pl: "p_state s1 \<notin> bulk_states" by (rule step_again_plain [OF Again])
    have "run_char (take n d) s1 = run_char d s1"
    proof (rule 1(1) [OF Again])
      show "step (take n d) (d ! x_pos s1) s1 = step d (d ! x_pos s1) s1"
        by (rule step_take [OF pl lt])
      fix s2 assume "step d (d ! x_pos s1) s1 = Again s2"
      with step_pos_plain [OF pl, of d "d ! x_pos s1"] lt show "x_pos s2 < n" by simp
    qed (use lt 1(4) in auto)
    with Again 1(2,3) show ?thesis
      by (simp add: run_char.simps [of d s] run_char.simps [of "take n d" s])
  qed (use 1(2,3) in \<open>simp_all add: run_char.simps [of d s] run_char.simps [of "take n d" s]\<close>)
qed

lemma turn_take:
  assumes "\<And>s'. s' = s \<or> s' = s\<lparr>p_nread := p_nread s + 1\<rparr> \<Longrightarrow>
      step (take n d) (d ! x_pos s) s' = step d (d ! x_pos s) s' \<and>
      (\<forall>s2. step d (d ! x_pos s) s' = Again s2 \<longrightarrow> x_pos s2 < n)"
    and "x_pos s < n" and "n \<le> length d"
  shows "turn (take n d) s = turn d s"
proof -
  have "run_char (take n d) s' = run_char d s'" if "s' = s \<or> s' = s\<lparr>p_nread := p_nread s + 1\<rparr>" for s'
    by (rule run_char_take) (use assms(1) [OF that] assms(2,3) that in auto)
  then show ?thesis by (simp add: turn_def count_header_def Let_def)
qed

lemma turn_take_plain:
  assumes "p_state s \<notin> bulk_states" and "x_pos s < n" and "n \<le> length d"
  shows "turn (take n d) s = turn d s"
proof (rule turn_take)
  fix s' assume s': "s' = s \<or> s' = s\<lparr>p_nread := p_nread s + 1\<rparr>"
  then have pl: "p_state s' \<notin> bulk_states" and pos: "x_pos s' = x_pos s" using assms(1) by auto
  have "\<forall>s2. step d (d ! x_pos s) s' = Again s2 \<longrightarrow> x_pos s2 < n"
    using step_pos_plain [OF pl, of d "d ! x_pos s"] assms(2) pos by auto
  with step_take [OF pl, of n d] pos assms(2)
  show "step (take n d) (d ! x_pos s) s' = step d (d ! x_pos s) s' \<and>
      (\<forall>s2. step d (d ! x_pos s) s' = Again s2 \<longrightarrow> x_pos s2 < n)" by simp
qed (use assms in auto)

section \<open>Unrolling the inner loops\<close>

text \<open>Counting does not wrap around on data no longer than the limit of the headers.\<close>

lemma nread_over:
  assumes "a \<le> of_nat max_header_size" and "k \<le> 3 * max_header_size"
  shows "(of_nat max_header_size < a + of_nat k) \<longleftrightarrow> max_header_size < unat (a :: u32) + k"
proof -
  have m: "unat (of_nat max_header_size :: u32) = max_header_size" by (simp add: max_header_size_def)
  have "unat a \<le> max_header_size" using assms(1) m by (simp add: word_le_nat_alt)
  then have "unat (a + of_nat k) = unat a + k"
    using assms(2) by (simp add: unat_word_ariths unat_of_nat max_header_size_def)
  with m show ?thesis by (simp add: word_less_nat_alt)
qed

lemma count_header_eq:
  assumes "m + of_nat k = m' + of_nat k'"
  shows "count_header k (z\<lparr>p_nread := m\<rparr>) K = count_header k' (z\<lparr>p_nread := m'\<rparr>) K"
  using assms by (simp add: count_header_def)

text \<open>The loop over a name.\<close>

lemma field_char_nread:
  "field_char d (s\<lparr>p_nread := n\<rparr>) = map_option (\<lambda>x. x\<lparr>p_nread := n\<rparr>) (field_char d s)"
  by (cases "p_hstate s") (simp_all add: field_char_def match_name_def idx_inc_def Let_def)

lemma field_loop_nread:
  "field_loop d (s\<lparr>p_nread := n\<rparr>) = map_option (\<lambda>x. x\<lparr>p_nread := n\<rparr>) (field_loop d s)"
proof (induction d s rule: field_loop.induct)
  case (1 d s)
  have comm: "x\<lparr>p_nread := n, x_pos := q\<rparr> = x\<lparr>x_pos := q, p_nread := n\<rparr>" for x :: http_exec and q
    by simp
  show ?case
  proof (cases "x_pos s < length d \<and> STRICT_TOKEN (d ! x_pos s) \<noteq> 0")
    case True
    show ?thesis
    proof (cases "field_char d s")
      case (Some s1)
      from 1 [OF True this] Some True show ?thesis
        by (simp add: field_loop.simps [of d s] field_loop.simps [of d "s\<lparr>p_nread := n\<rparr>"]
            field_char_nread comm)
    qed (use True in \<open>simp add: field_loop.simps [of d s] field_loop.simps [of d "s\<lparr>p_nread := n\<rparr>"] field_char_nread\<close>)
  next
    case False
    then have "field_loop d s = Some s" "field_loop d (s\<lparr>p_nread := n\<rparr>) = Some (s\<lparr>p_nread := n\<rparr>)"
      by (auto simp: field_loop.simps)
    then show ?thesis by simp
  qed
qed

lemma field_loop_general:
  assumes "p_hstate s = h_general" and "x_pos s < length d" and "length d \<le> max_header_size"
    and "STRICT_TOKEN (d ! x_pos s) \<noteq> 0"
  shows "field_loop d s = field_loop d (s\<lparr>x_pos := Suc (x_pos s)\<rparr>)"
proof -
  have fl: "field_loop d (s\<lparr>x_pos := q\<rparr>) = field_loop d (s\<lparr>x_pos := Suc (skip_tokens d q (length d))\<rparr>)"
    if "q < length d" "STRICT_TOKEN (d ! q) \<noteq> 0" for q
    using that assms(1,3)
    by (subst field_loop.simps) (simp add: field_char_def)
  have "s\<lparr>x_pos := x_pos s\<rparr> = s" by simp
  with fl [OF assms(2,4)] have l: "field_loop d s = field_loop d (s\<lparr>x_pos := Suc (skip_tokens d (x_pos s) (length d))\<rparr>)"
    by simp
  show ?thesis
  proof (cases "Suc (x_pos s) < length d \<and> STRICT_TOKEN (d ! Suc (x_pos s)) \<noteq> 0")
    case True
    then have "skip_tokens d (x_pos s) (length d) = skip_tokens d (Suc (x_pos s)) (length d)"
      by (subst skip_tokens.simps) simp
    with l fl [of "Suc (x_pos s)"] True show ?thesis by simp
  next
    case False
    then have "skip_tokens d (x_pos s) (length d) = x_pos s" by (subst skip_tokens.simps) auto
    with l show ?thesis by simp
  qed
qed

lemma field_loop_unroll:
  assumes hs: "p_hstate s \<in> field_hstates" and lt: "x_pos s < length d"
    and len: "length d \<le> max_header_size" and tok: "STRICT_TOKEN (d ! x_pos s) \<noteq> 0"
  obtains s1 where "field_loop (take (Suc (x_pos s)) d) s = Some (s1\<lparr>x_pos := Suc (x_pos s)\<rparr>)"
    and "field_loop d s = field_loop d (s1\<lparr>x_pos := Suc (x_pos s)\<rparr>)"
    and "x_pos s1 = x_pos s" and "p_nread s1 = p_nread s" and "p_state s1 = p_state s"
proof -
  let ?d = "take (Suc (x_pos s)) d"
  have ld: "length ?d = Suc (x_pos s)" "?d ! x_pos s = d ! x_pos s" using lt by simp_all
  have one: "field_loop ?d s = Some (s'\<lparr>x_pos := Suc (x_pos s)\<rparr>)"
    if "field_char ?d s = Some s'" "x_pos s' = x_pos s" for s'
    using that ld tok by (simp add: field_loop.simps)
  show thesis
  proof (cases "p_hstate s = h_general")
    case True
    from one [OF field_char_general [OF True ld(1)]] field_loop_general [OF True lt len tok]
    show thesis by (intro that [of s]) simp_all
  next
    case False
    from field_char_some [OF hs] obtain s1 where s1: "field_char d s = Some s1" by blast
    have "peq s s" by (simp add: peq_def)
    from field_char_det [OF s1 this False, of ?d] ld obtain s2 where s2: "field_char ?d s = Some s2"
      "p_hstate s2 = p_hstate s1" "p_index s2 = p_index s1" "p_te s2 = p_te s1" by auto
    let ?s = "s\<lparr>p_hstate := p_hstate s1, p_index := p_index s1, p_te := p_te s1\<rparr>"
    from field_char_frame [OF s1 False] have a: "field_char d s = Some ?s" .
    from field_char_frame [OF s2(1) False] s2 have b: "field_char ?d s = Some ?s" by simp
    from a lt tok have "field_loop d s = field_loop d (?s\<lparr>x_pos := Suc (x_pos s)\<rparr>)"
      by (subst field_loop.simps) simp
    with one [OF b] show thesis by (intro that [of ?s]) simp_all
  qed
qed

text \<open>
  The loop over a value reads neither the count of characters nor the stored header state.
\<close>

definition veq :: "http_exec \<Rightarrow> http_exec \<Rightarrow> bool" where
  "veq s t \<longleftrightarrow> s\<lparr>p_nread := 0, p_hstate := h_general\<rparr> = t\<lparr>p_nread := 0, p_hstate := h_general\<rparr>"

lemma veqD:
  "veq s t \<Longrightarrow> t = s\<lparr>p_nread := p_nread t, p_hstate := p_hstate t\<rparr>"
proof -
  assume "veq s t"
  then have eq: "s\<lparr>p_nread := 0, p_hstate := h_general\<rparr> = t\<lparr>p_nread := 0, p_hstate := h_general\<rparr>"
    by (simp add: veq_def)
  have "t = (t\<lparr>p_nread := 0, p_hstate := h_general\<rparr>)\<lparr>p_nread := p_nread t, p_hstate := p_hstate t\<rparr>" by simp
  also have "\<dots> = (s\<lparr>p_nread := 0, p_hstate := h_general\<rparr>)\<lparr>p_nread := p_nread t, p_hstate := p_hstate t\<rparr>"
    by (simp only: eq)
  also have "\<dots> = s\<lparr>p_nread := p_nread t, p_hstate := p_hstate t\<rparr>" by simp
  finally show ?thesis .
qed

lemma veqI: "veq s (s\<lparr>p_nread := n, p_hstate := x\<rparr>)"
  by (simp add: veq_def)

fun vloop_rel :: "u32 \<Rightarrow> u32 \<Rightarrow> vloop \<Rightarrow> vloop \<Rightarrow> bool" where
  "vloop_rel n m (LEnd s h) (LEnd t k) \<longleftrightarrow> k = h \<and> veq s t \<and> p_nread s = n \<and> p_nread t = m"
| "vloop_rel n m (LLf s h) (LLf t k) \<longleftrightarrow> k = h \<and> veq s t \<and> p_nread s = n \<and> p_nread t = m"
| "vloop_rel n m (LErr s) (LErr t) \<longleftrightarrow> p_errno s \<noteq> HPE_OK \<and> p_errno t \<noteq> HPE_OK"
| "vloop_rel n m LAbort LAbort \<longleftrightarrow> True"
| "vloop_rel n m _ _ \<longleftrightarrow> False"

fun vstep_veq :: "u32 \<Rightarrow> u32 \<Rightarrow> vstep \<Rightarrow> vstep \<Rightarrow> bool" where
  "vstep_veq n m (VGo s h) (VGo t k) \<longleftrightarrow> k = h \<and> veq s t \<and> p_nread s = n \<and> p_nread t = m"
| "vstep_veq n m (VErr s) (VErr t) \<longleftrightarrow> p_errno s \<noteq> HPE_OK \<and> p_errno t \<noteq> HPE_OK"
| "vstep_veq n m VAbort VAbort \<longleftrightarrow> True"
| "vstep_veq n m _ _ \<longleftrightarrow> False"

lemma vstep_veq_if:
  "vstep_veq n m (if b then x else y) (if b then x' else y') =
    (if b then vstep_veq n m x x' else vstep_veq n m y y')"
  by simp

lemma value_turn_veq:
  "vstep_veq (p_nread s) m (value_turn d s h) (value_turn d (s\<lparr>p_nread := m, p_hstate := x\<rparr>) h)"
  by (cases h)
    (simp_all add: value_turn_def value_char_def Let_def content_length_char_def match_value_def
      conn_flag_char_def idx_inc_def vstep_veq_if veq_def split: sum.splits)

lemma vstep_veqD:
  assumes "vstep_veq n m (VGo s h) r"
  obtains t where "r = VGo t h" and "t = s\<lparr>p_nread := m, p_hstate := p_hstate t\<rparr>" and "p_nread s = n"
  using assms veqD by (cases r) auto

lemma value_loop_veq:
  "\<forall>m x. vloop_rel (p_nread s) m (value_loop d s h) (value_loop d (s\<lparr>p_nread := m, p_hstate := x\<rparr>) h)"
  (is "?P s h (value_loop d s h)")
proof (induction s h rule: value_loop_induct [where d = d])
  case (stop s h)
  then show ?case by (simp add: value_loop_end veqI)
next
  case (CR s h)
  then show ?case
    by (simp add: value_loop_CR data_header_value_def notify_def veq_def split: option.splits)
next
  case (LF s h)
  then show ?case by (simp add: value_loop_LF veqI)
next
  case (bad s h)
  then show ?case by (simp add: value_loop_bad)
next
  case (err s h s')
  show ?case
  proof (intro allI)
    fix m x
    from value_turn_veq [of s m d h x] err(2)
    obtain t where t: "value_turn d (s\<lparr>p_nread := m, p_hstate := x\<rparr>) h = VErr t"
      "p_errno t \<noteq> HPE_OK" "p_errno s' \<noteq> HPE_OK"
      by (cases "value_turn d (s\<lparr>p_nread := m, p_hstate := x\<rparr>) h") auto
    with err show "vloop_rel (p_nread s) m (LErr s') (value_loop d (s\<lparr>p_nread := m, p_hstate := x\<rparr>) h)"
      by (simp add: value_loop_turn)
  qed
next
  case (abort s h)
  show ?case
  proof (intro allI)
    fix m x
    from value_turn_veq [of s m d h x] abort(2)
    have "value_turn d (s\<lparr>p_nread := m, p_hstate := x\<rparr>) h = VAbort"
      by (cases "value_turn d (s\<lparr>p_nread := m, p_hstate := x\<rparr>) h") auto
    with abort show "vloop_rel (p_nread s) m LAbort (value_loop d (s\<lparr>p_nread := m, p_hstate := x\<rparr>) h)"
      by (simp add: value_loop_turn)
  qed
next
  case (go s h s' h' r)
  show ?case
  proof (intro allI)
    fix m x
    have comm: "y\<lparr>p_nread := n, p_hstate := z, x_pos := q\<rparr> = y\<lparr>x_pos := q, p_nread := n, p_hstate := z\<rparr>"
      for y :: http_exec and n z q by simp
    from value_turn_veq [of s m d h x, unfolded go(4)] obtain t where
      t: "value_turn d (s\<lparr>p_nread := m, p_hstate := x\<rparr>) h = VGo t h'"
      "t = s'\<lparr>p_nread := m, p_hstate := p_hstate t\<rparr>" "p_nread s' = p_nread s"
      by (rule vstep_veqD)
    have "t\<lparr>x_pos := x_pos t + 1\<rparr> = (s'\<lparr>x_pos := x_pos s' + 1\<rparr>)\<lparr>p_nread := m, p_hstate := p_hstate t\<rparr>"
      by (subst (1 2) t(2)) simp
    then have "value_loop d (s\<lparr>p_nread := m, p_hstate := x\<rparr>) h =
        value_loop d ((s'\<lparr>x_pos := x_pos s' + 1\<rparr>)\<lparr>p_nread := m, p_hstate := p_hstate t\<rparr>) h'"
      using go(1-3,6) t(1) by (simp add: value_loop_turn)
    moreover have "vloop_rel (p_nread s') m r
        (value_loop d ((s'\<lparr>x_pos := x_pos s' + 1\<rparr>)\<lparr>p_nread := m, p_hstate := p_hstate t\<rparr>) h')"
      using go.IH by simp
    ultimately show "vloop_rel (p_nread s) m r (value_loop d (s\<lparr>p_nread := m, p_hstate := x\<rparr>) h)"
      using t(3) by simp
  qed
qed

lemma value_loop_general:
  assumes "x_pos s < length d" and "length d \<le> max_header_size" and "d ! x_pos s \<noteq> CR"
    and "d ! x_pos s \<noteq> LF" and "p_lenient s \<or> IS_HEADER_CHAR (d ! x_pos s)"
  shows "value_loop d s h_general = value_loop d (s\<lparr>x_pos := Suc (x_pos s)\<rparr>) h_general"
proof -
  let ?r = "\<lambda>q. case value_scan d (p_lenient s) q (length d) of
      Inl p \<Rightarrow> LErr (s\<lparr>x_pos := p, p_errno := HPE_INVALID_HEADER_TOKEN\<rparr>)
    | Inr p \<Rightarrow> value_loop d (s\<lparr>x_pos := Suc (if p = length d then p - 1 else p)\<rparr>) h_general"
  have go: "value_loop d (s\<lparr>x_pos := q\<rparr>) h_general = ?r q"
    if "q < length d" "d ! q \<noteq> CR" "d ! q \<noteq> LF" "p_lenient s \<or> IS_HEADER_CHAR (d ! q)" for q
    using that assms(2)
    by (simp add: value_loop_turn value_turn_def split: sum.splits)
  have "s\<lparr>x_pos := x_pos s\<rparr> = s" by simp
  with go [OF assms(1,3-5)] have l: "value_loop d s h_general = ?r (x_pos s)" by simp
  have "value_scan d (p_lenient s) (x_pos s) (length d) = value_scan d (p_lenient s) (Suc (x_pos s)) (length d)"
    using assms by (subst value_scan.simps) auto
  with l have l2: "value_loop d s h_general = ?r (Suc (x_pos s))" by simp
  let ?q = "Suc (x_pos s)"
  consider "\<not> ?q < length d" | "?q < length d" "d ! ?q = CR \<or> d ! ?q = LF"
    | "?q < length d" "d ! ?q \<noteq> CR" "d ! ?q \<noteq> LF" "\<not> p_lenient s" "\<not> IS_HEADER_CHAR (d ! ?q)"
    | "?q < length d" "d ! ?q \<noteq> CR" "d ! ?q \<noteq> LF" "p_lenient s \<or> IS_HEADER_CHAR (d ! ?q)"
    by blast
  then show ?thesis
  proof cases
    case 1
    with assms(1) have "?q = length d" by simp
    moreover from 1 have "value_scan d (p_lenient s) ?q (length d) = Inr ?q" by (subst value_scan.simps) simp
    moreover from assms(1) have "Suc (length d - Suc 0) = length d" by simp
    ultimately show ?thesis using l2 by simp
  next
    case 2
    then have "value_scan d (p_lenient s) ?q (length d) = Inr (x_pos s)" by (subst value_scan.simps) auto
    with l2 assms(1) show ?thesis by simp
  next
    case 3
    then have "value_scan d (p_lenient s) ?q (length d) = Inl ?q" by (subst value_scan.simps) simp
    with l2 3 show ?thesis by (simp add: value_loop_bad)
  next
    case 4
    from go [OF 4] l2 show ?thesis by simp
  qed
qed


section \<open>A turn and its character\<close>

definition after_turn :: "string \<Rightarrow> ctl \<Rightarrow> (http_exec \<times> nat) option" where
  "after_turn d c =
     (case c of Next s \<Rightarrow> exec_loop d (s\<lparr>x_pos := x_pos s + 1\<rparr>) | Return s n \<Rightarrow> Some (s, n) | _ \<Rightarrow> None)"

lemma exec_loop_turn: "x_pos s < length d \<Longrightarrow> exec_loop d s = after_turn d (turn d s)"
  by (simp add: exec_loop.simps [of d s] after_turn_def)

text \<open>The same result, or an error in both (the count of characters at an error may differ).\<close>

definition res_eq :: "(http_exec \<times> nat) option \<Rightarrow> (http_exec \<times> nat) option \<Rightarrow> bool" where
  "res_eq x y \<longleftrightarrow> x = y \<or>
     (\<exists>s n t m. x = Some (s, n) \<and> y = Some (t, m) \<and> p_errno s \<noteq> HPE_OK \<and> p_errno t \<noteq> HPE_OK)"

lemma res_eq_refl [simp]: "res_eq x x"
  by (simp add: res_eq_def)

lemma res_eq_trans: "res_eq x y \<Longrightarrow> res_eq y z \<Longrightarrow> res_eq x z"
  by (auto simp: res_eq_def)

lemma res_eq_ok: "res_eq x (Some (s, n)) \<Longrightarrow> p_errno s = HPE_OK \<Longrightarrow> x = Some (s, n)"
  "res_eq (Some (s, n)) x \<Longrightarrow> p_errno s = HPE_OK \<Longrightarrow> x = Some (s, n)"
  by (auto simp: res_eq_def)

text \<open>
  A turn of a state with an inner loop: it is the turn of its character, or the inner loop goes on
  with the next character.
\<close>

definition unrolls :: "string \<Rightarrow> http_exec \<Rightarrow> bool" where
  "unrolls d s \<longleftrightarrow> cturn d s = turn d s \<or>
     (\<exists>s1. cturn d s = Next s1 \<and> x_pos s1 = x_pos s \<and>
       (Suc (x_pos s) = length d \<longrightarrow> turn d s = Next s1) \<and>
       (Suc (x_pos s) < length d \<longrightarrow>
          res_eq (after_turn d (turn d s)) (after_turn d (turn d (s1\<lparr>x_pos := Suc (x_pos s)\<rparr>)))))"

lemma unrollsI:
  assumes "cturn d s = Next s1" and "x_pos s1 = x_pos s"
    and "Suc (x_pos s) = length d \<Longrightarrow> turn d s = Next s1"
    and "Suc (x_pos s) < length d \<Longrightarrow> turn d s = turn d (s1\<lparr>x_pos := Suc (x_pos s)\<rparr>)"
  shows "unrolls d s"
  unfolding unrolls_def
  by (intro disjI2 exI [of _ s1] conjI impI assms) (simp_all add: assms(4))

lemma unrolls_exec:
  assumes "unrolls d s" and "x_pos s < length d"
  shows "res_eq (exec_loop d s) (after_turn d (cturn d s))"
proof (cases "cturn d s = turn d s")
  case True
  with assms(2) show ?thesis by (simp add: exec_loop_turn)
next
  case False
  with assms(1) obtain s1 where s1: "cturn d s = Next s1" "x_pos s1 = x_pos s"
    "Suc (x_pos s) = length d \<longrightarrow> turn d s = Next s1"
    "Suc (x_pos s) < length d \<longrightarrow>
      res_eq (after_turn d (turn d s)) (after_turn d (turn d (s1\<lparr>x_pos := Suc (x_pos s)\<rparr>)))"
    unfolding unrolls_def by blast
  show ?thesis
  proof (cases "Suc (x_pos s) = length d")
    case True
    with s1 assms(2) show ?thesis by (simp add: exec_loop_turn)
  next
    case False
    with assms(2) have lt: "Suc (x_pos s) < length d" by simp
    with s1 have "after_turn d (cturn d s) = after_turn d (turn d (s1\<lparr>x_pos := Suc (x_pos s)\<rparr>))"
      by (simp add: after_turn_def [of d "Next s1"] exec_loop_turn)
    with s1(4) lt assms(2) show ?thesis by (simp add: exec_loop_turn)
  qed
qed

lemma run_char_next: "step d (d ! x_pos s) s = Next s' \<Longrightarrow> run_char d s = Next s'"
  "step d (d ! x_pos s) s = Return s' n \<Longrightarrow> run_char d s = Return s' n"
  "step d (d ! x_pos s) s = Abort \<Longrightarrow> run_char d s = Abort"
  "step d (d ! x_pos s) s = Again s' \<Longrightarrow> run_char d s = run_char d s'"
  by (simp_all add: run_char.simps [of d s])

lemma body_not_header:
  "\<not> PARSING_HEADER s_body_identity" "\<not> PARSING_HEADER s_chunk_data" "\<not> PARSING_HEADER s_body_identity_eof"
  by (simp_all add: PARSING_HEADER_def)

lemma unrolls_eof:
  assumes st: "p_state s = s_body_identity_eof" and lt: "x_pos s < length d"
  shows "unrolls d s"
proof -
  have turn: "turn d t = Next (t\<lparr>body_mark := mark_at (body_mark t) (x_pos t), x_pos := length d - 1\<rparr>)"
    if "p_state t = s_body_identity_eof" for d and t :: http_exec
    using that by (simp add: turn_def body_not_header run_char_next(1) step_def step_body_identity_eof_def)
  let ?s1 = "s\<lparr>body_mark := mark_at (body_mark s) (x_pos s)\<rparr>"
  have m: "mark_at (mark_at m p) q = mark_at m p" for m p q by (simp add: mark_at_def split: option.splits)
  have "length (take (Suc (x_pos s)) d) - 1 = x_pos s" using lt by simp
  with turn [OF st, of "take (Suc (x_pos s)) d"] have c: "cturn d s = Next (?s1\<lparr>x_pos := x_pos s\<rparr>)"
    by (simp only: cturn_def)
  moreover have "turn d s = Next (?s1\<lparr>x_pos := x_pos s\<rparr>)" if "Suc (x_pos s) = length d"
  proof -
    from that have "length d - 1 = x_pos s" by simp
    with turn [OF st, of d] show ?thesis by simp
  qed
  moreover have "turn d s = turn d (?s1\<lparr>x_pos := Suc (x_pos s)\<rparr>)"
    using turn [OF st, of d] turn [of "?s1\<lparr>x_pos := Suc (x_pos s)\<rparr>" d] st by (simp add: m)
  ultimately show ?thesis by (intro unrollsI) simp_all
qed

lemma to_read_take:
  assumes "x_pos s < length d" and "p_clen s \<noteq> 0"
  shows "to_read (take (Suc (x_pos s)) d) s = 1"
proof -
  have "0 < unat (p_clen s)" using assms(2) by (simp add: unat_gt_0)
  moreover have "length (take (Suc (x_pos s)) d) - x_pos s = 1" using assms(1) by simp
  ultimately show ?thesis unfolding to_read_def by linarith
qed

lemma take_body_char:
  assumes "x_pos s < length d" and "p_clen s \<noteq> 0"
  shows "take_body (take (Suc (x_pos s)) d) s =
    s\<lparr>body_mark := mark_at (body_mark s) (x_pos s), p_clen := p_clen s - 1\<rparr>"
  using assms by (simp add: take_body_def to_read_take)

lemma take_body_unroll:
  assumes "Suc (x_pos s) < length d" and "p_clen s \<noteq> 0" and "p_clen s \<noteq> 1"
  shows "take_body d (take_body (take (Suc (x_pos s)) d) s\<lparr>x_pos := Suc (x_pos s)\<rparr>) = take_body d s"
proof -
  have "unat (p_clen s) \<noteq> 0" "unat (p_clen s) \<noteq> 1"
    using assms(2,3) by (simp_all add: word_unat_eq_iff)
  then have two: "2 \<le> unat (p_clen s)" by simp
  then have u: "unat (p_clen s - 1) = unat (p_clen s) - 1" by (simp add: unat_minus_one assms(2))
  have "to_read d (s\<lparr>body_mark := x, p_clen := p_clen s - 1, x_pos := Suc (x_pos s)\<rparr>)
      = to_read d s - 1" for x
    unfolding to_read_def using assms(1) u by simp
  moreover have "2 \<le> to_read d s" unfolding to_read_def using two assms(1) by simp
  then obtain k where "to_read d s = Suc (Suc k)" by (metis Suc_le_D numeral_2_eq_2 Suc_le_mono)
  moreover have "mark_at (mark_at m p) q = mark_at m p" for m p q
    by (simp add: mark_at_def split: option.splits)
  ultimately show ?thesis
    using assms by (simp add: take_body_char) (simp add: take_body_def)
qed

lemma unrolls_body:
  assumes st: "p_state s = s_body_identity \<or> p_state s = s_chunk_data" and wf: "exec_wf 0 s"
    and lt: "x_pos s < length d"
  shows "unrolls d s"
proof -
  let ?d = "take (Suc (x_pos s)) d"
  let ?s1 = "take_body ?d s"
  have clen: "p_clen s \<noteq> 0" "p_clen s \<noteq> - 1"
    using wf st by (auto simp: exec_wf_def parser_wf_def)
  have ch: "p_state s = s_chunk_data \<Longrightarrow> F_CHUNKED \<in> p_flags s"
    using wf by (simp add: exec_wf_def parser_wf_def chunk_states_def)
  have turn: "turn d t = run_char d t" if "p_state t = p_state s" for d and t :: http_exec
    using st that by (auto simp: turn_def body_not_header)
  have s1: "?s1 = s\<lparr>body_mark := mark_at (body_mark s) (x_pos s), p_clen := p_clen s - 1\<rparr>"
    by (rule take_body_char [OF lt clen(1)])
  show ?thesis
  proof (cases "p_clen s = 1")
    case True
    with lt have "to_read d s = 1" by (simp add: to_read_def)
    with s1 have eq: "take_body d s = ?s1" by (simp add: take_body_def)
    have "run_char ?d s = run_char d s"
    proof (rule run_char_take)
      show "step ?d (d ! x_pos s) s = step d (d ! x_pos s) s"
        using st eq s1 by (auto simp: step_def step_body_identity_def step_chunk_data_def Let_def data_take)
      show "x_pos s2 < Suc (x_pos s)" if "step d (d ! x_pos s) s = Again s2" for s2
        using that st eq s1
        by (auto simp: step_def step_body_identity_def step_chunk_data_def Let_def split: if_splits)
    qed (use lt in auto)
    then show ?thesis by (simp add: unrolls_def cturn_def turn)
  next
    case False
    have c1: "p_clen s - 1 \<noteq> 0" "p_clen s - 1 \<noteq> - 1" using False clen by (simp_all add: diff_eq_eq)
    have one: "cturn d s = Next ?s1"
      using st clen ch c1 s1 by (auto simp: cturn_def turn run_char_next(1) step_def step_body_identity_def
          step_chunk_data_def Let_def)
    have last: "turn d s = Next ?s1" if "Suc (x_pos s) = length d"
      using one that by (simp add: cturn_def)
    let ?t = "?s1\<lparr>x_pos := Suc (x_pos s)\<rparr>"
    have "turn d s = turn d ?t" if lt2: "Suc (x_pos s) < length d"
    proof -
      have "take_body d ?t = take_body d s" by (rule take_body_unroll [OF lt2 clen(1) False])
      moreover have t: "p_state ?t = p_state s" "p_flags ?t = p_flags s" "p_clen ?t = p_clen s - 1"
        by (simp_all add: s1)
      ultimately have "step d c s = step d c' ?t" for c c'
        using st clen c1 by (auto simp: step_def step_body_identity_def step_chunk_data_def)
      from this [of "d ! x_pos s" "d ! x_pos ?t"] have "run_char d s = run_char d ?t"
        by (simp only: run_char.simps [of d s] run_char.simps [of d ?t])
      with t(1) show ?thesis by (simp only: turn)
    qed
    with one last s1 show ?thesis by (intro unrollsI [of d s ?s1]) simp_all
  qed
qed


text \<open>The headers: the characters of a token are counted one at a time or all at once.\<close>

lemma header_parsing: "PARSING_HEADER s_header_field" "PARSING_HEADER s_header_value"
  by (simp_all add: PARSING_HEADER_def)

lemma after_fail: "after_turn d (fail e s) = Some (s\<lparr>p_errno := e\<rparr>, x_pos s)"
  by (simp add: after_turn_def fail_def)

lemma count_over:
  "of_nat max_header_size < p_nread s + of_nat n \<Longrightarrow>
    count_header n s k = fail HPE_HEADER_OVERFLOW (s\<lparr>p_nread := p_nread s + of_nat n\<rparr>)"
  by (simp add: count_header_def)

lemma count_fine:
  "\<not> of_nat max_header_size < p_nread s + of_nat n \<Longrightarrow>
    count_header n s k = k (s\<lparr>p_nread := p_nread s + of_nat n\<rparr>)"
  by (simp add: count_header_def Let_def)

text \<open>
  The count of the inner loop, begun at \<open>p\<close> and ended at \<open>q\<close>, against one more character counted by the
  outer loop and the inner loop begun at \<open>p + 1\<close>.
\<close>

lemma count_later:
  assumes n: "n \<le> of_nat max_header_size" and pq: "p < q" "q \<le> max_header_size"
    and over: "of_nat max_header_size < n + 1"
    and z: "p_nread z = n"
  shows "count_header (q - p) z k =
    fail HPE_HEADER_OVERFLOW (z\<lparr>p_nread := n + of_nat (q - p)\<rparr>)"
proof -
  have "max_header_size < unat n + 1" using nread_over [OF n, of 1] over by (simp add: max_header_size_def)
  with pq have "max_header_size < unat n + (q - p)" by linarith
  with nread_over [OF n, of "q - p"] pq have "of_nat max_header_size < n + of_nat (q - p)" by simp
  with z show ?thesis by (simp add: count_over)
qed

lemma count_shift:
  assumes "p < q"
  shows "count_header (q - p) (z\<lparr>p_nread := n\<rparr>) k = count_header (q - Suc p) (z\<lparr>p_nread := n + 1\<rparr>) k"
proof (rule count_header_eq)
  from assms obtain m where m: "q - p = Suc m" "q - Suc p = m"
    by (metis Suc_diff_Suc)
  then show "n + of_nat (q - p) = n + 1 + (of_nat (q - Suc p) :: u32)" by simp
qed

text \<open>What follows the loop over a name.\<close>

definition field_done :: "string \<Rightarrow> nat \<Rightarrow> http_exec option \<Rightarrow> ctl" where
  "field_done d start r =
     (case r of
        None \<Rightarrow> Abort
      | Some s1 \<Rightarrow>
          if x_pos s1 = length d
          then count_header (x_pos s1 - 1 - start) (s1\<lparr>x_pos := x_pos s1 - 1\<rparr>) Next
          else count_header (x_pos s1 - start) s1 (\<lambda>s2.
            if d ! x_pos s2 = CHR '':''
            then Next (data_header_field d (x_pos s2) (s2\<lparr>p_state := s_header_value_discard_ws\<rparr>))
            else fail HPE_INVALID_HEADER_TOKEN s2))"

lemma step_header_field_done: "step_header_field d s = field_done d (x_pos s) (field_loop d s)"
  by (simp add: step_header_field_def field_done_def Let_def split: option.splits)

lemma field_turn:
  assumes "p_state s = s_header_field"
  shows "turn d s =
    (if of_nat max_header_size < p_nread s + 1
     then fail HPE_HEADER_OVERFLOW (s\<lparr>p_nread := p_nread s + 1\<rparr>)
     else field_done d (x_pos s) (field_loop d (s\<lparr>p_nread := p_nread s + 1\<rparr>)))"
proof -
  have "run_char d (s\<lparr>p_nread := n\<rparr>) = step_header_field d (s\<lparr>p_nread := n\<rparr>)" for n
    using assms step_header_field_again [of d "s\<lparr>p_nread := n\<rparr>"]
    by (cases "step_header_field d (s\<lparr>p_nread := n\<rparr>)")
      (auto simp: run_char.simps step_def)
  with assms show ?thesis
    by (simp add: turn_def header_parsing count_header_def step_header_field_done Let_def)
qed

lemma field_done_later:
  assumes n: "n \<le> of_nat max_header_size" and lt: "Suc p < length d" "length d \<le> max_header_size"
    and s1: "field_loop d (z\<lparr>x_pos := Suc p\<rparr>) = Some s1" and z: "p_nread s1 = n"
  shows "if of_nat max_header_size < n + 1
    then \<exists>s' m. field_done d p (Some s1) = Return s' m \<and> p_errno s' \<noteq> HPE_OK
    else field_done d p (Some s1) = field_done d (Suc p) (Some (s1\<lparr>p_nread := n + 1\<rparr>))"
proof -
  have pos: "Suc p \<le> x_pos s1" "x_pos s1 \<le> length d"
    using field_loop_pos [OF s1] lt(1) by simp_all
  have q: "p < x_pos s1" "x_pos s1 = length d \<Longrightarrow> p < x_pos s1 - 1" "x_pos s1 \<le> max_header_size"
    "x_pos s1 - 1 \<le> max_header_size"
    using pos lt by linarith+
  have s1n: "s1\<lparr>p_nread := n\<rparr> = s1" using z by simp
  have comm: "s1\<lparr>x_pos := a, p_nread := m\<rparr> = s1\<lparr>p_nread := m, x_pos := a\<rparr>" for a m by simp
  show ?thesis
  proof (cases "of_nat max_header_size < n + 1")
    case True
    show ?thesis
    proof (cases "x_pos s1 = length d")
      case atend: True
      from count_later [OF n q(2) [OF atend] q(4) True] z atend True show ?thesis
        by (simp add: field_done_def fail_def)
    next
      case False
      from count_later [OF n q(1,3) True z] False True show ?thesis by (simp add: field_done_def fail_def)
    qed
  next
    case False
    show ?thesis
    proof (cases "x_pos s1 = length d")
      case atend: True
      from count_shift [OF q(2) [OF atend], of n "s1\<lparr>x_pos := x_pos s1 - 1\<rparr>" Next] z atend False s1n
      show ?thesis by (simp add: field_done_def comm)
    next
      case nend: False
      from count_shift [OF q(1), of n s1] nend False s1n show ?thesis by (simp add: field_done_def)
    qed
  qed
qed

lemma unrolls_field:
  assumes st: "p_state s = s_header_field" and wf: "exec_wf 0 s" and lt: "x_pos s < length d"
    and len: "length d \<le> max_header_size"
  shows "unrolls d s"
proof (cases "of_nat max_header_size < p_nread s + 1")
  case True
  with st show ?thesis by (simp add: unrolls_def cturn_def field_turn)
next
  case fine: False
  let ?d = "take (Suc (x_pos s)) d" and ?s = "s\<lparr>p_nread := p_nread s + 1\<rparr>"
  have ld: "length ?d = Suc (x_pos s)" "?d ! x_pos s = d ! x_pos s" using lt by simp_all
  show ?thesis
  proof (cases "STRICT_TOKEN (d ! x_pos s) = 0")
    case True
    with lt have "field_loop d ?s = Some ?s" "field_loop ?d ?s = Some ?s"
      by (auto simp: field_loop.simps)
    with st fine lt ld have "cturn d s = turn d s"
      by (simp add: cturn_def field_turn field_done_def count_header_def Let_def data_take)
    then show ?thesis by (simp add: unrolls_def)
  next
    case tok: False
    have hs: "p_hstate ?s \<in> field_hstates" using wf st by (simp add: exec_wf_def parser_wf_def)
    from field_loop_unroll [OF hs _ len] lt tok obtain s1
      where s1: "field_loop ?d ?s = Some (s1\<lparr>x_pos := Suc (x_pos s)\<rparr>)"
        "field_loop d ?s = field_loop d (s1\<lparr>x_pos := Suc (x_pos s)\<rparr>)"
        "x_pos s1 = x_pos s" "p_nread s1 = p_nread s + 1" "p_state s1 = s_header_field"
      using st by auto
    let ?t = "s1\<lparr>x_pos := Suc (x_pos s)\<rparr>"
    have self: "s1\<lparr>p_nread := p_nread s + 1\<rparr> = s1" "s1\<lparr>x_pos := x_pos s\<rparr> = s1" using s1(3,4) by simp_all
    have one: "cturn d s = Next s1"
      using st fine lt ld s1 self by (simp add: cturn_def field_turn field_done_def count_header_def Let_def)
    have last: "turn d s = Next s1" if "Suc (x_pos s) = length d"
      using one that by (simp add: cturn_def)
    have "res_eq (after_turn d (turn d s)) (after_turn d (turn d ?t))" if lt2: "Suc (x_pos s) < length d"
    proof -
      have n: "p_nread s + 1 \<le> of_nat max_header_size" using fine by (simp add: not_less)
      then have "exec_wf 1 ?s" using wf st by (simp add: exec_wf_def parser_wf_def marks_ok_def)
      from field_loop_wf [OF this, of d] st s1(2) obtain r where r1: "field_loop d ?t = Some r" by auto
      have "?s\<lparr>p_nread := p_nread s + 1\<rparr> = ?s" by simp
      with field_loop_nread [of d "p_nread s + 1" ?s] r1 s1(2) have "r = r\<lparr>p_nread := p_nread s + 1\<rparr>" by simp
      then have "p_nread r = p_nread s + 1" by (rule ssubst) simp
      note r = r1 this
      have nr: "field_loop d (?t\<lparr>p_nread := p_nread s + 1 + 1\<rparr>) = Some (r\<lparr>p_nread := p_nread s + 1 + 1\<rparr>)"
        using field_loop_nread [of d "p_nread s + 1 + 1" ?t] r(1) by simp
      have t1: "turn d s = field_done d (x_pos s) (Some r)"
        using st fine s1(2) r(1) by (simp add: field_turn)
      have t2: "turn d ?t = (if of_nat max_header_size < p_nread s + 1 + 1
          then fail HPE_HEADER_OVERFLOW (?t\<lparr>p_nread := p_nread s + 1 + 1\<rparr>)
          else field_done d (Suc (x_pos s)) (Some (r\<lparr>p_nread := p_nread s + 1 + 1\<rparr>)))"
        using field_turn [of ?t d] s1(4,5) nr by simp
      from field_done_later [OF n lt2 len r] t1 t2 show ?thesis
        by (auto simp: res_eq_def after_turn_def fail_def split: if_splits)
    qed
    with one last s1(3) show ?thesis by (auto simp: unrolls_def)
  qed
qed


text \<open>What follows the loop over a value.\<close>

definition value_done :: "string \<Rightarrow> nat \<Rightarrow> vloop \<Rightarrow> ctl" where
  "value_done d start r =
     (case r of
        LEnd s1 h \<Rightarrow>
          if x_pos s1 = length d
          then count_header (x_pos s1 - 1 - start) (s1\<lparr>p_hstate := h, x_pos := x_pos s1 - 1\<rparr>) Next
          else count_header (x_pos s1 - start) (s1\<lparr>p_hstate := h\<rparr>) Next
      | LLf s1 h \<Rightarrow>
          count_header (x_pos s1 - start) (s1\<lparr>p_state := s_header_almost_done\<rparr>)
            (\<lambda>s2. run_char d (data_header_value d (x_pos s2) (s2\<lparr>p_hstate := h\<rparr>)))
      | LErr s1 \<Rightarrow> Return s1 (x_pos s1)
      | LAbort \<Rightarrow> Abort)"

lemma run_char_value:
  assumes "p_state s = s_header_value"
  shows "run_char d s = value_done d (x_pos s) (value_loop d s (p_hstate s))"
proof -
  have "run_char d s = (case step_header_value d s of Again s' \<Rightarrow> run_char d s' | c \<Rightarrow> c)"
    using assms by (simp add: run_char.simps [of d s] step_def)
  then show ?thesis
    by (simp add: step_header_value_def value_done_def count_header_def fail_def Let_def
        split: vloop.splits)
qed

lemma value_turn_done:
  assumes "p_state s = s_header_value"
  shows "turn d s =
    (if of_nat max_header_size < p_nread s + 1
     then fail HPE_HEADER_OVERFLOW (s\<lparr>p_nread := p_nread s + 1\<rparr>)
     else value_done d (x_pos s) (value_loop d (s\<lparr>p_nread := p_nread s + 1\<rparr>) (p_hstate s)))"
  using assms by (simp add: turn_def header_parsing count_header_def run_char_value Let_def)

lemma veq_count:
  assumes v: "veq a b" "p_nread a = n" "p_nread b = n + 1" and n: "n \<le> of_nat max_header_size"
    and pq: "p < q" "q \<le> max_header_size"
    and f: "\<And>y m x. f (y\<lparr>p_nread := m, p_hstate := x\<rparr>) = (f y)\<lparr>p_nread := m\<rparr>"
  shows "if of_nat max_header_size < n + 1
    then \<exists>s' m. count_header (q - p) (f a) k = Return s' m \<and> p_errno s' \<noteq> HPE_OK
    else count_header (q - p) (f a) k = count_header (q - Suc p) (f b) k"
proof -
  have "a\<lparr>p_nread := n, p_hstate := p_hstate a\<rparr> = a" by (simp flip: v(2))
  with f [where y = a and m = n and x = "p_hstate a"]
  have fa: "f a = (f a)\<lparr>p_nread := n\<rparr>" by (simp only:)
  have fb: "f b = (f a)\<lparr>p_nread := n + 1\<rparr>" by (subst veqD [OF v(1), unfolded v(3)]) (rule f)
  have na: "p_nread (f a) = n" by (subst fa) simp
  show ?thesis
    using count_later [OF n pq _ na, of k] count_shift [OF pq(1), of n "f a" k] fa fb
    by (auto simp: fail_def)
qed

lemma value_done_later:
  assumes n: "n \<le> of_nat max_header_size" and lt: "Suc p < length d" "length d \<le> max_header_size"
    and rel: "vloop_rel n (n + 1) (value_loop d z h) r" and pos: "x_pos z = Suc p"
    and na: "value_loop d z h \<noteq> LAbort"
  shows "if of_nat max_header_size < n + 1
    then \<exists>s' m. value_done d p (value_loop d z h) = Return s' m \<and> p_errno s' \<noteq> HPE_OK
    else value_done d p (value_loop d z h) = value_done d (Suc p) r \<or>
      (\<exists>s' m t' k. value_done d p (value_loop d z h) = Return s' m \<and> p_errno s' \<noteq> HPE_OK \<and>
         value_done d (Suc p) r = Return t' k \<and> p_errno t' \<noteq> HPE_OK)"
proof (cases "value_loop d z h")
  case (LEnd a k)
  with rel obtain b where b: "r = LEnd b k" "veq a b" "p_nread a = n" "p_nread b = n + 1"
    by (cases r) auto
  have xb: "x_pos b = x_pos a" by (subst veqD [OF b(2)]) simp
  have q: "Suc p \<le> x_pos a" "x_pos a \<le> length d"
    using value_loop_pos [of z d h] LEnd pos lt by simp_all
  show ?thesis
  proof (cases "x_pos a = length d")
    case True
    with q lt have "p < x_pos a - 1" "x_pos a - 1 \<le> max_header_size" by linarith+
    from veq_count [OF b(2-4) n this, of "\<lambda>y. y\<lparr>p_hstate := k, x_pos := x_pos a - 1\<rparr>" Next]
    show ?thesis using True b(1) xb LEnd by (auto simp: value_done_def)
  next
    case False
    with q lt have "p < x_pos a" "x_pos a \<le> max_header_size" by linarith+
    from veq_count [OF b(2-4) n this, of "\<lambda>y. y\<lparr>p_hstate := k\<rparr>" Next]
    show ?thesis using False b(1) xb LEnd by (auto simp: value_done_def)
  qed
next
  case (LLf a k)
  with rel obtain b where b: "r = LLf b k" "veq a b" "p_nread a = n" "p_nread b = n + 1"
    by (cases r) auto
  let ?K = "\<lambda>s2. run_char d (data_header_value d (x_pos s2) (s2\<lparr>p_hstate := k\<rparr>))"
    and ?a = "a\<lparr>p_state := s_header_almost_done\<rparr>" and ?b = "b\<lparr>p_state := s_header_almost_done\<rparr>"
  have q: "p < x_pos a" "x_pos a \<le> max_header_size"
    using value_loop_pos [of z d h] LLf pos lt by simp_all
  obtain x where bx: "b = a\<lparr>p_nread := n + 1, p_hstate := x\<rparr>"
    by (rule that) (rule veqD [OF b(2), unfolded b(4)])
  let ?m = "n + of_nat (x_pos a - p)"
  obtain m where m: "x_pos a - p = Suc m" "x_pos a - Suc p = m" using q(1) by (metis Suc_diff_Suc)
  then have later: "n + 1 + of_nat (x_pos a - Suc p) = ?m" by simp
  have vb: "value_done d (Suc p) r = count_header (x_pos a - Suc p) ?b ?K"
    and va: "value_done d p (value_loop d z h) = count_header (x_pos a - p) ?a ?K"
    using LLf b(1) bx by (simp_all add: value_done_def)
  show ?thesis
  proof (cases "of_nat max_header_size < n + 1")
    case True
    from count_later [OF n q True, of ?a ?K] b(3) va True show ?thesis by (simp add: fail_def)
  next
    case False
    show ?thesis
    proof (cases "of_nat max_header_size < ?m")
      case True
      with False va vb b(3) bx later show ?thesis by (simp add: count_header_def fail_def)
    next
      case fine: False
      have "?K (?a\<lparr>p_nread := ?m\<rparr>) = ?K (?b\<lparr>p_nread := ?m\<rparr>)" by (simp add: bx)
      with fine False va vb b(3) bx later show ?thesis by (simp add: count_header_def Let_def)
    qed
  qed
next
  case (LErr a)
  with rel value_loop_pos [of z d h] pos lt show ?thesis
    by (cases r) (auto simp: value_done_def)
qed (use na in simp)


text \<open>The first character of the loop over a value: the loop ends with it, or goes on.\<close>

lemma value_loop_unroll:
  assumes st: "p_state s = s_header_value" and wf: "exec_wf 1 s" and hs: "value_hs h"
    and lt: "x_pos s < length d" and len: "length d \<le> max_header_size"
  shows "value_loop (take (Suc (x_pos s)) d) s h = value_loop d s h \<and>
      (\<forall>a k. value_loop d s h = LEnd a k \<or> value_loop d s h = LLf a k \<longrightarrow> x_pos a = x_pos s) \<or>
    (\<exists>s1 h1. value_loop (take (Suc (x_pos s)) d) s h = LEnd (s1\<lparr>x_pos := Suc (x_pos s)\<rparr>) h1 \<and>
      value_loop d s h = value_loop d (s1\<lparr>x_pos := Suc (x_pos s)\<rparr>) h1 \<and>
      x_pos s1 = x_pos s \<and> p_nread s1 = p_nread s \<and> p_state s1 = s_header_value \<and>
      exec_wf 1 s1 \<and> value_hs h1)"
proof -
  let ?d = "take (Suc (x_pos s)) d"
  have ld: "length ?d = Suc (x_pos s)" "?d ! x_pos s = d ! x_pos s" "x_pos s < length ?d"
    using lt by simp_all
  have endd: "value_loop ?d (s1\<lparr>x_pos := Suc (x_pos s)\<rparr>) h1 = LEnd (s1\<lparr>x_pos := Suc (x_pos s)\<rparr>) h1"
    for s1 h1 using ld(1) by (simp add: value_loop_end)
  consider "d ! x_pos s = CR" | "d ! x_pos s = LF"
    | "d ! x_pos s \<noteq> CR" "d ! x_pos s \<noteq> LF" "\<not> p_lenient s" "\<not> IS_HEADER_CHAR (d ! x_pos s)"
    | "d ! x_pos s \<noteq> CR" "d ! x_pos s \<noteq> LF" "p_lenient s \<or> IS_HEADER_CHAR (d ! x_pos s)"
    by blast
  then show ?thesis
  proof cases
    case 1
    with lt ld show ?thesis by (simp add: value_loop_CR data_take)
  next
    case 2
    with lt ld show ?thesis by (simp add: value_loop_LF)
  next
    case 3
    with lt ld show ?thesis by (simp add: value_loop_bad)
  next
    case 4
    show ?thesis
    proof (cases "h = h_general")
      case True
      have "value_loop ?d s h = LEnd (s\<lparr>x_pos := Suc (x_pos s)\<rparr>) h"
        using value_loop_general [of s ?d] 4 ld len endd [of s h] True by simp
      with value_loop_general [OF lt len 4] True st wf hs show ?thesis by blast
    next
      case False
      have t: "value_turn d s h = value_char (d ! x_pos s) s h" "value_turn ?d s h = value_char (d ! x_pos s) s h"
        using False ld by (simp_all add: value_turn_def)
      have f: "value_loop d s h = (case value_char (d ! x_pos s) s h of
            VGo s' h' \<Rightarrow> value_loop d (s'\<lparr>x_pos := x_pos s' + 1\<rparr>) h' | VErr s' \<Rightarrow> LErr s' | VAbort \<Rightarrow> LAbort)"
        "value_loop ?d s h = (case value_char (d ! x_pos s) s h of
            VGo s' h' \<Rightarrow> value_loop ?d (s'\<lparr>x_pos := x_pos s' + 1\<rparr>) h' | VErr s' \<Rightarrow> LErr s' | VAbort \<Rightarrow> LAbort)"
        using value_loop_turn [OF lt 4] value_loop_turn [OF ld(3), where h = h] 4 ld t by simp_all
      show ?thesis
      proof (cases "value_char (d ! x_pos s) s h")
        case (VGo s1 h1)
        have "vstep_rel s s (VGo s1 h1) (VGo s1 h1)"
          using value_char_rel [of s s "d ! x_pos s" h] VGo st by (simp add: peq_def)
        then have eq: "s1 = s\<lparr>p_flags := p_flags s1, p_index := p_index s1, p_clen := p_clen s1\<rparr>" by simp
        from arg_cong [OF eq, of x_pos] arg_cong [OF eq, of p_nread] arg_cong [OF eq, of p_state] st
        have "x_pos s1 = x_pos s \<and> p_nread s1 = p_nread s \<and> p_state s1 = s_header_value" by simp
        moreover have "exec_wf 1 s1 \<and> value_hs h1"
          using value_char_wf [OF wf st hs, of "d ! x_pos s"] VGo by simp
        ultimately show ?thesis using f VGo endd by auto
      qed (use f in simp_all)
    qed
  qed
qed

lemma run_char_take_plain:
  assumes pl: "p_state s \<notin> bulk_states" and lt: "x_pos s < n" and le: "n \<le> length d"
  shows "run_char (take n d) s = run_char d s"
proof (rule run_char_take)
  show "step (take n d) (d ! x_pos s) s = step d (d ! x_pos s) s" by (rule step_take [OF pl lt])
  show "x_pos s' < n" if "step d (d ! x_pos s) s = Again s'" for s'
    using step_pos_plain [OF pl, of d "d ! x_pos s"] lt that by simp
qed (use lt le in auto)

lemma unrolls_value:
  assumes st: "p_state s = s_header_value" and wf: "exec_wf 0 s" and lt: "x_pos s < length d"
    and len: "length d \<le> max_header_size"
  shows "unrolls d s"
proof (cases "of_nat max_header_size < p_nread s + 1")
  case True
  with st show ?thesis by (simp add: unrolls_def cturn_def value_turn_done)
next
  case fine: False
  let ?d = "take (Suc (x_pos s)) d" and ?s = "s\<lparr>p_nread := p_nread s + 1\<rparr>" and ?h = "p_hstate s"
  have n: "p_nread s + 1 \<le> of_nat max_header_size" using fine by (simp add: not_less)
  then have wf1: "exec_wf 1 ?s" using wf st by (simp add: exec_wf_def parser_wf_def marks_ok_def)
  have hs: "value_hs ?h" using wf st by (simp add: exec_wf_def parser_wf_def value_hs_def)
  have c: "cturn d s = value_done ?d (x_pos s) (value_loop ?d ?s ?h)"
    and t: "turn d s = value_done d (x_pos s) (value_loop d ?s ?h)"
    using st fine by (simp_all add: cturn_def value_turn_done)
  have [simp]: "x_pos ?s = x_pos s" "p_nread ?s = p_nread s + 1" by simp_all
  have "p_state ?s = s_header_value" "x_pos ?s < length d" using st lt by simp_all
  note unroll = value_loop_unroll [OF this(1) wf1 hs this(2) len, simplified]
  from unroll consider "value_loop ?d ?s ?h = value_loop d ?s ?h"
      "\<forall>a k. value_loop d ?s ?h = LEnd a k \<or> value_loop d ?s ?h = LLf a k \<longrightarrow> x_pos a = x_pos s"
    | s1 h1 where "value_loop ?d ?s ?h = LEnd (s1\<lparr>x_pos := Suc (x_pos s)\<rparr>) h1"
      "value_loop d ?s ?h = value_loop d (s1\<lparr>x_pos := Suc (x_pos s)\<rparr>) h1"
      "x_pos s1 = x_pos s" "p_nread s1 = p_nread s + 1" "p_state s1 = s_header_value" "exec_wf 1 s1" "value_hs h1"
    by blast
  then show ?thesis
  proof cases
    case 1
    have "cturn d s = turn d s"
    proof (cases "value_loop d ?s ?h")
      case (LLf a k)
      let ?X = "data_header_value d (x_pos s) (a\<lparr>p_state := s_header_almost_done, p_hstate := k\<rparr>)"
      have "run_char ?d ?X = run_char d ?X"
        using LLf 1(2) lt
        by (intro run_char_take_plain)
          (simp_all add: data_header_value_def notify_def bulk_states_def split: option.splits)
      with LLf 1 lt c t show ?thesis by (simp add: value_done_def count_header_def data_take Let_def)
    qed (use 1 lt c t in \<open>simp_all add: value_done_def\<close>)
    then show ?thesis by (simp add: unrolls_def)
  next
    case (2 s1 h1)
    let ?t = "s1\<lparr>p_hstate := h1\<rparr>" and ?z = "s1\<lparr>x_pos := Suc (x_pos s)\<rparr>"
    have self: "s1\<lparr>p_hstate := h1, x_pos := x_pos s, p_nread := p_nread s + 1\<rparr> = ?t"
      using 2(3,4) by (simp flip: 2(3,4))
    have one: "cturn d s = Next ?t"
      using c 2(1,3,4) lt fine self by (simp add: value_done_def count_header_def Let_def)
    have last: "turn d s = Next ?t" if "Suc (x_pos s) = length d"
      using one that by (simp add: cturn_def)
    have "res_eq (after_turn d (turn d s)) (after_turn d (turn d (?t\<lparr>x_pos := Suc (x_pos s)\<rparr>)))"
      if lt2: "Suc (x_pos s) < length d"
    proof -
      let ?r = "value_loop d (?z\<lparr>p_nread := p_nread s + 1 + 1, p_hstate := h1\<rparr>) h1"
      have rel: "vloop_rel (p_nread s + 1) (p_nread s + 1 + 1) (value_loop d ?z h1) ?r"
        using value_loop_veq [of ?z d h1] 2(4) by simp
      have na: "value_loop d ?z h1 \<noteq> LAbort"
        using value_loop_wf [of ?z h1 d] 2(5-7) by auto
      obtain y where y: "y = ?t\<lparr>x_pos := Suc (x_pos s)\<rparr>" by blast
      have "y\<lparr>p_nread := p_nread s + 1 + 1\<rparr> = ?z\<lparr>p_nread := p_nread s + 1 + 1, p_hstate := h1\<rparr>"
        by (simp add: y)
      moreover have "x_pos y = Suc (x_pos s)" "p_nread y = p_nread s + 1" "p_hstate y = h1"
        "p_state y = s_header_value" using 2(4,5) by (simp_all add: y)
      ultimately have t2: "turn d y = (if of_nat max_header_size < p_nread s + 1 + 1
          then fail HPE_HEADER_OVERFLOW (y\<lparr>p_nread := p_nread s + 1 + 1\<rparr>)
          else value_done d (Suc (x_pos s)) ?r)"
        using value_turn_done [of y d] by (simp only:)
      from value_done_later [OF n lt2 len rel _ na] t 2(2) t2 show ?thesis unfolding y [symmetric]
        by (auto simp: res_eq_def after_turn_def fail_def split: if_splits)
    qed
    with one last 2(3) show ?thesis by (auto simp: unrolls_def)
  qed
qed

end
