(* ===== verification/Ys_HttpCut.thy ===== *)
theory Ys_HttpCut
  imports Ys_HttpFrag
begin

text \<open>
  Two consequences of \<open>Ys_HttpFrag\<close>: \<open>http_parser_execute\<close> agrees with the execution that takes one
  character at a time, and feeding it a message in two pieces has the effect of feeding it the whole.
\<close>

section \<open>The execution by characters\<close>

lemma cturn_pos: "cturn d s = Next s' \<Longrightarrow> x_pos s < length d \<Longrightarrow> x_pos s' = x_pos s"
  using turn_pos [of s "take (Suc (x_pos s)) d" s'] by (auto simp: cturn_def)

function chars_loop :: "string \<Rightarrow> http_exec \<Rightarrow> (http_exec \<times> nat) option" where
  "chars_loop d s =
     (if x_pos s < length d
      then case cturn d s of
             Next s' \<Rightarrow> chars_loop d (s'\<lparr>x_pos := x_pos s' + 1\<rparr>)
           | Return s' n \<Rightarrow> Some (s', n)
           | _ \<Rightarrow> None
      else if 1 < marks s then None
      else Some (exec_end d s, length d))"
  by pat_completeness auto
termination
  by (relation "measure (\<lambda>(d, s). length d - x_pos s)") (auto dest: cturn_pos)

declare chars_loop.simps [simp del]

definition execute_chars :: "http_parser \<Rightarrow> string \<Rightarrow> (http_parser \<times> http_cb list \<times> nat) option" where
  "execute_chars p d =
     (if p_errno p \<noteq> HPE_OK \<or> d = [] then http_parser_execute p d
      else map_option (\<lambda>(s, n). (http_parser.truncate s, x_cb s, n)) (chars_loop d (exec_start p)))"

lemma unrolls_all:
  assumes wf: "exec_wf 0 s" and lt: "x_pos s < length d" and len: "length d \<le> max_header_size"
  shows "unrolls d s"
proof -
  consider "p_state s = s_header_field" | "p_state s = s_header_value"
    | "p_state s = s_body_identity \<or> p_state s = s_chunk_data" | "p_state s = s_body_identity_eof"
    | "p_state s \<notin> bulk_states"
    unfolding bulk_states_def by blast
  then show ?thesis
  proof cases
    case 5
    from turn_take_plain [OF this] lt show ?thesis by (simp add: unrolls_def cturn_def)
  qed (use wf lt len in \<open>simp_all add: unrolls_field unrolls_value unrolls_body unrolls_eof\<close>)
qed

lemma cturn_wf:
  assumes "exec_wf 0 s" and "x_pos s < length d"
  shows "ctl_post (exec_wf 0) (\<lambda>_. False) (\<lambda>s' n. p_errno s' = HPE_OK \<longrightarrow> parser_wf 0 s') False (cturn d s)"
  using turn_wf [OF assms(1), of "take (Suc (x_pos s)) d"] assms(2) by (simp add: cturn_def)

lemma exec_loop_chars:
  "exec_wf 0 s \<Longrightarrow> length d \<le> max_header_size \<Longrightarrow> res_eq (exec_loop d s) (chars_loop d s)"
proof (induction d s rule: chars_loop.induct)
  case (1 d s)
  show ?case
  proof (cases "x_pos s < length d")
    case False
    then show ?thesis by (simp add: exec_loop.simps [of d s] chars_loop.simps [of d s])
  next
    case True
    from unrolls_exec [OF unrolls_all [OF 1(2) True 1(3)] True]
    have eq: "res_eq (exec_loop d s) (after_turn d (cturn d s))" .
    have "res_eq (after_turn d (cturn d s)) (chars_loop d s)"
    proof (cases "cturn d s")
      case (Next s1)
      with cturn_wf [OF 1(2) True] have "exec_wf 0 (s1\<lparr>x_pos := x_pos s1 + 1\<rparr>)" by simp
      from 1(1) [OF True Next this 1(3)] Next True show ?thesis
        by (simp add: after_turn_def chars_loop.simps [of d s])
    qed (use True in \<open>simp_all add: after_turn_def chars_loop.simps [of d s]\<close>)
    from res_eq_trans [OF eq this] show ?thesis .
  qed
qed

text \<open>
  C10: On data no longer than the limit of the headers, \<open>http_parser_execute\<close>, whose inner loops run over
  names, values and bodies, agrees with the execution that takes one character at a time and looks
  at nothing behind it: the same parser, callbacks and count, or an error in both.
\<close>

theorem execute_chars_equal:
  assumes "parser_reach p" and "length d \<le> max_header_size"
  shows "\<exists>p1 cbs1 n1 p2 cbs2 n2.
    http_parser_execute p d = Some (p1, cbs1, n1) \<and> execute_chars p d = Some (p2, cbs2, n2) \<and>
    (p2 = p1 \<and> cbs2 = cbs1 \<and> n2 = n1 \<or> p_errno p1 \<noteq> HPE_OK \<and> p_errno p2 \<noteq> HPE_OK)"
proof -
  from execute_wf [OF reach_wf [OF assms(1)], of d] obtain p1 cbs1 n1
    where ex: "http_parser_execute p d = Some (p1, cbs1, n1)" by blast
  show ?thesis
  proof (cases "p_errno p \<noteq> HPE_OK \<or> d = []")
    case True
    with ex show ?thesis by (auto simp: execute_chars_def)
  next
    case False
    with reach_wf [OF assms(1)] have "exec_wf 0 (exec_start p)" by (simp add: exec_start_wf)
    from exec_loop_chars [OF this assms(2)] False ex show ?thesis
      by (auto simp: execute_chars_def http_parser_execute_def res_eq_def http_parser.truncate_def)
  qed
qed

theorem execute_chars_equal_witness:
  "\<exists>p1 cbs1 n1 p2 cbs2 n2.
    http_parser_execute (http_parser_init HTTP_REQUEST) ''GET /'' = Some (p1, cbs1, n1) \<and>
    execute_chars (http_parser_init HTTP_REQUEST) ''GET /'' = Some (p2, cbs2, n2) \<and>
    (p2 = p1 \<and> cbs2 = cbs1 \<and> n2 = n1 \<or> p_errno p1 \<noteq> HPE_OK \<and> p_errno p2 \<noteq> HPE_OK)"
  by (rule execute_chars_equal [OF parser_reach.fresh]) (simp add: max_header_size_def)

section \<open>Where a call returns\<close>

abbreviation ret_after :: "nat \<Rightarrow> ctl \<Rightarrow> bool" where
  "ret_after p \<equiv> ctl_post (\<lambda>_. True) (\<lambda>_. True) (\<lambda>s' n. p_errno s' = HPE_OK \<longrightarrow> p < n) True"

lemma ret_after_count: "(\<And>s'. ret_after p (k s')) \<Longrightarrow> ret_after p (count_header n s k)"
  by (simp add: count_header_def Let_def fail_def)

lemma step_ret_plain:
  "p_state s \<notin> bulk_states \<Longrightarrow> p_errno s = HPE_OK \<Longrightarrow> ret_after (x_pos s) (step d ch s)"
  by (cases "p_state s"; (simp add: bulk_states_def; fail)?;
      simp add: step_def step_defs ctl_defs ctl_post_if split: option.splits header_state.splits)

lemma step_ret_after:
  assumes "x_pos s < length d" and "p_errno s = HPE_OK"
  shows "ret_after (x_pos s) (step d ch s)"
proof -
  consider "p_state s = s_header_field" | "p_state s = s_header_value"
    | "p_state s \<in> {s_body_identity, s_chunk_data, s_body_identity_eof}" | "p_state s \<notin> bulk_states"
    unfolding bulk_states_def by blast
  then show ?thesis
  proof cases
    case 1
    then show ?thesis
      by (auto simp: step_def step_header_field_def Let_def fail_def intro!: ret_after_count split: option.splits)
  next
    case 2
    with value_loop_pos [of s d "p_hstate s"] assms(1) show ?thesis
      by (cases "value_loop d s (p_hstate s)")
        (auto simp: step_def step_header_value_def Let_def intro!: ret_after_count)
  next
    case 3
    then show ?thesis
      by (auto simp: step_def step_body_identity_def step_chunk_data_def step_body_identity_eof_def Let_def)
  next
    case 4
    from step_ret_plain [OF this assms(2)] show ?thesis .
  qed
qed

lemma run_char_ret_after:
  "exec_wf 1 s \<Longrightarrow> x_pos s < length d \<Longrightarrow> ret_after (x_pos s) (run_char d s)"
proof (induction d s rule: run_char.induct)
  case (1 d s)
  have ok: "step_ok (step d (d ! x_pos s) s)" using 1(2) by (rule step_keeps_wf)
  have "p_errno s = HPE_OK" using 1(2) by (simp add: exec_wf_def parser_wf_def)
  with 1(3) have ret: "ret_after (x_pos s) (step d (d ! x_pos s) s)" by (rule step_ret_after)
  show ?case
  proof (cases "step d (d ! x_pos s) s")
    case (Again s1)
    from step_pos [OF 1(3)] Again have pos: "x_pos s1 < length d" "x_pos s \<le> x_pos s1" by auto
    from ok Again have "exec_wf 1 s1" by simp
    from 1(1) [OF Again this pos(1)] pos(2) Again show ?thesis
      by (cases "run_char d s1") (auto simp: run_char_next(4))
  qed (use ret in \<open>simp_all add: run_char.simps [of d s]\<close>)
qed

lemma turn_ret_after:
  assumes wf: "exec_wf 0 s" and lt: "x_pos s < length d"
  shows "ret_after (x_pos s) (turn d s)"
proof (cases "PARSING_HEADER (p_state s)")
  case True
  have "ret_after (x_pos s) (run_char d (s\<lparr>p_nread := p_nread s + 1\<rparr>))"
    if "\<not> of_nat max_header_size < p_nread s + 1"
    using run_char_ret_after [of "s\<lparr>p_nread := p_nread s + 1\<rparr>" d] wf lt that
    by (simp add: exec_wf_def parser_wf_def marks_ok_def not_less)
  with True show ?thesis by (simp add: turn_def count_header_def fail_def Let_def)
next
  case False
  then have "p_state s \<noteq> s_chunk_size_start" by (auto simp: PARSING_HEADER_def)
  with wf have "exec_wf 1 s" by (simp add: exec_wf_def parser_wf_def)
  from run_char_ret_after [OF this lt] False show ?thesis by (simp add: turn_def)
qed

lemma cturn_return:
  assumes "cturn d s = Return s' n" and "p_errno s' = HPE_OK" and "exec_wf 0 s" and "x_pos s < length d"
  shows "n = Suc (x_pos s)"
  using turn_ret_after [OF assms(3), of "take (Suc (x_pos s)) d"]
    turn_wf [OF assms(3), of "take (Suc (x_pos s)) d"] assms
  by (simp add: cturn_def)

section \<open>A message in two pieces\<close>

lemma open_cb_take: "p \<le> n \<Longrightarrow> open_cb (take n d) s p = open_cb d s p"
  by (simp add: open_cb_def slice_take split: option.splits)

context http_consumer
begin

lemma sim_take:
  assumes "p < length d" and "q < length e"
  shows "sim f c c' (take (Suc p) d) (take (Suc q) e) p q s t = sim f c c' d e p q s t"
    and "sim f c c' (take (Suc p) d) (take (Suc q) e) (Suc p) (Suc q) s t = sim f c c' d e (Suc p) (Suc q) s t"
  using assms by (simp_all add: sim_def open_cb_take)

lemma sim_pos: "sim f c c' d e p q (s\<lparr>x_pos := i\<rparr>) (t\<lparr>x_pos := j\<rparr>) = sim f c c' d e p q s t"
  by (simp add: sim_def peq_def open_cb_def)

lemma cturn_sim:
  assumes "sim f c c' d e (x_pos s) (x_pos t) s t" and "exec_wf 0 s" and "exec_wf 0 t"
    and "x_pos s < length d" and "x_pos t < length e" and "d ! x_pos s = e ! x_pos t"
  shows "ctl_rel (sim f c c' d e (Suc (x_pos s)) (Suc (x_pos t))) (\<lambda>_ _. False) (sim_ret f c c')
    (cturn d s) (cturn e t)"
  using turn_sim [of c c' "take (Suc (x_pos s)) d" "take (Suc (x_pos t)) e" s t] assms
    sim_take [OF assms(4,5)]
  by (cases "cturn d s"; cases "cturn e t") (simp_all add: cturn_def)

text \<open>The execution of the whole up to the cut is the execution of the first piece.\<close>

lemma chars_prefix:
  "sim f c c a a (x_pos s) (x_pos s) s s \<Longrightarrow> exec_wf 0 s \<Longrightarrow> x_pos s \<le> length a \<Longrightarrow> b \<noteq> [] \<Longrightarrow>
    chars_loop (a @ b) s = Some (s2, length (a @ b)) \<Longrightarrow> p_errno s2 = HPE_OK \<Longrightarrow>
    \<exists>s1. x_pos s1 = length a \<and> sim f c c a a (length a) (length a) s1 s1 \<and> exec_wf 0 s1 \<and>
      chars_loop a s = Some (exec_end a s1, length a) \<and>
      chars_loop (a @ b) s1 = Some (s2, length (a @ b))"
proof (induction a s rule: chars_loop.induct)
  case (1 a s)
  show ?case
  proof (cases "x_pos s < length a")
    case False
    with 1(4) have "x_pos s = length a" by simp
    with False 1(2,3,6) wf_marks [OF 1(3)] show ?thesis by (auto simp: chars_loop.simps [of a s])
  next
    case True
    then have lt: "x_pos s < length (a @ b)" by simp
    have c: "cturn (a @ b) s = cturn a s" using True by (simp add: cturn_def)
    show ?thesis
    proof (cases "cturn a s")
      case (Next s1)
      let ?s = "s1\<lparr>x_pos := x_pos s1 + 1\<rparr>"
      have pos: "x_pos ?s = Suc (x_pos s)" using cturn_pos [OF Next True] by simp
      have wf: "exec_wf 0 ?s" using cturn_wf [OF 1(3) True] Next by simp
      have "sim f c c a a (Suc (x_pos s)) (Suc (x_pos s)) s1 s1"
        using cturn_sim [OF 1(2,3,3) True True refl] Next by simp
      then have sim: "sim f c c a a (x_pos ?s) (x_pos ?s) ?s ?s" using pos by (simp only: sim_pos)
      have "chars_loop (a @ b) s = chars_loop (a @ b) ?s" "chars_loop a s = chars_loop a ?s"
        using lt True c Next by (simp_all add: chars_loop.simps [of _ s])
      then show ?thesis using 1(1) [OF True Next sim wf _ 1(5)] 1(6,7) True pos by simp
    next
      case (Return s' n)
      with 1(6) lt c have "s' = s2" "n = length (a @ b)" by (simp_all add: chars_loop.simps [of "a @ b" s])
      with cturn_return [OF Return _ 1(3) True] 1(5,7) True show ?thesis by (cases b) auto
    qed (use 1(6) lt c in \<open>simp_all add: chars_loop.simps [of "a @ b" s]\<close>)
  qed
qed

text \<open>Related states with the same rest of the data have related results.\<close>

lemma chars_sim:
  "sim f c c' d e (x_pos s) (x_pos t) s t \<Longrightarrow> exec_wf 0 s \<Longrightarrow> exec_wf 0 t \<Longrightarrow> x_pos s \<le> length d \<Longrightarrow>
    x_pos t \<le> length e \<Longrightarrow> drop (x_pos s) d = drop (x_pos t) e \<Longrightarrow>
    chars_loop d s = Some (s2, length d) \<Longrightarrow> p_errno s2 = HPE_OK \<Longrightarrow>
    \<exists>t2. chars_loop e t = Some (t2, length e) \<and> sim_ret f c c' s2 t2"
proof (induction d s arbitrary: t rule: chars_loop.induct)
  case (1 d s)
  have len: "length d - x_pos s = length e - x_pos t" using arg_cong [OF 1(7), of length] by simp
  show ?case
  proof (cases "x_pos s < length d")
    case False
    with 1(5,6) len have pos: "x_pos s = length d" "x_pos t = length e" by simp_all
    with 1(8) wf_marks [OF 1(3)] have "s2 = exec_end d s" by (simp add: chars_loop.simps [of d s])
    moreover have "chars_loop e t = Some (exec_end e t, length e)"
      using pos wf_marks [OF 1(4)] by (simp add: chars_loop.simps [of e t])
    moreover have "sim_ret f c c' (exec_end d s) (exec_end e t)"
      using 1(2) exec_end_parser [of d s] exec_end_parser [of e t]
      by (simp add: sim_ret_def sim_def exec_end_cb peq_truncate)
    ultimately show ?thesis by simp
  next
    case True
    with len 1(6) have lt: "x_pos t < length e" by simp
    have ch: "d ! x_pos s = e ! x_pos t"
      using 1(7) True lt by (metis Cons_nth_drop_Suc list.inject)
    have rel: "ctl_rel (sim f c c' d e (Suc (x_pos s)) (Suc (x_pos t))) (\<lambda>_ _. False) (sim_ret f c c')
        (cturn d s) (cturn e t)"
      by (rule cturn_sim [OF 1(2-4) True lt ch])
    show ?thesis
    proof (cases "cturn d s")
      case (Next s1)
      with rel obtain t1 where t1: "cturn e t = Next t1"
        and sim1: "sim f c c' d e (Suc (x_pos s)) (Suc (x_pos t)) s1 t1"
        by (cases "cturn e t") auto
      let ?s = "s1\<lparr>x_pos := x_pos s1 + 1\<rparr>" and ?t = "t1\<lparr>x_pos := x_pos t1 + 1\<rparr>"
      have pos: "x_pos ?s = Suc (x_pos s)" "x_pos ?t = Suc (x_pos t)"
        using cturn_pos [OF Next True] cturn_pos [OF t1 lt] by simp_all
      have wf: "exec_wf 0 ?s" "exec_wf 0 ?t"
        using cturn_wf [OF 1(3) True] cturn_wf [OF 1(4) lt] Next t1 by simp_all
      have eq: "chars_loop d s = chars_loop d ?s" "chars_loop e t = chars_loop e ?t"
        using True lt Next t1 by (simp_all add: chars_loop.simps [of d s] chars_loop.simps [of e t])
      have "drop (x_pos ?s) d = drop (x_pos ?t) e"
        using 1(7) pos by (metis drop_Suc drop_tl)
      moreover have "sim f c c' d e (x_pos ?s) (x_pos ?t) ?s ?t" using sim1 pos by (simp only: sim_pos)
      ultimately show ?thesis
        using 1(1) [OF True Next, of ?t] wf pos True lt 1(8,9) eq by simp
    next
      case (Return s' n)
      with 1(8) True have s2: "s' = s2" "n = length d" by (simp_all add: chars_loop.simps [of d s])
      with cturn_return [OF Return _ 1(3) True] 1(9) have "length d = Suc (x_pos s)" by simp
      with len lt have "length e = Suc (x_pos t)" by simp
      moreover from rel Return s2 obtain t2 k where t2: "cturn e t = Return t2 k" "sim_ret f c c' s2 t2"
        by (cases "cturn e t") auto
      moreover have "p_errno t2 = HPE_OK" using t2(2) 1(9) by (simp add: sim_ret_def peq_def)
      with cturn_return [OF t2(1) _ 1(4) lt] have "k = Suc (x_pos t)" by simp
      ultimately show ?thesis using lt by (simp add: chars_loop.simps [of e t])
    qed (use rel 1(8) True in \<open>simp_all add: chars_loop.simps [of d s]\<close>)
  qed
qed

text \<open>At the cut the open token is closed, and opened again as an empty one.\<close>

lemma reopen:
  assumes "exec_wf 0 s"
  shows "fold f (open_cb b (exec_start (http_parser.truncate s)) 0) (fold f (open_cb a s m) c) =
    fold f (open_cb a s m) c"
proof -
  let ?t = "exec_start (http_parser.truncate s)"
  have t: "url_mark ?t = (if p_state s \<in> url_states then Some 0 else None)"
    "status_mark ?t = (if p_state s = s_res_status then Some 0 else None)"
    "header_field_mark ?t = (if p_state s = s_header_field then Some 0 else None)"
    "header_value_mark ?t = (if p_state s = s_header_value then Some 0 else None)"
    "body_mark ?t = None"
    by (simp_all add: exec_start_def http_parser.defs)
  consider "p_state s \<in> url_states" | "p_state s = s_res_status" | "p_state s = s_header_field"
    | "p_state s = s_header_value"
    | "p_state s \<notin> url_states" "p_state s \<noteq> s_res_status" "p_state s \<noteq> s_header_field" "p_state s \<noteq> s_header_value"
    by blast
  then show ?thesis
  proof cases
    case 1
    from wf_token_url [OF assms 1] 1 t url [of _ "[]"] show ?thesis
      by (auto simp: open_cb_def url_states_def)
  next
    case 2
    from wf_token_one(1) [OF assms 2] 2 t status [of _ "[]"] show ?thesis
      by (auto simp: open_cb_def url_states_def)
  next
    case 3
    from wf_token_one(2) [OF assms 3] 3 t field [of _ "[]"] show ?thesis
      by (auto simp: open_cb_def url_states_def)
  next
    case 4
    from wf_token_one(3) [OF assms 4] 4 t val [of _ "[]"] show ?thesis
      by (auto simp: open_cb_def url_states_def)
  next
    case 5
    with t show ?thesis by (simp add: open_cb_def)
  qed
qed

lemma sim_cut:
  assumes sim: "sim f c c a a (length a) (length a) s s" and wf: "exec_wf 0 s"
    and c': "c' = fold f (x_cb s @ open_cb a s (length a)) c"
  shows "sim f c c' (a @ b) b (length a) 0 s (exec_start (http_parser.truncate s))"
proof -
  let ?t = "exec_start (http_parser.truncate s)"
  have "open_cb (a @ b) s (length a) = open_cb a s (length a)"
    using open_cb_take [of "length a" "length a" "a @ b" s] by simp
  moreover have "x_cb ?t = []" by (simp add: exec_start_def http_parser.defs)
  moreover have "peq ?t s" by (simp add: peq_def exec_start_def http_parser.defs)
  moreover have "same_mark (length a) 0 (url_mark s) (url_mark ?t)"
    "same_mark (length a) 0 (status_mark s) (status_mark ?t)"
    "same_mark (length a) 0 (header_field_mark s) (header_field_mark ?t)"
    "same_mark (length a) 0 (header_value_mark s) (header_value_mark ?t)"
    "mark_le (length a) (body_mark s)" "mark_le 0 (body_mark ?t)"
    using wf sim
    by (auto simp: exec_wf_def marks_ok_def sim_def same_mark_def mark_le_def exec_start_def
        http_parser.defs split: option.splits)
  ultimately show ?thesis using reopen [OF wf, of b a "length a" "fold f (x_cb s) c"] c'
    by (simp add: sim_def)
qed

lemma execute_cut:
  assumes wf: "parser_wf 0 p" and ab: "a \<noteq> []" "b \<noteq> []" "length (a @ b) \<le> max_header_size"
    and whole: "http_parser_execute p (a @ b) = Some (p2, cbs, length (a @ b))" "p_errno p2 = HPE_OK"
  shows "\<exists>p1 cbs1 cbs2. http_parser_execute p a = Some (p1, cbs1, length a) \<and>
    http_parser_execute p1 b = Some (p2, cbs2, length b) \<and>
    fold f (cbs1 @ cbs2) c = fold f cbs c"
proof -
  let ?s = "exec_start p"
  have ok: "p_errno p = HPE_OK" using wf by (simp add: parser_wf_def)
  have s: "exec_wf 0 ?s" "x_pos ?s = 0" "x_cb ?s = []"
    using exec_start_wf [OF wf] by (simp_all add: exec_start_def http_parser.defs)
  from whole(1) ok ab obtain s2 where s2: "exec_loop (a @ b) ?s = Some (s2, length (a @ b))"
    "p2 = http_parser.truncate s2" "cbs = x_cb s2"
    by (auto simp: http_parser_execute_def)
  have e2: "p_errno s2 = HPE_OK" using whole(2) s2(2) by (simp add: http_parser.truncate_def)
  have "chars_loop (a @ b) ?s = Some (s2, length (a @ b))"
    using res_eq_ok(2) [OF _ e2] exec_loop_chars [OF s(1) ab(3)] s2(1) by metis
  moreover have "sim f c c a a (x_pos ?s) (x_pos ?s) ?s ?s"
    by (simp add: sim_def peq_def same_mark_def mark_le_def exec_start_def http_parser.defs)
  ultimately obtain s1 where s1: "x_pos s1 = length a" "sim f c c a a (length a) (length a) s1 s1"
    "exec_wf 0 s1" "chars_loop a ?s = Some (exec_end a s1, length a)"
    "chars_loop (a @ b) s1 = Some (s2, length (a @ b))"
    using chars_prefix [of c a ?s b s2] s e2 ab by auto
  let ?p1 = "http_parser.truncate s1" and ?cbs1 = "x_cb s1 @ open_cb a s1 (length a)"
  let ?t = "exec_start ?p1" and ?c = "fold f ?cbs1 c"
  have "p_errno (exec_end a s1) = HPE_OK"
    using s1(3) exec_end_parser [of a s1] by (simp add: exec_wf_def parser_wf_def flip: peq_truncate add: peq_def)
  with exec_loop_chars [OF s(1), of a] s1(4) ab(3) have "exec_loop a ?s = Some (exec_end a s1, length a)"
    by (auto dest: res_eq_ok(1))
  then have first: "http_parser_execute p a = Some (?p1, ?cbs1, length a)"
    using ok ab(1) s1(1) exec_end_parser [of a s1] exec_end_cb [of a s1]
    by (simp add: http_parser_execute_def)
  have wf1: "parser_wf 0 ?p1" using s1(3) by (simp add: exec_wf_def truncate_wf)
  have t: "exec_wf 0 ?t" "x_pos ?t = 0" using exec_start_wf [OF wf1] by (simp_all add: exec_start_def http_parser.defs)
  from chars_sim [of c ?c "a @ b" b s1 ?t s2] sim_cut [OF s1(2,3) refl] s1(1,3,5) t e2
  obtain t2 where t2: "chars_loop b ?t = Some (t2, length b)" "sim_ret f c ?c s2 t2" by auto
  then have "p_errno t2 = HPE_OK" using e2 by (simp add: sim_ret_def peq_def)
  with exec_loop_chars [OF t(1), of b] t2(1) ab(3) have "exec_loop b ?t = Some (t2, length b)"
    by (auto dest: res_eq_ok(1))
  moreover have "p_errno ?p1 = HPE_OK" using wf1 by (simp add: parser_wf_def)
  ultimately have "http_parser_execute ?p1 b = Some (http_parser.truncate t2, x_cb t2, length b)"
    using ab(2) by (simp add: http_parser_execute_def)
  moreover have "http_parser.truncate t2 = p2" "fold f (x_cb t2) ?c = fold f cbs c"
    using t2(2) e2 s2 by (simp_all add: sim_ret_def peq_truncate)
  ultimately show ?thesis using first by auto
qed

end

end
