(* ===== verification/Ys_Http.thy ===== *)
theory Ys_Http
  imports Ys_HttpCut Ys_Buffer "HOL-Library.List_Lexorder" "HOL-Library.Char_ord" "HOL-Library.Sublist"
    "HOL-Library.Multiset"
begin

text \<open>
  \<open>isaac/ys_http_parser.h\<close> and \<open>isaac/ys_http_pkt.h\<close>: the context the parser's callbacks fill in, its
  header operations, the framing functions \<open>httpParse\<close> and \<open>parserAppend\<close>, and the texts of requests
  and responses.
\<close>

section \<open>Multimaps\<close>

text \<open>
  A \<open>std::multimap\<close> as its elements in order.  \<open>insert\<close> places an element behind those with an equal
  key, \<open>find\<close> gives the first of them.
\<close>

type_synonym headers = "(string \<times> string) list"

fun mm_insert :: "string \<Rightarrow> string \<Rightarrow> headers \<Rightarrow> headers" where
  "mm_insert k v [] = [(k, v)]"
| "mm_insert k v ((k', v') # hs) =
     (if k < k' then (k, v) # (k', v') # hs else (k', v') # mm_insert k v hs)"

definition mm_find :: "string \<Rightarrow> headers \<Rightarrow> string option" where
  "mm_find k hs = map_of hs k"

definition mm_erase :: "string \<Rightarrow> headers \<Rightarrow> headers" where
  "mm_erase k hs = filter (\<lambda>h. fst h \<noteq> k) hs"

section \<open>The context\<close>

record http_ctx =
  c_parser :: http_parser
  c_pos :: u32
  fRecv :: bool
  c_url :: string
  c_status :: string
  header_field :: string
  header_val :: string
  last_is_val :: bool
  c_body :: string
  c_headers :: headers

text \<open>\<open>clear\<close> leaves the name of the last header.\<close>

definition ctx_clear :: "http_ctx \<Rightarrow> http_ctx" where
  "ctx_clear c = c\<lparr>c_url := [], c_status := [], header_val := [], c_body := [], c_headers := []\<rparr>"

definition ctx_init :: "http_parser_type \<Rightarrow> http_ctx \<Rightarrow> http_ctx" where
  "ctx_init t c =
     (ctx_clear (c\<lparr>c_parser := http_parser_init t\<rparr>))\<lparr>c_pos := 0, fRecv := True, last_is_val := True\<rparr>"

definition new_ctx :: "http_parser_type \<Rightarrow> http_ctx" where
  "new_ctx t = ctx_init t
     \<lparr>c_parser = http_parser_init t, c_pos = 0, fRecv = True, c_url = [], c_status = [],
      header_field = [], header_val = [], last_is_val = True, c_body = [], c_headers = []\<rparr>"

section \<open>The callbacks\<close>

definition ctx_on_header_field :: "string \<Rightarrow> http_ctx \<Rightarrow> http_ctx" where
  "ctx_on_header_field s c =
     (let c1 = (if last_is_val c \<and> header_field c \<noteq> []
           then c\<lparr>c_headers := mm_insert (header_field c) (header_val c) (c_headers c),
                  header_field := [], header_val := []\<rparr>
           else c)
      in c1\<lparr>header_field := header_field c1 @ s, last_is_val := False\<rparr>)"

fun http_callback :: "http_cb \<Rightarrow> http_ctx \<Rightarrow> http_ctx" where
  "http_callback on_message_begin c = c"
| "http_callback (on_url s) c = c\<lparr>c_url := c_url c @ s\<rparr>"
| "http_callback (on_status s) c = c\<lparr>c_status := c_status c @ s\<rparr>"
| "http_callback (on_header_field s) c = ctx_on_header_field s c"
| "http_callback (on_header_value s) c = c\<lparr>header_val := header_val c @ s, last_is_val := True\<rparr>"
| "http_callback on_headers_complete c =
     c\<lparr>c_headers := mm_insert (header_field c) (header_val c) (c_headers c)\<rparr>"
| "http_callback (on_body s) c = c\<lparr>c_body := c_body c @ s\<rparr>"
| "http_callback on_message_complete c = c\<lparr>fRecv := False\<rparr>"

interpretation ctx: http_consumer http_callback
  by unfold_locales (simp_all add: ctx_on_header_field_def Let_def)

section \<open>Header operations\<close>

definition hasCrlf :: "string \<Rightarrow> bool" where
  "hasCrlf s \<longleftrightarrow> list_ex (\<lambda>c. c = CR \<or> c = LF) s"

definition hasHeader :: "string \<Rightarrow> http_ctx \<Rightarrow> bool" where
  "hasHeader k c \<longleftrightarrow> mm_find k (c_headers c) \<noteq> None"

definition setHeader :: "string \<Rightarrow> string \<Rightarrow> http_ctx \<Rightarrow> http_ctx" where
  "setHeader k v c =
     (if \<not> hasCrlf k \<and> \<not> hasCrlf v then c\<lparr>c_headers := mm_insert k v (c_headers c)\<rparr> else c)"

definition delHeader :: "string \<Rightarrow> http_ctx \<Rightarrow> http_ctx" where
  "delHeader k c = (if hasHeader k c then c\<lparr>c_headers := mm_erase k (c_headers c)\<rparr> else c)"

definition getHeader :: "string \<Rightarrow> http_ctx \<Rightarrow> string" where
  "getHeader k c = (case mm_find k (c_headers c) of Some v \<Rightarrow> v | None \<Rightarrow> [])"

definition updateHeader :: "string \<Rightarrow> string \<Rightarrow> http_ctx \<Rightarrow> http_ctx" where
  "updateHeader k v c = setHeader k v (delHeader k c)"

definition setConnection :: "string \<Rightarrow> http_ctx \<Rightarrow> http_ctx" where
  "setConnection v c = updateHeader ''Connection'' v c"

text \<open>\<open>getConnection\<close> is no constant member: it sets the header it does not find.\<close>

definition getConnection :: "http_ctx \<Rightarrow> string \<times> http_ctx" where
  "getConnection c =
     (case mm_find ''Connection'' (c_headers c) of
        Some v \<Rightarrow> (v, c)
      | None \<Rightarrow> (''keep-alive'', setHeader ''Connection'' ''keep-alive'' c))"

definition hasConnectionClose :: "http_ctx \<Rightarrow> bool" where
  "hasConnectionClose c =
     (case mm_find ''Connection'' (c_headers c) of
        None \<Rightarrow> False
      | Some v \<Rightarrow> map lower_char v = ''close'')"

definition getType :: "http_ctx \<Rightarrow> string" where
  "getType c = (case p_type (c_parser c) of HTTP_REQUEST \<Rightarrow> ''REQUEST'' | HTTP_RESPONSE \<Rightarrow> ''RESPNOSE''
     | HTTP_BOTH \<Rightarrow> ''BOTH'')"

definition getUrl :: "http_ctx \<Rightarrow> (unit, string) outcome" where "getUrl c = getPath (c_url c)"

definition isMultipartData :: "http_ctx \<Rightarrow> bool" where
  "isMultipartData c \<longleftrightarrow> getHeader ''Content-Type'' c \<noteq> [] \<and>
     sublist ''multipart/form-data'' (getHeader ''Content-Type'' c)"

text \<open>
  \<open>std::stoi\<close>: blanks, a sign, then the longest run of digits.  \<open>None\<close> is an exception: no digit, or a
  value that is no \<open>int\<close>.
\<close>

definition stoi :: "string \<Rightarrow> int option" where
  "stoi s =
     (let t = dropWhile is_space s;
          (neg, u) = (case t of [] \<Rightarrow> (False, []) | c # cs \<Rightarrow>
             if c = CHR ''-'' then (True, cs) else if c = CHR ''+'' then (False, cs) else (False, t));
          d = takeWhile is_digit u;
          v = (if neg then - int (dec_val d) else int (dec_val d))
      in if d = [] \<or> v < - (2 ^ 31) \<or> 2 ^ 31 \<le> v then None else Some v)"

definition getContentLen :: "http_ctx \<Rightarrow> int" where
  "getContentLen c =
     (case mm_find ''Content-Length'' (c_headers c) of
        None \<Rightarrow> 0
      | Some v \<Rightarrow> (case stoi v of None \<Rightarrow> 0 | Some n \<Rightarrow> n))"

section \<open>Requests and responses\<close>

definition crlf :: string where "crlf = [CR, LF]"

definition header_line :: "string \<times> string \<Rightarrow> string" where
  "header_line h = fst h @ '': '' @ snd h @ crlf"

definition formatHeader :: "http_ctx \<Rightarrow> string \<times> http_ctx" where
  "formatHeader c =
     (let c1 = (if hasHeader ''Connection'' c then c else setHeader ''Connection'' ''close'' c)
      in (concat (map header_line (c_headers c1)) @ crlf, c1))"

definition setRequest :: "http_method \<Rightarrow> string \<Rightarrow> string \<Rightarrow> http_ctx \<Rightarrow> http_ctx" where
  "setRequest m u b c = c\<lparr>c_parser := (c_parser c)\<lparr>p_method := m\<rparr>, c_url := u, c_body := b\<rparr>"

definition request_headers :: "http_ctx \<Rightarrow> http_ctx" where
  "request_headers c =
     (let c1 = (if p_method (c_parser c) = HTTP_POST \<and> \<not> hasHeader ''Content-Type'' c
                then setHeader ''Content-Type'' ''text/plain'' c else c);
          c2 = (if hasHeader ''Host'' c1 then c1 else setHeader ''Host'' [] c1)
      in if p_method (c_parser c2) = HTTP_POST \<or> c_body c2 \<noteq> []
         then updateHeader ''Content-Length'' (dec_str (length (c_body c2))) c2 else c2)"

definition request_format :: "http_ctx \<Rightarrow> string \<times> http_ctx" where
  "request_format c =
     (let (h, c') = formatHeader (request_headers c)
      in (method_str (p_method (c_parser c)) @ '' '' @ c_url c @ '' HTTP/1.1'' @ crlf @ h @ c_body c', c'))"

definition setResponse :: "u16 \<Rightarrow> string \<Rightarrow> http_ctx \<Rightarrow> http_ctx" where
  "setResponse n b c = c\<lparr>c_parser := (c_parser c)\<lparr>p_status := n\<rparr>, c_body := b\<rparr>"

definition response_headers :: "http_ctx \<Rightarrow> http_ctx" where
  "response_headers c =
     (if hasHeader ''Content-Length'' c then c
      else setHeader ''Content-Length'' (dec_str (length (c_body c))) c)"

definition response_format :: "http_ctx \<Rightarrow> string \<times> http_ctx" where
  "response_format c =
     (let (h, c') = formatHeader (response_headers c); n = p_status (c_parser c)
      in (''HTTP/1.1 '' @ dec_str (unat n) @ '' '' @ http_status_str (unat n) @ crlf @ h @ c_body c', c'))"

section \<open>Framing\<close>

definition chars_of :: "bytes \<Rightarrow> string" where "chars_of = map (\<lambda>b. char_of (unat b))"

text \<open>The parser's view of a call: \<open>None\<close> is a failed assertion.\<close>

definition ctx_execute :: "string \<Rightarrow> http_ctx \<Rightarrow> (nat \<times> http_ctx) option" where
  "ctx_execute d c =
     map_option (\<lambda>(p, cbs, n). (n, (fold http_callback cbs c)\<lparr>c_parser := p\<rparr>))
       (http_parser_execute (c_parser c) d)"

definition parserAppend :: "string \<Rightarrow> http_ctx \<Rightarrow> (32 word \<times> http_ctx) option" where
  "parserAppend d c =
     map_option (\<lambda>(n, c1).
         if n \<noteq> length d then (- 1, c1)
         else let c2 = c1\<lparr>c_pos := c_pos c1 + of_nat n\<rparr>
           in (if fRecv c2 then 8192 else 0, c2))
       (ctx_execute d c)"

text \<open>
  \<open>httpParse\<close>: where the buffer holds less than the context has consumed, the length passed to the
  parser wraps around and the parser reads past the buffer.  The comparison of \<open>buf.left()\<close> with 0 is
  that of a pointer into a non-empty block and never holds.
\<close>

definition httpParse ::
    "http_parser_type \<Rightarrow> ys_buf \<Rightarrow> http_ctx option \<Rightarrow> (unit, 32 word \<times> http_ctx) outcome" where
  "httpParse t b arg =
     (let c = (case arg of None \<Rightarrow> ctx_init t (new_ctx t) | Some c \<Rightarrow> c)
      in if bempty b then Ok (ucast (bcap b), c)
         else if blen b < ucast (c_pos c) then Undef
         else let d = chars_of (drop (unat (c_pos c)) (contents b)) in
           case ctx_execute d c of
             None \<Rightarrow> Undef
           | Some (n, c1) \<Rightarrow>
               if n \<noteq> length d then Ok (- 1, c1)
               else let c2 = c1\<lparr>c_pos := c_pos c1 + of_nat n\<rparr>
                 in Ok (if fRecv c2 then ucast (leftSize b) else 0, c2))"

definition httpParseReq :: "ys_buf \<Rightarrow> http_ctx option \<Rightarrow> (unit, 32 word \<times> http_ctx) outcome" where
  "httpParseReq b arg = httpParse HTTP_REQUEST b arg"

definition httpParseResp :: "ys_buf \<Rightarrow> http_ctx option \<Rightarrow> (unit, 32 word \<times> http_ctx) outcome" where
  "httpParseResp b arg = httpParse HTTP_RESPONSE b arg"


section \<open>Multimaps are stably sorted\<close>

lemma mm_insert_set [simp]: "set (mm_insert k v hs) = insert (k, v) (set hs)"
  by (induction k v hs rule: mm_insert.induct) auto

lemma mm_insert_mset [simp]: "mset (mm_insert k v hs) = add_mset (k, v) (mset hs)"
  by (induction k v hs rule: mm_insert.induct) auto

lemma mm_insert_sorted: "sorted (map fst hs) \<Longrightarrow> sorted (map fst (mm_insert k v hs))"
  by (induction k v hs rule: mm_insert.induct) auto

lemma mm_insert_filter:
  "sorted (map fst hs) \<Longrightarrow>
    filter (\<lambda>h. key = fst h) (mm_insert k v hs) =
      filter (\<lambda>h. key = fst h) hs @ (if key = k then [(k, v)] else [])"
proof (induction k v hs rule: mm_insert.induct)
  case (2 k v k' v' hs)
  show ?case
  proof (cases "k < k'")
    case True
    with 2(2) have "\<forall>h \<in> set ((k', v') # hs). fst h \<noteq> k" by auto
    then have "filter (\<lambda>h. k = fst h) ((k', v') # hs) = []" by (auto simp: filter_empty_conv)
    with True show ?thesis by auto
  next
    case False
    with 2 show ?thesis by auto
  qed
qed auto

lemma mm_fold:
  "sorted (map fst hs) \<Longrightarrow>
    sorted (map fst (fold (\<lambda>(k, v). mm_insert k v) xs hs)) \<and>
    mset (fold (\<lambda>(k, v). mm_insert k v) xs hs) = mset hs + mset xs \<and>
    filter (\<lambda>h. key = fst h) (fold (\<lambda>(k, v). mm_insert k v) xs hs) =
      filter (\<lambda>h. key = fst h) hs @ filter (\<lambda>h. key = fst h) xs"
proof (induction xs arbitrary: hs)
  case (Cons x xs)
  obtain k v where x: "x = (k, v)" by (cases x)
  from Cons(1) [OF mm_insert_sorted [OF Cons(2)], of k v] mm_insert_filter [OF Cons(2), of key k v]
  show ?case by (auto simp: x)
qed simp

lemma mm_fold_sort: "fold (\<lambda>(k, v). mm_insert k v) xs [] = sort_key fst xs"
  by (rule properties_for_sort_key [symmetric]) (use mm_fold [where hs = "[]" and xs = xs] in auto)

lemma mm_find_insert:
  "sorted (map fst hs) \<Longrightarrow> mm_find key (mm_insert k v hs) =
    (case mm_find key hs of None \<Rightarrow> if key = k then Some v else None | Some w \<Rightarrow> Some w)"
proof -
  have f: "map_of hs key = map_of (filter (\<lambda>h. key = fst h) hs) key" for hs :: headers
    by (induction hs) auto
  assume "sorted (map fst hs)"
  from mm_insert_filter [OF this, of key k v] f [of hs] f [of "mm_insert k v hs"]
  show ?thesis by (auto simp: mm_find_def map_add_def split: option.splits)
qed

lemma mm_find_erase: "mm_find key (mm_erase k hs) = (if key = k then None else mm_find key hs)"
  by (induction hs) (auto simp: mm_find_def mm_erase_def)

lemma mm_erase_sorted: "sorted (map fst hs) \<Longrightarrow> sorted (map fst (mm_erase k hs))"
  unfolding mm_erase_def by (rule sorted_filter)

section \<open>Collecting the headers\<close>

definition header_cbs :: "headers \<Rightarrow> http_cb list" where
  "header_cbs hs = concat (map (\<lambda>(k, v). [on_header_field k, on_header_value v]) hs)"

lemma header_cbs_fold:
  "list_all (\<lambda>h. fst h \<noteq> []) hs \<Longrightarrow> last_is_val c \<Longrightarrow> header_field c \<noteq> [] \<Longrightarrow>
    c_headers (fold http_callback (header_cbs hs @ [on_headers_complete]) c) =
      fold (\<lambda>(k, v). mm_insert k v) ((header_field c, header_val c) # hs) (c_headers c)"
proof (induction hs arbitrary: c)
  case (Cons h hs)
  obtain k v where h: "h = (k, v)" by (cases h)
  let ?c = "fold http_callback [on_header_field k, on_header_value v] c"
  have "last_is_val ?c" "header_field ?c = k" "header_val ?c = v"
    "c_headers ?c = mm_insert (header_field c) (header_val c) (c_headers c)"
    using Cons.prems by (simp_all add: ctx_on_header_field_def)
  with Cons.IH [of ?c] Cons.prems h show ?case by (simp add: header_cbs_def)
qed (simp add: header_cbs_def)

lemma headers_collect:
  assumes "hs \<noteq> []" and "list_all (\<lambda>h. fst h \<noteq> []) hs" and "last_is_val c" and "header_field c = []"
    and "c_headers c = []" and "header_val c = []"
  shows "c_headers (fold http_callback (header_cbs hs @ [on_headers_complete]) c) = sort_key fst hs"
proof -
  obtain k v hs' where hs: "hs = (k, v) # hs'" using assms(1) by (cases hs) auto
  let ?c = "fold http_callback [on_header_field k, on_header_value v] c"
  have c: "last_is_val ?c" "header_field ?c = k" "header_val ?c = v" "c_headers ?c = []"
    using assms(3-6) by (simp_all add: ctx_on_header_field_def)
  with header_cbs_fold [of hs' ?c] assms(2) hs mm_fold_sort [of hs] show ?thesis
    by (simp add: header_cbs_def)
qed

text \<open>
  C34: The headers of a message, delivered one after the other, end up in the context's multimap in the
  order of their names, and those of the same name in the order of their arrival.
\<close>

theorem headers_collected:
  assumes "hs \<noteq> []" and "list_all (\<lambda>h. fst h \<noteq> []) hs"
  shows "c_headers (fold http_callback (header_cbs hs @ [on_headers_complete]) (new_ctx t)) = sort_key fst hs"
  by (rule headers_collect [OF assms]) (simp_all add: new_ctx_def ctx_init_def ctx_clear_def)

theorem headers_collected_witness:
  "c_headers (fold http_callback (header_cbs [(''b'', ''1''), (''a'', ''2''), (''b'', ''3'')] @
     [on_headers_complete]) (new_ctx HTTP_REQUEST)) =
    sort_key fst [(''b'', ''1''), (''a'', ''2''), (''b'', ''3'')]"
  by (rule headers_collected) simp_all

text \<open>A message without headers gets one with an empty name, and a trailer repeats the last header.\<close>

lemma no_headers_adds_empty:
  "c_headers (fold http_callback [on_headers_complete] (new_ctx t)) = [([], [])]"
  by (simp add: new_ctx_def ctx_init_def ctx_clear_def)

lemma trailer_repeats_header:
  assumes "k \<noteq> []"
  shows "c_headers (fold http_callback
      [on_header_field k, on_header_value v, on_headers_complete, on_header_field k', on_header_value v',
       on_message_complete] (new_ctx t)) = [(k, v), (k, v)]"
  using assms by (simp add: new_ctx_def ctx_init_def ctx_clear_def ctx_on_header_field_def)

section \<open>Messages that arrive in pieces\<close>

lemma callback_frame:
  "http_callback e (c\<lparr>c_parser := p, c_pos := n\<rparr>) = (http_callback e c)\<lparr>c_parser := p, c_pos := n\<rparr>"
  by (cases e) (simp_all add: ctx_on_header_field_def Let_def)

lemma callbacks_frame:
  "fold http_callback es (c\<lparr>c_parser := p, c_pos := n\<rparr>) =
    (fold http_callback es c)\<lparr>c_parser := p, c_pos := n\<rparr>"
  by (induction es arbitrary: c) (simp_all add: callback_frame)

lemma callbacks_parser [simp]:
  "c_parser (fold http_callback es c) = c_parser c" "c_pos (fold http_callback es c) = c_pos c"
proof -
  have "fold http_callback es (c\<lparr>c_parser := c_parser c, c_pos := c_pos c\<rparr>) =
      (fold http_callback es c)\<lparr>c_parser := c_parser c, c_pos := c_pos c\<rparr>"
    by (rule callbacks_frame)
  then have eq: "fold http_callback es c = (fold http_callback es c)\<lparr>c_parser := c_parser c, c_pos := c_pos c\<rparr>"
    by simp
  from arg_cong [OF eq, of c_parser] arg_cong [OF eq, of c_pos]
  show "c_parser (fold http_callback es c) = c_parser c" "c_pos (fold http_callback es c) = c_pos c" by simp_all
qed

text \<open>Two calls of the parser on the pieces of a text have the effect of one on the whole.\<close>

lemma ctx_execute_cut:
  assumes wf: "parser_wf 0 (c_parser c)" and ab: "a \<noteq> []" "b \<noteq> []" "length (a @ b) \<le> max_header_size"
    and whole: "ctx_execute (a @ b) c = Some (length (a @ b), c2)" "p_errno (c_parser c2) = HPE_OK"
  shows "\<exists>c1. ctx_execute a c = Some (length a, c1) \<and> c_pos c1 = c_pos c \<and> parser_wf 0 (c_parser c1) \<and>
    ctx_execute b (c1\<lparr>c_pos := n\<rparr>) = Some (length b, c2\<lparr>c_pos := n\<rparr>)"
proof -
  from whole(1) obtain p2 cbs where ex: "http_parser_execute (c_parser c) (a @ b) = Some (p2, cbs, length (a @ b))"
    and c2: "c2 = (fold http_callback cbs c)\<lparr>c_parser := p2\<rparr>"
    by (auto simp: ctx_execute_def)
  have "p_errno p2 = HPE_OK" using whole(2) c2 by simp
  from ctx.execute_cut [OF wf ab ex this, of c] obtain p1 cbs1 cbs2 where
    a: "http_parser_execute (c_parser c) a = Some (p1, cbs1, length a)" and
    b: "http_parser_execute p1 b = Some (p2, cbs2, length b)" and
    f: "fold http_callback (cbs1 @ cbs2) c = fold http_callback cbs c" by blast
  let ?c1 = "(fold http_callback cbs1 c)\<lparr>c_parser := p1\<rparr>"
  have "p_errno p1 = HPE_OK"
  proof (rule ccontr)
    assume "p_errno p1 \<noteq> HPE_OK"
    with b ab(2) show False by (simp add: http_parser_execute_def)
  qed
  with execute_wf [of "c_parser c" a] a wf have "parser_wf 0 p1" by (auto simp: parser_wf_def)
  moreover have "fold http_callback cbs2 (?c1\<lparr>c_pos := n\<rparr>) = (fold http_callback cbs c)\<lparr>c_parser := p1, c_pos := n\<rparr>"
    using callbacks_frame [where es = cbs2 and c = "fold http_callback cbs1 c" and p = p1 and n = n] f by simp
  ultimately show ?thesis using a b c2 by (auto simp: ctx_execute_def intro!: exI [of _ ?c1])
qed

fun append_all :: "string list \<Rightarrow> http_ctx \<Rightarrow> (32 word \<times> http_ctx) option" where
  "append_all [] c = Some (0, c)"
| "append_all (d # ds) c =
     (case parserAppend d c of
        None \<Rightarrow> None
      | Some (r, c1) \<Rightarrow> if ds = [] \<or> r = - 1 then Some (r, c1) else append_all ds c1)"

lemma parserAppend_cut:
  assumes wf: "parser_wf 0 (c_parser c)" and ab: "a \<noteq> []" "b \<noteq> []" "length (a @ b) \<le> max_header_size"
    and whole: "parserAppend (a @ b) c = Some (r, c2)" "r \<noteq> - 1" "p_errno (c_parser c2) = HPE_OK"
  shows "\<exists>r1 c1. parserAppend a c = Some (r1, c1) \<and> r1 \<noteq> - 1 \<and> parser_wf 0 (c_parser c1) \<and>
    parserAppend b c1 = Some (r, c2)"
proof -
  from whole(1,2) obtain c3 where ex: "ctx_execute (a @ b) c = Some (length (a @ b), c3)"
    and c2: "c2 = c3\<lparr>c_pos := c_pos c3 + of_nat (length (a @ b))\<rparr>"
    "r = (if fRecv c3 then 8192 else 0)"
    by (auto simp: parserAppend_def Let_def split: if_splits)
  have ok: "p_errno (c_parser c3) = HPE_OK" using whole(3) c2 by simp
  let ?n = "c_pos c + of_nat (length a)"
  from ctx_execute_cut [OF wf ab ex ok, of ?n] obtain c1 where
    a: "ctx_execute a c = Some (length a, c1)" "c_pos c1 = c_pos c" "parser_wf 0 (c_parser c1)" and
    b: "ctx_execute b (c1\<lparr>c_pos := ?n\<rparr>) = Some (length b, c3\<lparr>c_pos := ?n\<rparr>)" by blast
  have "c_pos c3 = c_pos c" using ex by (auto simp: ctx_execute_def)
  with c2 b have "parserAppend b (c1\<lparr>c_pos := ?n\<rparr>) = Some (r, c2)"
    by (simp add: parserAppend_def Let_def ac_simps)
  moreover have "parserAppend a c = Some (if fRecv c1 then 8192 else 0, c1\<lparr>c_pos := ?n\<rparr>)"
    using a by (simp add: parserAppend_def Let_def)
  ultimately show ?thesis using a(3) by auto
qed

lemma parserAppend_chunks:
  "parser_wf 0 (c_parser c) \<Longrightarrow> ds \<noteq> [] \<Longrightarrow> list_all (\<lambda>d. d \<noteq> []) ds \<Longrightarrow>
    length (concat ds) \<le> max_header_size \<Longrightarrow> parserAppend (concat ds) c = Some (r, c2) \<Longrightarrow> r \<noteq> - 1 \<Longrightarrow>
    p_errno (c_parser c2) = HPE_OK \<Longrightarrow> append_all ds c = Some (r, c2)"
proof (induction ds c rule: append_all.induct)
  case (2 d ds c)
  show ?case
  proof (cases "ds = []")
    case True
    with 2(6) show ?thesis by simp
  next
    case False
    have ne: "d \<noteq> []" "concat ds \<noteq> []" using 2(4) False by (cases ds; auto)+
    with parserAppend_cut [OF 2(2) ne, of r c2] 2(5-8) obtain r1 c1 where
      c1: "parserAppend d c = Some (r1, c1)" "r1 \<noteq> - 1" "parser_wf 0 (c_parser c1)"
      "parserAppend (concat ds) c1 = Some (r, c2)" by auto
    with 2(1) [OF c1(1) refl] 2(4-8) False show ?thesis by simp
  qed
qed simp

text \<open>
  C9: Feeding a message to \<open>parserAppend\<close> in pieces, however it is cut, gives the result and the context
  of feeding it as a whole: url, status, headers, body and the state of the parser.
\<close>

theorem append_in_pieces:
  assumes "parser_reach (c_parser c)" and "p_errno (c_parser c) = HPE_OK"
    and "ds \<noteq> []" and "list_all (\<lambda>d. d \<noteq> []) ds" and "length (concat ds) \<le> max_header_size"
    and "parserAppend (concat ds) c = Some (r, c2)" and "r \<noteq> - 1" and "p_errno (c_parser c2) = HPE_OK"
  shows "append_all ds c = Some (r, c2)"
  using parserAppend_chunks [OF _ assms(3-8)] reach_wf [OF assms(1)] assms(2) by blast


text \<open>What evaluates the parser on a concrete text.\<close>

lemmas http_eval = parserAppend_def ctx_execute_def http_parser_execute_def exec_loop.simps turn_def
  run_char.simps step_def step_defs ctl_defs exec_start_def exec_end_def http_parser.defs new_ctx_def
  ctx_init_def ctx_clear_def http_parser_init_def PARSING_HEADER_def url_states_def marks_def
  first_method_def IS_ALPHA_def LOWER_def chcode_def max_header_size_def slice_def mark_at_def lit_at_def
  parse_url_char_def IS_URL_CHAR_def normal_url_char_def is_digit_def STRICT_TOKEN_def tokens_def
  step_header_field_def field_loop.simps field_char_def digit_of_def step_header_value_def
  value_loop.simps value_turn_def value_char_def value_scan.simps skip_tokens.simps match_name_def
  IS_HEADER_CHAR_def step_headers_done_def should_keep_alive_def NEW_MESSAGE_def needs_eof_def
  header_flag_def ctx_on_header_field_def

lemma sample_request:
  "\<exists>c2. parserAppend (concat [''GE'', ''T / HTTP/1.1'' @ [CR], [LF] @ ''A: b'' @ [CR, LF, CR], [LF]])
     (new_ctx HTTP_REQUEST) = Some (0, c2) \<and> p_errno (c_parser c2) = HPE_OK \<and> c_headers c2 = [(''A'', ''b'')]"
  by (simp add: http_eval)

theorem append_in_pieces_witness:
  "\<exists>c2. append_all [''GE'', ''T / HTTP/1.1'' @ [CR], [LF] @ ''A: b'' @ [CR, LF, CR], [LF]]
     (new_ctx HTTP_REQUEST) = Some (0, c2) \<and> c_headers c2 = [(''A'', ''b'')]"
proof -
  from sample_request obtain c2 where
    whole: "parserAppend (concat [''GE'', ''T / HTTP/1.1'' @ [CR], [LF] @ ''A: b'' @ [CR, LF, CR], [LF]])
      (new_ctx HTTP_REQUEST) = Some (0, c2)" and c2: "p_errno (c_parser c2) = HPE_OK" "c_headers c2 = [(''A'', ''b'')]"
    by blast
  have reach: "parser_reach (c_parser (new_ctx HTTP_REQUEST))"
    using parser_reach.fresh [of HTTP_REQUEST] by (simp add: new_ctx_def ctx_init_def ctx_clear_def)
  have ok: "p_errno (c_parser (new_ctx HTTP_REQUEST)) = HPE_OK"
    by (simp add: new_ctx_def ctx_init_def ctx_clear_def http_parser_init_def)
  from append_in_pieces [OF reach ok _ _ _ whole _ c2(1)] c2(2) show ?thesis
    by (simp add: max_header_size_def)
qed

section \<open>A growing buffer\<close>

lemma chars_of_append [simp]: "chars_of (a @ b) = chars_of a @ chars_of b"
  by (simp add: chars_of_def)

lemma chars_of_length [simp]: "length (chars_of a) = length a"
  by (simp add: chars_of_def)

lemma contents_length: "buf_wf b \<Longrightarrow> length (contents b) = unat (blen b)"
  by (auto simp: buf_wf_def contents_def word_le_nat_alt split: option.splits)

lemma unat_pos: "unat (ucast (n :: u32) :: u64) = unat n"
proof -
  have "unat n < 2 ^ LENGTH(32)" by (rule unsigned_less)
  then show ?thesis by (simp add: unsigned_ucast_eq take_bit_nat_eq_self)
qed

text \<open>
  C12: The receive loop appends to the buffer and calls \<open>httpParse\<close> again, which goes on where it stopped:
  where the message in the longer buffer parses, a call on the shorter one in between changes nothing
  in the result or the context.
\<close>

theorem parse_growing_buffer:
  assumes "buf_wf b1" and "buf_wf b2" and "contents b2 = contents b1 @ new" and "new \<noteq> []"
    and "unat (c_pos c) < length (contents b1)" and "length (contents b2) \<le> max_header_size"
    and "parser_reach (c_parser c)" and "p_errno (c_parser c) = HPE_OK"
    and "httpParse t b2 (Some c) = Ok (r, c2)" and "r \<noteq> - 1" and "p_errno (c_parser c2) = HPE_OK"
  shows "\<exists>r1 c1. httpParse t b1 (Some c) = Ok (r1, c1) \<and> httpParse t b2 (Some c1) = Ok (r, c2)"
proof -
  let ?p = "unat (c_pos c)" and ?a = "chars_of (drop (unat (c_pos c)) (contents b1))" and ?b = "chars_of new"
  have len: "length (contents b1) = unat (blen b1)" "length (contents b2) = unat (blen b2)"
    using assms(1,2) by (simp_all add: contents_length)
  have nz: "\<not> bempty b1" "\<not> bempty b2"
    using len assms(3-5) by (auto simp: bempty_def)
  have le: "\<not> blen b1 < ucast (c_pos c)" "\<not> blen b2 < ucast (c_pos c)"
    using len assms(3,5) by (simp_all add: word_less_nat_alt unat_pos)
  have d: "chars_of (drop ?p (contents b2)) = ?a @ ?b" using assms(3,5) by simp
  have ab: "?a \<noteq> []" "?b \<noteq> []" "length (?a @ ?b) \<le> max_header_size"
    using assms(3-6) by (auto simp: chars_of_def)
  have wf: "parser_wf 0 (c_parser c)" using reach_wf [OF assms(7)] assms(8) by simp
  from assms(9,10) nz le d obtain c3 where ex: "ctx_execute (?a @ ?b) c = Some (length (?a @ ?b), c3)"
    and c2: "c2 = c3\<lparr>c_pos := c_pos c3 + of_nat (length (?a @ ?b))\<rparr>"
    "r = (if fRecv c3 then ucast (leftSize b2) else 0)"
    by (auto simp: httpParse_def Let_def split: option.splits if_splits)
  let ?n = "c_pos c + of_nat (length ?a)"
  have "p_errno (c_parser c3) = HPE_OK" using assms(11) c2 by simp
  from ctx_execute_cut [OF wf ab ex this, of ?n] obtain c1 where
    a: "ctx_execute ?a c = Some (length ?a, c1)" "c_pos c1 = c_pos c" and
    b: "ctx_execute ?b (c1\<lparr>c_pos := ?n\<rparr>) = Some (length ?b, c3\<lparr>c_pos := ?n\<rparr>)" by blast
  let ?c1 = "c1\<lparr>c_pos := ?n\<rparr>"
  have one: "httpParse t b1 (Some c) = Ok (if fRecv c1 then ucast (leftSize b1) else 0, ?c1)"
    using nz le a by (simp add: httpParse_def Let_def)
  have "unat ?n = length (contents b1)"
  proof -
    have "?p + length ?a = length (contents b1)" using assms(5) by simp
    moreover have "length (contents b1) \<le> 81920" using assms(3,6) by (simp add: max_header_size_def)
    ultimately show ?thesis by (simp add: unat_word_ariths unat_of_nat)
  qed
  then have rest: "chars_of (drop (unat ?n) (contents b2)) = ?b" "\<not> blen b2 < ucast ?n"
    using assms(3) len by (simp_all add: word_less_nat_alt unat_pos)
  have "c_pos c3 = c_pos c" using ex by (auto simp: ctx_execute_def)
  with b rest nz(2) c2 have "httpParse t b2 (Some ?c1) = Ok (r, c2)"
    by (simp add: httpParse_def Let_def ac_simps)
  with one show ?thesis by blast
qed


definition get_buf :: "u64 \<Rightarrow> ys_buf" where
  "get_buf n = \<lparr>bmem = Some [71, 69, 84, 32, 47, 0, 0, 0], blen = n, bcap = 8\<rparr>"

lemma sample_parse:
  "\<exists>c2. httpParse HTTP_REQUEST (get_buf 5) (Some (new_ctx HTTP_REQUEST)) = Ok (3, c2) \<and>
    p_errno (c_parser c2) = HPE_OK \<and> c_url c2 = ''/''"
proof -
  have "chars_of (drop 0 (contents (get_buf 5))) = ''GET /''"
    by (simp add: chars_of_def contents_def get_buf_def char_of_def bit_Suc_0_iff)
  then show ?thesis
    by (simp add: httpParse_def bempty_def leftSize_def get_buf_def http_eval)
qed

theorem parse_growing_buffer_witness:
  "\<exists>r1 c1 c2. httpParse HTTP_REQUEST (get_buf 2) (Some (new_ctx HTTP_REQUEST)) = Ok (r1, c1) \<and>
    httpParse HTTP_REQUEST (get_buf 5) (Some c1) = Ok (3, c2) \<and> c_url c2 = ''/''"
proof -
  from sample_parse obtain c2 where c2: "httpParse HTTP_REQUEST (get_buf 5) (Some (new_ctx HTTP_REQUEST)) = Ok (3, c2)"
    "p_errno (c_parser c2) = HPE_OK" "c_url c2 = ''/''" by blast
  have wf: "buf_wf (get_buf 2)" "buf_wf (get_buf 5)" by (simp_all add: buf_wf_def get_buf_def)
  have cs: "contents (get_buf 5) = contents (get_buf 2) @ [84, 32, 47]"
    by (simp add: contents_def get_buf_def)
  have new: "parser_reach (c_parser (new_ctx HTTP_REQUEST))" "p_errno (c_parser (new_ctx HTTP_REQUEST)) = HPE_OK"
    "c_pos (new_ctx HTTP_REQUEST) = 0"
    using parser_reach.fresh [of HTTP_REQUEST]
    by (simp_all add: new_ctx_def ctx_init_def ctx_clear_def http_parser_init_def)
  have "length (contents (get_buf 2)) = 2" by (simp add: contents_def get_buf_def)
  with parse_growing_buffer [OF wf cs _ _ _ new(1,2) c2(1) _ c2(2)] new(3) cs
  have "\<exists>r1 c1. httpParse HTTP_REQUEST (get_buf 2) (Some (new_ctx HTTP_REQUEST)) = Ok (r1, c1) \<and>
      httpParse HTTP_REQUEST (get_buf 5) (Some c1) = Ok (3, c2)"
    by (simp add: max_header_size_def)
  with c2(3) show ?thesis by blast
qed

text \<open>A buffer that is full reports a message as complete that is not.\<close>

lemma full_buffer_is_complete:
  assumes "httpParse t b (Some c) = Ok (r, c2)" and "r \<noteq> - 1" and "bfull b" and "\<not> bempty b"
  shows "r = 0"
  using assms by (auto simp: httpParse_def Let_def leftSize_def bfull_def split: option.splits if_splits)

text \<open>A context that has outlived its buffer makes the parser read past the data.\<close>

lemma stale_context_reads_past:
  "\<not> bempty b \<Longrightarrow> blen b < ucast (c_pos c) \<Longrightarrow> httpParse t b (Some c) = Undef"
  by (simp add: httpParse_def Let_def)

section \<open>Headers of responses\<close>

text \<open>The invariant of the header operations: sorted, and no name or value with a line break.\<close>

definition headers_ok :: "http_ctx \<Rightarrow> bool" where
  "headers_ok c \<longleftrightarrow> sorted (map fst (c_headers c)) \<and>
     list_all (\<lambda>(k, v). \<not> hasCrlf k \<and> \<not> hasCrlf v) (c_headers c)"

lemma headers_ok_new: "headers_ok (new_ctx t)"
  by (simp add: headers_ok_def new_ctx_def ctx_init_def ctx_clear_def)

lemma headers_ok_set: "headers_ok c \<Longrightarrow> headers_ok (setHeader k v c)"
  by (auto simp: headers_ok_def setHeader_def mm_insert_sorted list_all_iff)

lemma headers_ok_del: "headers_ok c \<Longrightarrow> headers_ok (delHeader k c)"
  by (auto simp: headers_ok_def delHeader_def mm_erase_sorted list_all_iff mm_erase_def sorted_filter)

lemma headers_ok_body:
  "headers_ok (setResponse n b c) = headers_ok c" "headers_ok (setRequest m u b c) = headers_ok c"
  by (simp_all add: headers_ok_def setResponse_def setRequest_def)

lemma headers_ok_format:
  "headers_ok c \<Longrightarrow> headers_ok (snd (formatHeader c))"
  "headers_ok c \<Longrightarrow> headers_ok (response_headers c)"
  "headers_ok c \<Longrightarrow> headers_ok (request_headers c)"
  by (simp_all add: formatHeader_def response_headers_def request_headers_def Let_def updateHeader_def
      headers_ok_set headers_ok_del)

lemma find_set:
  "headers_ok c \<Longrightarrow> \<not> hasCrlf k \<Longrightarrow> \<not> hasCrlf v \<Longrightarrow> mm_find key (c_headers (setHeader k v c)) =
    (case mm_find key (c_headers c) of None \<Rightarrow> if key = k then Some v else None | Some w \<Rightarrow> Some w)"
  by (simp add: headers_ok_def setHeader_def mm_find_insert)

lemma find_del: "mm_find key (c_headers (delHeader k c)) = (if key = k then None else mm_find key (c_headers c))"
  by (auto simp: delHeader_def hasHeader_def mm_find_erase)

text \<open>
  \<open>updateHeader\<close> leaves one value of the name, the new one, and every other name as it was; a name
  or value with a line break is refused, and then the old value is gone as well.
\<close>

theorem update_header:
  assumes "headers_ok c"
  shows "mm_find key (c_headers (updateHeader k v c)) =
    (if key \<noteq> k then mm_find key (c_headers c)
     else if hasCrlf k \<or> hasCrlf v then None else Some v)"
  using find_set [OF headers_ok_del [OF assms], of k v key k] find_del [of key k c]
  by (auto simp: updateHeader_def setHeader_def split: option.splits)

theorem update_header_witness:
  "mm_find ''Host'' (c_headers (updateHeader ''Host'' (''x'' @ [CR]) (setHeader ''Host'' ''a'' (new_ctx HTTP_REQUEST)))) = None"
  using update_header [OF headers_ok_set [OF headers_ok_new], of "''Host''" "''Host''" "''x'' @ [CR]" "''Host''" "''a''" HTTP_REQUEST]
  by (simp add: hasCrlf_def)

end
