(* ===== verification/Ys_HttpRound.thy ===== *)
theory Ys_HttpRound
  imports Ys_Http
begin

text \<open>
  From a formatted message back to its parts: the run of the parser over the text of a request or a
  response, one character at a time.
\<close>

section \<open>One character\<close>

text \<open>
  A parser at position \<open>i\<close> of a message it has read from its start, so that as many characters have been
  counted; \<open>mid\<close> is its state inside a turn, after the count.
\<close>

definition put_at :: "http_state \<Rightarrow> nat \<Rightarrow> http_exec \<Rightarrow> http_exec" where
  "put_at st i b = b\<lparr>p_state := st, x_pos := i, p_nread := of_nat i\<rparr>"

definition mid :: "http_state \<Rightarrow> nat \<Rightarrow> http_exec \<Rightarrow> http_exec" where
  "mid st i b = b\<lparr>p_state := st, x_pos := i, p_nread := of_nat (Suc i)\<rparr>"

lemma mid_update [simp]:
  "p_state_update (\<lambda>_. t) (mid st i b) = mid t i b"
  "p_flags_update f (mid st i b) = mid st i (p_flags_update f b)"
  "p_hstate_update g (mid st i b) = mid st i (p_hstate_update g b)"
  "p_index_update h (mid st i b) = mid st i (p_index_update h b)"
  "p_te_update k (mid st i b) = mid st i (p_te_update k b)"
  "p_clen_update l (mid st i b) = mid st i (p_clen_update l b)"
  "p_major_update h (mid st i b) = mid st i (p_major_update h b)"
  "p_minor_update h (mid st i b) = mid st i (p_minor_update h b)"
  "p_status_update m (mid st i b) = mid st i (p_status_update m b)"
  "p_method_update n (mid st i b) = mid st i (p_method_update n b)"
  "p_type_update ty (mid st i b) = mid st i (p_type_update ty b)"
  "p_upgrade_update k (mid st i b) = mid st i (p_upgrade_update k b)"
  "url_mark_update q (mid st i b) = mid st i (url_mark_update q b)"
  "status_mark_update q (mid st i b) = mid st i (status_mark_update q b)"
  "header_field_mark_update q (mid st i b) = mid st i (header_field_mark_update q b)"
  "header_value_mark_update q (mid st i b) = mid st i (header_value_mark_update q b)"
  "x_cb_update r (mid st i b) = mid st i (x_cb_update r b)"
  by (cases b; simp add: mid_def)+

lemma mid_select [simp]:
  "p_state (mid st i b) = st" "x_pos (mid st i b) = i" "p_nread (mid st i b) = of_nat (Suc i)"
  "p_flags (mid st i b) = p_flags b" "p_hstate (mid st i b) = p_hstate b" "p_index (mid st i b) = p_index b"
  "p_te (mid st i b) = p_te b" "p_clen (mid st i b) = p_clen b" "p_major (mid st i b) = p_major b"
  "p_minor (mid st i b) = p_minor b" "p_status (mid st i b) = p_status b" "p_method (mid st i b) = p_method b"
  "p_type (mid st i b) = p_type b" "p_upgrade (mid st i b) = p_upgrade b" "p_lenient (mid st i b) = p_lenient b"
  "p_errno (mid st i b) = p_errno b" "url_mark (mid st i b) = url_mark b" "status_mark (mid st i b) = status_mark b"
  "header_field_mark (mid st i b) = header_field_mark b" "header_value_mark (mid st i b) = header_value_mark b"
  "body_mark (mid st i b) = body_mark b" "x_cb (mid st i b) = x_cb b"
  by (simp_all add: mid_def)

lemma mid_notify [simp]:
  "notify cb (mid st i b) = mid st i (notify cb b)"
  "data_url d p (mid st i b) = mid st i (data_url d p b)"
  "data_status d p (mid st i b) = mid st i (data_status d p b)"
  "data_header_field d p (mid st i b) = mid st i (data_header_field d p b)"
  "data_header_value d p (mid st i b) = mid st i (data_header_value d p b)"
  by (simp_all add: notify_def data_url_def data_status_def data_header_field_def data_header_value_def split: option.splits)

lemma mid_same [simp]: "(mid st i b)\<lparr>x_pos := i\<rparr> = mid st i b"
  by (cases b) (simp add: mid_def)

lemma mid_at [simp]: "(mid st i b)\<lparr>x_pos := Suc i\<rparr> = put_at st (Suc i) b"
  by (cases b) (simp add: mid_def put_at_def)

lemma mid_Suc [simp]: "(mid st i b)\<lparr>x_pos := x_pos (mid st i b) + 1\<rparr> = put_at st (Suc i) b"
  by simp

text \<open>
  The run of the parser, one character at a time, over \<open>r\<close> in the state \<open>st\<close>, behind the text \<open>pre\<close>;
  messages longer than the limit of the headers are left aside.
\<close>

definition run :: "string \<Rightarrow> string \<Rightarrow> http_state \<Rightarrow> http_exec \<Rightarrow> (http_exec \<times> nat) option" where
  "run pre r st b =
     (if length (pre @ r) \<le> max_header_size then chars_loop (pre @ r) (put_at st (length pre) b) else None)"

lemma count_fits:
  assumes "length (pre @ c # r) \<le> max_header_size"
  shows "\<not> of_nat max_header_size < (of_nat (Suc (length pre)) :: u32)"
proof -
  have "unat (of_nat (Suc (length pre)) :: u32) \<le> max_header_size"
    using assms by (simp add: unat_of_nat max_header_size_def del: of_nat_Suc)
  then show ?thesis
    by (simp add: not_less word_le_nat_alt max_header_size_def unat_of_nat del: of_nat_Suc)
qed

lemma count_mid:
  assumes "length (pre @ c # r) \<le> max_header_size"
  shows "count_header 0 (mid st (length pre) b) k = k (mid st (length pre) b)"
  using count_fits [OF assms] by (simp add: count_header_def Let_def mid_def del: of_nat_Suc)

lemma run_turn:
  assumes "length (pre @ c # r) \<le> max_header_size" and "PARSING_HEADER st" and "st \<notin> bulk_states"
  shows "cturn (pre @ c # r) (put_at st (length pre) b) = run_char (pre @ c # r) (mid st (length pre) b)"
proof -
  let ?d = "pre @ c # r" and ?i = "length pre"
  note count_fits [OF assms(1)]
  moreover have "cturn ?d (put_at st ?i b) = turn ?d (put_at st ?i b)"
    using turn_take_plain [of "put_at st ?i b" "Suc ?i" ?d] assms(3) by (simp add: cturn_def put_at_def)
  ultimately show ?thesis using assms(2) by (simp add: turn_def put_at_def mid_def count_header_def Let_def add.commute)
qed

lemma chars_loop_turn:
  "x_pos s < length d \<Longrightarrow> chars_loop d s = (case cturn d s of Next s' \<Rightarrow> chars_loop d (s'\<lparr>x_pos := x_pos s' + 1\<rparr>)
      | Return s' n \<Rightarrow> Some (s', n) | _ \<Rightarrow> None)"
  by (subst chars_loop.simps) simp

lemma put_at_pos [simp]: "x_pos (put_at st i b) = i" "p_state (put_at st i b) = st"
  by (simp_all add: put_at_def)

text \<open>A turn that goes on, and a turn whose character is looked at again.\<close>

lemma run_next:
  assumes "step (pre @ c # r) c (mid st (length pre) b) = Next (mid t (length pre) b')"
    and "PARSING_HEADER st" and "st \<notin> bulk_states"
  shows "run pre (c # r) st b = run (pre @ [c]) r t b'"
proof (cases "length (pre @ c # r) \<le> max_header_size")
  case True
  have "run_char (pre @ c # r) (mid st (length pre) b) = Next (mid t (length pre) b')"
    using assms(1) by (intro run_char_next(1)) simp
  with run_turn [OF True assms(2,3)] True show ?thesis by (simp add: run_def chars_loop_turn)
qed (simp add: run_def)

lemma run_again:
  assumes "step (pre @ c # r) c (mid st (length pre) b) = Again (mid t (length pre) b')"
    and "PARSING_HEADER st" and "st \<notin> bulk_states" and "PARSING_HEADER t"
  shows "run pre (c # r) st b = run pre (c # r) t b'"
proof (cases "length (pre @ c # r) \<le> max_header_size")
  case True
  have t: "t \<notin> bulk_states" using step_again_plain [OF assms(1)] by simp
  have "run_char (pre @ c # r) (mid st (length pre) b) = run_char (pre @ c # r) (mid t (length pre) b')"
    using assms(1) by (intro run_char_next(4)) simp
  with run_turn [OF True assms(2,3)] run_turn [OF True assms(4) t] True show ?thesis
    by (simp add: run_def chars_loop_turn)
qed (simp add: run_def)

lemma plain_states:
  "st \<in> {s_req_http_start, s_req_http_H, s_req_http_HT, s_req_http_HTT, s_req_http_HTTP, s_req_http_major,
    s_req_http_dot, s_req_http_minor, s_req_http_end, s_req_line_almost_done, s_start_req, s_req_method,
    s_req_spaces_before_url, s_res_H, s_res_HT, s_res_HTT, s_res_HTTP, s_res_http_major, s_res_http_dot, s_res_http_minor,
    s_res_http_end, s_res_first_status_code, s_res_status_code, s_res_status_start, s_res_status, s_res_line_almost_done,
    s_start_res, s_header_field_start, s_header_value_discard_ws, s_header_value_discard_ws_almost_done,
    s_header_value_discard_lws, s_header_value_start, s_header_value_lws, s_header_almost_done, s_headers_almost_done,
    s_headers_done} \<union> url_states \<Longrightarrow> PARSING_HEADER st \<and> st \<notin> bulk_states"
  by (auto simp: PARSING_HEADER_def bulk_states_def url_states_def)

lemmas run_to = run_next [OF _ plain_states [THEN conjunct1] plain_states [THEN conjunct2]]
lemmas run_back = run_again [OF _ plain_states [THEN conjunct1] plain_states [THEN conjunct2]
    plain_states [THEN conjunct1]]

section \<open>The version\<close>

lemma run_http [simp]:
  "run pre (CHR ''H'' # r) s_req_http_start b = run (pre @ ''H'') r s_req_http_H b"
  "run pre (CHR ''T'' # r) s_req_http_H b = run (pre @ ''T'') r s_req_http_HT b"
  "run pre (CHR ''T'' # r) s_req_http_HT b = run (pre @ ''T'') r s_req_http_HTT b"
  "run pre (CHR ''P'' # r) s_req_http_HTT b = run (pre @ ''P'') r s_req_http_HTTP b"
  "run pre (CHR ''/'' # r) s_req_http_HTTP b = run (pre @ ''/'') r s_req_http_major b"
  "run pre (CHR ''1'' # r) s_req_http_major b = run (pre @ ''1'') r s_req_http_dot (b\<lparr>p_major := 1\<rparr>)"
  "run pre (CHR ''.'' # r) s_req_http_dot b = run (pre @ ''.'') r s_req_http_minor b"
  "run pre (CHR ''1'' # r) s_req_http_minor b = run (pre @ ''1'') r s_req_http_end (b\<lparr>p_minor := 1\<rparr>)"
  "run pre (CR # r) s_req_http_end b = run (pre @ [CR]) r s_req_line_almost_done b"
  "run pre (LF # r) s_req_line_almost_done b = run (pre @ [LF]) r s_header_field_start b"
  by (rule run_to; simp add: step_def step_defs ctl_defs is_digit_def digit_of_def chcode_def)+

lemma run_http_line:
  "run pre (''HTTP/1.1'' @ crlf @ r) s_req_http_start b =
    run (pre @ ''HTTP/1.1'' @ crlf) r s_header_field_start (b\<lparr>p_major := 1, p_minor := 1\<rparr>)"
  by (simp add: crlf_def)

section \<open>The method\<close>

text \<open>What a character of a method that is not its last blank makes of the guess and the index.\<close>

definition method_char :: "http_method \<times> nat \<Rightarrow> char \<Rightarrow> (http_method \<times> nat) option" where
  "method_char mi ch =
     (let m = fst mi; i = snd mi; matcher = method_str m in
      if length matcher < i \<or> chcode ch = 0 \<or> lit_at matcher i = 0 then None
      else if chcode ch = lit_at matcher i then Some (m, (i + 1) mod 32)
      else if (65 \<le> chcode ch \<and> chcode ch \<le> 90) \<or> ch = CHR ''-''
        then map_option (\<lambda>m'. (m', (i + 1) mod 32)) (map_of method_switch (m, i, ch))
      else None)"

fun method_chars :: "http_method \<times> nat \<Rightarrow> string \<Rightarrow> (http_method \<times> nat) option" where
  "method_chars mi [] = Some mi"
| "method_chars mi (ch # s) = (case method_char mi ch of None \<Rightarrow> None | Some mi' \<Rightarrow> method_chars mi' s)"

definition method_run :: "string \<Rightarrow> (http_method \<times> nat) option" where
  "method_run s = (case s of [] \<Rightarrow> None | ch # cs \<Rightarrow>
     (if IS_ALPHA ch then case first_method ch of None \<Rightarrow> None | Some m \<Rightarrow> method_chars (m, 1) cs else None))"

lemma run_method_char:
  assumes "method_char (m, i) c = Some (m', i')"
  shows "run pre (c # r) s_req_method (b\<lparr>p_method := m, p_index := i\<rparr>) =
    run (pre @ [c]) r s_req_method (b\<lparr>p_method := m', p_index := i'\<rparr>)"
proof (rule run_to)
  show "step (pre @ c # r) c (mid s_req_method (length pre) (b\<lparr>p_method := m, p_index := i\<rparr>)) =
      Next (mid s_req_method (length pre) (b\<lparr>p_method := m', p_index := i'\<rparr>))"
    using assms by (auto simp: method_char_def step_def step_req_method_def Let_def idx_inc_def
        split: if_splits option.splits)
qed simp_all

lemma run_method_chars:
  "method_chars (m, i) s = Some (m', i') \<Longrightarrow>
    run pre (s @ r) s_req_method (b\<lparr>p_method := m, p_index := i\<rparr>) =
    run (pre @ s) r s_req_method (b\<lparr>p_method := m', p_index := i'\<rparr>)"
proof (induction s arbitrary: pre m i)
  case (Cons c s)
  from Cons.prems obtain m1 i1 where c: "method_char (m, i) c = Some (m1, i1)"
    and s: "method_chars (m1, i1) s = Some (m', i')" by (auto split: option.splits)
  from run_method_char [OF c] Cons.IH [OF s] show ?case by simp
qed simp

lemma run_method:
  assumes "method_run s = Some (m, i)" and "lit_at (method_str m) i = 0" and "i \<le> length (method_str m)"
  shows "run pre (s @ '' '' @ r) s_start_req b = run (pre @ s @ '' '') r s_req_spaces_before_url
    (b\<lparr>p_flags := {}, p_te := False, p_clen := - 1, x_cb := x_cb b @ [on_message_begin],
       p_method := m, p_index := (i + 1) mod 32\<rparr>)"
proof -
  from assms(1) obtain c cs m0 where s: "s = c # cs" "IS_ALPHA c" "first_method c = Some m0"
    "method_chars (m0, 1) cs = Some (m, i)" by (auto simp: method_run_def split: list.splits if_splits option.splits)
  have ne: "c \<noteq> CR" "c \<noteq> LF" using s(2) by (auto simp: IS_ALPHA_def LOWER_def chcode_def)
  let ?b = "b\<lparr>p_flags := {}, p_te := False, p_clen := - 1, x_cb := x_cb b @ [on_message_begin]\<rparr>"
  have "run pre (c # cs @ '' '' @ r) s_start_req b = run (pre @ [c]) (cs @ '' '' @ r) s_req_method
      (?b\<lparr>p_method := m0, p_index := 1\<rparr>)"
    by (rule run_to) (use s(2,3) ne in \<open>simp_all add: step_def step_start_req_def new_message_fields_def notify_def Let_def\<close>)
  also have "\<dots> = run ((pre @ [c]) @ cs) ('' '' @ r) s_req_method (?b\<lparr>p_method := m, p_index := i\<rparr>)"
    by (rule run_method_chars [OF s(4)])
  also have "\<dots> = run (((pre @ [c]) @ cs) @ '' '') r s_req_spaces_before_url (?b\<lparr>p_method := m, p_index := (i + 1) mod 32\<rparr>)"
    by (subst append_Cons, subst append_Nil, rule run_to) (use assms(2,3) in \<open>simp_all add: step_def step_req_method_def Let_def idx_inc_def chcode_def\<close>)
  finally show ?thesis using s(1) by simp
qed

text \<open>Every method but one is read from its name.\<close>

definition method_read :: "http_method \<Rightarrow> bool" where
  "method_read m \<longleftrightarrow> (case method_run (method_str m) of None \<Rightarrow> False
     | Some (m', i) \<Rightarrow> m' = m \<and> i = length (method_str m))"

lemma method_read_all: "method_read m \<longleftrightarrow> m \<noteq> HTTP_MSEARCH"
  by (cases m; simp; code_simp)

section \<open>The URL\<close>

lemma parse_url_char_states: "parse_url_char st c \<noteq> s_dead \<Longrightarrow> parse_url_char st c \<in> url_states"
  using parse_url_char_state [of st c] by simp

lemma parse_url_char_blank: "parse_url_char st c \<noteq> s_dead \<Longrightarrow> c \<noteq> CHR '' '' \<and> c \<noteq> CR \<and> c \<noteq> LF"
  by (auto simp: parse_url_char_def Let_def)

lemma url_dead [simp]: "foldl parse_url_char s_dead u = s_dead"
  by (induction u) (simp_all add: parse_url_char_def)

lemma run_url_char:
  assumes "st \<in> url_states" and "parse_url_char st c \<noteq> s_dead"
  shows "run pre (c # r) st b = run (pre @ [c]) r (parse_url_char st c) b"
proof (rule run_to)
  show "step (pre @ c # r) c (mid st (length pre) b) = Next (mid (parse_url_char st c) (length pre) b)"
    using assms parse_url_char_blank [OF assms(2)]
    by (auto simp: url_states_def step_def step_url_def step_url_start_def url_step_def goto_def)
qed (use assms(1) in simp_all)

lemma run_url_chars:
  "st \<in> url_states \<Longrightarrow> foldl parse_url_char st u \<noteq> s_dead \<Longrightarrow>
    run pre (u @ r) st b = run (pre @ u) r (foldl parse_url_char st u) b"
proof (induction u arbitrary: pre st)
  case (Cons c u)
  have nd: "parse_url_char st c \<noteq> s_dead" using Cons.prems(2) by auto
  from run_url_char [OF Cons.prems(1) nd] Cons.IH [OF parse_url_char_states [OF nd]] Cons.prems(2)
  show ?case by simp
qed simp

text \<open>A URL the parser takes: it starts in the state of the method and may be followed by a blank.\<close>

definition url_read :: "http_method \<Rightarrow> string \<Rightarrow> bool" where
  "url_read m u \<longleftrightarrow>
     foldl parse_url_char (if m = HTTP_CONNECT then s_req_server_start else s_req_spaces_before_url) u \<in>
       {s_req_server, s_req_server_with_at, s_req_path, s_req_query_string_start, s_req_query_string,
        s_req_fragment_start, s_req_fragment}"

lemma slice_tail [simp]: "slice (pre @ t @ r) (length pre) (length pre + length t) = t"
  by (simp add: slice_def)

lemma run_url:
  assumes "url_read (p_method b) u" and "url_mark b = None"
  shows "run pre (u @ '' '' @ r) s_req_spaces_before_url b =
    run (pre @ u @ '' '') r s_req_http_start (b\<lparr>x_cb := x_cb b @ [on_url u]\<rparr>)"
proof -
  let ?st = "if p_method b = HTTP_CONNECT then s_req_server_start else s_req_spaces_before_url"
  obtain t where t: "t = foldl parse_url_char ?st u" by blast
  have ends: "t \<in> {s_req_server, s_req_server_with_at, s_req_path, s_req_query_string_start, s_req_query_string,
      s_req_fragment_start, s_req_fragment}" using assms(1) by (simp add: url_read_def t)
  obtain c cs where u: "u = c # cs" using assms(1) by (cases u) (auto simp: url_read_def split: if_splits)
  obtain t1 where t1: "t1 = parse_url_char ?st c" by blast
  have fold: "foldl parse_url_char t1 cs = t" by (simp add: t t1 u)
  with ends have "foldl parse_url_char t1 cs \<noteq> s_dead" by auto
  then have nd: "t1 \<noteq> s_dead" by auto
  have first: "t1 \<in> url_states" "c \<noteq> CHR '' ''"
    using parse_url_char_states parse_url_char_blank nd unfolding t1 by blast+
  let ?b = "b\<lparr>url_mark := Some (length pre)\<rparr>"
  have "run pre (c # cs @ '' '' @ r) s_req_spaces_before_url b = run (pre @ [c]) (cs @ '' '' @ r) t1 ?b"
    by (rule run_to; cases "p_method b = HTTP_CONNECT")
      (use first nd assms(2) in \<open>simp_all add: step_def step_spaces_before_url_def url_step_def goto_def
        mark_at_def Let_def t1\<close>)
  also have "\<dots> = run ((pre @ [c]) @ cs) ('' '' @ r) t ?b"
    using run_url_chars [OF first(1), of cs] fold ends by auto
  also have "\<dots> = run (((pre @ [c]) @ cs) @ '' '') r s_req_http_start (b\<lparr>x_cb := x_cb b @ [on_url u]\<rparr>)"
  proof (subst append_Cons, subst append_Nil, rule run_to)
    have "slice (pre @ u @ CHR '' '' # r) (length pre) (length pre + length u) = u" by simp
    then have url: "data_url (((pre @ [c]) @ cs) @ CHR '' '' # r) (length ((pre @ [c]) @ cs)) ?b =
        b\<lparr>x_cb := x_cb b @ [on_url u]\<rparr>"
      using assms(2) by (cases b) (simp add: data_url_def notify_def u)
    show "step (((pre @ [c]) @ cs) @ CHR '' '' # r) (CHR '' '') (mid t (length ((pre @ [c]) @ cs)) ?b) =
        Next (mid s_req_http_start (length ((pre @ [c]) @ cs)) (b\<lparr>x_cb := x_cb b @ [on_url u]\<rparr>))"
      using ends url by (auto simp: step_def step_url_def)
  qed (use ends in \<open>auto simp: url_states_def\<close>)
  finally show ?thesis by (simp add: u)
qed

section \<open>Names of headers\<close>

lemma run_cturn:
  assumes "length (pre @ c # r) \<le> max_header_size \<Longrightarrow>
    cturn (pre @ c # r) (put_at st (length pre) b) = Next (mid t (length pre) b')"
  shows "run pre (c # r) st b = run (pre @ [c]) r t b'"
  using assms by (simp add: run_def chars_loop_turn)

text \<open>The state of the comparison with the names the parser knows, and its index.\<close>

definition name_match :: "string \<Rightarrow> header_state \<Rightarrow> header_state \<Rightarrow> nat \<Rightarrow> nat \<Rightarrow> header_state" where
  "name_match name found h c i =
     (if length name < i \<or> c \<noteq> lit_at name i then h_general else if i = length name - 1 then found else h)"

definition name_step :: "nat \<Rightarrow> header_state \<Rightarrow> nat \<Rightarrow> header_state" where
  "name_step c h i =
     (case h of
        h_C \<Rightarrow> (if c = chcode (CHR ''o'') then h_CO else h_general)
      | h_CO \<Rightarrow> (if c = chcode (CHR ''n'') then h_CON else h_general)
      | h_CON \<Rightarrow> (if c = chcode (CHR ''n'') then h_matching_connection
          else if c = chcode (CHR ''t'') then h_matching_content_length else h_general)
      | h_matching_connection \<Rightarrow> name_match ''connection'' h_connection h c i
      | h_matching_proxy_connection \<Rightarrow> name_match ''proxy-connection'' h_connection h c i
      | h_matching_content_length \<Rightarrow> name_match ''content-length'' h_content_length h c i
      | h_matching_transfer_encoding \<Rightarrow> name_match ''transfer-encoding'' h_transfer_encoding h c i
      | h_matching_upgrade \<Rightarrow> name_match ''upgrade'' h_upgrade h c i
      | _ \<Rightarrow> h_general)"

definition name_hs :: "header_state set" where
  "name_hs = {h_general, h_C, h_CO, h_CON, h_matching_connection, h_matching_proxy_connection,
     h_matching_content_length, h_matching_transfer_encoding, h_matching_upgrade, h_connection, h_content_length,
     h_upgrade}"

text \<open>The states in which the index counts.\<close>

definition name_counts :: "header_state \<Rightarrow> bool" where
  "name_counts h \<longleftrightarrow> h \<notin> {h_general, h_connection, h_content_length, h_upgrade}"

definition name_index :: "header_state \<Rightarrow> nat \<Rightarrow> nat" where
  "name_index h i = (if name_counts h then (i + 1) mod 32 else i)"

lemma name_step_hs: "h \<in> name_hs \<Longrightarrow> name_step c h i \<in> insert h_transfer_encoding name_hs"
  by (cases h) (simp_all add: name_hs_def name_step_def name_match_def)

lemma field_char_one:
  assumes "length d = Suc (x_pos s)" and "p_hstate s \<in> name_hs" and "STRICT_TOKEN (d ! x_pos s) = c" and "c \<noteq> 0"
    and "name_step c (p_hstate s) (name_index (p_hstate s) (p_index s)) \<noteq> h_transfer_encoding"
  shows "field_char d s = Some (s\<lparr>p_hstate := name_step c (p_hstate s) (name_index (p_hstate s) (p_index s)),
    p_index := name_index (p_hstate s) (p_index s)\<rparr>)"
proof -
  have sp: "d ! x_pos s \<noteq> CHR '' ''" using assms(3,4) by (auto simp: STRICT_TOKEN_def)
  obtain h where h: "p_hstate s = h" by blast
  have sk: "skip_tokens d (x_pos s) (Suc (x_pos s)) = x_pos s" by (subst skip_tokens.simps) simp
  have hs: "h \<in> name_hs" using assms(2) h by simp
  have nt: "name_step c h (name_index h (p_index s)) \<noteq> h_transfer_encoding" using assms(5) h by simp
  have mn: "match_name n f c s = s\<lparr>p_hstate := name_match n f h c ((p_index s + 1) mod 32),
      p_index := (p_index s + 1) mod 32\<rparr>" for n f
    using h by (cases s) (simp add: match_name_def name_match_def idx_inc_def Let_def)
  show ?thesis
    unfolding field_char_def Let_def assms(3) h mn using hs nt
    by (cases h; simp add: name_hs_def; (fail | simp add: sk sp assms(1,4) max_header_size_def name_step_def name_index_def
        name_counts_def idx_inc_def h; fail)?)
qed

lemma field_put:
  assumes "length (pre @ c # r) \<le> max_header_size"
  shows "cturn (pre @ c # r) (put_at s_header_field (length pre) b) =
    field_done (pre @ [c]) (length pre) (field_loop (pre @ [c]) (mid s_header_field (length pre) b))"
proof -
  let ?i = "length pre"
  have nr: "p_nread (put_at s_header_field ?i b) + 1 = of_nat (Suc ?i)" by (simp add: put_at_def add.commute)
  note count_fits [OF assms]
  moreover have "take (Suc ?i) (pre @ c # r) = pre @ [c]" by simp
  moreover have "(put_at s_header_field ?i b)\<lparr>p_nread := of_nat (Suc ?i)\<rparr> = mid s_header_field ?i b"
    by (simp add: put_at_def mid_def)
  ultimately show ?thesis
    using field_turn [of "put_at s_header_field ?i b" "pre @ [c]"] nr by (simp add: cturn_def del: of_nat_Suc)
qed

lemma run_field_char:
  assumes "p_hstate b \<in> name_hs" and "STRICT_TOKEN c \<noteq> 0"
    and "name_step (STRICT_TOKEN c) (p_hstate b) (name_index (p_hstate b) (p_index b)) \<noteq> h_transfer_encoding"
  shows "run pre (c # r) s_header_field b = run (pre @ [c]) r s_header_field
    (b\<lparr>p_hstate := name_step (STRICT_TOKEN c) (p_hstate b) (name_index (p_hstate b) (p_index b)),
       p_index := name_index (p_hstate b) (p_index b)\<rparr>)" (is "_ = run _ _ _ ?b")
proof (rule run_cturn)
  assume len: "length (pre @ c # r) \<le> max_header_size"
  have "field_char (pre @ [c]) (mid s_header_field (length pre) b) = Some (mid s_header_field (length pre) ?b)"
    using field_char_one [of "pre @ [c]" "mid s_header_field (length pre) b" "STRICT_TOKEN c"] assms by simp
  then have "field_loop (pre @ [c]) (mid s_header_field (length pre) b) =
      Some ((mid s_header_field (length pre) ?b)\<lparr>x_pos := Suc (length pre)\<rparr>)"
    using assms(2) by (simp add: field_loop.simps [where s = "mid s_header_field (length pre) b"] field_loop.simps del: mid_at)
  moreover have "(mid s_header_field (length pre) ?b)\<lparr>x_pos := Suc (length pre), x_pos := length pre\<rparr> =
      mid s_header_field (length pre) ?b" by (simp add: mid_def del: mid_update)
  moreover obtain t where t: "t = (mid s_header_field (length pre) ?b)\<lparr>x_pos := Suc (length pre)\<rparr>" by blast
  moreover have "p_nread t = of_nat (Suc (length pre))" "x_pos t = Suc (length pre)" by (simp_all add: t del: mid_at)
  ultimately show "cturn (pre @ c # r) (put_at s_header_field (length pre) b) = Next (mid s_header_field (length pre) ?b)"
    using field_put [OF len, of b] count_mid [OF len] by (simp add: field_done_def del: mid_at of_nat_Suc)
qed

lemma run_field_colon:
  assumes "header_field_mark b = Some (length pre')" and "pre = pre' @ k"
  shows "run pre (CHR '':'' # r) s_header_field b = run (pre @ '':'') r s_header_value_discard_ws
    (b\<lparr>header_field_mark := None, x_cb := x_cb b @ [on_header_field k]\<rparr>)" (is "_ = run _ _ _ ?b")
proof (rule run_cturn)
  assume len: "length (pre @ CHR '':'' # r) \<le> max_header_size"
  have "slice (pre' @ k @ '':'') (length pre') (length pre' + length k) = k" by simp
  then have "data_header_field (pre @ '':'') (length pre) b = ?b"
    using assms by (simp add: data_header_field_def notify_def)
  moreover have "STRICT_TOKEN (CHR '':'') = 0" by (simp add: STRICT_TOKEN_def tokens_def chcode_def)
  then have "field_loop (pre @ '':'') (mid s_header_field (length pre) b) = Some (mid s_header_field (length pre) b)"
    by (simp add: field_loop.simps)
  ultimately show "cturn (pre @ CHR '':'' # r) (put_at s_header_field (length pre) b) =
      Next (mid s_header_value_discard_ws (length pre) ?b)"
    using field_put [OF len, of b] count_mid [OF len] by (simp add: field_done_def del: of_nat_Suc)
qed

text \<open>What a name leaves of the state of the comparison.\<close>

fun name_chars :: "string \<Rightarrow> header_state \<times> nat \<Rightarrow> header_state \<times> nat" where
  "name_chars [] hi = hi"
| "name_chars (c # s) (h, i) = name_chars s (name_step (STRICT_TOKEN c) h (name_index h i), name_index h i)"

definition name_first :: "nat \<Rightarrow> header_state" where
  "name_first c =
     (if c = chcode (CHR ''c'') then h_C
      else if c = chcode (CHR ''p'') then h_matching_proxy_connection
      else if c = chcode (CHR ''t'') then h_matching_transfer_encoding
      else if c = chcode (CHR ''u'') then h_matching_upgrade
      else h_general)"

definition name_end :: "string \<Rightarrow> header_state \<times> nat" where
  "name_end k = name_chars (tl k) (name_first (STRICT_TOKEN (hd k)), 0)"

definition lower_codes :: "string \<Rightarrow> nat list" where "lower_codes = map STRICT_TOKEN"

text \<open>What has been read when the comparison is in a state.\<close>

definition reading :: "string \<Rightarrow> nat list \<Rightarrow> nat \<Rightarrow> bool" where
  "reading name w i \<longleftrightarrow> Suc i < length name \<and> w = take (Suc i) (map chcode name)"

definition name_inv :: "nat list \<Rightarrow> header_state \<Rightarrow> nat \<Rightarrow> bool" where
  "name_inv w h i \<longleftrightarrow>
     (case h of
        h_C \<Rightarrow> i = 0 \<and> w = map chcode ''c''
      | h_CO \<Rightarrow> i = 1 \<and> w = map chcode ''co''
      | h_CON \<Rightarrow> i = 2 \<and> w = map chcode ''con''
      | h_matching_content_length \<Rightarrow> reading ''content-length'' w i
      | h_matching_transfer_encoding \<Rightarrow> reading ''transfer-encoding'' w i
      | h_matching_upgrade \<Rightarrow> reading ''upgrade'' w i
      | h_content_length \<Rightarrow> w = map chcode ''content-length''
      | h_transfer_encoding \<Rightarrow> w = map chcode ''transfer-encoding''
      | h_upgrade \<Rightarrow> w = map chcode ''upgrade''
      | _ \<Rightarrow> True)"

lemma reading_step:
  assumes "reading name w i" and "length name < 32" and "name_match name found h c ((i + 1) mod 32) = t"
    and "h \<noteq> h_general" and "found \<noteq> h_general" and "t \<noteq> h_general"
  shows "t = h \<and> reading name (w @ [c]) (Suc i) \<or> t = found \<and> w @ [c] = map chcode name"
proof -
  have i: "Suc i < length name" "w = take (Suc i) (map chcode name)" "(i + 1) mod 32 = Suc i"
    using assms(1,2) by (auto simp: reading_def)
  with assms(3,6) have c: "c = map chcode name ! Suc i"
    by (auto simp: name_match_def lit_at_def split: if_splits)
  have w: "w @ [c] = take (Suc (Suc i)) (map chcode name)"
    using i c take_Suc_conv_app_nth [of "Suc i" "map chcode name"] by simp
  show ?thesis
    using assms(3,6) i w by (auto simp: name_match_def reading_def split: if_splits)
qed

lemma name_inv_step:
  assumes "name_inv w h i" and "h \<in> name_hs"
  shows "name_inv (w @ [c]) (name_step c h (name_index h i)) (name_index h i)"
proof -
  consider "h = h_matching_content_length" | "h = h_matching_transfer_encoding" | "h = h_matching_upgrade"
    | "h \<in> {h_general, h_C, h_CO, h_CON, h_matching_connection, h_matching_proxy_connection, h_connection,
        h_content_length, h_upgrade}"
    using assms(2) unfolding name_hs_def by blast
  then show ?thesis
  proof cases
    case 1
    with assms(1) have r: "reading ''content-length'' w i" by (simp add: name_inv_def)
    obtain t where t: "name_match ''content-length'' h_content_length h c ((i + 1) mod 32) = t" by blast
    from reading_step [OF r _ t] r 1 t show ?thesis
      by (cases "t = h_general") (auto simp: name_inv_def name_step_def name_index_def name_counts_def reading_def)
  next
    case 2
    with assms(1) have r: "reading ''transfer-encoding'' w i" by (simp add: name_inv_def)
    obtain t where t: "name_match ''transfer-encoding'' h_transfer_encoding h c ((i + 1) mod 32) = t" by blast
    from reading_step [OF r _ t] r 2 t show ?thesis
      by (cases "t = h_general") (auto simp: name_inv_def name_step_def name_index_def name_counts_def reading_def)
  next
    case 3
    with assms(1) have r: "reading ''upgrade'' w i" by (simp add: name_inv_def)
    obtain t where t: "name_match ''upgrade'' h_upgrade h c ((i + 1) mod 32) = t" by blast
    from reading_step [OF r _ t] r 3 t show ?thesis
      by (cases "t = h_general") (auto simp: name_inv_def name_step_def name_index_def name_counts_def reading_def)
  next
    case 4
    with assms(1) show ?thesis
      by (elim insertE emptyE) (simp_all add: name_inv_def name_step_def name_index_def name_counts_def name_match_def
          reading_def)
  qed
qed

definition token_chars :: "string \<Rightarrow> bool" where
  "token_chars k \<longleftrightarrow> list_all (\<lambda>c. STRICT_TOKEN c \<noteq> 0) k"

lemma run_name_chars:
  "name_inv w (p_hstate b) (p_index b) \<Longrightarrow> p_hstate b \<in> name_hs \<Longrightarrow> token_chars s \<Longrightarrow>
    \<not> prefix (map chcode ''transfer-encoding'') (w @ lower_codes s) \<Longrightarrow>
    name_chars s (p_hstate b, p_index b) = (h, i) \<Longrightarrow>
    run pre (s @ r) s_header_field b = run (pre @ s) r s_header_field (b\<lparr>p_hstate := h, p_index := i\<rparr>) \<and>
    h \<in> name_hs \<and> name_inv (w @ lower_codes s) h i"
proof (induction s arbitrary: w b pre)
  case Nil
  then have "h = p_hstate b" "i = p_index b" by simp_all
  with Nil show ?case by (simp add: lower_codes_def)
next
  case (Cons c s)
  let ?c = "STRICT_TOKEN c"
  let ?i = "name_index (p_hstate b) (p_index b)"
  let ?h = "name_step ?c (p_hstate b) ?i"
  let ?b = "b\<lparr>p_hstate := ?h, p_index := ?i\<rparr>"
  have inv: "name_inv (w @ [?c]) ?h ?i" by (rule name_inv_step [OF Cons.prems(1,2)])
  have w: "w @ lower_codes (c # s) = (w @ [?c]) @ lower_codes s" by (simp add: lower_codes_def)
  have nt: "?h \<noteq> h_transfer_encoding"
  proof
    assume "?h = h_transfer_encoding"
    with inv have "w @ [?c] = map chcode ''transfer-encoding''" by (simp add: name_inv_def)
    with Cons.prems(4) show False unfolding w by (metis prefixI)
  qed
  have hs: "?h \<in> name_hs" using name_step_hs [OF Cons.prems(2), of ?c ?i] nt by simp
  have tok: "?c \<noteq> 0" "token_chars s" using Cons.prems(3) by (simp_all add: token_chars_def)
  have "run ((pre @ [c])) (s @ r) s_header_field ?b = run ((pre @ [c]) @ s) r s_header_field (?b\<lparr>p_hstate := h, p_index := i\<rparr>) \<and>
      h \<in> name_hs \<and> name_inv ((w @ [?c]) @ lower_codes s) h i"
    using Cons.IH [of "w @ [?c]" ?b "pre @ [c]"] inv hs tok(2) Cons.prems(4,5) by (simp add: lower_codes_def)
  with run_field_char [OF Cons.prems(2) tok(1) nt, of pre "s @ r"] w show ?case by simp
qed

lemma token_ne: "STRICT_TOKEN c \<noteq> 0 \<Longrightarrow> c \<noteq> CR \<and> c \<noteq> LF \<and> c \<noteq> CHR '' '' \<and> c \<noteq> HTAB"
  by (auto simp: STRICT_TOKEN_def tokens_def chcode_def)

lemma name_first_inv: "name_first c \<in> name_hs \<and> name_inv [c] (name_first c) 0"
  by (simp add: name_first_def name_hs_def name_inv_def reading_def)

lemma run_name:
  assumes "k \<noteq> []" and "token_chars k" and "\<not> prefix (map chcode ''transfer-encoding'') (lower_codes k)"
    and "header_field_mark b = None" and "name_end k = (h, i)"
  shows "run pre (k @ '':'' @ r) s_header_field_start b = run (pre @ k @ '':'') r s_header_value_discard_ws
      (b\<lparr>p_hstate := h, p_index := i, x_cb := x_cb b @ [on_header_field k]\<rparr>)"
    and "h \<in> name_hs" and "name_inv (lower_codes k) h i"
proof -
  obtain c s where k: "k = c # s" using assms(1) by (cases k) auto
  have tok: "STRICT_TOKEN c \<noteq> 0" "token_chars s" using assms(2) by (simp_all add: token_chars_def k)
  let ?b = "b\<lparr>p_hstate := name_first (STRICT_TOKEN c), p_index := 0, header_field_mark := Some (length pre)\<rparr>"
  have first: "run pre (c # s @ '':'' @ r) s_header_field_start b = run (pre @ [c]) (s @ '':'' @ r) s_header_field ?b"
    by (rule run_to) (use tok(1) token_ne [OF tok(1)] assms(4) in
      \<open>simp_all add: step_def step_header_field_start_def name_first_def mark_at_def Let_def\<close>)
  have all: "run (pre @ [c]) (s @ '':'' @ r) s_header_field ?b =
      run ((pre @ [c]) @ s) ('':'' @ r) s_header_field (?b\<lparr>p_hstate := h, p_index := i\<rparr>) \<and>
      h \<in> name_hs \<and> name_inv ([STRICT_TOKEN c] @ lower_codes s) h i"
    by (rule run_name_chars) (use name_first_inv tok(2) assms(3,5) in \<open>simp_all add: k lower_codes_def name_end_def\<close>)
  then show "h \<in> name_hs" and "name_inv (lower_codes k) h i" by (simp_all add: k lower_codes_def)
  have "run (pre @ k) (CHR '':'' # r) s_header_field (?b\<lparr>p_hstate := h, p_index := i\<rparr>) =
      run (pre @ k @ '':'') r s_header_value_discard_ws
        (?b\<lparr>p_hstate := h, p_index := i, header_field_mark := None, x_cb := x_cb b @ [on_header_field k]\<rparr>)"
    using run_field_colon [of "?b\<lparr>p_hstate := h, p_index := i\<rparr>" pre "pre @ k" k r] by simp
  moreover have "?b\<lparr>p_hstate := h, p_index := i, header_field_mark := None, x_cb := x_cb b @ [on_header_field k]\<rparr> =
      b\<lparr>p_hstate := h, p_index := i, x_cb := x_cb b @ [on_header_field k]\<rparr>"
    using assms(4) by (cases b) simp
  ultimately show "run pre (k @ '':'' @ r) s_header_field_start b = run (pre @ k @ '':'') r s_header_value_discard_ws
      (b\<lparr>p_hstate := h, p_index := i, x_cb := x_cb b @ [on_header_field k]\<rparr>)"
    using first all by (simp add: k)
qed

section \<open>Values of headers\<close>

lemma value_put:
  assumes "length (pre @ c # r) \<le> max_header_size"
  shows "cturn (pre @ c # r) (put_at s_header_value (length pre) b) =
    value_done (pre @ [c]) (length pre) (value_loop (pre @ [c]) (mid s_header_value (length pre) b) (p_hstate b))"
proof -
  let ?i = "length pre"
  have nr: "p_nread (put_at s_header_value ?i b) + 1 = of_nat (Suc ?i)" by (simp add: put_at_def add.commute)
  have "(put_at s_header_value ?i b)\<lparr>p_nread := of_nat (Suc ?i)\<rparr> = mid s_header_value ?i b"
    by (simp add: put_at_def mid_def)
  moreover have "p_hstate (put_at s_header_value ?i b) = p_hstate b" by (simp add: put_at_def)
  ultimately show ?thesis
    using value_turn_done [of "put_at s_header_value ?i b" "pre @ [c]"] nr count_fits [OF assms]
    by (simp add: cturn_def del: of_nat_Suc)
qed

definition value_ch :: "char \<Rightarrow> bool" where
  "value_ch c \<longleftrightarrow> IS_HEADER_CHAR c \<and> c \<noteq> CR \<and> c \<noteq> LF"

lemma run_value_char:
  assumes "value_ch c"
    and "(if p_hstate b = h_general then VGo (mid s_header_value (length pre) b) h_general
      else value_char c (mid s_header_value (length pre) b) (p_hstate b)) = VGo (mid s_header_value (length pre) b') h'"
  shows "run pre (c # r) s_header_value b = run (pre @ [c]) r s_header_value (b'\<lparr>p_hstate := h'\<rparr>)"
proof (rule run_cturn)
  assume len: "length (pre @ c # r) \<le> max_header_size"
  let ?i = "length pre" and ?d = "pre @ [c]"
  let ?s = "mid s_header_value ?i b"
  have c: "?d ! ?i \<noteq> CR" "?d ! ?i \<noteq> LF" "IS_HEADER_CHAR (?d ! ?i)" using assms(1) by (simp_all add: value_ch_def)
  have "value_turn ?d ?s (p_hstate b) = VGo (mid s_header_value ?i b') h'"
    using value_turn_one [of ?d ?s "p_hstate b"] c assms(2) by (simp split: if_splits)
  then have "value_loop ?d ?s (p_hstate b) = LEnd ((mid s_header_value ?i b')\<lparr>x_pos := Suc ?i\<rparr>) h'"
    using value_loop_turn [of ?s ?d "p_hstate b"] c by (simp add: value_loop_end del: mid_at)
  moreover obtain t where t: "t = (mid s_header_value ?i b')\<lparr>x_pos := Suc ?i\<rparr>" by blast
  moreover have "x_pos t = Suc ?i" "t\<lparr>p_hstate := h', x_pos := ?i\<rparr> = mid s_header_value ?i (b'\<lparr>p_hstate := h'\<rparr>)"
    by (simp_all add: t mid_def)
  ultimately show "cturn (pre @ c # r) (put_at s_header_value ?i b) = Next (mid s_header_value ?i (b'\<lparr>p_hstate := h'\<rparr>))"
    using value_put [OF len, of b] count_mid [OF len] by (simp add: value_done_def del: mid_at)
qed

lemma run_value_CR:
  assumes "header_value_mark b = Some (length pre')" and "pre = pre' @ v"
  shows "run pre (CR # r) s_header_value b = run (pre @ [CR]) r s_header_almost_done
    (b\<lparr>header_value_mark := None, x_cb := x_cb b @ [on_header_value v]\<rparr>)" (is "_ = run _ _ _ ?b")
proof (rule run_cturn)
  assume len: "length (pre @ CR # r) \<le> max_header_size"
  let ?i = "length pre"
  have "slice (pre' @ v @ [CR]) (length pre') (length pre' + length v) = v" by simp
  then have "data_header_value (pre @ [CR]) ?i b = ?b"
    using assms by (simp add: data_header_value_def notify_def)
  moreover have "p_hstate_update (\<lambda>_. p_hstate b) b = b" by simp
  ultimately have "value_loop (pre @ [CR]) (mid s_header_value ?i b) (p_hstate b) = LEnd (mid s_header_almost_done ?i ?b) (p_hstate b)"
    using value_loop_CR [of "mid s_header_value ?i b" "pre @ [CR]" "p_hstate b"] by simp
  moreover have "?b\<lparr>p_hstate := p_hstate b\<rparr> = ?b" by (cases b) simp
  ultimately show "cturn (pre @ CR # r) (put_at s_header_value ?i b) = Next (mid s_header_almost_done ?i ?b)"
    using value_put [OF len, of b] count_mid [OF len] by (simp add: value_done_def)
qed

definition conn_flags :: "http_flag set" where
  "conn_flags = {F_CONNECTION_KEEP_ALIVE, F_CONNECTION_CLOSE, F_CONNECTION_UPGRADE}"

text \<open>Parsers that differ only in what the loops over names and values of ordinary headers change.\<close>

definition near :: "http_exec \<Rightarrow> http_exec \<Rightarrow> bool" where
  "near q b \<longleftrightarrow> (\<exists>F h i. b = q\<lparr>p_flags := F, p_hstate := h, p_index := i\<rparr> \<and> p_flags q \<subseteq> F \<and>
     F \<subseteq> p_flags q \<union> conn_flags)"

lemma nearI: "p_flags q \<subseteq> F \<Longrightarrow> F \<subseteq> p_flags q \<union> conn_flags \<Longrightarrow> near q (q\<lparr>p_flags := F, p_hstate := h, p_index := i\<rparr>)"
  by (auto simp: near_def)

definition conn_hs :: "header_state set" where
  "conn_hs = {h_general, h_matching_connection_token_start, h_matching_connection_keep_alive,
     h_matching_connection_close, h_matching_connection_upgrade, h_matching_connection_token,
     h_connection_keep_alive, h_connection_close, h_connection_upgrade}"

lemma value_char_conn:
  assumes "h \<in> conn_hs" and "h \<noteq> h_general"
  shows "\<exists>F i h'. value_char c (mid s_header_value p b) h = VGo (mid s_header_value p (b\<lparr>p_flags := F, p_index := i\<rparr>)) h' \<and>
    h' \<in> conn_hs \<and> p_flags b \<subseteq> F \<and> F \<subseteq> p_flags b \<union> conn_flags"
proof -
  have same: "b\<lparr>p_flags := p_flags b, p_index := p_index b\<rparr> = b" by simp
  have i: "b\<lparr>p_index := j\<rparr> = b\<lparr>p_flags := p_flags b, p_index := j\<rparr>" for j by simp
  have "\<exists>F i h'. value_char c (mid s_header_value p b) h = VGo (mid s_header_value p (b\<lparr>p_flags := F, p_index := i\<rparr>)) h' \<and>
    h' \<in> conn_hs \<and> F \<in> {p_flags b, insert F_CONNECTION_KEEP_ALIVE (p_flags b), insert F_CONNECTION_CLOSE (p_flags b),
      insert F_CONNECTION_UPGRADE (p_flags b)}"
    using assms
    by (cases h; simp add: conn_hs_def; (fail | simp add: value_char_def conn_flag_char_def match_value_def idx_inc_def
        conn_token_start_def Let_def; (metis same i | fail)))
  then show ?thesis by (fastforce simp: conn_flags_def)
qed

lemma near_refl [simp]: "near b b"
  using nearI [of b "p_flags b" "p_index b" "p_hstate b"] by simp

lemma near_trans:
  assumes "near a b" and "near b c"
  shows "near a c"
proof -
  from assms obtain F k j where c: "c = a\<lparr>p_flags := F, p_hstate := k, p_index := j\<rparr>"
    and F: "p_flags a \<subseteq> F" "F \<subseteq> p_flags a \<union> conn_flags" by (fastforce simp: near_def)
  show ?thesis unfolding c by (rule nearI [OF F])
qed

lemma near_select:
  assumes "near q b"
  shows "x_cb b = x_cb q" "p_clen b = p_clen q" "p_te b = p_te q" "p_method b = p_method q" "p_type b = p_type q"
    "p_status b = p_status q" "p_errno b = p_errno q" "header_field_mark b = header_field_mark q"
    "header_value_mark b = header_value_mark q" "url_mark b = url_mark q" "status_mark b = status_mark q"
    "body_mark b = body_mark q" "p_upgrade b = p_upgrade q"
  using assms by (auto simp: near_def)

lemma near_mod:
  "near q b \<Longrightarrow> near (q\<lparr>x_cb := x\<rparr>) (b\<lparr>x_cb := x\<rparr>)"
  "near q b \<Longrightarrow> near (q\<lparr>header_value_mark := m\<rparr>) (b\<lparr>header_value_mark := m\<rparr>)"
  "near q b \<Longrightarrow> near q (b\<lparr>p_hstate := h\<rparr>)"
  "near q b \<Longrightarrow> near q (b\<lparr>p_index := i\<rparr>)"
  "near q b \<Longrightarrow> G \<subseteq> conn_flags \<Longrightarrow> near q (b\<lparr>p_flags := p_flags b \<union> G\<rparr>)"
proof -
  assume "near q b"
  then obtain F k j where b: "b = q\<lparr>p_flags := F, p_hstate := k, p_index := j\<rparr>" and F: "p_flags q \<subseteq> F"
    "F \<subseteq> p_flags q \<union> conn_flags" by (auto simp: near_def)
  have eqs: "b\<lparr>x_cb := x\<rparr> = q\<lparr>x_cb := x, p_flags := F, p_hstate := k, p_index := j\<rparr>"
    "b\<lparr>header_value_mark := m\<rparr> = q\<lparr>header_value_mark := m, p_flags := F, p_hstate := k, p_index := j\<rparr>"
    "b\<lparr>p_hstate := h\<rparr> = q\<lparr>p_flags := F, p_hstate := h, p_index := j\<rparr>"
    "b\<lparr>p_index := i\<rparr> = q\<lparr>p_flags := F, p_hstate := k, p_index := i\<rparr>"
    "b\<lparr>p_flags := p_flags b \<union> G\<rparr> = q\<lparr>p_flags := F \<union> G, p_hstate := k, p_index := j\<rparr>"
    unfolding b by (cases q; simp)+
  show "near (q\<lparr>x_cb := x\<rparr>) (b\<lparr>x_cb := x\<rparr>)" "near (q\<lparr>header_value_mark := m\<rparr>) (b\<lparr>header_value_mark := m\<rparr>)"
    "near q (b\<lparr>p_hstate := h\<rparr>)" "near q (b\<lparr>p_index := i\<rparr>)"
    unfolding eqs by (rule nearI; use F in simp)+
  show "near q (b\<lparr>p_flags := p_flags b \<union> G\<rparr>)" if "G \<subseteq> conn_flags"
    unfolding eqs by (rule nearI) (use F that in auto)
qed

lemma run_value_chars:
  "p_hstate b \<in> conn_hs \<Longrightarrow> list_all value_ch v \<Longrightarrow>
    \<exists>b'. run pre (v @ r) s_header_value b = run (pre @ v) r s_header_value b' \<and> near b b' \<and> p_hstate b' \<in> conn_hs"
proof (induction v arbitrary: pre b)
  case Nil
  then show ?case by (auto intro!: exI [of _ b])
next
  case (Cons c v)
  have c: "value_ch c" using Cons.prems(2) by simp
  obtain b1 where b1: "run pre (c # v @ r) s_header_value b = run (pre @ [c]) (v @ r) s_header_value b1"
    "near b b1" "p_hstate b1 \<in> conn_hs"
  proof (cases "p_hstate b = h_general")
    case True
    with run_value_char [OF c, of b pre b h_general "v @ r"] that [of "b\<lparr>p_hstate := h_general\<rparr>"] show thesis
      by (simp add: near_mod conn_hs_def)
  next
    case False
    from value_char_conn [OF Cons.prems(1) False, of c "length pre" b] obtain F i h' where
      v: "value_char c (mid s_header_value (length pre) b) (p_hstate b) =
        VGo (mid s_header_value (length pre) (b\<lparr>p_flags := F, p_index := i\<rparr>)) h'"
      and F: "h' \<in> conn_hs" "p_flags b \<subseteq> F" "F \<subseteq> p_flags b \<union> conn_flags" by blast
    have "b\<lparr>p_flags := F, p_index := i, p_hstate := h'\<rparr> = b\<lparr>p_flags := F, p_hstate := h', p_index := i\<rparr>" by simp
    with run_value_char [OF c, of b pre "b\<lparr>p_flags := F, p_index := i\<rparr>" h' "v @ r"] v False F
      nearI [OF F(2,3), of i h'] that [of "b\<lparr>p_flags := F, p_hstate := h', p_index := i\<rparr>"]
    show thesis by simp
  qed
  from Cons.IH [OF b1(3), of "pre @ [c]"] Cons.prems(2) obtain b2 where
    "run (pre @ [c]) (v @ r) s_header_value b1 = run ((pre @ [c]) @ v) r s_header_value b2" "near b1 b2"
    "p_hstate b2 \<in> conn_hs" by auto
  with b1 show ?case by (auto intro!: exI [of _ b2] near_trans [OF b1(2)])
qed

text \<open>The end of a line, and the character that shows that the header is not continued.\<close>

definition line_start :: "char \<Rightarrow> bool" where "line_start c \<longleftrightarrow> c \<noteq> CHR '' '' \<and> c \<noteq> HTAB"

lemma run_line_end:
  assumes "header_value_mark b = Some (length pre')" and "pre = pre' @ v" and "line_start c"
  shows "run pre (crlf @ c # r) s_header_value b = run (pre @ crlf) (c # r) s_header_field_start
    (b\<lparr>header_value_mark := None, x_cb := x_cb b @ [on_header_value v], p_flags := p_flags b \<union> header_flag (p_hstate b)\<rparr>)"
proof -
  let ?b = "b\<lparr>header_value_mark := None, x_cb := x_cb b @ [on_header_value v]\<rparr>"
  have "run pre (CR # LF # c # r) s_header_value b = run (pre @ [CR]) (LF # c # r) s_header_almost_done ?b"
    by (rule run_value_CR [OF assms(1,2)])
  also have "\<dots> = run ((pre @ [CR]) @ [LF]) (c # r) s_header_value_lws ?b"
    by (rule run_to) (simp_all add: step_def step_header_almost_done_def expect_def goto_def)
  also have "\<dots> = run ((pre @ [CR]) @ [LF]) (c # r) s_header_field_start (?b\<lparr>p_flags := p_flags b \<union> header_flag (p_hstate b)\<rparr>)"
    by (rule run_back) (use assms(3) in \<open>simp_all add: step_def step_header_value_lws_def again_def line_start_def\<close>)
  finally show ?thesis by (simp add: crlf_def)
qed

lemma run_empty_value:
  assumes "header_value_mark b = None" and "p_hstate b \<noteq> h_content_length" and "line_start c"
  shows "run pre (crlf @ c # r) s_header_value_discard_ws b = run (pre @ crlf) (c # r) s_header_field_start
    (b\<lparr>x_cb := x_cb b @ [on_header_value []], p_flags := p_flags b \<union> header_flag (p_hstate b)\<rparr>)"
proof -
  let ?b = "b\<lparr>x_cb := x_cb b @ [on_header_value []], p_flags := p_flags b \<union> header_flag (p_hstate b)\<rparr>"
  have "run pre (CR # LF # c # r) s_header_value_discard_ws b =
      run (pre @ [CR]) (LF # c # r) s_header_value_discard_ws_almost_done b"
    by (rule run_to) (simp_all add: step_def step_header_value_discard_ws_def goto_def)
  also have "\<dots> = run ((pre @ [CR]) @ [LF]) (c # r) s_header_value_discard_lws b"
    by (rule run_to) (simp_all add: step_def expect_def goto_def)
  also have "\<dots> = run ((pre @ [CR]) @ [LF]) (c # r) s_header_field_start ?b"
    by (rule run_back; cases b) (use assms in \<open>simp_all add: step_def step_header_value_discard_lws_def line_start_def
        mark_at_def data_header_value_def notify_def mid_def Let_def\<close>)
  finally show ?thesis by (simp add: crlf_def)
qed

definition value_ok :: "string \<Rightarrow> bool" where
  "value_ok v \<longleftrightarrow> list_all value_ch v \<and> (v = [] \<or> line_start (hd v))"

lemma run_blank:
  "run pre (CHR '' '' # r) s_header_value_discard_ws b = run (pre @ '' '') r s_header_value_discard_ws b"
  by (rule run_to) (simp_all add: step_def step_header_value_discard_ws_def)

text \<open>The first character of a value.\<close>

lemma run_value_start:
  assumes "p_hstate b \<in> name_hs - {h_content_length, h_upgrade}" and "header_value_mark b = None"
    and "value_ch c" and "line_start c"
  shows "\<exists>h. h \<in> conn_hs \<and> run pre (c # r) s_header_value_discard_ws b =
    run (pre @ [c]) r s_header_value (b\<lparr>header_value_mark := Some (length pre), p_index := 0, p_hstate := h\<rparr>)"
proof -
  let ?h = "if p_hstate b = h_connection then (if LOWER c = chcode (CHR ''k'') then h_matching_connection_keep_alive
      else if LOWER c = chcode (CHR ''c'') then h_matching_connection_close
      else if LOWER c = chcode (CHR ''u'') then h_matching_connection_upgrade
      else h_matching_connection_token) else h_general"
  have c: "c \<noteq> CHR '' ''" "c \<noteq> HTAB" "c \<noteq> CR" "c \<noteq> LF" using assms(3,4) by (simp_all add: value_ch_def line_start_def)
  have hs: "p_hstate b \<in> {h_general, h_C, h_CO, h_CON, h_matching_connection, h_matching_proxy_connection,
     h_matching_content_length, h_matching_transfer_encoding, h_matching_upgrade, h_connection}"
    using assms(1) by (auto simp: name_hs_def)
  have "step (pre @ c # r) c (mid s_header_value_discard_ws (length pre) b) =
      Next (mid s_header_value (length pre) (b\<lparr>header_value_mark := Some (length pre), p_index := 0, p_hstate := ?h\<rparr>))"
    using c assms(2) hs by (elim insertE emptyE) (simp_all add: step_def step_header_value_discard_ws_def step_header_value_start_def mark_at_def Let_def)
  then have "run pre (c # r) s_header_value_discard_ws b =
      run (pre @ [c]) r s_header_value (b\<lparr>header_value_mark := Some (length pre), p_index := 0, p_hstate := ?h\<rparr>)"
    by (rule run_to) simp_all
  moreover have "?h \<in> conn_hs" by (simp add: conn_hs_def)
  ultimately show ?thesis by blast
qed

lemma header_flag_conn: "h \<in> conn_hs \<Longrightarrow> header_flag h \<subseteq> conn_flags"
  by (auto simp: conn_hs_def header_flag_def conn_flags_def)

lemma header_flag_name: "h \<in> name_hs \<Longrightarrow> header_flag h = {}"
  by (auto simp: name_hs_def header_flag_def)

lemma run_value:
  assumes "p_hstate b \<in> name_hs - {h_content_length, h_upgrade}" and "header_value_mark b = None"
    and "value_ok v" and "line_start c"
  shows "\<exists>b'. run pre ('' '' @ v @ crlf @ c # r) s_header_value_discard_ws b =
      run (pre @ '' '' @ v @ crlf) (c # r) s_header_field_start b' \<and>
      near (b\<lparr>x_cb := x_cb b @ [on_header_value v]\<rparr>) b'"
proof (cases v)
  case Nil
  let ?b = "b\<lparr>x_cb := x_cb b @ [on_header_value []], p_flags := p_flags b \<union> header_flag (p_hstate b)\<rparr>"
  have "header_flag (p_hstate b) = {}" using assms(1) by (simp add: header_flag_name)
  then have "near (b\<lparr>x_cb := x_cb b @ [on_header_value []]\<rparr>) ?b"
    using near_mod(5) [OF near_refl, of "{}" "b\<lparr>x_cb := x_cb b @ [on_header_value []]\<rparr>"] by simp
  with run_empty_value [OF assms(2) _ assms(4), of "pre @ '' ''" r] assms(1) show ?thesis
    by (auto simp: Nil run_blank)
next
  case (Cons d w)
  have d: "value_ch d" "line_start d" "list_all value_ch w" using assms(3) by (simp_all add: value_ok_def Cons)
  let ?pre = "pre @ '' ''" and ?q = "b\<lparr>header_value_mark := Some (Suc (length pre))\<rparr>"
  from run_value_start [OF assms(1,2) d(1,2), of ?pre "w @ crlf @ c # r"] obtain h where h: "h \<in> conn_hs"
    "run ?pre (d # w @ crlf @ c # r) s_header_value_discard_ws b =
      run (?pre @ [d]) (w @ crlf @ c # r) s_header_value (?q\<lparr>p_index := 0, p_hstate := h\<rparr>)" by auto
  from run_value_chars [of "?q\<lparr>p_index := 0, p_hstate := h\<rparr>" w "?pre @ [d]" "crlf @ c # r"] h(1) d(3) obtain b1 where
    b1: "run (?pre @ [d]) (w @ crlf @ c # r) s_header_value (?q\<lparr>p_index := 0, p_hstate := h\<rparr>) =
      run ((?pre @ [d]) @ w) (crlf @ c # r) s_header_value b1" "near (?q\<lparr>p_index := 0, p_hstate := h\<rparr>) b1"
    "p_hstate b1 \<in> conn_hs" by auto
  have n: "near ?q b1" using near_trans [OF near_mod(3) [OF near_mod(4) [OF near_refl]] b1(2)] .
  have m: "header_value_mark b1 = Some (length ?pre)" "x_cb b1 = x_cb b" using near_select [OF n] by simp_all
  let ?b2 = "b1\<lparr>header_value_mark := None, x_cb := x_cb b1 @ [on_header_value v],
      p_flags := p_flags b1 \<union> header_flag (p_hstate b1)\<rparr>"
  have "run ((?pre @ [d]) @ w) (crlf @ c # r) s_header_value b1 = run (((?pre @ [d]) @ w) @ crlf) (c # r) s_header_field_start ?b2"
    by (rule run_line_end [OF m(1) _ assms(4)]) (simp add: Cons)
  moreover have "near (b\<lparr>x_cb := x_cb b @ [on_header_value v]\<rparr>) ?b2"
  proof -
    have "near (?q\<lparr>header_value_mark := None, x_cb := x_cb b @ [on_header_value v]\<rparr>)
        (b1\<lparr>header_value_mark := None, x_cb := x_cb b @ [on_header_value v]\<rparr>)" (is "near _ ?b1")
      by (rule near_mod(1) [OF near_mod(2) [OF n]])
    moreover have "?q\<lparr>header_value_mark := None, x_cb := x_cb b @ [on_header_value v]\<rparr> =
        b\<lparr>x_cb := x_cb b @ [on_header_value v]\<rparr>" using assms(2) by (cases b) simp
    ultimately show ?thesis
      using near_mod(5) [OF _ header_flag_conn [OF b1(3)], of "b\<lparr>x_cb := x_cb b @ [on_header_value v]\<rparr>" ?b1] m(2) by simp
  qed
  ultimately show ?thesis using h(2) b1(1) by (auto simp: Cons run_blank)
qed

section \<open>Lines of headers\<close>

text \<open>Headers with no meaning for the framing of a message.\<close>

definition plain_name :: "string \<Rightarrow> bool" where
  "plain_name k \<longleftrightarrow> k \<noteq> [] \<and> token_chars k \<and> \<not> prefix (map chcode ''transfer-encoding'') (lower_codes k) \<and>
     lower_codes k \<noteq> map chcode ''content-length'' \<and> lower_codes k \<noteq> map chcode ''upgrade''"

definition plain_header :: "string \<times> string \<Rightarrow> bool" where
  "plain_header h \<longleftrightarrow> plain_name (fst h) \<and> value_ok (snd h)"

definition header_marks_off :: "http_exec \<Rightarrow> bool" where
  "header_marks_off b \<longleftrightarrow> header_field_mark b = None \<and> header_value_mark b = None"

lemma run_plain_header:
  assumes "plain_header (k, v)" and "near q b" and "header_marks_off q" and "line_start c"
  shows "\<exists>b'. run pre (header_line (k, v) @ c # r) s_header_field_start b =
      run (pre @ header_line (k, v)) (c # r) s_header_field_start b' \<and>
      near (q\<lparr>x_cb := x_cb q @ [on_header_field k, on_header_value v]\<rparr>) b'"
proof -
  have k: "k \<noteq> []" "token_chars k" "\<not> prefix (map chcode ''transfer-encoding'') (lower_codes k)"
    "lower_codes k \<noteq> map chcode ''content-length''" "lower_codes k \<noteq> map chcode ''upgrade''" "value_ok v"
    using assms(1) by (simp_all add: plain_header_def plain_name_def)
  have m: "header_field_mark b = None" "header_value_mark b = None"
    using assms(2,3) by (simp_all add: near_select header_marks_off_def)
  obtain h i where e: "name_end k = (h, i)" by (cases "name_end k")
  note name = run_name [OF k(1-3) m(1) e]
  have h: "h \<in> name_hs - {h_content_length, h_upgrade}" using name(2,3) k(4,5) by (auto simp: name_inv_def)
  let ?b = "b\<lparr>p_hstate := h, p_index := i, x_cb := x_cb b @ [on_header_field k]\<rparr>"
  obtain b' where b': "run (pre @ k @ '':'') ('' '' @ v @ crlf @ c # r) s_header_value_discard_ws ?b =
      run ((pre @ k @ '':'') @ '' '' @ v @ crlf) (c # r) s_header_field_start b'"
    "near (?b\<lparr>x_cb := x_cb ?b @ [on_header_value v]\<rparr>) b'"
    using run_value [of ?b v c "pre @ k @ '':''" r] h m(2) k(6) assms(4) by auto
  have "near q (b\<lparr>p_hstate := h, p_index := i\<rparr>)"
    using near_mod(4) [OF near_mod(3) [OF assms(2)]] .
  from near_mod(1) [OF this, of "x_cb q @ [on_header_field k, on_header_value v]"] near_select(1) [OF assms(2)]
  have "near (q\<lparr>x_cb := x_cb q @ [on_header_field k, on_header_value v]\<rparr>) (?b\<lparr>x_cb := x_cb ?b @ [on_header_value v]\<rparr>)"
    by simp
  from near_trans [OF this b'(2)] b'(1) name(1) [of pre "'' '' @ v @ crlf @ c # r"] show ?thesis
    by (auto simp: header_line_def)
qed

definition header_lines :: "headers \<Rightarrow> string" where "header_lines hs = concat (map header_line hs)"

lemma header_lines_start:
  assumes "list_all plain_header hs" and "line_start c"
  shows "\<exists>c' r'. header_lines hs @ c # r = c' # r' \<and> line_start c'"
proof (cases hs)
  case (Cons h hs')
  with assms(1) obtain k ks where k: "fst h = k # ks" "STRICT_TOKEN k \<noteq> 0"
    by (cases "fst h") (auto simp: plain_header_def plain_name_def token_chars_def)
  have "line_start k" using token_ne [OF k(2)] by (simp add: line_start_def)
  with k(1) Cons show ?thesis by (auto simp: header_lines_def header_line_def)
qed (use assms in \<open>simp add: header_lines_def\<close>)

lemma run_plain_headers:
  "list_all plain_header hs \<Longrightarrow> near q b \<Longrightarrow> header_marks_off q \<Longrightarrow> line_start c \<Longrightarrow>
    \<exists>b'. run pre (header_lines hs @ c # r) s_header_field_start b =
      run (pre @ header_lines hs) (c # r) s_header_field_start b' \<and> near (q\<lparr>x_cb := x_cb q @ header_cbs hs\<rparr>) b'"
proof (induction hs arbitrary: q b pre)
  case Nil
  then show ?case by (auto simp: header_lines_def header_cbs_def)
next
  case (Cons h hs)
  obtain k v where h: "h = (k, v)" by (cases h)
  from header_lines_start [of hs c r] Cons.prems obtain c' r' where c': "header_lines hs @ c # r = c' # r'"
    "line_start c'" by auto
  let ?q = "q\<lparr>x_cb := x_cb q @ [on_header_field k, on_header_value v]\<rparr>"
  from run_plain_header [of k v q b c' pre r'] Cons.prems c'(2) h obtain b1 where
    b1: "run pre (header_line (k, v) @ c' # r') s_header_field_start b =
      run (pre @ header_line (k, v)) (c' # r') s_header_field_start b1" "near ?q b1" by auto
  from Cons.IH [of ?q b1 "pre @ header_line (k, v)"] Cons.prems b1(2) obtain b2 where
    "run (pre @ header_line (k, v)) (header_lines hs @ c # r) s_header_field_start b1 =
      run ((pre @ header_line (k, v)) @ header_lines hs) (c # r) s_header_field_start b2"
    "near (?q\<lparr>x_cb := x_cb ?q @ header_cbs hs\<rparr>) b2" by (auto simp: header_marks_off_def)
  with b1(1) c'(1) show ?case
    by (auto simp: h header_lines_def header_cbs_def)
qed

text \<open>The header that gives the length of the body.\<close>

definition dec_from :: "nat \<Rightarrow> string \<Rightarrow> nat" where
  "dec_from v s = foldl (\<lambda>v c. 10 * v + (chcode c - 48)) v s"

lemma dec_from_ge: "v \<le> dec_from v s"
proof (induction s arbitrary: v)
  case (Cons c s)
  have "v \<le> 10 * v + (chcode c - 48)" by simp
  also have "\<dots> \<le> dec_from (10 * v + (chcode c - 48)) s" by (rule Cons.IH)
  finally show ?case by (simp add: dec_from_def)
qed (simp add: dec_from_def)

lemma clen_fits:
  assumes "v < 2 ^ 32"
  shows "\<not> clen_limit 10 < (of_nat v :: u64)"
proof -
  have "unat (of_nat v :: u64) = v" using assms by (simp add: unat_of_nat)
  moreover have "unat (clen_limit 10) = 1844674407370955160" by (simp add: clen_limit_def unat_div)
  ultimately show ?thesis using assms by (simp add: word_less_nat_alt)
qed

lemma digit_value: "is_digit c \<Longrightarrow> value_ch c \<and> line_start c \<and> c \<noteq> CHR '' ''"
  by (auto simp: value_ch_def IS_HEADER_CHAR_def is_digit_def line_start_def chcode_def)

lemma run_digits:
  "list_all is_digit s \<Longrightarrow> dec_from v s < 2 ^ 32 \<Longrightarrow> p_clen b = of_nat v \<Longrightarrow> p_hstate b = h_content_length_num \<Longrightarrow>
    run pre (s @ r) s_header_value b = run (pre @ s) r s_header_value (b\<lparr>p_clen := of_nat (dec_from v s)\<rparr>)"
proof (induction s arbitrary: v b pre)
  case Nil
  then have "b\<lparr>p_clen := of_nat (dec_from v [])\<rparr> = b" by (cases b) (simp add: dec_from_def)
  then show ?case by simp
next
  case (Cons c s)
  let ?v = "10 * v + (chcode c - 48)"
  have c: "is_digit c" "value_ch c" "c \<noteq> CHR '' ''" using Cons.prems(1) digit_value [of c] by auto
  have v: "v < 2 ^ 32" "dec_from ?v s < 2 ^ 32"
    using Cons.prems(2) dec_from_ge [of v "c # s"] by (simp_all add: dec_from_def)
  let ?b = "b\<lparr>p_clen := of_nat ?v\<rparr>"
  have clen: "(of_nat v * 10 + of_nat (chcode c - 48) :: u64) = of_nat ?v" by (simp add: mult.commute)
  have "value_char c (mid s_header_value (length pre) b) (p_hstate b) = VGo (mid s_header_value (length pre) ?b) h_content_length_num"
    using c clen_fits [OF v(1)] Cons.prems(3,4) clen
    by (simp add: value_char_def content_length_char_def digit_of_def Let_def del: of_nat_add of_nat_mult)
  with run_value_char [OF c(2), of b pre ?b h_content_length_num "s @ r"] Cons.prems(4)
  have "run pre (c # s @ r) s_header_value b = run (pre @ [c]) (s @ r) s_header_value (?b\<lparr>p_hstate := h_content_length_num\<rparr>)" by simp
  moreover have "?b\<lparr>p_hstate := h_content_length_num\<rparr> = ?b" using Cons.prems(4) by (cases b) simp
  moreover have "run (pre @ [c]) (s @ r) s_header_value ?b =
      run ((pre @ [c]) @ s) r s_header_value (?b\<lparr>p_clen := of_nat (dec_from ?v s)\<rparr>)"
    by (rule Cons.IH) (use Cons.prems v in simp_all)
  ultimately show ?case by (simp add: dec_from_def)
qed

lemma length_name:
  "name_end ''Content-Length'' = (h_content_length, 13)"
  "lower_codes ''Content-Length'' = map chcode ''content-length''"
  by code_simp+

lemma run_length_header:
  assumes "k = ''Content-Length''" and "n < 2 ^ 32" and "near q b" and "header_marks_off q"
    and "F_CONTENTLENGTH \<notin> p_flags q" and "line_start c"
  shows "\<exists>b'. run pre (header_line (k, dec_str n) @ c # r) s_header_field_start b =
      run (pre @ header_line (k, dec_str n)) (c # r) s_header_field_start b' \<and>
      near (q\<lparr>p_flags := insert F_CONTENTLENGTH (p_flags q), p_clen := of_nat n,
        x_cb := x_cb q @ [on_header_field k, on_header_value (dec_str n)]\<rparr>) b'"
proof -
  have len: "length (lower_codes k) = 14" by (simp add: assms(1) length_name)
  have kne: "k \<noteq> []" by (simp add: assms(1))
  have all: "\<forall>x \<in> set (lower_codes k). x \<noteq> 0" by (simp add: assms(1) length_name chcode_def)
  then have tok: "token_chars k" by (simp add: lower_codes_def token_chars_def list_all_iff)
  have np: "\<not> prefix (map chcode ''transfer-encoding'') (lower_codes k)"
    using len by (auto dest!: prefix_length_le)
  have m: "header_field_mark b = None" "header_value_mark b = None"
    using assms(3,4) by (simp_all add: near_select header_marks_off_def)
  obtain i where e: "name_end k = (h_content_length, i)" by (simp add: assms(1) length_name)
  obtain d w where d: "dec_str n = d # w" using dec_str_props(1) [of n] by (cases "dec_str n") auto
  have dig: "is_digit d" "list_all is_digit w" using dec_str_props(2) [of n] by (simp_all add: d)
  let ?v = "chcode d - 48"
  have val: "dec_from ?v w = n" using dec_val_dec_str [of n] by (simp add: d dec_val_def dec_from_def)
  note dv = digit_value [OF dig(1)]
  obtain F j g where b: "b = q\<lparr>p_flags := F, p_hstate := g, p_index := j\<rparr>" and F: "p_flags q \<subseteq> F"
    "F \<subseteq> p_flags q \<union> conn_flags" using assms(3) by (auto simp: near_def)
  have bF: "p_flags b = F" by (simp add: b)
  have nf: "F_CONTENTLENGTH \<notin> F" using F(2) assms(5) by (auto simp: conn_flags_def)
  let ?F = "insert F_CONTENTLENGTH F"
  let ?pre = "pre @ k @ '': ''"
  let ?b1 = "b\<lparr>p_hstate := h_content_length, p_index := i, x_cb := x_cb b @ [on_header_field k]\<rparr>"
  let ?b2 = "b\<lparr>p_flags := ?F, p_hstate := h_content_length_num, p_index := 0, p_clen := of_nat ?v,
      x_cb := x_cb b @ [on_header_field k], header_value_mark := Some (length ?pre)\<rparr>"
  have "run pre (k @ '':'' @ '' '' @ (d # w) @ crlf @ c # r) s_header_field_start b =
      run (pre @ k @ '':'') ('' '' @ (d # w) @ crlf @ c # r) s_header_value_discard_ws ?b1"
    by (rule run_name(1) [OF kne tok np m(1) e])
  also have "\<dots> = run ?pre (d # w @ crlf @ c # r) s_header_value_discard_ws ?b1" by (simp add: run_blank)
  also have "\<dots> = run (?pre @ [d]) (w @ crlf @ c # r) s_header_value ?b2"
    by (rule run_to; cases b) (use dv m(2) nf bF dig(1) in \<open>simp_all add: step_def step_header_value_discard_ws_def line_start_def
        value_ch_def step_header_value_start_def mark_at_def digit_of_def mid_def Let_def\<close>)
  also have "\<dots> = run ((?pre @ [d]) @ w) (crlf @ c # r) s_header_value (?b2\<lparr>p_clen := of_nat (dec_from ?v w)\<rparr>)"
    by (rule run_digits) (use dig(2) val assms(2) in simp_all)
  also have "\<dots> = run (((?pre @ [d]) @ w) @ crlf) (c # r) s_header_field_start (?b2\<lparr>p_clen := of_nat n, header_value_mark := None,
      x_cb := (x_cb b @ [on_header_field k]) @ [on_header_value (d # w)], p_flags := ?F\<rparr>)"
    using run_line_end [of "?b2\<lparr>p_clen := of_nat n\<rparr>" ?pre "(?pre @ [d]) @ w" "d # w" c r] assms(6)
    by (simp add: val header_flag_def)
  finally have run: "run pre (header_line (k, dec_str n) @ c # r) s_header_field_start b =
      run (pre @ header_line (k, dec_str n)) (c # r) s_header_field_start (?b2\<lparr>p_clen := of_nat n, header_value_mark := None,
      x_cb := (x_cb b @ [on_header_field k]) @ [on_header_value (d # w)], p_flags := ?F\<rparr>)"
    by (simp add: header_line_def d)
  let ?q = "q\<lparr>p_flags := insert F_CONTENTLENGTH (p_flags q), p_clen := of_nat n,
        x_cb := x_cb q @ [on_header_field k, on_header_value (dec_str n)]\<rparr>"
  have "header_value_mark q = None" using assms(4) by (simp add: header_marks_off_def)
  then have "?b2\<lparr>p_clen := of_nat n, header_value_mark := None,
      x_cb := (x_cb b @ [on_header_field k]) @ [on_header_value (d # w)], p_flags := ?F\<rparr> =
      ?q\<lparr>p_flags := ?F, p_hstate := h_content_length_num, p_index := 0\<rparr>"
    unfolding b by (cases q) (simp add: d)
  moreover have "near ?q (?q\<lparr>p_flags := ?F, p_hstate := h_content_length_num, p_index := 0\<rparr>)"
    by (rule nearI) (use F in auto)
  ultimately show ?thesis using run by auto
qed

section \<open>The body and the end\<close>

text \<open>What the end of a message leaves as it was.\<close>

definition same_head :: "http_exec \<Rightarrow> http_exec \<Rightarrow> bool" where
  "same_head s t \<longleftrightarrow> p_errno t = p_errno s \<and> p_method t = p_method s \<and> p_status t = p_status s \<and> p_type t = p_type s"

definition no_marks :: "http_exec \<Rightarrow> bool" where
  "no_marks s \<longleftrightarrow> url_mark s = None \<and> status_mark s = None \<and> header_field_mark s = None \<and>
     header_value_mark s = None \<and> body_mark s = None"

lemma chars_end: "no_marks s \<Longrightarrow> x_pos s = length d \<Longrightarrow> chars_loop d s = Some (s, length d)"
  by (subst chars_loop.simps) (simp add: no_marks_def marks_def exec_end_def data_url_def data_status_def
      data_header_field_def data_header_value_def data_body_def Let_def)

lemma turn_body:
  assumes "p_state s = s_body_identity" and "x_pos s < length d"
  shows "cturn d s = (case step_body_identity (take (Suc (x_pos s)) d) s of
    Again s' \<Rightarrow> run_char (take (Suc (x_pos s)) d) s' | c \<Rightarrow> c)"
  using assms by (simp add: cturn_def turn_def PARSING_HEADER_def run_char.simps [of _ s] step_def)

lemma chars_body:
  "p_state s = s_body_identity \<Longrightarrow> unat (p_clen s) = length d - x_pos s \<Longrightarrow> x_pos s < length d \<Longrightarrow>
    length d < 2 ^ 32 \<Longrightarrow> \<not> p_upgrade s \<Longrightarrow> no_marks (s\<lparr>body_mark := None\<rparr>) \<Longrightarrow>
    mark_at (body_mark s) (x_pos s) = Some m \<Longrightarrow> m \<le> x_pos s \<Longrightarrow>
    \<exists>t. chars_loop d s = Some (t, length d) \<and> x_cb t = x_cb s @ [on_body (drop m d), on_message_complete] \<and> same_head s t"
proof (induction "length d - x_pos s" arbitrary: s)
  case (Suc n)
  let ?p = "x_pos s" and ?d = "take (Suc (x_pos s)) d"
  let ?s = "s\<lparr>body_mark := Some m, p_clen := p_clen s - 1\<rparr>"
  have nz: "p_clen s \<noteq> 0" using Suc.prems(2,3) by (metis unat_0 zero_less_diff less_numeral_extra(3))
  have nm: "p_clen s \<noteq> - 1"
  proof
    assume "p_clen s = - 1"
    then have "unat (p_clen s) = 2 ^ 64 - 1" by (simp add: unsigned_minus_1_eq_mask mask_eq_exp_minus_1)
    with Suc.prems(2,4) show False by simp
  qed
  have clen: "unat (p_clen s - 1) = n" using unat_minus_one [OF nz] Suc.hyps(2) Suc.prems(2) by simp
  have take: "take_body ?d s = ?s" using ctx.take_body_one [of ?d s] Suc.prems(3,7) nz by simp
  show ?case
  proof (cases n)
    case 0
    with clen have z: "p_clen s - 1 = 0" by (simp add: unat_eq_0)
    have last: "Suc ?p = length d" using Suc.hyps(2) Suc.prems(3) 0 by simp
    obtain w where w: "w = data_body d (Suc ?p) (?s\<lparr>p_state := s_message_done\<rparr>)" by blast
    have u: "w = s\<lparr>body_mark := None, p_clen := p_clen s - 1, p_state := s_message_done, x_cb := x_cb s @ [on_body (drop m d)]\<rparr>"
      unfolding w using last by (cases s) (simp add: data_body_def notify_def slice_def)
    have d: "?d = d" using last by simp
    have sel: "p_state w = s_message_done" "\<not> p_upgrade w" using Suc.prems(5) by (simp_all add: u)
    have "run_char d w = Next (new_message w)"
      using sel by (intro run_char_next(1)) (simp add: step_def step_message_done_def new_message_def notify_def)
    moreover have "step_body_identity d s = Again w"
      using nz nm z take Suc.prems(3) unfolding d w by (simp add: step_body_identity_def Let_def)
    ultimately have "cturn d s = Next (new_message w)"
      using turn_body [OF Suc.prems(1,3)] unfolding d by simp
    then have "chars_loop d s = chars_loop d ((new_message w)\<lparr>x_pos := Suc ?p\<rparr>)"
      using Suc.prems(3) by (simp add: chars_loop_turn u new_message_def notify_def)
    also have "\<dots> = Some ((new_message w)\<lparr>x_pos := Suc ?p\<rparr>, length d)"
      by (rule chars_end) (use last Suc.prems(6) in \<open>simp_all add: u no_marks_def new_message_def notify_def\<close>)
    finally show ?thesis by (simp add: u new_message_def notify_def same_head_def)
  next
    case (Suc k)
    have nz1: "p_clen s - 1 \<noteq> 0" using clen Suc by (metis unat_0 nat.simps(3))
    have "cturn d s = Next ?s"
      using turn_body [OF Suc.prems(1,3)] nz nm nz1 take by (simp add: step_body_identity_def Let_def)
    then have go: "chars_loop d s = chars_loop d (?s\<lparr>x_pos := Suc ?p\<rparr>)"
      using Suc.prems(3) by (simp add: chars_loop_turn)
    have "\<exists>t. chars_loop d (?s\<lparr>x_pos := Suc ?p\<rparr>) = Some (t, length d) \<and>
        x_cb t = x_cb (?s\<lparr>x_pos := Suc ?p\<rparr>) @ [on_body (drop m d), on_message_complete] \<and> same_head (?s\<lparr>x_pos := Suc ?p\<rparr>) t"
      by (rule Suc.hyps(1)) (use Suc.hyps(2) Suc Suc.prems clen in \<open>auto simp: mark_at_def no_marks_def\<close>)
    with go show ?thesis by (simp add: same_head_def)
  qed
qed simp

text \<open>A body that has not arrived completely does not complete the message.\<close>

lemma chars_body_part:
  "p_state s = s_body_identity \<Longrightarrow> length d - x_pos s < unat (p_clen s) \<Longrightarrow> unat (p_clen s) < 2 ^ 32 \<Longrightarrow>
    x_pos s \<le> length d \<Longrightarrow> no_marks (s\<lparr>body_mark := None\<rparr>) \<Longrightarrow>
    \<exists>t. chars_loop d s = Some (t, length d) \<and> same_head s t \<and>
      (on_message_complete \<in> set (x_cb t) \<longrightarrow> on_message_complete \<in> set (x_cb s))"
proof (induction "length d - x_pos s" arbitrary: s)
  case 0
  then have "x_pos s = length d" by simp
  with 0 show ?case
    by (subst chars_loop.simps)
      (auto simp: no_marks_def marks_def exec_end_def data_url_def data_status_def data_header_field_def
        data_header_value_def data_body_def notify_def same_head_def split: option.splits)
next
  case (Suc n)
  let ?p = "x_pos s" and ?d = "take (Suc (x_pos s)) d"
  let ?s = "s\<lparr>body_mark := mark_at (body_mark s) (x_pos s), p_clen := p_clen s - 1\<rparr>"
  have pos: "?p < length d" using Suc.hyps(2) by linarith
  have nz: "p_clen s \<noteq> 0" using Suc.prems(2) by auto
  have clen: "unat (p_clen s - 1) = unat (p_clen s) - 1" by (rule unat_minus_one [OF nz])
  have nz1: "p_clen s - 1 \<noteq> 0" using clen Suc.hyps(2) Suc.prems(2) by (auto simp: unat_eq_0 [symmetric])
  have nm: "p_clen s \<noteq> - 1"
  proof
    assume "p_clen s = - 1"
    then have "unat (p_clen s) = 2 ^ 64 - 1" by (simp add: unsigned_minus_1_eq_mask mask_eq_exp_minus_1)
    with Suc.prems(3) show False by simp
  qed
  have "take_body ?d s = ?s" using ctx.take_body_one [of ?d s] pos nz by simp
  then have "cturn d s = Next ?s"
    using turn_body [OF Suc.prems(1) pos] nz nm nz1 by (simp add: step_body_identity_def Let_def)
  then have go: "chars_loop d s = chars_loop d (?s\<lparr>x_pos := Suc ?p\<rparr>)"
    using pos by (simp add: chars_loop_turn)
  have "\<exists>t. chars_loop d (?s\<lparr>x_pos := Suc ?p\<rparr>) = Some (t, length d) \<and> same_head (?s\<lparr>x_pos := Suc ?p\<rparr>) t \<and>
      (on_message_complete \<in> set (x_cb t) \<longrightarrow> on_message_complete \<in> set (x_cb (?s\<lparr>x_pos := Suc ?p\<rparr>)))"
    by (rule Suc.hyps(1)) (use Suc.hyps(2) Suc.prems clen pos in \<open>auto simp: no_marks_def\<close>)
  with go show ?case by (simp add: same_head_def)
qed

text \<open>The blank line, and what follows it.\<close>

definition framed :: "http_exec \<Rightarrow> string \<Rightarrow> bool" where
  "framed b body \<longleftrightarrow> p_clen b = of_nat (length body) \<or> body = [] \<and> p_clen b = - 1 \<and> p_type b = HTTP_REQUEST"

lemma blank_line:
  assumes "length (pre @ crlf @ rest) \<le> max_header_size" and "p_flags b \<subseteq> insert F_CONTENTLENGTH conn_flags"
    and "\<not> p_te b" and "p_method b \<noteq> HTTP_CONNECT" and "framed b body" and "length body < 2 ^ 32"
  shows "\<exists>s. run pre (crlf @ rest) s_header_field_start b = chars_loop (pre @ crlf @ rest) s \<and>
    x_pos s = length pre + 2 \<and> same_head b s \<and> p_clen s = p_clen b \<and> \<not> p_upgrade s \<and>
    url_mark s = url_mark b \<and> status_mark s = status_mark b \<and> header_field_mark s = header_field_mark b \<and>
    header_value_mark s = header_value_mark b \<and> body_mark s = body_mark b \<and>
    (body \<noteq> [] \<longrightarrow> p_state s = s_body_identity \<and> x_cb s = x_cb b @ [on_headers_complete]) \<and>
    (body = [] \<longrightarrow> x_cb s = x_cb b @ [on_headers_complete, on_message_complete])"
proof -
  let ?d = "pre @ crlf @ rest" and ?pre = "pre @ [CR]"
  have fl: "F_TRAILING \<notin> p_flags b" "F_UPGRADE \<notin> p_flags b" "F_CHUNKED \<notin> p_flags b" "F_SKIPBODY \<notin> p_flags b"
    using assms(2) by (auto simp: conn_flags_def)
  have len: "length (?pre @ LF # rest) \<le> max_header_size" "length body < 2 ^ 32"
    using assms(1,6) by (simp_all add: crlf_def)
  have clen: "p_clen b = 0 \<longleftrightarrow> body = [] \<and> p_clen b \<noteq> - 1" "body \<noteq> [] \<Longrightarrow> p_clen b \<noteq> - 1"
    "p_clen b = - 1 \<Longrightarrow> p_type b = HTTP_REQUEST"
  proof -
    have u: "unat (of_nat (length body) :: u64) = length body" using len(2) by (simp add: unat_of_nat)
    have m: "unat (- 1 :: u64) = 2 ^ 64 - 1" by (simp add: unsigned_minus_1_eq_mask mask_eq_exp_minus_1)
    have ne: "(of_nat (length body) :: u64) \<noteq> - 1" using u m len(2) by (auto dest: arg_cong [of _ _ unat])
    show "p_clen b = 0 \<longleftrightarrow> body = [] \<and> p_clen b \<noteq> - 1" "body \<noteq> [] \<Longrightarrow> p_clen b \<noteq> - 1"
      "p_clen b = - 1 \<Longrightarrow> p_type b = HTTP_REQUEST"
      using assms(5) u ne by (auto simp: framed_def)
  qed
  have first: "run pre (CR # LF # rest) s_header_field_start b = run ?pre (LF # rest) s_headers_almost_done b"
    by (rule run_to) (simp_all add: step_def step_header_field_start_def goto_def)
  let ?b = "b\<lparr>p_upgrade := False, x_cb := x_cb b @ [on_headers_complete]\<rparr>"
  have again: "run ?pre (LF # rest) s_headers_almost_done b = run ?pre (LF # rest) s_headers_done ?b"
    by (rule run_back; cases b) (use fl assms(3,4) in \<open>simp_all add: step_def step_headers_almost_done_def again_def notify_def mid_def Let_def\<close>)
  let ?c = "if body \<noteq> [] then (mid s_body_identity (length ?pre) ?b)\<lparr>p_nread := 0\<rparr>
    else new_message ((mid s_headers_done (length ?pre) ?b)\<lparr>p_nread := 0\<rparr>)"
  have needs: "\<not> needs_eof ((mid s_headers_done (length ?pre) ?b)\<lparr>p_nread := 0\<rparr>)" if "p_clen b = - 1"
    using clen(3) [OF that] by (simp add: needs_eof_def)
  have step: "step (?pre @ LF # rest) LF (mid s_headers_done (length ?pre) ?b) = Next ?c"
    using fl assms(3,4) clen needs by (auto simp: step_def step_headers_done_def Let_def goto_def)
  have "(?pre @ LF # rest) ! x_pos (mid s_headers_done (length ?pre) ?b) = LF" by (simp add: nth_append)
  then have "run_char (?pre @ LF # rest) (mid s_headers_done (length ?pre) ?b) = Next ?c"
    by (intro run_char_next(1)) (simp only: step)
  then have "run ?pre (LF # rest) s_headers_done ?b = chars_loop (?pre @ LF # rest) (?c\<lparr>x_pos := length ?pre + 1\<rparr>)"
    using run_turn [OF len(1), of s_headers_done ?b] len(1) plain_states [of s_headers_done]
    by (simp add: run_def chars_loop_turn new_message_def notify_def)
  with first again have "run pre (crlf @ rest) s_header_field_start b = chars_loop ?d (?c\<lparr>x_pos := length ?pre + 1\<rparr>)"
    by (simp add: crlf_def)
  then show ?thesis
    by (intro exI [of _ "?c\<lparr>x_pos := length ?pre + 1\<rparr>"]) (simp add: same_head_def new_message_def notify_def)
qed

lemma run_end:
  assumes "length (pre @ crlf @ body) \<le> max_header_size" and "p_flags b \<subseteq> insert F_CONTENTLENGTH conn_flags"
    and "\<not> p_te b" and "p_method b \<noteq> HTTP_CONNECT" and "framed b body" and "no_marks b"
  shows "\<exists>t. run pre (crlf @ body) s_header_field_start b = Some (t, length (pre @ crlf @ body)) \<and> same_head b t \<and>
    x_cb t = x_cb b @ [on_headers_complete] @ (if body = [] then [] else [on_body body]) @ [on_message_complete]"
proof -
  let ?d = "pre @ crlf @ body"
  have "length body < 2 ^ 32" using assms(1) by (simp add: max_header_size_def)
  from blank_line [OF assms(1-5) this] obtain s where s: "run pre (crlf @ body) s_header_field_start b = chars_loop ?d s"
    "x_pos s = length pre + 2" "same_head b s" "p_clen s = p_clen b" "\<not> p_upgrade s" and marks:
    "url_mark s = url_mark b" "status_mark s = status_mark b" "header_field_mark s = header_field_mark b"
    "header_value_mark s = header_value_mark b" "body_mark s = body_mark b"
    and st: "body \<noteq> [] \<longrightarrow> p_state s = s_body_identity \<and> x_cb s = x_cb b @ [on_headers_complete]"
    "body = [] \<longrightarrow> x_cb s = x_cb b @ [on_headers_complete, on_message_complete]"
    by blast
  show ?thesis
  proof (cases "body = []")
    case True
    have "chars_loop ?d s = Some (s, length ?d)"
      by (rule chars_end) (use True s(2) marks assms(6) in \<open>simp_all add: no_marks_def crlf_def\<close>)
    with True s(1,3) st show ?thesis by auto
  next
    case False
    have len: "length ?d < 2 ^ 32" using assms(1) by (simp add: max_header_size_def)
    have "unat (of_nat (length body) :: u64) = length body" using len by (simp add: unat_of_nat)
    then have clen: "unat (p_clen s) = length ?d - x_pos s" using assms(5) False s(2,4) by (simp add: framed_def crlf_def)
    have lt: "x_pos s < length ?d" using s(2) False by (simp add: crlf_def)
    have off: "no_marks (s\<lparr>body_mark := None\<rparr>)" "mark_at (body_mark s) (x_pos s) = Some (x_pos s)"
      using marks assms(6) by (simp_all add: no_marks_def mark_at_def)
    have "drop (x_pos s) ?d = body" using s(2) by (simp add: crlf_def)
    with chars_body [OF _ clen lt len s(5) off order_refl] st(1) False s(1,3) show ?thesis
      by (auto simp: same_head_def)
  qed
qed

text \<open>One character earlier the message is not complete.\<close>

lemma run_before_end:
  assumes "length (pre @ crlf @ body) \<le> max_header_size" and "p_flags b \<subseteq> insert F_CONTENTLENGTH conn_flags"
    and "\<not> p_te b" and "p_method b \<noteq> HTTP_CONNECT" and "framed b body" and "no_marks b"
    and "on_message_complete \<notin> set (x_cb b)"
  shows "\<exists>t. run pre (butlast (crlf @ body)) s_header_field_start b = Some (t, length (pre @ butlast (crlf @ body))) \<and>
    same_head b t \<and> on_message_complete \<notin> set (x_cb t)"
proof (cases "body = []")
  case True
  let ?s = "put_at s_headers_almost_done (Suc (length pre)) b"
  have "run pre [CR] s_header_field_start b = run (pre @ [CR]) [] s_headers_almost_done b"
    by (rule run_to) (simp_all add: step_def step_header_field_start_def goto_def)
  also have "\<dots> = chars_loop (pre @ [CR]) ?s" using assms(1) by (simp add: run_def crlf_def)
  also have "\<dots> = Some (?s, length (pre @ [CR]))"
    by (rule chars_end) (use assms(6) in \<open>simp_all add: no_marks_def put_at_def\<close>)
  finally show ?thesis using True assms(7) by (simp add: crlf_def put_at_def same_head_def)
next
  case False
  let ?d = "pre @ crlf @ butlast body"
  have len: "length body < 2 ^ 32" "length ?d \<le> max_header_size" using assms(1) by (simp_all add: max_header_size_def)
  from blank_line [OF len(2) assms(2-5) len(1)] obtain s where s: "run pre (crlf @ butlast body) s_header_field_start b = chars_loop ?d s"
    "x_pos s = length pre + 2" "same_head b s" "p_clen s = p_clen b" and marks:
    "url_mark s = url_mark b" "status_mark s = status_mark b" "header_field_mark s = header_field_mark b"
    "header_value_mark s = header_value_mark b" "body_mark s = body_mark b"
    and st: "p_state s = s_body_identity" "x_cb s = x_cb b @ [on_headers_complete]"
    using False by blast
  have "unat (of_nat (length body) :: u64) = length body" using len(1) by (simp add: unat_of_nat)
  then have clen: "unat (p_clen s) = length body" using assms(5) False s(4) by (simp add: framed_def)
  have "\<exists>t. chars_loop ?d s = Some (t, length ?d) \<and> same_head s t \<and>
      (on_message_complete \<in> set (x_cb t) \<longrightarrow> on_message_complete \<in> set (x_cb s))"
    by (rule chars_body_part) (use st clen len(1) s(2) marks assms(6) False in \<open>simp_all add: no_marks_def crlf_def Suc_le_eq\<close>)
  with s(1,3) st(2) assms(7) False show ?thesis by (auto simp: butlast_append same_head_def)
qed

section \<open>The header lines of a message\<close>

text \<open>All headers are ordinary ones, apart from at most one that gives the length of the body.\<close>

definition sized :: "nat option \<Rightarrow> headers \<Rightarrow> bool" where
  "sized n hs \<longleftrightarrow> filter (\<lambda>h. \<not> plain_header h) hs =
     (case n of None \<Rightarrow> [] | Some k \<Rightarrow> [(''Content-Length'', dec_str k)])"

lemma sized_None: "sized None hs \<longleftrightarrow> list_all plain_header hs"
  by (simp add: sized_def filter_empty_conv list_all_iff)

lemma sized_Some:
  assumes "sized (Some n) hs"
  obtains a b where "hs = a @ (''Content-Length'', dec_str n) # b" and "list_all plain_header a" and "list_all plain_header b"
proof -
  from assms have "filter (\<lambda>h. \<not> plain_header h) hs = (''Content-Length'', dec_str n) # []" by (simp add: sized_def)
  then obtain a d where "hs = a @ (''Content-Length'', dec_str n) # d" "\<forall>h \<in> set a. plain_header h"
    "filter (\<lambda>h. \<not> plain_header h) d = []" unfolding filter_eq_Cons_iff by auto
  then show thesis by (intro that [of a d]) (simp_all add: filter_empty_conv list_all_iff)
qed

lemma mm_insert_split: "\<exists>a b. hs = a @ b \<and> mm_insert k v hs = a @ (k, v) # b"
proof (induction k v hs rule: mm_insert.induct)
  case (2 k v k' v' hs)
  show ?case
  proof (cases "k < k'")
    case True
    then show ?thesis by (intro exI [of _ "[]"] exI [of _ "(k', v') # hs"]) simp
  next
    case False
    with 2 obtain a b where "hs = a @ b" "mm_insert k v hs = a @ (k, v) # b" by blast
    with False show ?thesis by (intro exI [of _ "(k', v') # a"] exI [of _ b]) simp
  qed
qed simp

lemma sized_insert: "sized n hs \<Longrightarrow> plain_header (k, v) \<Longrightarrow> sized n (mm_insert k v hs)"
  using mm_insert_split [of hs k v] by (auto simp: sized_def)

lemma length_not_plain: "\<not> plain_header (''Content-Length'', v)"
  by (simp add: plain_header_def plain_name_def length_name)

lemma sized_insert_length: "sized None hs \<Longrightarrow> sized (Some n) (mm_insert ''Content-Length'' (dec_str n) hs)"
  using mm_insert_split [of hs "''Content-Length''" "dec_str n"] by (auto simp: sized_def length_not_plain)

lemma run_headers:
  assumes "sized n hs" and "header_marks_off q" and "line_start c" and "F_CONTENTLENGTH \<notin> p_flags q"
    and "case n of None \<Rightarrow> True | Some k \<Rightarrow> k < 2 ^ 32"
  shows "\<exists>b'. run pre (header_lines hs @ c # r) s_header_field_start q = run (pre @ header_lines hs) (c # r) s_header_field_start b' \<and>
    near (q\<lparr>p_flags := (case n of None \<Rightarrow> p_flags q | Some k \<Rightarrow> insert F_CONTENTLENGTH (p_flags q)),
      p_clen := (case n of None \<Rightarrow> p_clen q | Some k \<Rightarrow> of_nat k), x_cb := x_cb q @ header_cbs hs\<rparr>) b'"
proof (cases n)
  case None
  have "q\<lparr>p_flags := p_flags q, p_clen := p_clen q, x_cb := x\<rparr> = q\<lparr>x_cb := x\<rparr>" for x by (cases q) simp
  with run_plain_headers [of hs q q c pre r] assms None show ?thesis by (simp add: sized_None)
next
  case (Some k)
  from assms(1) obtain a d where hs: "hs = a @ (''Content-Length'', dec_str k) # d"
    and plain: "list_all plain_header a" "list_all plain_header d" unfolding Some by (rule sized_Some)
  obtain c2 r2 where r2: "header_lines d @ c # r = c2 # r2" "line_start c2"
    using header_lines_start [OF plain(2) assms(3)] by blast
  let ?l = "(''Content-Length'', dec_str k)"
  obtain c1 r1 where r1: "header_line ?l @ c2 # r2 = c1 # r1" "line_start c1"
    by (simp add: header_line_def line_start_def)
  let ?q1 = "q\<lparr>x_cb := x_cb q @ header_cbs a\<rparr>"
  obtain b1 where b1: "run pre (header_lines a @ c1 # r1) s_header_field_start q =
      run (pre @ header_lines a) (c1 # r1) s_header_field_start b1" "near ?q1 b1"
    using run_plain_headers [OF plain(1) near_refl assms(2) r1(2)] by blast
  let ?q2 = "?q1\<lparr>p_flags := insert F_CONTENTLENGTH (p_flags ?q1), p_clen := of_nat k,
      x_cb := x_cb ?q1 @ [on_header_field ''Content-Length'', on_header_value (dec_str k)]\<rparr>"
  have off: "header_marks_off ?q1" "header_marks_off ?q2" using assms(2) by (simp_all add: header_marks_off_def)
  obtain b2 where b2: "run (pre @ header_lines a) (header_line ?l @ c2 # r2) s_header_field_start b1 =
      run ((pre @ header_lines a) @ header_line ?l) (c2 # r2) s_header_field_start b2" "near ?q2 b2"
    using run_length_header [OF refl _ b1(2) off(1) _ r2(2), of k "pre @ header_lines a" r2] assms(4,5) Some by auto
  obtain b3 where b3: "run ((pre @ header_lines a) @ header_line ?l) (header_lines d @ c # r) s_header_field_start b2 =
      run (((pre @ header_lines a) @ header_line ?l) @ header_lines d) (c # r) s_header_field_start b3"
    "near (?q2\<lparr>x_cb := x_cb ?q2 @ header_cbs d\<rparr>) b3"
    using run_plain_headers [OF plain(2) b2(2) off(2) assms(3)] by blast
  have lines: "header_lines hs = header_lines a @ header_line ?l @ header_lines d" by (simp add: hs header_lines_def)
  have cbs: "header_cbs hs = header_cbs a @ [on_header_field ''Content-Length'', on_header_value (dec_str k)] @ header_cbs d"
    by (simp add: hs header_cbs_def)
  have "?q2\<lparr>x_cb := x_cb ?q2 @ header_cbs d\<rparr> =
      q\<lparr>p_flags := insert F_CONTENTLENGTH (p_flags q), p_clen := of_nat k, x_cb := x_cb q @ header_cbs hs\<rparr>"
    by (cases q) (simp add: cbs)
  moreover have "run pre (header_lines hs @ c # r) s_header_field_start q =
      run (pre @ header_lines hs) (c # r) s_header_field_start b3"
    using b1(1) b2(1) b3(1) unfolding r1(1) [symmetric] r2(1) [symmetric] lines by simp
  ultimately show ?thesis using b3(2) by (auto simp: Some)
qed

section \<open>The status line\<close>

definition no_breaks :: "string \<Rightarrow> bool" where "no_breaks s \<longleftrightarrow> list_all (\<lambda>c. c \<noteq> CR \<and> c \<noteq> LF) s"

lemma status_text: "http_status_str n \<noteq> [] \<and> no_breaks (http_status_str n)"
proof -
  have "list_all (\<lambda>(k, t). t \<noteq> [] \<and> no_breaks t) status_map" by code_simp
  then show ?thesis
    by (auto simp: http_status_str_def list_all_iff no_breaks_def split: option.splits dest!: map_of_SomeD)
qed

lemma run_res_http [simp]:
  "run pre (CHR ''H'' # r) s_start_res b = run (pre @ ''H'') r s_res_H
    (b\<lparr>p_flags := {}, p_te := False, p_clen := - 1, x_cb := x_cb b @ [on_message_begin]\<rparr>)"
  "run pre (CHR ''T'' # r) s_res_H b = run (pre @ ''T'') r s_res_HT b"
  "run pre (CHR ''T'' # r) s_res_HT b = run (pre @ ''T'') r s_res_HTT b"
  "run pre (CHR ''P'' # r) s_res_HTT b = run (pre @ ''P'') r s_res_HTTP b"
  "run pre (CHR ''/'' # r) s_res_HTTP b = run (pre @ ''/'') r s_res_http_major b"
  "run pre (CHR ''1'' # r) s_res_http_major b = run (pre @ ''1'') r s_res_http_dot (b\<lparr>p_major := 1\<rparr>)"
  "run pre (CHR ''.'' # r) s_res_http_dot b = run (pre @ ''.'') r s_res_http_minor b"
  "run pre (CHR ''1'' # r) s_res_http_minor b = run (pre @ ''1'') r s_res_http_end (b\<lparr>p_minor := 1\<rparr>)"
  "run pre (CHR '' '' # r) s_res_http_end b = run (pre @ '' '') r s_res_first_status_code b"
  "run pre (CHR '' '' # r) s_res_status_code b = run (pre @ '' '') r s_res_status_start b"
  by (rule run_to; simp add: step_def step_defs ctl_defs is_digit_def digit_of_def chcode_def)+

lemma run_status_digits:
  "list_all is_digit s \<Longrightarrow> dec_from v s \<le> 999 \<Longrightarrow> p_status b = of_nat v \<Longrightarrow>
    run pre (s @ r) s_res_status_code b = run (pre @ s) r s_res_status_code (b\<lparr>p_status := of_nat (dec_from v s)\<rparr>)"
proof (induction s arbitrary: v b pre)
  case Nil
  then have "b\<lparr>p_status := of_nat (dec_from v [])\<rparr> = b" by (cases b) (simp add: dec_from_def)
  then show ?case by simp
next
  case (Cons c s)
  let ?v = "10 * v + (chcode c - 48)"
  have c: "is_digit c" using Cons.prems(1) by simp
  have v: "?v \<le> 999" using Cons.prems(2) dec_from_ge [of ?v s] by (simp add: dec_from_def)
  have st: "(of_nat v * 10 + of_nat (chcode c - 48) :: u16) = of_nat ?v" by (simp add: mult.commute)
  have le: "\<not> 999 < (of_nat ?v :: u16)"
    using v by (simp add: word_less_nat_alt unat_of_nat del: of_nat_add of_nat_mult)
  have "run pre (c # s @ r) s_res_status_code b = run (pre @ [c]) (s @ r) s_res_status_code (b\<lparr>p_status := of_nat ?v\<rparr>)"
    by (rule run_to) (use c Cons.prems(3) st le in \<open>simp_all add: step_def step_res_status_code_def digit_of_def Let_def
        del: of_nat_add of_nat_mult\<close>)
  also have "\<dots> = run ((pre @ [c]) @ s) r s_res_status_code (b\<lparr>p_status := of_nat ?v, p_status := of_nat (dec_from ?v s)\<rparr>)"
    by (rule Cons.IH) (use Cons.prems in \<open>simp_all add: dec_from_def\<close>)
  finally show ?case by (simp add: dec_from_def)
qed

lemma run_status_code:
  assumes "n \<le> 999"
  shows "run pre (dec_str n @ '' '' @ r) s_res_first_status_code b =
    run (pre @ dec_str n @ '' '') r s_res_status_start (b\<lparr>p_status := of_nat n\<rparr>)"
proof -
  obtain d w where d: "dec_str n = d # w" using dec_str_props(1) [of n] by (cases "dec_str n") auto
  have dig: "is_digit d" "list_all is_digit w" using dec_str_props(2) [of n] by (simp_all add: d)
  have val: "dec_from (chcode d - 48) w = n" using dec_val_dec_str [of n] by (simp add: d dec_val_def dec_from_def)
  have "run pre (d # w @ '' '' @ r) s_res_first_status_code b =
      run (pre @ [d]) (w @ '' '' @ r) s_res_status_code (b\<lparr>p_status := of_nat (chcode d - 48)\<rparr>)"
    by (rule run_to) (use dig(1) in \<open>simp_all add: step_def step_res_first_status_code_def goto_def digit_of_def\<close>)
  with run_status_digits [OF dig(2), of "chcode d - 48"] assms val show ?thesis by (simp add: d)
qed

lemma run_reason:
  assumes "t \<noteq> []" and "no_breaks t" and "status_mark b = None"
  shows "run pre (t @ crlf @ r) s_res_status_start b =
    run (pre @ t @ crlf) r s_header_field_start (b\<lparr>p_index := 0, x_cb := x_cb b @ [on_status t]\<rparr>)"
proof -
  have chars: "run pre' (s @ r') s_res_status q = run (pre' @ s) r' s_res_status q" if "no_breaks s" for s pre' r' q
    using that
  proof (induction s arbitrary: pre')
    case (Cons c s)
    have "run pre' (c # s @ r') s_res_status q = run (pre' @ [c]) (s @ r') s_res_status q"
      by (rule run_to) (use Cons.prems in \<open>simp_all add: step_def step_res_status_def no_breaks_def\<close>)
    with Cons show ?case by (simp add: no_breaks_def)
  qed simp
  obtain c s where t: "t = c # s" using assms(1) by (cases t) auto
  let ?q = "b\<lparr>p_index := 0, status_mark := Some (length pre)\<rparr>"
  let ?p = "(pre @ [c]) @ s"
  have "run pre (c # s @ crlf @ r) s_res_status_start b = run (pre @ [c]) (s @ crlf @ r) s_res_status ?q"
    by (rule run_to; cases b) (use assms(2,3) in \<open>simp_all add: t no_breaks_def step_def step_res_status_start_def mark_at_def mid_def Let_def\<close>)
  also have "\<dots> = run ?p (crlf @ r) s_res_status ?q" by (rule chars) (use assms(2) in \<open>simp add: t no_breaks_def\<close>)
  also have "crlf @ r = CR # LF # r" by (simp add: crlf_def)
  also have "run ?p (CR # LF # r) s_res_status ?q =
      run (?p @ [CR]) (LF # r) s_res_line_almost_done (b\<lparr>p_index := 0, x_cb := x_cb b @ [on_status t]\<rparr>)"
  proof (rule run_to)
    have "slice (pre @ t @ [CR] @ [LF] @ r) (length pre) (length pre + length t) = t" by simp
    then have "data_status (?p @ CR # LF # r) (length ?p) ?q = b\<lparr>p_index := 0, x_cb := x_cb b @ [on_status t]\<rparr>"
      using assms(3) by (cases b) (simp add: data_status_def notify_def t)
    then show "step (?p @ CR # LF # r) CR (mid s_res_status (length ?p) ?q) =
        Next (mid s_res_line_almost_done (length ?p) (b\<lparr>p_index := 0, x_cb := x_cb b @ [on_status t]\<rparr>))"
      by (simp add: step_def step_res_status_def)
  qed simp_all
  also have "\<dots> = run ((?p @ [CR]) @ [LF]) r s_header_field_start (b\<lparr>p_index := 0, x_cb := x_cb b @ [on_status t]\<rparr>)"
    by (rule run_to) (simp_all add: step_def expect_def goto_def)
  finally show ?thesis by (simp add: t crlf_def)
qed

section \<open>Whole messages\<close>

lemma exec_start_new:
  "exec_start (http_parser_init t) = put_at (p_state (http_parser_init t)) 0 (exec_start (http_parser_init t))"
  by (simp add: put_at_def exec_start_def http_parser.defs http_parser_init_def)

lemma execute_run:
  assumes "run [] d (p_state (http_parser_init t)) (exec_start (http_parser_init t)) = Some (s, length d)"
    and "d \<noteq> []" and "length d \<le> max_header_size" and "p_errno s = HPE_OK"
  shows "http_parser_execute (http_parser_init t) d = Some (http_parser.truncate s, x_cb s, length d)"
proof -
  have "chars_loop d (exec_start (http_parser_init t)) = Some (s, length d)"
    using assms(1,3) by (subst exec_start_new) (simp add: run_def)
  moreover have "exec_wf 0 (exec_start (http_parser_init t))"
    using reach_wf [OF parser_reach.fresh [of t]] by (simp add: exec_start_wf http_parser_init_def)
  ultimately have "exec_loop d (exec_start (http_parser_init t)) = Some (s, length d)"
    using exec_loop_chars [of "exec_start (http_parser_init t)" d] assms(3,4) res_eq_ok(1) by metis
  then show ?thesis using assms(2) by (simp add: http_parser_execute_def http_parser_init_def)
qed

definition body_cbs :: "string \<Rightarrow> http_cb list" where
  "body_cbs body = [on_headers_complete] @ (if body = [] then [] else [on_body body]) @ [on_message_complete]"

text \<open>The header lines, from a parser that has read the first line; \<open>ready\<close> is the state before the blank line.\<close>

definition ready :: "http_exec \<Rightarrow> string \<Rightarrow> bool" where
  "ready b body \<longleftrightarrow> p_flags b \<subseteq> insert F_CONTENTLENGTH conn_flags \<and> \<not> p_te b \<and> p_method b \<noteq> HTTP_CONNECT \<and>
     framed b body \<and> no_marks b"

definition first_line_read :: "http_exec \<Rightarrow> nat option \<Rightarrow> string \<Rightarrow> bool" where
  "first_line_read q n body \<longleftrightarrow> no_marks q \<and> p_flags q = {} \<and> \<not> p_te q \<and> p_method q \<noteq> HTTP_CONNECT \<and> p_clen q = - 1 \<and>
     (case n of None \<Rightarrow> body = [] \<and> p_type q = HTTP_REQUEST | Some k \<Rightarrow> k = length body)"

lemma run_lines:
  assumes "sized n hs" and "first_line_read q n body" and "length body < 2 ^ 32"
  shows "\<exists>b. run pre (header_lines hs @ CR # r) s_header_field_start q = run (pre @ header_lines hs) (CR # r) s_header_field_start b \<and>
    ready b body \<and> same_head q b \<and> x_cb b = x_cb q @ header_cbs hs"
proof -
  note q = assms(2) [unfolded first_line_read_def]
  have off: "header_marks_off q" using q by (simp add: no_marks_def header_marks_off_def)
  have n: "case n of None \<Rightarrow> True | Some k \<Rightarrow> k < 2 ^ 32" using assms(3) q by (auto split: option.splits)
  have ls: "line_start CR" by (simp add: line_start_def)
  let ?q = "q\<lparr>p_flags := (case n of None \<Rightarrow> p_flags q | Some k \<Rightarrow> insert F_CONTENTLENGTH (p_flags q)),
      p_clen := (case n of None \<Rightarrow> p_clen q | Some k \<Rightarrow> of_nat k), x_cb := x_cb q @ header_cbs hs\<rparr>"
  have nf: "F_CONTENTLENGTH \<notin> p_flags q" using q by simp
  obtain b where b: "run pre (header_lines hs @ CR # r) s_header_field_start q =
      run (pre @ header_lines hs) (CR # r) s_header_field_start b" "near ?q b"
    using run_headers [OF assms(1) off ls nf n] by blast
  note sel = near_select [OF b(2)]
  obtain F j g where F: "b = ?q\<lparr>p_flags := F, p_hstate := g, p_index := j\<rparr>" "F \<subseteq> p_flags ?q \<union> conn_flags"
    using b(2) by (auto simp: near_def)
  have "p_flags b \<subseteq> insert F_CONTENTLENGTH conn_flags" using F q by (auto split: option.splits)
  moreover have "framed b body" using q sel by (auto simp: framed_def split: option.splits)
  ultimately show ?thesis using b(1) q sel by (auto simp: ready_def no_marks_def same_head_def)
qed

text \<open>The header lines, the blank line and the body.\<close>

lemma run_after_line:
  assumes "length (pre @ header_lines hs @ crlf @ body) \<le> max_header_size" and "sized n hs" and "first_line_read q n body"
  shows "\<exists>t. run pre (header_lines hs @ crlf @ body) s_header_field_start q =
      Some (t, length (pre @ header_lines hs @ crlf @ body)) \<and> same_head q t \<and>
    x_cb t = x_cb q @ header_cbs hs @ body_cbs body"
proof -
  have len: "length body < 2 ^ 32" using assms(1) by (simp add: max_header_size_def)
  obtain b where b: "run pre (header_lines hs @ CR # LF # body) s_header_field_start q =
      run (pre @ header_lines hs) (CR # LF # body) s_header_field_start b" "ready b body" "same_head q b"
    "x_cb b = x_cb q @ header_cbs hs" using run_lines [OF assms(2,3) len] by blast
  obtain t where t: "run (pre @ header_lines hs) (crlf @ body) s_header_field_start b =
      Some (t, length ((pre @ header_lines hs) @ crlf @ body))" "same_head b t"
    "x_cb t = x_cb b @ [on_headers_complete] @ (if body = [] then [] else [on_body body]) @ [on_message_complete]"
    using run_end [of "pre @ header_lines hs" body b] assms(1) b(2) by (auto simp: ready_def)
  have "same_head q t" using t(2) b(3) by (simp add: same_head_def)
  with t b(1,4) show ?thesis by (auto simp: crlf_def body_cbs_def)
qed

lemma run_after_line_part:
  assumes "length (pre @ header_lines hs @ crlf @ body) \<le> max_header_size" and "sized n hs" and "first_line_read q n body"
    and "on_message_complete \<notin> set (x_cb q)"
  shows "\<exists>t. run pre (header_lines hs @ butlast (crlf @ body)) s_header_field_start q =
      Some (t, length (pre @ header_lines hs @ butlast (crlf @ body))) \<and> same_head q t \<and> on_message_complete \<notin> set (x_cb t)"
proof -
  have len: "length body < 2 ^ 32" using assms(1) by (simp add: max_header_size_def)
  obtain r where r: "butlast (crlf @ body) = CR # r" by (simp add: crlf_def)
  obtain b where b: "run pre (header_lines hs @ CR # r) s_header_field_start q =
      run (pre @ header_lines hs) (CR # r) s_header_field_start b" "ready b body" "same_head q b"
    "x_cb b = x_cb q @ header_cbs hs" using run_lines [OF assms(2,3) len] by blast
  have "on_message_complete \<notin> set (x_cb b)" using b(4) assms(4) by (auto simp: header_cbs_def)
  then obtain t where t: "run (pre @ header_lines hs) (butlast (crlf @ body)) s_header_field_start b =
      Some (t, length ((pre @ header_lines hs) @ butlast (crlf @ body)))" "same_head b t" "on_message_complete \<notin> set (x_cb t)"
    using run_before_end [of "pre @ header_lines hs" body b] assms(1) b(2) by (auto simp: ready_def)
  have "same_head q t" using t(2) b(3) by (simp add: same_head_def)
  with t b(1) show ?thesis by (auto simp: r)
qed

definition request_text :: "http_method \<Rightarrow> string \<Rightarrow> headers \<Rightarrow> string \<Rightarrow> string" where
  "request_text m u hs body = method_str m @ '' '' @ u @ '' HTTP/1.1'' @ crlf @ header_lines hs @ crlf @ body"

definition response_text :: "nat \<Rightarrow> headers \<Rightarrow> string \<Rightarrow> string" where
  "response_text n hs body =
     ''HTTP/1.1 '' @ dec_str n @ '' '' @ http_status_str n @ crlf @ header_lines hs @ crlf @ body"

text \<open>The request line, from a new parser.\<close>

definition request_line :: "http_method \<Rightarrow> string \<Rightarrow> string" where
  "request_line m u = ((method_str m @ '' '') @ u @ '' '') @ ''HTTP/1.1'' @ crlf"

lemma request_text_line: "request_text m u hs body = request_line m u @ header_lines hs @ crlf @ body"
  by (simp add: request_text_def request_line_def)

lemma run_request_line:
  assumes "m \<noteq> HTTP_MSEARCH" and "m \<noteq> HTTP_CONNECT" and "url_read m u"
    and "case n of None \<Rightarrow> body = [] | Some k \<Rightarrow> k = length body"
  shows "\<exists>q. run [] (request_line m u @ L) (p_state (http_parser_init HTTP_REQUEST)) (exec_start (http_parser_init HTTP_REQUEST)) =
      run (request_line m u) L s_header_field_start q \<and> first_line_read q n body \<and>
    p_errno q = HPE_OK \<and> p_method q = m \<and> x_cb q = [on_message_begin, on_url u]"
proof -
  let ?b = "exec_start (http_parser_init HTTP_REQUEST)"
  have new: "no_marks ?b" "p_errno ?b = HPE_OK" "p_type ?b = HTTP_REQUEST" "x_cb ?b = []"
    "p_state (http_parser_init HTTP_REQUEST) = s_start_req"
    by (simp_all add: exec_start_def http_parser.defs http_parser_init_def no_marks_def url_states_def)
  from assms(1) have "method_read m" by (simp add: method_read_all)
  then obtain i where i: "method_run (method_str m) = Some (m, i)" "i = length (method_str m)"
    by (auto simp: method_read_def split: option.splits prod.splits)
  let ?b1 = "?b\<lparr>p_flags := {}, p_te := False, p_clen := - 1, x_cb := x_cb ?b @ [on_message_begin],
      p_method := m, p_index := (i + 1) mod 32\<rparr>"
  let ?b2 = "?b1\<lparr>x_cb := x_cb ?b1 @ [on_url u]\<rparr>"
  let ?q = "?b2\<lparr>p_major := 1, p_minor := 1\<rparr>"
  let ?p1 = "method_str m @ '' ''"
  have "run [] (request_line m u @ L) s_start_req ?b =
      run ?p1 (u @ '' '' @ ''HTTP/1.1'' @ crlf @ L) s_req_spaces_before_url ?b1"
    using run_method [OF i(1), of "[]" "u @ '' '' @ ''HTTP/1.1'' @ crlf @ L" ?b] i(2)
    by (simp add: request_line_def lit_at_def)
  also have "\<dots> = run (?p1 @ u @ '' '') (''HTTP/1.1'' @ crlf @ L) s_req_http_start ?b2"
    by (rule run_url) (use assms(3) new(1) in \<open>simp_all add: no_marks_def\<close>)
  also have "\<dots> = run ((?p1 @ u @ '' '') @ ''HTTP/1.1'' @ crlf) L s_header_field_start ?q" by (rule run_http_line)
  finally have "run [] (request_line m u @ L) s_start_req ?b = run (request_line m u) L s_header_field_start ?q"
    by (simp only: request_line_def)
  moreover have "first_line_read ?q n body"
    using new assms(2,4) by (cases n) (simp_all add: first_line_read_def no_marks_def)
  ultimately show ?thesis using new by (intro exI [of _ ?q]) simp
qed

lemma execute_request:
  assumes "m \<noteq> HTTP_MSEARCH" and "m \<noteq> HTTP_CONNECT" and "url_read m u" and "sized n hs"
    and "case n of None \<Rightarrow> body = [] | Some k \<Rightarrow> k = length body"
    and "length (request_text m u hs body) \<le> max_header_size"
  shows "\<exists>p. http_parser_execute (http_parser_init HTTP_REQUEST) (request_text m u hs body) =
      Some (p, on_message_begin # on_url u # header_cbs hs @ body_cbs body, length (request_text m u hs body)) \<and>
    p_errno p = HPE_OK \<and> p_method p = m"
proof -
  obtain q where q: "run [] (request_text m u hs body) (p_state (http_parser_init HTTP_REQUEST)) (exec_start (http_parser_init HTTP_REQUEST)) =
      run (request_line m u) (header_lines hs @ crlf @ body) s_header_field_start q" "first_line_read q n body"
    "p_errno q = HPE_OK" "p_method q = m" "x_cb q = [on_message_begin, on_url u]"
    using run_request_line [OF assms(1-3,5)] unfolding request_text_line by blast
  obtain t where t: "run (request_line m u) (header_lines hs @ crlf @ body) s_header_field_start q =
      Some (t, length (request_text m u hs body))" "same_head q t" "x_cb t = x_cb q @ header_cbs hs @ body_cbs body"
    using run_after_line [OF _ assms(4) q(2), of "request_line m u"] assms(6) unfolding request_text_line by auto
  have ok: "p_errno t = HPE_OK" "p_method t = m" using t(2) q(3,4) by (simp_all add: same_head_def)
  have "http_parser_execute (http_parser_init HTTP_REQUEST) (request_text m u hs body) =
      Some (http_parser.truncate t, x_cb t, length (request_text m u hs body))"
    by (rule execute_run) (use t(1) q(1) assms(6) ok(1) in \<open>simp_all add: request_text_def\<close>)
  with t(3) q(5) ok show ?thesis by (auto simp: http_parser.defs)
qed

lemma execute_request_part:
  assumes "m \<noteq> HTTP_MSEARCH" and "m \<noteq> HTTP_CONNECT" and "url_read m u" and "sized n hs"
    and "case n of None \<Rightarrow> body = [] | Some k \<Rightarrow> k = length body"
    and "length (request_text m u hs body) \<le> max_header_size"
  shows "\<exists>p cbs. http_parser_execute (http_parser_init HTTP_REQUEST) (butlast (request_text m u hs body)) =
      Some (p, cbs, length (butlast (request_text m u hs body))) \<and> p_errno p = HPE_OK \<and> on_message_complete \<notin> set cbs"
proof -
  have cut: "butlast (request_text m u hs body) = request_line m u @ header_lines hs @ butlast (crlf @ body)"
    unfolding request_text_line by (simp add: butlast_append crlf_def)
  obtain q where q: "run [] (butlast (request_text m u hs body)) (p_state (http_parser_init HTTP_REQUEST)) (exec_start (http_parser_init HTTP_REQUEST)) =
      run (request_line m u) (header_lines hs @ butlast (crlf @ body)) s_header_field_start q" "first_line_read q n body"
    "p_errno q = HPE_OK" "x_cb q = [on_message_begin, on_url u]"
    using run_request_line [OF assms(1-3,5)] unfolding cut by blast
  obtain t where t: "run (request_line m u) (header_lines hs @ butlast (crlf @ body)) s_header_field_start q =
      Some (t, length (butlast (request_text m u hs body)))" "same_head q t" "on_message_complete \<notin> set (x_cb t)"
    using run_after_line_part [OF _ assms(4) q(2), of "request_line m u"] q(4) assms(6)
    unfolding cut unfolding request_text_line length_append by fastforce
  have ok: "p_errno t = HPE_OK" using t(2) q(3) by (simp add: same_head_def)
  have "http_parser_execute (http_parser_init HTTP_REQUEST) (butlast (request_text m u hs body)) =
      Some (http_parser.truncate t, x_cb t, length (butlast (request_text m u hs body)))"
  proof (rule execute_run [OF _ _ _ ok])
    show "butlast (request_text m u hs body) \<noteq> []" by (simp add: cut request_line_def)
  qed (use t(1) q(1) assms(6) in simp_all)
  with t(3) ok show ?thesis by (auto simp: http_parser.defs)
qed

text \<open>The status line, from a new parser.\<close>

definition status_line :: "nat \<Rightarrow> string" where
  "status_line k = (''HTTP/1.1 '' @ dec_str k @ '' '') @ http_status_str k @ crlf"

lemma response_text_line: "response_text k hs body = status_line k @ header_lines hs @ crlf @ body"
  by (simp add: response_text_def status_line_def)

lemma run_status_line:
  assumes "k \<le> 999"
  shows "\<exists>q. run [] (status_line k @ L) (p_state (http_parser_init HTTP_RESPONSE)) (exec_start (http_parser_init HTTP_RESPONSE)) =
      run (status_line k) L s_header_field_start q \<and> first_line_read q (Some (length body)) body \<and>
    p_errno q = HPE_OK \<and> p_status q = of_nat k \<and> x_cb q = [on_message_begin, on_status (http_status_str k)]"
proof -
  let ?b = "exec_start (http_parser_init HTTP_RESPONSE)" and ?t = "http_status_str k"
  have new: "no_marks ?b" "p_errno ?b = HPE_OK" "p_method ?b = HTTP_DELETE" "x_cb ?b = []"
    "p_state (http_parser_init HTTP_RESPONSE) = s_start_res"
    by (simp_all add: exec_start_def http_parser.defs http_parser_init_def no_marks_def url_states_def)
  let ?b1 = "?b\<lparr>p_flags := {}, p_te := False, p_clen := - 1, x_cb := x_cb ?b @ [on_message_begin], p_major := 1, p_minor := 1\<rparr>"
  let ?b2 = "?b1\<lparr>p_status := of_nat k\<rparr>"
  let ?q = "?b2\<lparr>p_index := 0, x_cb := x_cb ?b2 @ [on_status ?t]\<rparr>"
  let ?p1 = "''HTTP/1.1 ''"
  have "run [] (status_line k @ L) s_start_res ?b = run ?p1 (dec_str k @ '' '' @ ?t @ crlf @ L) s_res_first_status_code ?b1"
    by (simp add: status_line_def)
  also have "\<dots> = run (?p1 @ dec_str k @ '' '') (?t @ crlf @ L) s_res_status_start ?b2"
    by (rule run_status_code [OF assms(1)])
  also have "\<dots> = run ((?p1 @ dec_str k @ '' '') @ ?t @ crlf) L s_header_field_start ?q"
    by (rule run_reason) (use status_text new(1) in \<open>simp_all add: no_marks_def\<close>)
  finally have "run [] (status_line k @ L) s_start_res ?b = run (status_line k) L s_header_field_start ?q"
    by (simp add: status_line_def)
  with new show ?thesis
    by (intro exI [of _ ?q]) (simp add: first_line_read_def no_marks_def)
qed

lemma execute_response:
  assumes "k \<le> 999" and "sized (Some (length body)) hs" and "length (response_text k hs body) \<le> max_header_size"
  shows "\<exists>p. http_parser_execute (http_parser_init HTTP_RESPONSE) (response_text k hs body) =
      Some (p, on_message_begin # on_status (http_status_str k) # header_cbs hs @ body_cbs body,
        length (response_text k hs body)) \<and>
    p_errno p = HPE_OK \<and> p_status p = of_nat k"
proof -
  note cut = response_text_line
  obtain q where q: "run [] (response_text k hs body) (p_state (http_parser_init HTTP_RESPONSE)) (exec_start (http_parser_init HTTP_RESPONSE)) =
      run (status_line k) (header_lines hs @ crlf @ body) s_header_field_start q" "first_line_read q (Some (length body)) body"
    "p_errno q = HPE_OK" "p_status q = of_nat k" "x_cb q = [on_message_begin, on_status (http_status_str k)]"
    using run_status_line [OF assms(1)] unfolding cut by blast
  obtain t where t: "run (status_line k) (header_lines hs @ crlf @ body) s_header_field_start q =
      Some (t, length (response_text k hs body))" "same_head q t" "x_cb t = x_cb q @ header_cbs hs @ body_cbs body"
    using run_after_line [OF _ assms(2) q(2), of "status_line k"] assms(3) unfolding cut by auto
  have ok: "p_errno t = HPE_OK" "p_status t = of_nat k" using t(2) q(3,4) by (simp_all add: same_head_def)
  have "http_parser_execute (http_parser_init HTTP_RESPONSE) (response_text k hs body) =
      Some (http_parser.truncate t, x_cb t, length (response_text k hs body))"
    by (rule execute_run) (use t(1) q(1) assms(3) ok(1) in \<open>simp_all add: response_text_def\<close>)
  with t(3) q(5) ok show ?thesis by (auto simp: http_parser.defs)
qed

lemma execute_response_part:
  assumes "k \<le> 999" and "sized (Some (length body)) hs" and "length (response_text k hs body) \<le> max_header_size"
  shows "\<exists>p cbs. http_parser_execute (http_parser_init HTTP_RESPONSE) (butlast (response_text k hs body)) =
      Some (p, cbs, length (butlast (response_text k hs body))) \<and> p_errno p = HPE_OK \<and> on_message_complete \<notin> set cbs"
proof -
  have cut: "butlast (response_text k hs body) = status_line k @ header_lines hs @ butlast (crlf @ body)"
    unfolding response_text_line by (simp add: butlast_append crlf_def)
  obtain q where q: "run [] (butlast (response_text k hs body)) (p_state (http_parser_init HTTP_RESPONSE)) (exec_start (http_parser_init HTTP_RESPONSE)) =
      run (status_line k) (header_lines hs @ butlast (crlf @ body)) s_header_field_start q" "first_line_read q (Some (length body)) body"
    "p_errno q = HPE_OK" "x_cb q = [on_message_begin, on_status (http_status_str k)]"
    using run_status_line [OF assms(1)] unfolding cut by blast
  obtain t where t: "run (status_line k) (header_lines hs @ butlast (crlf @ body)) s_header_field_start q =
      Some (t, length (butlast (response_text k hs body)))" "same_head q t" "on_message_complete \<notin> set (x_cb t)"
    using run_after_line_part [OF _ assms(2) q(2), of "status_line k"] q(4) assms(3)
    unfolding cut unfolding response_text_line length_append by fastforce
  have ok: "p_errno t = HPE_OK" using t(2) q(3) by (simp add: same_head_def)
  have "http_parser_execute (http_parser_init HTTP_RESPONSE) (butlast (response_text k hs body)) =
      Some (http_parser.truncate t, x_cb t, length (butlast (response_text k hs body)))"
    by (rule execute_run) (use t(1) q(1) assms(3) ok in \<open>simp_all add: cut status_line_def response_text_line\<close>)
  with t(3) ok show ?thesis by (auto simp: http_parser.defs)
qed

section \<open>What the callbacks collect\<close>

lemma header_cbs_keep:
  "c_url (fold http_callback (header_cbs hs) c) = c_url c" "c_status (fold http_callback (header_cbs hs) c) = c_status c"
  "c_body (fold http_callback (header_cbs hs) c) = c_body c" "fRecv (fold http_callback (header_cbs hs) c) = fRecv c"
  by (induction hs arbitrary: c) (simp_all add: header_cbs_def ctx_on_header_field_def Let_def split_beta)

lemma body_cbs_effect:
  "c_headers (fold http_callback (body_cbs body) c) = c_headers (http_callback on_headers_complete c)"
  "c_url (fold http_callback (body_cbs body) c) = c_url c" "c_status (fold http_callback (body_cbs body) c) = c_status c"
  "c_body (fold http_callback (body_cbs body) c) = c_body c @ body" "\<not> fRecv (fold http_callback (body_cbs body) c)"
  by (simp_all add: body_cbs_def)

lemma parsed_message:
  assumes "http_parser_execute (c_parser (new_ctx t)) d = Some (p, start @ header_cbs hs @ body_cbs body, length d)"
    and "hs \<noteq> []" and "list_all (\<lambda>h. fst h \<noteq> []) hs" and "sorted (map fst hs)"
    and "c = fold http_callback start (new_ctx t)" and "last_is_val c" and "header_field c = []"
    and "c_headers c = []" and "header_val c = []" and "c_body c = []"
  shows "\<exists>e. parserAppend d (new_ctx t) = Some (0, e) \<and> c_parser e = p \<and> c_url e = c_url c \<and> c_status e = c_status c \<and>
    c_headers e = hs \<and> c_body e = body"
proof -
  let ?e = "fold http_callback (body_cbs body) (fold http_callback (header_cbs hs) c)"
  have "c_headers ?e = c_headers (fold http_callback (header_cbs hs @ [on_headers_complete]) c)"
    by (simp add: body_cbs_effect)
  also have "\<dots> = sort_key fst hs" by (rule headers_collect [OF assms(2,3,6-9)])
  also have "\<dots> = hs" by (rule sort_key_id_if_sorted [OF assms(4)])
  finally have "c_headers ?e = hs" .
  then show ?thesis
    using assms(1,10) by (auto simp: parserAppend_def ctx_execute_def Let_def assms(5) [symmetric] header_cbs_keep body_cbs_effect)
qed

section \<open>Formatted messages\<close>

definition plain_headers :: "http_ctx \<Rightarrow> bool" where
  "plain_headers c \<longleftrightarrow> list_all plain_header (c_headers c)"

lemma dec_str_crlf: "\<not> hasCrlf (dec_str n)"
  using dec_str_props(2) [of n] by (auto simp: hasCrlf_def list_ex_iff list_all_iff is_digit_def chcode_def)

lemma sized_set: "sized n (c_headers c) \<Longrightarrow> plain_header (k, v) \<Longrightarrow> sized n (c_headers (setHeader k v c))"
  by (simp add: setHeader_def sized_insert)

lemma sized_del: "sized None (c_headers c) \<Longrightarrow> sized None (c_headers (delHeader k c))"
  by (auto simp: delHeader_def mm_erase_def sized_None list_all_iff)

lemma sized_length:
  "sized None (c_headers c) \<Longrightarrow> sized (Some n) (c_headers (setHeader ''Content-Length'' (dec_str n) c))"
  using sized_insert_length [of "c_headers c" n] dec_str_crlf [of n] by (simp add: setHeader_def hasCrlf_def)

lemma own_headers:
  "plain_header (''Content-Type'', ''text/plain'')" "plain_header (''Host'', [])" "plain_header (''Connection'', ''close'')"
  by code_simp+

lemma header_body [simp]:
  "c_body (setHeader k v c) = c_body c" "c_body (delHeader k c) = c_body c" "c_url (setHeader k v c) = c_url c"
  "c_url (delHeader k c) = c_url c" "c_parser (setHeader k v c) = c_parser c" "c_parser (delHeader k c) = c_parser c"
  by (simp_all add: setHeader_def delHeader_def)

lemma format_headers:
  assumes "sized n (c_headers c)"
  shows "sized n (c_headers (snd (formatHeader c)))" and "c_headers (snd (formatHeader c)) \<noteq> []"
    and "fst (formatHeader c) = header_lines (c_headers (snd (formatHeader c))) @ crlf"
    and "c_body (snd (formatHeader c)) = c_body c" and "c_url (snd (formatHeader c)) = c_url c"
    and "c_parser (snd (formatHeader c)) = c_parser c"
proof -
  have "c_headers (setHeader ''Connection'' ''close'' c) \<noteq> []"
    using mm_insert_split [of "c_headers c" "''Connection''" "''close''"] by (auto simp: setHeader_def hasCrlf_def)
  moreover have "hasHeader k c \<Longrightarrow> c_headers c \<noteq> []" for k by (auto simp: hasHeader_def mm_find_def)
  ultimately show "c_headers (snd (formatHeader c)) \<noteq> []" by (auto simp: formatHeader_def Let_def)
  show "sized n (c_headers (snd (formatHeader c)))"
    using assms sized_set [OF assms own_headers(3)] by (simp add: formatHeader_def Let_def)
qed (simp_all add: formatHeader_def Let_def header_lines_def)

lemma sized_names: "sized n hs \<Longrightarrow> list_all (\<lambda>h. fst h \<noteq> []) hs"
proof -
  assume s: "sized n hs"
  have "fst h \<noteq> []" if "h \<in> set hs" for h
  proof (cases "plain_header h")
    case False
    with that have "h \<in> set (filter (\<lambda>h. \<not> plain_header h) hs)" by simp
    with s show ?thesis by (auto simp: sized_def split: option.splits)
  qed (simp add: plain_header_def plain_name_def)
  then show ?thesis by (simp add: list_all_iff)
qed

lemma headers_sorted: "headers_ok c \<Longrightarrow> sorted (map fst (c_headers c))"
  by (simp add: headers_ok_def)

lemma request_sized:
  assumes "plain_headers c"
  shows "\<exists>n. sized n (c_headers (request_headers c)) \<and>
    (case n of None \<Rightarrow> c_body c = [] | Some k \<Rightarrow> k = length (c_body c))"
proof -
  let ?c1 = "if p_method (c_parser c) = HTTP_POST \<and> \<not> hasHeader ''Content-Type'' c
      then setHeader ''Content-Type'' ''text/plain'' c else c"
  let ?c2 = "if hasHeader ''Host'' ?c1 then ?c1 else setHeader ''Host'' [] ?c1"
  have "sized None (c_headers c)" using assms by (simp add: sized_None plain_headers_def)
  then have s1: "sized None (c_headers ?c1)" using sized_set [OF _ own_headers(1)] by simp
  then have s2: "sized None (c_headers ?c2)" using sized_set [OF _ own_headers(2)] by simp
  obtain d where d: "d = ?c2" by blast
  have same: "c_body d = c_body c" "c_parser d = c_parser c" by (simp_all add: d)
  have req: "request_headers c = (if p_method (c_parser d) = HTTP_POST \<or> c_body d \<noteq> []
      then updateHeader ''Content-Length'' (dec_str (length (c_body d))) d else d)"
    by (simp only: request_headers_def Let_def d)
  have "sized (Some (length (c_body c))) (c_headers (updateHeader ''Content-Length'' (dec_str (length (c_body d))) d))"
    using sized_length [OF sized_del] s2 d same(1) by (simp add: updateHeader_def)
  with s2 d req same show ?thesis
    by (cases "p_method (c_parser d) = HTTP_POST \<or> c_body d \<noteq> []")
      (auto intro: exI [of _ None] exI [of _ "Some (length (c_body c))"])
qed

lemma request_keeps:
  "c_body (request_headers c) = c_body c" "c_url (request_headers c) = c_url c" "c_parser (request_headers c) = c_parser c"
  by (simp_all add: request_headers_def updateHeader_def Let_def)

lemma request_format_text:
  assumes "plain_headers c" and "request_format c = (msg, c')"
  shows "msg = request_text (p_method (c_parser c)) (c_url c) (c_headers c') (c_body c)" and "c_headers c' \<noteq> []"
    and "\<exists>n. sized n (c_headers c') \<and> (case n of None \<Rightarrow> c_body c = [] | Some k \<Rightarrow> k = length (c_body c))"
    and "headers_ok c \<Longrightarrow> headers_ok c'"
proof -
  from request_sized [OF assms(1)] obtain n where n: "sized n (c_headers (request_headers c))"
    "case n of None \<Rightarrow> c_body c = [] | Some k \<Rightarrow> k = length (c_body c)" by blast
  note f = format_headers [OF n(1)]
  have c': "c' = snd (formatHeader (request_headers c))"
    using assms(2) by (auto simp: request_format_def split: prod.splits)
  have "msg = method_str (p_method (c_parser c)) @ '' '' @ c_url c @ '' HTTP/1.1'' @ crlf @
      fst (formatHeader (request_headers c)) @ c_body c'"
    using assms(2) by (auto simp: request_format_def split: prod.splits)
  with f(3,4) show "msg = request_text (p_method (c_parser c)) (c_url c) (c_headers c') (c_body c)"
    by (simp add: c' request_text_def request_keeps)
  show "c_headers c' \<noteq> []" using f(2) by (simp add: c')
  show "\<exists>n. sized n (c_headers c') \<and> (case n of None \<Rightarrow> c_body c = [] | Some k \<Rightarrow> k = length (c_body c))"
    using f(1) n(2) by (auto simp: c')
  show "headers_ok c'" if "headers_ok c"
    using headers_ok_format(1) [OF headers_ok_format(3) [OF that]] by (simp add: c')
qed

lemma request_parsed:
  assumes "p_method (c_parser c) \<notin> {HTTP_MSEARCH, HTTP_CONNECT}" and "url_read (p_method (c_parser c)) (c_url c)"
    and "headers_ok c" and "plain_headers c" and "request_format c = (msg, c')" and "length msg \<le> max_header_size"
  shows "\<exists>e. parserAppend msg (new_ctx HTTP_REQUEST) = Some (0, e) \<and> p_errno (c_parser e) = HPE_OK \<and>
    p_method (c_parser e) = p_method (c_parser c) \<and> c_url e = c_url c \<and> c_headers e = c_headers c' \<and> c_body e = c_body c"
proof -
  let ?u = "c_url c"
  note f = request_format_text [OF assms(4,5)]
  obtain n where n: "sized n (c_headers c')" "case n of None \<Rightarrow> c_body c = [] | Some k \<Rightarrow> k = length (c_body c)"
    using f(3) by blast
  have m: "p_method (c_parser c) \<noteq> HTTP_MSEARCH" "p_method (c_parser c) \<noteq> HTTP_CONNECT" using assms(1) by simp_all
  obtain p where p: "http_parser_execute (http_parser_init HTTP_REQUEST) msg = Some (p,
      [on_message_begin, on_url ?u] @ header_cbs (c_headers c') @ body_cbs (c_body c), length msg)"
    "p_errno p = HPE_OK" "p_method p = p_method (c_parser c)"
    using execute_request [OF m assms(2) n] assms(6) unfolding f(1) by auto
  obtain b where b: "b = fold http_callback [on_message_begin, on_url ?u] (new_ctx HTTP_REQUEST)" by blast
  have new: "last_is_val b" "header_field b = []" "c_headers b = []" "header_val b = []" "c_body b = []" "c_url b = ?u"
    "c_parser (new_ctx HTTP_REQUEST) = http_parser_init HTTP_REQUEST"
    by (simp_all add: b new_ctx_def ctx_init_def ctx_clear_def)
  from parsed_message [of HTTP_REQUEST msg p "[on_message_begin, on_url ?u]" "c_headers c'" "c_body c" b]
    p(1) f(2) sized_names [OF n(1)] headers_sorted [OF f(4) [OF assms(3)]] new b
  obtain e where "parserAppend msg (new_ctx HTTP_REQUEST) = Some (0, e)" "c_parser e = p" "c_url e = ?u"
    "c_headers e = c_headers c'" "c_body e = c_body c" by auto
  with p(2,3) show ?thesis by auto
qed

text \<open>However the message arrives in pieces, the result is that of the whole.\<close>

lemma parsed_in_pieces:
  assumes "parserAppend (concat ds) (new_ctx t) = Some (0, e)" and "p_errno (c_parser e) = HPE_OK"
    and "list_all (\<lambda>d. d \<noteq> []) ds" and "concat ds \<noteq> []" and "length (concat ds) \<le> max_header_size"
  shows "append_all ds (new_ctx t) = Some (0, e)"
proof -
  have "parser_wf 0 (c_parser (new_ctx t))"
    using reach_wf [OF parser_reach.fresh [of t]] by (simp add: new_ctx_def ctx_init_def ctx_clear_def http_parser_init_def)
  then show ?thesis by (rule parserAppend_chunks) (use assms in auto)
qed

text \<open>
  C5: A request that \<open>format\<close> writes is read back by a new parser as it was, however it is cut on its way:
  method, URL, the headers the request ended up with in their order, and the body, all of it consumed
  and the message complete.  For any method but \<open>CONNECT\<close> and \<open>M-SEARCH\<close>, a URL the parser takes, and
  headers that do not bear on the framing.
\<close>

theorem request_roundtrip:
  assumes "p_method (c_parser c) \<notin> {HTTP_MSEARCH, HTTP_CONNECT}" and "url_read (p_method (c_parser c)) (c_url c)"
    and "headers_ok c" and "plain_headers c" and "request_format c = (concat ds, c')"
    and "list_all (\<lambda>d. d \<noteq> []) ds" and "length (concat ds) \<le> max_header_size"
  shows "\<exists>e. append_all ds (new_ctx HTTP_REQUEST) = Some (0, e) \<and> p_errno (c_parser e) = HPE_OK \<and>
    p_method (c_parser e) = p_method (c_parser c) \<and> c_url e = c_url c \<and> c_headers e = c_headers c' \<and> c_body e = c_body c"
proof -
  have "concat ds \<noteq> []" using request_format_text(1) [OF assms(4,5)] by (simp add: request_text_def)
  with request_parsed [OF assms(1-5,7)] parsed_in_pieces [OF _ _ assms(6) _ assms(7)] show ?thesis by blast
qed

text \<open>A request for a page, with a body.\<close>

definition sample_post :: http_ctx where
  "sample_post = setHeader ''Accept'' ''*/*'' (setRequest HTTP_POST ''/form?a=1'' ''hello'' (new_ctx HTTP_REQUEST))"

lemma sample_post_length: "length (fst (request_format sample_post)) \<le> max_header_size"
proof -
  have "digit_char (Suc (Suc (Suc (Suc (Suc 0))))) = CHR ''5''" by code_simp
  then show ?thesis
    by (simp add: request_format_def formatHeader_def request_headers_def updateHeader_def delHeader_def setHeader_def
        hasHeader_def mm_find_def hasCrlf_def sample_post_def setRequest_def new_ctx_def ctx_init_def ctx_clear_def
        header_line_def crlf_def dec_str.simps Let_def less_char_def http_parser_init_def max_header_size_def)
qed

theorem request_roundtrip_witness:
  "\<exists>e. append_all (map (\<lambda>ch. [ch]) (fst (request_format sample_post))) (new_ctx HTTP_REQUEST) = Some (0, e) \<and>
    p_method (c_parser e) = HTTP_POST \<and> c_url e = ''/form?a=1'' \<and> c_body e = ''hello''"
proof -
  let ?msg = "fst (request_format sample_post)"
  have s: "p_method (c_parser sample_post) = HTTP_POST" "c_url sample_post = ''/form?a=1''" "c_body sample_post = ''hello''"
    by code_simp+
  have ok: "headers_ok sample_post" unfolding sample_post_def by (intro headers_ok_set) (simp add: headers_ok_body headers_ok_new)
  have plain: "plain_headers sample_post" by code_simp
  have m: "p_method (c_parser sample_post) \<notin> {HTTP_MSEARCH, HTTP_CONNECT}" by (simp add: s)
  have "url_read HTTP_POST ''/form?a=1''" by code_simp
  then have u: "url_read (p_method (c_parser sample_post)) (c_url sample_post)" by (simp add: s)
  have msg: "concat (map (\<lambda>ch. [ch]) ?msg) = ?msg" by simp
  have "request_format sample_post = (concat (map (\<lambda>ch. [ch]) ?msg), snd (request_format sample_post))"
    unfolding msg by (rule prod.collapse [symmetric])
  from request_roundtrip [OF m u ok plain this] sample_post_length s show ?thesis by (auto simp: list_all_iff)
qed

text \<open>
  \<open>M-SEARCH\<close> is refused, both as the method is named in the tables and as clients write it.
\<close>

lemma msearch_refused:
  "method_run (method_str HTTP_MSEARCH) = None" "method_run ''M-SEARCH'' = None"
  by code_simp+

lemma msearch_format_refused:
  "\<exists>e. parserAppend (request_text HTTP_MSEARCH ''*'' [] []) (new_ctx HTTP_REQUEST) = Some (- 1, e) \<and>
    p_errno (c_parser e) = HPE_INVALID_METHOD"
  by (simp add: request_text_def header_lines_def crlf_def http_eval step_req_method_def method_switch_def)

text \<open>The same for responses.\<close>

lemma response_sized:
  assumes "plain_headers c"
  shows "sized (Some (length (c_body c))) (c_headers (response_headers c))"
proof -
  have s: "sized None (c_headers c)" using assms by (simp add: sized_None plain_headers_def)
  have "fst h \<noteq> ''Content-Length''" if "h \<in> set (c_headers c)" for h
    using assms that length_not_plain [of "snd h"] by (cases h) (auto simp: plain_headers_def list_all_iff)
  then have "\<not> hasHeader ''Content-Length'' c"
    by (force simp: hasHeader_def mm_find_def map_of_eq_None_iff)
  with sized_length [OF s] show ?thesis by (simp add: response_headers_def)
qed

lemma response_keeps:
  "c_body (response_headers c) = c_body c" "c_parser (response_headers c) = c_parser c"
  by (simp_all add: response_headers_def)

lemma response_format_text:
  assumes "plain_headers c" and "response_format c = (msg, c')"
  shows "msg = response_text (unat (p_status (c_parser c))) (c_headers c') (c_body c)" and "c_headers c' \<noteq> []"
    and "sized (Some (length (c_body c))) (c_headers c')" and "headers_ok c \<Longrightarrow> headers_ok c'"
proof -
  note f = format_headers [OF response_sized [OF assms(1)]]
  let ?n = "unat (p_status (c_parser c))"
  have c': "c' = snd (formatHeader (response_headers c))"
    using assms(2) by (auto simp: response_format_def Let_def split: prod.splits)
  have "msg = ''HTTP/1.1 '' @ dec_str ?n @ '' '' @ http_status_str ?n @ crlf @ fst (formatHeader (response_headers c)) @ c_body c'"
    using assms(2) f(6) by (auto simp: response_format_def Let_def response_keeps split: prod.splits)
  with f(3,4) show "msg = response_text ?n (c_headers c') (c_body c)" by (simp add: c' response_text_def response_keeps)
  show "c_headers c' \<noteq> []" "sized (Some (length (c_body c))) (c_headers c')" using f(1,2) by (simp_all add: c')
  show "headers_ok c'" if "headers_ok c"
    using headers_ok_format(1) [OF headers_ok_format(2) [OF that]] by (simp add: c')
qed

lemma response_parsed:
  assumes "unat (p_status (c_parser c)) \<le> 999" and "headers_ok c" and "plain_headers c"
    and "response_format c = (msg, c')" and "length msg \<le> max_header_size"
  shows "\<exists>e. parserAppend msg (new_ctx HTTP_RESPONSE) = Some (0, e) \<and> p_errno (c_parser e) = HPE_OK \<and>
    p_status (c_parser e) = p_status (c_parser c) \<and> c_status e = http_status_str (unat (p_status (c_parser c))) \<and>
    c_headers e = c_headers c' \<and> c_body e = c_body c"
proof -
  let ?n = "unat (p_status (c_parser c))"
  note f = response_format_text [OF assms(3,4)]
  obtain p where p: "http_parser_execute (http_parser_init HTTP_RESPONSE) msg = Some (p,
      [on_message_begin, on_status (http_status_str ?n)] @ header_cbs (c_headers c') @ body_cbs (c_body c), length msg)"
    "p_errno p = HPE_OK" "p_status p = p_status (c_parser c)"
    using execute_response [OF assms(1) f(3)] assms(5) unfolding f(1) by auto
  obtain b where b: "b = fold http_callback [on_message_begin, on_status (http_status_str ?n)] (new_ctx HTTP_RESPONSE)" by blast
  have new: "last_is_val b" "header_field b = []" "c_headers b = []" "header_val b = []" "c_body b = []"
    "c_status b = http_status_str ?n" "c_parser (new_ctx HTTP_RESPONSE) = http_parser_init HTTP_RESPONSE"
    by (simp_all add: b new_ctx_def ctx_init_def ctx_clear_def)
  from parsed_message [of HTTP_RESPONSE msg p "[on_message_begin, on_status (http_status_str ?n)]" "c_headers c'" "c_body c" b]
    p(1) f(2) sized_names [OF f(3)] headers_sorted [OF f(4) [OF assms(2)]] new b
  obtain e where "parserAppend msg (new_ctx HTTP_RESPONSE) = Some (0, e)" "c_parser e = p"
    "c_status e = http_status_str ?n" "c_headers e = c_headers c'" "c_body e = c_body c" by auto
  with p(2,3) show ?thesis by auto
qed

text \<open>
  C8: A response that \<open>format\<close> writes is read back by a new parser as it was, however it is cut on its way:
  status code, reason phrase, the headers the response ended up with and the body, all of it consumed
  and the message complete.  For any status of at most three digits and headers that do not bear on
  the framing.
\<close>

theorem response_roundtrip:
  assumes "unat (p_status (c_parser c)) \<le> 999" and "headers_ok c" and "plain_headers c"
    and "response_format c = (concat ds, c')" and "list_all (\<lambda>d. d \<noteq> []) ds" and "length (concat ds) \<le> max_header_size"
  shows "\<exists>e. append_all ds (new_ctx HTTP_RESPONSE) = Some (0, e) \<and> p_errno (c_parser e) = HPE_OK \<and>
    p_status (c_parser e) = p_status (c_parser c) \<and> c_status e = http_status_str (unat (p_status (c_parser c))) \<and>
    c_headers e = c_headers c' \<and> c_body e = c_body c"
proof -
  have "concat ds \<noteq> []" using response_format_text(1) [OF assms(3,4)] by (simp add: response_text_def)
  with response_parsed [OF assms(1-4,6)] parsed_in_pieces [OF _ _ assms(5) _ assms(6)] show ?thesis by blast
qed

definition sample_404 :: http_ctx where
  "sample_404 = setHeader ''Server'' ''isaac'' (setResponse 404 ''gone'' (new_ctx HTTP_RESPONSE))"

lemma sample_404_length: "length (fst (response_format sample_404)) \<le> max_header_size"
proof -
  have "digit_char (Suc (Suc (Suc (Suc 0)))) = CHR ''4''" by code_simp
  moreover have "length (dec_str 404) = 3" "length (http_status_str 404) = 9" by code_simp+
  ultimately show ?thesis
    by (simp add: response_format_def formatHeader_def response_headers_def setHeader_def
        hasHeader_def mm_find_def hasCrlf_def sample_404_def setResponse_def new_ctx_def ctx_init_def ctx_clear_def
        header_line_def crlf_def dec_str.simps [of "Suc n" for n] Let_def less_char_def http_parser_init_def max_header_size_def)
qed

theorem response_roundtrip_witness:
  "\<exists>e. append_all (map (\<lambda>ch. [ch]) (fst (response_format sample_404))) (new_ctx HTTP_RESPONSE) = Some (0, e) \<and>
    p_status (c_parser e) = 404 \<and> c_status e = ''Not Found'' \<and> c_body e = ''gone''"
proof -
  let ?msg = "fst (response_format sample_404)"
  have s: "p_status (c_parser sample_404) = 404" "c_body sample_404 = ''gone''" "http_status_str 404 = ''Not Found''"
    by code_simp+
  have ok: "headers_ok sample_404" unfolding sample_404_def by (intro headers_ok_set) (simp add: headers_ok_body headers_ok_new)
  have plain: "plain_headers sample_404" by code_simp
  have n: "unat (p_status (c_parser sample_404)) \<le> 999" by (simp add: s)
  have msg: "concat (map (\<lambda>ch. [ch]) ?msg) = ?msg" by simp
  have "response_format sample_404 = (concat (map (\<lambda>ch. [ch]) ?msg), snd (response_format sample_404))"
    unfolding msg by (rule prod.collapse [symmetric])
  from response_roundtrip [OF n ok plain this] sample_404_length s show ?thesis by (auto simp: list_all_iff)
qed

end
