(* ===== verification/Ys_HttpFrame.thy ===== *)
theory Ys_HttpFrame
  imports Ys_HttpRound Ys_TcpClient
begin

text \<open>
  The HTTP parser as the test of the receive loops for a complete message: \<open>httpParse\<close> of
  \<open>isaac/ys_http_parser.h\<close> on a buffer that grows, for requests (the driver's \<open>isFullPkt\<close>) and for responses
  (the client's).  The receive loops rely on the locale \<open>assembling\<close>.
\<close>

section \<open>The test for a complete message\<close>

text \<open>
  The pointer to the context, which may be null, or point to what an undefined call of the parser has left.
\<close>

type_synonym http_arg = "(unit, http_ctx) outcome option"

definition http_result :: "(unit, 32 word \<times> http_ctx) outcome \<Rightarrow> 32 word \<times> http_arg" where
  "http_result r = (case r of Ok (n, c) \<Rightarrow> (n, Some (Ok c)) | Throw e \<Rightarrow> (0, Some (Throw e)) | Undef \<Rightarrow> (0, Some Undef))"

definition http_look :: "http_parser_type \<Rightarrow> ys_buf \<Rightarrow> http_arg \<Rightarrow> 32 word \<times> http_arg" where
  "http_look t b a =
     (case a of
        None \<Rightarrow> http_result (httpParse t b None)
      | Some (Ok c) \<Rightarrow> http_result (httpParse t b (Some c))
      | Some r \<Rightarrow> (0, Some r))"

section \<open>A context that follows a message\<close>

text \<open>The context of a receiver that has looked at \<open>k\<close> bytes of the message \<open>m\<close>.\<close>

definition ctx_at :: "http_parser_type \<Rightarrow> bytes \<Rightarrow> nat \<Rightarrow> http_ctx \<Rightarrow> bool" where
  "ctx_at t m k c \<longleftrightarrow> (\<exists>x. c = x\<lparr>c_pos := of_nat k\<rparr> \<and>
     (if k = 0 then x = new_ctx t else ctx_execute (take k (chars_of m)) (new_ctx t) = Some (k, x)))"

definition http_seen :: "http_parser_type \<Rightarrow> bytes \<Rightarrow> nat \<Rightarrow> http_arg \<Rightarrow> bool" where
  "http_seen t m k a \<longleftrightarrow> a = None \<and> k = 0 \<or> (\<exists>c. a = Some (Ok c) \<and> ctx_at t m k c)"

lemma ctx_at_pos:
  "ctx_at t m k c \<Longrightarrow> k \<noteq> 0 \<Longrightarrow> ctx_execute (take k (chars_of m)) (new_ctx t) = Some (k, e) \<Longrightarrow> c = e\<lparr>c_pos := of_nat k\<rparr>"
  by (auto simp: ctx_at_def)

lemma http_seen_pos:
  "http_seen t m k a \<Longrightarrow> k \<noteq> 0 \<Longrightarrow> ctx_execute (take k (chars_of m)) (new_ctx t) = Some (k, e) \<Longrightarrow>
    a = Some (Ok (e\<lparr>c_pos := of_nat k\<rparr>))"
  by (auto simp: http_seen_def dest: ctx_at_pos)

lemma new_at: "ctx_at t m 0 (new_ctx t)"
  by (auto simp: ctx_at_def new_ctx_def ctx_init_def ctx_clear_def intro!: exI [of _ "new_ctx t"])

lemma ctx_at_0: "ctx_at t m 0 c \<longleftrightarrow> c = new_ctx t"
  by (auto simp: ctx_at_def new_ctx_def ctx_init_def ctx_clear_def)

lemma ctx_init_new: "ctx_init t (new_ctx t) = new_ctx t"
  by (simp add: new_ctx_def ctx_init_def ctx_clear_def)

lemma ctx_init_fresh: "header_field c = [] \<Longrightarrow> ctx_init t c = new_ctx t"
  by (cases c) (simp add: new_ctx_def ctx_init_def ctx_clear_def)

text \<open>A null pointer is as good as a new context.\<close>

lemma http_look_None: "http_look t b None = http_look t b (Some (Ok (new_ctx t)))"
  by (simp add: http_look_def httpParse_def ctx_init_new)

lemma new_wf: "parser_wf 0 (c_parser (new_ctx t))"
  using reach_wf [OF parser_reach.fresh [of t]] by (simp add: new_ctx_def ctx_init_def ctx_clear_def http_parser_init_def)

text \<open>A callback never opens a message again that is complete.\<close>

lemma fRecv_mono: "fRecv (fold http_callback es c) \<Longrightarrow> fRecv c"
proof (induction es arbitrary: c)
  case (Cons e es)
  then have "fRecv (http_callback e c)" by simp
  then show ?case by (cases e) (auto simp: ctx_on_header_field_def Let_def split: if_splits)
qed simp

lemma ctx_execute_mono: "ctx_execute d c = Some (n, c') \<Longrightarrow> fRecv c' \<Longrightarrow> fRecv c"
  by (auto simp: ctx_execute_def dest: fRecv_mono)

lemma fRecv_keeps: "on_message_complete \<notin> set es \<Longrightarrow> fRecv (fold http_callback es c) = fRecv c"
proof (induction es arbitrary: c)
  case (Cons e es)
  then have "fRecv (http_callback e c) = fRecv c" by (cases e) (auto simp: ctx_on_header_field_def Let_def)
  with Cons show ?case by simp
qed simp

text \<open>The next call goes on where the last one stopped.\<close>

lemma http_goes_on:
  assumes "ctx_at t m k c" and "k < k'" and "k' \<le> length m" and "length m \<le> max_header_size"
    and "ctx_execute (take k' (chars_of m)) (new_ctx t) = Some (k', e)" and "p_errno (c_parser e) = HPE_OK"
    and "contents b = take k' m" and "blen b = of_nat k'"
  shows "\<exists>c'. httpParse t b (Some c) = Ok (if fRecv e then ucast (leftSize b) else 0, c') \<and> ctx_at t m k' c'"
proof -
  let ?d = "take k' (chars_of m)"
  obtain x where x: "c = x\<lparr>c_pos := of_nat k\<rparr>" and
    sx: "if k = 0 then x = new_ctx t else ctx_execute (take k (chars_of m)) (new_ctx t) = Some (k, x)"
    using assms(1) by (auto simp: ctx_at_def)
  have small: "k < 2 ^ 32" "k' < 2 ^ 32" using assms(2-4) by (simp_all add: max_header_size_def)
  have pos: "unat (of_nat k :: u32) = k" by (rule unat_of_nat_32 [OF small(1)])
  have bl: "unat (blen b) = k'" using small(2) assms(8) by (simp add: unat_of_nat)
  have d: "chars_of (drop k (contents b)) = drop k ?d"
    using assms(7) by (simp add: chars_of_def drop_map take_map)
  have dl: "length (drop k ?d) = k' - k" using assms(2,3) by simp
  have run: "ctx_execute (drop k ?d) (x\<lparr>c_pos := of_nat k\<rparr>) = Some (k' - k, e\<lparr>c_pos := of_nat k\<rparr>)"
  proof (cases "k = 0")
    case True
    have "c_pos (new_ctx t) = 0" by (simp add: new_ctx_def ctx_init_def ctx_clear_def)
    moreover from this have "c_pos e = 0" using assms(5) by (auto simp: ctx_execute_def)
    ultimately have "x\<lparr>c_pos := of_nat k\<rparr> = new_ctx t" "e\<lparr>c_pos := of_nat k\<rparr> = e" using sx True by simp_all
    with assms(5) True show ?thesis by simp
  next
    case False
    have tt: "take k ?d = take k (chars_of m)" using assms(2) by (simp add: min_def)
    have "0 < length (take k ?d)" "0 < length (drop k ?d)" using False assms(2,3) by simp_all
    then have ne: "take k ?d \<noteq> []" "drop k ?d \<noteq> []" by force+
    have all: "take k ?d @ drop k ?d = ?d" by (rule append_take_drop_id)
    have len: "length ?d = k'" using assms(3) by simp
    obtain c1 where c1: "ctx_execute (take k ?d) (new_ctx t) = Some (length (take k ?d), c1)"
      "ctx_execute (drop k ?d) (c1\<lparr>c_pos := of_nat k\<rparr>) = Some (length (drop k ?d), e\<lparr>c_pos := of_nat k\<rparr>)"
      using ctx_execute_cut [OF new_wf ne, of t e "of_nat k"] assms(3-6) unfolding all len by auto
    with sx False tt dl show ?thesis by simp
  qed
  have ne: "\<not> bempty b" using bl assms(2) by (auto simp: bempty_def)
  have inside: "\<not> blen b < ucast (of_nat k :: u32)"
    using bl pos assms(2) by (simp add: word_less_nat_alt unat_pos)
  have "httpParse t b (Some (x\<lparr>c_pos := of_nat k\<rparr>)) =
      Ok (if fRecv e then ucast (leftSize b) else 0, e\<lparr>c_pos := of_nat k'\<rparr>)"
    using run ne inside assms(2) dl
    by (simp add: httpParse_def pos d Let_def of_nat_diff)
  moreover have "ctx_at t m k' (e\<lparr>c_pos := of_nat k'\<rparr>)"
    using assms(2,5) by (auto simp: ctx_at_def)
  ultimately show ?thesis by (simp add: x)
qed

lemma http_look_on:
  assumes "http_seen t m k a" and "k < k'" and "k' \<le> length m" and "length m \<le> max_header_size"
    and "ctx_execute (take k' (chars_of m)) (new_ctx t) = Some (k', e)" and "p_errno (c_parser e) = HPE_OK"
    and "contents b = take k' m" and "blen b = of_nat k'"
  shows "fst (http_look t b a) = (if fRecv e then ucast (leftSize b) else 0) \<and> http_seen t m k' (snd (http_look t b a))"
proof -
  obtain c where c: "ctx_at t m k c" "http_look t b a = http_result (httpParse t b (Some c))"
    using assms(1) new_at [of t m] http_look_None [of t b] by (fastforce simp: http_seen_def http_look_def)
  from http_goes_on [OF c(1) assms(2-8)] c(2) show ?thesis by (auto simp: http_seen_def http_result_def)
qed

section \<open>Messages the parser completes\<close>

text \<open>
  A set of texts that a new parser takes completely, and of which it takes all but the last character without
  completing a message.
\<close>

locale http_messages =
  fixes t :: http_parser_type and good :: "string \<Rightarrow> bool"
  assumes good_length: "good d \<Longrightarrow> d \<noteq> [] \<and> length d \<le> max_header_size"
    and good_whole: "good d \<Longrightarrow> \<exists>e. ctx_execute d (new_ctx t) = Some (length d, e) \<and> p_errno (c_parser e) = HPE_OK \<and> \<not> fRecv e"
    and good_butlast: "good d \<Longrightarrow>
      \<exists>e. ctx_execute (butlast d) (new_ctx t) = Some (length (butlast d), e) \<and> p_errno (c_parser e) = HPE_OK \<and> fRecv e"
begin

text \<open>No shorter beginning completes it either.\<close>

lemma good_part:
  assumes "good d" and "0 < k" and "k < length d"
  shows "\<exists>e. ctx_execute (take k d) (new_ctx t) = Some (k, e) \<and> p_errno (c_parser e) = HPE_OK \<and> fRecv e"
proof (cases "k = length d - 1")
  case True
  with good_butlast [OF assms(1)] assms(3) show ?thesis by (simp add: butlast_conv_take)
next
  case False
  let ?a = "take k d" and ?b = "drop k (butlast d)"
  have "take k d = take k (butlast d)" using assms(3) False by (simp add: butlast_conv_take min_def)
  then have ab: "?a @ ?b = butlast d" by simp
  have ne: "?a \<noteq> []" "?b \<noteq> []" using assms(2,3) False by auto
  have len: "length (?a @ ?b) \<le> max_header_size" unfolding ab using good_length [OF assms(1)] by auto
  obtain e where e: "ctx_execute (?a @ ?b) (new_ctx t) = Some (length (?a @ ?b), e)" "p_errno (c_parser e) = HPE_OK" "fRecv e"
    using good_butlast [OF assms(1)] unfolding ab by blast
  obtain c1 where c1: "ctx_execute ?a (new_ctx t) = Some (length ?a, c1)"
    "ctx_execute ?b (c1\<lparr>c_pos := 0\<rparr>) = Some (length ?b, e\<lparr>c_pos := 0\<rparr>)"
    using ctx_execute_cut [OF new_wf ne len e(1,2), of 0] by blast
  have "fRecv c1" using ctx_execute_mono [OF c1(2)] e(3) by simp
  moreover have "p_errno (c_parser c1) = HPE_OK"
    using c1(2) ne(2) by (auto simp: ctx_execute_def http_parser_execute_def split: if_splits)
  ultimately show ?thesis using c1(1) assms(3) by (auto simp: min_def)
qed

end

text \<open>So the parser tells a receive loop where a message ends, from its first byte on.\<close>

sublocale http_messages \<subseteq> framed: assembling "http_look t" "\<lambda>m. good (chars_of m)" "http_seen t" 0
proof
  fix b :: ys_buf and m a assume b: "bempty b" and s: "http_seen t m 0 a"
  then show "fst (http_look t b a) = ucast (bcap b) \<and> http_seen t m 0 (snd (http_look t b a))"
    using new_at [of t m]
    by (auto simp: http_seen_def http_look_def http_result_def httpParse_def ctx_init_new ctx_at_0)
next
  fix m assume "good (chars_of m)"
  with good_length [of "chars_of m"] show "0 < length m \<and> length m < 2 ^ 31"
    by (auto simp: max_header_size_def simp flip: chars_of_length)
next
  fix m k a b assume m: "good (chars_of m)" and s: "http_seen t m k a" and k: "k < length m"
    and b: "contents b = m" "blen b = of_nat (length m)"
  have len: "length m \<le> max_header_size" using good_length [OF m] by simp
  obtain e where e: "ctx_execute (chars_of m) (new_ctx t) = Some (length m, e)" "p_errno (c_parser e) = HPE_OK" "\<not> fRecv e"
    using good_whole [OF m] by auto
  show "fst (http_look t b a) = 0 \<and> http_seen t m (length m) (snd (http_look t b a))"
    using http_look_on [OF s k order_refl len _ e(2), of b] e(1,3) b by simp
next
  fix m k k' a b assume m: "good (chars_of m)" and s: "http_seen t m k a" and k: "k < k'" "k' < length m"
    and b: "contents b = take k' m" "blen b = of_nat k'" "length m \<le> unat (bcap b)" "unat (bcap b) < 2 ^ 31"
  have len: "length m \<le> max_header_size" using good_length [OF m] by simp
  have k0: "0 < k'" "k' < length (chars_of m)" using k by simp_all
  obtain e where e: "ctx_execute (take k' (chars_of m)) (new_ctx t) = Some (k', e)" "p_errno (c_parser e) = HPE_OK" "fRecv e"
    using good_part [OF m k0] by auto
  have g: "fst (http_look t b a) = ucast (leftSize b)" "http_seen t m k' (snd (http_look t b a))"
    using http_look_on [OF s k(1) less_imp_le [OF k(2)] len e(1,2) b(1,2)] e(3) by simp_all
  have bl: "unat (blen b) = k'" using k(2) len b(2) by (simp add: unat_of_nat max_header_size_def)
  have "unat (leftSize b) = unat (bcap b) - k'"
    using bl k(2) b(3) by (simp add: leftSize_def unat_sub_if_size)
  moreover have "unat (ucast (leftSize b) :: u32) = unat (leftSize b)"
    using calculation b(4) by (intro unat_ucast_64_32) simp
  ultimately show "length m - k' \<le> unat (fst (http_look t b a)) \<and> unat (fst (http_look t b a)) + k' \<le> unat (bcap b) \<and>
      http_seen t m k' (snd (http_look t b a))"
    using g b(3) k(2) by simp
qed

section \<open>Formatted requests and responses\<close>

definition good_request :: "http_ctx \<Rightarrow> bool" where
  "good_request c \<longleftrightarrow> p_method (c_parser c) \<notin> {HTTP_MSEARCH, HTTP_CONNECT} \<and>
     url_read (p_method (c_parser c)) (c_url c) \<and> headers_ok c \<and> plain_headers c \<and>
     length (fst (request_format c)) \<le> max_header_size"

definition good_response :: "http_ctx \<Rightarrow> bool" where
  "good_response c \<longleftrightarrow> unat (p_status (c_parser c)) \<le> 999 \<and> headers_ok c \<and> plain_headers c \<and>
     length (fst (response_format c)) \<le> max_header_size"

lemma parserAppend_complete:
  assumes "parserAppend d (new_ctx t) = Some (0, e)"
  shows "\<exists>x. ctx_execute d (new_ctx t) = Some (length d, x) \<and> \<not> fRecv x \<and> e = x\<lparr>c_pos := c_pos x + of_nat (length d)\<rparr>"
proof -
  obtain n x where x: "ctx_execute d (new_ctx t) = Some (n, x)"
    "(if n \<noteq> length d then (- 1, x) else (if fRecv x then 8192 else 0, x\<lparr>c_pos := c_pos x + of_nat n\<rparr>)) = (0 :: 32 word, e)"
    using assms by (auto simp: parserAppend_def Let_def split: if_splits)
  then show ?thesis by (auto split: if_splits)
qed

lemma request_whole:
  assumes "good_request c" and "d = fst (request_format c)"
  shows "\<exists>e. ctx_execute d (new_ctx HTTP_REQUEST) = Some (length d, e) \<and> p_errno (c_parser e) = HPE_OK \<and> \<not> fRecv e \<and>
    p_method (c_parser e) = p_method (c_parser c) \<and> c_url e = c_url c \<and> c_headers e = c_headers (snd (request_format c)) \<and>
    c_body e = c_body c"
proof -
  have f: "request_format c = (d, snd (request_format c))" using assms(2) by simp
  have g: "p_method (c_parser c) \<notin> {HTTP_MSEARCH, HTTP_CONNECT}" "url_read (p_method (c_parser c)) (c_url c)"
    "headers_ok c" "plain_headers c" "length d \<le> max_header_size"
    using assms by (simp_all add: good_request_def)
  show ?thesis using request_parsed [OF g(1-4) f g(5)] parserAppend_complete [of d HTTP_REQUEST] by fastforce
qed

lemma response_whole:
  assumes "good_response c" and "d = fst (response_format c)"
  shows "\<exists>e. ctx_execute d (new_ctx HTTP_RESPONSE) = Some (length d, e) \<and> p_errno (c_parser e) = HPE_OK \<and> \<not> fRecv e \<and>
    p_status (c_parser e) = p_status (c_parser c) \<and> c_status e = http_status_str (unat (p_status (c_parser c))) \<and>
    c_headers e = c_headers (snd (response_format c)) \<and> c_body e = c_body c"
proof -
  have f: "response_format c = (d, snd (response_format c))" using assms(2) by simp
  have g: "unat (p_status (c_parser c)) \<le> 999" "headers_ok c" "plain_headers c" "length d \<le> max_header_size"
    using assms by (simp_all add: good_response_def)
  show ?thesis using response_parsed [OF g(1-3) f g(4)] parserAppend_complete [of d HTTP_RESPONSE] by fastforce
qed

lemma unfinished:
  assumes "http_parser_execute (http_parser_init t) d = Some (p, cbs, length d)" and "p_errno p = HPE_OK"
    and "on_message_complete \<notin> set cbs"
  shows "\<exists>e. ctx_execute d (new_ctx t) = Some (length d, e) \<and> p_errno (c_parser e) = HPE_OK \<and> fRecv e"
proof -
  have "c_parser (new_ctx t) = http_parser_init t" "fRecv (new_ctx t)"
    by (simp_all add: new_ctx_def ctx_init_def ctx_clear_def)
  with assms fRecv_keeps [OF assms(3)] show ?thesis by (simp add: ctx_execute_def)
qed

interpretation requests: http_messages HTTP_REQUEST "\<lambda>d. \<exists>c. good_request c \<and> d = fst (request_format c)"
proof
  fix d assume "\<exists>c. good_request c \<and> d = fst (request_format c)"
  then obtain c where c: "good_request c" "d = fst (request_format c)" by blast
  have f: "request_format c = (d, snd (request_format c))" using c(2) by simp
  have g: "p_method (c_parser c) \<noteq> HTTP_MSEARCH" "p_method (c_parser c) \<noteq> HTTP_CONNECT"
    "url_read (p_method (c_parser c)) (c_url c)" "plain_headers c" "length d \<le> max_header_size"
    using c by (simp_all add: good_request_def)
  note x = request_format_text [OF g(4) f]
  obtain n where n: "sized n (c_headers (snd (request_format c)))"
    "case n of None \<Rightarrow> c_body c = [] | Some k \<Rightarrow> k = length (c_body c)" using x(3) by blast
  show "d \<noteq> [] \<and> length d \<le> max_header_size" using x(1) g(5) by (auto simp: request_text_def)
  show "\<exists>e. ctx_execute d (new_ctx HTTP_REQUEST) = Some (length d, e) \<and> p_errno (c_parser e) = HPE_OK \<and> \<not> fRecv e"
    using request_whole [OF c] by blast
  show "\<exists>e. ctx_execute (butlast d) (new_ctx HTTP_REQUEST) = Some (length (butlast d), e) \<and> p_errno (c_parser e) = HPE_OK \<and> fRecv e"
    using execute_request_part [OF g(1-3) n] g(5) unfinished unfolding x(1) by metis
qed

interpretation responses: http_messages HTTP_RESPONSE "\<lambda>d. \<exists>c. good_response c \<and> d = fst (response_format c)"
proof
  fix d assume "\<exists>c. good_response c \<and> d = fst (response_format c)"
  then obtain c where c: "good_response c" "d = fst (response_format c)" by blast
  have f: "response_format c = (d, snd (response_format c))" using c(2) by simp
  have g: "unat (p_status (c_parser c)) \<le> 999" "plain_headers c" "length d \<le> max_header_size"
    using c by (simp_all add: good_response_def)
  note x = response_format_text [OF g(2) f]
  show "d \<noteq> [] \<and> length d \<le> max_header_size" using x(1) g(3) by (auto simp: response_text_def)
  show "\<exists>e. ctx_execute d (new_ctx HTTP_RESPONSE) = Some (length d, e) \<and> p_errno (c_parser e) = HPE_OK \<and> \<not> fRecv e"
    using response_whole [OF c] by blast
  show "\<exists>e. ctx_execute (butlast d) (new_ctx HTTP_RESPONSE) = Some (length (butlast d), e) \<and> p_errno (c_parser e) = HPE_OK \<and> fRecv e"
    using execute_response_part [OF g(1) x(3)] g(3) unfinished unfolding x(1) by metis
qed

section \<open>Bytes and characters\<close>

definition bytes_of :: "string \<Rightarrow> bytes" where "bytes_of = map (\<lambda>c. of_nat (of_char c))"

lemma chars_of_bytes [simp]: "chars_of (bytes_of s) = s"
proof -
  have "char_of (unat (of_nat (chcode c) :: byte)) = c" for c
    using chcode_less [of c] by (simp add: unat_of_nat char_of_chcode)
  then show ?thesis by (simp add: chars_of_def bytes_of_def comp_def flip: chcode_def)
qed

lemma bytes_of_length [simp]: "length (bytes_of s) = length s"
  by (simp add: bytes_of_def)

end
