(* ===== verification/Ys_Pack.thy ===== *)
theory Ys_Pack
  imports Ys_Buffer
begin

text \<open>
  \<open>isaac/tool/ys_pack.hpp\<close>: the binary serialisation of \<open>YS_PackArgs\<close> (one \<open>encode\<close> and one
  \<open>decode\<close> overload per field type, chained by the variadic \<open>pack\<close> and \<open>unpack\<close>) and the packet
  frame \<open>YS_Packet\<close>.  A field's C++ type, which selects the overload, is a \<open>pty\<close>; its value is a
  \<open>pval\<close>.  The host is little-endian, as every target of the build files is.
\<close>

section \<open>Field types and values\<close>

text \<open>
  \<open>TRaw n\<close>: a fixed array of bytes or of plain structs, or a plain struct, \<open>n\<close> bytes in all.
  \<open>TPtr n\<close>: a pointer to a plain struct.  \<open>TBlob\<close>: \<open>std::pair<uint32_t, uint8_t *>\<close>.
  \<open>TSub\<close>: a struct with its own \<open>_ys_pack\<close>; \<open>TSubArr n\<close>: a fixed array of those;
  \<open>TVecRaw n\<close>: a vector of plain structs of \<open>n\<close> bytes; \<open>TVecSub\<close>: a vector of structs with
  \<open>_ys_pack\<close>.
\<close>

datatype pty =
    TI32 | TU32 | TU64 | TChar | TU8 | TFloat | TDouble | TBool
  | TRaw nat | TPtr nat | TStr | TBlob | TUstr | TCStr
  | TSub "pty list" | TSubArr nat "pty list" | TVecRaw nat | TVecSub "pty list"

datatype pval =
    PI32 u32 | PU32 u32 | PU64 u64 | PChar byte | PU8 byte | PFloat u32 | PDouble u64 | PBool bool
  | PRaw bytes | PPtr bytes | PStr bytes | PBlob bytes | PUstr bytes | PCStr bytes
  | PSub "pval list" | PSubArr "pval list list" | PVecRaw "bytes list" | PVecSub "pval list list"

type_synonym 'a pack_result = "(int, 'a) outcome"

definition YPACK_ERR_DATA_LEN :: int where "YPACK_ERR_DATA_LEN = 1"

section \<open>Encoding\<close>

text \<open>
  The encoder writes at \<open>buf + off\<close> with no bounds check: \<open>put\<close> writes a run of bytes and advances
  the offset, and is undefined when the run leaves the memory block \<open>m\<close>.  \<open>base\<close> is the pointer
  \<open>buf\<close> as an index of the block.
\<close>

definition put :: "bytes \<Rightarrow> nat \<Rightarrow> bytes \<times> nat \<Rightarrow> (bytes \<times> nat) pack_result" where
  "put bs base s =
     (case poke (fst s) (base + snd s) bs of
        None \<Rightarrow> Undef
      | Some m' \<Rightarrow> Ok (m', snd s + length bs))"

definition bool_byte :: "bool \<Rightarrow> byte" where "bool_byte b = (if b then 1 else 0)"

definition len32 :: "'a list \<Rightarrow> bytes" where
  "len32 xs = le_bytes 4 (of_nat (length xs) :: u32)"

definition len64 :: "'a list \<Rightarrow> bytes" where
  "len64 xs = le_bytes 8 (of_nat (length xs) :: u64)"

text \<open>
  The nested call \<open>field._ys_pack(buf + off, &uoff)\<close> starts a fresh offset at the address
  \<open>base + off\<close> and returns the bytes used as a \<open>uint32_t\<close>.
\<close>

definition add_uoff :: "nat \<Rightarrow> bytes \<times> nat \<Rightarrow> bytes \<times> nat" where
  "add_uoff off s = (fst s, off + unat (of_nat (snd s) :: u32))"

fun encode_st :: "bytes list \<Rightarrow> nat \<Rightarrow> bytes \<times> nat \<Rightarrow> (bytes \<times> nat) pack_result" where
  "encode_st [] base s = Ok s"
| "encode_st (x # xs) base s = bindO (put x base s) (encode_st xs base)"

fun encode :: "pval \<Rightarrow> nat \<Rightarrow> bytes \<times> nat \<Rightarrow> (bytes \<times> nat) pack_result"
  and pack :: "pval list \<Rightarrow> nat \<Rightarrow> bytes \<times> nat \<Rightarrow> (bytes \<times> nat) pack_result"
  and encode_subs :: "pval list list \<Rightarrow> nat \<Rightarrow> bytes \<times> nat \<Rightarrow> (bytes \<times> nat) pack_result"
where
  "encode (PI32 w) base s = put (le_bytes 4 w) base s"
| "encode (PU32 w) base s = put (le_bytes 4 w) base s"
| "encode (PU64 w) base s = put (le_bytes 8 w) base s"
| "encode (PChar b) base s = put [b] base s"
| "encode (PU8 b) base s = put [b] base s"
| "encode (PFloat w) base s = put (le_bytes 4 w) base s"
| "encode (PDouble w) base s = put (le_bytes 8 w) base s"
| "encode (PBool b) base s = put [bool_byte b] base s"
| "encode (PRaw bs) base s = put bs base s"
| "encode (PPtr bs) base s = put bs base s"
| "encode (PStr bs) base s = bindO (put (len32 bs) base s) (put bs base)"
| "encode (PBlob bs) base s = bindO (put (len32 bs) base s) (put bs base)"
| "encode (PUstr bs) base s = bindO (put (len64 bs) base s) (put bs base)"
| "encode (PCStr bs) base s =
     (let str = takeWhile (\<lambda>b. b \<noteq> 0) bs in bindO (put str base s) (put [0] base))"
| "encode (PSub fs) base s = mapO (add_uoff (snd s)) (pack fs (base + snd s) (fst s, 0))"
| "encode (PSubArr fss) base s = encode_subs fss base s"
| "encode (PVecRaw xs) base s = bindO (put (len32 xs) base s) (encode_st xs base)"
| "encode (PVecSub fss) base s = bindO (put (len32 fss) base s) (encode_subs fss base)"
| "pack [] base s = Ok s"
| "pack (v # vs) base s = bindO (encode v base s) (pack vs base)"
| "encode_subs [] base s = Ok s"
| "encode_subs (fs # fss) base s =
     bindO (mapO (add_uoff (snd s)) (pack fs (base + snd s) (fst s, 0))) (encode_subs fss base)"

section \<open>Decoding\<close>

text \<open>
  \<open>sz_add\<close> is addition of \<open>size_t\<close> values.  \<open>need\<close> is the guard of every overload,
  \<open>if (dataLen < *off + n) throw YPACK_ERR_DATA_LEN\<close>, and \<open>take_field\<close> the guard followed by the
  read of \<open>n\<close> bytes at \<open>data + *off\<close> and the advance of the offset.  A shallow field (a pointer
  into the packet) is modelled by the bytes it refers to; one that refers to bytes outside the
  memory block counts as undefined.
\<close>

definition sz_add :: "nat \<Rightarrow> nat \<Rightarrow> nat" where
  "sz_add a b = (a + b) mod 2 ^ 64"

definition read_at :: "bytes \<Rightarrow> nat \<Rightarrow> nat \<Rightarrow> bytes pack_result" where
  "read_at d i n = (case peek d i n of None \<Rightarrow> Undef | Some bs \<Rightarrow> Ok bs)"

definition take_field :: "bytes \<Rightarrow> nat \<Rightarrow> u32 \<Rightarrow> nat \<Rightarrow> nat \<Rightarrow> (bytes \<times> nat) pack_result" where
  "take_field d p dataLen off n =
     (if unat dataLen < sz_add off n then Throw YPACK_ERR_DATA_LEN
      else bindO (read_at d (p + off) n) (\<lambda>bs. Ok (bs, sz_add off n)))"

text \<open>The overload for a pointer to a struct advances the offset first and checks it then.\<close>

definition take_ptr :: "bytes \<Rightarrow> nat \<Rightarrow> u32 \<Rightarrow> nat \<Rightarrow> nat \<Rightarrow> (bytes \<times> nat) pack_result" where
  "take_ptr d p dataLen off n =
     (let off' = sz_add off n in
      if unat dataLen < off' then Throw YPACK_ERR_DATA_LEN
      else bindO (read_at d (p + off) n) (\<lambda>bs. Ok (bs, off')))"

text \<open>The overload for \<open>char *\<close>: \<open>strlen\<close> runs before any check.\<close>

definition take_cstr :: "bytes \<Rightarrow> nat \<Rightarrow> u32 \<Rightarrow> nat \<Rightarrow> (bytes \<times> nat) pack_result" where
  "take_cstr d p dataLen off =
     (let str = takeWhile (\<lambda>b. b \<noteq> 0) (drop (p + off) d) in
      if length d \<le> p + off + length str then Undef
      else let off' = sz_add off (length str + 1) in
        if unat dataLen < off' then Throw YPACK_ERR_DATA_LEN else Ok (str, off'))"

fun iterO :: "nat \<Rightarrow> ('s \<Rightarrow> ('e, 's) outcome) \<Rightarrow> 's \<Rightarrow> ('e, 's) outcome" where
  "iterO 0 f s = Ok s"
| "iterO (Suc n) f s = bindO (f s) (iterO n f)"

lemma iterO_numeral [eval_simps]:
  "iterO (numeral k) f s = bindO (f s) (iterO (pred_numeral k) f)"
  by (simp add: numeral_eq_Suc)

definition take_st :: "bytes \<Rightarrow> nat \<Rightarrow> u32 \<Rightarrow> nat \<Rightarrow> bytes list \<times> nat \<Rightarrow>
    (bytes list \<times> nat) pack_result" where
  "take_st d p dataLen n s =
     mapO (\<lambda>(bs, off). (fst s @ [bs], off)) (take_field d p dataLen (snd s) n)"

fun decode :: "pty \<Rightarrow> bytes \<Rightarrow> nat \<Rightarrow> u32 \<Rightarrow> nat \<Rightarrow> (pval \<times> nat) pack_result"
  and unpack :: "pty list \<Rightarrow> bytes \<Rightarrow> nat \<Rightarrow> u32 \<Rightarrow> nat \<Rightarrow> (pval list \<times> nat) pack_result"
where
  "decode TI32 d p n off = mapO (\<lambda>(bs, o'). (PI32 (le_word bs), o')) (take_field d p n off 4)"
| "decode TU32 d p n off = mapO (\<lambda>(bs, o'). (PU32 (le_word bs), o')) (take_field d p n off 4)"
| "decode TU64 d p n off = mapO (\<lambda>(bs, o'). (PU64 (le_word bs), o')) (take_field d p n off 8)"
| "decode TChar d p n off = mapO (\<lambda>(bs, o'). (PChar (le_word bs), o')) (take_field d p n off 1)"
| "decode TU8 d p n off = mapO (\<lambda>(bs, o'). (PU8 (le_word bs), o')) (take_field d p n off 1)"
| "decode TFloat d p n off = mapO (\<lambda>(bs, o'). (PFloat (le_word bs), o')) (take_field d p n off 4)"
| "decode TDouble d p n off = mapO (\<lambda>(bs, o'). (PDouble (le_word bs), o')) (take_field d p n off 8)"
| "decode TBool d p n off = mapO (\<lambda>(bs, o'). (PBool (bs \<noteq> [0]), o')) (take_field d p n off 1)"
| "decode (TRaw k) d p n off = mapO (\<lambda>(bs, o'). (PRaw bs, o')) (take_field d p n off k)"
| "decode (TPtr k) d p n off = mapO (\<lambda>(bs, o'). (PPtr bs, o')) (take_ptr d p n off k)"
| "decode TStr d p n off =
     bindO (take_field d p n off 4)
       (\<lambda>(l, o1). mapO (\<lambda>(bs, o'). (PStr bs, o')) (take_field d p n o1 (unat (le_word l :: u32))))"
| "decode TBlob d p n off =
     bindO (take_field d p n off 4)
       (\<lambda>(l, o1). mapO (\<lambda>(bs, o'). (PBlob bs, o')) (take_field d p n o1 (unat (le_word l :: u32))))"
| "decode TUstr d p n off =
     bindO (take_field d p n off 8)
       (\<lambda>(l, o1). mapO (\<lambda>(bs, o'). (PUstr bs, o')) (take_field d p n o1 (unat (le_word l :: u64))))"
| "decode TCStr d p n off = mapO (\<lambda>(bs, o'). (PCStr bs, o')) (take_cstr d p n off)"
| "decode (TSub ts) d p n off =
     mapO (\<lambda>(vs, u). (PSub vs, off + unat (of_nat u :: u32)))
       (unpack ts d (p + off) (n - of_nat off) 0)"
| "decode (TSubArr k ts) d p n off =
     mapO (\<lambda>(vss, o'). (PSubArr vss, o'))
       (iterO k
          (\<lambda>s. mapO (\<lambda>(vs, u). (fst s @ [vs], snd s + unat (of_nat u :: u32)))
                 (unpack ts d (p + snd s) (n - of_nat (snd s)) 0))
          ([], off))"
| "decode (TVecRaw k) d p n off =
     bindO (take_field d p n off 4)
       (\<lambda>(l, o1). mapO (\<lambda>(xs, o'). (PVecRaw xs, o'))
          (iterO (unat (le_word l :: u32)) (take_st d p n k) ([], o1)))"
| "decode (TVecSub ts) d p n off =
     bindO (take_field d p n off 4)
       (\<lambda>(l, o1). mapO (\<lambda>(vss, o'). (PVecSub vss, o'))
          (iterO (unat (le_word l :: u32))
             (\<lambda>s. mapO (\<lambda>(vs, u). (fst s @ [vs], snd s + unat (of_nat u :: u32)))
                    (unpack ts d p n 0))
             ([], o1)))"
| "unpack [] d p n off = Ok ([], off)"
| "unpack (t # ts) d p n off =
     bindO (decode t d p n off)
       (\<lambda>(v, o1). mapO (\<lambda>(vs, o'). (v # vs, o')) (unpack ts d p n o1))"


section \<open>The byte image of a value\<close>

text \<open>The abstract specification of the encoder: the bytes a value is laid out as.\<close>

fun image_of :: "pval \<Rightarrow> bytes" where
  "image_of (PI32 w) = le_bytes 4 w"
| "image_of (PU32 w) = le_bytes 4 w"
| "image_of (PU64 w) = le_bytes 8 w"
| "image_of (PChar b) = [b]"
| "image_of (PU8 b) = [b]"
| "image_of (PFloat w) = le_bytes 4 w"
| "image_of (PDouble w) = le_bytes 8 w"
| "image_of (PBool b) = [bool_byte b]"
| "image_of (PRaw bs) = bs"
| "image_of (PPtr bs) = bs"
| "image_of (PStr bs) = len32 bs @ bs"
| "image_of (PBlob bs) = len32 bs @ bs"
| "image_of (PUstr bs) = len64 bs @ bs"
| "image_of (PCStr bs) = takeWhile (\<lambda>b. b \<noteq> 0) bs @ [0]"
| "image_of (PSub fs) = concat (map image_of fs)"
| "image_of (PSubArr fss) = concat (map (\<lambda>fs. concat (map image_of fs)) fss)"
| "image_of (PVecRaw xs) = len32 xs @ concat xs"
| "image_of (PVecSub fss) = len32 fss @ concat (map (\<lambda>fs. concat (map image_of fs)) fss)"

abbreviation images_of :: "pval list \<Rightarrow> bytes" where
  "images_of fs \<equiv> concat (map image_of fs)"

lemma put_Nil [simp]: "base + snd s \<le> length (fst s) \<Longrightarrow> put [] base s = Ok s"
  by (cases s) (simp add: put_def poke_def)

lemma put_put:
  "bindO (put a base s) (put b base) = put (a @ b) base s"
  by (auto simp: put_def poke_def ac_simps split: option.splits)

lemma put_out_of_range: "length (fst s) < base + snd s + length bs \<Longrightarrow> put bs base s = Undef"
  by (simp add: put_def poke_def)

lemma put_nested:
  assumes "length bs < 2 ^ 32"
  shows "mapO (add_uoff (snd s)) (put bs (base + snd s) (fst s, 0)) = put bs base s"
proof -
  have "unat (of_nat (length bs) :: u32) = length bs"
    using assms by (simp add: unat_of_nat)
  then show ?thesis
    by (cases "poke (fst s) (base + snd s) bs") (simp_all add: put_def add_uoff_def)
qed

text \<open>
  Encoding the empty run is defined only inside the block, so the refinement is stated for
  offsets inside it; \<open>put_inside\<close> says that a successful write stays inside.
\<close>

lemma put_inside:
  "put bs base s = Ok s' \<Longrightarrow> base + snd s \<le> length (fst s) \<Longrightarrow> base + snd s' \<le> length (fst s')"
  by (auto simp: put_def mem_simps split: option.splits)

lemma bindO_put_refine:
  assumes "base + snd s \<le> length (fst s)"
    and "\<And>s'. base + snd s' \<le> length (fst s') \<Longrightarrow> g s' = put b base s'"
  shows "bindO (put a base s) g = put (a @ b) base s"
proof -
  have "bindO (put a base s) g = bindO (put a base s) (put b base)"
  proof (cases "put a base s")
    case (Ok s')
    with put_inside [OF Ok assms(1)] assms(2) [of s'] show ?thesis by simp
  qed simp_all
  then show ?thesis by (simp add: put_put)
qed

lemma encode_st_image:
  "base + snd s \<le> length (fst s) \<Longrightarrow> encode_st xs base s = put (concat xs) base s"
  by (induction xs arbitrary: s) (auto intro: bindO_put_refine)

lemma pack_image:
  assumes "\<And>v s base. v \<in> set vs \<Longrightarrow> length (image_of v) < 2 ^ 32 \<Longrightarrow>
      base + snd s \<le> length (fst s) \<Longrightarrow> encode v base s = put (image_of v) base s"
    and "length (images_of vs) < 2 ^ 32" and "base + snd s \<le> length (fst s)"
  shows "pack vs base s = put (images_of vs) base s"
  using assms
proof (induction vs arbitrary: s)
  case Nil
  then show ?case by simp
next
  case (Cons v vs)
  then show ?case by (auto intro!: bindO_put_refine)
qed

lemma encode_subs_image:
  assumes "\<And>vs v s base. vs \<in> set fss \<Longrightarrow> v \<in> set vs \<Longrightarrow> length (image_of v) < 2 ^ 32 \<Longrightarrow>
      base + snd s \<le> length (fst s) \<Longrightarrow> encode v base s = put (image_of v) base s"
    and "length (concat (map images_of fss)) < 2 ^ 32" and "base + snd s \<le> length (fst s)"
  shows "encode_subs fss base s = put (concat (map images_of fss)) base s"
  using assms
proof (induction fss arbitrary: s)
  case Nil
  then show ?case by simp
next
  case (Cons fs fss)
  have pk: "pack fs (base + snd s) (fst s, 0) = put (images_of fs) (base + snd s) (fst s, 0)"
    by (rule pack_image, rule Cons.prems(1) [of fs]) (use Cons.prems(2,3) in simp_all)
  have "mapO (add_uoff (snd s)) (pack fs (base + snd s) (fst s, 0)) = put (images_of fs) base s"
    unfolding pk using Cons.prems(2) by (intro put_nested) simp
  moreover have "encode_subs fss base s' = put (concat (map images_of fss)) base s'"
    if "base + snd s' \<le> length (fst s')" for s'
    by (rule Cons.IH, rule Cons.prems(1)) (use Cons.prems(2) that in simp_all)
  ultimately show ?case
    using Cons.prems(3) by (simp add: bindO_put_refine)
qed

theorem encode_image:
  assumes "length (image_of v) < 2 ^ 32" and "base + snd s \<le> length (fst s)"
  shows "encode v base s = put (image_of v) base s"
  using assms
proof (induction v arbitrary: base s)
  case (PSub fs)
  have pk: "pack fs (base + snd s) (fst s, 0) = put (images_of fs) (base + snd s) (fst s, 0)"
    by (rule pack_image, rule PSub.IH) (use PSub.prems in simp_all)
  show ?case
    using PSub.prems(1) by (simp add: pk put_nested)
next
  case (PSubArr fss)
  have "encode_subs fss base s = put (concat (map images_of fss)) base s"
    by (rule encode_subs_image, rule PSubArr.IH) (use PSubArr.prems in simp_all)
  then show ?case by simp
next
  case (PVecSub fss)
  have "encode_subs fss base s' = put (concat (map images_of fss)) base s'"
    if "base + snd s' \<le> length (fst s')" for s'
    by (rule encode_subs_image, rule PVecSub.IH) (use PVecSub.prems that in simp_all)
  with PVecSub.prems show ?case by (simp add: bindO_put_refine)
qed (auto simp: Let_def put_put encode_st_image intro!: bindO_put_refine)


section \<open>Decoding the image of a value\<close>

text \<open>
  \<open>codable v t\<close>: \<open>v\<close> is a value of the C++ type \<open>t\<close> that the format can carry: a vector's length
  fits its count field, a C string has no inner zero, and (see \<open>decode_vec_sub_repeats\<close> below)
  a vector of packable structs is empty.
\<close>

fun codable :: "pval \<Rightarrow> pty \<Rightarrow> bool" and codables :: "pval list \<Rightarrow> pty list \<Rightarrow> bool" where
  "codable (PI32 w) t \<longleftrightarrow> t = TI32"
| "codable (PU32 w) t \<longleftrightarrow> t = TU32"
| "codable (PU64 w) t \<longleftrightarrow> t = TU64"
| "codable (PChar b) t \<longleftrightarrow> t = TChar"
| "codable (PU8 b) t \<longleftrightarrow> t = TU8"
| "codable (PFloat w) t \<longleftrightarrow> t = TFloat"
| "codable (PDouble w) t \<longleftrightarrow> t = TDouble"
| "codable (PBool b) t \<longleftrightarrow> t = TBool"
| "codable (PRaw bs) t \<longleftrightarrow> t = TRaw (length bs)"
| "codable (PPtr bs) t \<longleftrightarrow> t = TPtr (length bs)"
| "codable (PStr bs) t \<longleftrightarrow> t = TStr"
| "codable (PBlob bs) t \<longleftrightarrow> t = TBlob"
| "codable (PUstr bs) t \<longleftrightarrow> t = TUstr"
| "codable (PCStr bs) t \<longleftrightarrow> t = TCStr \<and> 0 \<notin> set bs"
| "codable (PSub fs) t \<longleftrightarrow> (case t of TSub ts \<Rightarrow> codables fs ts | _ \<Rightarrow> False)"
| "codable (PSubArr fss) t \<longleftrightarrow>
     (case t of TSubArr k ts \<Rightarrow> length fss = k \<and> list_all (\<lambda>fs. codables fs ts) fss | _ \<Rightarrow> False)"
| "codable (PVecRaw xs) t \<longleftrightarrow>
     (case t of TVecRaw k \<Rightarrow> length xs < 2 ^ 32 \<and> list_all (\<lambda>x. length x = k) xs | _ \<Rightarrow> False)"
| "codable (PVecSub fss) t \<longleftrightarrow> (case t of TVecSub ts \<Rightarrow> fss = [] | _ \<Rightarrow> False)"
| "codables [] ts \<longleftrightarrow> ts = []"
| "codables (v # vs) ts \<longleftrightarrow> (case ts of [] \<Rightarrow> False | t # ts' \<Rightarrow> codable v t \<and> codables vs ts')"

text \<open>\<open>holds d i bs\<close>: the bytes \<open>bs\<close> lie in the memory at index \<open>i\<close>.\<close>

definition holds :: "bytes \<Rightarrow> nat \<Rightarrow> bytes \<Rightarrow> bool" where
  "holds d i bs \<longleftrightarrow> peek d i (length bs) = Some bs"

lemma holds_iff: "holds d i bs \<longleftrightarrow> i + length bs \<le> length d \<and> take (length bs) (drop i d) = bs"
  by (simp add: holds_def peek_def)

lemma holds_append: "holds d i (a @ b) \<longleftrightarrow> holds d i a \<and> holds d (i + length a) b"
proof (cases "i + length a + length b \<le> length d")
  case True
  then have len: "length (take (length a) (drop i d)) = length a" by simp
  have "take (length a + length b) (drop i d) =
      take (length a) (drop i d) @ take (length b) (drop (i + length a) d)"
    by (simp add: take_add add.commute)
  then have "take (length a + length b) (drop i d) = a @ b \<longleftrightarrow>
      take (length a) (drop i d) = a \<and> take (length b) (drop (i + length a) d) = b"
    using append_eq_append_conv [OF disjI1 [OF len]] by simp
  with True show ?thesis by (simp add: holds_iff add.assoc)
next
  case False
  then show ?thesis by (simp add: holds_iff)
qed

lemma holds_split: "holds d i bs \<Longrightarrow> drop i d = bs @ drop (i + length bs) d"
  using append_take_drop_id [of "length bs" "drop i d"] by (simp add: holds_iff add.commute)

lemma holds_pre: "holds (pre @ bs @ post) (length pre) bs"
  by (simp add: holds_def peek_append)

lemma sz_add_small [simp]: "a + b \<le> unat (n :: u32) \<Longrightarrow> sz_add a b = a + b"
proof -
  assume "a + b \<le> unat n"
  also have "unat n < 2 ^ LENGTH(32)" by (rule unsigned_less)
  finally show ?thesis by (simp add: sz_add_def)
qed

lemma read_at_holds: "holds d i bs \<Longrightarrow> read_at d i (length bs) = Ok bs"
  by (simp add: holds_def read_at_def)

lemma take_field_holds:
  assumes "holds d (p + off) bs" and "off + length bs \<le> unat n" and "k = length bs"
  shows "take_field d p n off k = Ok (bs, off + length bs)"
  using assms by (simp add: take_field_def read_at_holds)

lemma take_ptr_holds:
  assumes "holds d (p + off) bs" and "off + length bs \<le> unat n"
  shows "take_ptr d p n off (length bs) = Ok (bs, off + length bs)"
  using assms by (simp add: take_ptr_def Let_def read_at_holds)

lemma take_cstr_holds:
  assumes h: "holds d (p + off) (bs @ [0])" and "0 \<notin> set bs" and "off + length bs + 1 \<le> unat n"
  shows "take_cstr d p n off = Ok (bs, off + length bs + 1)"
proof -
  define rest where "rest = drop (p + off + Suc (length bs)) d"
  have d: "drop (p + off) d = bs @ 0 # rest"
    using holds_split [OF h] by (simp add: rest_def)
  have len: "p + off + length bs < length d"
    using h by (simp add: holds_iff)
  have "takeWhile (\<lambda>b. b \<noteq> 0) (bs @ 0 # rest) = bs"
    using assms(2) by (induction bs) auto
  with d len assms(3) show ?thesis
    by (simp add: take_cstr_def Let_def)
qed


lemma unat_minus_off: "off \<le> unat n \<Longrightarrow> unat (n - of_nat off :: u32) = unat n - off"
proof -
  assume le: "off \<le> unat n"
  then have off: "unat (of_nat off :: u32) = off"
    using le_less_trans [OF le unsigned_less] by (simp add: unat_of_nat)
  with le show ?thesis by (simp add: unat_sub word_le_nat_alt)
qed

lemma unat_of_nat_le: "k \<le> unat (n :: u32) \<Longrightarrow> unat (of_nat k :: u32) = k"
proof -
  assume "k \<le> unat n"
  also have "unat n < 2 ^ LENGTH(32)" by (rule unsigned_less)
  finally show ?thesis by (simp add: unat_of_nat)
qed

lemma le_word_len32 [simp]:
  "length xs \<le> unat (n :: u32) \<Longrightarrow> unat (le_word (len32 xs) :: u32) = length xs"
  by (simp add: len32_def byte_simps unat_of_nat_le)

lemma unpack_images:
  assumes "\<And>v t d p off n. v \<in> set vs \<Longrightarrow> codable v t \<Longrightarrow> holds d (p + off) (image_of v) \<Longrightarrow>
      off + length (image_of v) \<le> unat n \<Longrightarrow> decode t d p n off = Ok (v, off + length (image_of v))"
    and "codables vs ts" and "holds d (p + off) (images_of vs)"
    and "off + length (images_of vs) \<le> unat n"
  shows "unpack ts d p n off = Ok (vs, off + length (images_of vs))"
  using assms
proof (induction vs arbitrary: ts off)
  case Nil
  then show ?case by simp
next
  case (Cons v vs)
  from Cons.prems(2) obtain t ts' where ts: "ts = t # ts'" "codable v t" "codables vs ts'"
    by (cases ts) auto
  let ?o = "off + length (image_of v)"
  have h: "holds d (p + off) (image_of v)" "holds d (p + ?o) (images_of vs)"
    using Cons.prems(3) by (simp_all add: holds_append add.assoc)
  have "decode t d p n off = Ok (v, ?o)"
    by (rule Cons.prems(1)) (use Cons.prems(4) h(1) ts(2) in simp_all)
  moreover have "unpack ts' d p n ?o = Ok (vs, ?o + length (images_of vs))"
    by (rule Cons.IH, rule Cons.prems(1)) (use Cons.prems(4) h(2) ts(3) in simp_all)
  ultimately show ?case by (simp add: ts(1))
qed

lemma decode_subs_images:
  assumes "\<And>vs v t d p off n. vs \<in> set fss \<Longrightarrow> v \<in> set vs \<Longrightarrow> codable v t \<Longrightarrow>
      holds d (p + off) (image_of v) \<Longrightarrow>
      off + length (image_of v) \<le> unat n \<Longrightarrow> decode t d p n off = Ok (v, off + length (image_of v))"
    and "list_all (\<lambda>fs. codables fs ts) fss"
    and "holds d (p + off) (concat (map images_of fss))"
    and "off + length (concat (map images_of fss)) \<le> unat n"
  shows "iterO (length fss)
      (\<lambda>s. mapO (\<lambda>(vs, u). (fst s @ [vs], snd s + unat (of_nat u :: u32)))
             (unpack ts d (p + snd s) (n - of_nat (snd s)) 0))
      (acc, off) = Ok (acc @ fss, off + length (concat (map images_of fss)))"
  using assms
proof (induction fss arbitrary: acc off)
  case Nil
  then show ?case by simp
next
  case (Cons fs fss)
  let ?l = "length (images_of fs)"
  have h: "holds d (p + off + 0) (images_of fs)" "holds d (p + (off + ?l)) (concat (map images_of fss))"
    using Cons.prems(3) by (simp_all add: holds_append add.assoc)
  have le: "off + ?l \<le> unat n" using Cons.prems(4) by simp
  then have sub: "unat (n - of_nat off :: u32) = unat n - off" by (simp add: unat_minus_off)
  have "unpack ts d (p + off) (n - of_nat off) 0 = Ok (fs, 0 + ?l)"
    by (rule unpack_images, rule Cons.prems(1) [of fs]) (use Cons.prems(2) h(1) sub le in simp_all)
  moreover have "unat (of_nat ?l :: u32) = ?l" by (rule unat_of_nat_le [of _ n]) (use le in simp)
  moreover have "iterO (length fss)
      (\<lambda>s. mapO (\<lambda>(vs, u). (fst s @ [vs], snd s + unat (of_nat u :: u32)))
             (unpack ts d (p + snd s) (n - of_nat (snd s)) 0))
      (acc @ [fs], off + ?l) = Ok ((acc @ [fs]) @ fss, off + ?l + length (concat (map images_of fss)))"
    by (rule Cons.IH, rule Cons.prems(1)) (use Cons.prems(2,4) h(2) in simp_all)
  ultimately show ?case by simp
qed

lemma take_st_images:
  assumes "list_all (\<lambda>x. length x = k) xs" and "holds d (p + off) (concat xs)"
    and "off + length (concat xs) \<le> unat n"
  shows "iterO (length xs) (take_st d p n k) (acc, off) = Ok (acc @ xs, off + length (concat xs))"
  using assms
proof (induction xs arbitrary: acc off)
  case Nil
  then show ?case by simp
next
  case (Cons x xs)
  then have h: "holds d (p + off) x" "holds d (p + (off + length x)) (concat xs)"
    by (simp_all add: holds_append add.assoc)
  with Cons.prems have "take_st d p n k (acc, off) = Ok (acc @ [x], off + length x)"
    by (simp add: take_st_def take_field_holds)
  with Cons.IH [of "off + length x" "acc @ [x]"] Cons.prems h(2) show ?case by simp
qed


lemma le_word_len64 [simp]:
  assumes "length xs \<le> unat (n :: u32)"
  shows "unat (le_word (len64 xs) :: u64) = length xs"
proof -
  have "unat n < 2 ^ LENGTH(32)" by (rule unsigned_less)
  with assms show ?thesis by (simp add: len64_def byte_simps unat_of_nat)
qed

lemma length_len32 [simp]: "length (len32 xs) = 4" and length_len64 [simp]: "length (len64 xs) = 8"
  by (simp_all add: len32_def len64_def)

lemma decode_image:
  assumes "codable v t" and "holds d (p + off) (image_of v)"
    and "off + length (image_of v) \<le> unat (n :: u32)"
  shows "decode t d p n off = Ok (v, off + length (image_of v))"
  using assms
proof (induction v arbitrary: t d p off n)
  case (PStr bs)
  then have "holds d (p + off) (len32 bs)" "holds d (p + (off + 4)) bs"
    by (simp_all add: holds_append add.assoc)
  moreover have "unat (le_word (len32 bs) :: u32) = length bs"
    by (rule le_word_len32 [of _ n]) (use PStr in simp)
  ultimately show ?case using PStr by (simp add: take_field_holds)
next
  case (PBlob bs)
  then have "holds d (p + off) (len32 bs)" "holds d (p + (off + 4)) bs"
    by (simp_all add: holds_append add.assoc)
  moreover have "unat (le_word (len32 bs) :: u32) = length bs"
    by (rule le_word_len32 [of _ n]) (use PBlob in simp)
  ultimately show ?case using PBlob by (simp add: take_field_holds)
next
  case (PUstr bs)
  then have "holds d (p + off) (len64 bs)" "holds d (p + (off + 8)) bs"
    by (simp_all add: holds_append add.assoc)
  moreover have "unat (le_word (len64 bs) :: u64) = length bs"
    by (rule le_word_len64 [of _ n]) (use PUstr in simp)
  ultimately show ?case using PUstr by (simp add: take_field_holds)
next
  case (PCStr bs)
  then have tw: "takeWhile (\<lambda>b. b \<noteq> 0) bs = bs" by (auto simp: takeWhile_eq_all_conv)
  with PCStr show ?case by (simp add: take_cstr_holds tw)
next
  case (PSub fs)
  then obtain ts where ts: "t = TSub ts" "codables fs ts" by (auto split: pty.splits)
  let ?l = "length (images_of fs)"
  have le: "off + ?l \<le> unat n" using PSub.prems by simp
  have "unpack ts d (p + off) (n - of_nat off) 0 = Ok (fs, 0 + ?l)"
    by (rule unpack_images, rule PSub.IH) (use PSub.prems ts le in \<open>simp_all add: unat_minus_off\<close>)
  moreover have "unat (of_nat ?l :: u32) = ?l" by (rule unat_of_nat_le [of _ n]) (use le in simp)
  ultimately show ?case by (simp add: ts(1))
next
  case (PSubArr fss)
  then obtain ts where ts: "t = TSubArr (length fss) ts" "list_all (\<lambda>fs. codables fs ts) fss"
    by (auto split: pty.splits)
  show ?case
    unfolding ts(1) decode.simps
    by (subst decode_subs_images [OF PSubArr.IH]) (use PSubArr.prems ts in simp_all)
next
  case (PVecRaw xs)
  then obtain k where k: "t = TVecRaw k" "length xs < 2 ^ 32" "list_all (\<lambda>x. length x = k) xs"
    by (auto split: pty.splits)
  have h: "holds d (p + off) (len32 xs)" "holds d (p + (off + 4)) (concat xs)"
    using PVecRaw.prems by (simp_all add: holds_append add.assoc)
  moreover have "unat (le_word (len32 xs) :: u32) = length xs"
    using k(2) by (simp add: len32_def byte_simps unat_of_nat)
  moreover have "iterO (length xs) (take_st d p n k) ([], off + 4) = Ok ([] @ xs, off + 4 + length (concat xs))"
    by (rule take_st_images) (use k h PVecRaw.prems in simp_all)
  ultimately show ?case using PVecRaw.prems by (simp add: k(1) take_field_holds)
next
  case (PVecSub fss)
  then obtain ts where "t = TVecSub ts" "fss = []" by (auto split: pty.splits)
  with PVecSub.prems show ?case
    by (simp add: take_field_holds len32_def byte_simps)
qed (simp_all add: take_field_holds take_ptr_holds byte_simps bool_byte_def)

section \<open>Properties of the serialisation\<close>

text \<open>
  C4: packing a list of fields and unpacking it returns the same fields and the same offset,
  wherever the image sits in the receiver's memory and whatever surrounds it, as long as the
  packet fits its 32-bit length and the sender's block is large enough.
\<close>

theorem pack_unpack_roundtrip:
  assumes "codables vs ts" and "length (images_of vs) < 2 ^ 32"
    and "base + length (images_of vs) \<le> length m"
  shows "\<exists>m'. pack vs base (m, 0) = Ok (m', length (images_of vs)) \<and> length m' = length m \<and>
    take base m' = take base m \<and>
    unpack ts m' base (of_nat (length (images_of vs))) 0 = Ok (vs, length (images_of vs))"
proof -
  let ?bs = "images_of vs"
  obtain m' where m': "poke m base ?bs = Some m'"
    using assms(3) by (auto simp: poke_def)
  have "pack vs base (m, 0) = put ?bs base (m, 0)"
    by (rule pack_image, rule encode_image) (use assms in simp_all)
  then have pk: "pack vs base (m, 0) = Ok (m', length ?bs)"
    by (simp add: put_def m')
  have n: "unat (of_nat (length ?bs) :: u32) = length ?bs"
    using assms(2) by (simp add: unat_of_nat)
  have h: "holds m' (base + 0) ?bs"
    using m' by (auto simp: poke_Some holds_iff)
  have "unpack ts m' base (of_nat (length ?bs)) 0 = Ok (vs, 0 + length ?bs)"
    by (rule unpack_images, rule decode_image) (use assms(1) n h in simp_all)
  moreover have "take base m' = take base m" using m' by (auto simp: poke_Some)
  ultimately show ?thesis using pk length_poke [OF m'] by simp
qed


section \<open>Memory safety of the decoder\<close>

text \<open>
  \<open>checked t\<close>: every read of the decoder for \<open>t\<close> is guarded.  Left out are the C string (whose
  \<open>strlen\<close> runs before the check), the 64-bit counted string (whose check wraps around) and the
  vector of packable structs (whose elements are read at the wrong address).
\<close>

fun checked :: "pty \<Rightarrow> bool" where
  "checked (TRaw k) \<longleftrightarrow> k < 2 ^ 32"
| "checked (TPtr k) \<longleftrightarrow> k < 2 ^ 32"
| "checked (TVecRaw k) \<longleftrightarrow> k < 2 ^ 32"
| "checked (TSub ts) \<longleftrightarrow> list_all checked ts"
| "checked (TSubArr k ts) \<longleftrightarrow> list_all checked ts"
| "checked TUstr \<longleftrightarrow> False"
| "checked TCStr \<longleftrightarrow> False"
| "checked (TVecSub ts) \<longleftrightarrow> False"
| "checked _ \<longleftrightarrow> True"

fun in_packet :: "u32 \<Rightarrow> nat \<Rightarrow> ('a \<times> nat) pack_result \<Rightarrow> bool" where
  "in_packet n off (Ok (v, o')) \<longleftrightarrow> off \<le> o' \<and> o' \<le> unat n"
| "in_packet n off (Throw e) \<longleftrightarrow> e = YPACK_ERR_DATA_LEN"
| "in_packet n off Undef \<longleftrightarrow> False"

lemma in_packet_map [simp]:
  "in_packet n off (mapO (\<lambda>(v, o'). (f v, o')) r) = in_packet n off r"
  by (cases r) auto

lemma in_packet_bind:
  assumes "in_packet n off r"
    and "\<And>v o1. off \<le> o1 \<Longrightarrow> o1 \<le> unat n \<Longrightarrow> in_packet n o1 (f (v, o1))"
  shows "in_packet n off (bindO r f)"
proof (cases r)
  case (Ok x)
  obtain v o1 where x: "x = (v, o1)" by (cases x)
  with assms(1) Ok have "off \<le> o1" "o1 \<le> unat n" by auto
  with assms(2) [of o1 v] show ?thesis
    by (cases "f (v, o1)") (auto simp: Ok x)
qed (use assms(1) in auto)

lemma unat_u32_bound: "unat (w :: u32) < 2 ^ 32"
proof -
  have "unat w < 2 ^ LENGTH(32)" by (rule unsigned_less)
  then show ?thesis by simp
qed

lemma sz_add_u32: "off \<le> unat (n :: u32) \<Longrightarrow> k < 2 ^ 32 \<Longrightarrow> sz_add off k = off + k"
  using unat_u32_bound [of n] by (simp add: sz_add_def)

lemma take_field_in_packet:
  assumes "off \<le> unat n" and "k < 2 ^ 32" and "p + unat n \<le> length d"
  shows "in_packet n off (take_field d p n off k)" and "in_packet n off (take_ptr d p n off k)"
  using assms
  by (auto simp: take_field_def take_ptr_def Let_def read_at_def peek_def sz_add_u32)

lemma take_st_in_packet:
  assumes "snd s \<le> unat n" and "k < 2 ^ 32" and "p + unat n \<le> length d"
  shows "in_packet n (snd s) (take_st d p n k s)"
  using take_field_in_packet(1) [OF assms]
  by (cases "take_field d p n (snd s) k") (auto simp: take_st_def)

lemma iterO_in_packet:
  assumes "\<And>s. snd s \<le> unat n \<Longrightarrow> in_packet n (snd s) (f s)" and "snd s \<le> unat n"
  shows "in_packet n (snd s) (iterO k f s)"
  using assms(2)
proof (induction k arbitrary: s)
  case 0
  then show ?case by (cases s) simp
next
  case (Suc k)
  show ?case
    unfolding iterO.simps
    by (rule in_packet_bind [OF assms(1) [OF Suc.prems]]) (use Suc.IH in \<open>metis snd_conv\<close>)
qed

lemma sub_in_packet:
  assumes r: "in_packet (n - of_nat off) 0 r" and off: "off \<le> unat n"
  shows "in_packet n off (mapO (\<lambda>(vs, u). (g vs, off + unat (of_nat u :: u32))) r)"
proof (cases r)
  case (Ok x)
  obtain vs u where x: "x = (vs, u)" by (cases x)
  with r Ok off have u: "u \<le> unat n - off" by (simp add: unat_minus_off)
  then have "unat (of_nat u :: u32) = u" by (intro unat_of_nat_le [of _ n]) simp
  with u off show ?thesis by (simp add: Ok x)
qed (use r in auto)

lemma unpack_in_packet:
  assumes "\<And>t d p n off. t \<in> set ts \<Longrightarrow> checked t \<Longrightarrow> off \<le> unat n \<Longrightarrow> p + unat n \<le> length d \<Longrightarrow>
      in_packet n off (decode t d p n off)"
    and "list_all checked ts" and "off \<le> unat n" and "p + unat n \<le> length d"
  shows "in_packet n off (unpack ts d p n off)"
  using assms
proof (induction ts arbitrary: off)
  case Nil
  then show ?case by simp
next
  case (Cons t ts)
  show ?case
    unfolding unpack.simps
  proof (rule in_packet_bind)
    show "in_packet n off (decode t d p n off)"
      by (rule Cons.prems(1)) (use Cons.prems(2-4) in simp_all)
    fix v o1 assume "off \<le> o1" "o1 \<le> unat n"
    then have "in_packet n o1 (unpack ts d p n o1)"
      by (intro Cons.IH) (use Cons.prems in simp_all)
    then show "in_packet n o1 (case (v, o1) of (v, o1) \<Rightarrow>
        mapO (\<lambda>(vs, o'). (v # vs, o')) (unpack ts d p n o1))"
      by simp
  qed
qed


lemma decode_in_packet:
  assumes "checked t" and "off \<le> unat n" and "p + unat n \<le> length d"
  shows "in_packet n off (decode t d p n off)"
  using assms
proof (induction t arbitrary: d p n off)
  case TStr
  then show ?case
    by (auto intro!: in_packet_bind take_field_in_packet unat_u32_bound)
next
  case TBlob
  then show ?case
    by (auto intro!: in_packet_bind take_field_in_packet unat_u32_bound)
next
  case (TSub ts)
  have "in_packet (n - of_nat off) 0 (unpack ts d (p + off) (n - of_nat off) 0)"
    by (rule unpack_in_packet, rule TSub.IH) (use TSub.prems in \<open>simp_all add: unat_minus_off\<close>)
  with TSub.prems show ?case by (simp add: sub_in_packet)
next
  case (TSubArr k ts)
  have step: "in_packet n (snd s) (mapO (\<lambda>(vs, u). (fst s @ [vs], snd s + unat (of_nat u :: u32)))
      (unpack ts d (p + snd s) (n - of_nat (snd s)) 0))" if "snd s \<le> unat n" for s
  proof (rule sub_in_packet [OF _ that])
    show "in_packet (n - of_nat (snd s)) 0 (unpack ts d (p + snd s) (n - of_nat (snd s)) 0)"
      by (rule unpack_in_packet, rule TSubArr.IH)
        (use TSubArr.prems that in \<open>simp_all add: unat_minus_off\<close>)
  qed
  from iterO_in_packet [where s = "([], off)", OF step] TSubArr.prems(2)
  show ?case by simp
next
  case (TVecRaw k)
  have "in_packet n o1 (iterO j (take_st d p n k) ([], o1))" if "o1 \<le> unat n" for o1 j
    using iterO_in_packet [where s = "([], o1)" and f = "take_st d p n k"] take_st_in_packet
      TVecRaw.prems that by simp
  with TVecRaw.prems show ?case
    by (auto intro!: in_packet_bind take_field_in_packet)
qed (simp_all add: take_field_in_packet)

text \<open>
  C7: unpacking any packet, whatever its bytes, into fields whose decoder is guarded never reads
  outside the packet: it returns an offset inside the packet or throws the length error.
\<close>

theorem unpack_stays_in_packet:
  assumes "list_all checked ts" and "p + unat n \<le> length d"
  shows "(\<exists>vs off. unpack ts d p n 0 = Ok (vs, off) \<and> off \<le> unat n) \<or>
    unpack ts d p n 0 = Throw YPACK_ERR_DATA_LEN"
proof -
  have "in_packet n 0 (unpack ts d p n 0)"
    by (rule unpack_in_packet, rule decode_in_packet) (use assms in simp_all)
  then show ?thesis by (cases "unpack ts d p n 0") auto
qed

definition sample_fields :: "pval list" where
  "sample_fields = [PU32 7, PStr [104, 105], PSub [PBool True, PVecRaw [[1, 2], [3, 4]]], PI32 (- 1)]"

definition sample_types :: "pty list" where
  "sample_types = [TU32, TStr, TSub [TBool, TVecRaw 2], TI32]"

lemma sample_image: "length (images_of sample_fields) = 23"
  by (simp add: sample_fields_def)

lemma sample_codable: "codables sample_fields sample_types"
  by (simp add: sample_fields_def sample_types_def)

theorem pack_unpack_roundtrip_witness:
  "\<exists>m'. pack sample_fields 2 (replicate 30 0, 0) = Ok (m', 23) \<and> length m' = 30 \<and>
    take 2 m' = take 2 (replicate 30 0) \<and> unpack sample_types m' 2 23 0 = Ok (sample_fields, 23)"
  using pack_unpack_roundtrip [OF sample_codable, of 2 "replicate 30 0"]
  by (simp add: sample_image)

theorem unpack_stays_in_packet_witness:
  "(\<exists>vs off. unpack sample_types [7, 0, 0, 0, 9, 0, 0, 0] 0 8 0 = Ok (vs, off) \<and> off \<le> unat (8 :: u32)) \<or>
   unpack sample_types [7, 0, 0, 0, 9, 0, 0, 0] 0 8 0 = Throw YPACK_ERR_DATA_LEN"
  by (rule unpack_stays_in_packet) (simp_all add: sample_types_def)

lemma iterO_repeats:
  assumes "iterO k (\<lambda>s. mapO (\<lambda>(vs, u). (fst s @ [vs], snd s + h u)) r) s = Ok s'"
    and "\<forall>v\<in>set (fst s). \<forall>w u. r = Ok (w, u) \<longrightarrow> v = w"
  shows "\<forall>v\<in>set (fst s'). \<forall>w u. r = Ok (w, u) \<longrightarrow> v = w"
  using assms
proof (induction k arbitrary: s)
  case 0
  then show ?case by simp
next
  case (Suc k)
  show ?case
  proof (cases r)
    case (Ok x)
    obtain w u where x: "x = (w, u)" by (cases x)
    show ?thesis
      by (rule Suc.IH [of "(fst s @ [w], snd s + h u)"]) (use Suc.prems in \<open>simp_all add: Ok x\<close>)
  qed simp_all
qed

lemma iterO_some_ok:
  assumes "iterO k (\<lambda>s. mapO (\<lambda>(vs, u). (fst s @ [vs], snd s + h u)) r) s = Ok s'" and "k \<noteq> 0"
  shows "\<exists>w u. r = Ok (w, u)"
  using assms by (cases k; cases r) auto

text \<open>
  a vector of packable structs is decoded wrongly: the loop of the overload passes \<open>data\<close>
  where \<open>data + *off\<close> is meant, so every element is decoded from the start of the enclosing
  packet and all elements come out equal.
\<close>

theorem decode_vec_sub_repeats:
  assumes "decode (TVecSub ts) d p n off = Ok (PVecSub vss, off')" and "vs \<in> set vss"
  shows "\<exists>u. unpack ts d p n 0 = Ok (vs, u)"
proof -
  obtain l o1 where it: "iterO (unat (le_word l :: u32))
      (\<lambda>s. mapO (\<lambda>(vs, u). (fst s @ [vs], snd s + unat (of_nat u :: u32))) (unpack ts d p n 0))
      ([], o1) = Ok (vss, off')"
    using assms(1) by (auto simp: out_simps)
  then have "unat (le_word l :: u32) \<noteq> 0"
    using assms(2) by (cases "unat (le_word l :: u32)") auto
  from iterO_some_ok [OF it this] obtain w u where w: "unpack ts d p n 0 = Ok (w, u)" by blast
  with iterO_repeats [OF it] assms(2) have "vs = w" by auto
  with w show ?thesis by blast
qed

theorem decode_vec_sub_repeats_witness:
  "\<exists>vss off'. pack [PVecSub [[PU32 5], [PU32 6]]] 0 ([0, 0, 0, 0, 0, 0, 0, 0, 0, 0, 0, 0], 0) =
      Ok ([2, 0, 0, 0, 5, 0, 0, 0, 6, 0, 0, 0], 12) \<and>
    decode (TVecSub [TU32]) [2, 0, 0, 0, 5, 0, 0, 0, 6, 0, 0, 0] 0 12 0 = Ok (PVecSub vss, off') \<and>
    (\<forall>vs\<in>set vss. \<exists>u. unpack [TU32] [2, 0, 0, 0, 5, 0, 0, 0, 6, 0, 0, 0] 0 12 0 = Ok (vs, u)) \<and>
    vss = [[PU32 2], [PU32 2]]"
proof -
  let ?d = "[2, 0, 0, 0, 5, 0, 0, 0, 6, 0, 0, 0] :: bytes"
  have pk: "pack [PVecSub [[PU32 5], [PU32 6]]] 0 ([0, 0, 0, 0, 0, 0, 0, 0, 0, 0, 0, 0], 0) = Ok (?d, 12)"
    by (simp add: put_def poke_def len32_def add_uoff_def eval_simps)
  have dec: "decode (TVecSub [TU32]) ?d 0 12 0 = Ok (PVecSub [[PU32 2], [PU32 2]], 12)"
    by (simp add: take_field_def read_at_def peek_def sz_add_def eval_simps)
  show ?thesis
    using pk dec decode_vec_sub_repeats [OF dec] by blast
qed


text \<open>
  C28: the length check of the 64-bit counted string wraps around.  A packet whose count is within
  8 of \<open>2^64\<close> passes the check, however short it is, and yields a reference far outside the
  packet, where every other overload throws the length error.
\<close>

theorem ustr_length_check_wraps:
  assumes "holds d p (le_bytes 8 (len :: u64))" and "8 \<le> unat (n :: u32)"
    and "2 ^ 64 - 8 \<le> unat len" and "length d < 2 ^ 63"
  shows "decode TUstr d p n 0 = Undef"
proof -
  have "unat len < 2 ^ LENGTH(64)" by (rule unsigned_less)
  then have "sz_add 8 (unat len) = 8 + unat len - 2 ^ 64"
    using assms(3) by (simp add: sz_add_def mod_if)
  moreover have "8 + unat len - 2 ^ 64 \<le> unat n"
    using assms(2) \<open>unat len < 2 ^ LENGTH(64)\<close> by simp
  moreover have "peek d (p + 8) (unat len) = None"
    using assms(3,4) by (simp add: peek_None)
  ultimately have big: "take_field d p n 8 (unat len) = Undef"
    by (simp add: take_field_def read_at_def)
  have "take_field d p n 0 8 = Ok (le_bytes 8 len, 8)"
    using take_field_holds [of d p 0 "le_bytes 8 len" n 8] assms(1,2) by simp
  with big show ?thesis by (simp add: byte_simps)
qed

theorem ustr_length_check_wraps_witness:
  "decode TUstr ([1, 2] @ le_bytes 8 (- 8 :: u64) @ [3]) (length ([1, 2] :: bytes)) 9 0 = Undef"
  by (rule ustr_length_check_wraps [where len = "- 8"]) (simp_all only: holds_pre, simp_all)

end
