(* ===== verification/Ys_Packet.thy ===== *)
theory Ys_Packet
  imports Ys_Pack
begin

text \<open>
  The packet frame \<open>YS_Packet\<close> of \<open>isaac/tool/ys_pack.hpp\<close>: a packed 12-byte header (magic
  number, payload length, command, error code) followed by the payload.  Its fields are read and
  written in place in a \<open>YS_Buf\<close>.
\<close>

section \<open>Header fields\<close>

definition YS_PACK_HEADER :: u16 where "YS_PACK_HEADER = 0xFFFF"

definition headerLen :: nat where "headerLen = 12"

definition pkt_header :: "bytes \<Rightarrow> u16" where "pkt_header bs = le_word (take 2 bs)"
definition pkt_dataLen :: "bytes \<Rightarrow> u32" where "pkt_dataLen bs = le_word (take 4 (drop 2 bs))"
definition pkt_cmd :: "bytes \<Rightarrow> u16" where "pkt_cmd bs = le_word (take 2 (drop 6 bs))"
definition pkt_err :: "bytes \<Rightarrow> u32" where "pkt_err bs = le_word (take 4 (drop 8 bs))"

definition totalLen :: "bytes \<Rightarrow> nat" where
  "totalLen bs = headerLen + unat (pkt_dataLen bs)"

section \<open>Framing\<close>

text \<open>
  \<open>isFullPkt\<close> returns an \<open>int32_t\<close>, here a 32-bit word: 0 for a complete packet, a positive
  number of bytes still missing, a negative number for a bad packet.
\<close>

definition isFullPkt :: "ys_buf \<Rightarrow> 32 word" where
  "isFullPkt b =
     (let c = contents b in
      if bempty b then ucast (bcap b)
      else if blen b < of_nat headerLen then - 1
      else if pkt_header c \<noteq> YS_PACK_HEADER then - 1
      else if blen b < of_nat (totalLen c) then ucast (of_nat (totalLen c) - blen b)
      else 0)"

text \<open>\<open>store\<close> writes a field at an address of the block.\<close>

definition store :: "nat \<Rightarrow> bytes \<Rightarrow> bytes \<Rightarrow> bytes pack_result" where
  "store i bs m = (case poke m i bs of None \<Rightarrow> Undef | Some m' \<Rightarrow> Ok m')"

text \<open>
  \<open>YS_Packet::encode\<close> (and \<open>YS_PackApi::pack_pkt\<close>, which has the same body): the header is
  written at the free end of the buffer, the fields behind it, and \<open>_ys_pack\<close> stores the payload
  length into the header; the return value of \<open>_ys_pack\<close> is ignored.
\<close>

definition encode_packet :: "pval list \<Rightarrow> u16 \<Rightarrow> ys_buf \<Rightarrow> ys_buf pack_result" where
  "encode_packet vs cmd b =
     (case bmem b of
        None \<Rightarrow> Undef
      | Some m \<Rightarrow>
          (let i = unat (blen b) in
           bindO (store i (le_bytes 2 YS_PACK_HEADER) m) (\<lambda>m1.
           bindO (store (i + 6) (le_bytes 2 cmd) m1) (\<lambda>m2.
           bindO (store (i + 8) (le_bytes 4 (0 :: u32)) m2) (\<lambda>m3.
           bindO (store (i + 2) (le_bytes 4 (0 :: u32)) m3) (\<lambda>m4.
           bindO (pack vs (i + headerLen) (m4, 0)) (\<lambda>(m5, off).
           bindO (store (i + 2) (le_bytes 4 (of_nat off :: u32)) m5) (\<lambda>m6.
             Ok (offset_buf (of_nat (headerLen + unat (of_nat off :: u32))) (b\<lparr>bmem := Some m6\<rparr>))))))))))"

text \<open>\<open>YS_Packet::decode\<close>: the fields are read behind the header at the start of the buffer.\<close>

definition decode_packet :: "pty list \<Rightarrow> ys_buf \<Rightarrow> pval list pack_result" where
  "decode_packet ts b =
     (case bmem b of
        None \<Rightarrow> Undef
      | Some m \<Rightarrow>
          (if length m < headerLen then Undef
           else mapO fst (unpack ts m headerLen (pkt_dataLen m) 0)))"

section \<open>The bytes of a packet\<close>

definition header_bytes :: "u32 \<Rightarrow> u16 \<Rightarrow> u32 \<Rightarrow> bytes" where
  "header_bytes len cmd err = le_bytes 2 YS_PACK_HEADER @ le_bytes 4 len @ le_bytes 2 cmd @ le_bytes 4 err"

definition frame :: "u16 \<Rightarrow> pval list \<Rightarrow> bytes" where
  "frame cmd vs = header_bytes (of_nat (length (images_of vs))) cmd 0 @ images_of vs"

lemma length_header_bytes [simp]: "length (header_bytes len cmd err) = 12"
  by (simp add: header_bytes_def)

lemma header_fields [simp]:
  "pkt_header (header_bytes len cmd err @ rest) = YS_PACK_HEADER"
  "pkt_dataLen (header_bytes len cmd err @ rest) = len"
  "pkt_cmd (header_bytes len cmd err @ rest) = cmd"
  "pkt_err (header_bytes len cmd err @ rest) = err"
  by (simp_all add: header_bytes_def pkt_header_def pkt_dataLen_def pkt_cmd_def pkt_err_def byte_simps)

lemma store_decomp:
  "length pre = i \<Longrightarrow> length old = length new \<Longrightarrow> store i new (pre @ old @ post) = Ok (pre @ new @ post)"
  by (simp add: store_def poke_def)


lemma block_pieces:
  assumes "i + 12 + n \<le> length m"
  shows "\<exists>pre a l c e d post. m = pre @ a @ l @ c @ e @ d @ post \<and> length pre = i \<and>
    length a = 2 \<and> length l = 4 \<and> length c = 2 \<and> length e = 4 \<and> length d = n"
proof -
  obtain pre r1 where 1: "m = pre @ r1" "length pre = i"
    using split_off [of i m] assms by auto
  obtain a r2 where 2: "r1 = a @ r2" "length a = 2"
    using split_off [of 2 r1] assms 1 by auto
  obtain l r3 where 3: "r2 = l @ r3" "length l = 4"
    using split_off [of 4 r2] assms 1 2 by auto
  obtain c r4 where 4: "r3 = c @ r4" "length c = 2"
    using split_off [of 2 r3] assms 1 2 3 by auto
  obtain e r5 where 5: "r4 = e @ r5" "length e = 4"
    using split_off [of 4 r4] assms 1 2 3 4 by auto
  obtain d post where "r5 = d @ post" "length d = n"
    using split_off [of n r5] assms 1 2 3 4 5 by auto
  with 1 2 3 4 5 show ?thesis by blast
qed

text \<open>
  Encoding a message appends exactly its frame (magic, payload length, command, error 0,
  payload) to the buffer and leaves what the buffer held before untouched.
\<close>

lemma encode_packet_frame:
  assumes wf: "buf_wf b" "bmem b = Some m" and n: "length (images_of vs) + 12 < 2 ^ 31"
    and room: "unat (blen b) + 12 + length (images_of vs) \<le> unat (bcap b)"
  shows "\<exists>b'. encode_packet vs cmd b = Ok b' \<and> buf_wf b' \<and> bcap b' = bcap b \<and>
    contents b' = contents b @ frame cmd vs"
proof -
  let ?img = "images_of vs" and ?i = "unat (blen b)"
  let ?n = "length ?img"
  have m: "length m = unat (bcap b)" using wf by (simp add: buf_wf_def)
  obtain pre a l c e d post where p: "m = pre @ a @ l @ c @ e @ d @ post" "length pre = ?i"
      "length a = 2" "length l = 4" "length c = 2" "length e = 4" "length d = ?n"
    using block_pieces [of ?i ?n m] room m by auto
  let ?h = "le_bytes 2 YS_PACK_HEADER" and ?c = "le_bytes 2 cmd" and ?z = "le_bytes 4 (0 :: u32)"
  let ?l = "le_bytes 4 (of_nat ?n :: u32)"
  have s1: "store ?i ?h m = Ok (pre @ ?h @ l @ c @ e @ d @ post)"
    using store_decomp [of pre ?i a ?h "l @ c @ e @ d @ post"] p by simp
  have s2: "store (?i + 6) ?c (pre @ ?h @ l @ c @ e @ d @ post) = Ok (pre @ ?h @ l @ ?c @ e @ d @ post)"
    using store_decomp [of "pre @ ?h @ l" "?i + 6" c ?c "e @ d @ post"] p by simp
  have s3: "store (?i + 8) ?z (pre @ ?h @ l @ ?c @ e @ d @ post) = Ok (pre @ ?h @ l @ ?c @ ?z @ d @ post)"
    using store_decomp [of "pre @ ?h @ l @ ?c" "?i + 8" e ?z "d @ post"] p by simp
  have s4: "store (?i + 2) ?z (pre @ ?h @ l @ ?c @ ?z @ d @ post) = Ok (pre @ ?h @ ?z @ ?c @ ?z @ d @ post)"
    using store_decomp [of "pre @ ?h" "?i + 2" l ?z "?c @ ?z @ d @ post"] p by simp
  let ?m4 = "pre @ ?h @ ?z @ ?c @ ?z @ d @ post"
  have "pack vs (?i + headerLen) (?m4, 0) = put ?img (?i + headerLen) (?m4, 0)"
    by (rule pack_image, rule encode_image) (use n p in \<open>simp_all add: headerLen_def\<close>)
  also have "\<dots> = Ok (pre @ ?h @ ?z @ ?c @ ?z @ ?img @ post, ?n)"
    using p by (simp add: put_def poke_def headerLen_def)
  finally have s5: "pack vs (?i + headerLen) (?m4, 0) = Ok (pre @ ?h @ ?z @ ?c @ ?z @ ?img @ post, ?n)" .
  have s6: "store (?i + 2) ?l (pre @ ?h @ ?z @ ?c @ ?z @ ?img @ post) =
      Ok (pre @ ?h @ ?l @ ?c @ ?z @ ?img @ post)"
    using store_decomp [of "pre @ ?h" "?i + 2" ?z ?l "?c @ ?z @ ?img @ post"] p by simp
  let ?m6 = "pre @ ?h @ ?l @ ?c @ ?z @ ?img @ post"
  define b' where "b' = offset_buf (of_nat (headerLen + ?n)) (b\<lparr>bmem := Some ?m6\<rparr>)"
  have un: "unat (of_nat ?n :: u32) = ?n" using n by (simp add: unat_of_nat)
  have enc: "encode_packet vs cmd b = Ok b'"
    unfolding encode_packet_def wf(2) by (simp add: s1 s2 s3 s4 s5 s6 un b'_def Let_def del: add_2_eq_Suc')
  have len: "unat (blen b') = ?i + (12 + ?n)"
    unfolding b'_def using n room by (subst offset_buf_small) (simp_all add: headerLen_def)
  have mem: "bmem b' = Some ?m6" "bcap b' = bcap b"
    by (simp_all add: b'_def offset_buf_def)
  have "buf_wf b'"
    using mem len room m p by (simp add: buf_wf_def word_le_nat_alt)
  moreover have "contents b' = contents b @ frame cmd vs"
    using mem len wf(2) p by (simp add: contents_def frame_def header_bytes_def)
  ultimately show ?thesis using enc mem(2) by blast
qed


section \<open>Receiving a packet\<close>

lemma frame_length [simp]: "length (frame cmd vs) = 12 + length (images_of vs)"
  by (simp add: frame_def)

lemma take_frame_ge:
  assumes "12 \<le> k"
  shows "take k (frame cmd vs) =
    header_bytes (of_nat (length (images_of vs))) cmd 0 @ take (k - 12) (images_of vs)"
  using assms by (simp add: frame_def)

lemma isFullPkt_of_prefix:
  assumes "contents b = take k (frame cmd vs)" and "blen b = of_nat k"
    and "k \<le> 12 + length (images_of vs)" and "length (images_of vs) + 12 < 2 ^ 31"
  shows "isFullPkt b =
    (if k = 0 then ucast (bcap b)
     else if k < 12 then - 1
     else of_nat (12 + length (images_of vs) - k))"
proof -
  let ?n = "length (images_of vs)"
  have k: "unat (of_nat k :: u64) = k" using assms(3,4) by (simp add: unat_of_nat)
  then have k0: "(of_nat k :: u64) = 0 \<longleftrightarrow> k = 0"
    using unat_eq_0 [of "of_nat k :: u64"] by simp
  have k12: "(of_nat k :: u64) < of_nat 12 \<longleftrightarrow> k < 12" by (simp add: word_less_nat_alt k)
  show ?thesis
  proof (cases "12 \<le> k")
    case True
    have un: "unat (of_nat ?n :: u32) = ?n" using assms(4) by (simp add: unat_of_nat)
    have tot: "totalLen (contents b) = 12 + ?n"
      using True by (simp add: assms(1) take_frame_ge totalLen_def headerLen_def un)
    have t: "unat (of_nat (12 + ?n) :: u64) = 12 + ?n"
      using assms(4) by (subst unat_of_nat) simp
    have lt: "(of_nat k :: u64) < of_nat (12 + ?n) \<longleftrightarrow> k < 12 + ?n"
      by (simp only: word_less_nat_alt k t)
    have diff: "(of_nat (12 + ?n) :: u64) - of_nat k = of_nat (12 + ?n - k)"
      using assms(3) by (simp add: of_nat_diff)
    have uc: "(ucast (of_nat (12 + ?n - k) :: u64) :: 32 word) = of_nat (12 + ?n - k)"
    proof -
      have "unat (of_nat (12 + ?n - k) :: u64) = 12 + ?n - k"
        using assms(4) by (subst unat_of_nat) simp
      then show ?thesis by (metis of_nat_unat)
    qed
    have hd: "pkt_header (contents b) = YS_PACK_HEADER"
      using True by (simp add: assms(1) take_frame_ge)
    have "isFullPkt b = (if k = 0 then ucast (bcap b) else if k < 12 then - 1
        else if k < 12 + ?n then of_nat (12 + ?n - k) else 0)"
      unfolding isFullPkt_def Let_def bempty_def assms(2) headerLen_def
      by (simp only: k0 k12 hd tot lt diff uc simp_thms if_False)
    with True assms(3) show ?thesis by (cases "k = 12 + ?n") simp_all
  next
    case False
    then show ?thesis
      using k0 k12 by (simp add: isFullPkt_def bempty_def assms(2) headerLen_def)
  qed
qed

text \<open>
  framing of a byte stream.  While a receiver has read \<open>k\<close> bytes of a message, \<open>isFullPkt\<close>
  returns the buffer capacity for \<open>k = 0\<close>, the number of bytes still missing once the header is
  there, and 0 exactly when the message is complete; but with a part of the header only it
  returns -1, which its callers take as a corrupt packet.
\<close>

theorem isFullPkt_prefix:
  assumes "contents b = take k (frame cmd vs)" and "blen b = of_nat k"
    and "k \<le> 12 + length (images_of vs)" and "length (images_of vs) + 12 < 2 ^ 31"
  shows "isFullPkt b =
    (if k = 0 then ucast (bcap b)
     else if k < 12 then - 1
     else of_nat (12 + length (images_of vs) - k))"
  using assms by (rule isFullPkt_of_prefix)

lemma unpack_frame:
  assumes "codables vs ts" and "length (images_of vs) + 12 < 2 ^ 31"
    and "take (12 + length (images_of vs)) m = frame cmd vs"
  shows "unpack ts m headerLen (of_nat (length (images_of vs))) 0 = Ok (vs, length (images_of vs))"
    and "pkt_cmd m = cmd" and "pkt_err m = 0" and "pkt_dataLen m = of_nat (length (images_of vs))"
    and "headerLen \<le> length m" and "pkt_header m = YS_PACK_HEADER"
proof -
  let ?n = "length (images_of vs)"
  have un: "unat (of_nat ?n :: u32) = ?n" using assms(2) by (simp add: unat_of_nat)
  define post where "post = drop (12 + ?n) m"
  have mm: "m = header_bytes (of_nat ?n) cmd 0 @ images_of vs @ post"
    using append_take_drop_id [of "12 + ?n" m] assms(3) by (simp add: post_def frame_def)
  have "unpack ts m 12 (of_nat ?n) 0 = Ok (vs, 0 + ?n)"
  proof (rule unpack_images, rule decode_image)
    show "holds m (12 + 0) (images_of vs)"
      using holds_pre [of "header_bytes (of_nat ?n) cmd 0" "images_of vs" post] by (simp add: mm)
  qed (use assms(1) un in simp_all)
  then show "unpack ts m headerLen (of_nat ?n) 0 = Ok (vs, ?n)" by (simp add: headerLen_def)
  show "pkt_cmd m = cmd" "pkt_err m = 0" "pkt_dataLen m = of_nat ?n" "headerLen \<le> length m"
    "pkt_header m = YS_PACK_HEADER"
    by (simp_all add: mm headerLen_def)
qed

lemma frame_in_block:
  assumes "contents b = frame cmd vs" and "buf_wf b"
  shows "\<exists>m. bmem b = Some m \<and> unat (blen b) = 12 + length (images_of vs) \<and>
    take (12 + length (images_of vs)) m = frame cmd vs"
proof -
  obtain m where m: "bmem b = Some m"
    using arg_cong [OF assms(1), of length] by (cases "bmem b") (simp_all add: contents_def)
  then have "unat (blen b) \<le> length m" using assms(2) by (simp add: buf_wf_def word_le_nat_alt)
  moreover have c: "take (unat (blen b)) m = frame cmd vs" using m assms(1) by (simp add: contents_def)
  ultimately have "unat (blen b) = length (frame cmd vs)" by (metis length_take min.absorb2)
  then have "unat (blen b) = 12 + length (images_of vs)" by simp
  with m c show ?thesis by simp
qed

text \<open>
  C14: a message a peer encoded into an empty buffer is accepted as complete and decodes to the
  fields that were encoded.
\<close>

theorem packet_roundtrip:
  assumes "buf_wf b" and "bmem b = Some m" and "blen b = 0" and "codables vs ts"
    and "length (images_of vs) + 12 < 2 ^ 31" and "12 + length (images_of vs) \<le> unat (bcap b)"
  shows "\<exists>b'. encode_packet vs cmd b = Ok b' \<and> isFullPkt b' = 0 \<and>
    pkt_cmd (contents b') = cmd \<and> decode_packet ts b' = Ok vs"
proof -
  let ?n = "length (images_of vs)"
  obtain b' where b': "encode_packet vs cmd b = Ok b'" "buf_wf b'" "bcap b' = bcap b"
      "contents b' = contents b @ frame cmd vs"
    using encode_packet_frame [OF assms(1,2,5), of cmd] assms(3,6) by auto
  from assms(2,3) have "contents b = []" by (simp add: contents_def)
  with b'(4) have c: "contents b' = frame cmd vs" by simp
  obtain m' where m': "bmem b' = Some m'" "unat (blen b') = 12 + ?n" "take (12 + ?n) m' = frame cmd vs"
    using frame_in_block [OF c b'(2)] by blast
  then have "blen b' = of_nat (12 + ?n)" by (metis of_nat_unat ucast_id)
  then have full: "isFullPkt b' = 0"
    using isFullPkt_of_prefix [of b' "12 + ?n" cmd vs] c assms(5) by simp
  have "decode_packet ts b' = Ok vs"
    using unpack_frame [OF assms(4,5) m'(3)] by (simp add: decode_packet_def m'(1))
  moreover have "pkt_cmd (contents b') = cmd" by (simp add: c frame_def)
  ultimately show ?thesis using b'(1) full by blast
qed


section \<open>Witnesses\<close>

definition blank_buf :: ys_buf where
  "blank_buf = \<lparr>bmem = Some (replicate 64 0), blen = 0, bcap = 64\<rparr>"

lemma blank_buf_wf: "buf_wf blank_buf" and blank_buf_mem: "bmem blank_buf = Some (replicate 64 0)"
  by (simp_all add: blank_buf_def buf_wf_def)

definition partial_header :: ys_buf where
  "partial_header = \<lparr>bmem = Some (take 5 (frame 9 [])), blen = 5, bcap = 5\<rparr>"

theorem isFullPkt_prefix_witness: "isFullPkt partial_header = - 1"
  using isFullPkt_prefix [of partial_header 5 9 "[]"]
  by (simp add: partial_header_def contents_def)

theorem packet_roundtrip_witness:
  "\<exists>b'. encode_packet sample_fields 5 blank_buf = Ok b' \<and> isFullPkt b' = 0 \<and>
    pkt_cmd (contents b') = 5 \<and> decode_packet sample_types b' = Ok sample_fields"
  by (rule packet_roundtrip [OF blank_buf_wf blank_buf_mem _ sample_codable])
    (simp_all only: sample_image, simp_all add: blank_buf_def)

end
