(* ===== verification/Ys_Engine.thy ===== *)
theory Ys_Engine
  imports Isaac_Prelude
begin

text \<open>
  \<open>isaac/ys_engine.h\<close>: the routing table \<open>YS_Engine<K, F>\<close>, a \<open>std::map\<close> from keys to handler
  pointers.  A handler pointer is an option, \<open>None\<close> for the null pointer.
\<close>

type_synonym ('k, 'f) engine = "'k \<rightharpoonup> 'f option"

text \<open>\<open>std::map::insert\<close> keeps the entry that is already there.\<close>

definition engine_insert :: "'k \<times> 'f option \<Rightarrow> ('k, 'f) engine \<Rightarrow> ('k, 'f) engine" where
  "engine_insert i e = (case e (fst i) of None \<Rightarrow> e(fst i \<mapsto> snd i) | Some _ \<Rightarrow> e)"

fun route :: "('k \<times> 'f option) list \<Rightarrow> ('k, 'f) engine \<Rightarrow> ('k, 'f) engine" where
  "route [] e = e"
| "route (i # vtRouter) e = route vtRouter (engine_insert i e)"

definition new_engine :: "('k \<times> 'f option) list \<Rightarrow> ('k, 'f) engine" where
  "new_engine vtRouter = route vtRouter Map.empty"

definition engine_get :: "('k, 'f) engine \<Rightarrow> 'k \<Rightarrow> 'f option" where
  "engine_get e k = (case e k of Some f \<Rightarrow> f | None \<Rightarrow> None)"

lemma route_lookup: "route rs e k = (case e k of Some f \<Rightarrow> Some f | None \<Rightarrow> map_of rs k)"
  by (induction rs arbitrary: e) (auto simp: engine_insert_def split: option.splits)

lemma engine_get_new: "engine_get (new_engine rs) k = (case map_of rs k of Some f \<Rightarrow> f | None \<Rightarrow> None)"
  by (simp add: new_engine_def engine_get_def route_lookup split: option.splits)

text \<open>
  routing.  The first entry ever registered for a key decides: registering a table again, or a
  second entry for a key, changes no lookup, and a key of no table has no handler.
\<close>

theorem engine_first_entry_wins:
  "engine_get (route rs' (new_engine rs)) k =
    (case map_of (rs @ rs') k of Some f \<Rightarrow> f | None \<Rightarrow> None)"
  by (simp add: new_engine_def engine_get_def route_lookup map_add_def split: option.splits)

end
