(* ===== verification/Ys_PackProto.thy ===== *)
theory Ys_PackProto
  imports Ys_Packet Ys_TcpClient Ys_Engine
begin

text \<open>
  \<open>isaac/ys_pack_proto.h\<close>: request dispatch on the server (\<open>YS_PackEngine\<close>, \<open>YS_PackApi\<close>) and the
  request/response client \<open>YS_TcpPackClient\<close>, over the packet frames of \<open>ys_pack.hpp\<close>.
  The user's handlers and the virtual hooks \<open>encode\<close> and \<open>decode\<close> are parameters: a handler maps the
  network buffer to an error code and the buffer it leaves.
\<close>

type_synonym 'c pack_api = "'c net_buf \<Rightarrow> (32 word \<times> 'c net_buf) pack_result"

section \<open>The server engine\<close>

text \<open>
  \<open>sendErr\<close> clears the send buffer and writes a header at its start; the length of the buffer is
  left at 0.
\<close>

definition send_err :: "32 word \<Rightarrow> 'c net_buf \<Rightarrow> 'c net_buf pack_result" where
  "send_err err b =
     (let s = clear_buf (sendData b) in
      case (bmem s, bmem (recvData b)) of
        (Some m, Some r) \<Rightarrow>
          (if length r < headerLen then Undef
           else
             bindO (store 0 (le_bytes 2 YS_PACK_HEADER) m) (\<lambda>m1.
             bindO (store 2 (le_bytes 4 (0 :: u32)) m1) (\<lambda>m2.
             bindO (store 6 (le_bytes 2 (pkt_cmd r)) m2) (\<lambda>m3.
             bindO (store 8 (le_bytes 4 err) m3) (\<lambda>m4.
               Ok (b\<lparr>sendData := s\<lparr>bmem := Some m4\<rparr>\<rparr>))))))
      | _ \<Rightarrow> Undef)"

text \<open>
  \<open>done\<close>: find the handler of the packet's command, run the hooks and the handler, and answer
  with an error packet where one of them fails.
\<close>

definition pack_done :: "(ys_buf \<Rightarrow> ys_buf) \<Rightarrow> (ys_buf \<Rightarrow> 32 word \<times> ys_buf) \<Rightarrow> (u16, 'c pack_api) engine \<Rightarrow>
    'c net_buf \<Rightarrow> 'c net_buf pack_result" where
  "pack_done enc dec eng b =
     (case bmem (recvData b) of
        None \<Rightarrow> Undef
      | Some m \<Rightarrow>
          (if length m < headerLen then Undef
           else case engine_get eng (pkt_cmd m) of
             None \<Rightarrow> send_err 404 b
           | Some pf \<Rightarrow>
               let r = dec (recvData b); b1 = b\<lparr>recvData := snd r\<rparr> in
               if fst r \<noteq> 0 then send_err 400 b1
               else bindO (pf b1) (\<lambda>(err, b2).
                 if err \<noteq> 0 then send_err err b2
                 else Ok (b2\<lparr>sendData := enc (sendData b2)\<rparr>))))"

section \<open>Handlers\<close>

text \<open>
  \<open>unpack_pkt\<close>: command and error code of the packet, then its fields; the exception of a decoder
  becomes the error code.
\<close>

definition unpack_pkt :: "pty list \<Rightarrow> ys_buf \<Rightarrow> (32 word \<times> u16 \<times> pval list) pack_result" where
  "unpack_pkt ts b =
     (case bmem b of
        None \<Rightarrow> Undef
      | Some m \<Rightarrow>
          (if length m < headerLen then Undef
           else let cmd = pkt_cmd m; err = pkt_err m in
             if err \<noteq> 0 then Ok (err, cmd, [])
             else case unpack ts m headerLen (pkt_dataLen m) 0 of
               Ok (vs, off) \<Rightarrow> Ok (0, cmd, vs)
             | Throw e \<Rightarrow> Ok (of_int e, cmd, [])
             | Undef \<Rightarrow> Undef))"

text \<open>\<open>pack_pkt\<close> has the statements of \<open>YS_Packet::encode\<close>.\<close>

definition pack_pkt :: "pval list \<Rightarrow> u16 \<Rightarrow> ys_buf \<Rightarrow> ys_buf pack_result" where
  "pack_pkt vs cmd out = encode_packet vs cmd out"

definition pack_proc :: "pty list \<Rightarrow> (pval list \<Rightarrow> 32 word \<times> pval list) \<Rightarrow> 'c pack_api" where
  "pack_proc ts pf b =
     bindO (unpack_pkt ts (recvData b)) (\<lambda>(err, cmd, tIn).
       if err \<noteq> 0 then Ok (100, b)
       else let r = pf tIn in
         if fst r \<noteq> 0 then Ok (fst r, b)
         else mapO (\<lambda>s. (0, b\<lparr>sendData := s\<rparr>)) (pack_pkt (snd r) cmd (sendData b)))"

text \<open>
  \<open>pack_proc_only_req\<close>: the handler writes its payload behind the header itself and reports its
  length; the header is written at the start of the send buffer, and the length advanced by the
  size of the packet.
\<close>

definition pack_proc_only_req :: "pty list \<Rightarrow> (pval list \<Rightarrow> 32 word \<times> bytes \<times> u32) \<Rightarrow> 'c pack_api" where
  "pack_proc_only_req ts pf b =
     bindO (unpack_pkt ts (recvData b)) (\<lambda>(err, cmd, tIn).
       if err \<noteq> 0 then Ok (100, b)
       else case (bmem (sendData b), bmem (recvData b)) of
         (Some m, Some r) \<Rightarrow>
           bindO (store 0 (le_bytes 2 YS_PACK_HEADER) m) (\<lambda>m1.
           bindO (store 6 (le_bytes 2 (pkt_cmd r)) m1) (\<lambda>m2.
           bindO (store 8 (le_bytes 4 (0 :: u32)) m2) (\<lambda>m3.
           bindO (store 2 (le_bytes 4 (0 :: u32)) m3) (\<lambda>m4.
             let (ret, payload, len) = pf tIn in
             bindO (store headerLen payload m4) (\<lambda>m5.
             bindO (store 2 (le_bytes 4 len) m5) (\<lambda>m6.
               let s = (sendData b)\<lparr>bmem := Some m6\<rparr> in
               if ret \<noteq> 0 then Ok (ret, b\<lparr>sendData := s\<rparr>)
               else Ok (0, b\<lparr>sendData := offset_buf (of_nat (headerLen + unat len)) s\<rparr>)))))))
       | _ \<Rightarrow> Undef)"

section \<open>The client\<close>

definition pack_ipf :: "ys_buf \<Rightarrow> unit \<Rightarrow> 32 word \<times> unit" where
  "pack_ipf b c = (isFullPkt b, ())"

definition send_req :: "(ys_buf \<Rightarrow> ys_buf) \<Rightarrow> pval list \<Rightarrow> u16 \<Rightarrow> link \<Rightarrow> bool \<Rightarrow> os_send list \<Rightarrow> ys_buf \<Rightarrow>
    (32 word \<times> bytes \<times> ys_buf) pack_result option" where
  "send_req enc req cmd l ssl es b =
     (case pack_pkt req cmd (clear_buf b) of
        Throw e \<Rightarrow> Some (Throw e)
      | Undef \<Rightarrow> Some Undef
      | Ok b1 \<Rightarrow>
          let b2 = enc b1 in
          map_option (\<lambda>(r, wire). Ok (if r \<noteq> 0 then - 1 else 0, wire, b2))
            (client_send l ssl (contents b2) es))"

definition recv_resp :: "(ys_buf \<Rightarrow> 32 word \<times> ys_buf) \<Rightarrow> pty list \<Rightarrow> link \<Rightarrow> recv_round list \<Rightarrow> ys_buf \<Rightarrow>
    (32 word \<times> pval list \<times> ys_buf) pack_result option" where
  "recv_resp dec ts l rs b =
     map_option (\<lambda>res. bindO res (\<lambda>(err, b1, _, _).
        if err \<noteq> 0 then Ok (err, [], b1)
        else case bmem b1 of
          None \<Rightarrow> Undef
        | Some m \<Rightarrow>
            (if length m < headerLen then Undef
             else if blen b1 \<noteq> of_nat (totalLen m) then Ok (- 1, [], b1)
             else if pkt_err m \<noteq> 0 then Ok (pkt_err m, [], b1)
             else let r = dec b1; b2 = snd r in
               if fst r \<noteq> 0 then Ok (400, [], b2)
               else case bmem b2 of
                 None \<Rightarrow> Undef
               | Some m2 \<Rightarrow>
                   (case unpack ts m2 headerLen (pkt_dataLen m2) 0 of
                      Ok (vs, off) \<Rightarrow> Ok (0, vs, b2)
                    | Throw e \<Rightarrow> Ok (of_int e, [], b2)
                    | Undef \<Rightarrow> Undef))))
       (recv_syn pack_ipf l rs (clear_buf b) ())"

definition do_request :: "(ys_buf \<Rightarrow> ys_buf) \<Rightarrow> (ys_buf \<Rightarrow> 32 word \<times> ys_buf) \<Rightarrow> pval list \<Rightarrow> u16 \<Rightarrow> pty list \<Rightarrow>
    link \<Rightarrow> bool \<Rightarrow> os_send list \<Rightarrow> link \<Rightarrow> recv_round list \<Rightarrow> ys_buf \<Rightarrow>
    (32 word \<times> pval list \<times> ys_buf) pack_result option" where
  "do_request enc dec req cmd ts l ssl es l' rs b =
     (case send_req enc req cmd l ssl es b of
        None \<Rightarrow> None
      | Some (Throw e) \<Rightarrow> Some (Throw e)
      | Some Undef \<Rightarrow> Some Undef
      | Some (Ok (ret, wire, b1)) \<Rightarrow>
          (if ret \<noteq> 0 then Some (Ok (ret, [], b1)) else recv_resp dec ts l' rs b1))"

section \<open>Packets are messages of the framing interface\<close>

definition is_frame :: "bytes \<Rightarrow> bool" where
  "is_frame m \<longleftrightarrow> (\<exists>cmd vs. m = frame cmd vs \<and> length (images_of vs) + 12 < 2 ^ 31)"

interpretation pack: framing pack_ipf is_frame 12
proof
  fix b :: ys_buf and c :: unit
  assume "bempty b"
  then show "fst (pack_ipf b c) = ucast (bcap b)" by (simp add: pack_ipf_def isFullPkt_def Let_def)
next
  show "(0 :: nat) < 12" by simp
next
  fix m assume "is_frame m"
  then show "12 \<le> length m \<and> length m < 2 ^ 31" by (auto simp: is_frame_def)
next
  fix m k b and c :: unit
  assume "is_frame m" and a: "12 \<le> k" "k \<le> length m" "contents b = take k m" "blen b = of_nat k"
  then obtain cmd vs where m: "m = frame cmd vs" "length (images_of vs) + 12 < 2 ^ 31"
    by (auto simp: is_frame_def)
  with a show "fst (pack_ipf b c) = of_nat (length m - k)"
    using isFullPkt_of_prefix [of b k cmd vs] by (simp add: pack_ipf_def)
next
  fix m k b and c :: unit
  assume "is_frame m" and a: "0 < k" "k < 12" "contents b = take k m" "blen b = of_nat k"
  then obtain cmd vs where m: "m = frame cmd vs" "length (images_of vs) + 12 < 2 ^ 31"
    by (auto simp: is_frame_def)
  with a show "fst (pack_ipf b c) <s 0"
    using isFullPkt_of_prefix [of b k cmd vs] by (simp add: pack_ipf_def)
qed

section \<open>Lemmas on the handlers\<close>

lemma frame_not_Nil [simp]: "frame cmd vs \<noteq> []"
proof
  assume "frame cmd vs = []"
  then have "length (frame cmd vs) = 0" by (simp only: list.size)
  then show False by simp
qed

lemma frame_fields:
  assumes "contents b = frame cmd vs" and "buf_wf b" and "codables vs ts"
    and "length (images_of vs) + 12 < 2 ^ 31"
  shows "\<exists>m. bmem b = Some m \<and> headerLen \<le> length m \<and> pkt_cmd m = cmd \<and> pkt_err m = 0 \<and>
    unpack ts m headerLen (pkt_dataLen m) 0 = Ok (vs, length (images_of vs)) \<and>
    blen b = of_nat (totalLen m)"
proof -
  obtain m where m: "bmem b = Some m" "unat (blen b) = 12 + length (images_of vs)"
      "take (12 + length (images_of vs)) m = frame cmd vs"
    using frame_in_block [OF assms(1,2)] by blast
  note u = unpack_frame [OF assms(3,4) m(3)]
  have "totalLen m = unat (blen b)"
    using u(4) m(2) assms(4) by (simp add: totalLen_def headerLen_def unat_of_nat_32)
  then have "blen b = of_nat (totalLen m)" by (metis of_nat_unat ucast_id)
  with m(1) u show ?thesis by auto
qed

lemma pack_proc_replies:
  assumes "contents (recvData b) = frame cmd vs" and "buf_wf (recvData b)" and "codables vs ts"
    and "length (images_of vs) + 12 < 2 ^ 31" and "pf vs = (0, out)"
    and "buf_wf (sendData b)" and "bmem (sendData b) = Some m" and "length (images_of out) + 12 < 2 ^ 31"
    and "unat (blen (sendData b)) + 12 + length (images_of out) \<le> unat (bcap (sendData b))"
  shows "\<exists>s. pack_proc ts pf b = Ok (0, b\<lparr>sendData := s\<rparr>) \<and> buf_wf s \<and>
    contents s = contents (sendData b) @ frame cmd out"
proof -
  obtain r where r: "bmem (recvData b) = Some r" "headerLen \<le> length r" "pkt_cmd r = cmd" "pkt_err r = 0"
      "unpack ts r headerLen (pkt_dataLen r) 0 = Ok (vs, length (images_of vs))"
    using frame_fields [OF assms(1-4)] by auto
  then have u: "unpack_pkt ts (recvData b) = Ok (0, cmd, vs)"
    by (simp add: unpack_pkt_def Let_def)
  obtain s where "encode_packet out cmd (sendData b) = Ok s" "buf_wf s"
      "contents s = contents (sendData b) @ frame cmd out"
    using encode_packet_frame [OF assms(6-9), of cmd] by auto
  then show ?thesis
    by (intro exI [of _ s]) (simp add: pack_proc_def u assms(5) pack_pkt_def)
qed

lemma send_err_header:
  assumes "bmem (sendData b) = Some m" and "12 \<le> length m" and "bmem (recvData b) = Some r"
    and "12 \<le> length r"
  shows "\<exists>b' m'. send_err err b = Ok b' \<and> bmem (sendData b') = Some m' \<and> blen (sendData b') = 0 \<and>
    (\<exists>rest. m' = header_bytes 0 (pkt_cmd r) err @ rest)"
proof -
  obtain pre a l c e d post where "m = pre @ a @ l @ c @ e @ d @ post" "length pre = 0"
      "length a = 2" "length l = 4" "length c = 2" "length e = 4" "length d = 0"
    using block_pieces [of 0 0 m] assms(2) by auto
  then have p: "m = a @ l @ c @ e @ post" and n: "length a = 2" "length l = 4" "length c = 2" "length e = 4"
    by simp_all
  let ?h = "le_bytes 2 YS_PACK_HEADER" and ?c = "le_bytes 2 (pkt_cmd r)" and ?z = "le_bytes 4 (0 :: u32)"
  let ?e = "le_bytes 4 err"
  have s1: "store 0 ?h m = Ok (?h @ l @ c @ e @ post)"
    using store_decomp [of "[]" 0 a ?h "l @ c @ e @ post"] p n by simp
  have s2: "store 2 ?z (?h @ l @ c @ e @ post) = Ok (?h @ ?z @ c @ e @ post)"
    using store_decomp [of ?h 2 l ?z "c @ e @ post"] n by simp
  have s3: "store 6 ?c (?h @ ?z @ c @ e @ post) = Ok (?h @ ?z @ ?c @ e @ post)"
    using store_decomp [of "?h @ ?z" 6 c ?c "e @ post"] n by simp
  have s4: "store 8 ?e (?h @ ?z @ ?c @ e @ post) = Ok (?h @ ?z @ ?c @ ?e @ post)"
    using store_decomp [of "?h @ ?z @ ?c" 8 e ?e "post"] n by simp
  show ?thesis
    using assms s1 s2 s3 s4
    by (simp add: send_err_def clear_buf_def headerLen_def Let_def header_bytes_def)
qed

text \<open>The client of a remote call that gets a packet in fragments decodes its fields.\<close>

lemma recv_resp_fragments:
  assumes reply: "codables out ts'" "length (images_of out) + 12 < 2 ^ 31"
    and client: "buf_wf cb" "bmem cb \<noteq> None" "12 + length (images_of out) \<le> unat (bcap cb)"
      "unat (bcap cb) < 2 ^ 31" "\<not> num l <=s 0" "ev l AND EPOLLIN \<noteq> 0"
    and fs: "concat fs = frame cmd out" "\<forall>f\<in>set fs. f \<noteq> []" "12 \<le> length (hd fs)"
  shows "\<exists>cb'. recv_resp (Pair 0) ts' l (map fragment fs) cb = Some (Ok (0, out, cb'))"
proof -
  have fr: "is_frame (frame cmd out)" using reply(2) by (auto simp: is_frame_def)
  have cb: "buf_wf (clear_buf cb)" "bmem (clear_buf cb) \<noteq> None" "bcap (clear_buf cb) = bcap cb"
    using client(1,2) by (auto simp: clear_buf_def buf_wf_def split: option.splits)
  obtain b1 x where b1: "(recv_pkt pack_ipf (map fragment fs) (clear_buf cb) () :: (int, _) outcome option) =
      Some (Ok (0, b1, x))" "contents b1 = frame cmd out" "buf_wf b1"
    using pack.recv_pkt_fragments [OF fr TrueI cb(1,2) _ _ fs, of "()"] client(3,4) cb(3) by auto
  obtain n where "bmem b1 = Some n" "headerLen \<le> length n" "pkt_err n = 0"
      "unpack ts' n headerLen (pkt_dataLen n) 0 = Ok (out, length (images_of out))"
      "blen b1 = of_nat (totalLen n)"
    using frame_fields [OF b1(2,3) reply] by auto
  then show ?thesis
    using client(5,6) b1(1) by (simp add: recv_resp_def recv_syn_def Let_def)
qed

text \<open>A request that has arrived is dispatched by its command, and the handler's result is framed in the send buffer.\<close>

lemma pack_done_replies:
  assumes req: "contents (recvData b) = frame cmd req" "buf_wf (recvData b)" "codables req ts"
      "length (images_of req) + 12 < 2 ^ 31"
    and handler: "engine_get eng cmd = Some (pack_proc ts pf)" "pf req = (0, out)"
    and server: "buf_wf (sendData b)" "bmem (sendData b) = Some m" "blen (sendData b) = 0"
      "12 + length (images_of out) \<le> unat (bcap (sendData b))"
    and reply: "length (images_of out) + 12 < 2 ^ 31"
  shows "\<exists>s. pack_done id (Pair 0) eng b = Ok (b\<lparr>sendData := s\<rparr>) \<and> contents s = frame cmd out \<and> buf_wf s"
proof -
  obtain s where s: "pack_proc ts pf b = Ok (0, b\<lparr>sendData := s\<rparr>)" "contents s = contents (sendData b) @ frame cmd out" "buf_wf s"
    using pack_proc_replies [where pf = pf and vs = req and out = out and cmd = cmd and ts = ts,
        OF req handler(2) server(1,2) reply] server(3,4) by auto
  have c: "contents s = frame cmd out" using s(2) server(2,3) by (simp add: contents_def)
  obtain r where r: "bmem (recvData b) = Some r" "headerLen \<le> length r" "pkt_cmd r = cmd"
    using frame_fields [OF req] by auto
  have "pack_done id (Pair 0) eng b = Ok (b\<lparr>sendData := s\<rparr>)"
    using r s(1) handler(1) by (simp add: pack_done_def Let_def)
  with c s(3) show ?thesis by blast
qed

section \<open>Properties\<close>

text \<open>
  C25: fragmentation of the TCP stream does not matter to the client: however a packet is split, as
  long as the first fragment holds the whole header, \<open>recvPkt\<close> returns 0 with exactly the packet in
  the buffer.
\<close>

theorem pack_client_reassembles:
  assumes "length (images_of vs) + 12 < 2 ^ 31" and "buf_wf b" and "bmem b \<noteq> None"
    and "12 + length (images_of vs) \<le> unat (bcap b)" and "unat (bcap b) < 2 ^ 31"
    and "concat fs = frame cmd vs" and "\<forall>f\<in>set fs. f \<noteq> []" and "12 \<le> length (hd fs)"
  shows "\<exists>b' c. (recv_pkt pack_ipf (map fragment fs) b () :: (int, _) outcome option) = Some (Ok (0, b', c)) \<and>
    contents b' = frame cmd vs"
proof -
  have "is_frame (frame cmd vs)" using assms(1) by (auto simp: is_frame_def)
  from pack.recv_pkt_fragments [OF this TrueI assms(2,3) _ assms(5,6,7,8)] assms(4)
  show ?thesis by auto
qed

text \<open>
  but a first fragment that ends inside the 12-byte header makes \<open>recvPkt\<close> give up with -2,
  although the rest of the packet is on its way.
\<close>

theorem pack_client_short_header:
  assumes "length (images_of vs) + 12 < 2 ^ 31" and "buf_wf b" and "bmem b \<noteq> None"
    and "12 \<le> unat (bcap b)" and "unat (bcap b) < 2 ^ 31" and "0 < k" and "k < 12"
  shows "\<exists>b' c. (recv_pkt pack_ipf (fragment (take k (frame cmd vs)) # rs) b () :: (int, _) outcome option) =
    Some (Ok (- 2, b', c))"
proof -
  have "is_frame (frame cmd vs)" using assms(1) by (auto simp: is_frame_def)
  from pack.recv_pkt_short_header [OF this assms(2,3), of "take k (frame cmd vs)"] assms(4-7)
  show ?thesis by auto
qed

text \<open>
  a remote call works end to end.  When a request with fields the handler's types describe has
  arrived, the engine dispatches it by its command, the handler's result is framed in the send
  buffer, and a client that receives those bytes in any fragments gets exactly that result.
\<close>

theorem pack_rpc_end_to_end:
  assumes req: "contents (recvData b) = frame cmd req" "buf_wf (recvData b)" "codables req ts"
      "length (images_of req) + 12 < 2 ^ 31"
    and handler: "engine_get eng cmd = Some (pack_proc ts pf)" "pf req = (0, out)"
    and server: "buf_wf (sendData b)" "bmem (sendData b) = Some m" "blen (sendData b) = 0"
      "12 + length (images_of out) \<le> unat (bcap (sendData b))"
    and reply: "codables out ts'" "length (images_of out) + 12 < 2 ^ 31"
    and client: "buf_wf cb" "bmem cb \<noteq> None" "12 + length (images_of out) \<le> unat (bcap cb)"
      "unat (bcap cb) < 2 ^ 31" "\<not> num l <=s 0" "ev l AND EPOLLIN \<noteq> 0"
  shows "\<exists>b'. pack_done id (Pair 0) eng b = Ok b' \<and>
    (\<forall>fs. concat fs = contents (sendData b') \<and> (\<forall>f\<in>set fs. f \<noteq> []) \<and> 12 \<le> length (hd fs) \<longrightarrow>
      (\<exists>cb'. recv_resp (Pair 0) ts' l (map fragment fs) cb = Some (Ok (0, out, cb'))))"
proof -
  obtain s where "pack_done id (Pair 0) eng b = Ok (b\<lparr>sendData := s\<rparr>)" "contents s = frame cmd out"
    using pack_done_replies [OF req handler server reply(2)] by blast
  moreover have "\<exists>cb'. recv_resp (Pair 0) ts' l (map fragment fs) cb = Some (Ok (0, out, cb'))"
    if fs: "concat fs = frame cmd out" "\<forall>f\<in>set fs. f \<noteq> []" "12 \<le> length (hd fs)" for fs
    by (rule recv_resp_fragments [OF reply client that])
  ultimately show ?thesis by auto
qed

text \<open>
  error replies are composed but never sent.  For a command without a handler, and for a handler
  that fails, the engine writes a correct error header (the command, the code) at the start of the
  send buffer but leaves the buffer's length at 0, so that sending the buffer transmits nothing.
\<close>

theorem pack_error_reply_lost:
  assumes req: "contents (recvData b) = frame cmd req" "buf_wf (recvData b)" "codables req ts"
      "length (images_of req) + 12 < 2 ^ 31"
    and fails: "engine_get eng cmd = None \<and> code = 404 \<or>
      engine_get eng cmd = Some (pack_proc ts pf) \<and> pf req = (code, out) \<and> code \<noteq> 0"
    and server: "bmem (sendData b) = Some m" "12 \<le> length m"
  shows "\<exists>b' m' rest. pack_done id (Pair 0) eng b = Ok b' \<and> bmem (sendData b') = Some m' \<and>
    m' = header_bytes 0 cmd code @ rest \<and> socket_send_buf ssl (sendData b') es = Some (0, [])"
proof -
  obtain r where r: "bmem (recvData b) = Some r" "headerLen \<le> length r" "pkt_cmd r = cmd" "pkt_err r = 0"
      "unpack ts r headerLen (pkt_dataLen r) 0 = Ok (req, length (images_of req))"
    using frame_fields [OF req] by auto
  then have u: "unpack_pkt ts (recvData b) = Ok (0, cmd, req)"
    by (simp add: unpack_pkt_def Let_def)
  have "pack_done id (Pair 0) eng b = send_err code b"
    using fails r(1-3) u by (auto simp: pack_done_def pack_proc_def Let_def)
  with send_err_header [OF server r(1), of code] r(2,3) show ?thesis
    by (auto simp: headerLen_def socket_send_buf_def)
qed

section \<open>Witnesses\<close>

definition ping :: "pval list" where "ping = [PU32 7]"

definition pong :: "pval list" where "pong = [PU8 1, PU8 2]"

lemma ping_pong_images: "images_of ping = [7, 0, 0, 0]" "images_of pong = [1, 2]"
  by (simp_all add: ping_def pong_def eval_simps)

lemma ping_pong_codable: "codables ping [TU32]" "codables pong [TU8, TU8]"
  by (simp_all add: ping_def pong_def)

definition ping_buf :: ys_buf where
  "ping_buf = \<lparr>bmem = Some (frame 5 ping), blen = 16, bcap = 16\<rparr>"

lemma ping_buf_ok: "contents ping_buf = frame 5 ping" "buf_wf ping_buf" "bmem ping_buf \<noteq> None"
  by (simp_all add: ping_buf_def contents_def buf_wf_def ping_pong_images)

definition ping_net :: "unit net_buf" where
  "ping_net = \<lparr>recvData = ping_buf, sendData = blank_buf, refSock = Some 3, tid = 0, ctx = None,
     cbBusiFinal = False\<rparr>"

definition ready_link :: link where
  "ready_link = \<lparr>has_sock = True, connected = True, reconnect = False, num = 1, ev = 1\<rparr>"

theorem pack_client_reassembles_witness:
  "\<exists>b' c. (recv_pkt pack_ipf (map fragment [take 13 (frame 5 ping), drop 13 (frame 5 ping)]) blank_buf () ::
      (int, _) outcome option) = Some (Ok (0, b', c)) \<and> contents b' = frame 5 ping"
  by (rule pack_client_reassembles)
    (simp_all add: blank_buf_wf blank_buf_mem ping_pong_images, simp_all add: blank_buf_def)

theorem pack_client_short_header_witness:
  "\<exists>b' c. (recv_pkt pack_ipf (fragment (take 4 (frame 5 ping)) # []) blank_buf () :: (int, _) outcome option) =
    Some (Ok (- 2, b', c))"
  by (rule pack_client_short_header)
    (simp_all add: blank_buf_wf blank_buf_mem ping_pong_images, simp_all add: blank_buf_def)

theorem pack_rpc_end_to_end_witness:
  "\<exists>b'. pack_done id (Pair 0) (new_engine [(5, Some (pack_proc [TU32] (\<lambda>_. (0, pong))))]) ping_net = Ok b' \<and>
    (\<forall>fs. concat fs = contents (sendData b') \<and> (\<forall>f\<in>set fs. f \<noteq> []) \<and> 12 \<le> length (hd fs) \<longrightarrow>
      (\<exists>cb'. recv_resp (Pair 0) [TU8, TU8] ready_link (map fragment fs) blank_buf = Some (Ok (0, pong, cb'))))"
  by (rule pack_rpc_end_to_end [where cmd = 5 and req = ping and ts = "[TU32]" and pf = "\<lambda>_. (0, pong)"
        and m = "replicate 64 0"])
    (simp_all add: ping_net_def ping_buf_ok ping_pong_codable ping_pong_images engine_get_new
      blank_buf_wf blank_buf_mem, simp_all add: blank_buf_def ready_link_def EPOLLIN_def word_sle_eq)

theorem pack_error_reply_lost_witness:
  "\<exists>b' m' rest. pack_done id (Pair 0) (new_engine []) ping_net = Ok b' \<and> bmem (sendData b') = Some m' \<and>
    m' = header_bytes 0 5 404 @ rest \<and> socket_send_buf False (sendData b') [] = Some (0, [])"
  by (rule pack_error_reply_lost [where cmd = 5 and req = ping and ts = "[TU32]" and code = 404
        and m = "replicate 64 0" and pf = "\<lambda>_. (0, pong)" and out = pong])
    (simp_all add: ping_net_def ping_buf_ok ping_pong_codable ping_pong_images engine_get_new
      blank_buf_mem)

end
