(* ===== verification/Ys_HttpClient.thy ===== *)
theory Ys_HttpClient
  imports Ys_HttpFrame Ys_PackProto
begin

text \<open>
  The HTTP client of \<open>isaac/ys_http_client.h\<close>: a request is written, sent, and the response collected by
  the loop \<open>recvPkt\<close> with the parser as the test for a complete message.
\<close>

section \<open>The client\<close>

definition http_isFullPkt :: "ys_buf \<Rightarrow> http_arg \<Rightarrow> 32 word \<times> http_arg" where
  "http_isFullPkt b a = http_look HTTP_RESPONSE b a"

text \<open>The result of a call, and the request, the response and the client's own buffer after it.\<close>

record request_result =
  iRet :: "32 word"
  tReq :: http_ctx
  tResp :: http_ctx
  own_buf :: ys_buf

text \<open>The response object the caller passes is the parser's context, so the pointer is never null.\<close>

definition doRequest :: "http_ctx \<Rightarrow> http_ctx \<Rightarrow> link \<Rightarrow> bool \<Rightarrow> os_send list \<Rightarrow> link \<Rightarrow> recv_round list \<Rightarrow> ys_buf \<Rightarrow>
    (unit, request_result) outcome option" where
  "doRequest req resp l ssl es l' rs buf =
     (let (s, req') = request_format req; resp0 = ctx_init HTTP_RESPONSE resp
      in map_option (\<lambda>out. bindO out (\<lambda>(r, buf', a, closed).
             case a of
               None \<Rightarrow> Undef
             | Some c \<Rightarrow> mapO (\<lambda>x. \<lparr>iRet = r, tReq = req', tResp = x, own_buf = buf'\<rparr>) c))
           (send_recv http_isFullPkt l ssl (bytes_of s) es l' rs buf (Some (Ok resp0))))"

lemma isFullPkt_look [simp]: "http_isFullPkt = http_look HTTP_RESPONSE"
  by (intro ext) (simp add: http_isFullPkt_def)

section \<open>Requests\<close>

lemma fresh_seen: "http_seen t m 0 (Some (Ok (new_ctx t)))"
  by (simp add: http_seen_def new_at)

lemma response_length: "good_response c \<Longrightarrow> 0 < length (fst (response_format c))"
  using responses.good_length [of "fst (response_format c)"] by auto

text \<open>What \<open>doRequest\<close> does once the whole request has been sent and the socket is readable.\<close>

definition request_sent :: "http_ctx \<Rightarrow> link \<Rightarrow> bool \<Rightarrow> os_send list \<Rightarrow> link \<Rightarrow> bool" where
  "request_sent req l ssl es l' \<longleftrightarrow> client_send l ssl (bytes_of (fst (request_format req))) es = Some (0, bytes_of (fst (request_format req))) \<and>
     \<not> num l' <=s 0 \<and> ev l' AND EPOLLIN \<noteq> 0"

lemma doRequest_sent:
  assumes "request_sent req l ssl es l'" and "header_field resp = []"
    and "(recv_pkt (http_look HTTP_RESPONSE) rs buf (Some (Ok (new_ctx HTTP_RESPONSE))) :: (unit, _) outcome option) =
      Some (Ok (r, buf', Some (Ok x)))"
  shows "doRequest req resp l ssl es l' rs buf =
    Some (Ok \<lparr>iRet = r, tReq = snd (request_format req), tResp = x, own_buf = buf'\<rparr>)"
  using assms by (auto simp: doRequest_def request_sent_def send_recv_def recv_syn_def ctx_init_fresh Let_def split_beta)

text \<open>The client's buffer is large enough for the response.\<close>

definition room_for :: "nat \<Rightarrow> ys_buf \<Rightarrow> bool" where
  "room_for n b \<longleftrightarrow> buf_wf b \<and> bmem b \<noteq> None \<and> n \<le> unat (bcap b) \<and> unat (bcap b) < 2 ^ 31"

lemma doRequest_returns:
  assumes sent: "request_sent req l ssl es l'" "header_field resp = []"
    and answer: "good_response ans" "room_for (length (fst (response_format ans))) buf"
    and cuts: "concat fs = bytes_of (fst (response_format ans))" "\<forall>f\<in>set fs. f \<noteq> []"
  shows "\<exists>res. doRequest req resp l ssl es l' (map fragment fs) buf = Some (Ok res) \<and> iRet res = 0 \<and>
    p_status (c_parser (tResp res)) = p_status (c_parser ans) \<and>
    c_status (tResp res) = http_status_str (unat (p_status (c_parser ans))) \<and>
    c_headers (tResp res) = c_headers (snd (response_format ans)) \<and> c_body (tResp res) = c_body ans"
proof -
  let ?m = "bytes_of (fst (response_format ans))" and ?c = "Some (Ok (new_ctx HTTP_RESPONSE)) :: http_arg"
  have b: "buf_wf buf" "bmem buf \<noteq> None" "length ?m \<le> unat (bcap buf)" "unat (bcap buf) < 2 ^ 31"
    using answer(2) by (simp_all add: room_for_def)
  obtain b' c' where c': "(recv_pkt (http_look HTTP_RESPONSE) (map fragment fs) buf ?c :: (unit, _) outcome option) = Some (Ok (0, b', c'))"
    "http_seen HTTP_RESPONSE ?m (length ?m) c'"
    using responses.framed.recv_pkt_fragments [OF _ fresh_seen b cuts] answer(1) by auto
  have pos: "length ?m \<noteq> 0" using response_length [OF answer(1)] by simp
  obtain e where e: "ctx_execute (fst (response_format ans)) (new_ctx HTTP_RESPONSE) = Some (length ?m, e)"
    "p_status (c_parser e) = p_status (c_parser ans)" "c_status e = http_status_str (unat (p_status (c_parser ans)))"
    "c_headers e = c_headers (snd (response_format ans))" "c_body e = c_body ans"
    using response_whole [OF answer(1) refl] by auto
  have "c' = Some (Ok (e\<lparr>c_pos := of_nat (length ?m)\<rparr>))" by (rule http_seen_pos [OF c'(2) pos]) (use e(1) in simp)
  with doRequest_sent [OF sent, of "map fragment fs" buf 0 b'] c'(1) e(2-5)
  show "\<exists>res. doRequest req resp l ssl es l' (map fragment fs) buf = Some (Ok res) \<and> iRet res = 0 \<and>
      p_status (c_parser (tResp res)) = p_status (c_parser ans) \<and>
      c_status (tResp res) = http_status_str (unat (p_status (c_parser ans))) \<and>
      c_headers (tResp res) = c_headers (snd (response_format ans)) \<and> c_body (tResp res) = c_body ans" by simp
qed

text \<open>
  C23: However the answer of a server is cut on its way, \<open>doRequest\<close> returns 0 with exactly the response that the
  server wrote: status, reason, headers and body.  The response object must not have been used before.
\<close>

theorem http_client_reassembles:
  assumes "request_sent req l ssl es l'" and "header_field resp = []"
    and "good_response ans" and "room_for (length (fst (response_format ans))) buf"
    and "concat fs = bytes_of (fst (response_format ans))" and "\<forall>f\<in>set fs. f \<noteq> []"
  shows "\<exists>res. doRequest req resp l ssl es l' (map fragment fs) buf = Some (Ok res) \<and> iRet res = 0 \<and>
    p_status (c_parser (tResp res)) = p_status (c_parser ans) \<and>
    c_status (tResp res) = http_status_str (unat (p_status (c_parser ans))) \<and>
    c_headers (tResp res) = c_headers (snd (response_format ans)) \<and> c_body (tResp res) = c_body ans"
  by (rule doRequest_returns [OF assms])

text \<open>
  C30: A response whose end does not arrive within the two seconds of \<open>recvPkt\<close> is a success for the caller: \<open>doRequest\<close>
  returns 0, with whatever part of the response there is, even none, and with the context still waiting for more.
\<close>

theorem http_timeout_is_success:
  assumes "request_sent req l ssl es l'" and "header_field resp = []"
    and "good_response ans" and "room_for (length (fst (response_format ans))) buf"
    and "concat fs @ t = bytes_of (fst (response_format ans))" and "t \<noteq> []" and "\<forall>f\<in>set fs. f \<noteq> []"
  shows "\<exists>res. doRequest req resp l ssl es l' (map fragment fs @ [TimedOut]) buf = Some (Ok res) \<and> iRet res = 0 \<and>
    fRecv (tResp res) \<and> contents (own_buf res) = concat fs"
proof -
  let ?m = "bytes_of (fst (response_format ans))" and ?c = "Some (Ok (new_ctx HTTP_RESPONSE)) :: http_arg" and ?k = "length (concat fs)"
  have b: "buf_wf buf" "bmem buf \<noteq> None" "length ?m \<le> unat (bcap buf)" "unat (bcap buf) < 2 ^ 31"
    using assms(4) by (simp_all add: room_for_def)
  obtain b' c' where c': "(recv_pkt (http_look HTTP_RESPONSE) (map fragment fs @ [TimedOut]) buf ?c :: (unit, _) outcome option) =
      Some (Ok (0, b', c'))" "contents b' = concat fs" "http_seen HTTP_RESPONSE ?m ?k c'"
    using responses.framed.recv_pkt_timeout [OF _ fresh_seen b assms(5) [symmetric] assms(6,7)] assms(3) by auto
  have k: "?k < length (fst (response_format ans))"
    using arg_cong [OF assms(5), of length] assms(6) by (cases t) simp_all
  obtain x where x: "c' = Some (Ok x)" "fRecv x"
  proof (cases "?k = 0")
    case True
    then have "fs = []" using assms(7) by (cases fs) auto
    then have "c' = Some (Ok (new_ctx HTTP_RESPONSE))"
      using c'(1) by (auto simp: recv_pkt_def Let_def http_look_def http_result_def httpParse_def bempty_def clear_buf_def)
    then show ?thesis by (rule that) (simp add: new_ctx_def ctx_init_def ctx_clear_def)
  next
    case False
    obtain e where e: "ctx_execute (take ?k (fst (response_format ans))) (new_ctx HTTP_RESPONSE) = Some (?k, e)" "fRecv e"
      using responses.good_part [OF _ _ k] False assms(3) by auto
    have "c' = Some (Ok (e\<lparr>c_pos := of_nat ?k\<rparr>))" by (rule http_seen_pos [OF c'(3) False]) (use e(1) in simp)
    then show ?thesis by (rule that) (simp add: e(2))
  qed
  with doRequest_sent [OF assms(1,2), of "map fragment fs @ [TimedOut]" buf 0 b'] c'(1,2) show ?thesis by simp
qed

text \<open>
  A response object that has been used keeps the name of the last header it has read, for \<open>init\<close> does not clear it:
  the next message gets that name as an additional header with an empty value.
\<close>

theorem reused_context_adds_header:
  assumes "header_field c \<noteq> []" and "list_all (\<lambda>h. fst h \<noteq> []) hs"
  shows "c_headers (fold http_callback (header_cbs hs @ [on_headers_complete]) (ctx_init t c)) =
    sort_key fst ((header_field c, []) # hs)"
proof -
  have "last_is_val (ctx_init t c)" "header_field (ctx_init t c) = header_field c" "header_val (ctx_init t c) = []"
    "c_headers (ctx_init t c) = []" by (simp_all add: ctx_init_def ctx_clear_def)
  with header_cbs_fold [OF assms(2), of "ctx_init t c"] assms(1) show ?thesis
    by (simp only: mm_fold_sort simp_thms)
qed

section \<open>Instances\<close>

text \<open>A request with a body answered by a page that does not exist.\<close>

definition big_buf :: ys_buf where
  "big_buf = \<lparr>bmem = Some (replicate max_header_size 0), blen = 0, bcap = of_nat max_header_size\<rparr>"

definition sent_all :: "bytes \<Rightarrow> os_send list" where
  "sent_all d = [\<lparr>sret = of_nat (length d), swould = False, sready = False\<rparr>]"

lemma big_room: "n \<le> max_header_size \<Longrightarrow> room_for n big_buf"
  by (simp add: room_for_def big_buf_def buf_wf_def max_header_size_def unat_of_nat)

lemma client_send_all:
  assumes "0 < length d" and "length d \<le> max_header_size"
  shows "client_send ready_link ssl d (sent_all d) = Some (0, d)"
proof -
  have "length d < 2 ^ 31" using assms(2) by (simp add: max_header_size_def)
  moreover have "\<not> (1 :: u32) <s 0" by (simp add: word_sless_alt)
  ultimately show ?thesis
    using of_nat_nonneg_32 [of "length d"] by (simp add: client_send_def ready_link_def can_write_def socket_send_def sent_all_def EPOLLERR_def EPOLLHUP_def
        EPOLLRDHUP_def unat_of_nat Let_def)
qed

lemma sample_404_good: "good_response sample_404"
proof -
  have "p_status (c_parser sample_404) = 404" "plain_headers sample_404" by code_simp+
  moreover have "headers_ok sample_404"
    unfolding sample_404_def by (intro headers_ok_set) (simp add: headers_ok_body headers_ok_new)
  ultimately show ?thesis by (simp add: good_response_def sample_404_length)
qed

lemma sample_post_good: "good_request sample_post"
proof -
  have s: "p_method (c_parser sample_post) = HTTP_POST" "c_url sample_post = ''/form?a=1''" by code_simp+
  have "url_read HTTP_POST ''/form?a=1''" "plain_headers sample_post" by code_simp+
  moreover have "headers_ok sample_post"
    unfolding sample_post_def by (intro headers_ok_set) (simp add: headers_ok_body headers_ok_new)
  ultimately show ?thesis using s sample_post_length by (simp add: good_request_def)
qed

lemma sample_post_sent:
  "request_sent sample_post ready_link False (sent_all (bytes_of (fst (request_format sample_post)))) ready_link"
proof -
  have "plain_headers sample_post" by code_simp
  from request_format_text(1) [OF this prod.collapse [symmetric]]
  have "0 < length (fst (request_format sample_post))" by (simp add: request_text_def)
  then have "client_send ready_link False (bytes_of (fst (request_format sample_post)))
      (sent_all (bytes_of (fst (request_format sample_post)))) = Some (0, bytes_of (fst (request_format sample_post)))"
    using sample_post_length by (intro client_send_all) simp_all
  moreover have "\<not> num ready_link <=s 0" "ev ready_link AND EPOLLIN \<noteq> 0"
    by (simp_all add: ready_link_def EPOLLIN_def word_sle_eq)
  ultimately show ?thesis by (simp add: request_sent_def)
qed

lemma new_header_field: "header_field (new_ctx t) = []"
  by (simp add: new_ctx_def ctx_init_def ctx_clear_def)

lemma concat_singles: "concat (map (\<lambda>x. [x]) xs) = xs"
  by simp

theorem http_client_reassembles_witness:
  "\<exists>res. doRequest sample_post (new_ctx HTTP_RESPONSE) ready_link False
      (sent_all (bytes_of (fst (request_format sample_post)))) ready_link
      (map fragment (map (\<lambda>b. [b]) (bytes_of (fst (response_format sample_404))))) big_buf = Some (Ok res) \<and>
    iRet res = 0 \<and> p_status (c_parser (tResp res)) = 404 \<and> c_body (tResp res) = ''gone''"
proof -
  have s: "p_status (c_parser sample_404) = 404" "c_body sample_404 = ''gone''" by code_simp+
  show ?thesis
    using http_client_reassembles [OF sample_post_sent new_header_field sample_404_good
        big_room [OF sample_404_length] concat_singles] s
    by auto
qed

theorem http_timeout_is_success_witness:
  "\<exists>res. doRequest sample_post (new_ctx HTTP_RESPONSE) ready_link False
      (sent_all (bytes_of (fst (request_format sample_post)))) ready_link
      (map fragment [] @ [TimedOut]) big_buf = Some (Ok res) \<and> iRet res = 0 \<and> fRecv (tResp res)"
proof -
  have "bytes_of (fst (response_format sample_404)) \<noteq> []"
    using response_length [OF sample_404_good] by (auto simp flip: length_greater_0_conv)
  from http_timeout_is_success [OF sample_post_sent new_header_field sample_404_good big_room [OF sample_404_length] _ this, of "[]"]
  show ?thesis by auto
qed

theorem reused_context_adds_header_witness:
  "c_headers (fold http_callback (header_cbs [(''A'', ''1'')] @ [on_headers_complete])
      (ctx_init HTTP_RESPONSE ((new_ctx HTTP_RESPONSE)\<lparr>header_field := ''Server''\<rparr>))) =
    sort_key fst [(''Server'', []), (''A'', ''1'')]"
  using reused_context_adds_header [of "(new_ctx HTTP_RESPONSE)\<lparr>header_field := ''Server''\<rparr>" "[(''A'', ''1'')]" HTTP_RESPONSE]
  by simp

end
