(* ===== verification/Ys_String.thy ===== *)
theory Ys_String
  imports Ys_Url "HOL-Library.Sublist"
begin

text \<open>
  \<open>isaac/tool/ys_string.hpp\<close>, the string helpers, and the path functions of \<open>isaac/tool/ys_file.hpp\<close>
  that rest on them.
\<close>

unbundle bit_operations_syntax

section \<open>Searching\<close>

text \<open>\<open>std::string::find\<close>: the first position at or after \<open>pos\<close>.\<close>

fun find_sub :: "string \<Rightarrow> string \<Rightarrow> nat option" where
  "find_sub p [] = (if p = [] then Some 0 else None)"
| "find_sub p (c # cs) = (if prefix p (c # cs) then Some 0 else map_option Suc (find_sub p cs))"

definition str_find :: "string \<Rightarrow> string \<Rightarrow> nat \<Rightarrow> nat option" where
  "str_find s p pos = (if length s < pos then None else map_option ((+) pos) (find_sub p (drop pos s)))"

lemma find_sub_Some: "find_sub p s = Some i \<Longrightarrow> \<exists>b. s = take i s @ p @ b \<and> i \<le> length s"
proof (induction s arbitrary: i)
  case Nil
  then show ?case by (simp split: if_splits)
next
  case (Cons c cs)
  show ?case
  proof (cases "prefix p (c # cs)")
    case True
    then obtain b where "c # cs = p @ b" by (auto simp: prefix_def)
    moreover have "i = 0" using Cons.prems True by simp
    ultimately show ?thesis by simp
  next
    case False
    with Cons.prems obtain j where j: "i = Suc j" "find_sub p cs = Some j" by auto
    from Cons.IH [OF j(2)] j(1) show ?thesis by simp
  qed
qed

lemma find_sub_None: "find_sub p s = None \<longleftrightarrow> \<not> sublist p s"
  by (induction s) (auto simp: sublist_Cons_right)

lemma find_sub_first: "find_sub p s = Some i \<Longrightarrow> j < i \<Longrightarrow> \<not> prefix p (drop j s)"
proof (induction s arbitrary: i j)
  case (Cons c cs)
  show ?case
  proof (cases "prefix p (c # cs)")
    case False
    with Cons.prems obtain k where k: "i = Suc k" "find_sub p cs = Some k" by auto
    with Cons.IH [OF k(2)] Cons.prems(2) False show ?thesis by (cases j) auto
  qed (use Cons.prems in simp)
qed (simp split: if_splits)

section \<open>Replacing\<close>

text \<open>
  The search starts over from the beginning of the string after each replacement (the position is
  kept but not used): the loop runs until the text no longer occurs, which may be never.
\<close>

partial_function (option) replace_loop :: "string \<Rightarrow> string \<Rightarrow> string \<Rightarrow> string option" where
  "replace_loop src dst s =
     (case find_sub src s of
        None \<Rightarrow> Some s
      | Some i \<Rightarrow> replace_loop src dst (take i s @ dst @ drop (i + length src) s))"

definition str_replace :: "string \<Rightarrow> string \<Rightarrow> string \<Rightarrow> string option" where
  "str_replace s src dst = (if src = [] then Some s else replace_loop src dst s)"

lemma replace_shorter:
  assumes "length dst < length src"
  shows "\<exists>t. replace_loop src dst s = Some t \<and> \<not> sublist src t"
proof (induction s rule: length_induct)
  case (1 s)
  show ?case
  proof (cases "find_sub src s")
    case None
    then show ?thesis using find_sub_None [of src s] by (simp add: replace_loop.simps [of src dst s])
  next
    case (Some i)
    from find_sub_Some [OF this] obtain b where b: "s = take i s @ src @ b" "i \<le> length s" by blast
    have "length s = length (take i s) + length src + length b" by (subst b(1)) simp
    then have "length (take i s @ dst @ drop (i + length src) s) < length s" using b(2) assms by simp
    with 1 Some show ?thesis by (simp add: replace_loop.simps [of src dst s])
  qed
qed

lemma replace_result:
  assumes "replace_loop src dst s = Some t"
  shows "\<not> sublist src t \<and> (sublist src dst \<longrightarrow> \<not> sublist src s)"
proof (rule replace_loop.raw_induct [OF _ assms])
  fix go :: "string \<Rightarrow> string \<Rightarrow> string \<Rightarrow> string option" and src dst s t :: string
  assume IH: "\<And>src dst s t. go src dst s = Some t \<Longrightarrow>
      \<not> sublist src t \<and> (sublist src dst \<longrightarrow> \<not> sublist src s)"
    and body: "(case find_sub src s of None \<Rightarrow> Some s
      | Some i \<Rightarrow> go src dst (take i s @ dst @ drop (i + length src) s)) = Some t"
  show "\<not> sublist src t \<and> (sublist src dst \<longrightarrow> \<not> sublist src s)"
  proof (cases "find_sub src s")
    case None
    then have "s = t" using body by simp
    with None find_sub_None [of src s] show ?thesis by simp
  next
    case (Some i)
    let ?s = "take i s @ dst @ drop (i + length src) s"
    from Some body have "go src dst ?s = Some t" by simp
    from IH [OF this] have r: "\<not> sublist src t" "sublist src dst \<longrightarrow> \<not> sublist src ?s" by auto
    have "sublist dst ?s" by (auto simp: sublist_def)
    with r show ?thesis using sublist_order.order.trans by blast
  qed
qed

text \<open>
  C37: \<open>replace\<close> by something shorter returns a string without the text searched for; where the new text
  contains the old one and the old one occurs, \<open>replace\<close> never returns.
\<close>

theorem replace_returns:
  assumes "src \<noteq> []"
  shows "(length dst < length src \<longrightarrow> (\<exists>t. str_replace s src dst = Some t \<and> \<not> sublist src t)) \<and>
    (sublist src dst \<longrightarrow> str_replace s src dst = (if sublist src s then None else Some s))"
proof (intro conjI impI)
  show "\<exists>t. str_replace s src dst = Some t \<and> \<not> sublist src t" if "length dst < length src"
    using replace_shorter [OF that] assms by (simp add: str_replace_def)
  show "str_replace s src dst = (if sublist src s then None else Some s)" if "sublist src dst"
  proof (cases "sublist src s")
    case True
    then show ?thesis using that assms replace_result [of src dst s]
      by (cases "replace_loop src dst s") (auto simp: str_replace_def)
  next
    case False
    then show ?thesis using assms find_sub_None [of src s] by (simp add: str_replace_def replace_loop.simps [of src dst s])
  qed
qed

theorem replace_returns_witness:
  "(\<exists>t. str_replace ''a//b///c'' ''//'' ''/'' = Some t \<and> \<not> sublist ''//'' t) \<and> str_replace ''a.b'' ''.'' ''..'' = None"
  using replace_returns [of "''//''" "''/''" "''a//b///c''"] replace_returns [of "''.''" "''..''" "''a.b''"]
  by (simp add: sublist_Cons_right)

section \<open>Splitting and joining\<close>

text \<open>
  The loop of \<open>splitBy\<close> on what is left of the string: up to the separator, then past all the
  separators that follow.  A separator at the end leaves an empty piece behind it.
\<close>

function splitBy :: "string \<Rightarrow> char \<Rightarrow> string list" where
  "splitBy s c =
     (if c \<in> set s then takeWhile (\<lambda>x. x \<noteq> c) s # splitBy (dropWhile (\<lambda>x. x = c) (dropWhile (\<lambda>x. x \<noteq> c) s)) c
      else [s])"
  by pat_completeness auto
termination
proof (relation "measure (\<lambda>(s, c). length s)")
  fix s :: string and c assume c: "c \<in> set s"
  let ?d = "dropWhile (\<lambda>x. x \<noteq> c) s"
  have "?d \<noteq> []" using c by (auto simp: dropWhile_eq_Nil_conv)
  moreover from this have "hd ?d = c" by (metis (mono_tags) hd_dropWhile)
  ultimately have "length (dropWhile (\<lambda>x. x = c) ?d) < length ?d"
    by (cases ?d) (simp_all add: le_imp_less_Suc length_dropWhile_le)
  moreover have "length ?d \<le> length s" by (rule length_dropWhile_le)
  ultimately show "((dropWhile (\<lambda>x. x = c) ?d, c), (s, c)) \<in> measure (\<lambda>(s, c). length s)" by simp
qed simp

declare splitBy.simps [simp del]

definition fmtVector :: "string list \<Rightarrow> char \<Rightarrow> string" where
  "fmtVector vt c =
     (let str = foldl (\<lambda>s i. s @ i @ [c]) [] vt in if str \<noteq> [] then butlast str else str)"

lemma fmtVector_Cons: "vt \<noteq> [] \<Longrightarrow> fmtVector (v # vt) c = v @ c # fmtVector vt c"
proof -
  have f: "foldl (\<lambda>s i. s @ i @ [c]) a vt = a @ concat (map (\<lambda>i. i @ [c]) vt)" for a vt
    by (induction vt arbitrary: a) simp_all
  assume "vt \<noteq> []"
  then have "concat (map (\<lambda>i. i @ [c]) vt) \<noteq> []" by (cases vt) auto
  then show ?thesis by (simp add: fmtVector_def f butlast_append)
qed

text \<open>
  Splitting what \<open>fmtVector\<close> joined gives the strings back, if none is empty and none contains the
  separator.
\<close>

theorem split_joined:
  assumes "vt \<noteq> []" and "list_all (\<lambda>v. v \<noteq> [] \<and> c \<notin> set v) vt"
  shows "splitBy (fmtVector vt c) c = vt"
  using assms
proof (induction vt rule: list_nonempty_induct)
  case (single v)
  then show ?case by (simp add: fmtVector_def splitBy.simps [of v])
next
  case (cons v vt)
  let ?j = "fmtVector vt c"
  have "hd ?j \<noteq> c \<and> ?j \<noteq> []"
  proof -
    obtain w ws where vt: "vt = w # ws" using cons.hyps by (cases vt) auto
    with cons.prems have w: "w \<noteq> []" "c \<notin> set w" by simp_all
    show ?thesis
    proof (cases "ws = []")
      case True
      then show ?thesis using w by (cases w) (auto simp: vt fmtVector_def)
    next
      case False
      then show ?thesis using w by (cases w) (auto simp: vt fmtVector_Cons)
    qed
  qed
  then have d: "dropWhile (\<lambda>x. x = c) ?j = ?j" by (cases ?j) auto
  have v: "takeWhile (\<lambda>x. x \<noteq> c) (v @ c # ?j) = v" "dropWhile (\<lambda>x. x \<noteq> c) (v @ c # ?j) = c # ?j"
    using cons.prems by (auto simp: takeWhile_append dropWhile_append)
  show ?case
    using cons v d by (simp add: fmtVector_Cons splitBy.simps [of "v @ c # ?j"])
qed

theorem split_joined_witness: "splitBy (fmtVector [''ab'', ''c''] CHR '' '') CHR '' '' = [''ab'', ''c'']"
  using split_joined [of "[''ab'', ''c'']" "CHR '' ''"] by simp

section \<open>Hexadecimal text\<close>

definition hex_upper :: "nat \<Rightarrow> char" where
  "hex_upper v = (if v \<le> 9 then char_of (48 + v) else char_of (55 + v))"

definition toHex :: "bytes \<Rightarrow> string" where
  "toHex d = concat (map (\<lambda>b. [hex_upper (unat b div 16), hex_upper (unat b mod 16)]) d)"

definition upper_char :: "char \<Rightarrow> char" where
  "upper_char c = (if 97 \<le> chcode c \<and> chcode c \<le> 122 then char_of (chcode c - 32) else c)"

definition bin_digit :: "char \<Rightarrow> byte" where
  "bin_digit c = (let b = of_nat (chcode (upper_char c)) in if 0x39 < b then b - 0x37 else b - 0x30)"

text \<open>For an odd length the last digit is paired with the terminating zero of the string.\<close>

fun toBin_bytes :: "string \<Rightarrow> bytes" where
  "toBin_bytes [] = []"
| "toBin_bytes [a] = [push_bit 4 (bin_digit a) OR bin_digit (char_of (0 :: nat))]"
| "toBin_bytes (a # b # s) = (push_bit 4 (bin_digit a) OR bin_digit b) # toBin_bytes s"

definition toBin :: "string \<Rightarrow> bytes" where
  "toBin s = (if length s < 2 then [] else take (length s div 2) (toBin_bytes s))"

lemma bin_hex: "v < 16 \<Longrightarrow> bin_digit (hex_upper v) = of_nat v"
proof -
  have "list_all (\<lambda>v. bin_digit (hex_upper v) = of_nat v) [0..<16]"
    by (simp add: upt_conv_Cons bin_digit_def hex_upper_def upper_char_def chcode_def)
  then show "v < 16 \<Longrightarrow> bin_digit (hex_upper v) = of_nat v" by (simp add: list_all_iff)
qed

text \<open>
  \<open>toBin\<close> reads back what \<open>toHex\<close> wrote.
\<close>

theorem hex_roundtrip: "toBin (toHex d) = d"
proof -
  have byte: "push_bit 4 (of_nat (unat b div 16)) OR of_nat (unat b mod 16) = b" for b :: byte
  proof -
    have "unat b < 2 ^ LENGTH(8)" by (rule unsigned_less)
    then have "(of_nat (unat b div 16) :: byte) = drop_bit 4 b"
      by (intro word_unat_eq_iff [THEN iffD2]) (simp add: unsigned_drop_bit_eq unat_of_nat drop_bit_eq_div unat_div)
    moreover have "(of_nat (unat b mod 16) :: byte) = take_bit 4 b" 
      by (rule word_unat_eq_iff [THEN iffD2]) (simp add: unsigned_take_bit_eq take_bit_eq_mod unat_of_nat unat_mod)
    ultimately show ?thesis by (simp only:) (rule bit_word_eqI, auto simp: bit_simps)
  qed
  have "toBin_bytes (toHex d) = d" for d
  proof (induction d)
    case (Cons b d)
    have "unat b < 2 ^ LENGTH(8)" by (rule unsigned_less)
    then have "unat b div 16 < 16" by (simp add: less_mult_imp_div_less)
    with Cons show ?case by (simp add: toHex_def bin_hex byte)
  qed (simp add: toHex_def)
  moreover have "length (toHex d) = 2 * length d" by (induction d) (simp_all add: toHex_def)
  ultimately show ?thesis by (cases d) (simp_all add: toBin_def)
qed

section \<open>Finding text between marks\<close>

text \<open>\<open>dstOff\<close> is added to a position that already counts from the start of the string.\<close>

definition findSubStr :: "string \<Rightarrow> string \<Rightarrow> string \<Rightarrow> nat \<Rightarrow> string" where
  "findSubStr dst frm to dstOff =
     (case str_find dst frm dstOff of
        None \<Rightarrow> []
      | Some pos1 \<Rightarrow>
          (case str_find dst to (dstOff + pos1 + length frm) of
             None \<Rightarrow> []
           | Some pos2 \<Rightarrow> take (pos2 - pos1 - length frm) (drop (dstOff + pos1 + length frm) dst)))"

text \<open>
  \<open>findSubStr\<close> from the start of a string gives the text between the first \<open>frm\<close> and the next \<open>to\<close>.
\<close>

theorem findSubStr_between:
  assumes "findSubStr dst frm to 0 \<noteq> []"
  shows "\<exists>a b. dst = a @ frm @ findSubStr dst frm to 0 @ to @ b \<and>
    (\<forall>j < length a. \<not> prefix frm (drop j dst)) \<and> \<not> prefix to (findSubStr dst frm to 0 @ to @ b)"
proof -
  from assms obtain i j where i: "find_sub frm dst = Some i" and f: "str_find dst to (i + length frm) = Some j"
    and eq: "findSubStr dst frm to 0 = take (j - i - length frm) (drop (i + length frm) dst)"
    by (auto simp: findSubStr_def str_find_def split: option.splits if_splits)
  from find_sub_Some [OF i] obtain b where b: "dst = take i dst @ frm @ b" "i \<le> length dst" by blast
  obtain a where a: "a = take i dst" "length a = i" using b(2) by simp
  have dst: "dst = a @ frm @ b" using b(1) a(1) by simp
  from f obtain k where k: "find_sub to b = Some k" "j = i + length frm + k"
    by (auto simp: str_find_def dst a(2) [symmetric] split: if_splits)
  from find_sub_Some [OF k(1)] obtain e where e: "b = take k b @ to @ e" "k \<le> length b" by blast
  have m: "findSubStr dst frm to 0 = take k b" unfolding eq by (simp add: dst a(2) [symmetric] k(2))
  have "k \<noteq> 0" using assms m by auto
  then have "\<not> prefix to b" using find_sub_first [OF k(1), of 0] by simp
  then show ?thesis unfolding m
    using e(1) dst find_sub_first [OF i] a(2) by (intro exI [of _ a] exI [of _ e]) auto
qed

theorem findSubStr_between_witness: "findSubStr ''x[ab]y'' ''['' '']'' 0 = ''ab'' \<and>
  (\<exists>a b. ''x[ab]y'' = a @ ''['' @ ''ab'' @ '']'' @ b)"
proof -
  have v: "findSubStr ''x[ab]y'' ''['' '']'' 0 = ''ab''" by (simp add: findSubStr_def str_find_def)
  with findSubStr_between [of "''x[ab]y''" "''[''" "'']''"] show ?thesis by auto
qed

text \<open>From an offset the text is cut too late and too long.\<close>

lemma findSubStr_offset_twice: "findSubStr ''x[ab]y'' ''['' '']'' 1 = ''b]''"
  by (simp add: findSubStr_def str_find_def)

text \<open>
  \<open>ustrstr\<close> lacks the comparison of the result of \<open>memcmp\<close> with zero.
\<close>

fun ustrstr_loop :: "bytes \<Rightarrow> bytes \<Rightarrow> nat \<Rightarrow> nat \<Rightarrow> nat option" where
  "ustrstr_loop data dst i 0 = None"
| "ustrstr_loop data dst i (Suc n) =
     (if data ! i = hd dst \<and> take (length dst) (drop i data) \<noteq> dst then Some i else ustrstr_loop data dst (i + 1) n)"

definition ustrstr :: "bytes \<Rightarrow> bytes \<Rightarrow> (unit, nat option) outcome" where
  "ustrstr data dst =
     (if length data < length dst then Ok None
      else if dst = [] then Undef
      else Ok (ustrstr_loop data dst 0 (length data - length dst + 1)))"

lemma ustrstr_never_matches: "ustrstr data dst = Ok (Some i) \<Longrightarrow> take (length dst) (drop i data) \<noteq> dst"
proof -
  have "ustrstr_loop data dst k n = Some i \<Longrightarrow> take (length dst) (drop i data) \<noteq> dst" for k n
    by (induction n arbitrary: k) (auto split: if_splits)
  then show "ustrstr data dst = Ok (Some i) \<Longrightarrow> take (length dst) (drop i data) \<noteq> dst"
    by (auto simp: ustrstr_def split: if_splits)
qed

section \<open>Paths\<close>

definition slashes :: "string \<Rightarrow> string" where
  "slashes = map (\<lambda>c. if chcode c = 92 then CHR ''/'' else c)"

definition fmtPath :: "string \<Rightarrow> string option" where
  "fmtPath p = str_replace (slashes p) ''//'' ''/''"

text \<open>What \<open>fmtPath\<close> computes: runs of slashes become one.\<close>

fun squeeze :: "string \<Rightarrow> string" where
  "squeeze (a # b # s) = (if a = CHR ''/'' \<and> b = CHR ''/'' then squeeze (b # s) else a # squeeze (b # s))"
| "squeeze s = s"

lemma squeeze_none: "\<not> sublist ''//'' s \<Longrightarrow> squeeze s = s"
  by (induction s rule: squeeze.induct) (auto simp: sublist_Cons_right)

lemma squeeze_once: "squeeze (a @ ''//'' @ b) = squeeze (a @ ''/'' @ b)"
proof (induction a)
  case (Cons c a)
  then show ?case by (cases a) auto
qed simp

lemma replace_slashes: "replace_loop ''//'' ''/'' s = Some (squeeze s)"
proof (induction s rule: length_induct)
  case (1 s)
  show ?case
  proof (cases "find_sub ''//'' s")
    case None
    then show ?thesis using find_sub_None [of "''//''" s] squeeze_none
      by (simp add: replace_loop.simps [of "''//''" "''/''" s])
  next
    case (Some i)
    from find_sub_Some [OF this] obtain b where b: "s = take i s @ ''//'' @ b" "i \<le> length s" by blast
    obtain a where a: "a = take i s" "length a = i" using b(2) by simp
    have s: "s = a @ ''//'' @ b" using b(1) a(1) by simp
    have "length (a @ ''/'' @ b) < length s" by (simp add: s)
    with 1 have "replace_loop ''//'' ''/'' (a @ ''/'' @ b) = Some (squeeze (a @ ''/'' @ b))" by blast
    then show ?thesis using Some a(2) squeeze_once [of a b]
      by (subst replace_loop.simps) (simp add: s)
  qed
qed

lemma fmtPath_squeeze: "fmtPath p = Some (squeeze (slashes p))"
  by (simp add: fmtPath_def str_replace_def replace_slashes)

text \<open>
  The pieces of \<open>fmtPathEx\<close>: up to the next slash, a slash at the very start being a piece of its own.
\<close>

function path_pieces :: "bool \<Rightarrow> string \<Rightarrow> string list" where
  "path_pieces first s =
     (if CHR ''/'' \<in> set s
      then (if first \<and> hd s = CHR ''/'' then ''/'' else takeWhile (\<lambda>c. c \<noteq> CHR ''/'') s)
        # path_pieces False (tl (dropWhile (\<lambda>c. c \<noteq> CHR ''/'') s))
      else if s = [] then [] else [s])"
  by pat_completeness auto
termination
proof (relation "measure (\<lambda>(f, s). length s)")
  fix s :: string and f assume "CHR ''/'' \<in> set s"
  then have "dropWhile (\<lambda>c. c \<noteq> CHR ''/'') s \<noteq> []" by (auto simp: dropWhile_eq_Nil_conv)
  then have "length (tl (dropWhile (\<lambda>c. c \<noteq> CHR ''/'') s)) < length (dropWhile (\<lambda>c. c \<noteq> CHR ''/'') s)"
    by (cases "dropWhile (\<lambda>c. c \<noteq> CHR ''/'') s") simp_all
  moreover have "length (dropWhile (\<lambda>c. c \<noteq> CHR ''/'') s) \<le> length s" by (rule length_dropWhile_le)
  ultimately show "((False, tl (dropWhile (\<lambda>c. c \<noteq> CHR ''/'') s)), (f, s)) \<in> measure (\<lambda>(f, s). length s)" by simp
qed simp

declare path_pieces.simps [simp del]

fun pop_dots :: "string list \<Rightarrow> string list \<Rightarrow> string list \<Rightarrow> string list" where
  "pop_dots stk stk1 [] = stk1"
| "pop_dots stk stk1 (x # xs) =
     (if x = ''..'' \<and> stk1 \<noteq> [] \<and> last stk1 \<noteq> ''..'' \<and> stk ! (length stk1 - 1) \<noteq> ''/''
      then pop_dots stk (butlast stk1) xs
      else pop_dots stk (stk1 @ [x]) xs)"

fun join_slash :: "string list \<Rightarrow> string" where
  "join_slash [] = []"
| "join_slash [x] = x"
| "join_slash (x # y # xs) = x @ ''/'' @ join_slash (y # xs)"

definition fmtPathEx :: "string \<Rightarrow> string option" where
  "fmtPathEx p =
     (if p = [] then Some p
      else case str_replace (slashes p) ''//'' ''/'' of
        None \<Rightarrow> None
      | Some tmp \<Rightarrow>
          (let vtSub = path_pieces True tmp;
               stk = filter (\<lambda>x. x \<noteq> ''.'') vtSub;
               stk1 = pop_dots stk [] stk;
               relPath = (if vtSub \<noteq> [] \<and> hd vtSub = ''.'' then ''./'' else []) @ join_slash stk1 @
                 (if last tmp = CHR ''/'' then ''/'' else [])
           in str_replace relPath ''//'' ''/''))"

definition path_name :: "string \<Rightarrow> string" where
  "path_name p = (if CHR ''/'' \<in> set p then rev (takeWhile (\<lambda>c. c \<noteq> CHR ''/'') (rev p)) else p)"

lemma squeeze_hd: "\<exists>t. squeeze (b # s) = b # t"
proof (induction s arbitrary: b)
  case (Cons a s)
  then obtain t where "squeeze (a # s) = a # t" by blast
  then show ?case by auto
qed simp

lemma squeeze_no_double: "\<not> sublist ''//'' (squeeze s)"
proof (induction s rule: squeeze.induct)
  case (1 a b s)
  obtain t where t: "squeeze (b # s) = b # t" using squeeze_hd by blast
  show ?case using 1 by (auto simp: sublist_Cons_right t)
qed (auto simp: sublist_Cons_right)

text \<open>
  \<open>fmtPath\<close> and \<open>fmtPathEx\<close> return for every path, and no double slash is left in the result.
\<close>

theorem paths_formatted:
  "(\<exists>q. fmtPath p = Some q \<and> \<not> sublist ''//'' q) \<and> (\<exists>q. fmtPathEx p = Some q \<and> \<not> sublist ''//'' q)"
proof
  show "\<exists>q. fmtPath p = Some q \<and> \<not> sublist ''//'' q" by (simp add: fmtPath_squeeze squeeze_no_double)
  show "\<exists>q. fmtPathEx p = Some q \<and> \<not> sublist ''//'' q"
    by (simp add: fmtPathEx_def str_replace_def replace_slashes Let_def squeeze_no_double)
qed

lemmas path_eval = fmtPathEx_def str_replace_def replace_slashes path_pieces.simps slashes_def chcode_def Let_def

lemma fmtPathEx_examples:
  "fmtPathEx ''/a/./b/../c//d/'' = Some ''/a/c/d/''" "fmtPathEx ''./a/../../b'' = Some ''./../b''"
  "fmtPathEx ''a/..'' = Some []" "fmtPathEx ''/../x'' = Some ''/../x''"
  by (simp_all add: path_eval)

end
