(* ===== verification/Ys_HttpServer.thy ===== *)
theory Ys_HttpServer
  imports Ys_Http Ys_String Ys_Engine
begin

text \<open>
  \<open>isaac/ys_http_server.h\<close> and \<open>isaac/ys_http_mount.h\<close>: what the HTTP drivers do with a request that has
  arrived, and \<open>sendFile\<close> of \<open>isaac/ys_http_pkt.h\<close>.  The file system and the socket are parameters:
  \<open>fs\<close> gives the file or directory at a path, \<open>sock\<close> the result of sending data after the data sent
  before.
\<close>

section \<open>Files\<close>

record dir_info =
  di_name :: string
  di_modTm :: string
  di_size :: u64
  di_isDir :: bool

datatype fs_node = File string | Folder "dir_info list"

type_synonym file_system = "string \<Rightarrow> fs_node option"

definition file_exist :: "file_system \<Rightarrow> string \<Rightarrow> bool" where "file_exist fs p \<longleftrightarrow> fs p \<noteq> None"

definition file_isFile :: "file_system \<Rightarrow> string \<Rightarrow> bool" where
  "file_isFile fs p \<longleftrightarrow> (case fs p of Some (File d) \<Rightarrow> True | _ \<Rightarrow> False)"

definition file_size :: "file_system \<Rightarrow> string \<Rightarrow> nat" where
  "file_size fs p = (case fs p of Some (File d) \<Rightarrow> length d | _ \<Rightarrow> 2 ^ 64 - 1)"

definition file_read :: "file_system \<Rightarrow> string \<Rightarrow> string" where
  "file_read fs p = (case fs p of Some (File d) \<Rightarrow> d | _ \<Rightarrow> [])"

definition file_read_at :: "file_system \<Rightarrow> string \<Rightarrow> nat \<Rightarrow> nat \<Rightarrow> string" where
  "file_read_at fs p len off = (case fs p of Some (File d) \<Rightarrow> take len (drop off d) | _ \<Rightarrow> [])"

text \<open>For a file the directory it is in; \<open>None\<close> is the result -1.\<close>

definition parent_dir :: "string \<Rightarrow> string" where
  "parent_dir p = (if CHR ''/'' \<in> set p then rev (tl (dropWhile (\<lambda>c. c \<noteq> CHR ''/'') (rev p))) else p)"

definition scanDir :: "file_system \<Rightarrow> string \<Rightarrow> dir_info list option" where
  "scanDir fs p =
     (case fs p of
        None \<Rightarrow> None
      | Some (Folder ds) \<Rightarrow> Some ds
      | Some (File d) \<Rightarrow> (case fs (parent_dir p) of Some (Folder ds) \<Rightarrow> Some ds | _ \<Rightarrow> None))"

section \<open>Responses\<close>

text \<open>\<open>r_sent\<close> is what the response and the driver have handed to \<open>send\<close> so far, in order.\<close>

record http_resp =
  r_ctx :: http_ctx
  r_direct :: bool
  r_sent :: "string list"

type_synonym send_result = "string list \<Rightarrow> string \<Rightarrow> int"

definition new_resp :: http_resp where
  "new_resp = \<lparr>r_ctx = new_ctx HTTP_RESPONSE, r_direct = False, r_sent = []\<rparr>"

definition hasResped :: "http_resp \<Rightarrow> bool" where "hasResped r = r_direct r"

definition upd_ctx :: "(http_ctx \<Rightarrow> http_ctx) \<Rightarrow> http_resp \<Rightarrow> http_resp" where
  "upd_ctx f r = r\<lparr>r_ctx := f (r_ctx r)\<rparr>"

function send_chunks :: "file_system \<Rightarrow> send_result \<Rightarrow> string \<Rightarrow> nat \<Rightarrow> nat \<Rightarrow> string list \<Rightarrow> int \<times> string list" where
  "send_chunks fs sock p sz off sent =
     (if off < sz
      then let d = file_read_at fs p (8 * 8192) off in
        if d = [] then (0, sent)
        else if sock sent d \<noteq> int (length d) then (- 1, sent @ [d])
        else send_chunks fs sock p sz (off + length d) (sent @ [d])
      else (0, sent))"
  by pat_completeness auto
termination by (relation "measure (\<lambda>(fs, sock, p, sz, off, sent). sz - off)")
  (auto simp: length_greater_0_conv [symmetric] simp del: length_greater_0_conv)

declare send_chunks.simps [simp del]

definition resp_sendFile :: "file_system \<Rightarrow> send_result \<Rightarrow> string \<Rightarrow> http_resp \<Rightarrow> int \<times> http_resp" where
  "resp_sendFile fs sock p r =
     (let sz = file_size fs p;
          c1 = setHeader ''Content-Length'' (dec_str sz) (r_ctx r);
          c2 = setHeader ''Content-Disposition'' (''attachment; filename=\"'' @ path_name p @ ''\"'') c1;
          (d, c3) = response_format (setResponse 200 [] c2);
          (ret, sent) = send_chunks fs sock p sz 0 (r_sent r @ [d])
      in (ret, \<lparr>r_ctx = c3, r_direct = True, r_sent = sent\<rparr>))"

definition format_and_send :: "http_resp \<Rightarrow> http_resp" where
  "format_and_send r =
     (case response_format (r_ctx r) of (d, c) \<Rightarrow> r\<lparr>r_ctx := c, r_sent := r_sent r @ [d]\<rparr>)"

section \<open>The routing driver\<close>

text \<open>
  A handler works on the request and the response.  \<open>dflt\<close> is the function's static variable: \<open>None\<close> before
  the first request of the process, then the handler for \<open>*\<close> of the driver that handled it.  The result:
  what was sent, whether the connection is to be closed, and the static variable.
\<close>

type_synonym http_api = "http_ctx \<Rightarrow> http_resp \<Rightarrow> http_ctx \<times> http_resp"

definition http_handle ::
    "(string, http_api) engine \<Rightarrow> http_api option option \<Rightarrow> http_ctx \<Rightarrow>
     (unit, string list \<times> bool \<times> http_api option option) outcome" where
  "http_handle engine dflt req =
     (let (conn, req1) = getConnection req;
          r0 = upd_ctx (setConnection conn) new_resp
      in bindO (getUrl req1) (\<lambda>sUrl.
        let pf = engine_get engine sUrl;
            def = (case dflt of Some d \<Rightarrow> d | None \<Rightarrow> engine_get engine ''*'');
            (req2, r1) = (case pf of
                Some f \<Rightarrow> f req1 r0
              | None \<Rightarrow> (case def of
                  None \<Rightarrow> (req1, upd_ctx (setResponse 404 []) r0)
                | Some f \<Rightarrow> f req1 r0));
            r2 = (if hasResped r1 then r1 else format_and_send r1)
        in Ok (r_sent r2, hasConnectionClose req2, Some def)))"

section \<open>The file driver\<close>

definition fileExt :: "string \<Rightarrow> string" where
  "fileExt p =
     (let e = rev (takeWhile (\<lambda>c. c \<noteq> CHR ''.'') (rev p))
      in if CHR ''.'' \<in> set p \<and> e \<noteq> [] \<and> list_all (\<lambda>c. is_word c \<and> chcode c \<noteq> 95) e then e else [])"

definition content_types :: "(string \<times> string) list" where
  "content_types =
     [(''css'', ''text/css''), (''csv'', ''text/csv''), (''htm'', ''text/html''),
      (''html'', ''text/html''), (''js'', ''text/javascript''), (''mjs'', ''text/javascript''),
      (''txt'', ''text/plain''), (''vtt'', ''text/vtt''), (''apng'', ''image/apng''),
      (''avif'', ''image/avif''), (''bmp'', ''image/bmp''), (''gif'', ''image/gif''),
      (''png'', ''image/png''), (''svg'', ''image/svg+xml''), (''webp'', ''image/webp''),
      (''ico'', ''image/x-icon''), (''tif'', ''image/tiff''), (''tiff'', ''image/tiff''),
      (''jpg'', ''image/jpeg''), (''jpeg'', ''image/jpeg''), (''mp4'', ''video/mp4''),
      (''mpeg'', ''video/mpeg''), (''webm'', ''video/webm''), (''mp3'', ''audio/mp3''),
      (''mpga'', ''audio/mpeg''), (''weba'', ''audio/webm''), (''wav'', ''audio/wave''),
      (''otf'', ''font/otf''), (''ttf'', ''font/ttf''), (''woff'', ''font/woff''),
      (''woff2'', ''font/woff2''), (''7z'', ''application/x-7z-compressed''), (''atom'', ''application/atom+xml''),
      (''pdf'', ''application/pdf''), (''json'', ''application/json''), (''rss'', ''application/rss+xml''),
      (''tar'', ''application/x-tar''), (''xht'', ''application/xhtml+xml''), (''xslt'', ''application/xslt+xml''),
      (''xml'', ''application/xml''), (''gz'', ''application/gzip''), (''zip'', ''application/zip''),
      (''wasm'', ''application/wasm'')]"

definition fileContentType :: "string \<Rightarrow> string" where
  "fileContentType p =
     (case map_of content_types (fileExt p) of Some t \<Rightarrow> t | None \<Rightarrow> ''applcation/octet-stream'')"

definition small_file :: nat where "small_file = 5 * 1024 * 1024"

definition mount_sendFile :: "file_system \<Rightarrow> send_result \<Rightarrow> string \<Rightarrow> http_resp \<Rightarrow> http_resp" where
  "mount_sendFile fs sock p r =
     (if file_size fs p < small_file
      then upd_ctx (\<lambda>c. setHeader ''Content-Type'' (fileContentType p) (setResponse 200 (file_read fs p) c)) r
      else snd (resp_sendFile fs sock p r))"

text \<open>\<open>html\<close> is \<open>YS_MountHtml::format\<close>; \<open>fmtPath\<close> always returns (\<open>paths_formatted\<close>).\<close>

definition getAutoIndex ::
    "file_system \<Rightarrow> (string \<Rightarrow> dir_info list \<Rightarrow> string) \<Rightarrow> string \<Rightarrow> string \<Rightarrow> http_resp \<Rightarrow> http_resp" where
  "getAutoIndex fs html sUrl p r =
     (case scanDir fs (the (fmtPath p)) of
        None \<Rightarrow> upd_ctx (setResponse 404 []) r
      | Some ds \<Rightarrow> upd_ctx (\<lambda>c. setHeader ''Content-Type'' ''text/html'' (setResponse 200 (html sUrl ds) c)) r)"

definition getDefIcon :: "string \<Rightarrow> http_resp \<Rightarrow> http_resp" where
  "getDefIcon icon r = upd_ctx (\<lambda>c. setResponse 200 icon (setHeader ''Content-Type'' ''image/png'' c)) r"

definition getUrlFile ::
    "file_system \<Rightarrow> send_result \<Rightarrow> (string \<Rightarrow> dir_info list \<Rightarrow> string) \<Rightarrow> string \<Rightarrow> string \<Rightarrow> string \<Rightarrow> http_resp \<Rightarrow> http_resp" where
  "getUrlFile fs sock html icon root sUrl r =
     (if find_sub ''..'' sUrl \<noteq> None then upd_ctx (setResponse 400 []) r
      else let sUrl = (if sUrl = [] \<or> sUrl = ''/'' then ''/index.html'' else sUrl);
          realPath = the (fmtPath (root @ sUrl))
        in if file_exist fs realPath
           then if file_isFile fs realPath then mount_sendFile fs sock realPath r
             else getAutoIndex fs html sUrl realPath r
           else if sUrl = ''/index.html'' then getAutoIndex fs html ''/'' root r
           else if sUrl = ''/favicon.ico'' then getDefIcon icon r
           else upd_ctx (setResponse 404 []) r)"

text \<open>The result: what was sent, and whether the connection is to be closed.\<close>

definition mount_handle ::
    "file_system \<Rightarrow> send_result \<Rightarrow> (string \<Rightarrow> dir_info list \<Rightarrow> string) \<Rightarrow> string \<Rightarrow> string \<Rightarrow> (string, http_api) engine \<Rightarrow>
     http_ctx \<Rightarrow> (unit, string list \<times> bool) outcome" where
  "mount_handle fs sock html icon root engine req =
     (let (conn, req1) = getConnection req;
          r0 = upd_ctx (setConnection conn) new_resp
      in bindO (getUrl req1) (\<lambda>sUrl.
        if p_method (c_parser req1) \<notin> {HTTP_GET, HTTP_POST, HTTP_OPTIONS}
        then Ok (r_sent (upd_ctx (setResponse 405 []) r0), False)
        else let (req2, r2) = (case engine_get engine sUrl of
                Some f \<Rightarrow> (case f req1 r0 of (req2, r1) \<Rightarrow> (req2, if hasResped r1 then r1 else format_and_send r1))
              | None \<Rightarrow> (req1, format_and_send (getUrlFile fs sock html icon root sUrl r0)))
          in Ok (r_sent r2, hasConnectionClose req2)))"

section \<open>No way out of the root\<close>

lemma dots_squeeze: "sublist ''..'' (squeeze s) \<Longrightarrow> sublist ''..'' s"
proof (induction s rule: squeeze.induct)
  case (1 a b s)
  obtain t where t: "squeeze (b # s) = b # t" using squeeze_hd by blast
  show ?case
  proof (cases "a = CHR ''/'' \<and> b = CHR ''/''")
    case True
    with 1(1,3) have "sublist ''..'' (b # s)" by simp
    then show ?thesis by (simp add: sublist_Cons_right [of _ a])
  next
    case False
    with 1(3) have "sublist ''..'' (a # squeeze (b # s))" by simp
    then have "prefix ''..'' (a # b # t) \<or> sublist ''..'' (squeeze (b # s))" using t by (simp only: sublist_Cons_right)
    with 1(2) False have "prefix ''..'' (a # b # s) \<or> sublist ''..'' (b # s)" by auto
    then show ?thesis by (simp only: sublist_Cons_right [of _ a])
  qed
qed simp_all

lemma dots_slashes: "sublist ''..'' (slashes s) \<Longrightarrow> sublist ''..'' s"
proof -
  have dot: "(if chcode c = 92 then CHR ''/'' else c) = CHR ''.'' \<longleftrightarrow> c = CHR ''.''" for c
    by (auto simp: chcode_def)
  have split: "\<exists>a b. s = a @ b \<and> slashes a = x \<and> slashes b = y" if "slashes s = x @ y" for s x y
  proof (intro exI conjI)
    show "s = take (length x) s @ drop (length x) s" by simp
    show "slashes (take (length x) s) = x" "slashes (drop (length x) s) = y"
      using arg_cong [OF that, of "take (length x)"] arg_cong [OF that, of "drop (length x)"]
      by (simp_all add: slashes_def take_map drop_map)
  qed
  assume "sublist ''..'' (slashes s)"
  then obtain x y where "slashes s = x @ ''..'' @ y" unfolding sublist_def by blast
  from split [OF this] obtain us r where r: "s = us @ r" "slashes r = ''..'' @ y" by blast
  from split [OF r(2)] obtain d zs where "r = d @ zs" "slashes d = ''..''" by blast
  moreover from this(2) have "d = ''..''" unfolding slashes_def map_eq_Cons_conv dot by blast
  ultimately have "s = us @ ''..'' @ zs" using r(1) by simp
  then show "sublist ''..'' s" unfolding sublist_def by blast
qed

lemma dots_fmtPath: "\<not> sublist ''..'' p \<Longrightarrow> \<not> sublist ''..'' (the (fmtPath p))"
  unfolding fmtPath_squeeze option.sel using dots_squeeze dots_slashes by blast

text \<open>
  The paths of the root and below it, as \<open>fmtPath\<close> writes them: the root itself, or the root, a slash and more,
  without two dots in a row.
\<close>

definition inside :: "string \<Rightarrow> string \<Rightarrow> bool" where
  "inside root p \<longleftrightarrow> \<not> sublist ''..'' p \<and>
     (p = the (fmtPath root) \<or> prefix (the (fmtPath (root @ ''/''))) p)"

lemma slashes_append: "slashes (a @ b) = slashes a @ slashes b" by (simp add: slashes_def)

lemma slashes_none: "\<forall>c \<in> set s. chcode c \<noteq> 92 \<Longrightarrow> slashes s = s"
  by (induction s) (simp_all add: slashes_def)

lemma slashes_slash: "slashes ''/'' = ''/''" by (simp add: slashes_def chcode_def)

lemma squeeze_prefix: "prefix (squeeze (a @ ''/'')) (squeeze (a @ ''/'' @ b))"
proof (induction a)
  case Nil
  obtain t where "squeeze (CHR ''/'' # b) = CHR ''/'' # t" using squeeze_hd by blast
  then show ?case by simp
next
  case (Cons c a)
  obtain d r where d: "a @ ''/'' = d # r" by (cases "a @ ''/''") auto
  from arg_cong [OF this, of "\<lambda>x. x @ b"] have e: "a @ ''/'' @ b = d # (r @ b)" by simp
  have "prefix (squeeze (d # r)) (squeeze (d # (r @ b)))" using Cons by (simp only: d e)
  then have "prefix (squeeze (c # (d # r))) (squeeze (c # (d # (r @ b))))"
    by (cases "c = CHR ''/''"; cases "d = CHR ''/''"; simp)
  then show ?case by (simp only: append_Cons [of c] d e)
qed

lemma squeeze_set: "set (squeeze s) \<subseteq> set s"
  by (induction s rule: squeeze.induct) (auto split: if_splits)

lemma fmtPath_twice: "fmtPath (the (fmtPath p)) = fmtPath p"
proof -
  have "chcode c \<noteq> 92" if "c \<in> set (slashes p)" for c
    using that by (auto simp: slashes_def chcode_def split: if_splits)
  then have "\<forall>c \<in> set (squeeze (slashes p)). chcode c \<noteq> 92" using squeeze_set [of "slashes p"] by auto
  then have "slashes (squeeze (slashes p)) = squeeze (slashes p)" by (rule slashes_none)
  then show ?thesis by (simp add: fmtPath_squeeze squeeze_none squeeze_no_double)
qed

lemma inside_root: "\<not> sublist ''..'' root \<Longrightarrow> inside root (the (fmtPath root))"
  by (simp add: inside_def dots_fmtPath)

lemma inside_below:
  assumes "\<not> sublist ''..'' root" and "\<not> sublist ''..'' (CHR ''/'' # u)"
  shows "inside root (the (fmtPath (root @ CHR ''/'' # u)))"
proof -
  have "\<not> sublist ''..'' (root @ CHR ''/'' # u)"
  proof
    assume "sublist ''..'' (root @ CHR ''/'' # u)"
    then obtain x y where xy: "''..'' = x @ y" "suffix x root" "prefix y (CHR ''/'' # u)"
      using assms unfolding sublist_append by blast
    then have "y = []" by (cases x; cases "tl x"; cases y; auto)
    with xy assms(1) show False by (simp add: suffix_imp_sublist)
  qed
  moreover have "prefix (squeeze (slashes root @ ''/'')) (squeeze (slashes root @ ''/'' @ slashes u))" by (rule squeeze_prefix)
  ultimately show ?thesis
    using slashes_append [of root "CHR ''/'' # u"] slashes_append [of root "''/''"] slashes_append [of "''/''" u]
    by (simp add: inside_def dots_fmtPath) (simp add: fmtPath_squeeze slashes_slash)
qed

text \<open>Two file systems that agree on these paths.\<close>

definition same_inside :: "string \<Rightarrow> file_system \<Rightarrow> file_system \<Rightarrow> bool" where
  "same_inside root fs fs' \<longleftrightarrow> (\<forall>p. inside root p \<longrightarrow> fs p = fs' p)"

lemma chunks_same: "fs p = fs' p \<Longrightarrow> send_chunks fs sock p sz off sent = send_chunks fs' sock p sz off sent"
proof (induction fs sock p sz off sent rule: send_chunks.induct)
  case (1 fs sock p sz off sent)
  have "file_read_at fs p (8 * 8192) off = file_read_at fs' p (8 * 8192) off" using 1(2) by (simp add: file_read_at_def)
  with 1 show ?case by (subst (1 2) send_chunks.simps) (simp add: Let_def)
qed

lemma file_same:
  assumes "fs p = fs' p"
  shows "mount_sendFile fs sock p r = mount_sendFile fs' sock p r" "file_exist fs p = file_exist fs' p"
    "file_isFile fs p = file_isFile fs' p"
  using assms chunks_same [where fs = fs and fs' = fs' and p = p, OF assms]
  by (simp_all add: mount_sendFile_def resp_sendFile_def file_size_def file_read_def file_exist_def file_isFile_def)

lemma scan_same:
  assumes "fs (the (fmtPath p)) = fs' (the (fmtPath p))" and "\<forall>d. fs (the (fmtPath p)) \<noteq> Some (File d)"
  shows "getAutoIndex fs html u p r = getAutoIndex fs' html u p r"
proof -
  have "scanDir fs (the (fmtPath p)) = scanDir fs' (the (fmtPath p))"
    using assms by (simp add: scanDir_def split: option.split fs_node.split)
  then show ?thesis by (simp only: getAutoIndex_def)
qed

lemma getUrlFile_same:
  assumes same: "same_inside root fs fs'" and root: "\<not> sublist ''..'' root"
    and dir: "\<forall>d. fs (the (fmtPath root)) \<noteq> Some (File d)" and u: "u = [] \<or> hd u = CHR ''/''"
  shows "getUrlFile fs sock html icon root u r = getUrlFile fs' sock html icon root u r"
proof (cases "sublist ''..'' u")
  case True
  then show ?thesis using find_sub_None [of "''..''" u] by (simp add: getUrlFile_def)
next
  case False
  define w where "w = (if u = [] \<or> u = ''/'' then ''/index.html'' else u)"
  define p where "p = the (fmtPath (root @ w))"
  have dots: "\<not> sublist ''..'' w" using False by (simp add: w_def sublist_Cons_right)
  have "\<exists>v. w = CHR ''/'' # v" using u by (cases u) (auto simp: w_def)
  then obtain v where v: "w = CHR ''/'' # v" by blast
  have "inside root p" using inside_below [OF root, of v] dots by (simp add: p_def v)
  then have p: "fs p = fs' p" using same by (simp add: same_inside_def)
  have r: "fs (the (fmtPath root)) = fs' (the (fmtPath root))" using same inside_root [OF root] by (simp add: same_inside_def)
  note eq = file_same [where fs = fs and fs' = fs' and p = p, OF p] scan_same [where fs = fs and fs' = fs', OF r dir]
  have "getAutoIndex fs html x p r = getAutoIndex fs' html x p r" if "file_exist fs p" "\<not> file_isFile fs p" for x r
  proof (rule scan_same)
    have fp: "the (fmtPath p) = p" by (simp add: p_def fmtPath_twice)
    then show "fs (the (fmtPath p)) = fs' (the (fmtPath p))" using p by simp
    show "\<forall>d. fs (the (fmtPath p)) \<noteq> Some (File d)" using that(2) by (auto simp: fp file_isFile_def)
  qed
  then show ?thesis
    unfolding getUrlFile_def Let_def w_def [symmetric] p_def [symmetric] eq(1,4) eq(2,3) [symmetric]
    by (cases "file_exist fs p"; cases "file_isFile fs p"; simp)
qed

lemma getUrl_slash:
  assumes "getUrl req = Ok u"
  shows "u = [] \<or> hd u = CHR ''/''"
proof -
  have sp: "fst (scan_path x) = [] \<or> hd (fst (scan_path x)) = CHR ''/''" for x
    by (simp add: scan_path_def split: list.split)
  have mt: "p = [] \<or> hd p = CHR ''/''" if "match_tail x = Some (p, q, m)" for x p q m
    using that sp [of x] by (simp add: match_tail_def Let_def split: prod.splits)
  obtain x where "u = path (snd (case match_tail x of None \<Rightarrow> (- 1 :: 32 word, new_url)
      | Some (p, q, m) \<Rightarrow> (0, new_url\<lparr>path := (if p = [] then ''/'' else p), param := q, mark := m\<rparr>)))"
    using assms by (cases "url_decode (c_url req)") (auto simp: getUrl_def getPath_def url_parseTail_def case_prod_unfold)
  then show ?thesis using mt [of x] by (cases "match_tail x") (auto simp: new_url_def split: if_splits)
qed

text \<open>
  C17: The file driver never leaves its root.  Two file systems that agree on the root and on the paths below it, none
  of them with two dots in a row, give the same answers to every request: whatever a client sends, no other path
  is looked at, and nothing but what is at or below the root can be in an answer.  The root is a directory, or nothing;
  what a symbolic link below the root points to counts as being below it.
\<close>

theorem mount_confined:
  assumes "\<forall>p. inside root p \<longrightarrow> fs p = fs' p"
    and "\<not> sublist ''..'' root" and "\<forall>d. fs (the (fmtPath root)) \<noteq> Some (File d)"
  shows "mount_handle fs sock html icon root engine req = mount_handle fs' sock html icon root engine req"
proof (cases "getUrl (snd (getConnection req))")
  case (Ok u)
  have "same_inside root fs fs'" using assms(1) by (simp add: same_inside_def)
  note same = getUrlFile_same [OF this assms(2,3) getUrl_slash [OF Ok]]
  show ?thesis by (cases "engine_get engine u") (simp_all add: mount_handle_def Let_def case_prod_unfold Ok same)
qed (simp_all add: mount_handle_def Let_def case_prod_unfold)

theorem mount_confined_witness:
  "mount_handle (\<lambda>p. if p = ''/etc/passwd'' \<or> p = ''/wwwx'' \<or> p = ''/www/../secret'' then Some (File ''x'') else None)
      (\<lambda>s d. int (length d)) (\<lambda>u ds. []) [] ''/www'' (new_engine []) (setRequest HTTP_GET ''/etc/passwd'' [] (new_ctx HTTP_REQUEST)) =
   mount_handle (\<lambda>p. None) (\<lambda>s d. int (length d)) (\<lambda>u ds. []) [] ''/www'' (new_engine [])
      (setRequest HTTP_GET ''/etc/passwd'' [] (new_ctx HTTP_REQUEST))"
proof (rule mount_confined)
  have "the (fmtPath ''/www'') = ''/www''" "the (fmtPath (''/www'' @ ''/'')) = ''/www/''"
    by (simp_all add: fmtPath_squeeze slashes_def chcode_def)
  moreover have "sublist ''..'' ''/www/../secret''" by (simp add: sublist_Cons_right)
  ultimately have "\<not> inside ''/www'' p" if "p = ''/etc/passwd'' \<or> p = ''/wwwx'' \<or> p = ''/www/../secret''" for p
    using that by (auto simp: inside_def)
  then show "\<forall>p. inside ''/www'' p \<longrightarrow>
      (if p = ''/etc/passwd'' \<or> p = ''/wwwx'' \<or> p = ''/www/../secret'' then Some (File ''x'') else None) = None" by auto
  show "\<not> sublist ''..'' ''/www''" by (simp add: sublist_Cons_right)
  show "\<forall>d. (if the (fmtPath ''/www'') = ''/etc/passwd'' \<or> the (fmtPath ''/www'') = ''/wwwx'' \<or>
      the (fmtPath ''/www'') = ''/www/../secret'' then Some (File ''x'') else None) \<noteq> Some (File d)"
    by (simp add: fmtPath_squeeze slashes_def chcode_def)
qed

section \<open>Well-formed responses\<close>

text \<open>The contexts a program can build with the operations of the header.\<close>

inductive built :: "http_ctx \<Rightarrow> bool" where
  built_new: "built (new_ctx t)"
| built_set: "built c \<Longrightarrow> built (setHeader k v c)"
| built_del: "built c \<Longrightarrow> built (delHeader k c)"
| built_update: "built c \<Longrightarrow> built (updateHeader k v c)"
| built_connection: "built c \<Longrightarrow> built (setConnection v c)"
| built_get: "built c \<Longrightarrow> built (snd (getConnection c))"
| built_response: "built c \<Longrightarrow> built (setResponse n b c)"
| built_request: "built c \<Longrightarrow> built (setRequest m u b c)"
| built_format: "built c \<Longrightarrow> built (snd (response_format c))"

lemma headers_ok_get: "headers_ok c \<Longrightarrow> headers_ok (snd (getConnection c))"
  by (simp add: getConnection_def headers_ok_set split: option.split)

lemma response_parts:
  "response_format c =
    (''HTTP/1.1 '' @ dec_str (unat (p_status (c_parser c))) @ '' '' @ http_status_str (unat (p_status (c_parser c))) @ crlf @
       concat (map header_line (c_headers (snd (formatHeader (response_headers c))))) @ crlf @ c_body c,
     snd (formatHeader (response_headers c)))"
  by (simp add: response_format_def formatHeader_def response_headers_def setHeader_def Let_def)

lemma headers_ok_built: "built c \<Longrightarrow> headers_ok c"
  by (induction rule: built.induct)
    (simp_all add: headers_ok_new headers_ok_set headers_ok_del headers_ok_get headers_ok_body updateHeader_def
      setConnection_def response_parts headers_ok_format)

lemma hasHeader_set: "hasHeader k c \<Longrightarrow> headers_ok c \<Longrightarrow> hasHeader k (setHeader k' v c)"
  by (auto simp: hasHeader_def setHeader_def headers_ok_def mm_find_insert)

lemma hasHeader_set_same: "\<not> hasCrlf k \<Longrightarrow> \<not> hasCrlf v \<Longrightarrow> headers_ok c \<Longrightarrow> hasHeader k (setHeader k v c)"
  by (simp add: hasHeader_def find_set split: option.split)

lemma dec_str_no_crlf: "\<not> hasCrlf (dec_str n)"
proof -
  have "\<not> is_digit CR" "\<not> is_digit LF" by (simp_all add: is_digit_def chcode_def)
  then show ?thesis using dec_str_props(2) [of n] by (auto simp: hasCrlf_def list_all_iff list_ex_iff)
qed

text \<open>
  C18: Responses are well-formed.  Whatever headers, values and bodies a program gave a response, what
  \<open>format\<close> writes is a status line, header lines sorted by name, none of whose names and values holds a
  line break, among them \<open>Connection\<close> and \<open>Content-Length\<close>, an empty line and the body: no value can add a
  header or end the headers early.
\<close>

theorem response_wellformed:
  assumes "built c"
  shows "\<exists>hs. fst (response_format c) =
      ''HTTP/1.1 '' @ dec_str (unat (p_status (c_parser c))) @ '' '' @ http_status_str (unat (p_status (c_parser c))) @ crlf @
        concat (map header_line hs) @ crlf @ c_body c \<and>
    sorted (map fst hs) \<and> list_all (\<lambda>(k, v). \<not> hasCrlf k \<and> \<not> hasCrlf v) hs \<and>
    mm_find ''Connection'' hs \<noteq> None \<and> mm_find ''Content-Length'' hs \<noteq> None"
proof -
  let ?c = "snd (formatHeader (response_headers c))"
  have ok: "headers_ok c" "headers_ok (response_headers c)" "headers_ok ?c"
    using headers_ok_built [OF assms] by (simp_all add: headers_ok_format)
  have "hasHeader ''Content-Length'' (response_headers c)"
    using hasHeader_set_same [OF _ dec_str_no_crlf ok(1), of "''Content-Length''"]
    by (simp add: response_headers_def) (simp add: hasCrlf_def)
  then have "hasHeader ''Content-Length'' ?c" using ok(2) by (simp add: formatHeader_def Let_def hasHeader_set)
  moreover have "hasHeader ''Connection'' ?c"
    using hasHeader_set_same [of "''Connection''" "''close''" "response_headers c"] ok(2)
    by (simp add: formatHeader_def Let_def hasCrlf_def)
  ultimately show ?thesis using ok(3)
    by (intro exI [of _ "c_headers ?c"]) (simp add: response_parts headers_ok_def hasHeader_def)
qed

theorem response_wellformed_witness:
  "\<exists>hs s. fst (response_format (setHeader ''X'' (''a'' @ [CR, LF] @ ''Y: b'') (new_ctx HTTP_RESPONSE))) =
      s @ concat (map header_line hs) @ crlf @ c_body (new_ctx HTTP_RESPONSE) \<and>
    list_all (\<lambda>(k, v). \<not> hasCrlf k \<and> \<not> hasCrlf v) hs"
proof -
  let ?c = "setHeader ''X'' (''a'' @ [CR, LF] @ ''Y: b'') (new_ctx HTTP_RESPONSE)"
  have b: "c_body ?c = c_body (new_ctx HTTP_RESPONSE)" by (simp add: setHeader_def)
  from response_wellformed [OF built_set [OF built_new, of "''X''" "''a'' @ [CR, LF] @ ''Y: b''" HTTP_RESPONSE]]
  obtain s hs where "fst (response_format ?c) = s @ concat (map header_line hs) @ crlf @ c_body ?c"
    "list_all (\<lambda>(k, v). \<not> hasCrlf k \<and> \<not> hasCrlf v) hs"
    by (metis append.assoc)
  then show ?thesis unfolding b by blast
qed

section \<open>What a client gets\<close>

lemma getUrl_connection: "getUrl (snd (getConnection c)) = getUrl c"
  by (simp add: getConnection_def getUrl_def setHeader_def split: option.split)

lemma connection_rest: "c_parser (snd (getConnection c)) = c_parser c"
  by (simp add: getConnection_def setHeader_def split: option.split)

lemma close_connection: "hasConnectionClose (snd (getConnection c)) = hasConnectionClose c"
proof -
  have "mm_find k (mm_insert k v hs) = Some v" if "mm_find k hs = None" for k v hs
    using that by (induction k v hs rule: mm_insert.induct) (auto simp: mm_find_def split: if_splits)
  then show ?thesis
    by (auto simp: hasConnectionClose_def getConnection_def setHeader_def hasCrlf_def lower_char_def chcode_def
        split: option.splits)
qed

text \<open>The value of \<open>Connection\<close> in the answer.\<close>

definition answer_connection :: "http_ctx \<Rightarrow> string" where
  "answer_connection req = (if hasCrlf (fst (getConnection req)) then ''close'' else fst (getConnection req))"

lemma content_types_plain: "list_all (\<lambda>(e, t). \<not> hasCrlf t) content_types"
  by (simp add: content_types_def hasCrlf_def)

lemma content_type_no_crlf: "\<not> hasCrlf (fileContentType p)"
proof (cases "map_of content_types (fileExt p)")
  case None
  then show ?thesis by (simp add: fileContentType_def hasCrlf_def)
next
  case (Some t)
  then have "(fileExt p, t) \<in> set content_types" by (rule map_of_SomeD)
  with content_types_plain Some show ?thesis by (auto simp: fileContentType_def list_all_iff)
qed

text \<open>
  C22: The file driver serves files.  A request with one of the three methods for a path without two dots,
  without a handler of its own, that names a file below 5 MB is answered with exactly one message: status
  200, the connection value of the request, the length and the type of the file, and the contents.
\<close>

theorem mount_serves_file:
  assumes "getUrl req = Ok u" and "engine_get engine u = None"
    and "p_method (c_parser req) \<in> {HTTP_GET, HTTP_POST, HTTP_OPTIONS}" and "\<not> sublist ''..'' u"
    and "fmtPath (root @ (if u = [] \<or> u = ''/'' then ''/index.html'' else u)) = Some p"
    and "fs p = Some (File d)" and "length d < small_file"
  shows "mount_handle fs sock html icon root engine req =
    Ok ([''HTTP/1.1 200 OK'' @ crlf @ ''Connection: '' @ answer_connection req @ crlf @
         ''Content-Length: '' @ dec_str (length d) @ crlf @ ''Content-Type: '' @ fileContentType p @ crlf @ crlf @ d],
      hasConnectionClose req)"
proof -
  let ?c0 = "setConnection (fst (getConnection req)) (new_ctx HTTP_RESPONSE)"
  let ?r0 = "upd_ctx (setConnection (fst (getConnection req))) new_resp"
  let ?c1 = "setHeader ''Content-Type'' (fileContentType p) (setResponse 200 d ?c0)"
  have gu: "getUrlFile fs sock html icon root u ?r0 = new_resp\<lparr>r_ctx := ?c1\<rparr>"
    using assms(4-) find_sub_None [of "''..''" u]
    by (simp add: getUrlFile_def Let_def file_exist_def file_isFile_def mount_sendFile_def file_size_def file_read_def
      upd_ctx_def new_resp_def)
  have st: "http_status_str 200 = ''OK''" by (simp add: http_status_str_def status_map_def)
  have s200: "dec_str 200 = ''200''" by code_simp
  have "fst (response_format ?c1) =
    ''HTTP/1.1 200 OK'' @ crlf @ ''Connection: '' @ answer_connection req @ crlf @
         ''Content-Length: '' @ dec_str (length d) @ crlf @ ''Content-Type: '' @ fileContentType p @ crlf @ crlf @ d"
    using st s200
    by (simp add: response_parts formatHeader_def response_headers_def hasHeader_def mm_find_def setHeader_def
      setConnection_def updateHeader_def delHeader_def setResponse_def new_ctx_def ctx_init_def ctx_clear_def
      content_type_no_crlf dec_str_no_crlf answer_connection_def header_line_def Let_def) (simp add: hasCrlf_def)
  moreover have "r_sent (format_and_send (new_resp\<lparr>r_ctx := ?c1\<rparr>)) = [fst (response_format ?c1)]"
    by (simp add: format_and_send_def new_resp_def split: prod.split)
  ultimately have sent: "r_sent (format_and_send (getUrlFile fs sock html icon root u ?r0)) = [''HTTP/1.1 200 OK'' @ crlf @
      ''Connection: '' @ answer_connection req @ crlf @ ''Content-Length: '' @ dec_str (length d) @ crlf @
      ''Content-Type: '' @ fileContentType p @ crlf @ crlf @ d]"
    by (simp only: gu)
  show ?thesis unfolding sent [symmetric] using assms(1,2,3)
    by (simp add: mount_handle_def Let_def case_prod_unfold getUrl_connection connection_rest close_connection) blast
qed

lemma no_handler: "engine_get (new_engine []) u = None"
  by (simp add: engine_get_new)

definition one_request :: "string \<Rightarrow> http_ctx" where
  "one_request u = setRequest HTTP_GET u [] (new_ctx HTTP_REQUEST)"

lemma one_request_simps:
  "p_method (c_parser (one_request u)) = HTTP_GET" "getConnection (one_request u) = (''keep-alive'', setHeader ''Connection'' ''keep-alive'' (one_request u))"
  "answer_connection (one_request u) = ''keep-alive''"
  by (simp_all add: one_request_def setRequest_def new_ctx_def ctx_init_def ctx_clear_def getConnection_def mm_find_def
      answer_connection_def hasCrlf_def)

lemma one_url: "getUrl (one_request ''/a.txt'') = Ok ''/a.txt''"
  by (simp add: one_request_def setRequest_def getUrl_def getPath_def url_parseTail_def match_tail_def scan_path_def scan_param_def scan_mark_def is_path_def new_url_def)

theorem mount_serves_file_witness:
  "mount_handle (\<lambda>p. if p = ''/www/a.txt'' then Some (File ''hello'') else None) (\<lambda>s d. 0) (\<lambda>u ds. []) [] ''/www''
      (new_engine []) (one_request ''/a.txt'') =
    Ok ([''HTTP/1.1 200 OK'' @ crlf @ ''Connection: keep-alive'' @ crlf @ ''Content-Length: 5'' @ crlf @
         ''Content-Type: text/plain'' @ crlf @ crlf @ ''hello''], False)"
proof -
  have five: "dec_str (Suc (Suc (Suc (Suc (Suc 0))))) = ''5''" by code_simp
  have ext: "fileContentType ''/www/a.txt'' = ''text/plain''"
    by (simp add: fileContentType_def fileExt_def content_types_def is_word_def is_digit_def chcode_def)
  have p: "fmtPath (''/www'' @ ''/a.txt'') = Some ''/www/a.txt''"
    by (simp add: fmtPath_squeeze slashes_def chcode_def)
  have cl: "\<not> hasConnectionClose (one_request ''/a.txt'')"
    by (simp add: one_request_def setRequest_def new_ctx_def ctx_init_def ctx_clear_def hasConnectionClose_def mm_find_def)
  show ?thesis
    using mount_serves_file [OF one_url no_handler, of "''/www''" "''/www/a.txt''"
        "\<lambda>p. if p = ''/www/a.txt'' then Some (File ''hello'') else None" "''hello''"
        "\<lambda>s d. 0" "\<lambda>u ds. []" "[]"] p cl
    by (simp add: one_request_simps small_file_def sublist_Cons_right five ext)
qed

section \<open>Big files\<close>

lemma chunks_complete:
  assumes "\<forall>s x. sock s x = int (length x)" and "fs p = Some (File d)"
  shows "\<exists>cs. send_chunks fs sock p (length d) off sent = (0, sent @ cs) \<and> concat cs = drop off d"
proof (induction "length d - off" arbitrary: off sent rule: less_induct)
  case less
  show ?case
  proof (cases "off < length d")
    case False
    then show ?thesis by (simp add: send_chunks.simps)
  next
    case True
    let ?x = "take 65536 (drop off d)"
    have x: "?x \<noteq> []" "file_read_at fs p (8 * 8192) off = ?x" using True assms(2) by (simp_all add: file_read_at_def)
    have "length d - (off + length ?x) < length d - off" using True x(1) by simp
    from less [OF this, of "sent @ [?x]"] obtain cs where
      cs: "send_chunks fs sock p (length d) (off + length ?x) (sent @ [?x]) = (0, (sent @ [?x]) @ cs)"
      "concat cs = drop (off + length ?x) d" by blast
    have "drop off d = ?x @ drop (length ?x) (drop off d)"
      by (metis append_take_drop_id length_take min.cobounded1 take_all_iff drop_all length_drop nat_le_linear min.absorb2 min.absorb1)
    then have "concat (?x # cs) = drop off d" by (simp add: cs(2) add.commute)
    moreover have "send_chunks fs sock p (length d) off sent = (0, sent @ (?x # cs))"
      using True x cs(1) assms(1) by (simp add: send_chunks.simps [of fs sock p "length d" off sent] Let_def)
    ultimately show ?thesis by blast
  qed
qed

lemma response_format_again:
  assumes "headers_ok c"
  shows "response_format (snd (response_format c)) = response_format c"
proof -
  let ?c = "response_headers c"
  have ok: "headers_ok ?c" using assms by (simp add: headers_ok_format)
  have len: "hasHeader ''Content-Length'' ?c"
    using hasHeader_set_same [OF _ dec_str_no_crlf assms, of "''Content-Length''"]
    by (simp add: response_headers_def) (simp add: hasCrlf_def)
  have con: "hasHeader ''Connection'' (snd (formatHeader ?c))"
    using hasHeader_set_same [of "''Connection''" "''close''" ?c] ok
    by (simp add: formatHeader_def Let_def hasCrlf_def)
  have "hasHeader ''Content-Length'' (snd (formatHeader ?c))"
    using len ok by (simp add: formatHeader_def Let_def hasHeader_set)
  with con have f: "snd (formatHeader (response_headers (snd (formatHeader ?c)))) = snd (formatHeader ?c)"
    by (simp add: response_headers_def formatHeader_def Let_def)
  have "c_parser (snd (formatHeader ?c)) = c_parser c" "c_body (snd (formatHeader ?c)) = c_body c"
    by (simp_all add: formatHeader_def response_headers_def setHeader_def Let_def)
  then show ?thesis by (simp add: response_parts f)
qed

text \<open>
  Big files are answered twice.  For a file of 5 MB or more the header goes out, then the contents in
  pieces, and then, since \<open>handle\<close> does not ask \<open>hasResped\<close> on this path, the same header once more: the
  client finds a second answer in the stream that it did not ask for.
\<close>

theorem mount_big_file_twice:
  assumes "getUrl req = Ok u" and "engine_get engine u = None"
    and "p_method (c_parser req) \<in> {HTTP_GET, HTTP_POST, HTTP_OPTIONS}" and "\<not> sublist ''..'' u"
    and "fmtPath (root @ (if u = [] \<or> u = ''/'' then ''/index.html'' else u)) = Some p"
    and "fs p = Some (File d)" and "small_file \<le> length d" and "\<forall>s x. sock s x = int (length x)"
  shows "\<exists>h cs. mount_handle fs sock html icon root engine req = Ok (h # cs @ [h], hasConnectionClose req) \<and>
    concat cs = d \<and> (\<exists>t. h = ''HTTP/1.1 200 OK'' @ t)"
proof -
  let ?r0 = "upd_ctx (setConnection (fst (getConnection req))) new_resp"
  let ?c2 = "setHeader ''Content-Disposition'' (''attachment; filename=\"'' @ path_name p @ ''\"'')
     (setHeader ''Content-Length'' (dec_str (length d)) (r_ctx ?r0))"
  let ?c3 = "setResponse 200 [] ?c2"
  let ?h = "fst (response_format ?c3)"
  have ok: "headers_ok ?c3"
    by (simp add: upd_ctx_def new_resp_def headers_ok_body headers_ok_set setConnection_def updateHeader_def headers_ok_del headers_ok_new)
  obtain cs where cs: "send_chunks fs sock p (length d) 0 [?h] = (0, [?h] @ cs)" "concat cs = d"
    using chunks_complete [where fs = fs and sock = sock and p = p and d = d and off = 0 and sent = "[?h]"] assms(6,8) by auto
  have gu: "getUrlFile fs sock html icon root u ?r0 =
      \<lparr>r_ctx = snd (response_format ?c3), r_direct = True, r_sent = ?h # cs\<rparr>"
    using assms(4-7) find_sub_None [of "''..''" u] cs(1)
    by (simp add: getUrlFile_def Let_def file_exist_def file_isFile_def mount_sendFile_def file_size_def resp_sendFile_def
      case_prod_unfold upd_ctx_def new_resp_def)
  have "r_sent (format_and_send (getUrlFile fs sock html icon root u ?r0)) = ?h # cs @ [?h]"
    using response_format_again [OF ok] by (simp add: gu format_and_send_def case_prod_unfold)
  then have "mount_handle fs sock html icon root engine req = Ok (?h # cs @ [?h], hasConnectionClose req)"
    using assms(1,2,3) by (simp add: mount_handle_def Let_def case_prod_unfold getUrl_connection connection_rest close_connection) blast
  moreover have "\<exists>t. ?h = ''HTTP/1.1 200 OK'' @ t"
  proof -
    have "dec_str 200 = ''200''" by code_simp
    moreover have "http_status_str 200 = ''OK''" by (simp add: http_status_str_def status_map_def)
    ultimately show ?thesis by (simp add: response_parts setResponse_def)
  qed
  ultimately show ?thesis using cs(2) by blast
qed

theorem mount_big_file_twice_witness:
  "\<exists>h cs. mount_handle (\<lambda>p. if p = ''/www/a.txt'' then Some (File (replicate small_file (CHR ''x''))) else None)
      (\<lambda>s x. int (length x)) (\<lambda>u ds. []) [] ''/www'' (new_engine []) (one_request ''/a.txt'') =
      Ok (h # cs @ [h], hasConnectionClose (one_request ''/a.txt'')) \<and>
    concat cs = replicate small_file (CHR ''x'')"
proof -
  let ?fs = "\<lambda>p. if p = ''/www/a.txt'' then Some (File (replicate small_file (CHR ''x''))) else None"
  have p: "fmtPath (''/www'' @ ''/a.txt'') = Some ''/www/a.txt''"
    by (simp add: fmtPath_squeeze slashes_def chcode_def)
  show ?thesis
    using mount_big_file_twice [OF one_url no_handler, where root = "''/www''" and p = "''/www/a.txt''" and fs = ?fs
        and d = "replicate small_file (CHR ''x'')" and sock = "\<lambda>s x. int (length x)" and html = "\<lambda>u ds. []" and icon = "[]"] p
    by (simp add: one_request_simps sublist_Cons_right) blast
qed

text \<open>A method the driver does not allow is not answered at all, and its connection stays open.\<close>

lemma mount_405_silent:
  assumes "getUrl req = Ok u" and "p_method (c_parser req) \<notin> {HTTP_GET, HTTP_POST, HTTP_OPTIONS}"
  shows "mount_handle fs sock html icon root engine req = Ok ([], False)"
  using assms by (simp add: mount_handle_def Let_def case_prod_unfold getUrl_connection connection_rest upd_ctx_def new_resp_def)

section \<open>The default handler\<close>

text \<open>
  The default handler is the first server's.  The handler for \<open>*\<close> is kept in a static variable that is
  set by the first request of the process: from then on every driver answers requests it has no handler
  for with the default handler of the driver that served that first request, whatever its own table says.
\<close>

theorem default_of_first_driver:
  assumes "http_handle e1 None req1 = Ok (s1, c1, dflt)" and "getUrl req = Ok u" and "u \<noteq> ''*''"
  shows "http_handle e2 dflt req = http_handle (e2(''*'' \<mapsto> engine_get e1 ''*'')) None req \<and>
    (\<exists>s c. http_handle e2 dflt req = Ok (s, c, dflt))"
proof -
  have d: "dflt = Some (engine_get e1 ''*'')"
    using assms(1) by (auto simp: http_handle_def Let_def case_prod_unfold bindO_eq_Ok)
  have "engine_get (e2(''*'' \<mapsto> engine_get e1 ''*'')) u = engine_get e2 u"
    "engine_get (e2(''*'' \<mapsto> engine_get e1 ''*'')) ''*'' = engine_get e1 ''*''"
    using assms(3) by (simp_all add: engine_get_def)
  then show ?thesis using assms(2) d by (simp add: http_handle_def Let_def case_prod_unfold getUrl_connection)
qed

theorem default_of_first_driver_witness:
  "\<exists>s1 c1 dflt. http_handle (new_engine []) None (one_request ''/a.txt'') = Ok (s1, c1, dflt) \<and>
    http_handle (new_engine [(''*'', Some (\<lambda>q r. (q, upd_ctx (setResponse 200 ''mine'') r)))]) dflt (one_request ''/a.txt'') =
    http_handle (Map.empty(''*'' \<mapsto> None)) None (one_request ''/a.txt'')"
proof -
  let ?e = "new_engine [(''*'', Some (\<lambda>(q :: http_ctx) r. (q, upd_ctx (setResponse 200 ''mine'') r)))]"
  obtain s1 c1 dflt where f: "http_handle (new_engine []) None (one_request ''/a.txt'') = Ok (s1, c1, dflt)"
    using one_url by (simp add: http_handle_def Let_def case_prod_unfold getUrl_connection)
  have "?e(''*'' \<mapsto> engine_get (new_engine []) ''*'') = Map.empty(''*'' \<mapsto> None)"
    by (simp add: new_engine_def engine_insert_def engine_get_def)
  with conjunct1 [OF default_of_first_driver [OF f one_url, of ?e]]
  have "http_handle ?e dflt (one_request ''/a.txt'') = http_handle (Map.empty(''*'' \<mapsto> None)) None (one_request ''/a.txt'')"
    by simp
  with f show ?thesis by blast
qed

section \<open>Handlers for JSON\<close>

text \<open>
  \<open>globalFunPtr\<close> of \<open>YS_HttpJsonApi\<close>: its two static variables.  \<open>custom\<close> registers a function with it, and the
  handler it returns asks for the function at every request.
\<close>

record 'f fun_ptrs =
  fp_set :: "32 word"
  vtFunc :: "'f list"

definition globalFunPtr :: "'f option \<Rightarrow> 'f fun_ptrs \<Rightarrow> (unit, 'f option \<times> 'f fun_ptrs) outcome" where
  "globalFunPtr ptr s =
     (if fp_set s \<noteq> 0 \<and> fp_set s \<noteq> 1 then Throw ()
      else case ptr of
        Some f \<Rightarrow> Ok (None, s\<lparr>fp_set := fp_set s + 1, vtFunc := vtFunc s @ [f]\<rparr>)
      | None \<Rightarrow> if vtFunc s = [] then Undef else Ok (Some (last (vtFunc s)), s\<lparr>fp_set := fp_set s - 1\<rparr>))"

fun fun_ptr_calls :: "'f option list \<Rightarrow> 'f fun_ptrs \<Rightarrow> (unit, 'f option list \<times> 'f fun_ptrs) outcome" where
  "fun_ptr_calls [] s = Ok ([], s)"
| "fun_ptr_calls (p # ps) s =
     bindO (globalFunPtr p s) (\<lambda>(r, s1). mapO (\<lambda>(rs, s2). (r # rs, s2)) (fun_ptr_calls ps s1))"

text \<open>The handler works for two requests; the third throws.  After a second registration the first request throws.\<close>

lemma json_api_third_request:
  "fun_ptr_calls [Some f, None, None] \<lparr>fp_set = 0, vtFunc = []\<rparr> = Ok ([None, Some f, Some f], \<lparr>fp_set = - 1, vtFunc = [f]\<rparr>)"
  "fun_ptr_calls [Some f, None, None, None] \<lparr>fp_set = 0, vtFunc = []\<rparr> = Throw ()"
  "fun_ptr_calls [Some f, Some g, None] \<lparr>fp_set = 0, vtFunc = []\<rparr> = Throw ()"
  by (simp_all add: globalFunPtr_def)

end
