(* ===== verification/Ys_NetRequest.thy ===== *)
theory Ys_NetRequest
  imports Ys_NetThread
begin

text \<open>
  A request on its way through a network thread: its pieces arrive in several events of the connection,
  between which the thread does other work, and the buffer that collects them is handed to the business
  threads once the driver says that the request is complete.
\<close>

section \<open>One piece\<close>

lemma recv_one_piece:
  assumes wf: "buf_wf b" "bmem b \<noteq> None" "unat (bcap b) < 2 ^ 31"
    and f: "f \<noteq> []" "unat (blen b) + length f < unat (bcap b)"
  shows "\<exists>b'. socket_recv_buf [Got f, RecvErr True] b = Some (Ok (0, b')) \<and> buf_wf b' \<and> bmem b' \<noteq> None \<and>
    bcap b' = bcap b \<and> contents b' = contents b @ f \<and> unat (blen b') = unat (blen b) + length f"
proof -
  let ?n = "length f"
  have left: "unat (leftSize b) = unat (bcap b) - unat (blen b)" by (rule leftSize_unat [OF wf(1)])
  have small: "?n < 2 ^ 31" using f(2) wf(3) by simp
  have "unat (ucast (leftSize b) :: u32) = unat (leftSize b)"
    using left wf(3) by (intro unat_ucast_64_32) simp
  moreover have "unat (of_nat ?n :: u32) = ?n" using small by (intro unat_of_nat_32) simp
  ultimately have "unat (of_nat ?n :: u32) \<noteq> unat (ucast (leftSize b) :: u32)" using left f(2) by linarith
  then have ne: "(of_nat ?n :: u32) \<noteq> ucast (leftSize b)" by (rule contrapos_nn) (erule arg_cong)
  have room: "of_nat ?n \<le> leftSize b"
    using left f(2) small by (simp add: word_le_nat_alt unat_of_nat)
  obtain b1 where b1: "write_left f b = Ok b1" "buf_wf b1" "contents b1 = contents b @ f" "bcap b1 = bcap b"
    "unat (blen b1) = unat (blen b) + ?n"
    using write_left_ok [OF wf(1) _ room] small by auto
  let ?b2 = "offset_buf (of_nat ?n) (b1\<lparr>blen := blen b\<rparr>)"
  have "unat (blen ?b2) = unat (blen b1)"
    using offset_buf_small [of ?n "b1\<lparr>blen := blen b\<rparr>"] small f(2) b1(4,5) by simp
  then have "blen ?b2 = blen b1" by (simp only: word_unat_eq_iff)
  then have "?b2 = b1" by (cases b1) (simp add: offset_buf_def)
  moreover have "bmem b1 \<noteq> None" using b1(1) wf(2) by (auto simp: write_left_def split: option.splits)
  ultimately show ?thesis using b1 ne f(1) by (auto simp: socket_recv_buf_def socket_recv_def Let_def)
qed

section \<open>A connection that waits for the next piece\<close>

text \<open>
  The connection filed under \<open>k\<close> has received \<open>j\<close> bytes of the request \<open>m\<close> into the buffer \<open>b\<close>, or, if there are
  none yet, will take \<open>b\<close> from the idle queue, whose lock counter it has read as \<open>n\<close>.
\<close>

definition awaits :: "(bytes \<Rightarrow> nat \<Rightarrow> 'c option \<Rightarrow> bool) \<Rightarrow> bytes \<Rightarrow> nat \<Rightarrow> int \<Rightarrow> nat \<Rightarrow> nat \<Rightarrow> 'c net_th \<Rightarrow> bool" where
  "awaits seen m j k b n s \<longleftrightarrow>
     (\<exists>e. conn_find k (conns s) = Some e \<and>
        (ebuf e = Some b \<or> j = 0 \<and> ebuf e = None \<and> fst (th_pop_wait n (q_idle s)) = Some b)) \<and>
     (let r = recvData (nbufs s b) in buf_wf r \<and> bmem r \<noteq> None \<and> unat (bcap r) < 2 ^ 31 \<and>
        length m < unat (bcap r) \<and> contents r = take j m \<and> unat (blen r) = j) \<and>
     seen m j (ctx (nbufs s b))"

text \<open>The buffer has been handed over: it holds the whole request, and its completion callback is not set.\<close>

definition handed_over :: "(bytes \<Rightarrow> nat \<Rightarrow> 'c option \<Rightarrow> bool) \<Rightarrow> bytes \<Rightarrow> int \<Rightarrow> nat \<Rightarrow> 'c net_th \<Rightarrow> 'c net_th \<Rightarrow> bool" where
  "handed_over seen m k b s s' \<longleftrightarrow> q_busi s' = th_push_back b (q_busi s) \<and>
     (\<exists>e. conn_find k (conns s') = Some e \<and> ebuf e = None \<and> refSock (nbufs s' b) = Some (esock e)) \<and>
     (let r = recvData (nbufs s' b) in buf_wf r \<and> bmem r \<noteq> None \<and> contents r = m \<and> unat (blen r) = length m) \<and>
     sendData (nbufs s' b) = sendData (nbufs s b) \<and> cbBusiFinal (nbufs s' b) = cbBusiFinal (nbufs s b) \<and>
     seen m (length m) (ctx (nbufs s' b))"

text \<open>What an event does to the connection and the buffer, up to the decision of \<open>isFullPkt\<close>.\<close>

lemma on_epoll_in_piece:
  assumes "awaits seen m j k b n s" and "f \<noteq> []" and "j + length f \<le> length m" and "take j m @ f = take (j + length f) m"
  shows "\<exists>s1 e rd. on_epoll_in ipf sb [Got f, RecvErr True] n now k s =
      Some (Ok (after_recv ipf sb k e b 0 (upd_buf b (\<lambda>x. x\<lparr>recvData := rd\<rparr>) s1))) \<and>
    conn_find k (conns s1) = Some e \<and> nbufs s1 = nbufs s \<and> q_busi s1 = q_busi s \<and>
    buf_wf rd \<and> bmem rd \<noteq> None \<and> bcap rd = bcap (recvData (nbufs s b)) \<and> unat (bcap rd) < 2 ^ 31 \<and> length m < unat (bcap rd) \<and>
    contents rd = take (j + length f) m \<and> unat (blen rd) = j + length f"
proof -
  obtain e0 where e0: "conn_find k (conns s) = Some e0"
    "ebuf e0 = Some b \<or> j = 0 \<and> ebuf e0 = None \<and> fst (th_pop_wait n (q_idle s)) = Some b"
    using assms(1) by (auto simp: awaits_def)
  let ?r = "recvData (nbufs s b)"
  have r: "buf_wf ?r" "bmem ?r \<noteq> None" "unat (bcap ?r) < 2 ^ 31" "length m < unat (bcap ?r)" "contents ?r = take j m"
    "unat (blen ?r) = j" using assms(1) by (simp_all add: awaits_def Let_def)
  obtain rd where rd: "socket_recv_buf [Got f, RecvErr True] ?r = Some (Ok (0, rd))" "buf_wf rd" "bmem rd \<noteq> None"
    "bcap rd = bcap ?r" "contents rd = take j m @ f" "unat (blen rd) = j + length f"
    using recv_one_piece [OF r(1-3) assms(2)] r(4-6) assms(3) by auto
  show ?thesis
  proof (cases "ebuf e0")
    case (Some b')
    then have "ebuf e0 = Some b" using e0(2) by auto
    with e0(1) rd r(3,4) assms(4) show ?thesis
      by (intro exI [of _ s] exI [of _ e0] exI [of _ rd]) (simp add: on_epoll_in_def)
  next
    case None
    let ?e = "e0\<lparr>etmr := timer_start now 3000 (etmr e0)\<rparr>"
    let ?s1 = "(set_ep k ?e s)\<lparr>q_idle := snd (th_pop_wait n (q_idle s))\<rparr>"
    have s1: "nbufs ?s1 = nbufs s" "q_busi ?s1 = q_busi s" "conn_find k (conns ?s1) = Some ?e"
      using conn_find_set [OF e0(1)] by (simp_all add: set_ep_def)
    moreover have "on_epoll_in ipf sb [Got f, RecvErr True] n now k s =
        Some (Ok (after_recv ipf sb k ?e b 0 (upd_buf b (\<lambda>x. x\<lparr>recvData := rd\<rparr>) ?s1)))"
      using e0 None rd(1) s1(1) by (simp add: on_epoll_in_def Let_def)
    ultimately show ?thesis using rd r(3,4) assms(4)
      by (intro exI [of _ ?s1] exI [of _ ?e] exI [of _ rd]) (simp add: set_ep_def)
  qed
qed

text \<open>A driver whose requests start without a context.\<close>

locale request_driver = assembling ipf msg seen hdr
  for ipf :: "ys_buf \<Rightarrow> 'c option \<Rightarrow> 32 word \<times> 'c option" and msg and seen and hdr +
  assumes none_seen: "msg m \<Longrightarrow> seen m 0 None"
begin

text \<open>A piece before the end leaves the connection waiting.\<close>

lemma piece_received:
  assumes "msg m" and "awaits seen m j k b n s" and "f \<noteq> []" and "j + length f < length m"
    and "take j m @ f = take (j + length f) m" and "hdr \<le> j + length f"
  shows "\<exists>s'. on_epoll_in ipf sb [Got f, RecvErr True] n now k s = Some (Ok s') \<and>
    (\<forall>n'. awaits seen m (j + length f) k b n' s') \<and> q_busi s' = q_busi s \<and>
    sendData (nbufs s' b) = sendData (nbufs s b) \<and> cbBusiFinal (nbufs s' b) = cbBusiFinal (nbufs s b)"
proof -
  obtain s1 e rd where ev: "on_epoll_in ipf sb [Got f, RecvErr True] n now k s =
      Some (Ok (after_recv ipf sb k e b 0 (upd_buf b (\<lambda>x. x\<lparr>recvData := rd\<rparr>) s1)))"
    and s1: "conn_find k (conns s1) = Some e" "nbufs s1 = nbufs s" "q_busi s1 = q_busi s"
    and rd: "buf_wf rd" "bmem rd \<noteq> None" "unat (bcap rd) < 2 ^ 31" "length m < unat (bcap rd)"
      "contents rd = take (j + length f) m" "unat (blen rd) = j + length f"
    using on_epoll_in_piece [OF assms(2,3) less_imp_le [OF assms(4)] assms(5)] by blast
  have l: "blen rd = of_nat (j + length f)" using rd(6) by (metis of_nat_unat ucast_id)
  have seen: "seen m j (ctx (nbufs s b))" using assms(2) by (simp add: awaits_def)
  have lt: "j < j + length f" using assms(3) by simp
  let ?r = "ipf rd (ctx (nbufs s b))"
  have p: "length m - (j + length f) \<le> unat (fst ?r)" "unat (fst ?r) + (j + length f) \<le> unat (bcap rd)"
    "seen m (j + length f) (snd ?r)"
    using partial [OF assms(1) seen lt assms(4,6) rd(5) l _ rd(3)] rd(4) by auto
  have sz: "unat (fst ?r) < 2 ^ 31" using p(2) rd(3) by simp
  have nn: "fst ?r \<noteq> 0" "\<not> fst ?r <s 0" using p(1) assms(4) of_nat_nonneg_32 [OF sz] by auto
  have nf: "blen rd \<noteq> 0" "\<not> bfull rd"
    using rd(4,6) assms(3,4) by (auto simp: bfull_def)
  let ?s' = "set_ep k (e\<lparr>ebuf := Some b\<rparr>) (upd_buf b (\<lambda>x. x\<lparr>ctx := snd ?r\<rparr>) (upd_buf b (\<lambda>x. x\<lparr>recvData := rd\<rparr>) s1))"
  have "after_recv ipf sb k e b 0 (upd_buf b (\<lambda>x. x\<lparr>recvData := rd\<rparr>) s1) = ?s'"
    using nn nf s1(2) by (simp add: after_recv_def Let_def upd_buf_def)
  moreover have "awaits seen m (j + length f) k b n' ?s'" for n'
    using conn_find_set [OF s1(1)] rd p(3) by (simp add: awaits_def upd_buf_def set_ep_def Let_def)
  ultimately show ?thesis using ev s1(2,3) by (auto simp: upd_buf_def set_ep_def)
qed

text \<open>The last piece hands the buffer over.\<close>

lemma last_piece_received:
  assumes "msg m" and "awaits seen m j k b n s" and "f \<noteq> []" and "m = take j m @ f" and "j \<le> length m"
  shows "\<exists>s'. on_epoll_in ipf sb [Got f, RecvErr True] n now k s = Some (Ok s') \<and> handed_over seen m k b s s'"
proof -
  have j: "j + length f = length m" using arg_cong [OF assms(4), of length] assms(5) by simp
  obtain s1 e rd where ev: "on_epoll_in ipf sb [Got f, RecvErr True] n now k s =
      Some (Ok (after_recv ipf sb k e b 0 (upd_buf b (\<lambda>x. x\<lparr>recvData := rd\<rparr>) s1)))"
    and s1: "conn_find k (conns s1) = Some e" "nbufs s1 = nbufs s" "q_busi s1 = q_busi s"
    and rd: "buf_wf rd" "bmem rd \<noteq> None" "length m < unat (bcap rd)" "contents rd = m" "unat (blen rd) = length m"
    using on_epoll_in_piece [OF assms(2,3), where ipf = ipf and sb = sb and now = now] assms(4) j by auto
  have l: "blen rd = of_nat (length m)" using rd(5) by (metis of_nat_unat ucast_id)
  have seen: "seen m j (ctx (nbufs s b))" using assms(2) by (simp add: awaits_def)
  have lt: "j < length m" using assms(3) j by (cases f) auto
  let ?r = "ipf rd (ctx (nbufs s b))"
  have p: "fst ?r = 0" "seen m (length m) (snd ?r)" using whole [OF assms(1) seen lt rd(4) l] by auto
  have nf: "blen rd \<noteq> 0" "\<not> bfull rd"
    using rd(3,5) lt by (auto simp: bfull_def)
  let ?s2 = "upd_buf b (\<lambda>x. x\<lparr>ctx := snd ?r\<rparr>) (upd_buf b (\<lambda>x. x\<lparr>recvData := rd\<rparr>) s1)"
  have "after_recv ipf sb k e b 0 (upd_buf b (\<lambda>x. x\<lparr>recvData := rd\<rparr>) s1) = submit False k e b ?s2"
    using p(1) nf s1(2) by (simp add: after_recv_def Let_def upd_buf_def)
  moreover have "handed_over seen m k b s (submit False k e b ?s2)"
    using conn_find_set [OF s1(1)] rd p(2) s1(2,3)
    by (simp add: handed_over_def submit_def push_task_def upd_buf_def set_ep_def Let_def)
  ultimately show ?thesis using ev by auto
qed

end

section \<open>All pieces\<close>

text \<open>
  The events of one connection, each with its piece; after each the thread does other work, which is a function of the
  state.
\<close>

fun arrive :: "(ys_buf \<Rightarrow> 'c option \<Rightarrow> 32 word \<times> 'c option) \<Rightarrow> bool \<Rightarrow> int \<Rightarrow>
    (nat \<times> u64 \<times> bytes \<times> ('c net_th \<Rightarrow> 'c net_th)) list \<Rightarrow> 'c net_th \<Rightarrow> 'c net_result option" where
  "arrive ipf sb k [] s = Some (Ok s)"
| "arrive ipf sb k ((n, now, f, work) # xs) s =
     (case on_epoll_in ipf sb [Got f, RecvErr True] n now k s of
        None \<Rightarrow> None
      | Some (Ok s1) \<Rightarrow> arrive ipf sb k xs (work s1)
      | Some r \<Rightarrow> Some r)"

text \<open>Work that concerns neither this connection nor its buffer.\<close>

definition elsewhere :: "int \<Rightarrow> nat \<Rightarrow> ('c net_th \<Rightarrow> 'c net_th) \<Rightarrow> bool" where
  "elsewhere k b work \<longleftrightarrow> (\<forall>s. conn_find k (conns (work s)) = conn_find k (conns s) \<and> nbufs (work s) b = nbufs s b)"

definition piece :: "nat \<times> u64 \<times> bytes \<times> ('c net_th \<Rightarrow> 'c net_th) \<Rightarrow> bytes" where
  "piece x = fst (snd (snd x))"

lemma piece_simp [simp]: "piece (n, now, f, work) = f"
  by (simp add: piece_def)

lemma awaits_elsewhere:
  "awaits seen m j k b n s \<Longrightarrow> 0 < j \<Longrightarrow> elsewhere k b work \<Longrightarrow> awaits seen m j k b n' (work s)"
  by (auto simp: awaits_def elsewhere_def)

context request_driver
begin

lemma arrive_pieces:
  assumes "msg m" and "awaits seen m j k b n s" and "drop j m = concat (map piece xs) @ t" and "t \<noteq> []"
    and "\<forall>x\<in>set xs. piece x \<noteq> [] \<and> elsewhere k b (snd (snd (snd x)))" and "\<forall>x\<in>set xs. fst x = n"
    and "xs \<noteq> [] \<Longrightarrow> hdr \<le> j + length (piece (hd xs))" and "j \<le> length m"
  shows "\<exists>s'. arrive ipf sb k xs s = Some (Ok s') \<and> awaits seen m (length m - length t) k b n s' \<and>
    sendData (nbufs s' b) = sendData (nbufs s b) \<and> cbBusiFinal (nbufs s' b) = cbBusiFinal (nbufs s b)"
  using assms(2,3,5-8)
proof (induction xs arbitrary: j s)
  case Nil
  then have "length m - j = length t" by (metis append_Nil concat.simps(1) length_drop list.map(1))
  with Nil show ?case by auto
next
  case (Cons x xs)
  obtain now f work where x: "x = (n, now, f, work)" using Cons.prems(4) by (cases x) auto
  have f: "f \<noteq> []" "elsewhere k b work" using Cons.prems(3) by (simp_all add: x)
  have d: "drop j m = f @ concat (map piece xs) @ t" using Cons.prems(2) by (simp add: x)
  have lt: "j + length f < length m" using arg_cong [OF d, of length] assms(4) by (cases t) auto
  have tk: "take j m @ f = take (j + length f) m" using d by (simp add: take_add)
  have rest: "drop (j + length f) m = concat (map piece xs) @ t"
    using d by (metis add.commute append_eq_conv_conj drop_drop)
  have hd': "hdr \<le> j + length f" using Cons.prems(5) by (simp add: x)
  obtain s1 where s1: "on_epoll_in ipf sb [Got f, RecvErr True] n now k s = Some (Ok s1)"
    "\<forall>n'. awaits seen m (j + length f) k b n' s1"
    "sendData (nbufs s1 b) = sendData (nbufs s b)" "cbBusiFinal (nbufs s1 b) = cbBusiFinal (nbufs s b)"
    using piece_received [OF assms(1) Cons.prems(1) f(1) lt tk hd'] by blast
  have w: "awaits seen m (j + length f) k b n (work s1)" "nbufs (work s1) b = nbufs s1 b"
    using awaits_elsewhere [OF _ _ f(2)] s1(2) f by (auto simp: elsewhere_def)
  obtain s' where "arrive ipf sb k xs (work s1) = Some (Ok s')" "awaits seen m (length m - length t) k b n s'"
    "sendData (nbufs s' b) = sendData (nbufs (work s1) b)" "cbBusiFinal (nbufs s' b) = cbBusiFinal (nbufs (work s1) b)"
    using Cons.IH [OF w(1) rest] Cons.prems(3,4) hd' lt by fastforce
  with s1 w(2) show ?case by (simp add: x)
qed

text \<open>
  A request that arrives in pieces is handed over whole by the event of the last of them.
\<close>

lemma request_arrives:
  assumes "msg m" and "awaits seen m 0 k b n s" and "m = concat (map piece xs) @ f" and "f \<noteq> []"
    and "\<forall>x\<in>set xs. piece x \<noteq> [] \<and> elsewhere k b (snd (snd (snd x)))" and "\<forall>x\<in>set xs. fst x = n"
    and "xs \<noteq> [] \<Longrightarrow> hdr \<le> length (piece (hd xs))"
  shows "\<exists>s1 s2. arrive ipf sb k xs s = Some (Ok s1) \<and>
    on_epoll_in ipf sb [Got f, RecvErr True] n now k s1 = Some (Ok s2) \<and> handed_over seen m k b s1 s2 \<and>
    sendData (nbufs s1 b) = sendData (nbufs s b) \<and> cbBusiFinal (nbufs s1 b) = cbBusiFinal (nbufs s b)"
proof -
  obtain s1 where s1: "arrive ipf sb k xs s = Some (Ok s1)" "awaits seen m (length m - length f) k b n s1"
    "sendData (nbufs s1 b) = sendData (nbufs s b)" "cbBusiFinal (nbufs s1 b) = cbBusiFinal (nbufs s b)"
    using arrive_pieces [OF assms(1,2) _ assms(4-6)] assms(3,7) by auto
  have m: "m = take (length m - length f) m @ f" using assms(3) by simp
  obtain s2 where "on_epoll_in ipf sb [Got f, RecvErr True] n now k s1 = Some (Ok s2)" "handed_over seen m k b s1 s2"
    using last_piece_received [OF assms(1) s1(2) assms(4) m] by auto
  with s1 show ?thesis by blast
qed

end

section \<open>The business thread\<close>

text \<open>
  A buffer that has been handed over, while no other is waiting: the business thread that takes it runs the driver's
  handler, sends what the handler leaves in the send buffer and gives the buffer back.
\<close>

lemma handed_over_served:
  assumes "handed_over seen m k b s1 s2" and "q_items (q_busi s1) = []" and "\<not> cbBusiFinal (nbufs s1 b)"
    and "hdl ((nbufs s2 b)\<lparr>tid := t\<rparr>) = Ok (x, closing)" and "refSock x = Some sk" and "\<not> cbBusiFinal x"
    and "socket_send_buf ssl (sendData x) es = Some (cnt, wire)"
  shows "\<exists>s3. task_done hdl ssl es b (task_take (q_lock (q_busi s1)) t s2) = Some (Ok (s3, sk, wire)) \<and>
    b \<in> set (q_items (q_idle s3)) \<and> blen (recvData (nbufs s3 b)) = 0 \<and> blen (sendData (nbufs s3 b)) = 0"
proof -
  have busi: "q_items (q_busi s2) = [b]" "q_lock (q_busi s2) = q_lock (q_busi s1)"
    using assms(1,2) by (simp_all add: handed_over_def th_push_back_def)
  have "th_pop_wait (q_lock (q_busi s1)) (q_busi s2) = (Some b, th_drop (q_busi s2))"
    using busi by (simp add: th_pop_wait_def has_notify_def)
  then have "task_take (q_lock (q_busi s1)) t s2 =
      upd_buf b (\<lambda>x. x\<lparr>tid := t\<rparr>) (s2\<lparr>q_busi := th_drop (q_busi s2), working := working s2 @ [b]\<rparr>)"
    by (simp add: task_take_def Let_def)
  with assms(4-7) show ?thesis
    by (simp add: task_done_def Let_def push_idle_def upd_buf_def wq.push_items clear_net_buf_def clear_buf_def)
qed

end
