(* ===== verification/Ys_Services.thy ===== *)
theory Ys_Services
  imports Ys_HttpClient Ys_HttpServer Ys_NetRequest
begin

text \<open>
  The drivers of the library on a network thread: the binary protocol (\<open>isaac/ys_pack_proto.h\<close>), HTTP
  (\<open>isaac/ys_http_server.h\<close>) and the driver that tells the two apart (\<open>isaac/ys_proxy_server.h\<close>).  A request that
  a client sends arrives in pieces, is collected, handled and answered, and the client reads the answer.
\<close>

section \<open>The drivers\<close>

text \<open>\<open>YS_PackDriver\<close>.  An exception of the handler is not caught: it ends the program.\<close>

definition pack_driver_isFullPkt :: "ys_buf \<Rightarrow> 'c option \<Rightarrow> 32 word \<times> 'c option" where
  "pack_driver_isFullPkt b a = (isFullPkt b, a)"

definition pack_driver_handle :: "(ys_buf \<Rightarrow> ys_buf) \<Rightarrow> (ys_buf \<Rightarrow> 32 word \<times> ys_buf) \<Rightarrow> (u16, 'c pack_api) engine \<Rightarrow>
    'c net_buf \<Rightarrow> (buf_error, 'c net_buf \<times> bool) outcome" where
  "pack_driver_handle enc dec eng b = (case pack_done enc dec eng b of Ok b' \<Rightarrow> Ok (b', False) | _ \<Rightarrow> Undef)"

text \<open>\<open>YS_HttpDriver\<close>; the handler reads the request from the buffer's context.\<close>

type_synonym http_net_buf = "(unit, http_ctx) outcome net_buf"

definition http_driver_isFullPkt :: "ys_buf \<Rightarrow> http_arg \<Rightarrow> 32 word \<times> http_arg" where
  "http_driver_isFullPkt b a = http_look HTTP_REQUEST b a"

definition http_driver_handle :: "(string, http_api) engine \<Rightarrow> http_api option option \<Rightarrow> http_net_buf \<Rightarrow>
    (unit, string list \<times> bool \<times> http_api option option) outcome" where
  "http_driver_handle engine dflt b = (case ctx b of Some (Ok c) \<Rightarrow> http_handle engine dflt c | _ \<Rightarrow> Undef)"

text \<open>\<open>YS_ProxyDriver\<close>: HTTP where there is a context or the bytes are no packet.\<close>

definition proxy_isFullPkt :: "ys_buf \<Rightarrow> http_arg \<Rightarrow> 32 word \<times> http_arg" where
  "proxy_isFullPkt b a =
     (if a \<noteq> None then http_look HTTP_REQUEST b a
      else let ret = isFullPkt b in if ret <s 0 then http_look HTTP_REQUEST b a else (ret, a))"

definition proxy_handle :: "(u16, (unit, http_ctx) outcome pack_api) engine \<Rightarrow> (string, http_api) engine \<Rightarrow> http_api option option \<Rightarrow>
    http_net_buf \<Rightarrow> (unit, string list \<times> bool \<times> http_api option option) outcome + (buf_error, http_net_buf \<times> bool) outcome" where
  "proxy_handle peng heng dflt b =
     (if ctx b \<noteq> None then Inl (http_driver_handle heng dflt b) else Inr (pack_driver_handle id (Pair 0) peng b))"

section \<open>The drivers as request drivers\<close>

interpretation pack_frames: framing pack_driver_isFullPkt is_frame 12
proof
  fix m k b and c :: "'c option"
  assume "is_frame m" and "12 \<le> k" and "k \<le> length m" and "contents b = take k m" and "blen b = of_nat k"
  then show "fst (pack_driver_isFullPkt b c) = of_nat (length m - k)"
    using pack.missing [of m k b "()"] by (simp add: pack_driver_isFullPkt_def pack_ipf_def)
next
  fix m k b and c :: "'c option"
  assume "is_frame m" and "0 < k" and "k < 12" and "contents b = take k m" and "blen b = of_nat k"
  then show "fst (pack_driver_isFullPkt b c) <s 0"
    using pack.early [of m k b "()"] by (simp add: pack_driver_isFullPkt_def pack_ipf_def)
qed (use pack.empty_cap pack.hdr_size in \<open>auto simp: pack_driver_isFullPkt_def pack_ipf_def\<close>)

interpretation pack_driver: request_driver pack_driver_isFullPkt is_frame "\<lambda>_ _ _. True" 12
  by unfold_locales simp

text \<open>The text of a request in bytes.\<close>

definition is_request :: "bytes \<Rightarrow> bool" where
  "is_request m \<longleftrightarrow> (\<exists>c. good_request c \<and> chars_of m = fst (request_format c))"

interpretation http_driver: request_driver http_driver_isFullPkt is_request "http_seen HTTP_REQUEST" 0
proof -
  have i: "http_driver_isFullPkt = http_look HTTP_REQUEST" "is_request = (\<lambda>m. \<exists>c. good_request c \<and> chars_of m = fst (request_format c))"
    by (auto simp: http_driver_isFullPkt_def is_request_def fun_eq_iff)
  show "request_driver http_driver_isFullPkt is_request (http_seen HTTP_REQUEST) 0"
    unfolding i by unfold_locales (simp add: http_seen_def)
qed


text \<open>The bytes of a request do not begin like a packet.\<close>

lemma request_no_packet:
  assumes "is_request m" and "contents b = take k m" and "0 < k" and "k \<le> length m" and "\<not> bempty b"
  shows "isFullPkt b = - 1"
proof -
  obtain c where c: "good_request c" "chars_of m = fst (request_format c)" using assms(1) by (auto simp: is_request_def)
  have p: "plain_headers c" using c(1) by (simp add: good_request_def)
  obtain ch rest where m: "chars_of m = ch # rest" and ch: "chcode ch < 128"
  proof -
    have "chars_of m = method_str (p_method (c_parser c)) @ CHR '' '' # c_url c @ '' HTTP/1.1'' @ crlf @
        header_lines (c_headers (snd (request_format c))) @ crlf @ c_body c"
      using request_format_text(1) [OF p prod.collapse [symmetric]] c(2) by (simp add: request_text_def)
    moreover have "\<exists>ch r. method_str q = ch # r \<and> chcode ch < 128" for q
      by (cases q) (simp_all add: chcode_def)
    ultimately show ?thesis using that by (metis append_Cons)
  qed
  obtain x y where xy: "m = x # y" "unat x < 128"
  proof (cases m)
    case (Cons x y)
    then have "ch = char_of (unat x)" using m by (simp add: chars_of_def)
    moreover have "unat x < 256" using unsigned_less [of x] by simp
    ultimately have "chcode ch = unat x" by (simp add: chcode_char_of)
    with that Cons ch show ?thesis by simp
  qed (use m in \<open>simp add: chars_of_def\<close>)
  obtain k' where k: "k = Suc k'" using assms(3) by (cases k) auto
  have "pkt_header (contents b) \<noteq> YS_PACK_HEADER"
  proof
    assume h: "pkt_header (contents b) = YS_PACK_HEADER"
    have "bit (pkt_header (contents b)) 7 = bit x 7"
      by (simp add: pkt_header_def assms(2) xy k bit_or_iff bit_push_bit_iff bit_ucast_iff numeral_2_eq_2)
    moreover have "\<not> bit (unat x) 7" using xy(2) by (simp add: bit_iff_odd)
    then have "\<not> bit x 7" by (simp add: bit_unsigned_iff)
    ultimately show False unfolding h by (simp add: YS_PACK_HEADER_def)
  qed
  with assms(5) show ?thesis by (simp add: isFullPkt_def Let_def)
qed

section \<open>Telling packets and requests apart\<close>

lemma proxy_of_request:
  assumes "is_request m" and "contents b = take k m" and "0 < k" and "k \<le> length m" and "\<not> bempty b"
  shows "proxy_isFullPkt b a = http_look HTTP_REQUEST b a"
  using request_no_packet [OF assms] by (simp add: proxy_isFullPkt_def word_sless_alt)

lemma proxy_empty:
  assumes "bempty b" and "unat (bcap b) < 2 ^ 31"
  shows "proxy_isFullPkt b None = (ucast (bcap b), None)"
proof -
  have "ucast (bcap b) = (of_nat (unat (bcap b)) :: 32 word)" by (rule of_nat_unat [symmetric])
  then have "\<not> (ucast (bcap b) :: 32 word) <s 0" by (simp only: of_nat_nonneg_32 [OF assms(2)] not_False_eq_True)
  with assms(1) show ?thesis by (simp add: proxy_isFullPkt_def isFullPkt_def Let_def)
qed

lemma not_bempty:
  assumes "blen b = of_nat k" and "0 < k" and "k < 2 ^ 32"
  shows "\<not> bempty b"
proof
  assume "bempty b"
  then have "unat (of_nat k :: u64) = 0" using assms(1) by (simp add: bempty_def)
  with assms(2,3) show False by (simp add: unat_of_nat)
qed

interpretation proxy_http: request_driver proxy_isFullPkt is_request "http_seen HTTP_REQUEST" 0
proof
  fix b :: ys_buf and m a assume b: "bempty b" "unat (bcap b) < 2 ^ 31" and m: "is_request m" and s: "http_seen HTTP_REQUEST m 0 a"
  show "fst (proxy_isFullPkt b a) = ucast (bcap b) \<and> http_seen HTTP_REQUEST m 0 (snd (proxy_isFullPkt b a))"
  proof (cases a)
    case None
    with proxy_empty [OF b] show ?thesis by (simp add: http_seen_def)
  next
    case (Some c)
    with http_driver.fresh [OF b m s] show ?thesis by (simp add: proxy_isFullPkt_def http_driver_isFullPkt_def)
  qed
next
  fix m assume "is_request m"
  then show "0 < length m \<and> length m < 2 ^ 31" by (rule http_driver.size)
next
  fix m k a b assume m: "is_request m" and a: "http_seen HTTP_REQUEST m k a" "k < length m" "contents b = m" "blen b = of_nat (length m)"
  have "\<not> bempty b" using not_bempty [OF a(4)] http_driver.size [OF m] by simp
  with proxy_of_request [OF m, of b "length m" a] a(3) http_driver.size [OF m]
  have "proxy_isFullPkt b a = http_look HTTP_REQUEST b a" by simp
  with http_driver.whole [OF m a] show "fst (proxy_isFullPkt b a) = 0 \<and> http_seen HTTP_REQUEST m (length m) (snd (proxy_isFullPkt b a))"
    by (simp add: http_driver_isFullPkt_def)
next
  fix m k k' a b
  assume m: "is_request m" and a: "http_seen HTTP_REQUEST m k a" "k < k'" "k' < length m" "0 \<le> k'" "contents b = take k' m"
    "blen b = of_nat k'" "length m \<le> unat (bcap b)" "unat (bcap b) < 2 ^ 31"
  have "\<not> bempty b" using not_bempty [OF a(6)] http_driver.size [OF m] a(2,3) by simp
  with proxy_of_request [OF m a(5), of a] a(2,3) have "proxy_isFullPkt b a = http_look HTTP_REQUEST b a" by simp
  with http_driver.partial [OF m a] show "length m - k' \<le> unat (fst (proxy_isFullPkt b a)) \<and>
      unat (fst (proxy_isFullPkt b a)) + k' \<le> unat (bcap b) \<and> http_seen HTTP_REQUEST m k' (snd (proxy_isFullPkt b a))"
    by (simp add: http_driver_isFullPkt_def)
qed (simp add: http_seen_def)

text \<open>A packet never gets a context.\<close>

lemma proxy_of_frame:
  assumes "is_frame m" and "12 \<le> k" and "k \<le> length m" and "contents b = take k m" and "blen b = of_nat k"
  shows "proxy_isFullPkt b None = (of_nat (length m - k), None)"
proof -
  have i: "isFullPkt b = of_nat (length m - k)"
    using pack.missing [OF assms, of "()"] by (simp add: pack_ipf_def)
  have "length m - k < 2 ^ 31" using pack.hdr_size [OF assms(1)] by auto
  from of_nat_nonneg_32 [OF this] show ?thesis by (simp add: proxy_isFullPkt_def i Let_def del: of_nat_diff)
qed

interpretation proxy_pack: request_driver proxy_isFullPkt is_frame "\<lambda>_ _ a. a = None" 12
proof
  fix b :: ys_buf and m :: bytes and a :: http_arg
  assume "bempty b" and "unat (bcap b) < 2 ^ 31" and "a = None"
  then show "fst (proxy_isFullPkt b a) = ucast (bcap b) \<and> snd (proxy_isFullPkt b a) = None" by (simp add: proxy_empty)
next
  fix m assume "is_frame m"
  then show "0 < length m \<and> length m < 2 ^ 31" by (rule pack.size)
next
  fix m k b and a :: http_arg
  assume m: "is_frame m" and a: "a = None" "contents b = m" "blen b = of_nat (length m)"
  show "fst (proxy_isFullPkt b a) = 0 \<and> snd (proxy_isFullPkt b a) = None"
    using proxy_of_frame [OF m, of "length m" b] a pack.hdr_size [OF m] by simp
next
  fix m k k' b and a :: http_arg
  assume m: "is_frame m" and a: "a = None" "k' < length m" "12 \<le> k'" "contents b = take k' m" "blen b = of_nat k'"
    "length m \<le> unat (bcap b)"
  have "unat (of_nat (length m - k') :: 32 word) = length m - k'"
    using pack.hdr_size [OF m] by (intro unat_of_nat_32) auto
  with proxy_of_frame [OF m a(3) less_imp_le [OF a(2)] a(4,5)] a(1,2,6)
  show "length m - k' \<le> unat (fst (proxy_isFullPkt b a)) \<and> unat (fst (proxy_isFullPkt b a)) + k' \<le> unat (bcap b) \<and>
      snd (proxy_isFullPkt b a) = None" by (simp del: of_nat_diff)
qed simp

section \<open>Properties\<close>

text \<open>The pieces of a request: all but the last with the work the thread does after them.\<close>

definition in_pieces :: "bytes \<Rightarrow> int \<Rightarrow> nat \<Rightarrow> nat \<Rightarrow> nat \<Rightarrow>
    (nat \<times> u64 \<times> bytes \<times> ('c net_th \<Rightarrow> 'c net_th)) list \<Rightarrow> bytes \<Rightarrow> bool" where
  "in_pieces m k b n hdr xs f \<longleftrightarrow> m = concat (map piece xs) @ f \<and> f \<noteq> [] \<and>
     (\<forall>x\<in>set xs. piece x \<noteq> [] \<and> elsewhere k b (snd (snd (snd x))) \<and> fst x = n) \<and>
     (xs \<noteq> [] \<longrightarrow> hdr \<le> length (piece (hd xs)))"

lemma in_piecesD:
  "in_pieces m k b n hdr xs f \<Longrightarrow> m = concat (map piece xs) @ f"
  "in_pieces m k b n hdr xs f \<Longrightarrow> f \<noteq> []"
  "in_pieces m k b n hdr xs f \<Longrightarrow> \<forall>x\<in>set xs. piece x \<noteq> [] \<and> elsewhere k b (snd (snd (snd x)))"
  "in_pieces m k b n hdr xs f \<Longrightarrow> \<forall>x\<in>set xs. fst x = n"
  "in_pieces m k b n hdr xs f \<Longrightarrow> xs \<noteq> [] \<Longrightarrow> hdr \<le> length (piece (hd xs))"
  by (simp_all add: in_pieces_def)

text \<open>
  C3: A remote call over the binary protocol, from the wire of the client's request to the client's result.  The packet
  arrives in pieces of which the first holds the header, in events between which the network thread does other work;
  it is handed to a business thread, which answers on the socket of that connection with exactly the packet of the
  handler's result and gives the buffer back empty; and the client that gets this answer in any pieces returns the result.
\<close>

theorem pack_service_end_to_end:
  assumes req: "codables req ts" "length (images_of req) + 12 < 2 ^ 31"
    and server: "awaits (\<lambda>_ _ _. True) (frame cmd req) 0 k b n s" "in_pieces (frame cmd req) k b n 12 xs f"
      "\<not> cbBusiFinal (nbufs s b)"
    and handler: "engine_get eng cmd = Some (pack_proc ts pf)" "pf req = (0, out)"
    and out: "buf_wf (sendData (nbufs s b))" "bmem (sendData (nbufs s b)) = Some mem" "blen (sendData (nbufs s b)) = 0"
      "12 + length (images_of out) \<le> unat (bcap (sendData (nbufs s b)))"
      "socket_send ssl (frame cmd out) es = Some (cnt, frame cmd out)"
    and reply: "codables out ts'" "length (images_of out) + 12 < 2 ^ 31"
    and client: "buf_wf cb" "bmem cb \<noteq> None" "12 + length (images_of out) \<le> unat (bcap cb)"
      "unat (bcap cb) < 2 ^ 31" "\<not> num l <=s 0" "ev l AND EPOLLIN \<noteq> 0"
  shows "\<exists>s1 s2. arrive pack_driver_isFullPkt sb k xs s = Some (Ok s1) \<and>
    on_epoll_in pack_driver_isFullPkt sb [Got f, RecvErr True] n now k s1 = Some (Ok s2) \<and>
    (q_items (q_busi s1) = [] \<longrightarrow>
      (\<exists>e s3. conn_find k (conns s2) = Some e \<and>
        task_done (pack_driver_handle id (Pair 0) eng) ssl es b (task_take (q_lock (q_busi s1)) t s2) =
          Some (Ok (s3, esock e, frame cmd out)) \<and> b \<in> set (q_items (q_idle s3)) \<and>
        blen (recvData (nbufs s3 b)) = 0 \<and> blen (sendData (nbufs s3 b)) = 0)) \<and>
    (\<forall>fs. concat fs = frame cmd out \<and> (\<forall>g\<in>set fs. g \<noteq> []) \<and> 12 \<le> length (hd fs) \<longrightarrow>
      (\<exists>cb'. recv_resp (Pair 0) ts' l (map fragment fs) cb = Some (Ok (0, out, cb'))))"
proof -
  have fr: "is_frame (frame cmd req)" using req(2) by (auto simp: is_frame_def)
  note p = in_piecesD [OF server(2)]
  obtain s1 s2 where s12: "arrive pack_driver_isFullPkt sb k xs s = Some (Ok s1)"
    "on_epoll_in pack_driver_isFullPkt sb [Got f, RecvErr True] n now k s1 = Some (Ok s2)"
    "handed_over (\<lambda>_ _ _. True) (frame cmd req) k b s1 s2"
    "sendData (nbufs s1 b) = sendData (nbufs s b)" "cbBusiFinal (nbufs s1 b) = cbBusiFinal (nbufs s b)"
    using pack_driver.request_arrives [OF fr server(1) p] by blast
  let ?b = "(nbufs s2 b)\<lparr>tid := t\<rparr>"
  obtain e where e: "conn_find k (conns s2) = Some e" "refSock ?b = Some (esock e)"
    using s12(3) by (auto simp: handed_over_def Let_def)
  have h: "contents (recvData ?b) = frame cmd req" "buf_wf (recvData ?b)" "sendData ?b = sendData (nbufs s b)"
    "cbBusiFinal ?b = cbBusiFinal (nbufs s b)"
    using s12(3-5) by (auto simp: handed_over_def Let_def)
  obtain d where d: "pack_done id (Pair 0) eng ?b = Ok (?b\<lparr>sendData := d\<rparr>)" "contents d = frame cmd out" "buf_wf d"
    using pack_done_replies [OF h(1,2) req handler, of mem] out(1-4) reply(2) unfolding h(3) by blast
  have "blen d \<noteq> 0"
    using d(2,3) contents_length [of d] frame_length [of cmd out] by auto
  then have send: "socket_send_buf ssl d es = Some (cnt, frame cmd out)"
    using out(5) d(2) by (simp add: socket_send_buf_def)
  have "\<exists>s3. task_done (pack_driver_handle id (Pair 0) eng) ssl es b (task_take (q_lock (q_busi s1)) t s2) =
      Some (Ok (s3, esock e, frame cmd out)) \<and> b \<in> set (q_items (q_idle s3)) \<and>
    blen (recvData (nbufs s3 b)) = 0 \<and> blen (sendData (nbufs s3 b)) = 0" if "q_items (q_busi s1) = []"
    by (rule handed_over_served [OF s12(3) that, where x = "?b\<lparr>sendData := d\<rparr>" and closing = False and sk = "esock e"])
      (use s12(5) server(3) d(1) h(4) e(2) send in \<open>simp_all add: pack_driver_handle_def\<close>)
  with s12(1,2) e(1) recv_resp_fragments [OF reply client] show ?thesis by blast
qed

text \<open>A handler that computes the body of its answer from the URL and the body of the request.\<close>

definition answering :: "(string \<Rightarrow> string \<Rightarrow> string) \<Rightarrow> http_api" where
  "answering g q r = (q, upd_ctx (setResponse 200 (g (c_url q) (c_body q))) r)"

definition answer_of :: "(string \<Rightarrow> string \<Rightarrow> string) \<Rightarrow> http_ctx \<Rightarrow> http_ctx" where
  "answer_of g q = setResponse 200 (g (c_url q) (c_body q)) (setConnection (fst (getConnection q)) (new_ctx HTTP_RESPONSE))"

lemma http_handle_answers:
  assumes "getUrl q = Ok u" and "engine_get engine u = Some (answering g)"
  shows "\<exists>closing d. http_handle engine dflt q = Ok ([fst (response_format (answer_of g q))], closing, d)"
proof -
  have c: "c_url (snd (getConnection q)) = c_url q" "c_body (snd (getConnection q)) = c_body q"
    by (simp_all add: getConnection_def setHeader_def split: option.split)
  show ?thesis
    using assms
    by (simp add: http_handle_def Let_def case_prod_unfold getUrl_connection answering_def answer_of_def c hasResped_def
        upd_ctx_def new_resp_def format_and_send_def)
qed

text \<open>The context of a request that has arrived completely.\<close>

lemma request_context:
  assumes "good_request req" and "http_seen HTTP_REQUEST (bytes_of (fst (request_format req))) (length (fst (request_format req))) a"
  shows "\<exists>e. a = Some (Ok e) \<and> p_method (c_parser e) = p_method (c_parser req) \<and> c_url e = c_url req \<and>
    c_headers e = c_headers (snd (request_format req)) \<and> c_body e = c_body req"
proof -
  let ?d = "fst (request_format req)"
  obtain e where e: "ctx_execute ?d (new_ctx HTTP_REQUEST) = Some (length ?d, e)" "p_method (c_parser e) = p_method (c_parser req)"
    "c_url e = c_url req" "c_headers e = c_headers (snd (request_format req))" "c_body e = c_body req"
    using request_whole [OF assms(1) refl] by blast
  have "length ?d \<noteq> 0" using requests.good_length [of ?d] assms(1) by auto
  from http_seen_pos [OF assms(2) this, of e] e show ?thesis by auto
qed

lemma answer_of_cong:
  assumes "c_url e = c_url q" and "c_headers e = c_headers q" and "c_body e = c_body q"
  shows "answer_of g e = answer_of g q"
  using assms by (auto simp: answer_of_def getConnection_def split: option.splits)

lemma request_kept: "c_url (snd (request_format c)) = c_url c" "c_body (snd (request_format c)) = c_body c"
  by (simp_all add: request_format_def formatHeader_def request_keeps Let_def)

text \<open>
  C2: A call over HTTP from end to end.  The request that the client's \<open>doRequest\<close> sends arrives in any pieces, in events
  between which the network thread does other work; the last one hands it to the business threads, whose driver routes
  it by its path and answers with one message; and when that arrives in any pieces, \<open>doRequest\<close> returns 0 with
  status 200 and the body that the handler computed from the URL and the body of the request.
\<close>

theorem http_service_end_to_end:
  assumes req: "good_request req" "getUrl req = Ok u"
    and server: "awaits (http_seen HTTP_REQUEST) (bytes_of (fst (request_format req))) 0 k b n s"
      "in_pieces (bytes_of (fst (request_format req))) k b n 0 xs f"
    and route: "engine_get engine u = Some (answering g)"
    and answer: "ans = answer_of g (snd (request_format req))" "good_response ans"
    and client: "request_sent req l ssl es l'" "header_field resp = []" "room_for (length (fst (response_format ans))) buf"
  shows "\<exists>s1 s2 closing d. arrive http_driver_isFullPkt sb k xs s = Some (Ok s1) \<and>
    on_epoll_in http_driver_isFullPkt sb [Got f, RecvErr True] n now k s1 = Some (Ok s2) \<and>
    q_busi s2 = th_push_back b (q_busi s1) \<and>
    http_driver_handle engine dflt (nbufs s2 b) = Ok ([fst (response_format ans)], closing, d) \<and>
    (\<forall>fs. concat fs = bytes_of (fst (response_format ans)) \<and> (\<forall>g\<in>set fs. g \<noteq> []) \<longrightarrow>
      (\<exists>res. doRequest req resp l ssl es l' (map fragment fs) buf = Some (Ok res) \<and> iRet res = 0 \<and>
        p_status (c_parser (tResp res)) = 200 \<and> c_body (tResp res) = g (c_url req) (c_body req)))"
proof -
  let ?m = "bytes_of (fst (request_format req))"
  have m: "is_request ?m" using req(1) by (auto simp: is_request_def)
  note p = in_piecesD [OF server(2)]
  obtain s1 s2 where s12: "arrive http_driver_isFullPkt sb k xs s = Some (Ok s1)"
    "on_epoll_in http_driver_isFullPkt sb [Got f, RecvErr True] n now k s1 = Some (Ok s2)"
    "handed_over (http_seen HTTP_REQUEST) ?m k b s1 s2"
    using http_driver.request_arrives [OF m server(1) p] by blast
  have seen: "http_seen HTTP_REQUEST ?m (length (fst (request_format req))) (ctx (nbufs s2 b))"
    and q: "q_busi s2 = th_push_back b (q_busi s1)"
    using s12(3) by (simp_all add: handed_over_def)
  obtain e where e: "ctx (nbufs s2 b) = Some (Ok e)" "c_url e = c_url req" "c_body e = c_body req"
    "c_headers e = c_headers (snd (request_format req))"
    using request_context [OF req(1) seen] by blast
  have k: "c_url (snd (request_format req)) = c_url req" "c_body (snd (request_format req)) = c_body req"
    by (simp_all add: request_kept)
  have a: "answer_of g e = ans" using answer_of_cong [of e "snd (request_format req)"] e(2-4) k answer(1) by simp
  have "getUrl e = Ok u" using req(2) e(2) by (simp add: getUrl_def)
  from http_handle_answers [OF this route] obtain closing d where
    "http_handle engine dflt e = Ok ([fst (response_format ans)], closing, d)" unfolding a by blast
  then have "http_driver_handle engine dflt (nbufs s2 b) = Ok ([fst (response_format ans)], closing, d)"
    by (simp add: http_driver_handle_def e(1))
  moreover have "p_status (c_parser ans) = 200" "c_body ans = g (c_url req) (c_body req)"
    using answer(1) k by (simp_all add: answer_of_def setResponse_def)
  moreover note doRequest_returns [OF client(1,2) answer(2) client(3)]
  ultimately show ?thesis using s12(1,2) q by fastforce
qed

text \<open>
  C26: The driver for both protocols tells them apart: a packet whose first piece holds its header, and a request over HTTP
  in any pieces, are handed over whole, and the handler of the right protocol gets them.
\<close>

theorem proxy_tells_apart:
  assumes "awaits (\<lambda>_ _ a. a = None) m 0 k b n s" and "in_pieces m k b n (if is_frame m then 12 else 0) xs f"
    and "is_frame m \<or> is_request m"
  shows "\<exists>s1 s2. arrive proxy_isFullPkt sb k xs s = Some (Ok s1) \<and>
    on_epoll_in proxy_isFullPkt sb [Got f, RecvErr True] n now k s1 = Some (Ok s2) \<and>
    q_busi s2 = th_push_back b (q_busi s1) \<and> contents (recvData (nbufs s2 b)) = m \<and>
    proxy_handle peng heng dflt (nbufs s2 b) =
      (if is_frame m then Inr (pack_driver_handle id (Pair 0) peng (nbufs s2 b))
       else Inl (http_driver_handle heng dflt (nbufs s2 b)))"
proof (cases "is_frame m")
  case True
  with assms(2) have "in_pieces m k b n 12 xs f" by simp
  note p = in_piecesD [OF this]
  obtain s1 s2 where s: "arrive proxy_isFullPkt sb k xs s = Some (Ok s1)"
    "on_epoll_in proxy_isFullPkt sb [Got f, RecvErr True] n now k s1 = Some (Ok s2)"
    "handed_over (\<lambda>_ _ a. a = None) m k b s1 s2"
    using proxy_pack.request_arrives [OF True assms(1) p] by blast
  with True show ?thesis by (auto simp: handed_over_def Let_def proxy_handle_def)
next
  case False
  with assms(2,3) have h: "in_pieces m k b n 0 xs f" "is_request m" by simp_all
  note p = in_piecesD [OF h(1)]
  have "awaits (http_seen HTTP_REQUEST) m 0 k b n s" using assms(1) by (simp add: awaits_def http_seen_def)
  then obtain s1 s2 where s: "arrive proxy_isFullPkt sb k xs s = Some (Ok s1)"
    "on_epoll_in proxy_isFullPkt sb [Got f, RecvErr True] n now k s1 = Some (Ok s2)"
    "handed_over (http_seen HTTP_REQUEST) m k b s1 s2"
    using proxy_http.request_arrives [OF h(2) _ p] by blast
  have "ctx (nbufs s2 b) \<noteq> None"
    using s(3) proxy_http.size [OF h(2)] by (auto simp: handed_over_def http_seen_def)
  with False s show ?thesis by (auto simp: handed_over_def Let_def proxy_handle_def)
qed

section \<open>Requests that are no requests\<close>

text \<open>An empty buffer whose context the parser has left with an error.\<close>

definition poisoned :: "http_net_buf \<Rightarrow> bool" where
  "poisoned x \<longleftrightarrow> (\<exists>c. ctx x = Some (Ok c) \<and> p_errno (c_parser c) \<noteq> HPE_OK \<and> c_pos c = 0) \<and>
     (let r = recvData x in buf_wf r \<and> bmem r \<noteq> None \<and> unat (bcap r) < 2 ^ 31 \<and> blen r = 0)"

lemma ctx_execute_pos: "ctx_execute d c = Some (n, c') \<Longrightarrow> c_pos c' = c_pos c"
  by (auto simp: ctx_execute_def)

lemma look_refused:
  assumes "ctx_execute (chars_of (contents b)) c = Some (i, c')" and "i \<noteq> length (contents b)" and "c_pos c = 0"
    and "\<not> bempty b"
  shows "http_look t b (Some (Ok c)) = (- 1, Some (Ok c'))"
  using assms by (simp add: http_look_def http_result_def httpParse_def Let_def)

lemma look_poisoned:
  assumes "p_errno (c_parser c) \<noteq> HPE_OK" and "c_pos c = 0" and "\<not> bempty b" and "contents b \<noteq> []"
  shows "http_look t b (Some (Ok c)) = (- 1, Some (Ok c))"
  by (rule look_refused [OF _ _ assms(2,3)]) (use assms(1,4) in \<open>auto simp: ctx_execute_def http_parser_execute_def\<close>)

text \<open>What \<open>onEpollIn\<close> does with bytes that the driver refuses.\<close>

lemma refused_piece:
  assumes "awaits (\<lambda>_ _ _. True) f 0 k b n s" and "f \<noteq> []"
    and refused: "\<And>rd. contents rd = f \<Longrightarrow> \<not> bempty rd \<Longrightarrow> unat (blen rd) = length f \<Longrightarrow> ipf rd (ctx (nbufs s b)) = (- 1, a)"
  shows "\<exists>s1. on_epoll_in ipf sb [Got f, RecvErr True] n now k s = Some (Ok s1) \<and> q_busi s1 = q_busi s \<and>
    b \<in> set (q_items (q_idle s1)) \<and> ctx (nbufs s1 b) = a \<and>
    (let r = recvData (nbufs s1 b) in buf_wf r \<and> bmem r \<noteq> None \<and> unat (bcap r) < 2 ^ 31 \<and> blen r = 0)"
proof -
  obtain s1 e rd where ev: "on_epoll_in ipf sb [Got f, RecvErr True] n now k s =
      Some (Ok (after_recv ipf sb k e b 0 (upd_buf b (\<lambda>x. x\<lparr>recvData := rd\<rparr>) s1)))"
    and s1: "nbufs s1 = nbufs s" "q_busi s1 = q_busi s"
    and rd: "buf_wf rd" "bmem rd \<noteq> None" "unat (bcap rd) < 2 ^ 31" "contents rd = f" "unat (blen rd) = length f"
    using on_epoll_in_piece [OF assms(1,2), where ipf = ipf and sb = sb and now = now] by auto
  have ne: "blen rd \<noteq> 0" using rd(5) assms(2) by auto
  have "ipf rd (ctx (nbufs s b)) = (- 1, a)" using refused rd(4,5) ne by (simp add: bempty_def)
  then have "after_recv ipf sb k e b 0 (upd_buf b (\<lambda>x. x\<lparr>recvData := rd\<rparr>) s1) =
      give_back k e b (clear_recv b (upd_buf b (\<lambda>x. x\<lparr>ctx := a\<rparr>) (upd_buf b (\<lambda>x. x\<lparr>recvData := rd\<rparr>) s1)))"
    using ne s1(1) by (simp add: after_recv_def Let_def upd_buf_def word_sless_alt)
  with ev s1 rd(1-3) show ?thesis
    by (auto simp: give_back_def push_idle_def wq.push_items clear_recv_def upd_buf_def set_ep_def clear_buf_def buf_wf_def
        Let_def)
qed

text \<open>
  C13: Bytes that are no HTTP request cost the server one of its buffers for good.  The thread takes the buffer back, empty but
  with the context of the parser that has stopped; whatever connection takes the buffer next, and whatever arrives there,
  is refused in the same way, is never handed to a business thread, and leaves the buffer in the same condition.
\<close>

theorem malformed_request_poisons:
  assumes "awaits (\<lambda>_ _ a. a = None) f 0 k b n s" and "f \<noteq> []"
    and "ctx_execute (chars_of f) (new_ctx HTTP_REQUEST) = Some (i, c)" and "i \<noteq> length f" and "p_errno (c_parser c) \<noteq> HPE_OK"
  shows "(\<exists>s1. on_epoll_in http_driver_isFullPkt sb [Got f, RecvErr True] n now k s = Some (Ok s1) \<and>
      b \<in> set (q_items (q_idle s1)) \<and> poisoned (nbufs s1 b)) \<and>
    (\<forall>s2 k2 n2 now2 f2. poisoned (nbufs s2 b) \<and> awaits (\<lambda>_ _ _. True) f2 0 k2 b n2 s2 \<and> f2 \<noteq> [] \<longrightarrow>
      (\<exists>s3. on_epoll_in http_driver_isFullPkt sb [Got f2, RecvErr True] n2 now2 k2 s2 = Some (Ok s3) \<and>
        q_busi s3 = q_busi s2 \<and> b \<in> set (q_items (q_idle s3)) \<and> poisoned (nbufs s3 b)))"
proof (intro conjI allI impI)
  have none: "ctx (nbufs s b) = None" and aw: "awaits (\<lambda>_ _ _. True) f 0 k b n s"
    using assms(1) by (simp_all add: awaits_def)
  have pos: "c_pos (new_ctx HTTP_REQUEST) = 0" by (simp add: new_ctx_def ctx_init_def ctx_clear_def)
  have c: "c_pos c = 0" using ctx_execute_pos [OF assms(3)] pos by simp
  obtain s1 where "on_epoll_in http_driver_isFullPkt sb [Got f, RecvErr True] n now k s = Some (Ok s1)"
    "b \<in> set (q_items (q_idle s1))" "ctx (nbufs s1 b) = Some (Ok c)"
    "let r = recvData (nbufs s1 b) in buf_wf r \<and> bmem r \<noteq> None \<and> unat (bcap r) < 2 ^ 31 \<and> blen r = 0"
    using refused_piece [OF aw assms(2), where ipf = http_driver_isFullPkt and a = "Some (Ok c)" and sb = sb and now = now]
      look_refused [OF _ _ pos] assms(3,4) none by (auto simp: http_driver_isFullPkt_def http_look_None)
  with c assms(5) show "\<exists>s1. on_epoll_in http_driver_isFullPkt sb [Got f, RecvErr True] n now k s = Some (Ok s1) \<and>
      b \<in> set (q_items (q_idle s1)) \<and> poisoned (nbufs s1 b)" by (auto simp: poisoned_def)
next
  fix s2 k2 n2 now2 f2
  assume a: "poisoned (nbufs s2 b) \<and> awaits (\<lambda>_ _ _. True) f2 0 k2 b n2 s2 \<and> f2 \<noteq> []"
  then obtain c2 where c2: "ctx (nbufs s2 b) = Some (Ok c2)" "p_errno (c_parser c2) \<noteq> HPE_OK" "c_pos c2 = 0"
    by (auto simp: poisoned_def)
  obtain s3 where "on_epoll_in http_driver_isFullPkt sb [Got f2, RecvErr True] n2 now2 k2 s2 = Some (Ok s3)"
    "q_busi s3 = q_busi s2" "b \<in> set (q_items (q_idle s3))" "ctx (nbufs s3 b) = Some (Ok c2)"
    "let r = recvData (nbufs s3 b) in buf_wf r \<and> bmem r \<noteq> None \<and> unat (bcap r) < 2 ^ 31 \<and> blen r = 0"
    using refused_piece [of f2 k2 b n2 s2, where ipf = http_driver_isFullPkt and a = "Some (Ok c2)" and sb = sb and now = now2]
      look_poisoned [OF c2(2,3)] a c2(1) by (auto simp: http_driver_isFullPkt_def)
  with c2 show "\<exists>s3. on_epoll_in http_driver_isFullPkt sb [Got f2, RecvErr True] n2 now2 k2 s2 = Some (Ok s3) \<and>
      q_busi s3 = q_busi s2 \<and> b \<in> set (q_items (q_idle s3)) \<and> poisoned (nbufs s3 b)" by (auto simp: poisoned_def)
qed

text \<open>A first character that is no letter is refused at once.\<close>

lemma first_char_refused:
  assumes "\<not> IS_ALPHA ch" and "ch \<noteq> CR" and "ch \<noteq> LF"
  shows "\<exists>c. ctx_execute (ch # r) (new_ctx HTTP_REQUEST) = Some (0, c) \<and> p_errno (c_parser c) = HPE_INVALID_METHOD"
proof -
  let ?s = "exec_start (http_parser_init HTTP_REQUEST)"
  have s: "p_state ?s = s_start_req" "x_pos ?s = 0" "p_nread ?s = 0"
    by (simp_all add: exec_start_def http_parser.defs http_parser_init_def)
  have run: "run_char (ch # r) w = fail HPE_INVALID_METHOD (new_message_fields w)" if "p_state w = s_start_req" "x_pos w = 0" for w
    using that assms by (simp add: run_char.simps [of _ w] step_def step_start_req_def fail_def Let_def)
  have "\<exists>w. exec_loop (ch # r) ?s = Some (w, 0) \<and> p_errno w = HPE_INVALID_METHOD"
    using s run
    by (subst exec_loop.simps)
      (simp add: turn_def PARSING_HEADER_def count_header_def max_header_size_def fail_def new_message_fields_def Let_def)
  then have "\<exists>p cbs. http_parser_execute (http_parser_init HTTP_REQUEST) (ch # r) = Some (p, cbs, 0) \<and> p_errno p = HPE_INVALID_METHOD"
    by (auto simp: http_parser_execute_def http_parser_init_def http_parser.defs)
  moreover have "c_parser (new_ctx HTTP_REQUEST) = http_parser_init HTTP_REQUEST"
    by (simp add: new_ctx_def ctx_init_def ctx_clear_def)
  ultimately show ?thesis by (auto simp: ctx_execute_def)
qed

text \<open>
  C35: The driver for both protocols takes a packet whose first piece ends inside its header for a request over HTTP: the
  piece is refused, and from then on the buffer refuses whatever arrives in it, whole packets included.
\<close>

theorem proxy_short_header_poisons:
  assumes "awaits (\<lambda>_ _ a. a = None) f 0 k b n s" and "f = take i (frame cmd vs)" and "0 < i" and "i < 12"
  shows "(\<exists>s1. on_epoll_in proxy_isFullPkt sb [Got f, RecvErr True] n now k s = Some (Ok s1) \<and>
      b \<in> set (q_items (q_idle s1)) \<and> poisoned (nbufs s1 b)) \<and>
    (\<forall>s2 k2 n2 now2 f2. poisoned (nbufs s2 b) \<and> awaits (\<lambda>_ _ _. True) f2 0 k2 b n2 s2 \<and> f2 \<noteq> [] \<longrightarrow>
      (\<exists>s3. on_epoll_in proxy_isFullPkt sb [Got f2, RecvErr True] n2 now2 k2 s2 = Some (Ok s3) \<and>
        q_busi s3 = q_busi s2 \<and> b \<in> set (q_items (q_idle s3)) \<and> poisoned (nbufs s3 b)))"
proof (intro conjI allI impI)
  have none: "ctx (nbufs s b) = None" and aw: "awaits (\<lambda>_ _ _. True) f 0 k b n s"
    using assms(1) by (simp_all add: awaits_def)
  have pos: "c_pos (new_ctx HTTP_REQUEST) = 0" by (simp add: new_ctx_def ctx_init_def ctx_clear_def)
  have "frame cmd vs = 255 # tl (frame cmd vs)" by (simp add: frame_def header_bytes_def YS_PACK_HEADER_def le_bytes_numeral)
  then obtain r where f: "f = 255 # r" using assms(2,3) by (metis take_Cons' neq0_conv)
  have "\<not> IS_ALPHA (char_of (255 :: nat))" "char_of (255 :: nat) \<noteq> CR" "char_of (255 :: nat) \<noteq> LF" by code_simp+
  then obtain c where c: "ctx_execute (chars_of f) (new_ctx HTTP_REQUEST) = Some (0, c)" "p_errno (c_parser c) = HPE_INVALID_METHOD"
    using first_char_refused [of "char_of 255" "chars_of r"] by (auto simp: f chars_of_def)
  have len: "length f < 12" "f \<noteq> []" using assms(2,4) by simp (simp add: f)
  have "proxy_isFullPkt rd None = (- 1, Some (Ok c))" if rd: "contents rd = f" "\<not> bempty rd" "unat (blen rd) = length f" for rd
  proof -
    have "isFullPkt rd = - 1"
      using rd len(1) by (simp add: isFullPkt_def Let_def word_less_nat_alt headerLen_def)
    moreover have "http_look HTTP_REQUEST rd (Some (Ok (new_ctx HTTP_REQUEST))) = (- 1, Some (Ok c))"
      by (rule look_refused [OF _ _ pos rd(2)]) (use rd(1) c(1) len(2) in auto)
    ultimately show ?thesis by (simp add: proxy_isFullPkt_def http_look_None word_sless_alt)
  qed
  then obtain s1 where "on_epoll_in proxy_isFullPkt sb [Got f, RecvErr True] n now k s = Some (Ok s1)"
    "b \<in> set (q_items (q_idle s1))" "ctx (nbufs s1 b) = Some (Ok c)"
    "let r = recvData (nbufs s1 b) in buf_wf r \<and> bmem r \<noteq> None \<and> unat (bcap r) < 2 ^ 31 \<and> blen r = 0"
    using refused_piece [OF aw len(2), where ipf = proxy_isFullPkt and a = "Some (Ok c)" and sb = sb and now = now] none by auto
  with c(2) ctx_execute_pos [OF c(1)] pos show "\<exists>s1. on_epoll_in proxy_isFullPkt sb [Got f, RecvErr True] n now k s = Some (Ok s1) \<and>
      b \<in> set (q_items (q_idle s1)) \<and> poisoned (nbufs s1 b)" by (auto simp: poisoned_def)
next
  fix s2 k2 n2 now2 f2
  assume a: "poisoned (nbufs s2 b) \<and> awaits (\<lambda>_ _ _. True) f2 0 k2 b n2 s2 \<and> f2 \<noteq> []"
  then obtain c2 where c2: "ctx (nbufs s2 b) = Some (Ok c2)" "p_errno (c_parser c2) \<noteq> HPE_OK" "c_pos c2 = 0"
    by (auto simp: poisoned_def)
  obtain s3 where "on_epoll_in proxy_isFullPkt sb [Got f2, RecvErr True] n2 now2 k2 s2 = Some (Ok s3)"
    "q_busi s3 = q_busi s2" "b \<in> set (q_items (q_idle s3))" "ctx (nbufs s3 b) = Some (Ok c2)"
    "let r = recvData (nbufs s3 b) in buf_wf r \<and> bmem r \<noteq> None \<and> unat (bcap r) < 2 ^ 31 \<and> blen r = 0"
    using refused_piece [of f2 k2 b n2 s2, where ipf = proxy_isFullPkt and a = "Some (Ok c2)" and sb = sb and now = now2]
      look_poisoned [OF c2(2,3)] a c2(1) by (auto simp: proxy_isFullPkt_def)
  with c2 show "\<exists>s3. on_epoll_in proxy_isFullPkt sb [Got f2, RecvErr True] n2 now2 k2 s2 = Some (Ok s3) \<and>
      q_busi s3 = q_busi s2 \<and> b \<in> set (q_items (q_idle s3)) \<and> poisoned (nbufs s3 b)" by (auto simp: poisoned_def)
qed

section \<open>Instances\<close>

text \<open>A thread with one idle buffer and one connection, descriptor 5, that waits for a request.\<close>

definition one_waiting :: "ys_buf \<Rightarrow> ys_buf \<Rightarrow> 'c net_th" where
  "one_waiting r d =
     (net_empty \<lparr>recvData = r, sendData = d, refSock = None, tid = 0, ctx = None, cbBusiFinal = False\<rparr>)
       \<lparr>q_idle := th_push_back 0 th_new, conns := \<lparr>conn_mp = [(5, new_ep_data 7)], conn_tmout = 0\<rparr>\<rparr>"

lemma one_waiting_awaits:
  assumes "buf_wf r" and "bmem r \<noteq> None" and "unat (bcap r) < 2 ^ 31" and "length m < unat (bcap r)" and "blen r = 0"
    and "seen m 0 None"
  shows "awaits seen m 0 5 0 0 (one_waiting r d)"
  using assms
  by (simp add: awaits_def one_waiting_def net_empty_def conn_find_def new_ep_data_def th_pop_wait_def th_push_back_def
      th_new_def has_notify_def contents_def Let_def split: option.splits)

lemma one_waiting_fields:
  "sendData (nbufs (one_waiting r d) b) = d" "cbBusiFinal (nbufs (one_waiting r d) b) = False"
  by (simp_all add: one_waiting_def net_empty_def)

definition two_pieces :: "nat \<Rightarrow> bytes \<Rightarrow> (nat \<times> u64 \<times> bytes \<times> ('c net_th \<Rightarrow> 'c net_th)) list" where
  "two_pieces i m = [(0, 0, take i m, id)]"

lemma two_pieces_in:
  "0 < i \<Longrightarrow> i < length m \<Longrightarrow> hdr \<le> i \<Longrightarrow> in_pieces m k b 0 hdr (two_pieces i m) (drop i m)"
  by (auto simp: in_pieces_def two_pieces_def elsewhere_def)

theorem pack_service_end_to_end_witness:
  "\<exists>s1 s2. arrive pack_driver_isFullPkt False 5 (two_pieces 13 (frame 5 ping)) (one_waiting blank_buf blank_buf :: unit net_th) =
      Some (Ok s1) \<and>
    on_epoll_in pack_driver_isFullPkt False [Got (drop 13 (frame 5 ping)), RecvErr True] 0 9 5 s1 = Some (Ok s2) \<and>
    (q_items (q_busi s1) = [] \<longrightarrow>
      (\<exists>e s3. conn_find 5 (conns s2) = Some e \<and> task_done (pack_driver_handle id (Pair 0) (new_engine [(5, Some (pack_proc [TU32] (\<lambda>_. (0, pong))))])) False
          (sent_all (frame 5 pong)) 0 (task_take (q_lock (q_busi s1)) 1 s2) = Some (Ok (s3, esock e, frame 5 pong)) \<and>
        0 \<in> set (q_items (q_idle s3)) \<and> blen (recvData (nbufs s3 0)) = 0 \<and> blen (sendData (nbufs s3 0)) = 0)) \<and>
    (\<forall>fs. concat fs = frame 5 pong \<and> (\<forall>g\<in>set fs. g \<noteq> []) \<and> 12 \<le> length (hd fs) \<longrightarrow>
      (\<exists>cb'. recv_resp (Pair 0) [TU8, TU8] ready_link (map fragment fs) blank_buf = Some (Ok (0, pong, cb'))))"
proof -
  have aw: "awaits (\<lambda>_ _ _. True) (frame 5 ping) 0 5 0 0 (one_waiting blank_buf blank_buf :: unit net_th)"
    by (rule one_waiting_awaits) (simp_all add: blank_buf_wf blank_buf_mem ping_pong_images, simp_all add: blank_buf_def)
  have send: "socket_send False (frame 5 pong) (sent_all (frame 5 pong)) = Some (14, frame 5 pong)"
    by (simp add: socket_send_def sent_all_def ping_pong_images word_sless_alt)
  have pieces: "in_pieces (frame 5 ping) 5 0 0 12 (two_pieces 13 (frame 5 ping)) (drop 13 (frame 5 ping))"
    by (rule two_pieces_in) (simp_all add: ping_pong_images)
  have blank: "bmem blank_buf = Some (replicate 64 0)" "blen blank_buf = 0" "unat (bcap blank_buf) = 64"
    by (simp_all add: blank_buf_def)
  have link: "\<not> num ready_link <=s 0" "ev ready_link AND EPOLLIN \<noteq> 0" by (simp_all add: ready_link_def EPOLLIN_def word_sle_eq)
  have eng: "engine_get (new_engine [(5, Some (pack_proc [TU32] (\<lambda>_. (0, pong))))]) 5 = Some (pack_proc [TU32] (\<lambda>_. (0, pong)))"
    by (simp add: engine_get_new)
  show ?thesis
    by (rule pack_service_end_to_end [OF ping_pong_codable(1) _ aw pieces _ eng _ _ _ _ _ send ping_pong_codable(2)])
      (simp_all only: one_waiting_fields blank blank_buf_wf blank_buf_mem ping_pong_images link, simp_all)
qed

text \<open>A handler that answers with the body of the request.\<close>

definition roomy_buf :: ys_buf where
  "roomy_buf = \<lparr>bmem = Some (replicate (Suc max_header_size) 0), blen = 0, bcap = of_nat (Suc max_header_size)\<rparr>"

lemma roomy_buf_room: "buf_wf roomy_buf" "bmem roomy_buf \<noteq> None" "unat (bcap roomy_buf) = Suc max_header_size" "blen roomy_buf = 0"
  by (simp_all add: roomy_buf_def buf_wf_def max_header_size_def unat_of_nat)

definition echoed :: http_ctx where "echoed = answer_of (\<lambda>u b. b) (snd (request_format sample_post))"

lemma echoed_good: "good_response echoed"
proof -
  have "p_status (c_parser echoed) = 200" by code_simp
  moreover have "plain_headers echoed" by code_simp
  moreover have "headers_ok echoed"
    by (simp add: echoed_def answer_of_def headers_ok_body setConnection_def updateHeader_def headers_ok_set headers_ok_del headers_ok_new)
  moreover have "length (fst (response_format echoed)) \<le> 200" by code_simp
  ultimately show ?thesis by (simp add: good_response_def max_header_size_def)
qed

theorem http_service_end_to_end_witness:
  "\<exists>s1 s2 closing d. arrive http_driver_isFullPkt False 5 (two_pieces 3 (bytes_of (fst (request_format sample_post))))
      (one_waiting roomy_buf blank_buf) = Some (Ok s1) \<and>
    on_epoll_in http_driver_isFullPkt False [Got (drop 3 (bytes_of (fst (request_format sample_post)))), RecvErr True] 0 9 5 s1 =
      Some (Ok s2) \<and>
    q_busi s2 = th_push_back 0 (q_busi s1) \<and>
    http_driver_handle (new_engine [(''/form'', Some (answering (\<lambda>u b. b)))]) None (nbufs s2 0) =
      Ok ([fst (response_format echoed)], closing, d) \<and>
    (\<forall>fs. concat fs = bytes_of (fst (response_format echoed)) \<and> (\<forall>g\<in>set fs. g \<noteq> []) \<longrightarrow>
      (\<exists>res. doRequest sample_post (new_ctx HTTP_RESPONSE) ready_link False
            (sent_all (bytes_of (fst (request_format sample_post)))) ready_link (map fragment fs) big_buf = Some (Ok res) \<and>
        iRet res = 0 \<and> p_status (c_parser (tResp res)) = 200 \<and> c_body (tResp res) = c_body sample_post))"
proof -
  have url: "getUrl sample_post = Ok ''/form''" by code_simp
  have long: "3 < length (bytes_of (fst (request_format sample_post)))"
    by (simp add: request_format_def formatHeader_def Let_def)
  have aw: "awaits (http_seen HTTP_REQUEST) (bytes_of (fst (request_format sample_post))) 0 5 0 0 (one_waiting roomy_buf blank_buf)"
    by (rule one_waiting_awaits [OF roomy_buf_room(1,2) _ _ roomy_buf_room(4)])
      (use sample_post_length roomy_buf_room(3) in \<open>simp_all add: http_seen_def max_header_size_def\<close>)
  have eng: "engine_get (new_engine [(''/form'', Some (answering (\<lambda>u b. b)))]) ''/form'' = Some (answering (\<lambda>u b. b))"
    by (simp add: engine_get_new)
  have room: "length (fst (response_format echoed)) \<le> max_header_size" using echoed_good by (simp add: good_response_def)
  show ?thesis
    by (rule http_service_end_to_end [OF sample_post_good url aw two_pieces_in [OF _ long] eng echoed_def echoed_good
        sample_post_sent new_header_field big_room [OF room]]) simp_all
qed

lemma ping_is_frame: "is_frame (frame 5 ping)"
  by (auto simp: is_frame_def ping_pong_images intro!: exI [of _ 5] exI [of _ ping])

lemma blank_awaits:
  assumes "length m < 64" and "seen m 0 None"
  shows "awaits seen m 0 5 0 0 (one_waiting blank_buf d)"
proof (rule one_waiting_awaits [OF blank_buf_wf])
  show "seen m 0 None" by (rule assms(2))
  show "bmem blank_buf \<noteq> None" "unat (bcap blank_buf) < 2 ^ 31" "length m < unat (bcap blank_buf)" "blen blank_buf = 0"
    using assms(1) by (simp_all add: blank_buf_def)
qed

theorem proxy_tells_apart_witness:
  "\<exists>s1 s2. arrive proxy_isFullPkt False 5 (two_pieces 13 (frame 5 ping)) (one_waiting blank_buf blank_buf) = Some (Ok s1) \<and>
    on_epoll_in proxy_isFullPkt False [Got (drop 13 (frame 5 ping)), RecvErr True] 0 9 5 s1 = Some (Ok s2) \<and>
    q_busi s2 = th_push_back 0 (q_busi s1) \<and> contents (recvData (nbufs s2 0)) = frame 5 ping \<and>
    proxy_handle (new_engine []) (new_engine []) None (nbufs s2 0) =
      Inr (pack_driver_handle id (Pair 0) (new_engine []) (nbufs s2 0))"
proof -
  have aw: "awaits (\<lambda>_ _ a. a = None) (frame 5 ping) 0 5 0 0 (one_waiting blank_buf blank_buf :: (unit, http_ctx) outcome net_th)"
    by (rule blank_awaits) (simp_all add: ping_pong_images)
  have "in_pieces (frame 5 ping) 5 0 0 (if is_frame (frame 5 ping) then 12 else 0) (two_pieces 13 (frame 5 ping) ::
      (nat \<times> u64 \<times> bytes \<times> ((unit, http_ctx) outcome net_th \<Rightarrow> (unit, http_ctx) outcome net_th)) list) (drop 13 (frame 5 ping))"
    by (rule two_pieces_in) (simp_all add: ping_pong_images)
  from proxy_tells_apart [OF aw this, where sb = False and now = 9 and peng = "new_engine []" and heng = "new_engine []" and dflt = None]
  show ?thesis by (simp add: ping_is_frame)
qed

text \<open>One byte, 255, is no request.\<close>

theorem malformed_request_poisons_witness:
  "\<exists>s1. on_epoll_in http_driver_isFullPkt False [Got [255], RecvErr True] 0 9 5 (one_waiting blank_buf blank_buf) = Some (Ok s1) \<and>
      0 \<in> set (q_items (q_idle s1)) \<and> poisoned (nbufs s1 0)"
proof -
  have aw: "awaits (\<lambda>_ _ a. a = None) [255] 0 5 0 0 (one_waiting blank_buf blank_buf :: (unit, http_ctx) outcome net_th)"
    by (rule blank_awaits) simp_all
  have "\<not> IS_ALPHA (char_of (255 :: nat))" "char_of (255 :: nat) \<noteq> CR" "char_of (255 :: nat) \<noteq> LF" by code_simp+
  then obtain c where c: "ctx_execute (chars_of [255]) (new_ctx HTTP_REQUEST) = Some (0, c)" "p_errno (c_parser c) = HPE_INVALID_METHOD"
    using first_char_refused [of "char_of 255" "[]"] by (auto simp: chars_of_def)
  show ?thesis by (rule malformed_request_poisons [OF aw _ c(1), THEN conjunct1]) (simp_all add: c(2))
qed

theorem proxy_short_header_poisons_witness:
  "\<exists>s1. on_epoll_in proxy_isFullPkt False [Got (take 4 (frame 5 ping)), RecvErr True] 0 9 5 (one_waiting blank_buf blank_buf) =
        Some (Ok s1) \<and>
      0 \<in> set (q_items (q_idle s1)) \<and> poisoned (nbufs s1 0)"
  by (rule proxy_short_header_poisons [OF blank_awaits refl, THEN conjunct1]) simp_all

end
