(* ===== verification/Ys_HttpUrl.thy ===== *)
theory Ys_HttpUrl
  imports Ys_HttpSafe
begin

text \<open>
  \<open>isaac/ys_http_parser_ex.h\<close>: \<open>http_parser_parse_url\<close>, which finds the parts of a URL in place.  The parts
  are offsets and lengths of 16 bits; a failed assertion is \<open>Undef\<close>.
\<close>

section \<open>The two scanners\<close>

datatype url_field = UF_SCHEMA | UF_HOST | UF_PORT | UF_PATH | UF_QUERY | UF_FRAGMENT | UF_USERINFO

record http_parser_url =
  field_set :: "url_field set"
  u_port :: u16
  u_off :: "url_field \<Rightarrow> u16"
  u_len :: "url_field \<Rightarrow> u16"

definition http_parser_url_init :: http_parser_url where
  "http_parser_url_init = \<lparr>field_set = {}, u_port = 0, u_off = (\<lambda>f. 0), u_len = (\<lambda>f. 0)\<rparr>"

definition set_off :: "url_field \<Rightarrow> u16 \<Rightarrow> http_parser_url \<Rightarrow> http_parser_url" where
  "set_off f v u = u\<lparr>u_off := (u_off u)(f := v)\<rparr>"

definition set_len :: "url_field \<Rightarrow> u16 \<Rightarrow> http_parser_url \<Rightarrow> http_parser_url" where
  "set_len f v u = u\<lparr>u_len := (u_len u)(f := v)\<rparr>"

definition add_field :: "url_field \<Rightarrow> http_parser_url \<Rightarrow> http_parser_url" where
  "add_field f u = u\<lparr>field_set := insert f (field_set u)\<rparr>"

definition grow :: "url_field \<Rightarrow> http_parser_url \<Rightarrow> http_parser_url" where
  "grow f u = set_len f (u_len u f + 1) u"

fun url_field_of :: "http_state \<Rightarrow> url_field option" where
  "url_field_of s_req_schema = Some UF_SCHEMA"
| "url_field_of s_req_server_with_at = Some UF_HOST"
| "url_field_of s_req_server = Some UF_HOST"
| "url_field_of s_req_path = Some UF_PATH"
| "url_field_of s_req_query_string = Some UF_QUERY"
| "url_field_of s_req_fragment = Some UF_FRAGMENT"
| "url_field_of _ = None"

definition url_delims :: "http_state set" where
  "url_delims = {s_req_schema_slash, s_req_schema_slash_slash, s_req_server_start, s_req_query_string_start,
     s_req_fragment_start}"

text \<open>The loop over the URL from offset \<open>i\<close> on; \<open>None\<close> is the result 1.\<close>

fun url_loop :: "string \<Rightarrow> nat \<Rightarrow> http_state \<Rightarrow> url_field option \<Rightarrow> bool \<Rightarrow> http_parser_url \<Rightarrow>
    (unit, (http_parser_url \<times> bool) option) outcome" where
  "url_loop [] i s old_uf found_at u = Ok (Some (u, found_at))"
| "url_loop (ch # cs) i s old_uf found_at u =
     (let s = parse_url_char s ch in
      if s = s_dead then Ok None
      else if s \<in> url_delims then url_loop cs (i + 1) s old_uf found_at u
      else case url_field_of s of
        None \<Rightarrow> Undef
      | Some uf \<Rightarrow>
          let found_at = (found_at \<or> s = s_req_server_with_at) in
          if old_uf = Some uf then url_loop cs (i + 1) s old_uf found_at (grow uf u)
          else url_loop cs (i + 1) s (Some uf) found_at (add_field uf (set_len uf 1 (set_off uf (of_nat i) u))))"

datatype http_host_state =
    s_http_host_dead | s_http_userinfo_start | s_http_userinfo | s_http_host_start | s_http_host_v6_start
  | s_http_host | s_http_host_v6 | s_http_host_v6_end | s_http_host_v6_zone_start | s_http_host_v6_zone
  | s_http_host_port_start | s_http_host_port

definition IS_HOST_CHAR :: "char \<Rightarrow> bool" where
  "IS_HOST_CHAR c \<longleftrightarrow> IS_ALPHANUM c \<or> c = CHR ''.'' \<or> c = CHR ''-''"

definition IS_HEX :: "char \<Rightarrow> bool" where "IS_HEX c \<longleftrightarrow> is_digit c \<or> (97 \<le> LOWER c \<and> LOWER c \<le> 102)"

definition http_parse_host_char :: "http_host_state \<Rightarrow> char \<Rightarrow> http_host_state" where
  "http_parse_host_char s ch =
     (let v6_end = (if ch = CHR '':'' then s_http_host_port_start else s_http_host_dead);
          zone = (if IS_ALPHANUM ch \<or> ch = CHR ''%'' \<or> ch = CHR ''.'' \<or> ch = CHR ''-'' \<or> ch = CHR ''_'' \<or> ch = CHR ''~''
                  then s_http_host_v6_zone else s_http_host_dead);
          v6_start = (if IS_HEX ch \<or> ch = CHR '':'' \<or> ch = CHR ''.'' then s_http_host_v6
                      else if s = s_http_host_v6 \<and> ch = CHR ''%'' then s_http_host_v6_zone_start else s_http_host_dead);
          info = (if ch = CHR ''@'' then s_http_host_start
                  else if IS_USERINFO_CHAR ch then s_http_userinfo else s_http_host_dead);
          port = (if is_digit ch then s_http_host_port else s_http_host_dead)
      in case s of
        s_http_userinfo \<Rightarrow> info
      | s_http_userinfo_start \<Rightarrow> info
      | s_http_host_start \<Rightarrow>
          (if ch = CHR ''['' then s_http_host_v6_start else if IS_HOST_CHAR ch then s_http_host else s_http_host_dead)
      | s_http_host \<Rightarrow> (if IS_HOST_CHAR ch then s_http_host else v6_end)
      | s_http_host_v6_end \<Rightarrow> v6_end
      | s_http_host_v6 \<Rightarrow> (if ch = CHR '']'' then s_http_host_v6_end else v6_start)
      | s_http_host_v6_start \<Rightarrow> v6_start
      | s_http_host_v6_zone \<Rightarrow> (if ch = CHR '']'' then s_http_host_v6_end else zone)
      | s_http_host_v6_zone_start \<Rightarrow> zone
      | s_http_host_port \<Rightarrow> port
      | s_http_host_port_start \<Rightarrow> port
      | s_http_host_dead \<Rightarrow> s_http_host_dead)"

text \<open>What a character does to the fields, given the state before and after it.\<close>

definition host_step :: "nat \<Rightarrow> http_host_state \<Rightarrow> http_host_state \<Rightarrow> http_parser_url \<Rightarrow> http_parser_url" where
  "host_step i s new_s u =
     (case new_s of
        s_http_host \<Rightarrow> grow UF_HOST (if s \<noteq> s_http_host then set_off UF_HOST (of_nat i) u else u)
      | s_http_host_v6 \<Rightarrow> grow UF_HOST (if s \<noteq> s_http_host_v6 then set_off UF_HOST (of_nat i) u else u)
      | s_http_host_v6_zone_start \<Rightarrow> grow UF_HOST u
      | s_http_host_v6_zone \<Rightarrow> grow UF_HOST u
      | s_http_host_port \<Rightarrow>
          grow UF_PORT (if s \<noteq> s_http_host_port then add_field UF_PORT (set_len UF_PORT 0 (set_off UF_PORT (of_nat i) u)) else u)
      | s_http_userinfo \<Rightarrow>
          grow UF_USERINFO
            (if s \<noteq> s_http_userinfo then add_field UF_USERINFO (set_len UF_USERINFO 0 (set_off UF_USERINFO (of_nat i) u)) else u)
      | _ \<Rightarrow> u)"

fun host_loop :: "string \<Rightarrow> nat \<Rightarrow> http_host_state \<Rightarrow> http_parser_url \<Rightarrow> (http_host_state \<times> http_parser_url) option" where
  "host_loop [] i s u = Some (s, u)"
| "host_loop (ch # cs) i s u =
     (let new_s = http_parse_host_char s ch in
      if new_s = s_http_host_dead then None else host_loop cs (i + 1) new_s (host_step i s new_s u))"

definition host_ends :: "http_host_state set" where
  "host_ends = {s_http_host_start, s_http_host_v6_start, s_http_host_v6, s_http_host_v6_zone_start, s_http_host_v6_zone,
     s_http_host_port_start, s_http_userinfo, s_http_userinfo_start}"

definition field_text :: "string \<Rightarrow> url_field \<Rightarrow> http_parser_url \<Rightarrow> string" where
  "field_text buf f u = take (unat (u_len u f)) (drop (unat (u_off u f)) buf)"

definition http_parse_host :: "string \<Rightarrow> http_parser_url \<Rightarrow> bool \<Rightarrow> (unit, http_parser_url option) outcome" where
  "http_parse_host buf u found_at =
     (if UF_HOST \<notin> field_set u then Undef
      else Ok (case host_loop (field_text buf UF_HOST u) (unat (u_off u UF_HOST))
          (if found_at then s_http_userinfo_start else s_http_host_start) (set_len UF_HOST 0 u) of
          None \<Rightarrow> None
        | Some (s, u1) \<Rightarrow> if s \<in> host_ends then None else Some u1))"

fun port_loop :: "string \<Rightarrow> u64 \<Rightarrow> u64 option" where
  "port_loop [] v = Some v"
| "port_loop (c # cs) v =
     (let v = v * 10 + (of_nat (chcode c) - 48) in if 0xffff < v then None else port_loop cs v)"

text \<open>The result 1 is \<open>Ok None\<close>, the result 0 \<open>Ok (Some u)\<close>.\<close>

definition http_parser_parse_url :: "string \<Rightarrow> bool \<Rightarrow> http_parser_url \<Rightarrow> (unit, http_parser_url option) outcome" where
  "http_parser_parse_url buf is_connect u =
     (if buf = [] then Ok None
      else bindO (url_loop buf 0 (if is_connect then s_req_server_start else s_req_spaces_before_url) None False
          (u\<lparr>u_port := 0, field_set := {}\<rparr>)) (\<lambda>r. case r of
        None \<Rightarrow> Ok None
      | Some (u1, found_at) \<Rightarrow>
          if UF_SCHEMA \<in> field_set u1 \<and> UF_HOST \<notin> field_set u1 then Ok None
          else bindO (if UF_HOST \<in> field_set u1 then http_parse_host buf u1 found_at else Ok (Some u1)) (\<lambda>r2. case r2 of
            None \<Rightarrow> Ok None
          | Some u2 \<Rightarrow>
              if is_connect \<and> field_set u2 \<noteq> {UF_HOST, UF_PORT} then Ok None
              else if UF_PORT \<in> field_set u2
                then if length buf < unat (u_off u2 UF_PORT) + unat (u_len u2 UF_PORT) then Undef
                  else (case port_loop (field_text buf UF_PORT u2) 0 of
                      None \<Rightarrow> Ok None
                    | Some v \<Rightarrow> Ok (Some (u2\<lparr>u_port := ucast v\<rparr>)))
                else Ok (Some u2))))"

lemmas field_defs = set_off_def set_len_def add_field_def grow_def

section \<open>The parts lie in the URL\<close>

definition inside :: "nat \<Rightarrow> url_field \<Rightarrow> http_parser_url \<Rightarrow> bool" where
  "inside n f u \<longleftrightarrow> unat (u_off u f) + unat (u_len u f) \<le> n"

lemma inside_mono: "inside n f u \<Longrightarrow> n \<le> m \<Longrightarrow> inside m f u" by (simp add: inside_def)

lemma inside_Suc: "inside n f u \<Longrightarrow> inside (Suc n) f u" by (simp add: inside_def)

lemma unat_u16: "n < 65536 \<Longrightarrow> unat (of_nat n :: u16) = n" by (simp add: unat_of_nat)

lemma unat_u16_inc: "unat (v :: u16) < 65535 \<Longrightarrow> unat (v + 1) = unat v + 1"
  by (simp add: unat_word_ariths)

lemma inside_grow: "inside n f u \<Longrightarrow> n < 65535 \<Longrightarrow> inside (n + 1) g (grow f u) \<longleftrightarrow> g = f \<or> inside (n + 1) g u"
  by (auto simp: inside_def field_defs unat_u16_inc)

lemma inside_fresh:
  "n < 65535 \<Longrightarrow> inside (n + 1) g (add_field f (set_len f 1 (set_off f (of_nat n) u))) \<longleftrightarrow> g = f \<or> inside (n + 1) g u"
  "n < 65535 \<Longrightarrow> inside n g (add_field f (set_len f 0 (set_off f (of_nat n) u))) \<longleftrightarrow> g = f \<or> inside n g u"
  by (auto simp: inside_def field_defs unat_u16)

lemma url_field_states: "s \<in> url_states \<Longrightarrow> s \<notin> url_delims \<Longrightarrow> \<exists>f. url_field_of s = Some f \<and> f \<notin> {UF_PORT, UF_USERINFO}"
  by (auto simp: url_states_def url_delims_def)

lemma url_loop_inside:
  assumes "i + length cs \<le> 65535" and "\<forall>f \<in> field_set u. inside i f u \<and> f \<notin> {UF_PORT, UF_USERINFO}"
    and "\<forall>f. old = Some f \<longrightarrow> f \<in> field_set u"
  shows "\<exists>r. url_loop cs i s old fa u = Ok r \<and> (\<forall>u' fa'. r = Some (u', fa') \<longrightarrow>
    (\<forall>f \<in> field_set u'. inside (i + length cs) f u' \<and> f \<notin> {UF_PORT, UF_USERINFO}))"
  using assms
proof (induction cs arbitrary: i s old fa u)
  case (Cons ch cs)
  let ?s = "parse_url_char s ch"
  have i: "i < 65535" "Suc i + length cs \<le> 65535" using Cons.prems(1) by simp_all
  have mono: "\<forall>f \<in> field_set u. inside (Suc i) f u \<and> f \<notin> {UF_PORT, UF_USERINFO}"
    using Cons.prems(2) by (auto intro: inside_mono)
  consider "?s = s_dead" | "?s \<in> url_delims" "?s \<noteq> s_dead" | f where "?s \<noteq> s_dead" "?s \<notin> url_delims"
      "url_field_of ?s = Some f" "f \<notin> {UF_PORT, UF_USERINFO}"
    using parse_url_char_state [of s ch] url_field_states [of ?s] by blast
  then show ?case
  proof cases
    case 2
    then show ?thesis using Cons.IH [OF i(2) mono Cons.prems(3)] by simp
  next
    case 3
    let ?fa = "fa \<or> ?s = s_req_server_with_at"
    show ?thesis
    proof (cases "old = Some f")
      case True
      have "\<forall>g \<in> field_set (grow f u). inside (Suc i) g (grow f u) \<and> g \<notin> {UF_PORT, UF_USERINFO}"
        using Cons.prems(2,3) mono True inside_grow [of i f u] i(1) by (auto simp: grow_def set_len_def)
      moreover have "\<forall>g. old = Some g \<longrightarrow> g \<in> field_set (grow f u)"
        using Cons.prems(3) by (simp add: grow_def set_len_def)
      ultimately show ?thesis using Cons.IH [OF i(2), of "grow f u" old ?s ?fa] 3 True by (simp add: Let_def)
    next
      case False
      let ?u = "add_field f (set_len f 1 (set_off f (of_nat i) u))"
      have fs: "field_set ?u = insert f (field_set u)" by (simp add: field_defs)
      have "\<forall>g \<in> field_set ?u. inside (Suc i) g ?u \<and> g \<notin> {UF_PORT, UF_USERINFO}"
        using mono inside_fresh(1) [OF i(1), of _ f u] 3(4) unfolding fs by auto
      then show ?thesis using Cons.IH [OF i(2), of ?u "Some f" ?s ?fa] 3 False fs by (simp add: Let_def)
    qed
  qed simp
qed simp

definition host_inv :: "nat \<Rightarrow> nat \<Rightarrow> http_host_state \<Rightarrow> http_parser_url \<Rightarrow> bool" where
  "host_inv n i s u \<longleftrightarrow>
     (\<forall>f \<in> field_set u. inside n f u) \<and> UF_HOST \<in> field_set u \<and>
     (\<forall>f \<in> {UF_HOST, UF_PORT, UF_USERINFO} \<inter> field_set u. inside i f u) \<and>
     (s = s_http_host_port \<longrightarrow> UF_PORT \<in> field_set u) \<and> (s = s_http_userinfo \<longrightarrow> UF_USERINFO \<in> field_set u) \<and>
     (s \<in> {s_http_userinfo_start, s_http_userinfo, s_http_host_start, s_http_host_v6_start} \<longrightarrow> u_len u UF_HOST = 0)"

lemma host_char_before:
  "http_parse_host_char s ch = s_http_host \<Longrightarrow> s = s_http_host_start \<or> s = s_http_host"
  "http_parse_host_char s ch = s_http_host_v6 \<Longrightarrow> s = s_http_host_v6_start \<or> s = s_http_host_v6"
  "http_parse_host_char s ch = s_http_host_v6_start \<Longrightarrow> s = s_http_host_start"
  "http_parse_host_char s ch = s_http_host_start \<Longrightarrow> s = s_http_userinfo \<or> s = s_http_userinfo_start"
  "http_parse_host_char s ch = s_http_userinfo \<Longrightarrow> s = s_http_userinfo \<or> s = s_http_userinfo_start"
  "http_parse_host_char s ch \<noteq> s_http_userinfo_start"
  by (cases s; auto simp: http_parse_host_char_def Let_def split: if_splits)+

lemma inside_simps:
  "f \<noteq> g \<Longrightarrow> inside n g (set_off f v u) = inside n g u" "f \<noteq> g \<Longrightarrow> inside n g (set_len f v u) = inside n g u"
  "f \<noteq> g \<Longrightarrow> inside n g (grow f u) = inside n g u" "inside n g (add_field f u) = inside n g u"
  "field_set (set_off f v u) = field_set u" "field_set (set_len f v u) = field_set u" "field_set (grow f u) = field_set u"
  "field_set (add_field f u) = insert f (field_set u)"
  "f \<noteq> g \<Longrightarrow> u_len (grow f u) g = u_len u g" "u_len (set_off f v u) g = u_len u g" "u_len (add_field f u) g = u_len u g"
  "f \<noteq> g \<Longrightarrow> u_len (set_len f v u) g = u_len u g"
  by (auto simp: inside_def field_defs)

lemma inside_set_off: "i < 65536 \<Longrightarrow> u_len u f = 0 \<Longrightarrow> inside i f (set_off f (of_nat i) u)"
  by (simp add: inside_def field_defs unat_u16)

lemma inside_fresh0: "i < 65536 \<Longrightarrow> inside i f (set_len f 0 (set_off f (of_nat i) u))"
  by (simp add: inside_def field_defs unat_u16)

lemma inside_grow_self: "inside i f u \<Longrightarrow> i < 65535 \<Longrightarrow> inside (Suc i) f (grow f u)"
  using inside_grow [of i f u f] by simp

lemma host_inv_grow:
  assumes "host_inv n i s u" and "i < n" and "n \<le> 65535" and "f \<in> {UF_HOST, UF_PORT, UF_USERINFO}"
    and "inside i f v" and "field_set v = insert f (field_set u)"
    and "\<And>g m. g \<noteq> f \<Longrightarrow> inside m g v = inside m g u \<and> u_len v g = u_len u g"
    and "t = s_http_host_port \<longrightarrow> f = UF_PORT \<or> UF_PORT \<in> field_set u"
    and "t = s_http_userinfo \<longrightarrow> f = UF_USERINFO \<or> UF_USERINFO \<in> field_set u"
    and "t \<in> {s_http_userinfo_start, s_http_userinfo, s_http_host_start, s_http_host_v6_start} \<longrightarrow> f \<noteq> UF_HOST \<and> u_len u UF_HOST = 0"
  shows "host_inv n (Suc i) t (grow f v)"
proof -
  have i: "i < 65535" using assms(2,3) by simp
  have f: "inside (Suc i) f (grow f v)" by (rule inside_grow_self [OF assms(5) i])
  have others: "inside m g (grow f v) = inside m g u" if "g \<noteq> f" for g m
    using that assms(7) [OF that] by (simp add: inside_simps)
  have "\<forall>g \<in> field_set (grow f v). inside n g (grow f v)"
  proof
    fix g assume g: "g \<in> field_set (grow f v)"
    show "inside n g (grow f v)"
    proof (cases "g = f")
      case True
      then show ?thesis using inside_mono [OF f, of n] assms(2) by simp
    next
      case False
      then show ?thesis using others [OF False] g assms(1,6) by (simp add: inside_simps host_inv_def)
    qed
  qed
  moreover have "\<forall>g \<in> {UF_HOST, UF_PORT, UF_USERINFO} \<inter> field_set (grow f v). inside (Suc i) g (grow f v)"
  proof
    fix g assume g: "g \<in> {UF_HOST, UF_PORT, UF_USERINFO} \<inter> field_set (grow f v)"
    show "inside (Suc i) g (grow f v)"
    proof (cases "g = f")
      case False
      then have "inside i g u" using assms(1,6) g by (simp add: inside_simps host_inv_def)
      then show ?thesis using others [OF False] by (simp add: inside_Suc)
    qed (use f in simp)
  qed
  moreover have "u_len (grow f v) UF_HOST = u_len u UF_HOST" if "f \<noteq> UF_HOST"
    using that assms(7) [of UF_HOST] by (simp add: inside_simps)
  ultimately show ?thesis
    using assms(1,6,8-) by (auto simp: inside_simps host_inv_def)
qed

lemma host_step_inv:
  assumes inv: "host_inv n i s u" and "i < n" and "n \<le> 65535" and "http_parse_host_char s ch = t" and "t \<noteq> s_http_host_dead"
  shows "host_inv n (Suc i) t (host_step i s t u)"
proof -
  have i: "i < 65536" using assms(2,3) by simp
  have keep: "host_inv n (Suc i) t u" if "t \<notin> {s_http_host_port, s_http_userinfo, s_http_userinfo_start}"
    "t \<in> {s_http_host_start, s_http_host_v6_start} \<Longrightarrow> u_len u UF_HOST = 0"
    using inv that by (auto simp: host_inv_def intro: inside_Suc)
  have host: "inside i UF_HOST u" using inv by (simp add: host_inv_def)
  note before = host_char_before [of s ch, unfolded assms(4)]
  show ?thesis
  proof (cases t)
    case s_http_host
    have "inside i UF_HOST (if s \<noteq> s_http_host then set_off UF_HOST (of_nat i) u else u)"
      using before(1) s_http_host inv host inside_set_off [OF i, of u UF_HOST] by (auto simp: host_inv_def)
    then show ?thesis unfolding s_http_host host_step_def http_host_state.case
      by (rule host_inv_grow [OF inv assms(2,3), rotated]) (use inv in \<open>simp_all add: inside_simps host_inv_def insert_absorb\<close>)
  next
    case s_http_host_v6
    have "inside i UF_HOST (if s \<noteq> s_http_host_v6 then set_off UF_HOST (of_nat i) u else u)"
      using before(2) s_http_host_v6 inv host inside_set_off [OF i, of u UF_HOST] by (auto simp: host_inv_def)
    then show ?thesis unfolding s_http_host_v6 host_step_def http_host_state.case
      by (rule host_inv_grow [OF inv assms(2,3), rotated]) (use inv in \<open>simp_all add: inside_simps host_inv_def insert_absorb\<close>)
  next
    case s_http_host_v6_zone_start
    from host show ?thesis unfolding s_http_host_v6_zone_start host_step_def http_host_state.case
      by (rule host_inv_grow [OF inv assms(2,3), rotated]) (use inv in \<open>simp_all add: inside_simps host_inv_def insert_absorb\<close>)
  next
    case s_http_host_v6_zone
    from host show ?thesis unfolding s_http_host_v6_zone host_step_def http_host_state.case
      by (rule host_inv_grow [OF inv assms(2,3), rotated]) (use inv in \<open>simp_all add: inside_simps host_inv_def insert_absorb\<close>)
  next
    case s_http_host_port
    have "inside i UF_PORT (if s \<noteq> s_http_host_port
        then add_field UF_PORT (set_len UF_PORT 0 (set_off UF_PORT (of_nat i) u)) else u)"
      using inv inside_fresh0 [OF i, of UF_PORT u] by (auto simp: inside_simps host_inv_def)
    then show ?thesis unfolding s_http_host_port host_step_def http_host_state.case
      by (rule host_inv_grow [OF inv assms(2,3), rotated]) (use inv in \<open>simp_all add: inside_simps host_inv_def insert_absorb\<close>)
  next
    case s_http_userinfo
    have "inside i UF_USERINFO (if s \<noteq> s_http_userinfo
        then add_field UF_USERINFO (set_len UF_USERINFO 0 (set_off UF_USERINFO (of_nat i) u)) else u)"
      using inv inside_fresh0 [OF i, of UF_USERINFO u] by (auto simp: inside_simps host_inv_def)
    then show ?thesis unfolding s_http_userinfo host_step_def http_host_state.case
      by (rule host_inv_grow [OF inv assms(2,3), rotated])
        (use inv before(5) s_http_userinfo in \<open>auto simp: inside_simps host_inv_def insert_absorb\<close>)
  qed (use assms(5) before inv keep in \<open>auto simp: host_step_def host_inv_def\<close>)
qed

lemma host_loop_inside:
  "host_inv n i s u \<Longrightarrow> i + length cs \<le> n \<Longrightarrow> n \<le> 65535 \<Longrightarrow> host_loop cs i s u = Some (t, u') \<Longrightarrow>
    \<forall>f \<in> field_set u'. inside n f u'"
proof (induction cs arbitrary: i s u)
  case Nil
  then show ?case by (simp add: host_inv_def)
next
  case (Cons ch cs)
  let ?t = "http_parse_host_char s ch"
  have t: "?t \<noteq> s_http_host_dead" using Cons.prems(4) by (auto simp: Let_def split: if_splits)
  have "host_inv n (Suc i) ?t (host_step i s ?t u)"
    by (rule host_step_inv [OF Cons.prems(1)]) (use Cons.prems t in auto)
  from Cons.IH [OF this] Cons.prems t show ?case by (simp add: Let_def)
qed

text \<open>
  The parts of a URL lie inside it.  For a URL of up to 65535 characters \<open>http_parser_parse_url\<close> fails
  no assertion, and every part it reports is a piece of the URL.
\<close>

theorem url_parts_inside:
  assumes "length buf \<le> 65535"
  shows "\<exists>r. http_parser_parse_url buf is_connect u = Ok r \<and>
    (\<forall>u'. r = Some u' \<longrightarrow> (\<forall>f \<in> field_set u'. unat (u_off u' f) + unat (u_len u' f) \<le> length buf))"
proof (cases "buf = []")
  case True
  then show ?thesis by (simp add: http_parser_parse_url_def)
next
  case False
  let ?s = "if is_connect then s_req_server_start else s_req_spaces_before_url"
  let ?u = "u\<lparr>u_port := 0, field_set := {}\<rparr>"
  obtain r where r: "url_loop buf 0 ?s None False ?u = Ok r" "\<And>u' fa. r = Some (u', fa) \<Longrightarrow>
      \<forall>f \<in> field_set u'. inside (length buf) f u' \<and> f \<notin> {UF_PORT, UF_USERINFO}"
    using url_loop_inside [of 0 buf ?u None ?s False] assms by auto
  show ?thesis
  proof (cases r)
    case None
    with r False show ?thesis by (simp add: http_parser_parse_url_def)
  next
    case (Some p)
    obtain u1 fa where p: "r = Some (u1, fa)" using Some by (cases p) auto
    note in1 = r(2) [OF p]
    let ?rest = "\<lambda>r2. case r2 of None \<Rightarrow> Ok None | Some u2 \<Rightarrow>
              if is_connect \<and> field_set u2 \<noteq> {UF_HOST, UF_PORT} then Ok None
              else if UF_PORT \<in> field_set u2
                then if length buf < unat (u_off u2 UF_PORT) + unat (u_len u2 UF_PORT) then Undef
                  else (case port_loop (field_text buf UF_PORT u2) 0 of
                      None \<Rightarrow> Ok None
                    | Some v \<Rightarrow> Ok (Some (u2\<lparr>u_port := ucast v\<rparr>)))
                else Ok (Some u2)"
    have rest: "\<exists>r. ?rest (Some u2) = (Ok r :: (unit, http_parser_url option) outcome) \<and>
        (\<forall>u'. r = Some u' \<longrightarrow> (\<forall>f \<in> field_set u'. inside (length buf) f u'))"
      if "\<forall>f \<in> field_set u2. inside (length buf) f u2" for u2
      using that by (cases "port_loop (field_text buf UF_PORT u2) 0") (auto simp: inside_def)
    have host: "http_parse_host buf u1 fa = Ok None \<or> (\<exists>u2. http_parse_host buf u1 fa = Ok (Some u2) \<and>
        (\<forall>f \<in> field_set u2. inside (length buf) f u2))" if h: "UF_HOST \<in> field_set u1"
    proof -
      let ?i = "unat (u_off u1 UF_HOST)" and ?u0 = "set_len UF_HOST 0 u1"
        and ?t = "if fa then s_http_userinfo_start else s_http_host_start"
      have hi: "?i + unat (u_len u1 UF_HOST) \<le> length buf" using in1 h by (simp add: inside_def)
      have "inside n UF_HOST ?u0" if "?i \<le> n" for n using that by (simp add: inside_def field_defs)
      then have "host_inv (length buf) ?i ?t ?u0"
        using in1 h hi by (auto simp: host_inv_def inside_simps set_len_def [of UF_HOST 0 u1] inside_def)
      moreover have "?i + length (field_text buf UF_HOST u1) \<le> length buf" using hi by (simp add: field_text_def)
      ultimately have "\<forall>f \<in> field_set u'. inside (length buf) f u'"
        if "host_loop (field_text buf UF_HOST u1) ?i ?t ?u0 = Some (t, u')" for t u'
        using host_loop_inside assms that by blast
      then show ?thesis using h by (auto simp: http_parse_host_def split: option.split)
    qed
    show ?thesis
    proof (cases "UF_SCHEMA \<in> field_set u1 \<and> UF_HOST \<notin> field_set u1")
      case True
      with r(1) p False show ?thesis by (simp add: http_parser_parse_url_def)
    next
      case nf: False
      show ?thesis
      proof (cases "UF_HOST \<in> field_set u1")
        case True
        from host [OF True] rest r(1) p False nf True show ?thesis
          unfolding http_parser_parse_url_def inside_def by auto
      next
        case nh: False
        have "\<forall>f \<in> field_set u1. inside (length buf) f u1" using in1 by blast
        from rest [OF this] r(1) p False nf nh show ?thesis
          unfolding http_parser_parse_url_def inside_def by simp
      qed
    qed
  qed
qed

theorem url_parts_inside_witness:
  "\<exists>r. http_parser_parse_url ''http://a:80/b?c'' False http_parser_url_init = Ok r \<and>
    (\<forall>u'. r = Some u' \<longrightarrow> (\<forall>f \<in> field_set u'. unat (u_off u' f) + unat (u_len u' f) \<le> 15))"
proof -
  have l: "length ''http://a:80/b?c'' = 15" by simp
  have "length ''http://a:80/b?c'' \<le> 65535" by simp
  from url_parts_inside [OF this, of False http_parser_url_init] show ?thesis unfolding l .
qed

section \<open>The parts of a URL that was put together\<close>

definition put :: "url_field \<Rightarrow> nat \<Rightarrow> nat \<Rightarrow> http_parser_url \<Rightarrow> http_parser_url" where
  "put f i n u = add_field f (set_len f (of_nat n) (set_off f (of_nat i) u))"

lemma grow_put: "grow f (put f i n u) = put f i (Suc n) u"
  by (simp add: put_def field_defs add.commute)

lemma url_run:
  assumes "\<forall>c \<in> set seg. parse_url_char t c = t" and "url_field_of t = Some f" and "t \<notin> insert s_req_server_with_at (insert s_dead url_delims)"
  shows "url_loop (seg @ rest) j t (Some f) fa (put f i n u) = url_loop rest (j + length seg) t (Some f) fa (put f i (n + length seg) u)"
  using assms(1)
proof (induction seg arbitrary: j n)
  case (Cons c seg)
  then show ?case using assms(2,3) by (simp add: Let_def grow_put)
qed simp

lemma url_part:
  assumes "seg \<noteq> []" and "parse_url_char s (hd seg) = t" and "\<forall>c \<in> set (tl seg). parse_url_char t c = t"
    and "url_field_of t = Some f" and "t \<notin> insert s_req_server_with_at (insert s_dead url_delims)" and "old \<noteq> Some f"
  shows "url_loop (seg @ rest) i s old fa u = url_loop rest (i + length seg) t (Some f) fa (put f i (length seg) u)"
proof -
  obtain c cs where seg: "seg = c # cs" using assms(1) by (cases seg) auto
  have "add_field f (set_len f 1 (set_off f (of_nat i) u)) = put f i 1 u" by (simp add: put_def)
  then show ?thesis using assms url_run [of cs t f rest "Suc i" fa i 1 u] by (simp add: seg Let_def)
qed

lemma url_delim:
  assumes "parse_url_char s c = t" and "t \<in> url_delims" and "t \<noteq> s_dead"
  shows "url_loop (c # cs) i s old fa u = url_loop cs (Suc i) t old fa u"
  using assms by simp

lemma not_blank:
  "IS_ALPHANUM c \<Longrightarrow> c \<notin> {CHR '' '', CR, LF, HTAB, CHR 0x0C}" "IS_URL_CHAR c \<Longrightarrow> c \<notin> {CHR '' '', CR, LF, HTAB, CHR 0x0C}"
  by (auto simp: IS_ALPHANUM_def IS_ALPHA_def LOWER_def is_digit_def chcode_def IS_URL_CHAR_def normal_url_char_def)

lemma host_char_user: "IS_HOST_CHAR c \<Longrightarrow> IS_USERINFO_CHAR c"
  by (auto simp: IS_HOST_CHAR_def IS_USERINFO_CHAR_def IS_MARK_def)

lemma not_delim:
  "IS_HOST_CHAR c \<Longrightarrow> c \<notin> {CHR '' '', CR, LF, HTAB, CHR 0x0C, CHR ''/'', CHR ''?'', CHR ''@''}"
  using not_blank(1) [of c] by (auto simp: IS_HOST_CHAR_def IS_ALPHANUM_def IS_ALPHA_def LOWER_def is_digit_def chcode_def)

lemma host_runs:
  assumes "IS_HOST_CHAR c \<or> c = CHR '':''"
  shows "parse_url_char s_req_server_start c = s_req_server" "parse_url_char s_req_server c = s_req_server"
proof -
  have "IS_USERINFO_CHAR c" using assms host_char_user by (auto simp: IS_USERINFO_CHAR_def)
  moreover have "c \<notin> {CHR '' '', CR, LF, HTAB, CHR 0x0C, CHR ''/'', CHR ''?'', CHR ''@''}"
    using assms not_delim [of c] by auto
  ultimately show "parse_url_char s_req_server_start c = s_req_server" "parse_url_char s_req_server c = s_req_server"
    by (simp_all add: parse_url_char_def)
qed

lemma url_char_runs:
  assumes "IS_URL_CHAR c"
  shows "parse_url_char s_req_path c = s_req_path" "parse_url_char s_req_query_string_start c = s_req_query_string"
    "parse_url_char s_req_query_string c = s_req_query_string" "parse_url_char s_req_fragment_start c = s_req_fragment"
    "parse_url_char s_req_fragment c = s_req_fragment"
  using assms not_blank(2) [OF assms] by (simp_all add: parse_url_char_def)

lemma alpha_runs:
  assumes "IS_ALPHA c"
  shows "parse_url_char s_req_spaces_before_url c = s_req_schema" "parse_url_char s_req_schema c = s_req_schema"
proof -
  have "c \<notin> {CHR '' '', CR, LF, HTAB, CHR 0x0C, CHR ''/'', CHR ''*''}"
    using assms by (auto simp: IS_ALPHA_def LOWER_def chcode_def)
  then show "parse_url_char s_req_spaces_before_url c = s_req_schema" "parse_url_char s_req_schema c = s_req_schema"
    using assms by (simp_all add: parse_url_char_def)
qed

lemma delim_chars:
  "parse_url_char s_req_schema (CHR '':'') = s_req_schema_slash" "parse_url_char s_req_schema_slash (CHR ''/'') = s_req_schema_slash_slash"
  "parse_url_char s_req_schema_slash_slash (CHR ''/'') = s_req_server_start" "parse_url_char s_req_server (CHR ''/'') = s_req_path"
  "parse_url_char s_req_path (CHR ''?'') = s_req_query_string_start" "parse_url_char s_req_path (CHR ''#'') = s_req_fragment_start"
  "parse_url_char s_req_query_string (CHR ''#'') = s_req_fragment_start"
  by (simp_all add: parse_url_char_def IS_ALPHA_def LOWER_def chcode_def IS_URL_CHAR_def normal_url_char_def)

text \<open>The URL, and where its parts are.\<close>

definition opt :: "char \<Rightarrow> string \<Rightarrow> string" where "opt c s = (if s = [] then [] else c # s)"

definition build_url :: "string \<Rightarrow> string \<Rightarrow> string \<Rightarrow> string \<Rightarrow> string \<Rightarrow> string \<Rightarrow> string" where
  "build_url sch hst prt pth q fr =
     sch @ ''://'' @ (hst @ opt (CHR '':'') prt) @ pth @ opt (CHR ''?'') q @ opt (CHR ''#'') fr"

definition put_opt :: "url_field \<Rightarrow> nat \<Rightarrow> string \<Rightarrow> http_parser_url \<Rightarrow> http_parser_url" where
  "put_opt f i s u = (if s = [] then u else put f i (length s) u)"

lemma query_fragment:
  assumes "list_all IS_URL_CHAR q" and "list_all IS_URL_CHAR fr"
  shows "url_loop (opt (CHR ''?'') q @ opt (CHR ''#'') fr) i s_req_path (Some UF_PATH) fa u =
    Ok (Some (put_opt UF_FRAGMENT (i + length (opt (CHR ''?'') q) + 1) fr (put_opt UF_QUERY (i + 1) q u), fa))"
proof -
  have frag: "url_loop (fr @ []) j s_req_fragment_start old fa v = Ok (Some (put UF_FRAGMENT j (length fr) v, fa))"
    if "fr \<noteq> []" "old \<noteq> Some UF_FRAGMENT" for j old v
    using that assms(2) url_char_runs(4,5)
    by (subst url_part [where t = s_req_fragment and f = UF_FRAGMENT])
      (auto simp: list_all_iff url_delims_def dest: list.set_sel(2))
  have query: "url_loop (q @ rest) j s_req_query_string_start old fa v =
      url_loop rest (j + length q) s_req_query_string (Some UF_QUERY) fa (put UF_QUERY j (length q) v)"
    if "q \<noteq> []" "old \<noteq> Some UF_QUERY" for j old v rest
    by (rule url_part) (use that assms(1) url_char_runs(2,3) in \<open>auto simp: list_all_iff url_delims_def dest: list.set_sel(2)\<close>)
  show ?thesis
  proof (cases "q = []"; cases "fr = []")
    assume "q \<noteq> []" "fr \<noteq> []"
    then show ?thesis
      using query [of "Some UF_PATH" "opt (CHR ''#'') fr" "Suc i" u]
        frag [of "Some UF_QUERY" "Suc (Suc i + length q)" "put UF_QUERY (Suc i) (length q) u"]
      by (simp add: opt_def put_opt_def delim_chars Let_def url_delims_def)
  next
    assume "q \<noteq> []" "fr = []"
    then show ?thesis using query [of "Some UF_PATH" "[]" "Suc i" u]
      by (simp add: opt_def put_opt_def delim_chars Let_def url_delims_def)
  next
    assume "q = []" "fr \<noteq> []"
    then show ?thesis using frag [of "Some UF_PATH" "Suc i" u]
      by (simp add: opt_def put_opt_def delim_chars Let_def url_delims_def)
  qed (simp add: opt_def put_opt_def)
qed

text \<open>The second scanner, on the host and the port.\<close>

lemma host_run:
  "list_all IS_HOST_CHAR cs \<Longrightarrow>
    host_loop (cs @ rest) j s_http_host (set_len UF_HOST (of_nat n) u) =
    host_loop rest (j + length cs) s_http_host (set_len UF_HOST (of_nat (n + length cs)) u)"
proof (induction cs arbitrary: j n)
  case (Cons c cs)
  have "grow UF_HOST (set_len UF_HOST (of_nat n) u) = set_len UF_HOST (of_nat (Suc n)) u"
    by (simp add: field_defs add.commute)
  with Cons.IH [of "Suc j" "Suc n"] Cons.prems show ?case
    by (simp add: http_parse_host_char_def host_step_def Let_def add.assoc)
qed simp

lemma host_part:
  assumes "cs \<noteq> []" and "list_all IS_HOST_CHAR cs"
  shows "host_loop (cs @ rest) i s_http_host_start (set_len UF_HOST 0 u) =
    host_loop rest (i + length cs) s_http_host (set_len UF_HOST (of_nat (length cs)) (set_off UF_HOST (of_nat i) u))"
proof -
  obtain d ds where cs: "cs = d # ds" using assms(1) by (cases cs) auto
  have "\<not> IS_HOST_CHAR (CHR ''['')"
    by (simp add: IS_HOST_CHAR_def IS_ALPHANUM_def IS_ALPHA_def LOWER_def is_digit_def chcode_def)
  then have d: "IS_HOST_CHAR d" "d \<noteq> CHR ''[''" using assms(2) by (auto simp: cs)
  have "grow UF_HOST (set_off UF_HOST (of_nat i) (set_len UF_HOST 0 u)) = set_len UF_HOST (of_nat 1) (set_off UF_HOST (of_nat i) u)"
    by (simp add: field_defs)
  with host_run [of ds rest "Suc i" 1 "set_off UF_HOST (of_nat i) u"] d assms(2) show ?thesis
    by (simp add: cs http_parse_host_char_def host_step_def Let_def)
qed

lemma port_run:
  "list_all is_digit cs \<Longrightarrow> host_loop cs j s_http_host_port (put UF_PORT i n u) =
    Some (s_http_host_port, put UF_PORT i (n + length cs) u)"
  by (induction cs arbitrary: j n) (simp_all add: http_parse_host_char_def host_step_def Let_def grow_put)

lemma port_part:
  assumes "list_all is_digit cs"
  shows "host_loop (opt (CHR '':'') cs) i s_http_host u =
    (if cs = [] then Some (s_http_host, u) else Some (s_http_host_port, put UF_PORT (Suc i) (length cs) u))"
proof (cases cs)
  case (Cons d ds)
  have colon: "http_parse_host_char s_http_host (CHR '':'') = s_http_host_port_start"
    by (simp add: http_parse_host_char_def IS_HOST_CHAR_def IS_ALPHANUM_def IS_ALPHA_def LOWER_def is_digit_def chcode_def)
  have "add_field UF_PORT (set_len UF_PORT 0 (set_off UF_PORT (of_nat (Suc i)) u)) = put UF_PORT (Suc i) 0 u"
    by (simp add: put_def)
  then show ?thesis using assms port_run [of ds "Suc (Suc i)" "Suc i" 1 u] colon
    by (simp add: opt_def Cons Let_def host_step_def grow_put) (simp add: http_parse_host_char_def Let_def grow_put)
qed (simp add: opt_def)

lemma port_value:
  "list_all is_digit cs \<Longrightarrow> v \<le> 65535 \<Longrightarrow> port_loop cs (of_nat v) =
    (let w = foldl (\<lambda>v c. 10 * v + (chcode c - 48)) v cs in if w \<le> 65535 then Some (of_nat w) else None)"
proof (induction cs arbitrary: v)
  case (Cons c cs)
  let ?w = "10 * v + (chcode c - 48)"
  have d: "48 \<le> chcode c" "chcode c \<le> 57" using Cons.prems(1) by (simp_all add: is_digit_def)
  have w: "(of_nat v :: u64) * 10 + (of_nat (chcode c) - 48) = of_nat ?w" using d(1) by (simp add: of_nat_diff)
  have lt: "?w < 2 ^ 64" using Cons.prems(2) d(2) by simp
  have big: "(0xffff :: u64) < of_nat ?w \<longleftrightarrow> 65535 < ?w"
    using lt by (simp add: word_less_nat_alt unat_of_nat del: of_nat_add of_nat_mult)
  have mono: "w \<le> foldl (\<lambda>v c. 10 * v + (chcode c - 48)) w cs" for w
  proof (induction cs arbitrary: w)
    case (Cons c cs)
    have "w \<le> 10 * w + (chcode c - 48)" by simp
    also have "\<dots> \<le> foldl (\<lambda>v c. 10 * v + (chcode c - 48)) (10 * w + (chcode c - 48)) cs" by (rule Cons)
    finally show ?case by simp
  qed simp
  show ?case
  proof (cases "65535 < ?w")
    case True
    with big w mono [of ?w] show ?thesis by (simp add: Let_def del: of_nat_add of_nat_mult)
  next
    case False
    with Cons.IH [of ?w] Cons.prems(1) big w show ?thesis by (simp add: Let_def del: of_nat_add of_nat_mult)
  qed
qed simp

lemma field_set_put [simp]:
  "field_set (put f i n u) = insert f (field_set u)"
  "field_set (put_opt f i q u) = (if q = [] then field_set u else insert f (field_set u))"
  by (simp_all add: put_def put_opt_def inside_simps)

lemma text_put:
  "i < 65536 \<Longrightarrow> n < 65536 \<Longrightarrow> field_text buf f (put f i n u) = take n (drop i buf)"
  "f \<noteq> g \<Longrightarrow> field_text buf g (put f i n u) = field_text buf g u"
  "f \<noteq> g \<Longrightarrow> field_text buf g (put_opt f i q u) = field_text buf g u"
  "i < 65536 \<Longrightarrow> n < 65536 \<Longrightarrow> field_text buf f (set_len f (of_nat n) (set_off f (of_nat i) u)) = take n (drop i buf)"
  "f \<noteq> g \<Longrightarrow> field_text buf g (set_len f v (set_off f w u)) = field_text buf g u"
  by (simp_all add: put_def put_opt_def field_text_def field_defs unat_u16)

lemma put_ends:
  "i < 65536 \<Longrightarrow> unat (u_off (put f i n u) f) = i" "n < 65536 \<Longrightarrow> unat (u_len (put f i n u) f) = n"
  "f \<noteq> g \<Longrightarrow> u_off (put f i n u) g = u_off u g" "f \<noteq> g \<Longrightarrow> u_off (put_opt f i q u) g = u_off u g"
  by (simp_all add: put_def put_opt_def field_defs unat_u16)

lemma ucast_down_of_nat: "ucast (of_nat n :: u64) = (of_nat n :: u16)"
  by (rule bit_word_eqI) (auto simp: bit_simps)

text \<open>The texts of the parts after both scanners, whatever their positions.\<close>

lemma texts_of_parts:
  fixes u :: http_parser_url and jh mh :: nat
  assumes "ns < 65536" and "ih < 65536" and "nh < 65536" and "ip < 65536" and "np < 65536" and "io < 65536" and "length prt < 65536"
    and "q \<noteq> [] \<Longrightarrow> iq < 65536" and "length q < 65536" and "fr \<noteq> [] \<Longrightarrow> ig < 65536" and "length fr < 65536"
  defines "v \<equiv> set_len UF_HOST (of_nat nh) (set_off UF_HOST (of_nat ih) (put_opt UF_FRAGMENT ig fr (put_opt UF_QUERY iq q
    (put UF_PATH ip np (put UF_HOST jh mh (put UF_SCHEMA 0 ns u))))))"
  defines "u2 \<equiv> (if prt = [] then v else put UF_PORT io (length prt) v)"
  shows "field_text buf UF_SCHEMA u2 = take ns buf" and "field_text buf UF_HOST u2 = take nh (drop ih buf)"
    and "field_text buf UF_PATH u2 = take np (drop ip buf)"
    and "prt \<noteq> [] \<Longrightarrow> field_text buf UF_PORT u2 = take (length prt) (drop io buf)"
    and "q \<noteq> [] \<Longrightarrow> field_text buf UF_QUERY u2 = take (length q) (drop iq buf)"
    and "fr \<noteq> [] \<Longrightarrow> field_text buf UF_FRAGMENT u2 = take (length fr) (drop ig buf)"
  using assms(1-11) by (simp_all add: u2_def v_def text_put put_opt_def)

text \<open>
  C39: The parts of a URL are found.  A URL put together from a scheme, a host, perhaps a port, a path and
  perhaps a query and a fragment is refused exactly when the port is above 65535; otherwise each part
  reported is the text it was made of, the parts left out are not reported, and the port has its value.
\<close>

theorem url_parts_found:
  assumes sch: "sch \<noteq> []" "list_all IS_ALPHA sch" and hst: "hst \<noteq> []" "list_all IS_HOST_CHAR hst"
    and prt: "list_all is_digit prt" and pth: "list_all IS_URL_CHAR pth" and q: "list_all IS_URL_CHAR q"
    and fr: "list_all IS_URL_CHAR fr"
    and buf: "buf = build_url sch hst prt (CHR ''/'' # pth) q fr" and len: "length buf \<le> 65535"
  shows "\<exists>u'. http_parser_parse_url buf False u = Ok (if 65535 < dec_val prt then None else Some u') \<and>
    field_set u' = {UF_SCHEMA, UF_HOST, UF_PATH} \<union> (if prt = [] then {} else {UF_PORT}) \<union>
      (if q = [] then {} else {UF_QUERY}) \<union> (if fr = [] then {} else {UF_FRAGMENT}) \<and>
    field_text buf UF_SCHEMA u' = sch \<and> field_text buf UF_HOST u' = hst \<and> field_text buf UF_PATH u' = CHR ''/'' # pth \<and>
    (prt \<noteq> [] \<longrightarrow> field_text buf UF_PORT u' = prt \<and> u_port u' = of_nat (dec_val prt)) \<and>
    (q \<noteq> [] \<longrightarrow> field_text buf UF_QUERY u' = q) \<and> (fr \<noteq> [] \<longrightarrow> field_text buf UF_FRAGMENT u' = fr)"
proof -
  let ?hp = "hst @ opt (CHR '':'') prt" and ?p = "CHR ''/'' # pth" and ?u = "u\<lparr>u_port := 0, field_set := {}\<rparr>"
  let ?ih = "length sch + 3"
  let ?ip = "?ih + length ?hp"
  let ?iq = "?ip + length ?p + 1"
  let ?if = "?ip + length ?p + length (opt (CHR ''?'') q) + 1"
  let ?us = "put UF_SCHEMA 0 (length sch) ?u"
  let ?uh = "put UF_HOST ?ih (length ?hp) ?us"
  let ?up = "put UF_PATH ?ip (length ?p) ?uh"
  let ?u1 = "put_opt UF_FRAGMENT ?if fr (put_opt UF_QUERY ?iq q ?up)"
  have lens: "?ih < 65536" "?ip < 65536" "length sch < 65536" "length hst < 65536" "length ?hp < 65536" "length ?p < 65536"
    "?ih + length hst + 1 < 65536" "length prt < 65536" "q \<noteq> [] \<Longrightarrow> ?iq < 65536" "fr \<noteq> [] \<Longrightarrow> ?if < 65536"
    "length q < 65536" "length fr < 65536"
    using len by (auto simp: buf build_url_def opt_def split: if_splits)
  have schema: "url_loop (sch @ rest) 0 s_req_spaces_before_url None False ?u =
      url_loop rest (length sch) s_req_schema (Some UF_SCHEMA) False ?us" for rest
    by (subst url_part [where t = s_req_schema and f = UF_SCHEMA])
      (use sch alpha_runs in \<open>auto simp: list_all_iff url_delims_def dest: list.set_sel(2)\<close>)
  have hpc: "\<forall>c \<in> set ?hp. IS_HOST_CHAR c \<or> c = CHR '':''"
    using hst(2) prt by (auto simp: opt_def list_all_iff IS_HOST_CHAR_def IS_ALPHANUM_def)
  have host: "url_loop (?hp @ rest) ?ih s_req_server_start (Some UF_SCHEMA) False ?us =
      url_loop rest ?ip s_req_server (Some UF_HOST) False ?uh" for rest
    by (rule url_part [where t = s_req_server and f = UF_HOST])
      (use hst(1) hpc host_runs in \<open>auto simp: url_delims_def dest: list.set_sel(2)\<close>)
  have path: "url_loop (?p @ rest) ?ip s_req_server (Some UF_HOST) False ?uh =
      url_loop rest (?ip + length ?p) s_req_path (Some UF_PATH) False ?up" for rest
    by (rule url_part [where t = s_req_path and f = UF_PATH])
      (use pth url_char_runs(1) delim_chars(4) in \<open>auto simp: list_all_iff url_delims_def\<close>)
  have delims: "url_loop (''://'' @ r) i s_req_schema old fa v = url_loop r (i + 3) s_req_server_start old fa v" for r i old fa v
    by (simp add: delim_chars Let_def url_delims_def numeral_3_eq_3)
  have bufe: "buf = sch @ ''://'' @ ?hp @ ?p @ opt (CHR ''?'') q @ opt (CHR ''#'') fr"
    by (simp only: buf build_url_def)
  have loop: "url_loop buf 0 s_req_spaces_before_url None False ?u = Ok (Some (?u1, False))"
    unfolding bufe schema delims host path query_fragment [OF q fr] by (simp only: add.assoc)
  have slice: "take (length b) (drop (length a) (a @ b @ c)) = b" for a b c :: string by simp
  have parts: "take (length sch) (drop 0 buf) = sch" "take (length ?hp) (drop ?ih buf) = ?hp" "take (length hst) (drop ?ih buf) = hst"
    "take (length ?p) (drop ?ip buf) = ?p" "prt \<noteq> [] \<Longrightarrow> take (length prt) (drop (?ih + length hst + 1) buf) = prt"
    "q \<noteq> [] \<Longrightarrow> take (length q) (drop ?iq buf) = q" "fr \<noteq> [] \<Longrightarrow> take (length fr) (drop ?if buf) = fr"
    using slice [of sch "[]" "''://'' @ ?hp @ ?p @ opt (CHR ''?'') q @ opt (CHR ''#'') fr"]
      slice [of ?hp "sch @ ''://''" "?p @ opt (CHR ''?'') q @ opt (CHR ''#'') fr"]
      slice [of hst "sch @ ''://''" "opt (CHR '':'') prt @ ?p @ opt (CHR ''?'') q @ opt (CHR ''#'') fr"]
      slice [of ?p "sch @ ''://'' @ ?hp" "opt (CHR ''?'') q @ opt (CHR ''#'') fr"]
      slice [of prt "sch @ ''://'' @ hst @ '':''" "?p @ opt (CHR ''?'') q @ opt (CHR ''#'') fr"]
      slice [of q "sch @ ''://'' @ ?hp @ ?p @ ''?''" "opt (CHR ''#'') fr"]
      slice [of fr "sch @ ''://'' @ ?hp @ ?p @ opt (CHR ''?'') q @ ''#''" "[]"]
    by (simp_all add: bufe opt_def)
  let ?v = "set_len UF_HOST (of_nat (length hst)) (set_off UF_HOST (of_nat ?ih) ?u1)"
  let ?u2 = "if prt = [] then ?v else put UF_PORT (?ih + length hst + 1) (length prt) ?v"
  have text1: "field_text buf UF_HOST ?u1 = ?hp" "unat (u_off ?u1 UF_HOST) = ?ih"
    using parts(2) lens by (simp_all add: text_put put_ends)
  have hl: "host_loop ?hp ?ih s_http_host_start (set_len UF_HOST 0 ?u1) =
      Some (if prt = [] then s_http_host else s_http_host_port, ?u2)"
    using port_part [OF prt] by (simp add: host_part [OF hst])
  have ph: "http_parse_host buf ?u1 False = Ok (Some ?u2)"
    unfolding http_parse_host_def text1 if_False hl by (simp add: host_ends_def)
  have fs2: "field_set ?u2 = {UF_SCHEMA, UF_HOST, UF_PATH} \<union> (if prt = [] then {} else {UF_PORT}) \<union>
      (if q = [] then {} else {UF_QUERY}) \<union> (if fr = [] then {} else {UF_FRAGMENT})"
    by (auto simp: inside_simps)
  have texts: "field_text buf UF_SCHEMA ?u2 = sch" "field_text buf UF_HOST ?u2 = hst" "field_text buf UF_PATH ?u2 = ?p"
    "prt \<noteq> [] \<Longrightarrow> field_text buf UF_PORT ?u2 = prt" "q \<noteq> [] \<Longrightarrow> field_text buf UF_QUERY ?u2 = q"
    "fr \<noteq> [] \<Longrightarrow> field_text buf UF_FRAGMENT ?u2 = fr"
    using texts_of_parts [where ns = "length sch" and ih = ?ih and nh = "length hst" and ip = ?ip and np = "length ?p"
      and io = "?ih + length hst + 1" and prt = prt and q = q and fr = fr and iq = ?iq and ig = ?if and buf = buf
      and jh = ?ih and mh = "length ?hp" and u = ?u] lens parts
    by (simp_all only: drop_0 not_False_eq_True)
  have inb: "prt \<noteq> [] \<Longrightarrow> unat (u_off ?u2 UF_PORT) + unat (u_len ?u2 UF_PORT) \<le> length buf"
    using lens(7,8) by (simp add: put_ends bufe opt_def)
  have pv: "port_loop prt 0 = (if dec_val prt \<le> 65535 then Some (of_nat (dec_val prt)) else None)"
    using port_value [OF prt, of 0] by (simp add: dec_val_def Let_def)
  have ne: "buf \<noteq> []" using sch(1) by (simp add: bufe)
  obtain u1 u2 where loop: "url_loop buf 0 s_req_spaces_before_url None False ?u = Ok (Some (u1, False))"
    and ph: "http_parse_host buf u1 False = Ok (Some u2)"
    and fs1: "UF_HOST \<in> field_set u1" "UF_SCHEMA \<in> field_set u1"
    and fs2: "field_set u2 = {UF_SCHEMA, UF_HOST, UF_PATH} \<union> (if prt = [] then {} else {UF_PORT}) \<union>
      (if q = [] then {} else {UF_QUERY}) \<union> (if fr = [] then {} else {UF_FRAGMENT})"
    and texts: "field_text buf UF_SCHEMA u2 = sch" "field_text buf UF_HOST u2 = hst" "field_text buf UF_PATH u2 = ?p"
    "prt \<noteq> [] \<longrightarrow> field_text buf UF_PORT u2 = prt" "q \<noteq> [] \<longrightarrow> field_text buf UF_QUERY u2 = q"
    "fr \<noteq> [] \<longrightarrow> field_text buf UF_FRAGMENT u2 = fr"
    and inb: "prt \<noteq> [] \<longrightarrow> unat (u_off u2 UF_PORT) + unat (u_len u2 UF_PORT) \<le> length buf"
    using that [of ?u1 ?u2, OF loop ph _ _ fs2 texts(1-3) impI impI impI impI] texts(4-6) inb by simp
  have run: "http_parser_parse_url buf False u =
      (if prt = [] then Ok (Some u2) else if 65535 < dec_val prt then Ok None
       else Ok (Some (u2\<lparr>u_port := of_nat (dec_val prt)\<rparr>)))"
    using ne loop ph fs1 fs2 texts(4) inb pv
    by (cases "prt = []") (simp_all add: http_parser_parse_url_def not_less ucast_down_of_nat)
  show ?thesis
  proof (cases "prt = []")
    case True
    then have "dec_val prt = 0" by (simp add: dec_val_def)
    with True run fs2 texts show ?thesis by (intro exI [of _ u2]) simp
  next
    case False
    with run fs2 texts show ?thesis
      by (intro exI [of _ "u2\<lparr>u_port := of_nat (dec_val prt)\<rparr>"]) (simp add: field_text_def)
  qed
qed

lemma url_parts_found_witness:
  "\<exists>u'. http_parser_parse_url ''http://a.b:80/c?d=e#f'' False http_parser_url_init = Ok (Some u') \<and> u_port u' = 80 \<and>
    field_text ''http://a.b:80/c?d=e#f'' UF_HOST u' = ''a.b'' \<and> field_text ''http://a.b:80/c?d=e#f'' UF_QUERY u' = ''d=e''"
proof -
  have b: "''http://a.b:80/c?d=e#f'' = build_url ''http'' ''a.b'' ''80'' (CHR ''/'' # ''c'') ''d=e'' ''f''"
    and v: "dec_val ''80'' = 80" and h: "list_all IS_ALPHA ''http''" "list_all IS_HOST_CHAR ''a.b''" "list_all is_digit ''80''"
    "list_all IS_URL_CHAR ''c''" "list_all IS_URL_CHAR ''d=e''" "list_all IS_URL_CHAR ''f''"
    by code_simp+
  show ?thesis
    using url_parts_found [OF _ h(1) _ h(2-6) b, of http_parser_url_init] by (auto simp: v)
qed

section \<open>Pausing, and the names of the errors\<close>

text \<open>A failed assertion is \<open>None\<close>.  The field \<open>nread\<close> keeps its value.\<close>

definition http_parser_pause :: "http_parser \<Rightarrow> bool \<Rightarrow> http_parser option" where
  "http_parser_pause p paused =
     (if p_errno p = HPE_OK \<or> p_errno p = HPE_PAUSED
      then Some (p\<lparr>p_errno := if paused then HPE_PAUSED else HPE_OK\<rparr>) else None)"

definition http_body_is_final :: "http_parser \<Rightarrow> bool" where
  "http_body_is_final p \<longleftrightarrow> p_state p = s_message_done"

fun http_errno_name :: "http_errno \<Rightarrow> string" where
  "http_errno_name HPE_OK = ''HPE_OK''"
| "http_errno_name HPE_CB_message_begin = ''HPE_CB_message_begin''"
| "http_errno_name HPE_CB_url = ''HPE_CB_url''"
| "http_errno_name HPE_CB_header_field = ''HPE_CB_header_field''"
| "http_errno_name HPE_CB_header_value = ''HPE_CB_header_value''"
| "http_errno_name HPE_CB_headers_complete = ''HPE_CB_headers_complete''"
| "http_errno_name HPE_CB_body = ''HPE_CB_body''"
| "http_errno_name HPE_CB_message_complete = ''HPE_CB_message_complete''"
| "http_errno_name HPE_CB_status = ''HPE_CB_status''"
| "http_errno_name HPE_CB_chunk_header = ''HPE_CB_chunk_header''"
| "http_errno_name HPE_CB_chunk_complete = ''HPE_CB_chunk_complete''"
| "http_errno_name HPE_INVALID_EOF_STATE = ''HPE_INVALID_EOF_STATE''"
| "http_errno_name HPE_HEADER_OVERFLOW = ''HPE_HEADER_OVERFLOW''"
| "http_errno_name HPE_CLOSED_CONNECTION = ''HPE_CLOSED_CONNECTION''"
| "http_errno_name HPE_INVALID_VERSION = ''HPE_INVALID_VERSION''"
| "http_errno_name HPE_INVALID_STATUS = ''HPE_INVALID_STATUS''"
| "http_errno_name HPE_INVALID_METHOD = ''HPE_INVALID_METHOD''"
| "http_errno_name HPE_INVALID_URL = ''HPE_INVALID_URL''"
| "http_errno_name HPE_INVALID_HOST = ''HPE_INVALID_HOST''"
| "http_errno_name HPE_INVALID_PORT = ''HPE_INVALID_PORT''"
| "http_errno_name HPE_INVALID_PATH = ''HPE_INVALID_PATH''"
| "http_errno_name HPE_INVALID_QUERY_STRING = ''HPE_INVALID_QUERY_STRING''"
| "http_errno_name HPE_INVALID_FRAGMENT = ''HPE_INVALID_FRAGMENT''"
| "http_errno_name HPE_LF_EXPECTED = ''HPE_LF_EXPECTED''"
| "http_errno_name HPE_INVALID_HEADER_TOKEN = ''HPE_INVALID_HEADER_TOKEN''"
| "http_errno_name HPE_INVALID_CONTENT_LENGTH = ''HPE_INVALID_CONTENT_LENGTH''"
| "http_errno_name HPE_UNEXPECTED_CONTENT_LENGTH = ''HPE_UNEXPECTED_CONTENT_LENGTH''"
| "http_errno_name HPE_INVALID_CHUNK_SIZE = ''HPE_INVALID_CHUNK_SIZE''"
| "http_errno_name HPE_INVALID_CONSTANT = ''HPE_INVALID_CONSTANT''"
| "http_errno_name HPE_INVALID_INTERNAL_STATE = ''HPE_INVALID_INTERNAL_STATE''"
| "http_errno_name HPE_STRICT = ''HPE_STRICT''"
| "http_errno_name HPE_PAUSED = ''HPE_PAUSED''"
| "http_errno_name HPE_UNKNOWN = ''HPE_UNKNOWN''"
| "http_errno_name HPE_INVALID_TRANSFER_ENCODING = ''HPE_INVALID_TRANSFER_ENCODING''"

fun http_errno_description :: "http_errno \<Rightarrow> string" where
  "http_errno_description HPE_OK = ''success''"
| "http_errno_description HPE_CB_message_begin = ''the on_message_begin callback failed''"
| "http_errno_description HPE_CB_url = ''the on_url callback failed''"
| "http_errno_description HPE_CB_header_field = ''the on_header_field callback failed''"
| "http_errno_description HPE_CB_header_value = ''the on_header_value callback failed''"
| "http_errno_description HPE_CB_headers_complete = ''the on_headers_complete callback failed''"
| "http_errno_description HPE_CB_body = ''the on_body callback failed''"
| "http_errno_description HPE_CB_message_complete = ''the on_message_complete callback failed''"
| "http_errno_description HPE_CB_status = ''the on_status callback failed''"
| "http_errno_description HPE_CB_chunk_header = ''the on_chunk_header callback failed''"
| "http_errno_description HPE_CB_chunk_complete = ''the on_chunk_complete callback failed''"
| "http_errno_description HPE_INVALID_EOF_STATE = ''stream ended at an unexpected time''"
| "http_errno_description HPE_HEADER_OVERFLOW = ''too many header bytes seen; overflow detected''"
| "http_errno_description HPE_CLOSED_CONNECTION = ''data received after completed connection: close message''"
| "http_errno_description HPE_INVALID_VERSION = ''invalid HTTP version''"
| "http_errno_description HPE_INVALID_STATUS = ''invalid HTTP status code''"
| "http_errno_description HPE_INVALID_METHOD = ''invalid HTTP method''"
| "http_errno_description HPE_INVALID_URL = ''invalid URL''"
| "http_errno_description HPE_INVALID_HOST = ''invalid host''"
| "http_errno_description HPE_INVALID_PORT = ''invalid port''"
| "http_errno_description HPE_INVALID_PATH = ''invalid path''"
| "http_errno_description HPE_INVALID_QUERY_STRING = ''invalid query string''"
| "http_errno_description HPE_INVALID_FRAGMENT = ''invalid fragment''"
| "http_errno_description HPE_LF_EXPECTED = ''LF character expected''"
| "http_errno_description HPE_INVALID_HEADER_TOKEN = ''invalid character in header''"
| "http_errno_description HPE_INVALID_CONTENT_LENGTH = ''invalid character in content-length header''"
| "http_errno_description HPE_UNEXPECTED_CONTENT_LENGTH = ''unexpected content-length header''"
| "http_errno_description HPE_INVALID_CHUNK_SIZE = ''invalid character in chunk size header''"
| "http_errno_description HPE_INVALID_CONSTANT = ''invalid constant string''"
| "http_errno_description HPE_INVALID_INTERNAL_STATE = ''encountered unexpected internal state''"
| "http_errno_description HPE_STRICT = ''strict mode assertion failed''"
| "http_errno_description HPE_PAUSED = ''parser is paused''"
| "http_errno_description HPE_UNKNOWN = ''an unknown error occurred''"
| "http_errno_description HPE_INVALID_TRANSFER_ENCODING = ''request has invalid transfer-encoding''"

lemma paused_parser_waits:
  assumes "http_parser_pause p True = Some p'"
  shows "http_parser_execute p' d = Some (p', [], 0)" and "http_parser_pause p' False = Some (p\<lparr>p_errno := HPE_OK\<rparr>)"
  using assms by (auto simp: http_parser_pause_def http_parser_execute_def split: if_splits)

end
