(* ===== verification/Ys_Digest.thy ===== *)
theory Ys_Digest
  imports Isaac_Prelude
begin

text \<open>
  \<open>isaac/alg/ys_md5.hpp\<close> and \<open>isaac/alg/ys_sm3.hpp\<close>: the contexts of the two hash functions, to which
  data is fed in pieces, and what they compute: the iterated compression of the padded message.
\<close>

unbundle bit_operations_syntax

section \<open>Words and blocks\<close>

definition ROL32 :: "u32 \<Rightarrow> nat \<Rightarrow> u32" where "ROL32 a n = push_bit n a OR drop_bit (32 - n) a"

definition GETU32 :: "bytes \<Rightarrow> nat \<Rightarrow> u32" where
  "GETU32 p i = push_bit 24 (ucast (p ! i)) OR push_bit 16 (ucast (p ! (i + 1))) OR
     push_bit 8 (ucast (p ! (i + 2))) OR ucast (p ! (i + 3))"

definition PUTU32 :: "u32 \<Rightarrow> bytes" where
  "PUTU32 v = [ucast (drop_bit 24 v), ucast (drop_bit 16 v), ucast (drop_bit 8 v), ucast v]"

text \<open>
  \<open>memcpy\<close> into a block.  Written past the end it would make the list longer: that the contexts keep
  blocks of 64 bytes shows that no write does.
\<close>

definition blit :: "nat \<Rightarrow> bytes \<Rightarrow> bytes \<Rightarrow> bytes" where
  "blit off bs m = take off m @ bs @ drop (off + length bs) m"

text \<open>\<open>n\<close> blocks, one after the other.\<close>

fun compress_blocks :: "('h \<Rightarrow> bytes \<Rightarrow> 'h) \<Rightarrow> 'h \<Rightarrow> bytes \<Rightarrow> nat \<Rightarrow> 'h" where
  "compress_blocks f h d 0 = h"
| "compress_blocks f h d (Suc n) = compress_blocks f (f h (take 64 d)) (drop 64 d) n"

text \<open>The whole blocks of a message, and what is left.\<close>

function blocks :: "bytes \<Rightarrow> bytes list" where
  "blocks d = (if length d < 64 then [] else take 64 d # blocks (drop 64 d))"
  by pat_completeness auto
termination by (relation "measure length") auto

declare blocks.simps [simp del]

definition rest :: "bytes \<Rightarrow> bytes" where "rest d = drop (64 * (length d div 64)) d"

lemma rest_length [simp]: "length (rest d) = length d mod 64"
  by (simp add: rest_def minus_mult_div_eq_mod)

lemma blocks_small [simp]: "length d < 64 \<Longrightarrow> blocks d = []" "length d < 64 \<Longrightarrow> rest d = d"
  by (simp_all add: blocks.simps rest_def)

lemma long_block:
  assumes "\<not> length d < 64"
  shows "blocks d = take 64 d # blocks (drop 64 d)" "rest d = rest (drop 64 d)"
    "length d div 64 = Suc (length (drop 64 d) div 64)"
proof -
  obtain k where k: "length d = 64 + k" using assms by (metis le_Suc_ex not_less)
  then have q: "length d div 64 = Suc (k div 64)" by simp
  show "blocks d = take 64 d # blocks (drop 64 d)" using assms by (simp add: blocks.simps [of d])
  show "length d div 64 = Suc (length (drop 64 d) div 64)" by (simp only: q length_drop) (simp add: k)
  show "rest d = rest (drop 64 d)" unfolding rest_def q by (simp add: k add.commute)
qed

lemma blocks_append:
  "blocks (a @ b) = blocks a @ blocks (rest a @ b) \<and> rest (a @ b) = rest (rest a @ b)"
proof (induction a rule: blocks.induct)
  case (1 a)
  show ?case
  proof (cases "length a < 64")
    case True
    then show ?thesis by simp
  next
    case False
    then have "\<not> length (a @ b) < 64" by simp
    note ab = long_block(1,2) [OF this]
    have "take 64 (a @ b) = take 64 a" "drop 64 (a @ b) = drop 64 a @ b" using False by simp_all
    with ab long_block(1,2) [OF False] 1 [OF False] show ?thesis by (simp only: append_Cons)
  qed
qed

lemma blocks_one:
  assumes "length d = 64"
  shows "blocks (d @ e) = d # blocks e" "rest (d @ e) = rest e"
  using long_block(1,2) [of "d @ e"] assms by simp_all

lemma compress_blocks_all:
  "compress_blocks f h (d @ e) (length d div 64) = foldl f h (blocks d)"
proof (induction d arbitrary: h rule: blocks.induct)
  case (1 d)
  show ?case
  proof (cases "length d < 64")
    case False
    with 1 [OF False, of "f h (take 64 d)"] long_block(1,3) [OF False] show ?thesis by simp
  qed simp
qed

section \<open>Hash functions fed in pieces\<close>

text \<open>
  The padding of a message of \<open>n\<close> bytes: a one bit, zeros up to eight bytes before the end of a block,
  and the length in bits.
\<close>

definition pad :: "(u64 \<Rightarrow> bytes) \<Rightarrow> nat \<Rightarrow> bytes" where
  "pad len n = 0x80 # replicate ((119 - n mod 64) mod 64) 0 @ len (of_nat (8 * n))"

definition hash_spec :: "('h \<Rightarrow> bytes \<Rightarrow> 'h) \<Rightarrow> 'h \<Rightarrow> (u64 \<Rightarrow> bytes) \<Rightarrow> ('h \<Rightarrow> bytes) \<Rightarrow> bytes \<Rightarrow> bytes" where
  "hash_spec f iv len out m = out (foldl f iv (blocks (m @ pad len (length m))))"

text \<open>
  The contract of a context: \<open>absorbed s m\<close> says that the message so far is \<open>m\<close>; a piece has a length
  of 32 bits.
\<close>

locale stream_hash =
  fixes start :: 's and upd :: "bytes \<Rightarrow> 's \<Rightarrow> 's" and fin :: "'s \<Rightarrow> bytes"
    and absorbed :: "'s \<Rightarrow> bytes \<Rightarrow> bool" and spec :: "bytes \<Rightarrow> bytes"
  assumes absorbed_start: "absorbed start []"
    and absorbed_upd: "absorbed s m \<Longrightarrow> length d < 2 ^ 32 \<Longrightarrow> absorbed (upd d s) (m @ d)"
    and fin_spec: "absorbed s m \<Longrightarrow> fin s = spec m"
begin

lemma absorbed_fold:
  "absorbed s m \<Longrightarrow> list_all (\<lambda>d. length d < 2 ^ 32) ds \<Longrightarrow> absorbed (fold upd ds s) (m @ concat ds)"
proof (induction ds arbitrary: s m)
  case (Cons d ds)
  from Cons.IH [OF absorbed_upd [OF Cons.prems(1)], of d] Cons.prems(2) show ?case by simp
qed simp

lemma in_pieces: "list_all (\<lambda>d. length d < 2 ^ 32) ds \<Longrightarrow> fin (fold upd ds start) = spec (concat ds)"
  using fin_spec [OF absorbed_fold [OF absorbed_start]] by simp

end

section \<open>MD5\<close>

text \<open>The steps of the compression: the round, the word of the block, the shift and the constant.\<close>

type_synonym md5_state = "u32 \<times> u32 \<times> u32 \<times> u32"

definition md5_steps :: "(nat \<times> nat \<times> nat \<times> u32) list" where
  "md5_steps =
     [(0, 0, 7, 0xd76aa478), (0, 1, 12, 0xe8c7b756), (0, 2, 17, 0x242070db), (0, 3, 22, 0xc1bdceee),
      (0, 4, 7, 0xf57c0faf), (0, 5, 12, 0x4787c62a), (0, 6, 17, 0xa8304613), (0, 7, 22, 0xfd469501),
      (0, 8, 7, 0x698098d8), (0, 9, 12, 0x8b44f7af), (0, 10, 17, 0xffff5bb1), (0, 11, 22, 0x895cd7be),
      (0, 12, 7, 0x6b901122), (0, 13, 12, 0xfd987193), (0, 14, 17, 0xa679438e), (0, 15, 22, 0x49b40821),
      (1, 1, 5, 0xf61e2562), (1, 6, 9, 0xc040b340), (1, 11, 14, 0x265e5a51), (1, 0, 20, 0xe9b6c7aa),
      (1, 5, 5, 0xd62f105d), (1, 10, 9, 0x02441453), (1, 15, 14, 0xd8a1e681), (1, 4, 20, 0xe7d3fbc8),
      (1, 9, 5, 0x21e1cde6), (1, 14, 9, 0xc33707d6), (1, 3, 14, 0xf4d50d87), (1, 8, 20, 0x455a14ed),
      (1, 13, 5, 0xa9e3e905), (1, 2, 9, 0xfcefa3f8), (1, 7, 14, 0x676f02d9), (1, 12, 20, 0x8d2a4c8a),
      (2, 5, 4, 0xfffa3942), (2, 8, 11, 0x8771f681), (2, 11, 16, 0x6d9d6122), (2, 14, 23, 0xfde5380c),
      (2, 1, 4, 0xa4beea44), (2, 4, 11, 0x4bdecfa9), (2, 7, 16, 0xf6bb4b60), (2, 10, 23, 0xbebfbc70),
      (2, 13, 4, 0x289b7ec6), (2, 0, 11, 0xeaa127fa), (2, 3, 16, 0xd4ef3085), (2, 6, 23, 0x04881d05),
      (2, 9, 4, 0xd9d4d039), (2, 12, 11, 0xe6db99e5), (2, 15, 16, 0x1fa27cf8), (2, 2, 23, 0xc4ac5665),
      (3, 0, 6, 0xf4292244), (3, 7, 10, 0x432aff97), (3, 14, 15, 0xab9423a7), (3, 5, 21, 0xfc93a039),
      (3, 12, 6, 0x655b59c3), (3, 3, 10, 0x8f0ccc92), (3, 10, 15, 0xffeff47d), (3, 1, 21, 0x85845dd1),
      (3, 8, 6, 0x6fa87e4f), (3, 15, 10, 0xfe2ce6e0), (3, 6, 15, 0xa3014314), (3, 13, 21, 0x4e0811a1),
      (3, 4, 6, 0xf7537e82), (3, 11, 10, 0xbd3af235), (3, 2, 15, 0x2ad7d2bb), (3, 9, 21, 0xeb86d391)]"

definition md5_round :: "nat \<Rightarrow> u32 \<Rightarrow> u32 \<Rightarrow> u32 \<Rightarrow> u32" where
  "md5_round r b c d =
     (if r = 0 then ((c XOR d) AND b) XOR d
      else if r = 1 then ((b XOR c) AND d) XOR c
      else if r = 2 then b XOR c XOR d
      else (NOT d OR b) XOR c)"

text \<open>The registers are renamed from step to step instead of the arguments of the macro.\<close>

fun md5_step :: "u32 list \<Rightarrow> md5_state \<Rightarrow> nat \<times> nat \<times> nat \<times> u32 \<Rightarrow> md5_state" where
  "md5_step X (a, b, c, d) (r, k, s, t) = (d, ROL32 (a + (X ! k + t + md5_round r b c d)) s + b, b, c)"

fun md5_compress :: "md5_state \<Rightarrow> bytes \<Rightarrow> md5_state" where
  "md5_compress (a, b, c, d) blk =
     (let X = map (\<lambda>i. le_word (take 4 (drop (4 * i) blk))) [0..<16];
          (a', b', c', d') = foldl (md5_step X) (a, b, c, d) md5_steps
      in (a + a', b + b', c + c', d + d'))"

text \<open>\<open>_num\<close> is below 64 and kept as a number.\<close>

record md5_ctx =
  md5_h :: md5_state
  md5_data :: bytes
  md5_nl :: u32
  md5_nh :: u32
  md5_num :: nat

definition md5_init :: md5_ctx where
  "md5_init = \<lparr>md5_h = (0x67452301, 0xefcdab89, 0x98badcfe, 0x10325476), md5_data = replicate 64 0,
     md5_nl = 0, md5_nh = 0, md5_num = 0\<rparr>"

definition md5_tail :: "bytes \<Rightarrow> md5_ctx \<Rightarrow> md5_ctx" where
  "md5_tail d s =
     (let n = length d div 64;
          s1 = (if 0 < n then s\<lparr>md5_h := compress_blocks md5_compress (md5_h s) d n\<rparr> else s);
          d1 = (if 0 < n then drop (64 * n) d else d)
      in if d1 \<noteq> [] then s1\<lparr>md5_num := length d1, md5_data := blit 0 d1 (md5_data s1)\<rparr> else s1)"

definition md5_update :: "bytes \<Rightarrow> md5_ctx \<Rightarrow> md5_ctx" where
  "md5_update d s =
     (if d = [] then s
      else let len = of_nat (length d) :: u32;
          l = md5_nl s + push_bit 3 len;
          s1 = s\<lparr>md5_nh := (if l < md5_nl s then md5_nh s + 1 else md5_nh s) + drop_bit 29 len, md5_nl := l\<rparr>;
          n = md5_num s1
        in if n \<noteq> 0
           then if 64 \<le> length d \<or> 64 \<le> length d + n
             then md5_tail (drop (64 - n) d)
               (s1\<lparr>md5_h := compress_blocks md5_compress (md5_h s1) (blit n (take (64 - n) d) (md5_data s1)) 1,
                   md5_num := 0, md5_data := replicate 64 0\<rparr>)
             else s1\<lparr>md5_data := blit n d (md5_data s1), md5_num := n + length d\<rparr>
           else md5_tail d s1)"

fun md5_out :: "md5_state \<Rightarrow> bytes" where
  "md5_out (a, b, c, d) = le_bytes 4 a @ le_bytes 4 b @ le_bytes 4 c @ le_bytes 4 d"

definition md5_final :: "md5_ctx \<Rightarrow> bytes" where
  "md5_final s =
     (let d0 = blit (md5_num s) [0x80] (md5_data s); n = md5_num s + 1;
          (h1, d1, n1) = (if 56 < n
            then let d1 = blit n (replicate (64 - n) 0) d0
              in (compress_blocks md5_compress (md5_h s) d1 1, d1, 0)
            else (md5_h s, d0, n));
          d2 = blit n1 (replicate (56 - n1) 0) d1;
          d3 = blit 60 (le_bytes 4 (md5_nh s)) (blit 56 (le_bytes 4 (md5_nl s)) d2)
      in md5_out (compress_blocks md5_compress h1 d3 1))"

definition md5 :: "bytes \<Rightarrow> bytes" where "md5 d = md5_final (md5_update d md5_init)"

definition md5_spec :: "bytes \<Rightarrow> bytes" where
  "md5_spec = hash_spec md5_compress (md5_h md5_init) (le_bytes 8) md5_out"

section \<open>SM3\<close>

type_synonym sm3_state = "u32 list"

definition sm3_K :: "u32 list" where
  "sm3_K =
     [0x79cc4519, 0xf3988a32, 0xe7311465, 0xce6228cb, 0x9cc45197, 0x3988a32f, 0x7311465e, 0xe6228cbc,
      0xcc451979, 0x988a32f3, 0x311465e7, 0x6228cbce, 0xc451979c, 0x88a32f39, 0x11465e73, 0x228cbce6,
      0x9d8a7a87, 0x3b14f50f, 0x7629ea1e, 0xec53d43c, 0xd8a7a879, 0xb14f50f3, 0x629ea1e7, 0xc53d43ce,
      0x8a7a879d, 0x14f50f3b, 0x29ea1e76, 0x53d43cec, 0xa7a879d8, 0x4f50f3b1, 0x9ea1e762, 0x3d43cec5,
      0x7a879d8a, 0xf50f3b14, 0xea1e7629, 0xd43cec53, 0xa879d8a7, 0x50f3b14f, 0xa1e7629e, 0x43cec53d,
      0x879d8a7a, 0x0f3b14f5, 0x1e7629ea, 0x3cec53d4, 0x79d8a7a8, 0xf3b14f50, 0xe7629ea1, 0xcec53d43,
      0x9d8a7a87, 0x3b14f50f, 0x7629ea1e, 0xec53d43c, 0xd8a7a879, 0xb14f50f3, 0x629ea1e7, 0xc53d43ce,
      0x8a7a879d, 0x14f50f3b, 0x29ea1e76, 0x53d43cec, 0xa7a879d8, 0x4f50f3b1, 0x9ea1e762, 0x3d43cec5]"

definition P0 :: "u32 \<Rightarrow> u32" where "P0 x = x XOR ROL32 x 9 XOR ROL32 x 17"
definition P1 :: "u32 \<Rightarrow> u32" where "P1 x = x XOR ROL32 x 15 XOR ROL32 x 23"

definition FF :: "nat \<Rightarrow> u32 \<Rightarrow> u32 \<Rightarrow> u32 \<Rightarrow> u32" where
  "FF j x y z = (if j < 16 then x XOR y XOR z else (x AND y) OR (x AND z) OR (y AND z))"
definition GG :: "nat \<Rightarrow> u32 \<Rightarrow> u32 \<Rightarrow> u32 \<Rightarrow> u32" where
  "GG j x y z = (if j < 16 then x XOR y XOR z else ((y XOR z) AND x) XOR z)"

definition sm3_expand :: "bytes \<Rightarrow> u32 list" where
  "sm3_expand blk = foldl (\<lambda>W j. W @ [P1 (W ! (j - 16) XOR W ! (j - 9) XOR ROL32 (W ! (j - 3)) 15) XOR
       ROL32 (W ! (j - 13)) 7 XOR W ! (j - 6)])
     (map (\<lambda>j. GETU32 blk (j * 4)) [0..<16]) [16..<68]"

fun sm3_step :: "u32 list \<Rightarrow> sm3_state \<Rightarrow> nat \<Rightarrow> sm3_state" where
  "sm3_step W [A, B, C, D, E, F, G, H] j =
     (let SS1 = ROL32 (ROL32 A 12 + E + sm3_K ! j) 7; SS2 = SS1 XOR ROL32 A 12;
          TT1 = FF j A B C + D + SS2 + (W ! j XOR W ! (j + 4));
          TT2 = GG j E F G + H + SS1 + W ! j
      in [TT1, A, ROL32 B 9, C, P0 TT2, E, ROL32 F 19, G])"
| "sm3_step W s j = s"

definition sm3_compress :: "sm3_state \<Rightarrow> bytes \<Rightarrow> sm3_state" where
  "sm3_compress h blk = map2 (XOR) h (foldl (sm3_step (sm3_expand blk)) h [0..<64])"

record sm3_ctx =
  sm3_digest :: sm3_state
  sm3_nblocks :: u64
  sm3_block :: bytes
  sm3_num :: nat

definition sm3_init :: sm3_ctx where
  "sm3_init = \<lparr>sm3_digest = [0x7380166F, 0x4914B2B9, 0x172442D7, 0xDA8A0600,
       0xA96F30BC, 0x163138AA, 0xE38DEE4D, 0xB0FB0E4E],
     sm3_nblocks = 0, sm3_block = replicate 64 0, sm3_num = 0\<rparr>"

definition sm3_tail :: "bytes \<Rightarrow> sm3_ctx \<Rightarrow> sm3_ctx" where
  "sm3_tail d s =
     (let n = length d div 64; d1 = drop (64 * n) d
      in s\<lparr>sm3_digest := compress_blocks sm3_compress (sm3_digest s) d n,
           sm3_nblocks := sm3_nblocks s + of_nat n, sm3_num := length d1,
           sm3_block := (if d1 \<noteq> [] then blit 0 d1 (sm3_block s) else sm3_block s)\<rparr>)"

definition sm3_update :: "bytes \<Rightarrow> sm3_ctx \<Rightarrow> sm3_ctx" where
  "sm3_update d s =
     (if sm3_num s \<noteq> 0
      then let left = 64 - sm3_num s
        in if length d < left
           then s\<lparr>sm3_block := blit (sm3_num s) d (sm3_block s), sm3_num := sm3_num s + length d\<rparr>
           else let b = blit (sm3_num s) (take left d) (sm3_block s)
             in sm3_tail (drop left d)
               (s\<lparr>sm3_block := b, sm3_digest := compress_blocks sm3_compress (sm3_digest s) b 1,
                  sm3_nblocks := sm3_nblocks s + 1\<rparr>)
      else sm3_tail d s)"

definition sm3_final :: "sm3_ctx \<Rightarrow> bytes" where
  "sm3_final s =
     (let b0 = blit (sm3_num s) [0x80] (sm3_block s);
          (h1, b1) = (if sm3_num s + 9 \<le> 64
            then (sm3_digest s, blit (sm3_num s + 1) (replicate (64 - sm3_num s - 9) 0) b0)
            else let b = blit (sm3_num s + 1) (replicate (64 - sm3_num s - 1) 0) b0
              in (sm3_compress (sm3_digest s) b, blit 0 (replicate 56 0) b));
          b2 = blit 56 (PUTU32 (ucast (drop_bit 23 (sm3_nblocks s)))) b1;
          b3 = blit 60 (PUTU32 (ucast (push_bit 9 (sm3_nblocks s) + of_nat (8 * sm3_num s)))) b2
      in concat (map PUTU32 (sm3_compress h1 b3)))"

definition sm3 :: "bytes \<Rightarrow> bytes" where "sm3 d = sm3_final (sm3_update d sm3_init)"

definition sm3_spec :: "bytes \<Rightarrow> bytes" where
  "sm3_spec = hash_spec sm3_compress (sm3_digest sm3_init) (\<lambda>n. rev (le_bytes 8 n)) (\<lambda>h. concat (map PUTU32 h))"


section \<open>The contexts refine the specification\<close>

lemma blit_length: "off + length bs \<le> length m \<Longrightarrow> length (blit off bs m) = length m"
  by (simp add: blit_def)

lemma blit_at: "off \<le> length m \<Longrightarrow> take (off + length bs) (blit off bs m) = take off m @ bs"
  by (simp add: blit_def)

lemma blit_fill: "off + length bs = length m \<Longrightarrow> blit off bs m = take off m @ bs"
  by (simp add: blit_def)

text \<open>Where the padding falls: one block more, or two.\<close>

lemma pad_blocks:
  assumes len: "\<And>v. length (len v) = 8"
  shows "blocks (m @ pad len (length m)) =
    (if length m mod 64 < 56
     then blocks m @ [rest m @ 0x80 # replicate (55 - length m mod 64) 0 @ len (of_nat (8 * length m))]
     else blocks m @ [rest m @ 0x80 # replicate (63 - length m mod 64) 0,
       replicate 56 0 @ len (of_nat (8 * length m))])"
proof -
  let ?r = "length m mod 64" and ?l = "len (of_nat (8 * length m))"
  have r: "?r < 64" by simp
  have one: "blocks d = [d]" if "length d = 64" for d using blocks_one(1) [OF that, of "[]"] by simp
  have ba: "blocks (m @ pad len (length m)) = blocks m @ blocks (rest m @ pad len (length m))"
    using blocks_append by blast
  show ?thesis
  proof (cases "?r < 56")
    case True
    have "(119 - ?r) mod 64 = 55 - ?r"
    proof -
      have "119 - ?r = 64 + (55 - ?r)" using True by linarith
      then have "(119 - ?r) mod 64 = (55 - ?r) mod 64" by (metis mod_add_self1)
      then show ?thesis by simp
    qed
    then have p: "pad len (length m) = 0x80 # replicate (55 - ?r) 0 @ ?l" by (simp add: pad_def)
    have "length (rest m @ pad len (length m)) = 64" using True by (simp add: p len)
    from ba one [OF this] True show ?thesis by (simp add: p)
  next
    case False
    have n: "(119 - ?r) mod 64 = (63 - ?r) + 56" using False r by simp
    have "replicate ((119 - ?r) mod 64) (0 :: byte) = replicate (63 - ?r) 0 @ replicate 56 0"
      unfolding n by (rule replicate_add)
    then have p: "rest m @ pad len (length m) =
        (rest m @ 0x80 # replicate (63 - ?r) 0) @ (replicate 56 0 @ ?l)"
      unfolding pad_def by (simp only: append_assoc append_Cons)
    have l: "length (rest m @ 0x80 # replicate (63 - ?r) 0) = 64" "length (replicate 56 0 @ ?l) = 64"
      using r len by simp_all
    show ?thesis unfolding ba p blocks_one(1) [OF l(1)] one [OF l(2)] using False by simp
  qed
qed


subsection \<open>MD5\<close>

definition md5_absorbed :: "md5_ctx \<Rightarrow> bytes \<Rightarrow> bool" where
  "md5_absorbed s m \<longleftrightarrow>
     md5_h s = foldl md5_compress (md5_h md5_init) (blocks m) \<and>
     length (md5_data s) = 64 \<and> md5_num s = length m mod 64 \<and> take (md5_num s) (md5_data s) = rest m \<and>
     md5_nl s = of_nat (8 * length m) \<and> md5_nh s = of_nat (8 * length m div 2 ^ 32)"

lemma md5_tail_ok:
  assumes "md5_h s = foldl md5_compress h0 bs" and "length (md5_data s) = 64" and "md5_num s = 0"
  shows "md5_h (md5_tail d s) = foldl md5_compress h0 (bs @ blocks d) \<and> length (md5_data (md5_tail d s)) = 64 \<and>
    md5_num (md5_tail d s) = length d mod 64 \<and>
    take (length d mod 64) (md5_data (md5_tail d s)) = rest d \<and>
    md5_nl (md5_tail d s) = md5_nl s \<and> md5_nh (md5_tail d s) = md5_nh s"
proof -
  let ?n = "length d div 64"
  have h: "compress_blocks md5_compress (md5_h s) d ?n = foldl md5_compress h0 (bs @ blocks d)"
    using compress_blocks_all [of md5_compress "md5_h s" d "[]"] assms(1) by simp
  have small: "length d < 64" if "?n = 0" using that by (simp add: div_eq_0_iff)
  have d1: "(if 0 < ?n then drop (64 * ?n) d else d) = rest d" by (auto simp: rest_def)
  have h1: "md5_h (if 0 < ?n then s\<lparr>md5_h := compress_blocks md5_compress (md5_h s) d ?n\<rparr> else s)
      = foldl md5_compress h0 (bs @ blocks d)"
    using h small assms(1) by auto
  have r: "rest d = [] \<longleftrightarrow> length d mod 64 = 0" by (metis length_0_conv rest_length)
  have b: "length (blit 0 (rest d) (md5_data s)) = 64 \<and> take (length d mod 64) (blit 0 (rest d) (md5_data s)) = rest d"
    using assms(2) blit_at [of 0 "md5_data s" "rest d"] by (simp add: blit_length less_imp_le)
  show ?thesis
    unfolding md5_tail_def Let_def d1
    using h1 b r assms(2,3) by auto
qed


text \<open>The two counters hold the length in bits, with the carry of the first into the second.\<close>

lemma md5_count:
  fixes nl nh :: u32
  assumes nl: "nl = of_nat (8 * n)" and nh: "nh = of_nat (8 * n div 2 ^ 32)" and k: "k < 2 ^ 32"
  shows "nl + push_bit 3 (of_nat k) = of_nat (8 * (n + k))"
    and "(if nl + push_bit 3 (of_nat k) < nl then nh + 1 else nh) + drop_bit 29 (of_nat k) =
      of_nat (8 * (n + k) div 2 ^ 32)"
proof -
  have p: "push_bit 3 (of_nat k :: u32) = of_nat (8 * k)" by (simp add: push_bit_eq_mult)
  show l: "nl + push_bit 3 (of_nat k) = of_nat (8 * (n + k))" by (simp add: nl p)
  let ?a = "8 * n mod 2 ^ 32" and ?b = "8 * k mod 2 ^ 32"
  have u: "unat nl = ?a" "unat (nl + push_bit 3 (of_nat k)) = (?a + ?b) mod 2 ^ 32"
    unfolding p nl by (simp_all add: unat_word_ariths unat_of_nat take_bit_eq_mod mod_simps)
  have ab: "?a < 2 ^ 32" "?b < 2 ^ 32" by simp_all
  have less: "nl + push_bit 3 (of_nat k) < nl \<longleftrightarrow> 2 ^ 32 \<le> ?a + ?b"
  proof (cases "?a + ?b < 2 ^ 32")
    case True
    then show ?thesis unfolding word_less_nat_alt u by simp
  next
    case False
    then obtain c where c: "?a + ?b = 2 ^ 32 + c" by (metis le_Suc_ex not_less)
    with ab have "c < ?a" "c < 2 ^ 32" by linarith+
    with c show ?thesis unfolding word_less_nat_alt u by simp
  qed
  have carry: "(?a + ?b) div 2 ^ 32 = (if 2 ^ 32 \<le> ?a + ?b then 1 else 0)"
    using ab by (auto simp: div_nat_eqI)
  have high: "drop_bit 29 (of_nat k :: u32) = of_nat (8 * k div 2 ^ 32)"
  proof -
    have kk: "take_bit 32 k = k" using k by (simp add: take_bit_nat_eq_self)
    have e: "8 * k div 2 ^ 32 = drop_bit 29 k"
      using div_mult_mult1 [of "8 :: nat" k "2 ^ 29"] by (simp add: drop_bit_eq_div)
    have "i < 3" if "bit k (29 + i)" for i
    proof -
      have "29 + i < 32" using that kk by (metis bit_take_bit_iff)
      then show ?thesis by simp
    qed
    then show ?thesis unfolding e by (intro bit_word_eqI) (auto simp: bit_simps)
  qed
  have "8 * (n + k) div 2 ^ 32 = 8 * n div 2 ^ 32 + 8 * k div 2 ^ 32 + (?a + ?b) div 2 ^ 32"
    unfolding distrib_left by (rule div_add1_eq)
  then show "(if nl + push_bit 3 (of_nat k) < nl then nh + 1 else nh) + drop_bit 29 (of_nat k) =
      of_nat (8 * (n + k) div 2 ^ 32)"
    unfolding less high nh carry by simp
qed

lemma md5_update_ok:
  assumes ab: "md5_absorbed s m" and len: "length d < 2 ^ 32"
  shows "md5_absorbed (md5_update d s) (m @ d)"
proof (cases "d = []")
  case True
  with ab show ?thesis by (simp add: md5_update_def)
next
  case False
  let ?r = "length m mod 64" and ?l = "md5_nl s + push_bit 3 (of_nat (length d))"
  let ?s1 = "s\<lparr>md5_nh := (if ?l < md5_nl s then md5_nh s + 1 else md5_nh s) + drop_bit 29 (of_nat (length d)),
    md5_nl := ?l\<rparr>"
  have s: "md5_h s = foldl md5_compress (md5_h md5_init) (blocks m)" "length (md5_data s) = 64"
    "md5_num s = ?r" "take ?r (md5_data s) = rest m"
    "md5_nl s = of_nat (8 * length m)" "md5_nh s = of_nat (8 * length m div 2 ^ 32)"
    using ab unfolding md5_absorbed_def by auto
  have cnt: "md5_nl ?s1 = of_nat (8 * length (m @ d))" "md5_nh ?s1 = of_nat (8 * length (m @ d) div 2 ^ 32)"
    using md5_count [OF s(5,6) len] by simp_all
  have b: "blocks (m @ d) = blocks m @ blocks (rest m @ d)" "rest (m @ d) = rest (rest m @ d)"
    using blocks_append by blast+
  have lr: "length (m @ d) mod 64 = length (rest m @ d) mod 64" by (simp add: mod_simps)
  consider "?r = 0" | "?r \<noteq> 0" "64 \<le> length d + ?r" | "?r \<noteq> 0" "length d + ?r < 64" by linarith
  then show ?thesis
  proof cases
    case 1
    then have "rest m = []" by (metis length_0_conv rest_length)
    with md5_tail_ok [of ?s1 "md5_h md5_init" "blocks m" d] 1 s cnt b lr False show ?thesis
      by (simp add: md5_absorbed_def md5_update_def Let_def)
  next
    case 2
    let ?k = "64 - ?r"
    let ?blk = "blit ?r (take ?k d) (md5_data s)"
    have k: "length (take ?k d) = ?k" using 2(2) by simp
    have blk: "?blk = rest m @ take ?k d" using blit_fill [of ?r "take ?k d" "md5_data s"] k s(2,4) by simp
    have l64: "length ?blk = 64" using k by (simp add: blk)
    have "rest m @ d = ?blk @ drop ?k d" by (simp add: blk)
    with blocks_one [OF l64, of "drop ?k d"] b
    have bd: "blocks (m @ d) = (blocks m @ [?blk]) @ blocks (drop ?k d)" "rest (m @ d) = rest (drop ?k d)"
      by simp_all
    have ld: "length (m @ d) mod 64 = length (drop ?k d) mod 64"
      using bd(2) by (metis rest_length)
    let ?s2 = "?s1\<lparr>md5_h := compress_blocks md5_compress (md5_h ?s1) ?blk 1, md5_num := 0, md5_data := replicate 64 0\<rparr>"
    have "md5_h ?s2 = foldl md5_compress (md5_h md5_init) (blocks m @ [?blk])" using s(1) l64 by simp
    from md5_tail_ok [OF this, of "drop ?k d"] 2 s cnt bd ld False show ?thesis
      by (simp add: md5_absorbed_def md5_update_def Let_def)
  next
    case 3
    have "blocks (m @ d) = blocks m" "rest (m @ d) = rest m @ d" "length (m @ d) mod 64 = ?r + length d"
      using b lr 3 by simp_all
    with blit_at [of ?r "md5_data s" d] blit_length [of ?r d "md5_data s"] 3 s cnt False show ?thesis
      by (simp add: md5_absorbed_def md5_update_def Let_def add.commute)
  qed
qed


lemma le_bytes_low: "n \<le> 4 \<Longrightarrow> le_bytes n (ucast (w :: u64) :: u32) = le_bytes n w"
proof -
  have "\<forall>v :: u32. (\<forall>i < 8 * n. bit v i = bit w i) \<longrightarrow> le_bytes n v = le_bytes n w" for w :: u64
  proof (induction n arbitrary: w)
    case (Suc n)
    show ?case
    proof (intro allI impI)
      fix v :: u32 assume eq: "\<forall>i < 8 * Suc n. bit v i = bit w i"
      have "(ucast v :: byte) = ucast w" by (rule bit_word_eqI) (use eq in \<open>auto simp: bit_simps\<close>)
      moreover have "\<forall>i < 8 * n. bit (drop_bit 8 v) i = bit (drop_bit 8 w) i"
        using eq by (simp add: bit_simps)
      ultimately show "le_bytes (Suc n) v = le_bytes (Suc n) w" using Suc.IH by simp
    qed
  qed simp
  from this [of w] show "n \<le> 4 \<Longrightarrow> le_bytes n (ucast w :: u32) = le_bytes n w" by (auto simp: bit_simps)
qed

lemma le_bytes_split: "le_bytes (n + k) w = le_bytes n w @ le_bytes k (drop_bit (8 * n) w)"
  by (induction n arbitrary: w) (simp_all add: drop_bit_drop_bit add.commute)

lemma ucast_length_low: "(ucast (of_nat n :: u64) :: u32) = of_nat n"
  by (rule bit_word_eqI) (simp add: bit_simps)

lemma ucast_length_high: "(ucast (drop_bit 32 (of_nat n :: u64)) :: u32) = of_nat (n div 2 ^ 32)"
proof -
  have "n div 2 ^ 32 = drop_bit 32 n" by (simp only: drop_bit_eq_div)
  then show ?thesis by (simp only:) (rule bit_word_eqI, auto simp: bit_simps)
qed

lemma length_bytes: "le_bytes 4 (of_nat n :: u32) @ le_bytes 4 (of_nat (n div 2 ^ 32) :: u32) = le_bytes 8 (of_nat n :: u64)"
  using le_bytes_low [of 4 "of_nat n"] le_bytes_low [of 4 "drop_bit 32 (of_nat n)"]
    le_bytes_split [of 4 4 "of_nat n :: u64"]
  by (simp add: ucast_length_low ucast_length_high)

text \<open>What \<open>final\<close> writes behind the message, before the length.\<close>

lemma pad_one_block:
  assumes "length D = 64" and "take r D = R" and "r < 56"
  shows "take 56 (blit (r + 1) (replicate (55 - r) 0) (blit r [0x80] D)) = R @ 0x80 # replicate (55 - r) 0"
    and "length (blit (r + 1) (replicate (55 - r) 0) (blit r [0x80] D)) = 64"
proof -
  let ?d0 = "blit r [0x80] D"
  have d0: "take (r + 1) ?d0 = R @ [0x80]" "length ?d0 = 64"
    using blit_at [of r D "[0x80]"] blit_length [of r "[0x80]" D] assms by simp_all
  show "take 56 (blit (r + 1) (replicate (55 - r) 0) ?d0) = R @ 0x80 # replicate (55 - r) 0"
    "length (blit (r + 1) (replicate (55 - r) 0) ?d0) = 64"
    using blit_at [of "r + 1" ?d0 "replicate (55 - r) 0"] d0 assms(3)
      blit_length [of "r + 1" "replicate (55 - r) 0" ?d0] by simp_all
qed

lemma pad_two_blocks:
  assumes "length D = 64" and "take r D = R" and "r < 64"
  shows "blit (r + 1) (replicate (63 - r) 0) (blit r [0x80] D) = R @ 0x80 # replicate (63 - r) 0"
proof -
  let ?d0 = "blit r [0x80] D"
  have d0: "take (r + 1) ?d0 = R @ [0x80]" "length ?d0 = 64"
    using blit_at [of r D "[0x80]"] blit_length [of r "[0x80]" D] assms by simp_all
  show ?thesis using blit_fill [of "r + 1" "replicate (63 - r) 0" ?d0] d0 assms(3) by simp
qed

lemma blit_ends:
  assumes "length d = 64" and "length a = 4" and "length b = 4"
  shows "blit 60 b (blit 56 a d) = take 56 d @ a @ b"
  using assms by (simp add: blit_def)

lemma md5_final_ok:
  assumes "md5_absorbed s m"
  shows "md5_final s = md5_spec m"
proof -
  obtain r where r: "r = length m mod 64" "r < 64" by simp
  obtain L where L: "L = le_bytes 8 (of_nat (8 * length m) :: u64)" by blast
  have s: "md5_h s = foldl md5_compress (md5_h md5_init) (blocks m)" "length (md5_data s) = 64"
    "md5_num s = r" "take r (md5_data s) = rest m"
    and nl: "le_bytes 4 (md5_nl s) @ le_bytes 4 (md5_nh s) = L"
    using assms length_bytes [of "8 * length m"] unfolding md5_absorbed_def L r(1) by auto
  have ends: "blit 60 (le_bytes 4 (md5_nh s)) (blit 56 (le_bytes 4 (md5_nl s)) d) = take 56 d @ L" "length (take 56 d @ L) = 64"
    if "length d = 64" for d
    using blit_ends [OF that] nl that L by simp_all
  have pb: "md5_spec m = md5_out (foldl md5_compress (md5_h md5_init)
      (if r < 56 then blocks m @ [rest m @ 0x80 # replicate (55 - r) 0 @ L]
       else blocks m @ [rest m @ 0x80 # replicate (63 - r) 0, replicate 56 0 @ L]))"
    unfolding md5_spec_def hash_spec_def r(1) L by (subst pad_blocks) simp_all
  show ?thesis
  proof (cases "r < 56")
    case True
    from pad_one_block [OF s(2,4) True] True ends [of "blit (r + 1) (replicate (55 - r) 0) (blit r [0x80] (md5_data s))"]
      s pb show ?thesis
      by (simp add: md5_final_def Let_def)
  next
    case False
    note d1 = pad_two_blocks [OF s(2,4) r(2)]
    let ?d1 = "rest m @ 0x80 # replicate (63 - r) 0"
    have l: "length ?d1 = 64" using r by simp
    have d2: "blit 0 (replicate 56 0) ?d1 = replicate 56 0 @ drop 56 ?d1" "length (blit 0 (replicate 56 0) ?d1) = 64"
      using l by (simp_all add: blit_def)
    from d1 l d2 False ends [OF d2(2)] s pb show ?thesis
      by (simp add: md5_final_def Let_def)
  qed
qed

interpretation md5: stream_hash md5_init md5_update md5_final md5_absorbed md5_spec
proof
  show "md5_absorbed md5_init []" by (simp add: md5_absorbed_def md5_init_def)
  show "md5_absorbed (md5_update d s) (m @ d)" if "md5_absorbed s m" "length d < 2 ^ 32" for s m d
    using that by (rule md5_update_ok)
  show "md5_final s = md5_spec m" if "md5_absorbed s m" for s m using that by (rule md5_final_ok)
qed

text \<open>
  MD5 fed in pieces.  However a message is cut into the pieces handed to \<open>update\<close>, \<open>final\<close> gives the
  MD5 of the message: the iterated compression of the message with its padding and its length in bits.
\<close>

theorem md5_in_pieces:
  assumes "list_all (\<lambda>d. length d < 2 ^ 32) ds"
  shows "md5_final (fold md5_update ds md5_init) = md5_spec (concat ds)"
  by (rule md5.in_pieces) (rule assms)

theorem md5_in_pieces_witness:
  "md5_final (fold md5_update [replicate 60 1, replicate 70 2] md5_init) = md5_spec (replicate 60 1 @ replicate 70 2)"
  using md5_in_pieces [of "[replicate 60 1, replicate 70 2]"] by simp

subsection \<open>SM3\<close>

definition sm3_absorbed :: "sm3_ctx \<Rightarrow> bytes \<Rightarrow> bool" where
  "sm3_absorbed s m \<longleftrightarrow>
     sm3_digest s = foldl sm3_compress (sm3_digest sm3_init) (blocks m) \<and>
     length (sm3_block s) = 64 \<and> sm3_num s = length m mod 64 \<and> take (sm3_num s) (sm3_block s) = rest m \<and>
     sm3_nblocks s = of_nat (length m div 64)"

lemma sm3_tail_ok:
  assumes "sm3_digest s = foldl sm3_compress h0 bs" and "length (sm3_block s) = 64"
  shows "sm3_digest (sm3_tail d s) = foldl sm3_compress h0 (bs @ blocks d) \<and> length (sm3_block (sm3_tail d s)) = 64 \<and>
    sm3_num (sm3_tail d s) = length d mod 64 \<and>
    take (length d mod 64) (sm3_block (sm3_tail d s)) = rest d \<and>
    sm3_nblocks (sm3_tail d s) = sm3_nblocks s + of_nat (length d div 64)"
proof -
  let ?n = "length d div 64"
  have h: "compress_blocks sm3_compress (sm3_digest s) d ?n = foldl sm3_compress h0 (bs @ blocks d)"
    using compress_blocks_all [of sm3_compress "sm3_digest s" d "[]"] assms(1) by simp
  have d1: "drop (64 * ?n) d = rest d" by (simp add: rest_def)
  have r: "rest d = [] \<longleftrightarrow> length d mod 64 = 0" by (metis length_0_conv rest_length)
  have b: "length (blit 0 (rest d) (sm3_block s)) = 64 \<and> take (length d mod 64) (blit 0 (rest d) (sm3_block s)) = rest d"
    using assms(2) blit_at [of 0 "sm3_block s" "rest d"] by (simp add: blit_length less_imp_le)
  show ?thesis
    unfolding sm3_tail_def Let_def d1
    using h b r assms(2) by auto
qed

lemma sm3_update_ok:
  assumes ab: "sm3_absorbed s m"
  shows "sm3_absorbed (sm3_update d s) (m @ d)"
proof -
  obtain r where r: "r = length m mod 64" "r < 64" by simp
  obtain q where q: "q = length m div 64" "length m = 64 * q + r" unfolding r by simp
  have s: "sm3_digest s = foldl sm3_compress (sm3_digest sm3_init) (blocks m)" "length (sm3_block s) = 64"
    "sm3_num s = r" "take r (sm3_block s) = rest m" "sm3_nblocks s = of_nat q"
    using ab unfolding sm3_absorbed_def q(1) r(1) by auto
  have b: "blocks (m @ d) = blocks m @ blocks (rest m @ d)" "rest (m @ d) = rest (rest m @ d)"
    using blocks_append by blast+
  have lr: "length (rest m) = r" using r by simp
  have lm: "length (m @ d) = 64 * q + (r + length d)" using q(2) by simp
  have dv: "length (m @ d) div 64 = q + (r + length d) div 64" "length (m @ d) mod 64 = (r + length d) mod 64"
    unfolding lm by simp_all
  consider "r = 0" | "r \<noteq> 0" "64 - r \<le> length d" | "r \<noteq> 0" "length d < 64 - r" by linarith
  then show ?thesis
  proof cases
    case 1
    then have "rest m = []" using lr length_0_conv by metis
    with sm3_tail_ok [OF s(1,2), of d] 1 s b dv show ?thesis
      by (simp add: sm3_absorbed_def sm3_update_def)
  next
    case 2
    let ?k = "64 - r"
    let ?blk = "blit r (take ?k d) (sm3_block s)"
    have k: "length (take ?k d) = ?k" using 2(2) by simp
    have blk: "?blk = rest m @ take ?k d" using blit_fill [of r "take ?k d" "sm3_block s"] k s(2,4) r by simp
    have l64: "length ?blk = 64" unfolding blk using k lr r(2) by simp
    have "rest m @ d = ?blk @ drop ?k d" by (simp add: blk)
    with blocks_one [OF l64, of "drop ?k d"] b
    have bd: "blocks (m @ d) = (blocks m @ [?blk]) @ blocks (drop ?k d)" "rest (m @ d) = rest (drop ?k d)"
      by simp_all
    obtain e where e: "e = length (drop ?k d)" by simp
    have re: "r + length d = 64 + e" unfolding e using 2(2) r(2) by simp
    have ld: "length (m @ d) div 64 = q + 1 + length (drop ?k d) div 64"
      "length (m @ d) mod 64 = length (drop ?k d) mod 64"
      unfolding dv re e [symmetric] by simp_all
    let ?s2 = "s\<lparr>sm3_block := ?blk, sm3_digest := compress_blocks sm3_compress (sm3_digest s) ?blk 1,
                  sm3_nblocks := sm3_nblocks s + 1\<rparr>"
    have h2: "sm3_digest ?s2 = foldl sm3_compress (sm3_digest sm3_init) (blocks m @ [?blk])" using s(1) l64 by simp
    have upd: "sm3_update d s = sm3_tail (drop ?k d) ?s2" using 2 s(3) by (simp add: sm3_update_def Let_def)
    have l2: "length (sm3_block ?s2) = 64" using l64 by simp
    from sm3_tail_ok [OF h2 l2, of "drop ?k d"] s(5) bd ld show ?thesis
      unfolding upd sm3_absorbed_def by (simp add: add.assoc)
  next
    case 3
    have "blocks (m @ d) = blocks m" "rest (m @ d) = rest m @ d" "length (m @ d) mod 64 = r + length d"
      "length (m @ d) div 64 = q"
      using b dv lr 3 by simp_all
    with blit_at [of r "sm3_block s" d] blit_length [of r d "sm3_block s"] 3 s r show ?thesis
      by (simp add: sm3_absorbed_def sm3_update_def Let_def)
  qed
qed

lemma PUTU32_rev: "PUTU32 v = rev (le_bytes 4 v)"
  by (simp add: PUTU32_def eval_nat_numeral drop_bit_drop_bit)

text \<open>The length in bits, from the number of whole blocks and what is left.\<close>

lemma sm3_length:
  assumes "r < 64"
  shows "PUTU32 (ucast (drop_bit 23 (of_nat q :: u64))) @
      PUTU32 (ucast (push_bit 9 (of_nat q :: u64) + of_nat (8 * r))) =
    rev (le_bytes 8 (of_nat (8 * (64 * q + r)) :: u64))"
proof -
  let ?n = "8 * (64 * q + r)"
  have lo: "push_bit 9 (of_nat q :: u64) + of_nat (8 * r) = of_nat ?n"
    by (simp add: push_bit_eq_mult distrib_left)
  have "?n div 2 ^ 32 = q div 2 ^ 23"
  proof -
    have "?n div 2 ^ 32 = ?n div 2 ^ 9 div 2 ^ 23" by (simp add: div_mult2_eq [symmetric])
    moreover have "?n div 2 ^ 9 = q" using assms by simp
    ultimately show ?thesis by simp
  qed
  then have hi: "(of_nat (?n div 2 ^ 32) :: u32) = ucast (drop_bit 23 (of_nat q :: u64))"
    unfolding drop_bit_eq_div [symmetric] by (simp only:) (rule bit_word_eqI, auto simp: bit_simps)
  show ?thesis
    unfolding PUTU32_rev lo hi [symmetric] ucast_length_low
    by (simp only: rev_append [symmetric] length_bytes)
qed

lemma sm3_final_ok:
  assumes "sm3_absorbed s m"
  shows "sm3_final s = sm3_spec m"
proof -
  obtain r where r: "r = length m mod 64" "r < 64" by simp
  obtain q where q: "q = length m div 64" "length m = 64 * q + r" unfolding r by simp
  obtain L where L: "L = rev (le_bytes 8 (of_nat (8 * length m) :: u64))" by blast
  have s: "sm3_digest s = foldl sm3_compress (sm3_digest sm3_init) (blocks m)" "length (sm3_block s) = 64"
    "sm3_num s = r" "take r (sm3_block s) = rest m" "sm3_nblocks s = of_nat q"
    using assms unfolding sm3_absorbed_def q(1) r(1) by auto
  define hi where "hi = PUTU32 (ucast (drop_bit 23 (sm3_nblocks s)))"
  define lo where "lo = PUTU32 (ucast (push_bit 9 (sm3_nblocks s) + of_nat (8 * r)))"
  have hl: "hi @ lo = L" unfolding hi_def lo_def s(5) L q(2) by (rule sm3_length [OF r(2)])
  have ends: "blit 60 lo (blit 56 hi d) = take 56 d @ L" "length (take 56 d @ L) = 64" if "length d = 64" for d
    using blit_ends [OF that, of hi lo] hl that by (simp_all add: L, simp_all add: hi_def lo_def PUTU32_def)
  have fin: "sm3_final s =
    (let b0 = blit r [0x80] (sm3_block s);
         (h1, b1) = (if r < 56 then (sm3_digest s, blit (r + 1) (replicate (55 - r) 0) b0)
           else let b = blit (r + 1) (replicate (63 - r) 0) b0 in (sm3_compress (sm3_digest s) b, blit 0 (replicate 56 0) b))
     in concat (map PUTU32 (sm3_compress h1 (blit 60 lo (blit 56 hi b1)))))"
    unfolding sm3_final_def s(3) hi_def lo_def Let_def by (simp add: numeral_eq_Suc less_Suc_eq_le)
  have pb: "sm3_spec m = concat (map PUTU32 (foldl sm3_compress (sm3_digest sm3_init)
      (if r < 56 then blocks m @ [rest m @ 0x80 # replicate (55 - r) 0 @ L]
       else blocks m @ [rest m @ 0x80 # replicate (63 - r) 0, replicate 56 0 @ L])))"
    unfolding sm3_spec_def hash_spec_def r(1) L by (subst pad_blocks) simp_all
  show ?thesis
  proof (cases "r < 56")
    case True
    from pad_one_block [OF s(2,4) True] True ends [of "blit (r + 1) (replicate (55 - r) 0) (blit r [0x80] (sm3_block s))"]
      s(1) pb show ?thesis
      by (simp add: fin Let_def)
  next
    case False
    note d1 = pad_two_blocks [OF s(2,4) r(2)]
    let ?d1 = "rest m @ 0x80 # replicate (63 - r) 0"
    have lr: "length (rest m) = r" using r(1) by simp
    have l: "length ?d1 = 64" using lr r(2) by simp
    have d2: "blit 0 (replicate 56 0) ?d1 = replicate 56 0 @ drop 56 ?d1" "length (blit 0 (replicate 56 0) ?d1) = 64"
      using l by (simp_all add: blit_def)
    from d1 d2 False ends [OF d2(2)] s(1) pb show ?thesis
      by (simp add: fin Let_def)
  qed
qed

interpretation sm3: stream_hash sm3_init sm3_update sm3_final sm3_absorbed sm3_spec
proof
  show "sm3_absorbed sm3_init []" by (simp add: sm3_absorbed_def sm3_init_def)
  show "sm3_absorbed (sm3_update d s) (m @ d)" if "sm3_absorbed s m" for s m d
    using that by (rule sm3_update_ok)
  show "sm3_final s = sm3_spec m" if "sm3_absorbed s m" for s m using that by (rule sm3_final_ok)
qed

text \<open>
  SM3 fed in pieces.  However a message is cut into the pieces handed to \<open>update\<close>, \<open>final\<close> gives the
  SM3 of the message: the iterated compression of the message with its padding and its length in bits,
  which the context keeps as a number of blocks and a number of bytes.
\<close>

theorem sm3_in_pieces:
  assumes "list_all (\<lambda>d. length d < 2 ^ 32) ds"
  shows "sm3_final (fold sm3_update ds sm3_init) = sm3_spec (concat ds)"
  by (rule sm3.in_pieces) (rule assms)

theorem sm3_in_pieces_witness:
  "sm3_final (fold sm3_update [replicate 60 1, replicate 70 2] sm3_init) = sm3_spec (replicate 60 1 @ replicate 70 2)"
  using sm3_in_pieces [of "[replicate 60 1, replicate 70 2]"] by simp

end
