(* ===== verification/Ys_Base64.thy ===== *)
theory Ys_Base64
  imports Ys_Url
begin

text \<open>
  \<open>isaac/alg/ys_base64.hpp\<close>: the encoder with its three states and the decoder, which patches the
  last byte of its output.  Both index with an \<open>unsigned int\<close> of 32 bits and compare it with the
  \<open>size_t\<close> length of the input, so that from \<open>2 ^ 32\<close> characters on the index wraps and the loop does
  not end: the loops are partial functions, and \<open>None\<close> means that they do not return.
\<close>

unbundle bit_operations_syntax

section \<open>Encoding\<close>

definition base64en :: string where
  "base64en = ''ABCDEFGHIJKLMNOPQRSTUVWXYZabcdefghijklmnopqrstuvwxyz0123456789+/''"

definition en_char :: "byte \<Rightarrow> char" where "en_char v = base64en ! unat v"

text \<open>\<open>s\<close> is the state, \<open>l\<close> the byte before.\<close>

partial_function (option) b64_encode_loop :: "bytes \<Rightarrow> u32 \<Rightarrow> nat \<Rightarrow> byte \<Rightarrow> string \<Rightarrow> (string \<times> nat \<times> byte) option" where
  "b64_encode_loop d i s l out =
     (if unat i < length d
      then
        (if s = 0 then b64_encode_loop d (i + 1) 1 (d ! unat i) (out @ [en_char (drop_bit 2 (d ! unat i) AND 0x3F)])
         else if s = 1
           then b64_encode_loop d (i + 1) 2 (d ! unat i)
             (out @ [en_char (push_bit 4 (l AND 0x3) OR (drop_bit 4 (d ! unat i) AND 0xF))])
         else b64_encode_loop d (i + 1) 0 (d ! unat i)
           (out @ [en_char (push_bit 2 (l AND 0xF) OR (drop_bit 6 (d ! unat i) AND 0x3)), en_char (d ! unat i AND 0x3F)]))
      else Some (out, s, l))"

definition b64_encode :: "bytes \<Rightarrow> string option" where
  "b64_encode d =
     map_option (\<lambda>(out, s, l).
        if s = 1 then out @ [en_char (push_bit 4 (l AND 0x3)), CHR ''='', CHR ''='']
        else if s = 2 then out @ [en_char (push_bit 2 (l AND 0xF)), CHR ''='']
        else out) (b64_encode_loop d 0 0 0 [])"

section \<open>Decoding\<close>

text \<open>\<open>base64de\<close> at the characters the decoder lets through; \<open>None\<close> is the entry 255.\<close>

definition de_char :: "char \<Rightarrow> byte option" where
  "de_char ch =
     (let n = chcode ch in
      if n = 43 then Some 62 else if n = 47 then Some 63
      else if 48 \<le> n \<and> n \<le> 57 then Some (of_nat (n + 4))
      else if 65 \<le> n \<and> n \<le> 90 then Some (of_nat (n - 65))
      else if 97 \<le> n \<and> n \<le> 122 then Some (of_nat (n - 71))
      else None)"

text \<open>
  \<open>out[j++] |= v\<close>.  An invalid character makes the source \<open>return 0\<close>, which constructs the result
  from a null pointer: \<open>Undef\<close>.  \<open>char\<close> is signed, so that the characters from 128 on are below \<open>'+'\<close>.
\<close>

definition or_at :: "nat \<Rightarrow> byte \<Rightarrow> bytes \<Rightarrow> bytes" where
  "or_at j v out = out[j := (out ! j) OR v]"

partial_function (option) b64_decode_loop :: "string \<Rightarrow> u32 \<Rightarrow> bytes \<Rightarrow> u32 \<Rightarrow> (unit, bytes \<times> u32) outcome option" where
  "b64_decode_loop s i out j =
     (if \<not> unat i < length s \<or> s ! unat i = CHR ''='' then Some (Ok (out, j))
      else if chcode (s ! unat i) < 43 \<or> 122 < chcode (s ! unat i) then Some Undef
      else case de_char (s ! unat i) of
        None \<Rightarrow> Some Undef
      | Some c \<Rightarrow>
          (if i AND 3 = 0 then b64_decode_loop s (i + 1) (out @ [push_bit 2 c]) j
           else if length out \<le> unat j then Some Undef
           else if i AND 3 = 1 then b64_decode_loop s (i + 1)
             (or_at (unat j) (drop_bit 4 c AND 0x3) out @ [push_bit 4 (c AND 0xF)]) (j + 1)
           else if i AND 3 = 2 then b64_decode_loop s (i + 1)
             (or_at (unat j) (drop_bit 2 c AND 0xF) out @ [push_bit 6 (c AND 0x3)]) (j + 1)
           else b64_decode_loop s (i + 1) (or_at (unat j) c out) (j + 1)))"

text \<open>
  The final loop compares its counter with a length that shrinks.  \<open>j\<close> never exceeds the length of the
  output (\<open>decode_loop_bound\<close>), so that the difference does not wrap.
\<close>

function pop_loop :: "nat \<Rightarrow> nat \<Rightarrow> bytes \<Rightarrow> bytes" where
  "pop_loop i j out = (if i < length out - j then pop_loop (i + 1) j (butlast out) else out)"
  by pat_completeness auto
termination by (relation "measure (\<lambda>(i, j, out). length out - j - i)") auto

definition b64_decode :: "string \<Rightarrow> (unit, bytes) outcome option" where
  "b64_decode s =
     (if length s mod 4 \<noteq> 0 then Some (Ok [])
      else map_option (mapO (\<lambda>(out, j). pop_loop 0 (unat j) out)) (b64_decode_loop s 0 [] 0))"

declare pop_loop.simps [simp del]

section \<open>The loops below the wrap\<close>

text \<open>The loops over a list, without an index.\<close>

fun encode_list :: "bytes \<Rightarrow> nat \<Rightarrow> byte \<Rightarrow> string \<Rightarrow> string \<times> nat \<times> byte" where
  "encode_list [] s l out = (out, s, l)"
| "encode_list (c # cs) s l out =
     (if s = 0 then encode_list cs 1 c (out @ [en_char (drop_bit 2 c AND 0x3F)])
      else if s = 1
        then encode_list cs 2 c (out @ [en_char (push_bit 4 (l AND 0x3) OR (drop_bit 4 c AND 0xF))])
      else encode_list cs 0 c
        (out @ [en_char (push_bit 2 (l AND 0xF) OR (drop_bit 6 c AND 0x3)), en_char (c AND 0x3F)]))"

fun decode_list :: "string \<Rightarrow> nat \<Rightarrow> bytes \<Rightarrow> nat \<Rightarrow> (unit, bytes \<times> nat) outcome" where
  "decode_list [] i out j = Ok (out, j)"
| "decode_list (ch # cs) i out j =
     (if ch = CHR ''='' then Ok (out, j)
      else if chcode ch < 43 \<or> 122 < chcode ch then Undef
      else case de_char ch of
        None \<Rightarrow> Undef
      | Some c \<Rightarrow>
          (if i mod 4 = 0 then decode_list cs (i + 1) (out @ [push_bit 2 c]) j
           else if length out \<le> j then Undef
           else if i mod 4 = 1 then decode_list cs (i + 1)
             (or_at j (drop_bit 4 c AND 0x3) out @ [push_bit 4 (c AND 0xF)]) (j + 1)
           else if i mod 4 = 2 then decode_list cs (i + 1)
             (or_at j (drop_bit 2 c AND 0xF) out @ [push_bit 6 (c AND 0x3)]) (j + 1)
           else decode_list cs (i + 1) (or_at j c out) (j + 1)))"

lemma next_index: "unat i < n \<Longrightarrow> n < 2 ^ 32 \<Longrightarrow> unat ((i :: u32) + 1) = Suc (unat i)"
  by (simp add: unat_word_ariths)

lemma encode_loop_list:
  "length d < 2 ^ 32 \<Longrightarrow> unat i \<le> length d \<Longrightarrow>
   b64_encode_loop d i s l out = Some (encode_list (drop (unat i) d) s l out)"
proof (induction "length d - unat i" arbitrary: i s l out)
  case 0
  then show ?case by (simp add: b64_encode_loop.simps)
next
  case (Suc n)
  then have lt: "unat i < length d" by simp
  have i1: "unat (i + 1) = Suc (unat i)" by (rule next_index [OF lt Suc.prems(1)])
  have d: "drop (unat i) d = d ! unat i # drop (unat (i + 1)) d" using lt i1 by (simp add: Cons_nth_drop_Suc)
  have ih: "b64_encode_loop d (i + 1) s l out = Some (encode_list (drop (unat (i + 1)) d) s l out)" for s l out
    by (rule Suc.hyps(1)) (use Suc i1 in simp_all)
  show ?case unfolding b64_encode_loop.simps [of d i] d using lt by (simp add: ih)
qed

lemma low_bits: "(i :: u32) AND 3 = of_nat (unat i mod 4)" "(i :: u32) AND 3 = of_nat k \<longleftrightarrow> unat i mod 4 = k" if "k < 4"
proof -
  have "i AND 3 = take_bit 2 i" using take_bit_eq_mask [of 2 i] by (simp add: mask_eq_exp_minus_1)
  moreover have "unat (take_bit 2 i) = unat i mod 4" by (simp add: unsigned_take_bit_eq take_bit_nat_def)
  ultimately show 1: "i AND 3 = of_nat (unat i mod 4)" by (metis of_nat_unat ucast_id)
  have "unat (of_nat (unat i mod 4) :: u32) = unat i mod 4" "unat (of_nat k :: u32) = k"
    using that by (simp_all add: unat_of_nat)
  with 1 show "i AND 3 = of_nat k \<longleftrightarrow> unat i mod 4 = k" by metis
qed

lemma low_bits_012 [simp]:
  "(i :: u32) AND 3 = 0 \<longleftrightarrow> unat i mod 4 = 0" "i AND 3 = 1 \<longleftrightarrow> unat i mod 4 = 1" "i AND 3 = 2 \<longleftrightarrow> unat i mod 4 = 2"
  using low_bits(2) [of 0 i] low_bits(2) [of 1 i] low_bits(2) [of 2 i] by simp_all

lemma decode_loop_list:
  "length s < 2 ^ 32 \<Longrightarrow> unat i \<le> length s \<Longrightarrow> unat j \<le> unat i \<Longrightarrow>
   b64_decode_loop s i out j = Some (mapO (\<lambda>(o', k). (o', of_nat k)) (decode_list (drop (unat i) s) (unat i) out (unat j)))"
proof (induction "length s - unat i" arbitrary: i out j)
  case 0
  then show ?case by (simp add: b64_decode_loop.simps)
next
  case (Suc n)
  then have lt: "unat i < length s" by simp
  have i1: "unat (i + 1) = Suc (unat i)" by (rule next_index [OF lt Suc.prems(1)])
  have "unat j < length s" using Suc.prems(3) lt by simp
  then have j1: "unat (j + 1) = Suc (unat j)" using Suc.prems(1) by (rule next_index)
  have d: "drop (unat i) s = s ! unat i # drop (unat (i + 1)) s" using lt i1 by (simp add: Cons_nth_drop_Suc)
  have ih: "b64_decode_loop s (i + 1) out k =
      Some (mapO (\<lambda>(o', k). (o', of_nat k)) (decode_list (drop (unat (i + 1)) s) (unat (i + 1)) out (unat k)))"
    if "k = j \<or> k = j + 1" for out k
    by (rule Suc.hyps(1)) (use Suc i1 j1 that in auto)
  show ?case unfolding b64_decode_loop.simps [of s i] d using lt by (simp add: ih i1 j1 split: option.split)
qed

section \<open>Decoding undoes encoding\<close>

lemma en_table: "map de_char base64en = map (\<lambda>n. Some (of_nat n)) [0..<64]"
  by (simp add: base64en_def de_char_def chcode_def upt_conv_Cons)

lemma en_plain: "list_all (\<lambda>c. c \<noteq> CHR ''='' \<and> 43 \<le> chcode c \<and> chcode c \<le> 122) base64en"
  by (simp add: base64en_def chcode_def)

lemma en_char_facts:
  assumes "v AND 0x3F = v"
  shows "de_char (en_char v) = Some v" "en_char v \<noteq> CHR ''=''" "\<not> chcode (en_char v) < 43"
    "\<not> 122 < chcode (en_char v)"
proof -
  have "v \<le> 0x3F" using assms by (metis word_and_le1)
  then have v: "unat v < 64" by (simp add: word_le_nat_alt)
  have len: "length base64en = 64" by (simp add: base64en_def)
  from arg_cong [OF en_table, of "\<lambda>xs. xs ! unat v"] v len
  show "de_char (en_char v) = Some v" by (simp add: en_char_def)
  from en_plain v len show "en_char v \<noteq> CHR ''=''" "\<not> chcode (en_char v) < 43"
    "\<not> 122 < chcode (en_char v)"
    by (auto simp: en_char_def list_all_length)
qed

lemma byte_bits: "(\<And>n. n \<in> {0, 1, 2, 3, 4, 5, 6, 7} \<Longrightarrow> bit a n = bit b n) \<Longrightarrow> (a :: byte) = b"
proof (rule bit_word_eqI)
  fix n :: nat
  assume "n < LENGTH(8)" and "\<And>n. n \<in> {0, 1, 2, 3, 4, 5, 6, 7} \<Longrightarrow> bit a n = bit b n"
  moreover have "n < 8 \<Longrightarrow> n \<in> {0, 1, 2, 3, 4, 5, 6, 7}" by (simp only: insert_iff empty_iff) arith
  ultimately show "bit a n = bit b n" by simp
qed

text \<open>The four groups of six bits of three bytes, and the bytes the decoder puts together.\<close>

definition six0 :: "byte \<Rightarrow> byte" where "six0 a = drop_bit 2 a AND 0x3F"
definition six1 :: "byte \<Rightarrow> byte \<Rightarrow> byte" where "six1 a b = push_bit 4 (a AND 0x3) OR (drop_bit 4 b AND 0xF)"
definition six2 :: "byte \<Rightarrow> byte \<Rightarrow> byte" where "six2 b c = push_bit 2 (b AND 0xF) OR (drop_bit 6 c AND 0x3)"
definition six3 :: "byte \<Rightarrow> byte" where "six3 c = c AND 0x3F"

lemma six_bits [simp]:
  "six0 a AND 0x3F = six0 a" "six1 a b AND 0x3F = six1 a b" "six2 b c AND 0x3F = six2 b c"
  "six3 c AND 0x3F = six3 c"
  unfolding six0_def six1_def six2_def six3_def by (rule byte_bits; auto simp: bit_simps)+

lemma joined [simp]:
  "push_bit 2 (six0 a) OR drop_bit 4 (six1 a b) AND 3 = a"
  "push_bit 4 (six1 a b) AND 240 OR drop_bit 2 (six2 b c) AND 15 = b"
  "push_bit 6 (six2 b c) AND 192 OR six3 c = c"
proof -
  have nats: "(2 :: nat) = Suc (Suc 0)" "(3 :: nat) = Suc (Suc (Suc 0))" by simp_all
  show "push_bit 2 (six0 a) OR drop_bit 4 (six1 a b) AND 3 = a"
    unfolding six0_def six1_def by (rule byte_bits, auto simp: bit_simps, (simp_all only: nats)?)
  show "push_bit 4 (six1 a b) AND 240 OR drop_bit 2 (six2 b c) AND 15 = b"
    unfolding six1_def six2_def by (rule byte_bits, auto simp: bit_simps, (simp_all only: nats)?)
  show "push_bit 6 (six2 b c) AND 192 OR six3 c = c"
    unfolding six2_def six3_def by (rule byte_bits, auto simp: bit_simps)
qed

text \<open>The reference: groups of three bytes.\<close>

fun b64_groups :: "bytes \<Rightarrow> string" where
  "b64_groups [] = []"
| "b64_groups [a] = [en_char (six0 a), en_char (six1 a 0), CHR ''='', CHR ''='']"
| "b64_groups [a, b] = [en_char (six0 a), en_char (six1 a b), en_char (six2 b 0), CHR ''='']"
| "b64_groups (a # b # c # ds) =
     [en_char (six0 a), en_char (six1 a b), en_char (six2 b c), en_char (six3 c)] @ b64_groups ds"

lemma b64_encode_groups:
  assumes "length d < 2 ^ 32"
  shows "b64_encode d = Some (b64_groups d)"
proof -
  have "(case encode_list d 0 l out of (out, s, l) \<Rightarrow>
      if s = 1 then out @ [en_char (push_bit 4 (l AND 0x3)), CHR ''='', CHR ''='']
      else if s = 2 then out @ [en_char (push_bit 2 (l AND 0xF)), CHR ''='']
      else out) = out @ b64_groups d" for l out
    by (induction d arbitrary: l out rule: b64_groups.induct)
      (simp_all add: six0_def six1_def six2_def six3_def)
  from this [of 0 "[]"] show ?thesis
    using encode_loop_list [OF assms, of 0] by (simp add: b64_encode_def)
qed

lemma b64_groups_length: "length (b64_groups d) = 4 * ((length d + 2) div 3)"
  by (induction d rule: b64_groups.induct) (simp_all, arith)

lemma or_at_last [simp]: "or_at (length out) v (out @ [w]) = out @ [w OR v]"
  "or_at (Suc (length out)) v (out @ [x, w]) = out @ [x, w OR v]"
  "or_at (Suc (Suc (length out))) v (out @ [x, y, w]) = out @ [x, y, w OR v]"
  by (simp_all add: or_at_def nth_append list_update_append)

lemma decode_groups:
  "i mod 4 = 0 \<Longrightarrow> \<exists>e. decode_list (b64_groups d) i out (length out) =
     Ok (out @ d @ e, length out + length d) \<and> length e \<le> 1"
proof (induction d arbitrary: i out rule: b64_groups.induct)
  case (2 a)
  then show ?case
    by (simp add: en_char_facts mod_Suc)
next
  case (3 a b)
  then show ?case
    by (simp add: en_char_facts mod_Suc)
next
  case (4 a b c ds)
  have "Suc (Suc (Suc (Suc i))) mod 4 = 0" using 4(2) by (simp add: mod_Suc)
  from 4(1) [OF this, of "out @ [a, b, c]"] 4(2) show ?case
    by (simp add: en_char_facts mod_Suc)
qed simp

lemma pop_loop_one: "length e \<le> 1 \<Longrightarrow> pop_loop 0 (length d) (d @ e) = d"
  by (cases e) (simp_all add: pop_loop.simps butlast_append)

lemma of_list_decode:
  assumes "length s < 2 ^ 32"
  shows "b64_decode s =
    (if length s mod 4 \<noteq> 0 then Some (Ok [])
     else Some (mapO (\<lambda>(out, j). pop_loop 0 (unat (of_nat j :: u32)) out) (decode_list s 0 [] 0)))"
  using decode_loop_list [OF assms, of 0 0 "[]"] by (cases "decode_list s 0 [] 0") (auto simp: b64_decode_def)

lemma b64_length: "b64_encode d = Some text \<Longrightarrow> length d < 2 ^ 32 \<Longrightarrow> length d \<le> length text"
proof -
  have "length d \<le> length (b64_groups d)" by (induction d rule: b64_groups.induct) simp_all
  then show "b64_encode d = Some text \<Longrightarrow> length d < 2 ^ 32 \<Longrightarrow> length d \<le> length text"
    by (simp add: b64_encode_groups)
qed

lemma base64_bytes:
  assumes "length d + 2 < 3 * 2 ^ 30"
  shows "\<exists>text. b64_encode d = Some text \<and> b64_decode text = Some (Ok d)"
proof -
  have small: "length d < 2 ^ 32" "length (b64_groups d) < 2 ^ 32"
    using assms by (simp_all add: b64_groups_length)
  from decode_groups [of 0 d "[]"] obtain e where
    e: "decode_list (b64_groups d) 0 [] 0 = Ok (d @ e, length d)" "length e \<le> 1" by auto
  have "unat (of_nat (length d) :: u32) = length d" using small(1) by (simp add: unat_of_nat)
  with pop_loop_one [OF e(2), of d] e(1) show ?thesis
    by (simp add: b64_encode_groups [OF small(1)] of_list_decode [OF small(2)] b64_groups_length)
qed

text \<open>
  C16: Decoding what \<open>encode\<close> made of a byte string gives the byte string back, and both return, as long as
  the text has less than \<open>2 ^ 32\<close> characters, which is the case below 3 GiB of data.
\<close>

theorem base64_roundtrip:
  assumes "length d + 2 < 3 * 2 ^ 30"
  shows "\<exists>text. b64_encode d = Some text \<and> b64_decode text = Some (Ok d)"
  by (rule base64_bytes [OF assms])

theorem base64_roundtrip_witness:
  "\<exists>text. b64_encode [255, 0, 128, 7] = Some text \<and> b64_decode text = Some (Ok [255, 0, 128, 7])"
  by (rule base64_roundtrip) simp

text \<open>A character that is not in the alphabet is not reported but makes the program fail.\<close>

lemma decode_invalid_undefined: "b64_decode ''A*BC'' = Some Undef"
  by (simp add: of_list_decode de_char_def chcode_def)

section \<open>The loops beyond the wrap\<close>

text \<open>Where \<open>j\<close> stands while the loop runs: always on a byte of the output, unless a group has just ended.\<close>

definition on_output :: "u32 \<Rightarrow> bytes \<Rightarrow> u32 \<Rightarrow> bool" where
  "on_output i out j \<longleftrightarrow> unat j + (if unat i mod 4 = 0 then 0 else 1) \<le> length out"

lemma wrap_mod4: "unat ((i :: u32) + 1) mod 4 = (unat i + 1) mod 4"
proof -
  have "unat (i + 1) = (unat i + 1) mod 2 ^ 32" by (simp add: unat_word_ariths)
  then show ?thesis by (simp add: mod_mod_cancel)
qed

lemma unat_Suc_le: "unat ((j :: u32) + 1) \<le> unat j + 1"
  by (simp add: unat_word_ariths)

lemma on_output_step:
  assumes "on_output i out j"
  shows "unat i mod 4 = 0 \<Longrightarrow> on_output (i + 1) (out @ [v]) j"
    and "unat i mod 4 \<noteq> 0 \<Longrightarrow> unat j < length out \<and> on_output (i + 1) (or_at (unat j) v out @ [w]) (j + 1)"
    and "unat i mod 4 = 3 \<Longrightarrow> on_output (i + 1) (or_at (unat j) v out) (j + 1)"
  using assms unat_Suc_le [of j] wrap_mod4 [of i]
  by (auto simp: on_output_def or_at_def mod_Suc split: if_splits)

lemma decode_loop_bound:
  assumes "b64_decode_loop s i out j = Some r" and "on_output i out j"
  shows "\<forall>out' j'. r = Ok (out', j') \<longrightarrow> unat j' \<le> length out'"
proof -
  have "on_output i out j \<longrightarrow> (\<forall>out' j'. r = Ok (out', j') \<longrightarrow> unat j' \<le> length out')"
  proof (rule b64_decode_loop.raw_induct [OF _ assms(1)])
    fix go :: "string \<Rightarrow> u32 \<Rightarrow> bytes \<Rightarrow> u32 \<Rightarrow> (unit, bytes \<times> u32) outcome option"
      and s :: string and i :: u32 and out :: bytes and j :: u32 and r
    assume IH: "\<And>s i out j r. go s i out j = Some r \<Longrightarrow>
        on_output i out j \<longrightarrow> (\<forall>out' j'. r = Ok (out', j') \<longrightarrow> unat j' \<le> length out')"
      and body: "(if \<not> unat i < length s \<or> s ! unat i = CHR ''='' then Some (Ok (out, j))
        else if chcode (s ! unat i) < 43 \<or> 122 < chcode (s ! unat i) then Some Undef
        else case de_char (s ! unat i) of
          None \<Rightarrow> Some Undef
        | Some c \<Rightarrow>
            (if i AND 3 = 0 then go s (i + 1) (out @ [push_bit 2 c]) j
             else if length out \<le> unat j then Some Undef
             else if i AND 3 = 1 then go s (i + 1) (or_at (unat j) (drop_bit 4 c AND 0x3) out @ [push_bit 4 (c AND 0xF)]) (j + 1)
             else if i AND 3 = 2 then go s (i + 1) (or_at (unat j) (drop_bit 2 c AND 0xF) out @ [push_bit 6 (c AND 0x3)]) (j + 1)
             else go s (i + 1) (or_at (unat j) c out) (j + 1))) = Some r"
    show "on_output i out j \<longrightarrow> (\<forall>out' j'. r = Ok (out', j') \<longrightarrow> unat j' \<le> length out')"
    proof
      assume o: "on_output i out j"
      have three: "unat i mod 4 = 3" if "unat i mod 4 \<noteq> 0" "unat i mod 4 \<noteq> 1" "unat i mod 4 \<noteq> 2"
        using that by arith
      show "\<forall>out' j'. r = Ok (out', j') \<longrightarrow> unat j' \<le> length out'"
        using body o IH three on_output_step [OF o]
        by (auto simp: on_output_def [of i out j] split: if_splits option.splits)
    qed
  qed
  with assms(2) show ?thesis by blast
qed

lemma encode_loop_endless:
  assumes "2 ^ 32 \<le> length d"
  shows "b64_encode_loop d i s l out = None"
proof (rule ccontr)
  assume "b64_encode_loop d i s l out \<noteq> None"
  then obtain r where r: "b64_encode_loop d i s l out = Some r" by blast
  have "length d < 2 ^ 32"
  proof (rule b64_encode_loop.raw_induct [OF _ r])
    fix go :: "bytes \<Rightarrow> u32 \<Rightarrow> nat \<Rightarrow> byte \<Rightarrow> string \<Rightarrow> (string \<times> nat \<times> byte) option"
      and d :: bytes and i :: u32 and s :: nat and l :: byte and out :: string and r
    assume IH: "\<And>d i s l out r. go d i s l out = Some r \<Longrightarrow> length d < 2 ^ 32"
      and body: "(if unat i < length d
        then
          (if s = 0 then go d (i + 1) 1 (d ! unat i) (out @ [en_char (drop_bit 2 (d ! unat i) AND 0x3F)])
           else if s = 1
             then go d (i + 1) 2 (d ! unat i) (out @ [en_char (push_bit 4 (l AND 0x3) OR (drop_bit 4 (d ! unat i) AND 0xF))])
           else go d (i + 1) 0 (d ! unat i)
             (out @ [en_char (push_bit 2 (l AND 0xF) OR (drop_bit 6 (d ! unat i) AND 0x3)), en_char (d ! unat i AND 0x3F)]))
        else Some (out, s, l)) = Some r"
    have "unat i < 2 ^ LENGTH(32)" by (rule unsigned_less)
    then show "length d < 2 ^ 32" using body IH by (auto split: if_splits)
  qed
  with assms show False by simp
qed

text \<open>A character of the alphabet.\<close>

definition plain_char :: "char \<Rightarrow> bool" where
  "plain_char ch \<longleftrightarrow> ch \<noteq> CHR ''='' \<and> \<not> chcode ch < 43 \<and> \<not> 122 < chcode ch \<and> de_char ch \<noteq> None"

lemma decode_loop_endless:
  assumes "2 ^ 32 \<le> length s" and "\<forall>k < 2 ^ 32. plain_char (s ! k)" and "on_output i out j"
  shows "b64_decode_loop s i out j = None"
proof (rule ccontr)
  assume "b64_decode_loop s i out j \<noteq> None"
  then obtain r where r: "b64_decode_loop s i out j = Some r" by blast
  have "2 ^ 32 \<le> length s \<longrightarrow> (\<forall>k < 2 ^ 32. plain_char (s ! k)) \<longrightarrow> on_output i out j \<longrightarrow> False"
  proof (rule b64_decode_loop.raw_induct [OF _ r])
    fix go :: "string \<Rightarrow> u32 \<Rightarrow> bytes \<Rightarrow> u32 \<Rightarrow> (unit, bytes \<times> u32) outcome option"
      and s :: string and i :: u32 and out :: bytes and j :: u32 and r
    assume IH: "\<And>s i out j r. go s i out j = Some r \<Longrightarrow>
        2 ^ 32 \<le> length s \<longrightarrow> (\<forall>k < 2 ^ 32. plain_char (s ! k)) \<longrightarrow> on_output i out j \<longrightarrow> False"
      and body: "(if \<not> unat i < length s \<or> s ! unat i = CHR ''='' then Some (Ok (out, j))
        else if chcode (s ! unat i) < 43 \<or> 122 < chcode (s ! unat i) then Some Undef
        else case de_char (s ! unat i) of
          None \<Rightarrow> Some Undef
        | Some c \<Rightarrow>
            (if i AND 3 = 0 then go s (i + 1) (out @ [push_bit 2 c]) j
             else if length out \<le> unat j then Some Undef
             else if i AND 3 = 1 then go s (i + 1) (or_at (unat j) (drop_bit 4 c AND 0x3) out @ [push_bit 4 (c AND 0xF)]) (j + 1)
             else if i AND 3 = 2 then go s (i + 1) (or_at (unat j) (drop_bit 2 c AND 0xF) out @ [push_bit 6 (c AND 0x3)]) (j + 1)
             else go s (i + 1) (or_at (unat j) c out) (j + 1))) = Some r"
    show "2 ^ 32 \<le> length s \<longrightarrow> (\<forall>k < 2 ^ 32. plain_char (s ! k)) \<longrightarrow> on_output i out j \<longrightarrow> False"
    proof (intro impI)
      assume l: "2 ^ 32 \<le> length s" and p: "\<forall>k < 2 ^ 32. plain_char (s ! k)" and o: "on_output i out j"
      have i: "unat i < 2 ^ 32" using unsigned_less [of i] by simp
      then have pi: "plain_char (s ! unat i)" and li: "unat i < length s" using p l by auto
      then obtain c where c: "de_char (s ! unat i) = Some c" by (auto simp: plain_char_def)
      have none: "go s i' out' j' \<noteq> Some r" if "on_output i' out' j'" for i' out' j' using IH l p that by blast
      have three: "unat i mod 4 = 3" if "unat i mod 4 \<noteq> 0" "unat i mod 4 \<noteq> 1" "unat i mod 4 \<noteq> 2"
        using that by arith
      show False
        using body li pi c none three on_output_step [OF o] by (auto simp: plain_char_def split: if_splits)
    qed
  qed
  with assms show False by blast
qed

lemma en_char_plain: "v AND 0x3F = v \<Longrightarrow> plain_char (en_char v)"
  using en_char_facts [of v] by (simp add: plain_char_def)

text \<open>The text of whole groups has no padding.\<close>

lemma whole_groups_plain: "3 * k \<le> length d \<Longrightarrow> \<forall>m < 4 * k. plain_char (b64_groups d ! m)"
proof (induction d arbitrary: k rule: b64_groups.induct)
  case (4 a b c ds)
  show ?case
  proof (cases k)
    case (Suc n)
    with 4 have ih: "\<forall>m < 4 * n. plain_char (b64_groups ds ! m)" by simp
    show ?thesis
    proof (intro allI impI)
      fix m assume m: "m < 4 * k"
      show "plain_char (b64_groups (a # b # c # ds) ! m)"
      proof (cases "m < 4")
        case True
        then have "m = 0 \<or> m = 1 \<or> m = 2 \<or> m = 3" by arith
        then show ?thesis by (auto simp: en_char_plain)
      next
        case False
        then obtain q where q: "m = Suc (Suc (Suc (Suc q)))" by (auto simp: not_less dest!: le_Suc_ex)
        with m Suc ih show ?thesis by simp
      qed
    qed
  qed simp
next
  case (2 a)
  then have "k = 0" by simp
  then show ?case by simp
next
  case (3 a b)
  then have "k = 0" by simp
  then show ?case by simp
qed simp

text \<open>
  from \<open>2 ^ 32\<close> bytes on \<open>encode\<close> does not return, and from 3 GiB on what it returns is a text on which
  \<open>decode\<close> does not return.
\<close>

theorem base64_never_returns:
  "2 ^ 32 \<le> length d \<Longrightarrow> b64_encode d = None"
  "3 * 2 ^ 30 \<le> length d \<Longrightarrow> length d < 2 ^ 32 \<Longrightarrow> \<exists>s. b64_encode d = Some s \<and> b64_decode s = None"
proof -
  show "2 ^ 32 \<le> length d \<Longrightarrow> b64_encode d = None" by (simp add: b64_encode_def encode_loop_endless)
  assume d: "3 * 2 ^ 30 \<le> length d" "length d < 2 ^ 32"
  have "4 * 2 ^ 30 \<le> 4 * ((n + 2) div 3)" if "3 * 2 ^ 30 \<le> n" for n :: nat using that by simp
  from this [OF d(1)] have "2 ^ 32 \<le> length (b64_groups d)" by (simp add: b64_groups_length)
  moreover have "\<forall>k < 2 ^ 32. plain_char (b64_groups d ! k)" using whole_groups_plain [OF d(1)] by simp
  ultimately have "b64_decode_loop (b64_groups d) 0 [] 0 = None"
    by (rule decode_loop_endless) (simp add: on_output_def)
  then show "\<exists>s. b64_encode d = Some s \<and> b64_decode s = None"
    by (simp add: b64_encode_groups [OF d(2)] b64_decode_def b64_groups_length)
qed

end
