(* ===== verification/Ys_Cipher.thy ===== *)
theory Ys_Cipher
  imports Ys_Digest Ys_Base64
begin

text \<open>
  \<open>isaac/alg/ys_sm4.hpp\<close>, the SM4 block cipher in ECB mode, and \<open>isaac/alg/ys_islam.hpp\<close>, its variant with
  another S-box in the key schedule, padding, a pin in front of the data and a Base64 text form.
\<close>

unbundle bit_operations_syntax

section \<open>Tables\<close>

definition sm4_FK :: "u32 list" where
  "sm4_FK =
     [0xa3b1bac6, 0x56aa3350, 0x677d9197, 0xb27022dc]"

definition sm4_CK :: "u32 list" where
  "sm4_CK =
     [0x00070e15, 0x1c232a31, 0x383f464d, 0x545b6269, 0x70777e85, 0x8c939aa1, 0xa8afb6bd, 0xc4cbd2d9,
      0xe0e7eef5, 0xfc030a11, 0x181f262d, 0x343b4249, 0x50575e65, 0x6c737a81, 0x888f969d, 0xa4abb2b9,
      0xc0c7ced5, 0xdce3eaf1, 0xf8ff060d, 0x141b2229, 0x30373e45, 0x4c535a61, 0x686f767d, 0x848b9299,
      0xa0a7aeb5, 0xbcc3cad1, 0xd8dfe6ed, 0xf4fb0209, 0x10171e25, 0x2c333a41, 0x484f565d, 0x646b7279]"

definition sm4_Sbox :: "byte list" where
  "sm4_Sbox =
     [0xd6, 0x90, 0xe9, 0xfe, 0xcc, 0xe1, 0x3d, 0xb7, 0x16, 0xb6, 0x14, 0xc2, 0x28, 0xfb, 0x2c, 0x05,
      0x2b, 0x67, 0x9a, 0x76, 0x2a, 0xbe, 0x04, 0xc3, 0xaa, 0x44, 0x13, 0x26, 0x49, 0x86, 0x06, 0x99,
      0x9c, 0x42, 0x50, 0xf4, 0x91, 0xef, 0x98, 0x7a, 0x33, 0x54, 0x0b, 0x43, 0xed, 0xcf, 0xac, 0x62,
      0xe4, 0xb3, 0x1c, 0xa9, 0xc9, 0x08, 0xe8, 0x95, 0x80, 0xdf, 0x94, 0xfa, 0x75, 0x8f, 0x3f, 0xa6,
      0x47, 0x07, 0xa7, 0xfc, 0xf3, 0x73, 0x17, 0xba, 0x83, 0x59, 0x3c, 0x19, 0xe6, 0x85, 0x4f, 0xa8,
      0x68, 0x6b, 0x81, 0xb2, 0x71, 0x64, 0xda, 0x8b, 0xf8, 0xeb, 0x0f, 0x4b, 0x70, 0x56, 0x9d, 0x35,
      0x1e, 0x24, 0x0e, 0x5e, 0x63, 0x58, 0xd1, 0xa2, 0x25, 0x22, 0x7c, 0x3b, 0x01, 0x21, 0x78, 0x87,
      0xd4, 0x00, 0x46, 0x57, 0x9f, 0xd3, 0x27, 0x52, 0x4c, 0x36, 0x02, 0xe7, 0xa0, 0xc4, 0xc8, 0x9e,
      0xea, 0xbf, 0x8a, 0xd2, 0x40, 0xc7, 0x38, 0xb5, 0xa3, 0xf7, 0xf2, 0xce, 0xf9, 0x61, 0x15, 0xa1,
      0xe0, 0xae, 0x5d, 0xa4, 0x9b, 0x34, 0x1a, 0x55, 0xad, 0x93, 0x32, 0x30, 0xf5, 0x8c, 0xb1, 0xe3,
      0x1d, 0xf6, 0xe2, 0x2e, 0x82, 0x66, 0xca, 0x60, 0xc0, 0x29, 0x23, 0xab, 0x0d, 0x53, 0x4e, 0x6f,
      0xd5, 0xdb, 0x37, 0x45, 0xde, 0xfd, 0x8e, 0x2f, 0x03, 0xff, 0x6a, 0x72, 0x6d, 0x6c, 0x5b, 0x51,
      0x8d, 0x1b, 0xaf, 0x92, 0xbb, 0xdd, 0xbc, 0x7f, 0x11, 0xd9, 0x5c, 0x41, 0x1f, 0x10, 0x5a, 0xd8,
      0x0a, 0xc1, 0x31, 0x88, 0xa5, 0xcd, 0x7b, 0xbd, 0x2d, 0x74, 0xd0, 0x12, 0xb8, 0xe5, 0xb4, 0xb0,
      0x89, 0x69, 0x97, 0x4a, 0x0c, 0x96, 0x77, 0x7e, 0x65, 0xb9, 0xf1, 0x09, 0xc5, 0x6e, 0xc6, 0x84,
      0x18, 0xf0, 0x7d, 0xec, 0x3a, 0xdc, 0x4d, 0x20, 0x79, 0xee, 0x5f, 0x3e, 0xd7, 0xcb, 0x39, 0x48]"

definition sm4_Tbox :: "u32 list" where
  "sm4_Tbox =
     [0x8ed55b5b, 0xd0924242, 0x4deaa7a7, 0x06fdfbfb, 0xfccf3333, 0x65e28787, 0xc93df4f4, 0x6bb5dede,
      0x4e165858, 0x6eb4dada, 0x44145050, 0xcac10b0b, 0x8828a0a0, 0x17f8efef, 0x9c2cb0b0, 0x11051414,
      0x872bacac, 0xfb669d9d, 0xf2986a6a, 0xae77d9d9, 0x822aa8a8, 0x46bcfafa, 0x14041010, 0xcfc00f0f,
      0x02a8aaaa, 0x54451111, 0x5f134c4c, 0xbe269898, 0x6d482525, 0x9e841a1a, 0x1e061818, 0xfd9b6666,
      0xec9e7272, 0x4a430909, 0x10514141, 0x24f7d3d3, 0xd5934646, 0x53ecbfbf, 0xf89a6262, 0x927be9e9,
      0xff33cccc, 0x04555151, 0x270b2c2c, 0x4f420d0d, 0x59eeb7b7, 0xf3cc3f3f, 0x1caeb2b2, 0xea638989,
      0x74e79393, 0x7fb1cece, 0x6c1c7070, 0x0daba6a6, 0xedca2727, 0x28082020, 0x48eba3a3, 0xc1975656,
      0x80820202, 0xa3dc7f7f, 0xc4965252, 0x12f9ebeb, 0xa174d5d5, 0xb38d3e3e, 0xc33ffcfc, 0x3ea49a9a,
      0x5b461d1d, 0x1b071c1c, 0x3ba59e9e, 0x0cfff3f3, 0x3ff0cfcf, 0xbf72cdcd, 0x4b175c5c, 0x52b8eaea,
      0x8f810e0e, 0x3d586565, 0xcc3cf0f0, 0x7d196464, 0x7ee59b9b, 0x91871616, 0x734e3d3d, 0x08aaa2a2,
      0xc869a1a1, 0xc76aadad, 0x85830606, 0x7ab0caca, 0xb570c5c5, 0xf4659191, 0xb2d96b6b, 0xa7892e2e,
      0x18fbe3e3, 0x47e8afaf, 0x330f3c3c, 0x674a2d2d, 0xb071c1c1, 0x0e575959, 0xe99f7676, 0xe135d4d4,
      0x661e7878, 0xb4249090, 0x360e3838, 0x265f7979, 0xef628d8d, 0x38596161, 0x95d24747, 0x2aa08a8a,
      0xb1259494, 0xaa228888, 0x8c7df1f1, 0xd73becec, 0x05010404, 0xa5218484, 0x9879e1e1, 0x9b851e1e,
      0x84d75353, 0x00000000, 0x5e471919, 0x0b565d5d, 0xe39d7e7e, 0x9fd04f4f, 0xbb279c9c, 0x1a534949,
      0x7c4d3131, 0xee36d8d8, 0x0a020808, 0x7be49f9f, 0x20a28282, 0xd4c71313, 0xe8cb2323, 0xe69c7a7a,
      0x42e9abab, 0x43bdfefe, 0xa2882a2a, 0x9ad14b4b, 0x40410101, 0xdbc41f1f, 0xd838e0e0, 0x61b7d6d6,
      0x2fa18e8e, 0x2bf4dfdf, 0x3af1cbcb, 0xf6cd3b3b, 0x1dfae7e7, 0xe5608585, 0x41155454, 0x25a38686,
      0x60e38383, 0x16acbaba, 0x295c7575, 0x34a69292, 0xf7996e6e, 0xe434d0d0, 0x721a6868, 0x01545555,
      0x19afb6b6, 0xdf914e4e, 0xfa32c8c8, 0xf030c0c0, 0x21f6d7d7, 0xbc8e3232, 0x75b3c6c6, 0x6fe08f8f,
      0x691d7474, 0x2ef5dbdb, 0x6ae18b8b, 0x962eb8b8, 0x8a800a0a, 0xfe679999, 0xe2c92b2b, 0xe0618181,
      0xc0c30303, 0x8d29a4a4, 0xaf238c8c, 0x07a9aeae, 0x390d3434, 0x1f524d4d, 0x764f3939, 0xd36ebdbd,
      0x81d65757, 0xb7d86f6f, 0xeb37dcdc, 0x51441515, 0xa6dd7b7b, 0x09fef7f7, 0xb68c3a3a, 0x932fbcbc,
      0x0f030c0c, 0x03fcffff, 0xc26ba9a9, 0xba73c9c9, 0xd96cb5b5, 0xdc6db1b1, 0x375a6d6d, 0x15504545,
      0xb98f3636, 0x771b6c6c, 0x13adbebe, 0xda904a4a, 0x57b9eeee, 0xa9de7777, 0x4cbef2f2, 0x837efdfd,
      0x55114444, 0xbdda6767, 0x2c5d7171, 0x45400505, 0x631f7c7c, 0x50104040, 0x325b6969, 0xb8db6363,
      0x220a2828, 0xc5c20707, 0xf531c4c4, 0xa88a2222, 0x31a79696, 0xf9ce3737, 0x977aeded, 0x49bff6f6,
      0x992db4b4, 0xa475d1d1, 0x90d34343, 0x5a124848, 0x58bae2e2, 0x71e69797, 0x64b6d2d2, 0x70b2c2c2,
      0xad8b2626, 0xcd68a5a5, 0xcb955e5e, 0x624b2929, 0x3c0c3030, 0xce945a5a, 0xab76dddd, 0x867ff9f9,
      0xf1649595, 0x5dbbe6e6, 0x35f2c7c7, 0x2d092424, 0xd1c61717, 0xd66fb9b9, 0xdec51b1b, 0x94861212,
      0x78186060, 0x30f3c3c3, 0x897cf5f5, 0x5cefb3b3, 0xd23ae8e8, 0xacdf7373, 0x794c3535, 0xa0208080,
      0x9d78e5e5, 0x56edbbbb, 0x235e7d7d, 0xc63ef8f8, 0x8bd45f5f, 0xe7c82f2f, 0xdd39e4e4, 0x68492121]"


definition islam_FK :: "u32 list" where
  "islam_FK =
     [0xa3b1bac6, 0x56aa3350, 0x677d9197, 0xb27022dc]"

definition islam_CK :: "u32 list" where
  "islam_CK =
     [0x00070e15, 0x1c232a31, 0x383f464d, 0x545b6269, 0x70777e85, 0x8c939aa1, 0xa8afb6bd, 0xc4cbd2d9,
      0xe0e7eef5, 0xfc030a11, 0x181f262d, 0x343b4249, 0x50575e65, 0x6c737a81, 0x888f969d, 0xa4abb2b9,
      0xc0c7ced5, 0xdce3eaf1, 0xf8ff060d, 0x141b2229, 0x30373e45, 0x4c535a61, 0x686f767d, 0x848b9299,
      0xa0a7aeb5, 0xbcc3cad1, 0xd8dfe6ed, 0xf4fb0209, 0x10171e25, 0x2c333a41, 0x484f565d, 0x646b7279]"

definition islam_Sbox :: "byte list" where
  "islam_Sbox =
     [0x69, 0x73, 0x6c, 0x61, 0x6d, 0x78, 0xf9, 0xf0, 0x86, 0x7b, 0xfe, 0x40, 0xb4, 0x48, 0x29, 0x88,
      0x0a, 0xca, 0xde, 0x66, 0xd6, 0x8e, 0xe6, 0xbe, 0xf3, 0xbf, 0x21, 0x8a, 0xff, 0x96, 0x5a, 0xb3,
      0xc0, 0x1b, 0xfb, 0xe9, 0x0e, 0x42, 0x64, 0x1d, 0xf7, 0xa1, 0x8b, 0xc6, 0x2b, 0x9f, 0xa3, 0x7a,
      0x0d, 0xab, 0x7f, 0x80, 0xd8, 0x00, 0xd2, 0xa9, 0xf2, 0x3d, 0x77, 0x04, 0x3c, 0xa2, 0xb9, 0x10,
      0xdc, 0xf6, 0xc2, 0x5b, 0x32, 0x44, 0x6e, 0x74, 0xf4, 0x98, 0x76, 0xec, 0x25, 0x2a, 0x11, 0x28,
      0x2e, 0x3a, 0xda, 0x49, 0x6b, 0xd0, 0xd4, 0x75, 0xe5, 0xc3, 0xe3, 0x68, 0x55, 0x8d, 0xb6, 0x4b,
      0x90, 0x50, 0x30, 0x62, 0xa0, 0xc4, 0x81, 0x7c, 0xdf, 0x1a, 0x8c, 0x4e, 0x2c, 0x5f, 0xb8, 0xed,
      0x33, 0xd5, 0xe4, 0x20, 0x3b, 0x57, 0x58, 0x17, 0xcd, 0x06, 0x52, 0xe2, 0x46, 0x63, 0xcf, 0xe8,
      0x34, 0xa7, 0x82, 0x1e, 0x27, 0x45, 0x24, 0xdd, 0xb7, 0xb0, 0x07, 0xf1, 0xd9, 0x4d, 0x1f, 0xb2,
      0xe7, 0x15, 0xf8, 0xaa, 0xba, 0xea, 0x7e, 0xaf, 0x2f, 0x38, 0xad, 0x89, 0x72, 0x5c, 0xc7, 0x4a,
      0x01, 0x2d, 0x97, 0x84, 0x8f, 0xa6, 0x35, 0x9c, 0xfd, 0xbc, 0x3e, 0xa5, 0xc5, 0x22, 0x91, 0x59,
      0xb1, 0x92, 0x6f, 0x18, 0xf5, 0x83, 0xdb, 0x12, 0xac, 0xef, 0x09, 0xe0, 0x23, 0xa4, 0x60, 0x9a,
      0x1c, 0xbd, 0x43, 0x9b, 0x02, 0x3f, 0x05, 0x08, 0xfc, 0x4c, 0x85, 0x36, 0x13, 0x0b, 0x0f, 0x95,
      0xc9, 0x9e, 0x0c, 0x5d, 0x5e, 0xae, 0x41, 0x70, 0x03, 0xcc, 0xd1, 0x51, 0xbb, 0xcb, 0xfa, 0xc1,
      0x19, 0x9d, 0x65, 0x26, 0x14, 0x47, 0x39, 0xce, 0x6a, 0xee, 0x71, 0xb5, 0x31, 0xa8, 0x99, 0xeb,
      0xd3, 0x67, 0x94, 0x16, 0xe1, 0xd7, 0x37, 0x7d, 0x87, 0xc8, 0x53, 0x56, 0x93, 0x4f, 0x54, 0x79]"

text \<open>The table of the rounds is the one of SM4.\<close>

definition islam_Tbox :: "u32 list" where "islam_Tbox = sm4_Tbox"

section \<open>The rounds\<close>

text \<open>
  The macros name the variables in turn; here the window \<open>(x0, x1, x2, x3)\<close> moves.
\<close>

type_synonym window = "u32 \<times> u32 \<times> u32 \<times> u32"

definition getTboxVal :: "u32 list \<Rightarrow> byte \<Rightarrow> u32" where "getTboxVal T p = T ! unat p"

fun round_tbox :: "u32 list \<Rightarrow> u32 \<Rightarrow> window \<Rightarrow> window" where
  "round_tbox T k (x0, x1, x2, x3) =
     (let x4 = x1 XOR x2 XOR x3 XOR k;
          t0 = ROL32 (getTboxVal T (ucast x4)) 8; x4 = drop_bit 8 x4; x0 = x0 XOR t0;
          t0 = ROL32 (getTboxVal T (ucast x4)) 16; x4 = drop_bit 8 x4; x0 = x0 XOR t0;
          t0 = ROL32 (getTboxVal T (ucast x4)) 24; x4 = drop_bit 8 x4; x0 = x0 XOR t0;
          t1 = getTboxVal T (ucast x4)
      in (x1, x2, x3, x0 XOR t1))"

definition window_in :: "bytes \<Rightarrow> window" where
  "window_in b = (GETU32 b 0, GETU32 b 4, GETU32 b 8, GETU32 b 12)"

fun window_out :: "window \<Rightarrow> bytes" where
  "window_out (x0, x1, x2, x3) = PUTU32 x3 @ PUTU32 x2 @ PUTU32 x1 @ PUTU32 x0"

definition sms4_encrypt :: "u32 list \<Rightarrow> u32 list \<Rightarrow> bytes \<Rightarrow> bytes" where
  "sms4_encrypt T rk b = window_out (fold (round_tbox T) rk (window_in b))"

fun ecb_encrypt_blocks :: "u32 list \<Rightarrow> u32 list \<Rightarrow> bytes \<Rightarrow> nat \<Rightarrow> bytes" where
  "ecb_encrypt_blocks T rk d 0 = []"
| "ecb_encrypt_blocks T rk d (Suc n) = sms4_encrypt T rk (take 16 d) @ ecb_encrypt_blocks T rk (drop 16 d) n"

section \<open>The key schedules\<close>

definition L32 :: "u32 \<Rightarrow> u32" where "L32 x = x XOR ROL32 x 13 XOR ROL32 x 23"

definition S32 :: "byte list \<Rightarrow> u32 \<Rightarrow> u32" where
  "S32 S A =
     push_bit 24 (ucast (S ! unat (drop_bit 24 A))) XOR push_bit 16 (ucast (S ! unat (drop_bit 16 A AND 0xff))) XOR
     push_bit 8 (ucast (S ! unat (drop_bit 8 A AND 0xff))) XOR ucast (S ! unat (A AND 0xff))"

text \<open>\<open>pos i\<close> is where round \<open>i\<close> writes its key: \<open>i\<close> to encrypt, \<open>31 - i\<close> to decrypt.\<close>

fun key_round :: "byte list \<Rightarrow> u32 list \<Rightarrow> (nat \<Rightarrow> nat) \<Rightarrow> nat \<Rightarrow> window \<times> u32 list \<Rightarrow> window \<times> u32 list" where
  "key_round S CK pos i ((x0, x1, x2, x3), rk) =
     (let x4 = x1 XOR x2 XOR x3 XOR CK ! i; x4 = S32 S x4; x4 = x0 XOR L32 x4
      in ((x1, x2, x3, x4), rk[pos i := x4]))"

definition key_start :: "u32 list \<Rightarrow> bytes \<Rightarrow> window" where
  "key_start FK key = (GETU32 key 0 XOR FK ! 0, GETU32 key 4 XOR FK ! 1, GETU32 key 8 XOR FK ! 2, GETU32 key 12 XOR FK ! 3)"

definition set_encrypt_key :: "u32 list \<Rightarrow> u32 list \<Rightarrow> byte list \<Rightarrow> bytes \<Rightarrow> u32 list" where
  "set_encrypt_key FK CK S key =
     snd (fold (key_round S CK (\<lambda>i. i)) [0..<32] (key_start FK key, replicate 32 0))"

definition set_decrypt_key :: "u32 list \<Rightarrow> u32 list \<Rightarrow> byte list \<Rightarrow> bytes \<Rightarrow> u32 list" where
  "set_decrypt_key FK CK S key =
     snd (fold (key_round S CK (\<lambda>i. 31 - i)) [0..<32] (key_start FK key, replicate 32 0))"

section \<open>SM4 and Islam in ECB mode\<close>

text \<open>
  The results are the new contents of the output buffer, which is left alone when the length is not a
  multiple of 16.
\<close>

definition sm4_ecb_encrypt :: "bytes \<Rightarrow> bytes \<Rightarrow> bytes \<Rightarrow> bytes" where
  "sm4_ecb_encrypt data key cipher =
     (if length data mod 16 \<noteq> 0 then cipher
      else blit 0 (ecb_encrypt_blocks sm4_Tbox (set_encrypt_key sm4_FK sm4_CK sm4_Sbox key) data (length data div 16)) cipher)"

definition sm4_ecb_decrypt :: "bytes \<Rightarrow> bytes \<Rightarrow> bytes \<Rightarrow> bytes" where
  "sm4_ecb_decrypt cipher key data =
     (if length cipher mod 16 \<noteq> 0 then data
      else blit 0 (ecb_encrypt_blocks sm4_Tbox (set_decrypt_key sm4_FK sm4_CK sm4_Sbox key) cipher (length cipher div 16)) data)"

text \<open>Islam's functions take the length as a \<open>uint32_t\<close>; callers pass lengths of type \<open>size_t\<close>.\<close>

definition islam_ecb_encrypt :: "bytes \<Rightarrow> u32 \<Rightarrow> bytes \<Rightarrow> bytes \<Rightarrow> bytes" where
  "islam_ecb_encrypt data dataLen key cipher =
     (if dataLen mod 16 \<noteq> 0 then cipher
      else blit 0 (ecb_encrypt_blocks islam_Tbox (set_encrypt_key islam_FK islam_CK islam_Sbox key) data (unat (dataLen div 16))) cipher)"

definition islam_ecb_decrypt :: "bytes \<Rightarrow> u32 \<Rightarrow> bytes \<Rightarrow> bytes \<Rightarrow> bytes" where
  "islam_ecb_decrypt cipher cipherLen key data =
     (if cipherLen mod 16 \<noteq> 0 then data
      else blit 0 (ecb_encrypt_blocks islam_Tbox (set_decrypt_key islam_FK islam_CK islam_Sbox key) cipher (unat (cipherLen div 16))) data)"

subsection \<open>Padding and pin\<close>

definition getDefKey :: bytes where
  "getDefKey = [0xe7, 0xf7, 0x19, 0x85, 0x54, 0x92, 0xdb, 0xb9, 0x00, 0x18, 0xa8, 0xa3, 0x9d, 0xaf, 0x1e, 0x3c]"

definition islamAddPad :: "bytes \<Rightarrow> bytes" where
  "islamAddPad d = d @ replicate (16 - length d mod 16) (of_nat (16 - length d mod 16))"

text \<open>
  The last character is a signed \<open>char\<close>: from 128 on it becomes a huge number.  Of an empty string it is
  read before the start.
\<close>

definition islamDelPad :: "bytes \<Rightarrow> (unit, bytes) outcome" where
  "islamDelPad d =
     (if d = [] then Undef
      else let n = unat (last d) in
        if 128 \<le> n \<or> 16 < n \<or> length d < n then Ok d else Ok (take (length d - n) d))"

text \<open>
  The functions on byte buffers: \<open>encrypt\<close> pads into the output buffer and encrypts it in place; the result
  is what is in the buffer up to the reported length \<open>*outLen\<close>, a \<open>uint32_t\<close>.
\<close>

definition islam_encrypt_raw :: "bytes \<Rightarrow> bytes \<Rightarrow> bytes" where
  "islam_encrypt_raw d key =
     (let out = islamAddPad d; outLen = of_nat (length out) :: u32 in
      take (unat outLen) (islam_ecb_encrypt out outLen key out))"

definition islam_decrypt_raw :: "bytes \<Rightarrow> bytes \<Rightarrow> bytes \<Rightarrow> (unit, bytes) outcome" where
  "islam_decrypt_raw c key out =
     (let inLen = of_nat (length c) :: u32 in islamDelPad (take (unat inLen) (islam_ecb_decrypt c inLen key out)))"

text \<open>
  The functions on strings.  \<open>None\<close>: Base64 does not return (\<open>Ys_Base64\<close>).  \<open>Throw\<close> is the result -1 and the
  exception of \<open>substr\<close>: \<open>dec.compare(0, 4, pin)\<close> compares the first four bytes with the whole pin.  The buffer
  from \<open>new uint8_t[n]\<close> starts with what \<open>junk\<close> says.  It is owned by a \<open>unique_ptr<uint8_t>\<close>, which gives
  it back with \<open>delete\<close> instead of \<open>delete[]\<close> when the function ends; the model describes the results under an
  allocator that tolerates this.
\<close>

datatype islam_err = Minus1 | OutOfRange

fun islam_lift :: "(unit, 'a) outcome \<Rightarrow> (islam_err, 'a) outcome" where
  "islam_lift (Ok x) = Ok x"
| "islam_lift _ = Undef"

definition islam_encrypt :: "(nat \<Rightarrow> byte) \<Rightarrow> bytes \<Rightarrow> bytes \<Rightarrow> (islam_err, string) outcome option" where
  "islam_encrypt junk data pin =
     (if length pin < 4 then Some (Throw Minus1)
      else let src = islamAddPad (pin @ data);
               buf = islam_ecb_encrypt src (of_nat (length src)) getDefKey (map junk [0..<length src])
        in map_option (\<lambda>text. Ok (''islam:'' @ text)) (b64_encode buf))"

definition islam_decrypt :: "(nat \<Rightarrow> byte) \<Rightarrow> string \<Rightarrow> bytes \<Rightarrow> (islam_err, bytes) outcome option" where
  "islam_decrypt junk enc pin =
     (if length enc < 22 then Some (Throw Minus1)
      else if take 6 enc \<noteq> ''islam:'' then Some (Throw Minus1)
      else map_option (\<lambda>r. bindO (islam_lift r) (\<lambda>bin.
        if length bin mod 16 \<noteq> 0 then Throw Minus1
        else bindO (islam_lift (islamDelPad
            (islam_ecb_decrypt bin (of_nat (length bin)) getDefKey (map junk [0..<length bin])))) (\<lambda>dec.
          if take 4 dec \<noteq> pin then Throw Minus1
          else if length dec < 4 then Throw OutOfRange
          else Ok (drop 4 dec)))) (b64_decode (drop 6 enc)))"

section \<open>Decryption undoes encryption\<close>

text \<open>What a round adds, and the round run backwards.\<close>

definition mix :: "u32 list \<Rightarrow> u32 \<Rightarrow> u32" where
  "mix T v = ROL32 (getTboxVal T (ucast v)) 8 XOR ROL32 (getTboxVal T (ucast (drop_bit 8 v))) 16 XOR
     ROL32 (getTboxVal T (ucast (drop_bit 16 v))) 24 XOR getTboxVal T (ucast (drop_bit 24 v))"

fun mirror :: "window \<Rightarrow> window" where "mirror (a, b, c, d) = (d, c, b, a)"

lemma round_mix: "round_tbox T k (a, b, c, d) = (b, c, d, a XOR mix T (b XOR c XOR d XOR k))"
  by (simp add: mix_def Let_def drop_bit_drop_bit xor.assoc)

lemma xor_twice: "(a XOR x) XOR x = (a :: u32)"
  by (simp add: xor.assoc)

lemma round_undone: "round_tbox T k (mirror (round_tbox T k s)) = mirror s"
proof -
  obtain a b c d where s: "s = (a, b, c, d)" by (cases s)
  have "d XOR c XOR b XOR k = b XOR c XOR d XOR k" by (simp add: ac_simps)
  then show ?thesis by (simp only: s round_mix mirror.simps xor_twice)
qed

lemma rounds_undone: "fold (round_tbox T) (rev rk) (mirror (fold (round_tbox T) rk s)) = mirror s"
proof (induction rk arbitrary: s)
  case (Cons k rk)
  show ?case using Cons [of "round_tbox T k s"] by (simp add: round_undone)
qed simp

lemma PUT_GET: "GETU32 (p @ PUTU32 v @ q) (length p) = v"
proof (rule bit_word_eqI)
  fix n assume n: "n < LENGTH(32)"
  consider "n < 8" | m where "n = 8 + m" "m < 8" | m where "n = 16 + m" "m < 8" | m where "n = 24 + m" "m < 8"
  proof -
    have "n < 8 \<or> (n - 8 < 8 \<and> n = 8 + (n - 8)) \<or> (n - 16 < 8 \<and> n = 16 + (n - 16)) \<or> (n - 24 < 8 \<and> n = 24 + (n - 24))"
      using n by (simp, arith)
    then show ?thesis using that by blast
  qed
  then show "bit (GETU32 (p @ PUTU32 v @ q) (length p)) n = bit v n"
    using n by cases (auto simp: GETU32_def PUTU32_def nth_append bit_simps)
qed

lemma window_out_in: "window_in (window_out s) = mirror s"
proof -
  obtain a b c d where s: "s = (a, b, c, d)" by (cases s)
  have "length (PUTU32 v) = 4" for v by (simp add: PUTU32_def)
  then show ?thesis
    using PUT_GET [of "[]" d "PUTU32 c @ PUTU32 b @ PUTU32 a"] PUT_GET [of "PUTU32 d" c "PUTU32 b @ PUTU32 a"]
      PUT_GET [of "PUTU32 d @ PUTU32 c" b "PUTU32 a"] PUT_GET [of "PUTU32 d @ PUTU32 c @ PUTU32 b" a "[]"]
    by (simp add: s window_in_def)
qed

lemma PUT_word:
  "PUTU32 (push_bit 24 (ucast a) OR push_bit 16 (ucast b) OR push_bit 8 (ucast c) OR ucast d) = [a, b, c, (d :: byte)]"
proof -
  have "(ucast (drop_bit 24 (push_bit 24 (ucast a) OR push_bit 16 (ucast b) OR push_bit 8 (ucast c) OR ucast d :: u32)) :: byte) = a"
    by (rule bit_word_eqI) (auto simp: bit_simps dest: bit_imp_le_length)
  moreover have "(ucast (drop_bit 16 (push_bit 24 (ucast a) OR push_bit 16 (ucast b) OR push_bit 8 (ucast c) OR ucast d :: u32)) :: byte) = b"
    by (rule bit_word_eqI) (auto simp: bit_simps dest: bit_imp_le_length)
  moreover have "(ucast (drop_bit 8 (push_bit 24 (ucast a) OR push_bit 16 (ucast b) OR push_bit 8 (ucast c) OR ucast d :: u32)) :: byte) = c"
    by (rule bit_word_eqI) (auto simp: bit_simps dest: bit_imp_le_length)
  moreover have "(ucast (push_bit 24 (ucast a) OR push_bit 16 (ucast b) OR push_bit 8 (ucast c) OR ucast d :: u32) :: byte) = d"
    by (rule bit_word_eqI) (auto simp: bit_simps dest: bit_imp_le_length)
  ultimately show ?thesis by (simp add: PUTU32_def)
qed

lemma GET_PUT:
  assumes "i + 4 \<le> length b"
  shows "PUTU32 (GETU32 b i) = take 4 (drop i b)"
proof -
  have "take 4 (drop i b) = map (\<lambda>j. b ! (i + j)) [0..<4]"
    by (rule nth_equalityI) (use assms in \<open>simp_all\<close>)
  also have "\<dots> = [b ! i, b ! (i + 1), b ! (i + 2), b ! (i + 3)]" by (simp add: upt_conv_Cons numeral_3_eq_3)
  also have "\<dots> = PUTU32 (GETU32 b i)"
    unfolding GETU32_def by (simp only: PUT_word)
  finally show ?thesis ..
qed

lemma window_in_out:
  assumes "length b = 16"
  shows "window_out (mirror (window_in b)) = b"
proof -
  have "b = take 4 (drop 0 b) @ take 4 (drop 4 b) @ take 4 (drop 8 b) @ take 4 (drop 12 b)"
    using assms append_take_drop_id [of 4 b] append_take_drop_id [of 4 "drop 4 b"]
      append_take_drop_id [of 4 "drop 8 b"] by simp
  then show ?thesis using assms by (simp add: window_in_def GET_PUT)
qed

lemma block_undone:
  assumes "length b = 16"
  shows "sms4_encrypt T (rev rk) (sms4_encrypt T rk b) = b"
  by (simp add: sms4_encrypt_def window_out_in rounds_undone window_in_out assms)

text \<open>The two schedules run the same rounds; the keys to decrypt are those to encrypt, backwards.\<close>

lemma key_rounds_reversed:
  assumes "n \<le> 32"
  shows "\<exists>w rk. length rk = 32 \<and> fold (key_round S CK (\<lambda>i. i)) [0..<n] (w0, replicate 32 0) = (w, rk) \<and>
    fold (key_round S CK (\<lambda>i. 31 - i)) [0..<n] (w0, replicate 32 0) = (w, rev rk)"
  using assms
proof (induction n)
  case (Suc n)
  then obtain w rk where IH: "length rk = 32" "fold (key_round S CK (\<lambda>i. i)) [0..<n] (w0, replicate 32 0) = (w, rk)"
    "fold (key_round S CK (\<lambda>i. 31 - i)) [0..<n] (w0, replicate 32 0) = (w, rev rk)" by auto
  obtain a b c d where w: "w = (a, b, c, d)" by (cases w)
  have rev: "rev (rk[n := x]) = (rev rk)[31 - n := x]" for x
    using rev_update [of n rk x] Suc.prems IH(1) by simp
  show ?case by (simp add: IH w Let_def rev)
next
  case 0
  show ?case by (cases w0) simp
qed

lemma decrypt_key_reversed: "set_decrypt_key FK CK S key = rev (set_encrypt_key FK CK S key)"
  using key_rounds_reversed [of 32 S CK "key_start FK key"] by (auto simp: set_decrypt_key_def set_encrypt_key_def)

lemma sms4_encrypt_length [simp]: "length (sms4_encrypt T rk b) = 16"
proof -
  obtain x y z w where "fold (round_tbox T) rk (window_in b) = (x, y, z, w)" by (metis prod_cases4)
  then show ?thesis by (simp add: sms4_encrypt_def PUTU32_def)
qed

lemma ecb_length [simp]: "length (ecb_encrypt_blocks T rk d n) = 16 * n"
  by (induction n arbitrary: d) simp_all

lemma ecb_undone:
  "length d = 16 * n \<Longrightarrow> ecb_encrypt_blocks T (rev rk) (ecb_encrypt_blocks T rk d n) n = d"
proof (induction n arbitrary: d)
  case (Suc n)
  have "sms4_encrypt T (rev rk) (sms4_encrypt T rk (take 16 d)) = take 16 d"
    by (rule block_undone) (use Suc.prems in simp)
  with Suc show ?case by simp
qed simp

text \<open>
  C21: SM4 decryption undoes encryption.  Data whose length is a multiple of 16 is encrypted into a buffer of
  its length; decrypting that buffer with the same key gives the data back.  Data of another length
  leaves both buffers as they were.
\<close>

theorem sm4_decrypt_encrypt:
  assumes "length buf = length data" and "length out = length data"
  shows "sm4_ecb_decrypt (sm4_ecb_encrypt data key buf) key out = (if length data mod 16 = 0 then data else out)"
proof (cases "length data mod 16 = 0")
  case True
  then have n: "length data = 16 * (length data div 16)" by presburger
  show ?thesis
    using True assms n ecb_undone [OF n]
    by (simp add: sm4_ecb_decrypt_def sm4_ecb_encrypt_def blit_def decrypt_key_reversed)
next
  case False
  then show ?thesis using assms by (simp add: sm4_ecb_decrypt_def sm4_ecb_encrypt_def)
qed

theorem sm4_decrypt_encrypt_witness:
  "sm4_ecb_decrypt (sm4_ecb_encrypt (replicate 32 7) [] (replicate 32 0)) [] (replicate 32 1) = replicate 32 7"
  using sm4_decrypt_encrypt [of "replicate 32 0" "replicate 32 7" "replicate 32 1" "[]"] by simp

section \<open>The table is the standard's round function\<close>

text \<open>The round function of the standard: the S-box on the four bytes, then the linear map \<open>L\<close>.\<close>

definition sm4_L :: "u32 \<Rightarrow> u32" where
  "sm4_L x = x XOR ROL32 x 2 XOR ROL32 x 10 XOR ROL32 x 18 XOR ROL32 x 24"

definition sm4_round :: "u32 \<Rightarrow> window \<Rightarrow> window" where
  "sm4_round k = (\<lambda>(x0, x1, x2, x3). (x1, x2, x3, x0 XOR sm4_L (S32 sm4_Sbox (x1 XOR x2 XOR x3 XOR k))))"

lemma bit_ROL32: "0 < n \<Longrightarrow> n < 32 \<Longrightarrow> bit (ROL32 x n) i \<longleftrightarrow> i < 32 \<and> bit x ((i + (32 - n)) mod 32)"
proof (cases "i < n")
  case True
  assume n: "0 < n" "n < 32"
  then have "(i + (32 - n)) mod 32 = i + (32 - n)" using True by simp
  with True n show ?thesis by (auto simp: ROL32_def bit_simps add.commute)
next
  case False
  assume n: "0 < n" "n < 32"
  show ?thesis
  proof (cases "i < 32")
    case True
    then have "(i + (32 - n)) mod 32 = i - n" using False n by (simp add: mod_if)
    with True False n show ?thesis using bit_imp_le_length [of x "i + (32 - n)"]
      by (auto simp: ROL32_def bit_simps add.commute)
  next
    case False
    then show ?thesis using n bit_imp_le_length [of x "32 - n + i"] by (auto simp: ROL32_def bit_simps)
  qed
qed

lemma rol_xor: "0 < n \<Longrightarrow> n < 32 \<Longrightarrow> ROL32 (a XOR b) n = ROL32 a n XOR ROL32 b n"
  by (rule bit_word_eqI) (auto simp: bit_ROL32 bit_xor_iff)

lemma rol_rol: 
  assumes "0 < n" "n < 32" "0 < m" "m < 32"
  shows "ROL32 (ROL32 a n) m = ROL32 (ROL32 a m) n"
proof (rule bit_word_eqI)
  fix i :: nat
  have "((i + (32 - m)) mod 32 + (32 - n)) mod 32 = ((i + (32 - n)) mod 32 + (32 - m)) mod 32"
    by (simp add: mod_simps ac_simps)
  then show "bit (ROL32 (ROL32 a n) m) i = bit (ROL32 (ROL32 a m) n) i"
    using assms by (simp add: bit_ROL32)
qed

lemma L_xor: "sm4_L (a XOR b) = sm4_L a XOR sm4_L b"
  by (simp add: sm4_L_def rol_xor ac_simps)

lemma L_rol: "0 < n \<Longrightarrow> n < 32 \<Longrightarrow> ROL32 (sm4_L a) n = sm4_L (ROL32 a n)"
  by (simp add: sm4_L_def rol_xor rol_rol [of _ n])

lemma rol_byte:
  "ROL32 (push_bit 24 (ucast (b :: byte))) 8 = ucast b"
  "ROL32 (push_bit 24 (ucast (b :: byte))) 16 = push_bit 8 (ucast b)"
  "ROL32 (push_bit 24 (ucast (b :: byte))) 24 = push_bit 16 (ucast b)"
  by (rule bit_word_eqI; auto simp: ROL32_def bit_simps dest: bit_imp_le_length)+

lemma L_top_byte:
  "sm4_L (push_bit 24 (ucast (b :: byte))) = push_bit 24 (ucast b) XOR (push_bit 26 (ucast b) OR drop_bit 6 (ucast b)) XOR
     push_bit 2 (ucast b) XOR push_bit 10 (ucast b) XOR push_bit 16 (ucast b)"
proof -
  have "ROL32 (push_bit 24 (ucast b)) 2 = push_bit 26 (ucast b) OR drop_bit 6 (ucast b)"
    "ROL32 (push_bit 24 (ucast b)) 10 = push_bit 2 (ucast b)" "ROL32 (push_bit 24 (ucast b)) 18 = push_bit 10 (ucast b)"
    by (rule bit_word_eqI; auto simp: ROL32_def bit_simps dest: bit_imp_le_length)+
  then show ?thesis by (simp only: sm4_L_def rol_byte)
qed

lemma tbox_entries: "sm4_Tbox = map (\<lambda>b. sm4_L (push_bit 24 (ucast b))) sm4_Sbox"
  unfolding sm4_Tbox_def sm4_Sbox_def L_top_byte by simp

lemma tbox_val: "getTboxVal sm4_Tbox p = sm4_L (push_bit 24 (ucast (sm4_Sbox ! unat p)))"
proof -
  have "length sm4_Sbox = 256" by (simp add: sm4_Sbox_def)
  moreover have "unat p < 2 ^ LENGTH(8)" by (rule unsigned_less)
  ultimately show ?thesis by (simp add: getTboxVal_def tbox_entries)
qed

lemma low_byte: "(v :: u32) AND 0xff = take_bit 8 v"
proof -
  have "(0xff :: u32) = mask 8" by (simp add: mask_eq_exp_minus_1)
  then show ?thesis by (simp only: take_bit_eq_mask)
qed

lemma byte_index: "unat (ucast v :: byte) = unat ((v :: u32) AND 0xff)"
proof -
  have "v AND 0xff = ucast (ucast v :: byte)" unfolding low_byte by (rule bit_word_eqI) (auto simp: bit_simps)
  moreover have "unat (ucast b :: u32) = unat (b :: byte)" for b
    by (simp add: unsigned_ucast_eq take_bit_nat_eq_self less_le_trans [OF unsigned_less])
  ultimately show ?thesis by simp
qed

lemma top_byte: "drop_bit 24 (v :: u32) AND 0xff = drop_bit 24 v"
  unfolding low_byte by (rule bit_word_eqI) (auto simp: bit_simps dest: bit_imp_le_length)

lemma mix_L: "mix sm4_Tbox v = sm4_L (S32 sm4_Sbox v)"
  unfolding mix_def S32_def tbox_val
  by (simp add: L_rol L_xor rol_byte byte_index top_byte) (simp add: ac_simps)

text \<open>
  The table-driven round is the round of the standard: the S-box applied to the four bytes and the
  linear map \<open>L\<close>, so that a block is encrypted as the standard says.
\<close>

theorem sm4_table_rounds:
  "sms4_encrypt sm4_Tbox rk b = window_out (fold sm4_round rk (window_in b))"
proof -
  have "round_tbox sm4_Tbox k s = sm4_round k s" for k s
    by (cases s) (simp only: round_mix mix_L sm4_round_def prod.case)
  then have "round_tbox sm4_Tbox = sm4_round" by blast
  then show ?thesis by (simp only: sms4_encrypt_def)
qed

section \<open>The text form of Islam\<close>

lemma del_add_pad: "islamDelPad (islamAddPad d) = Ok d"
proof -
  obtain n where n: "n = 16 - length d mod 16" "0 < n" "n \<le> 16"
    using mod_less_divisor [of 16 "length d"] by fastforce
  have "unat (of_nat n :: byte) = n" using n(3) by (simp add: unat_of_nat)
  with n(2,3) show ?thesis
    by (simp add: islamDelPad_def islamAddPad_def n(1) [symmetric] Let_def)
qed

lemma pad_length: "length (islamAddPad d) mod 16 = 0" "16 \<le> length (islamAddPad d)"
proof -
  obtain q r where q: "length d = 16 * q + r" "r < 16" by (metis mult_div_mod_eq mod_less_divisor zero_less_numeral)
  then have "length (islamAddPad d) = 16 * (q + 1)" by (simp add: islamAddPad_def)
  then show "length (islamAddPad d) mod 16 = 0" "16 \<le> length (islamAddPad d)" by simp_all
qed

lemma pad_bound: "length (islamAddPad d) \<le> length d + 16" "length d \<le> length (islamAddPad d)"
  by (simp_all add: islamAddPad_def)

lemma len32:
  assumes "length d mod 16 = 0" and "length d < 2 ^ 32"
  shows "(of_nat (length d) :: u32) mod 16 = 0" "unat ((of_nat (length d) :: u32) div 16) = length d div 16"
proof -
  have u: "unat (of_nat (length d) :: u32) = length d" using assms(2) by (simp add: unat_of_nat)
  then show "unat ((of_nat (length d) :: u32) div 16) = length d div 16" by (simp add: unat_div)
  have "unat ((of_nat (length d) :: u32) mod 16) = 0" using u assms(1) by (simp add: unat_mod)
  then show "(of_nat (length d) :: u32) mod 16 = 0" by (simp only: unat_eq_zero)
qed

lemma islam_ecb_undone:
  assumes "length d mod 16 = 0" and "length d < 2 ^ 32" and "length buf = length d" and "length buf' = length d"
  shows "islam_ecb_decrypt (islam_ecb_encrypt d (of_nat (length d)) key buf) (of_nat (length d)) key buf' = d"
    and "length (islam_ecb_encrypt d (of_nat (length d)) key buf) = length d"
proof -
  have n: "length d = 16 * (length d div 16)" using assms(1) by presburger
  note len = len32 [OF assms(1,2)]
  show "islam_ecb_decrypt (islam_ecb_encrypt d (of_nat (length d)) key buf) (of_nat (length d)) key buf' = d"
    "length (islam_ecb_encrypt d (of_nat (length d)) key buf) = length d"
    using assms(3,4) n ecb_undone [OF n]
    by (simp_all only: islam_ecb_decrypt_def islam_ecb_encrypt_def len)
      (simp_all add: blit_def decrypt_key_reversed)
qed

lemma islam_raw_roundtrip:
  assumes "length (islamAddPad d) < 2 ^ 32" and "length out = length (islamAddPad d)"
  shows "islam_decrypt_raw (islam_encrypt_raw d key) key out = Ok d"
proof -
  have u: "unat (of_nat (length (islamAddPad d)) :: u32) = length (islamAddPad d)" using assms(1) by (simp add: unat_of_nat)
  note un = islam_ecb_undone [OF pad_length(1) assms(1) refl assms(2)]
  show ?thesis
    by (simp add: islam_decrypt_raw_def islam_encrypt_raw_def Let_def u un del_add_pad)
qed

text \<open>
  C32: Islam decrypts what it encrypted, with the pin of the encryption, exactly when the pin has four
  characters.  \<open>encrypt\<close> accepts longer pins, but \<open>decrypt\<close> compares the first four characters of the data
  with the whole pin: text encrypted under a longer pin is never decrypted again.  This holds below 3 GiB of
  data, where Base64 returns and no length exceeds 32 bits.
\<close>

theorem islam_text_roundtrip:
  assumes "4 \<le> length pin" and "length pin + length data + 18 < 3 * 2 ^ 30"
  shows "\<exists>enc. islam_encrypt junk data pin = Some (Ok enc) \<and>
    islam_decrypt junk' enc pin = Some (if length pin = 4 then Ok data else Throw Minus1)"
proof -
  let ?src = "islamAddPad (pin @ data)"
  let ?bin = "islam_ecb_encrypt ?src (of_nat (length ?src)) getDefKey (map junk [0..<length ?src])"
  have small: "length ?src + 2 < 3 * 2 ^ 30" using pad_bound(1) [of "pin @ data"] assms(2) by simp
  then have small': "length ?src < 2 ^ 32" by simp
  have un: "length ?bin = length ?src"
      "islam_ecb_decrypt ?bin (of_nat (length ?src)) getDefKey (map junk' [0..<length ?src]) = ?src"
    by (rule islam_ecb_undone [OF pad_length(1) small']; simp)+
  obtain enc64 where t: "b64_encode ?bin = Some enc64" "b64_decode enc64 = Some (Ok ?bin)"
    using base64_bytes [of ?bin] small un(1) by auto
  have e: "islam_encrypt junk data pin = Some (Ok (''islam:'' @ enc64))"
    using assms(1) t(1) by (simp add: islam_encrypt_def Let_def)
  have "length ?bin \<le> length enc64" by (rule b64_length [OF t(1)]) (use small' un(1) in simp)
  then have len: "\<not> length (''islam:'' @ enc64) < 22" using un(1) pad_length(2) [of "pin @ data"] by simp
  have "islam_decrypt junk' (''islam:'' @ enc64) pin = Some (if take 4 (pin @ data) \<noteq> pin then Throw Minus1
      else if length (pin @ data) < 4 then Throw OutOfRange else Ok (drop 4 (pin @ data)))"
    using len t(2) un pad_length(1) [of "pin @ data"] by (simp add: islam_decrypt_def del_add_pad)
  moreover have "take 4 (pin @ data) = pin \<longleftrightarrow> length pin = 4"
    using assms(1) by (auto simp: append_eq_conv_conj dest: arg_cong [of _ _ length])
  ultimately have "islam_decrypt junk' (''islam:'' @ enc64) pin = Some (if length pin = 4 then Ok data else Throw Minus1)"
    using assms(1) by auto
  with e show ?thesis by blast
qed

theorem islam_text_roundtrip_witness:
  "(\<exists>enc. islam_encrypt (\<lambda>i. 7) [1, 2, 3] [48, 48, 48, 48] = Some (Ok enc) \<and>
     islam_decrypt (\<lambda>i. 9) enc [48, 48, 48, 48] = Some (Ok [1, 2, 3])) \<and>
   (\<exists>enc. islam_encrypt (\<lambda>i. 7) [1] [48, 48, 48, 48, 48] = Some (Ok enc) \<and>
     islam_decrypt (\<lambda>i. 9) enc [48, 48, 48, 48, 48] = Some (Throw Minus1))"
  using islam_text_roundtrip [of "[48, 48, 48, 48]" "[1, 2, 3]" "\<lambda>i. 7" "\<lambda>i. 9"]
    islam_text_roundtrip [of "[48, 48, 48, 48, 48]" "[1]" "\<lambda>i. 7" "\<lambda>i. 9"] by simp

end
