(* ===== verification/Ys_Drbg.thy ===== *)
theory Ys_Drbg
  imports Ys_Digest
begin

text \<open>
  \<open>isaac/alg/ys_sm3_drbg.hpp\<close>: the random number generator built on SM3.  A write past the end of a member is
  \<open>Undef\<close>; the entropy of the system, the time and the uninitialised part of a local array are arguments.
\<close>

section \<open>Numbers of 55 bytes\<close>

definition SM3_SEED_LEN :: nat where "SM3_SEED_LEN = 55"

text \<open>\<open>add\<close> and \<open>add1\<close>: the loop runs from the last byte, the low one, to the first; \<open>temp\<close> is the carry.\<close>

primrec add_loop :: "nat \<Rightarrow> nat \<Rightarrow> bytes \<Rightarrow> bytes \<Rightarrow> bytes" where
  "add_loop 0 temp R A = R"
| "add_loop (Suc i) temp R A =
     (let temp = temp + (unat (R ! i) + unat (A ! i)) in add_loop i (temp div 256) (R[i := of_nat temp]) A)"

definition seed_add :: "bytes \<Rightarrow> bytes \<Rightarrow> bytes" where "seed_add R A = add_loop SM3_SEED_LEN 0 R A"

primrec add1_loop :: "nat \<Rightarrow> nat \<Rightarrow> bytes \<Rightarrow> bytes" where
  "add1_loop 0 temp R = R"
| "add1_loop (Suc i) temp R = (let temp = temp + unat (R ! i) in add1_loop i (temp div 256) (R[i := of_nat temp]))"

definition seed_add1 :: "bytes \<Rightarrow> bytes" where "seed_add1 R = add1_loop SM3_SEED_LEN 1 R"

definition PUTU64 :: "u64 \<Rightarrow> bytes" where
  "PUTU64 v = [ucast (drop_bit 56 v), ucast (drop_bit 48 v), ucast (drop_bit 40 v), ucast (drop_bit 32 v),
     ucast (drop_bit 24 v), ucast (drop_bit 16 v), ucast (drop_bit 8 v), ucast v]"

section \<open>The generator\<close>

record sm3_drbg =
  d_v :: bytes
  d_c :: bytes
  d_counter :: u64

definition new_drbg :: sm3_drbg where
  "new_drbg = \<lparr>d_v = replicate SM3_SEED_LEN 0, d_c = replicate SM3_SEED_LEN 0, d_counter = 0\<rparr>"

text \<open>\<open>sm3Df\<close>: the counter has one byte.\<close>

function df_loop :: "bytes \<Rightarrow> bytes \<Rightarrow> byte \<Rightarrow> nat \<Rightarrow> bytes" where
  "df_loop outbits material counter outLen =
     (if outLen = 0 then []
      else take (min outLen 32) (sm3_final (sm3_update material (sm3_update outbits (sm3_update [counter] sm3_init)))) @
        df_loop outbits material (counter + 1) (outLen - min outLen 32))"
  by pat_completeness auto
termination by (relation "measure (\<lambda>(b, m, c, n). n)") auto

declare df_loop.simps [simp del]

definition sm3Df :: "bytes \<Rightarrow> u32 \<Rightarrow> bytes" where
  "sm3Df material outLen = df_loop (PUTU32 (push_bit 3 outLen)) material 1 (unat outLen)"

text \<open>
  \<open>init\<close>: the second call of \<open>sm3Df\<close> is given the length of the seed as its output length and the length of
  the material as its input length.  \<open>junk\<close> is what the local array of 128 bytes holds behind its first 56.
\<close>

definition drbg_init :: "bytes \<Rightarrow> bytes \<Rightarrow> bytes \<Rightarrow> bytes \<Rightarrow> sm3_drbg \<Rightarrow> (unit, sm3_drbg) outcome" where
  "drbg_init junk entropy nonce personal s =
     (let material = entropy @ nonce @ personal;
          v = sm3Df material (of_nat SM3_SEED_LEN);
          uBuf = 0 # v @ take 72 junk;
          c = sm3Df (take (length material) uBuf) (1 + of_nat SM3_SEED_LEN)
      in if length uBuf < length material \<or> SM3_SEED_LEN < length v \<or> SM3_SEED_LEN < length c then Undef
         else Ok (s\<lparr>d_v := v, d_c := c, d_counter := 1\<rparr>))"

definition reseedDef :: "bytes \<Rightarrow> bytes \<Rightarrow> sm3_drbg \<Rightarrow> (unit, sm3_drbg) outcome" where
  "reseedDef junk ent s = drbg_init junk (d_v s) ent [] s"

definition drbg_reseed :: "bytes \<Rightarrow> bytes \<Rightarrow> bytes \<Rightarrow> sm3_drbg \<Rightarrow> (unit, sm3_drbg) outcome" where
  "drbg_reseed junk entropy additional s = drbg_init junk (d_v s) entropy additional s"

function gen_loop :: "bytes \<Rightarrow> nat \<Rightarrow> bytes" where
  "gen_loop data outLen =
     (if outLen = 0 then []
      else take (min outLen 32) (sm3_final (sm3_update data sm3_init)) @
        gen_loop (seed_add1 data) (outLen - min outLen 32))"
  by pat_completeness auto
termination by (relation "measure snd") auto

declare gen_loop.simps [simp del]

definition sm3Gen :: "u32 \<Rightarrow> sm3_drbg \<Rightarrow> bytes" where "sm3Gen outLen s = gen_loop (d_v s) (unat outLen)"

text \<open>A number of 55 bytes with the given low ones.\<close>

definition in_low :: "bytes \<Rightarrow> bytes" where "in_low bs = replicate (SM3_SEED_LEN - length bs) 0 @ bs"

definition add_additional :: "bytes \<Rightarrow> sm3_drbg \<Rightarrow> sm3_drbg" where
  "add_additional additional s =
     (if additional = [] then s
      else s\<lparr>d_v := seed_add (d_v s)
        (in_low (sm3_final (sm3_update additional (sm3_update (d_v s) (sm3_update [0x02] sm3_init)))))\<rparr>)"

definition drbg_next :: "sm3_drbg \<Rightarrow> sm3_drbg" where
  "drbg_next s =
     (let v1 = seed_add (d_v s) (in_low (sm3_final (sm3_update (d_v s) (sm3_update [0x03] sm3_init))));
          v2 = seed_add v1 (d_c s);
          v3 = seed_add v2 (in_low (PUTU64 (d_counter s)))
      in s\<lparr>d_v := v3, d_counter := d_counter s + 1\<rparr>)"

definition drbg_generate :: "bytes \<Rightarrow> bytes \<Rightarrow> bytes \<Rightarrow> u32 \<Rightarrow> sm3_drbg \<Rightarrow> (unit, bytes \<times> sm3_drbg) outcome" where
  "drbg_generate junk ent additional outlen s =
     bindO (if 2 ^ 48 < d_counter s then reseedDef junk ent s else Ok s) (\<lambda>s1.
       let s2 = add_additional additional s1 in Ok (sm3Gen outlen s2, drbg_next s2))"

text \<open>\<open>randBytes\<close>: the generator is static, and \<open>None\<close> until its first use.\<close>

definition randBytes :: "bytes \<Rightarrow> bytes \<Rightarrow> bytes \<Rightarrow> u32 \<Rightarrow> sm3_drbg option \<Rightarrow> (unit, bytes \<times> sm3_drbg) outcome" where
  "randBytes junk ent tm len st =
     bindO (case st of None \<Rightarrow> drbg_init junk ent tm [] new_drbg | Some s \<Rightarrow> Ok s) (drbg_generate junk ent [] len)"

section \<open>Addition\<close>

fun be_val :: "bytes \<Rightarrow> nat" where
  "be_val [] = 0"
| "be_val (b # bs) = unat b * 256 ^ length bs + be_val bs"

lemma be_val_append: "be_val (a @ b) = be_val a * 256 ^ length b + be_val b"
  by (induction a) (simp_all add: algebra_simps power_add)

lemma be_val_less: "be_val bs < 256 ^ length bs"
proof (induction bs)
  case (Cons b bs)
  have "unat b < 2 ^ LENGTH(8)" by (rule unsigned_less)
  then have "unat b + 1 \<le> 256" by simp
  from mult_right_mono [OF this, of "256 ^ length bs"]
  have "unat b * 256 ^ length bs + 256 ^ length bs \<le> 256 ^ length (b # bs)" by (simp add: algebra_simps)
  with Cons show ?case unfolding be_val.simps by linarith
qed simp

lemma be_val_take: "i < length bs \<Longrightarrow> be_val (take (Suc i) bs) = be_val (take i bs) * 256 + unat (bs ! i)"
  by (simp add: take_Suc_conv_app_nth be_val_append)

lemma add_loop_length [simp]: "length (add_loop i t R A) = length R"
  by (induction i arbitrary: t R) (simp_all add: Let_def)

lemma add_loop_high: "i \<le> j \<Longrightarrow> add_loop i t R A ! j = R ! j"
  by (induction i arbitrary: t R) (simp_all add: Let_def)

lemma add_loop_val:
  "n \<le> length R \<Longrightarrow> n \<le> length A \<Longrightarrow>
    be_val (take n (add_loop n t R A)) = (be_val (take n R) + be_val (take n A) + t) mod 256 ^ n"
proof (induction n arbitrary: t R)
  case (Suc n)
  let ?t = "t + (unat (R ! n) + unat (A ! n))"
  let ?R = "R[n := of_nat ?t]"
  have top: "unat (add_loop n (?t div 256) ?R A ! n) = ?t mod 256"
    using Suc.prems by (simp add: add_loop_high unat_of_nat del: of_nat_add)
  have "be_val (take (Suc n) (add_loop (Suc n) t R A)) =
      (be_val (take n R) + be_val (take n A) + ?t div 256) mod 256 ^ n * 256 + ?t mod 256"
    using Suc.prems Suc.IH [of ?R "?t div 256"] top by (simp add: Let_def be_val_take)
  also have "\<dots> = ((be_val (take n R) + be_val (take n A)) * 256 + ?t) mod 256 ^ Suc n"
  proof -
    have "(a + t div 256) mod 256 ^ n * 256 + t mod 256 = (a * 256 + t) mod 256 ^ Suc n" for a t :: nat
      using mod_mult2_eq [of "a * 256 + t" 256 "256 ^ n"] by (simp add: mult.commute)
    then show ?thesis .
  qed
  also have "(be_val (take n R) + be_val (take n A)) * 256 + ?t = be_val (take (Suc n) R) + be_val (take (Suc n) A) + t"
    using Suc.prems by (simp add: be_val_take)
  finally show ?case .
qed simp

lemma add1_loop_add: "n \<le> m \<Longrightarrow> add1_loop n t R = add_loop n t R (replicate m 0)"
  by (induction n arbitrary: t R) (simp_all add: Let_def)

lemma be_val_zeros [simp]: "be_val (replicate n 0) = 0"
  by (induction n) simp_all

lemma seed_add_val:
  "length R = 55 \<Longrightarrow> length A = 55 \<Longrightarrow> length (seed_add R A) = 55 \<and> be_val (seed_add R A) = (be_val R + be_val A) mod 2 ^ 440"
  using add_loop_val [of 55 R A 0] by (simp add: seed_add_def SM3_SEED_LEN_def)

lemma seed_add1_val: "length R = 55 \<Longrightarrow> length (seed_add1 R) = 55 \<and> be_val (seed_add1 R) = (be_val R + 1) mod 2 ^ 440"
  using add_loop_val [of 55 R "replicate 55 0" 1] by (simp add: seed_add1_def SM3_SEED_LEN_def add1_loop_add [of 55 55])

lemma in_low_val: "length bs \<le> 55 \<Longrightarrow> length (in_low bs) = 55 \<and> be_val (in_low bs) = be_val bs"
  by (simp add: in_low_def SM3_SEED_LEN_def be_val_append)

section \<open>Digests\<close>

lemma sm3_step_length: "length s = 8 \<Longrightarrow> length (sm3_step W s j) = 8"
  by (cases "(W, s, j)" rule: sm3_step.cases) (auto simp: Let_def)

lemma sm3_compress_length: "length h = 8 \<Longrightarrow> length (sm3_compress h blk) = 8"
proof -
  have "length s = 8 \<Longrightarrow> length (foldl (sm3_step W) s js) = 8" for W s js
    by (induction js arbitrary: s) (simp_all add: sm3_step_length)
  then show "length h = 8 \<Longrightarrow> ?thesis" by (simp add: sm3_compress_def)
qed

lemma sm3_spec_length [simp]: "length (sm3_spec m) = 32"
proof -
  have "length h = 8 \<Longrightarrow> length (foldl sm3_compress h bs) = 8" for h bs
    by (induction bs arbitrary: h) (simp_all add: sm3_compress_length)
  then have "length (foldl sm3_compress (sm3_digest sm3_init) bs) = 8" for bs by (simp add: sm3_init_def)
  moreover have "length (concat (map PUTU32 h)) = 4 * length h" for h
    by (induction h) (simp_all add: PUTU32_def)
  ultimately show ?thesis by (simp add: sm3_spec_def hash_spec_def)
qed

lemma sm3_of_pieces:
  "length a < 2 ^ 32 \<Longrightarrow> sm3_final (sm3_update a sm3_init) = sm3_spec a"
  "length a < 2 ^ 32 \<Longrightarrow> length b < 2 ^ 32 \<Longrightarrow> sm3_final (sm3_update b (sm3_update a sm3_init)) = sm3_spec (a @ b)"
  "length a < 2 ^ 32 \<Longrightarrow> length b < 2 ^ 32 \<Longrightarrow> length c < 2 ^ 32 \<Longrightarrow>
    sm3_final (sm3_update c (sm3_update b (sm3_update a sm3_init))) = sm3_spec (a @ b @ c)"
  using sm3.in_pieces [of "[a]"] sm3.in_pieces [of "[a, b]"] sm3.in_pieces [of "[a, b, c]"] by simp_all

section \<open>The generator is the one of the standard\<close>

text \<open>A number below \<open>2 ^ 440\<close> as 55 bytes, the high one first.\<close>

fun be_bytes :: "nat \<Rightarrow> nat \<Rightarrow> bytes" where
  "be_bytes 0 n = []"
| "be_bytes (Suc k) n = be_bytes k (n div 256) @ [of_nat n]"

lemma be_bytes_length [simp]: "length (be_bytes k n) = k"
  by (induction k arbitrary: n) simp_all

lemma be_bytes_val: "be_bytes (length bs) (be_val bs) = bs"
proof (induction bs rule: rev_induct)
  case (snoc b bs)
  have "unat b < 2 ^ LENGTH(8)" by (rule unsigned_less)
  then have "(be_val bs * 256 + unat b) div 256 = be_val bs" by simp
  moreover have "of_nat (be_val bs * 256 + unat b) = b"
    using \<open>unat b < 2 ^ LENGTH(8)\<close> by (simp add: word_unat_eq_iff unat_of_nat del: of_nat_add of_nat_mult)
  ultimately show ?case using snoc by (simp add: be_val_append)
qed simp

lemma be_bytes_of_val: "length bs = k \<Longrightarrow> be_val bs = n \<Longrightarrow> be_bytes k n = bs"
  using be_bytes_val [of bs] by simp

text \<open>The output: the digests of the seed, the seed and one, and so on.\<close>

fun hashgen :: "nat \<Rightarrow> nat \<Rightarrow> bytes" where
  "hashgen v 0 = []"
| "hashgen v (Suc k) = sm3_spec (be_bytes 55 v) @ hashgen ((v + 1) mod 2 ^ 440) k"

lemma gen_loop_hashgen:
  "length data = 55 \<Longrightarrow> n \<le> 32 * k \<Longrightarrow> gen_loop data n = take n (hashgen (be_val data) k)"
proof (induction k arbitrary: data n)
  case (Suc k)
  have d: "sm3_final (sm3_update data sm3_init) = sm3_spec (be_bytes 55 (be_val data))"
    using Suc.prems(1) be_bytes_val [of data] by (simp add: sm3_of_pieces)
  have le: "n - min n 32 \<le> 32 * k" using Suc.prems(2) by (simp add: min_def) arith
  have next1: "length (seed_add1 data) = 55" "be_val (seed_add1 data) = (be_val data + 1) mod 2 ^ 440"
    using seed_add1_val [OF Suc.prems(1)] by blast+
  show ?case
  proof (cases "n = 0")
    case False
    then have "gen_loop data n = take (min n 32) (sm3_spec (be_bytes 55 (be_val data))) @
        take (n - min n 32) (hashgen ((be_val data + 1) mod 2 ^ 440) k)"
      using Suc.IH [OF next1(1) le] d next1(2) by (subst gen_loop.simps) simp
    moreover have "n - min n 32 = n - 32" by simp
    moreover have "take (min n 32) (sm3_spec m) = take n (sm3_spec m)" for m by (cases "n \<le> 32") (simp_all add: min_def)
    ultimately show ?thesis by simp
  qed (simp add: gen_loop.simps)
qed (simp add: gen_loop.simps)

lemma be_val_be_bytes: "be_val (be_bytes k n) = n mod 256 ^ k"
proof (induction k arbitrary: n)
  case (Suc k)
  have "n mod 256 ^ Suc k = 256 * (n div 256 mod 256 ^ k) + n mod 256"
    using mod_mult2_eq [of n 256 "256 ^ k"] by simp
  then show ?case using Suc by (simp add: be_val_append unat_of_nat)
qed simp

lemma PUTU64_val: "be_val (PUTU64 w) = unat w"
proof -
  have lt: "unat w < 2 ^ LENGTH(64)" by (rule unsigned_less)
  then have "unat w mod 18446744073709551616 = unat w" by simp
  then have byte: "(ucast (drop_bit k w) :: byte) = of_nat (unat w div 2 ^ k)" for k
    by (simp add: word_unat_eq_iff unat_of_nat unsigned_ucast_eq take_bit_eq_mod unsigned_drop_bit_eq
        drop_bit_eq_div [where 'a = nat])
  have "PUTU64 w = be_bytes 8 (unat w)"
  proof -
    have step: "be_bytes (numeral j) n = be_bytes (pred_numeral j) (n div 256) @ [of_nat n]" for j n
      by (simp only: numeral_eq_Suc be_bytes.simps)
    show ?thesis using byte [of 0] by (simp add: PUTU64_def byte step div_mult2_eq [symmetric])
  qed
  moreover have "unat w < 256 ^ 8" using lt by simp
  ultimately show ?thesis by (simp add: be_val_be_bytes)
qed

definition drbg_ok :: "sm3_drbg \<Rightarrow> bool" where
  "drbg_ok s \<longleftrightarrow> length (d_v s) = 55 \<and> length (d_c s) = 55 \<and> d_counter s \<le> 2 ^ 48"

text \<open>
  The generator is the one of the standard.  A call with no reseeding gives the digests of the seed and its
  successors, cut to the length asked for, and the seed becomes the sum of the seed, the digest of
  3 and the seed, the constant and the counter, modulo \<open>2 ^ 440\<close>.
\<close>

theorem generate_standard:
  assumes ok: "drbg_ok s"
  shows "\<exists>s'. drbg_generate junk ent [] n s = Ok (take (unat n) (hashgen (be_val (d_v s)) (unat n)), s') \<and>
    length (d_v s') = 55 \<and> d_c s' = d_c s \<and> d_counter s' = d_counter s + 1 \<and>
    be_val (d_v s') = (be_val (d_v s) + be_val (sm3_spec (3 # d_v s)) + be_val (d_c s) + unat (d_counter s)) mod 2 ^ 440"
proof -
  have v: "length (d_v s) = 55" "length (d_c s) = 55" and small: "\<not> 2 ^ 48 < d_counter s"
    using ok by (simp_all add: drbg_ok_def not_less)
  have out: "sm3Gen n s = take (unat n) (hashgen (be_val (d_v s)) (unat n))"
    using gen_loop_hashgen [OF v(1), of "unat n" "unat n"] by (simp add: sm3Gen_def)
  let ?h = "in_low (sm3_spec (3 # d_v s))"
  let ?k = "in_low (PUTU64 (d_counter s))"
  have h: "length ?h = 55" "be_val ?h = be_val (sm3_spec (3 # d_v s))" by (simp_all add: in_low_val)
  have k: "length ?k = 55" "be_val ?k = unat (d_counter s)"
    using in_low_val [of "PUTU64 (d_counter s)"] by (simp_all add: PUTU64_val) (simp_all add: PUTU64_def)
  let ?v1 = "seed_add (d_v s) ?h"
  let ?v2 = "seed_add ?v1 (d_c s)"
  have v1: "length ?v1 = 55" "be_val ?v1 = (be_val (d_v s) + be_val ?h) mod 2 ^ 440"
    using seed_add_val [OF v(1) h(1)] by blast+
  have v2: "length ?v2 = 55" "be_val ?v2 = (be_val ?v1 + be_val (d_c s)) mod 2 ^ 440"
    using seed_add_val [OF v1(1) v(2)] by blast+
  have v3: "length (seed_add ?v2 ?k) = 55" "be_val (seed_add ?v2 ?k) = (be_val ?v2 + be_val ?k) mod 2 ^ 440"
    using seed_add_val [OF v2(1) k(1)] by blast+
  have next1: "drbg_next s = s\<lparr>d_v := seed_add ?v2 ?k, d_counter := d_counter s + 1\<rparr>"
    using v by (simp add: drbg_next_def sm3_of_pieces)
  have val: "be_val (seed_add ?v2 ?k) =
      (be_val (d_v s) + be_val (sm3_spec (3 # d_v s)) + be_val (d_c s) + unat (d_counter s)) mod 2 ^ 440"
    unfolding v3(2) v2(2) v1(2) h(2) k(2) by (simp only: mod_add_left_eq mod_add_eq mod_add_right_eq)
  have run: "drbg_generate junk ent [] n s = Ok (sm3Gen n s, drbg_next s)"
    using small by (simp add: drbg_generate_def add_additional_def)
  show ?thesis by (rule exI [of _ "drbg_next s"]) (simp add: run out next1 v3(1) val)
qed

lemma generate_standard_witness:
  "\<exists>s'. drbg_generate [] [] [] 40 (new_drbg\<lparr>d_counter := 7\<rparr>) = Ok (take 40 (hashgen (be_val (replicate 55 0)) 40), s') \<and>
    d_counter s' = 8"
proof -
  have "drbg_ok (new_drbg\<lparr>d_counter := 7\<rparr>)" by (simp add: drbg_ok_def new_drbg_def SM3_SEED_LEN_def)
  from generate_standard [OF this, of "[]" "[]" 40] show ?thesis
    by (auto simp: new_drbg_def SM3_SEED_LEN_def)
qed

section \<open>The initialisation\<close>

lemma df_loop_length: "length o8 = 4 \<Longrightarrow> length m < 2 ^ 32 \<Longrightarrow> length (df_loop o8 m k n) = n"
proof (induction o8 m k n rule: df_loop.induct)
  case (1 o8 m k n)
  then show ?case by (subst df_loop.simps) (auto simp: sm3_of_pieces)
qed

text \<open>
  The generator never gets started.  Whatever the entropy, the call of \<open>sm3Df\<close> that fills the constant writes 56
  bytes into a member of 55: the first call of \<open>randBytes\<close> is undefined, and so is every reseeding.
\<close>

theorem first_use_overflows:
  assumes "length ent < 2 ^ 31" and "length tm < 2 ^ 31"
  shows "randBytes junk ent tm len None = Undef"
proof -
  let ?m = "ent @ tm"
  let ?u = "0 # sm3Df ?m (of_nat SM3_SEED_LEN) @ take 72 junk"
  have "length (take (length ?m) ?u) < 2 ^ 32" using assms by simp
  then have "length (sm3Df (take (length ?m) ?u) (1 + of_nat SM3_SEED_LEN)) = 56"
    by (simp add: sm3Df_def SM3_SEED_LEN_def df_loop_length PUTU32_def)
  then show ?thesis by (simp add: randBytes_def drbg_init_def Let_def SM3_SEED_LEN_def)
qed

lemma first_use_overflows_witness: "randBytes [] (replicate 16 7) (replicate 8 1) 32 None = Undef"
  by (rule first_use_overflows) simp_all

end
