(* ===== verification/Ys_Regex.thy ===== *)
theory Ys_Regex
  imports Ys_Url
begin

text \<open>
  The part of \<open>std::regex\<close> that the program uses, for \<open>regex_match\<close> on whole strings: the constructors of
  ECMAScript patterns with their meaning, and a matcher that works character by character.  A lookahead
  at the start of a pattern and a word boundary at an end of it become conjunctions.
\<close>

section \<open>Patterns\<close>

datatype rx = RZero | REps | RCh "char \<Rightarrow> bool" | RSeq rx rx | RAlt rx rx | RAnd rx rx | RStar rx

inductive matches :: "rx \<Rightarrow> string \<Rightarrow> bool" where
  eps: "matches REps []"
| ch: "P c \<Longrightarrow> matches (RCh P) [c]"
| seq: "matches r u \<Longrightarrow> matches q v \<Longrightarrow> matches (RSeq r q) (u @ v)"
| alt1: "matches r s \<Longrightarrow> matches (RAlt r q) s"
| alt2: "matches q s \<Longrightarrow> matches (RAlt r q) s"
| both: "matches r s \<Longrightarrow> matches q s \<Longrightarrow> matches (RAnd r q) s"
| star0: "matches (RStar r) []"
| star1: "matches r u \<Longrightarrow> u \<noteq> [] \<Longrightarrow> matches (RStar r) v \<Longrightarrow> matches (RStar r) (u @ v)"

inductive_simps matches_simps [simp]: "matches RZero s" "matches REps s" "matches (RCh P) s"
  "matches (RAlt r q) s" "matches (RAnd r q) s"

inductive_simps matches_seq: "matches (RSeq r q) s"

inductive_cases matches_starE: "matches (RStar r) s"

section \<open>Matching\<close>

fun nullable :: "rx \<Rightarrow> bool" where
  "nullable RZero = False"
| "nullable REps = True"
| "nullable (RCh P) = False"
| "nullable (RSeq r q) = (nullable r \<and> nullable q)"
| "nullable (RAlt r q) = (nullable r \<or> nullable q)"
| "nullable (RAnd r q) = (nullable r \<and> nullable q)"
| "nullable (RStar r) = True"

fun mk_seq :: "rx \<Rightarrow> rx \<Rightarrow> rx" where
  "mk_seq RZero q = RZero"
| "mk_seq REps q = q"
| "mk_seq r q = RSeq r q"

fun mk_alt :: "rx \<Rightarrow> rx \<Rightarrow> rx" where
  "mk_alt RZero q = q"
| "mk_alt r RZero = r"
| "mk_alt r q = RAlt r q"

fun deriv :: "char \<Rightarrow> rx \<Rightarrow> rx" where
  "deriv c RZero = RZero"
| "deriv c REps = RZero"
| "deriv c (RCh P) = (if P c then REps else RZero)"
| "deriv c (RSeq r q) =
     (if nullable r then mk_alt (mk_seq (deriv c r) q) (deriv c q) else mk_seq (deriv c r) q)"
| "deriv c (RAlt r q) = mk_alt (deriv c r) (deriv c q)"
| "deriv c (RAnd r q) = RAnd (deriv c r) (deriv c q)"
| "deriv c (RStar r) = mk_seq (deriv c r) (RStar r)"

definition regex_match :: "rx \<Rightarrow> string \<Rightarrow> bool" where
  "regex_match r s = nullable (fold deriv s r)"

section \<open>The matcher decides the language\<close>

lemma matches_nullable: "matches r [] \<longleftrightarrow> nullable r"
  by (induction r) (auto simp: matches_seq intro: star0)

lemma matches_mk_seq [simp]: "matches (mk_seq r q) s \<longleftrightarrow> matches (RSeq r q) s"
  by (cases "(r, q)" rule: mk_seq.cases) (auto simp: matches_seq)

lemma matches_mk_alt [simp]: "matches (mk_alt r q) s \<longleftrightarrow> matches r s \<or> matches q s"
  by (cases "(r, q)" rule: mk_alt.cases) simp_all

lemma seq_Cons:
  "matches (RSeq r q) (c # s) \<longleftrightarrow>
     (\<exists>u v. s = u @ v \<and> matches r (c # u) \<and> matches q v) \<or> matches r [] \<and> matches q (c # s)"
  by (auto simp: matches_seq Cons_eq_append_conv)

lemma star_Cons:
  "matches (RStar r) (c # s) \<longleftrightarrow> (\<exists>u v. s = u @ v \<and> matches r (c # u) \<and> matches (RStar r) v)"
proof
  assume "matches (RStar r) (c # s)"
  then show "\<exists>u v. s = u @ v \<and> matches r (c # u) \<and> matches (RStar r) v"
    by (rule matches_starE) (auto simp: Cons_eq_append_conv)
next
  assume "\<exists>u v. s = u @ v \<and> matches r (c # u) \<and> matches (RStar r) v"
  then obtain u v where s: "s = u @ v" and m: "matches r (c # u)" "matches (RStar r) v" by blast
  from star1 [OF m(1) _ m(2)] show "matches (RStar r) (c # s)" by (simp add: s)
qed

lemma matches_deriv: "matches (deriv c r) s \<longleftrightarrow> matches r (c # s)"
proof (induction r arbitrary: s)
  case (RSeq r q)
  then show ?case
    by (simp add: seq_Cons [of r q] matches_seq [of "deriv c r"] matches_nullable)
next
  case (RStar r)
  then show ?case by (simp add: star_Cons matches_seq)
qed simp_all

text \<open>The matcher accepts exactly the strings of the pattern's language.\<close>

lemma regex_match_iff: "regex_match r s \<longleftrightarrow> matches r s"
  unfolding regex_match_def
  by (induction s arbitrary: r) (simp_all add: matches_nullable matches_deriv)

section \<open>Repetition\<close>

fun rep :: "nat \<Rightarrow> rx \<Rightarrow> rx" where
  "rep 0 r = REps"
| "rep (Suc n) r = RSeq r (rep n r)"

fun upto_rx :: "nat \<Rightarrow> rx \<Rightarrow> rx" where
  "upto_rx 0 r = REps"
| "upto_rx (Suc n) r = RAlt REps (RSeq r (upto_rx n r))"

text \<open>\<open>r{m,n}\<close> and \<open>r{m,}\<close>.\<close>

definition between :: "nat \<Rightarrow> nat \<Rightarrow> rx \<Rightarrow> rx" where
  "between m n r = RSeq (rep m r) (upto_rx (n - m) r)"

definition at_least :: "nat \<Rightarrow> rx \<Rightarrow> rx" where "at_least m r = RSeq (rep m r) (RStar r)"

definition opt :: "rx \<Rightarrow> rx" where "opt r = RAlt r REps"

definition lit :: "string \<Rightarrow> rx" where "lit s = foldr (\<lambda>c r. RSeq (RCh (\<lambda>d. d = c)) r) s REps"

lemma matches_opt [simp]: "matches (opt r) s \<longleftrightarrow> matches r s \<or> s = []"
  by (simp add: opt_def)

lemma matches_lit [simp]: "matches (lit t) s \<longleftrightarrow> s = t"
  by (induction t arbitrary: s) (auto simp: lit_def matches_seq)

lemma matches_heads [simp]:
  "matches (RSeq (RCh P) r) s \<longleftrightarrow> (\<exists>c v. s = c # v \<and> P c \<and> matches r v)"
  "matches (RSeq (lit t) r) s \<longleftrightarrow> (\<exists>v. s = t @ v \<and> matches r v)"
  "matches (RSeq (opt q) r) s \<longleftrightarrow> matches (RSeq q r) s \<or> matches r s"
  by (auto simp: matches_seq) (metis append_Cons append_Nil)

lemma matches_rep: "matches (rep n r) s \<longleftrightarrow> (\<exists>us. s = concat us \<and> length us = n \<and> list_all (matches r) us)"
proof (induction n arbitrary: s)
  case (Suc n)
  show ?case
  proof
    assume "matches (rep (Suc n) r) s"
    then obtain u v where uv: "s = u @ v" "matches r u" "matches (rep n r) v" by (auto simp: matches_seq)
    then obtain us where "v = concat us" "length us = n" "list_all (matches r) us" using Suc.IH by blast
    with uv show "\<exists>us. s = concat us \<and> length us = Suc n \<and> list_all (matches r) us"
      by (intro exI [of _ "u # us"]) simp
  next
    assume "\<exists>us. s = concat us \<and> length us = Suc n \<and> list_all (matches r) us"
    then obtain u us where "s = u @ concat us" "length us = n" "matches r u" "list_all (matches r) us"
      by (auto simp: length_Suc_conv)
    then show "matches (rep (Suc n) r) s" by (auto simp: Suc.IH matches_seq)
  qed
qed auto

lemma matches_upto: "matches (upto_rx n r) s \<longleftrightarrow> (\<exists>us. s = concat us \<and> length us \<le> n \<and> list_all (matches r) us)"
proof (induction n arbitrary: s)
  case (Suc n)
  show ?case
  proof
    assume "matches (upto_rx (Suc n) r) s"
    then consider "s = []" | u v where "s = u @ v" "matches r u" "matches (upto_rx n r) v" by (auto simp: matches_seq)
    then show "\<exists>us. s = concat us \<and> length us \<le> Suc n \<and> list_all (matches r) us"
    proof cases
      case (2 u v)
      then obtain us where "v = concat us" "length us \<le> n" "list_all (matches r) us" using Suc.IH by blast
      with 2 show ?thesis by (intro exI [of _ "u # us"]) simp
    qed (auto intro: exI [of _ "[]"])
  next
    assume "\<exists>us. s = concat us \<and> length us \<le> Suc n \<and> list_all (matches r) us"
    then obtain us where us: "s = concat us" "length us \<le> Suc n" "list_all (matches r) us" by blast
    then show "matches (upto_rx (Suc n) r) s" by (cases us) (auto simp: Suc.IH matches_seq)
  qed
qed auto

lemma matches_between:
  assumes "m \<le> n"
  shows "matches (between m n r) s \<longleftrightarrow> (\<exists>us. s = concat us \<and> m \<le> length us \<and> length us \<le> n \<and> list_all (matches r) us)"
proof
  assume "matches (between m n r) s"
  then obtain us vs where "s = concat us @ concat vs" "length us = m" "length vs \<le> n - m"
    "list_all (matches r) us" "list_all (matches r) vs"
    by (auto simp: between_def matches_seq matches_rep matches_upto)
  with assms show "\<exists>us. s = concat us \<and> m \<le> length us \<and> length us \<le> n \<and> list_all (matches r) us"
    by (intro exI [of _ "us @ vs"]) simp
next
  assume "\<exists>us. s = concat us \<and> m \<le> length us \<and> length us \<le> n \<and> list_all (matches r) us"
  then obtain us where us: "s = concat us" "m \<le> length us" "length us \<le> n" "list_all (matches r) us" by blast
  have all: "list_all (matches r) (take m us)" "list_all (matches r) (drop m us)"
    using us(4) by (auto simp: list_all_iff dest: in_set_takeD in_set_dropD)
  have "matches (rep m r) (concat (take m us))"
    unfolding matches_rep using us(2) all(1) by (intro exI [of _ "take m us"]) simp
  moreover have "matches (upto_rx (n - m) r) (concat (drop m us))"
    unfolding matches_upto using us(3) all(2) by (intro exI [of _ "drop m us"]) simp
  ultimately have "matches (between m n r) (concat (take m us) @ concat (drop m us))"
    unfolding between_def by (rule seq)
  then show "matches (between m n r) s" by (simp add: us(1) flip: concat_append)
qed

lemma matches_star: "matches (RStar r) s \<longleftrightarrow> (\<exists>us. s = concat us \<and> list_all (matches r) us)"
proof
  assume "matches (RStar r) s"
  then show "\<exists>us. s = concat us \<and> list_all (matches r) us"
  proof (induction "RStar r" s rule: matches.induct)
    case star0
    show ?case by (rule exI [of _ "[]"]) simp
  next
    case (star1 u v)
    then obtain us where "v = concat us" "list_all (matches r) us" by blast
    with star1(1) show ?case by (intro exI [of _ "u # us"]) simp
  qed
next
  assume "\<exists>us. s = concat us \<and> list_all (matches r) us"
  then obtain us where us: "s = concat us" "list_all (matches r) us" by blast
  show "matches (RStar r) s"
    unfolding us(1) using us(2)
  proof (induction us)
    case (Cons u us)
    then show ?case using star1 [of r u] by (cases "u = []") auto
  qed (simp add: star0)
qed

section \<open>Single characters\<close>

lemma singles: "(\<exists>us. s = concat us \<and> R (length us) \<and> list_all (matches (RCh P)) us) \<longleftrightarrow> R (length s) \<and> list_all P s"
proof
  assume "\<exists>us. s = concat us \<and> R (length us) \<and> list_all (matches (RCh P)) us"
  then obtain us where us: "s = concat us" "R (length us)" "list_all (matches (RCh P)) us" by blast
  from us(3) have "length (concat us) = length us \<and> list_all P (concat us)" by (induction us) auto
  with us show "R (length s) \<and> list_all P s" by simp
next
  assume "R (length s) \<and> list_all P s"
  then show "\<exists>us. s = concat us \<and> R (length us) \<and> list_all (matches (RCh P)) us"
    by (intro exI [of _ "map (\<lambda>c. [c]) s"]) (auto simp: list_all_iff)
qed

lemma matches_between_ch:
  "m \<le> n \<Longrightarrow> matches (between m n (RCh P)) s \<longleftrightarrow> m \<le> length s \<and> length s \<le> n \<and> list_all P s"
  using singles [of s "\<lambda>k. m \<le> k \<and> k \<le> n" P] by (simp add: matches_between conj_ac)

lemma matches_star_ch: "matches (RStar (RCh P)) s \<longleftrightarrow> list_all P s"
  using singles [of s "\<lambda>k. True" P] by (simp add: matches_star)

lemma matches_at_least_ch: "matches (at_least m (RCh P)) s \<longleftrightarrow> m \<le> length s \<and> list_all P s"
proof
  assume "matches (at_least m (RCh P)) s"
  then obtain u v where uv: "s = u @ v" "matches (rep m (RCh P)) u" "list_all P v"
    by (auto simp: at_least_def matches_seq matches_star_ch)
  moreover have "length u = m \<and> list_all P u" using uv(2) singles [of u "\<lambda>k. k = m" P] by (simp add: matches_rep)
  ultimately show "m \<le> length s \<and> list_all P s" by auto
next
  assume s: "m \<le> length s \<and> list_all P s"
  have "matches (rep m (RCh P)) (take m s)"
    using s singles [of "take m s" "\<lambda>k. k = m" P] by (auto simp: matches_rep list_all_iff dest: in_set_takeD)
  moreover have "matches (RStar (RCh P)) (drop m s)"
    using s by (auto simp: matches_star_ch list_all_iff dest: in_set_dropD)
  ultimately have "matches (at_least m (RCh P)) (take m s @ drop m s)"
    unfolding at_least_def by (rule seq)
  then show "matches (at_least m (RCh P)) s" by simp
qed

text \<open>The characters of a match.\<close>

fun over :: "(char \<Rightarrow> bool) \<Rightarrow> rx \<Rightarrow> bool" where
  "over A (RCh P) = (\<forall>c. P c \<longrightarrow> A c)"
| "over A (RSeq r q) = (over A r \<and> over A q)"
| "over A (RAlt r q) = (over A r \<and> over A q)"
| "over A (RAnd r q) = (over A r \<or> over A q)"
| "over A (RStar r) = over A r"
| "over A r = True"

lemma matches_over: "matches r s \<Longrightarrow> over A r \<Longrightarrow> list_all A s"
  by (induction rule: matches.induct) auto

lemma over_rep: "over A r \<Longrightarrow> over A (rep n r)" by (induction n) simp_all

lemma over_upto: "over A r \<Longrightarrow> over A (upto_rx n r)" by (induction n) simp_all

lemma over_lit: "over A (lit s) \<longleftrightarrow> list_all A s" by (induction s) (simp_all add: lit_def)

lemma over_more [simp]:
  "over A r \<Longrightarrow> over A (between m n r)" "over A r \<Longrightarrow> over A (at_least m r)" "over A (opt r) = over A r"
  by (simp_all add: between_def at_least_def opt_def over_rep over_upto)

end
