(* ===== verification/Ys_Validator.thy ===== *)
theory Ys_Validator
  imports Ys_Regex Ys_String
begin

text \<open>
  \<open>isaac/tool/ys_validator.hpp\<close>: the tests of strings, most of them regular expressions, and the chains of
  checks of which the first that fails decides.
\<close>

section \<open>Character classes\<close>

text \<open>A range of a bracket expression, by the codes of its ends.\<close>

definition rng :: "nat \<Rightarrow> nat \<Rightarrow> char \<Rightarrow> bool" where "rng a b c \<longleftrightarrow> a \<le> chcode c \<and> chcode c \<le> b"

definition is_upper :: "char \<Rightarrow> bool" where "is_upper c \<longleftrightarrow> rng 65 90 c"

definition is_lower :: "char \<Rightarrow> bool" where "is_lower c \<longleftrightarrow> rng 97 122 c"

definition is_alnum :: "char \<Rightarrow> bool" where "is_alnum c \<longleftrightarrow> is_upper c \<or> is_lower c \<or> is_digit c"

definition is_hex :: "char \<Rightarrow> bool" where "is_hex c \<longleftrightarrow> is_digit c \<or> rng 97 102 c \<or> rng 65 70 c"

text \<open>The point of ECMAScript is no line end.\<close>

definition is_dot :: "char \<Rightarrow> bool" where "is_dot c \<longleftrightarrow> chcode c \<noteq> 10 \<and> chcode c \<noteq> 13"

definition any_rx :: rx where "any_rx = RStar (RCh (\<lambda>_. True))"

text \<open>\<open>(?=r)q\<close> at the start, and \<open>\b\<close> around a pattern.\<close>

definition look :: "rx \<Rightarrow> rx \<Rightarrow> rx" where "look r q = RAnd (RSeq r any_rx) q"

definition bounded :: "rx \<Rightarrow> rx" where
  "bounded r = RAnd (RSeq (RCh is_word) any_rx) (RAnd (RSeq any_rx (RCh is_word)) r)"

section \<open>Patterns\<close>

definition schar_rx :: rx where "schar_rx = RStar (RCh is_alnum)"

definition url_chars :: string where "url_chars = ''-+&@#/%?=~_|!:,.;''"

definition url_end_chars :: string where "url_end_chars = ''-+&@#/%=~_|''"

definition url_rx :: rx where
  "url_rx = bounded (RSeq (RAlt (RSeq (lit ''http'') (opt (lit ''s''))) (lit ''ftp''))
     (RSeq (lit ''://'') (RSeq (RStar (RCh (\<lambda>c. is_alnum c \<or> c \<in> set url_chars)))
       (RCh (\<lambda>c. is_alnum c \<or> c \<in> set url_end_chars)))))"

definition user_rx :: rx where
  "user_rx = RSeq (RCh (\<lambda>c. is_lower c \<or> is_upper c)) (between 4 15 (RCh is_word))"

definition pwdHard_rx :: rx where
  "pwdHard_rx = look (RSeq (RStar (RCh is_dot)) (RCh is_digit)) (look (RSeq (RStar (RCh is_dot)) (RCh is_lower))
     (look (RSeq (RStar (RCh is_dot)) (RCh is_upper)) (between 8 16 (RCh is_dot))))"

text \<open>\<open>(2(5[0-5]|[0-4]\d))|[0-1]?\d{1,2}\<close>\<close>

definition octet_rx :: rx where
  "octet_rx = RAlt (RSeq (lit ''2'') (RAlt (RSeq (lit ''5'') (RCh (rng 48 53))) (RSeq (RCh (rng 48 52)) (RCh is_digit))))
     (RSeq (opt (RCh (rng 48 49))) (between 1 2 (RCh is_digit)))"

definition ipv4_rx :: rx where "ipv4_rx = RSeq octet_rx (rep 3 (RSeq (lit ''.'') octet_rx))"

text \<open>\<open>25[0-5]|(2[0-4]|1{0,1}[0-9]|[1-9])?[0-9]\<close>, and the groups of an address of version 6.\<close>

definition octet6_rx :: rx where
  "octet6_rx = RAlt (RSeq (lit ''25'') (RCh (rng 48 53)))
     (RSeq (opt (RAlt (RSeq (lit ''2'') (RCh (rng 48 52))) (RAlt (RSeq (between 0 1 (lit ''1'')) (RCh is_digit)) (RCh (rng 49 57)))))
       (RCh is_digit))"

definition dotted6_rx :: rx where "dotted6_rx = RSeq (rep 3 (RSeq octet6_rx (lit ''.''))) octet6_rx"

definition group_rx :: rx where "group_rx = between 1 4 (RCh is_hex)"

definition group_colon :: rx where "group_colon = RSeq group_rx (lit '':'')"

definition colon_group :: rx where "colon_group = RSeq (lit '':'') group_rx"

fun alts :: "rx list \<Rightarrow> rx" where
  "alts [] = RZero"
| "alts (r # rs) = RAlt r (alts rs)"

definition ipv6_hex :: "rx list" where
  "ipv6_hex = [RSeq (rep 7 group_colon) group_rx, RSeq (between 1 7 group_colon) (lit '':''),
     RSeq (between 1 6 group_colon) colon_group, RSeq (between 1 5 group_colon) (between 1 2 colon_group),
     RSeq (between 1 4 group_colon) (between 1 3 colon_group), RSeq (between 1 3 group_colon) (between 1 4 colon_group),
     RSeq (between 1 2 group_colon) (between 1 5 colon_group), RSeq group_colon (between 1 6 colon_group),
     RSeq (lit '':'') (RAlt (between 1 7 colon_group) (lit '':''))]"

definition ipv6_rest :: "rx list" where
  "ipv6_rest = [RSeq (lit ''fe80:'') (RSeq (between 0 4 (RSeq (lit '':'') (between 0 4 (RCh is_hex))))
       (RSeq (lit ''%'') (at_least 1 (RCh is_alnum)))),
     RSeq (lit ''::'') (RSeq (between 0 1 (RSeq (lit ''ffff'') (RSeq (between 0 1 (RSeq (lit '':'') (between 1 4 (lit ''0'')))) (lit '':''))))
       dotted6_rx),
     RSeq (between 1 4 group_colon) (RSeq (lit '':'') dotted6_rx)]"

definition ipv6_rx :: rx where "ipv6_rx = alts (ipv6_hex @ ipv6_rest)"

text \<open>
  The escapes \<open>\u4E00\<close> and \<open>\u9FA5\<close> of a narrow string are three bytes each, so that between the brackets stand
  the bytes E4 and B8, the range from 80 to E9, and the bytes BE and A5.
\<close>

definition is_chinese :: "char \<Rightarrow> bool" where
  "is_chinese c \<longleftrightarrow> chcode c \<in> {0xE4, 0xB8} \<or> rng 0x80 0xE9 c \<or> chcode c \<in> {0xBE, 0xA5}"

definition remarks_rx :: rx where "remarks_rx = at_least 1 (RCh (\<lambda>c. is_chinese c \<or> is_alnum c \<or> c \<in> set ''_,.?@!''))"

definition fileName_rx :: rx where "fileName_rx = at_least 1 (RCh (\<lambda>c. is_chinese c \<or> is_alnum c \<or> c \<in> set ''_.''))"

section \<open>The tests\<close>

definition length_in :: "string \<Rightarrow> u32 \<Rightarrow> u32 \<Rightarrow> bool" where
  "length_in str mn mx \<longleftrightarrow> unat mn \<le> length str \<and> length str \<le> unat mx"

definition length_max :: "string \<Rightarrow> u32 \<Rightarrow> bool" where "length_max str mx \<longleftrightarrow> length str \<le> unat mx"

definition num :: "string \<Rightarrow> bool" where "num str = regex_match (RStar (RCh is_digit)) str"

definition schar :: "string \<Rightarrow> bool" where "schar str = regex_match schar_rx str"

text \<open>A character is signed: the codes from 128 are below the space.\<close>

definition vchar :: "string \<Rightarrow> bool" where
  "vchar str = list_all (\<lambda>c. \<not> (128 \<le> chcode c \<or> chcode c < 32 \<or> 126 < chcode c)) str"

definition except_chars :: "string \<Rightarrow> string \<Rightarrow> bool" where
  "except_chars str chs = list_all (\<lambda>c. c \<notin> set str) chs"

definition except_strs :: "string \<Rightarrow> string list \<Rightarrow> bool" where
  "except_strs str vtChs = list_all (\<lambda>t. str_find str t 0 = None) vtChs"

definition url_test :: "string \<Rightarrow> bool" where "url_test str \<longleftrightarrow> str = [] \<or> regex_match url_rx str"

definition user_test :: "string \<Rightarrow> bool" where "user_test str \<longleftrightarrow> str = [] \<or> regex_match user_rx str"

definition pwdEasy :: "string \<Rightarrow> bool" where "pwdEasy str \<longleftrightarrow> str = [] \<or> vchar str \<and> length_in str 5 16"

definition pwdHard :: "string \<Rightarrow> bool" where "pwdHard str \<longleftrightarrow> str = [] \<or> regex_match pwdHard_rx str"

definition ipv4 :: "string \<Rightarrow> bool" where "ipv4 str \<longleftrightarrow> str = [] \<or> regex_match ipv4_rx str"

definition ipv6 :: "string \<Rightarrow> bool" where "ipv6 str \<longleftrightarrow> str = [] \<or> regex_match ipv6_rx str"

definition ip_test :: "string \<Rightarrow> bool" where "ip_test str \<longleftrightarrow> ipv4 str \<or> ipv6 str"

definition range_test :: "u64 \<Rightarrow> u64 \<Rightarrow> u64 \<Rightarrow> bool" where "range_test v mn mx \<longleftrightarrow> mn \<le> v \<and> v \<le> mx"

definition remarks :: "string \<Rightarrow> bool" where "remarks str \<longleftrightarrow> str = [] \<or> regex_match remarks_rx str"

definition fileName :: "string \<Rightarrow> bool" where "fileName str = regex_match fileName_rx str"

definition inject_chars :: string where
  "inject_chars = [CHR '';'', CHR '' '', CHR ''('', CHR ''&'', CHR ''|'', CHR ''>'', CHR ''<'', CHR 0x27, CHR 0x22, CHR ''{'']"

definition inject :: "string \<Rightarrow> bool" where
  "inject str \<longleftrightarrow> str = [] \<or> except_strs str [''--''] \<and> except_chars str inject_chars"

section \<open>Chains of checks\<close>

text \<open>\<open>YS_Valid\<close>: every member checks one of the tests and throws -1 where it fails.\<close>

datatype valid = VLength string u32 u32 | VLengthMax string u32 | VNum string | VSchar string | VVchar string
  | VExceptChars string string | VExceptStrs string "string list" | VUrl string | VUser string | VPwdEasy string
  | VPwdHard string | VIpv4 string | VIpv6 string | VIp string | VRange u64 u64 u64 | VRemarks string
  | VFileName string | VInject string

fun holds :: "valid \<Rightarrow> bool" where
  "holds (VLength s mn mx) = length_in s mn mx"
| "holds (VLengthMax s mx) = length_max s mx"
| "holds (VNum s) = num s"
| "holds (VSchar s) = schar s"
| "holds (VVchar s) = vchar s"
| "holds (VExceptChars s cs) = except_chars s cs"
| "holds (VExceptStrs s ts) = except_strs s ts"
| "holds (VUrl s) = url_test s"
| "holds (VUser s) = user_test s"
| "holds (VPwdEasy s) = pwdEasy s"
| "holds (VPwdHard s) = pwdHard s"
| "holds (VIpv4 s) = ipv4 s"
| "holds (VIpv6 s) = ipv6 s"
| "holds (VIp s) = ip_test s"
| "holds (VRange v mn mx) = range_test v mn mx"
| "holds (VRemarks s) = remarks s"
| "holds (VFileName s) = fileName s"
| "holds (VInject s) = inject s"

definition check :: "bool \<Rightarrow> (int, unit) outcome" where "check v = (if \<not> v then Throw (- 1) else Ok ())"

fun chain :: "valid list \<Rightarrow> (int, unit) outcome" where
  "chain [] = Ok ()"
| "chain (v # vs) = bindO (check (holds v)) (\<lambda>_. chain vs)"

text \<open>\<open>verify\<close> catches what the \<open>validator\<close> of the object throws.\<close>

definition verify :: "(int, unit) outcome \<Rightarrow> (int, int) outcome" where
  "verify validator = (case validator of Ok _ \<Rightarrow> Ok 0 | Throw ret \<Rightarrow> Ok ret | Undef \<Rightarrow> Undef)"

section \<open>Addresses\<close>

text \<open>A number from 0 to 255 in one to three digits.\<close>

definition octet :: "string \<Rightarrow> bool" where
  "octet s \<longleftrightarrow> s \<noteq> [] \<and> length s \<le> 3 \<and> list_all is_digit s \<and> dec_val s \<le> 255"

lemma chcode_inj: "chcode c = chcode d \<longleftrightarrow> c = d"
  by (simp add: chcode_def)

lemma three_cases:
  "s \<noteq> [] \<and> length s \<le> 3 \<longleftrightarrow> (\<exists>a. s = [a]) \<or> (\<exists>a b. s = [a, b]) \<or> (\<exists>a b c. s = [a, b, c])"
  by (cases s; cases "tl s"; cases "tl (tl s)"; cases "tl (tl (tl s))") auto

lemma digits_between: "matches (between 1 2 (RCh is_digit)) s \<longleftrightarrow> (\<exists>a. s = [a] \<and> is_digit a) \<or> (\<exists>a b. s = [a, b] \<and> is_digit a \<and> is_digit b)"
  by (cases s; cases "tl s"; cases "tl (tl s)") (auto simp: matches_between_ch)

lemma char_codes: "c = CHR ''2'' \<longleftrightarrow> chcode c = 50" "c = CHR ''5'' \<longleftrightarrow> chcode c = 53"
  using chcode_inj [of c "CHR ''2''"] chcode_inj [of c "CHR ''5''"] by (simp_all add: chcode_def)

lemma octet_high:
  "matches (RSeq (lit ''2'') (RAlt (RSeq (lit ''5'') (RCh (rng 48 53))) (RSeq (RCh (rng 48 52)) (RCh is_digit)))) s \<longleftrightarrow>
     (\<exists>a b c. s = [a, b, c] \<and> chcode a = 50 \<and> (chcode b = 53 \<and> rng 48 53 c \<or> rng 48 52 b \<and> is_digit c))"
  unfolding char_codes [symmetric] by auto

lemma octet_low:
  "matches (RSeq (opt (RCh (rng 48 49))) (between 1 2 (RCh is_digit))) s \<longleftrightarrow>
     (\<exists>a. s = [a] \<and> is_digit a) \<or> (\<exists>a b. s = [a, b] \<and> is_digit a \<and> is_digit b) \<or>
     (\<exists>a b c. s = [a, b, c] \<and> rng 48 49 a \<and> is_digit b \<and> is_digit c)"
  by (auto simp: digits_between simp del: One_nat_def) (auto simp: rng_def is_digit_def)

lemma octet_arith:
  assumes "y \<le> 9" and "z \<le> 9"
  shows "100 * x + 10 * y + z \<le> (255 :: nat) \<longleftrightarrow> x = 2 \<and> (y = 5 \<and> z \<le> 5 \<or> y \<le> 4) \<or> x \<le> 1"
proof -
  consider "x \<le> 1" | "x = 2" | "3 \<le> x" by linarith
  then show ?thesis
  proof cases
    case 2
    consider "y \<le> 4" | "y = 5" | "6 \<le> y" by linarith
    then show ?thesis using 2 assms by cases auto
  qed (use assms in auto)
qed

lemma digit_code: "is_digit c \<Longrightarrow> \<exists>x. chcode c = 48 + x \<and> x \<le> 9"
  by (rule exI [of _ "chcode c - 48"]) (auto simp: is_digit_def)

lemma matches_octet: "matches octet_rx s \<longleftrightarrow> octet s"
proof (cases "s \<noteq> [] \<and> length s \<le> 3")
  case True
  note m = octet_rx_def matches_simps octet_high octet_low
  from True consider a where "s = [a]" | a b where "s = [a, b]" | a b c where "s = [a, b, c]" using three_cases [of s] by blast
  then show ?thesis
  proof cases
    case 1
    then show ?thesis by (simp only: m octet_def dec_val_def) (auto simp: is_digit_def)
  next
    case (2 a b)
    then show ?thesis by (simp only: m octet_def dec_val_def) (auto simp: is_digit_def)
  next
    case (3 a b c)
    have "octet s \<longleftrightarrow> is_digit a \<and> is_digit b \<and> is_digit c \<and> 100 * (chcode a - 48) + 10 * (chcode b - 48) + (chcode c - 48) \<le> 255"
      by (simp add: 3 octet_def dec_val_def)
    moreover have "matches octet_rx s \<longleftrightarrow> chcode a = 50 \<and> (chcode b = 53 \<and> rng 48 53 c \<or> rng 48 52 b \<and> is_digit c) \<or>
        rng 48 49 a \<and> is_digit b \<and> is_digit c"
      unfolding m by (simp add: 3)
    moreover have "\<dots> \<longleftrightarrow> is_digit a \<and> is_digit b \<and> is_digit c \<and>
        (chcode a = 50 \<and> (chcode b = 53 \<and> chcode c \<le> 53 \<or> chcode b \<le> 52) \<or> chcode a \<le> 49)"
      by (auto simp: is_digit_def rng_def)
    ultimately have "matches octet_rx s \<longleftrightarrow> is_digit a \<and> is_digit b \<and> is_digit c \<and>
        (chcode a = 50 \<and> (chcode b = 53 \<and> chcode c \<le> 53 \<or> chcode b \<le> 52) \<or> chcode a \<le> 49)"
      and o: "octet s \<longleftrightarrow> is_digit a \<and> is_digit b \<and> is_digit c \<and>
        100 * (chcode a - 48) + 10 * (chcode b - 48) + (chcode c - 48) \<le> 255" by simp_all
    moreover have "(chcode a = 50 \<and> (chcode b = 53 \<and> chcode c \<le> 53 \<or> chcode b \<le> 52) \<or> chcode a \<le> 49) \<longleftrightarrow>
        100 * (chcode a - 48) + 10 * (chcode b - 48) + (chcode c - 48) \<le> 255"
      if d: "is_digit a" "is_digit b" "is_digit c"
    proof -
      from d obtain x y z where c: "chcode a = 48 + x" "chcode b = 48 + y" "chcode c = 48 + z" "y \<le> 9" "z \<le> 9"
        using digit_code by meson
      have "48 + x = 50 \<longleftrightarrow> x = 2" "48 + y = 53 \<longleftrightarrow> y = 5" "48 + z \<le> 53 \<longleftrightarrow> z \<le> 5" "48 + y \<le> 52 \<longleftrightarrow> y \<le> 4" "48 + x \<le> 49 \<longleftrightarrow> x \<le> 1"
        by auto
      with octet_arith [OF c(4,5), of x] show ?thesis unfolding c(1-3) by simp
    qed
    ultimately show ?thesis by blast
  qed
next
  case False
  then show ?thesis unfolding octet_rx_def matches_simps octet_high octet_low octet_def by auto
qed

text \<open>
  C27: The test for addresses of version 4 accepts the empty string and exactly four numbers from 0 to 255, in one to three
  digits, with points between them.
\<close>

theorem ipv4_accepts:
  "ipv4 s \<longleftrightarrow> s = [] \<or> (\<exists>a b c d. s = a @ ''.'' @ b @ ''.'' @ c @ ''.'' @ d \<and> octet a \<and> octet b \<and> octet c \<and> octet d)"
proof -
  have "regex_match ipv4_rx s \<longleftrightarrow> matches ipv4_rx s" by (rule regex_match_iff)
  also have "\<dots> \<longleftrightarrow> (\<exists>a b c d. s = a @ ''.'' @ b @ ''.'' @ c @ ''.'' @ d \<and> octet a \<and> octet b \<and> octet c \<and> octet d)"
    (is "?l \<longleftrightarrow> ?r")
  proof
    assume ?l
    then show ?r by (auto simp: ipv4_rx_def numeral_3_eq_3 matches_seq matches_octet) blast
  next
    assume ?r
    then obtain a b c d where s: "s = a @ ''.'' @ b @ ''.'' @ c @ ''.'' @ d" "octet a" "octet b" "octet c" "octet d" by blast
    have o: "matches (RSeq (lit ''.'') octet_rx) (''.'' @ x)" if "octet x" for x
      using that by (simp add: matches_octet)
    have "matches (rep 3 (RSeq (lit ''.'') octet_rx)) ((''.'' @ b) @ (''.'' @ c) @ (''.'' @ d) @ [])"
      unfolding numeral_3_eq_3 rep.simps by (intro matches.intros o s)
    with s show ?l unfolding ipv4_rx_def by (auto simp: matches_seq matches_octet)
  qed
  finally show ?thesis by (simp add: ipv4_def)
qed

section \<open>Groups of hexadecimal digits\<close>

definition hex_group :: "string \<Rightarrow> bool" where "hex_group g \<longleftrightarrow> g \<noteq> [] \<and> length g \<le> 4 \<and> list_all is_hex g"

fun joined :: "string list \<Rightarrow> string" where
  "joined [] = []"
| "joined [g] = g"
| "joined (g # gs) = g @ '':'' @ joined gs"

definition colons_after :: "string list \<Rightarrow> string" where "colons_after gs = concat (map (\<lambda>g. g @ '':'') gs)"

definition colons_before :: "string list \<Rightarrow> string" where "colons_before gs = concat (map (\<lambda>g. '':'' @ g) gs)"

lemma joined_after: "gs \<noteq> [] \<Longrightarrow> colons_after gs = joined gs @ '':''"
  by (induction gs rule: joined.induct) (simp_all add: colons_after_def)

lemma joined_before: "gs \<noteq> [] \<Longrightarrow> colons_before gs = '':'' @ joined gs"
  by (induction gs rule: joined.induct) (simp_all add: colons_before_def)

lemma joined_snoc: "colons_after gs @ g = joined (gs @ [g])"
proof (induction gs rule: joined.induct)
  case (3 g1 g2 gs)
  then show ?case by (simp add: colons_after_def)
qed (simp_all add: colons_after_def)

lemma matches_group: "matches group_rx g \<longleftrightarrow> hex_group g"
  by (auto simp: group_rx_def matches_between_ch hex_group_def Suc_le_eq)

lemma matches_colon_group: "matches group_colon s \<longleftrightarrow> (\<exists>g. s = g @ '':'' \<and> hex_group g)" "matches colon_group s \<longleftrightarrow> (\<exists>g. s = '':'' @ g \<and> hex_group g)"
  by (auto simp: group_colon_def colon_group_def matches_group matches_seq)

lemma listed:
  assumes "\<And>u. matches r u \<longleftrightarrow> (\<exists>g. u = f g \<and> G g)"
  shows "(\<exists>us. s = concat us \<and> R (length us) \<and> list_all (matches r) us) \<longleftrightarrow>
    (\<exists>gs. s = concat (map f gs) \<and> R (length gs) \<and> list_all G gs)"
proof
  assume "\<exists>us. s = concat us \<and> R (length us) \<and> list_all (matches r) us"
  then obtain us where us: "s = concat us" "R (length us)" "list_all (matches r) us" by blast
  from us(3) have "\<exists>gs. us = map f gs \<and> list_all G gs"
  proof (induction us)
    case (Cons u us)
    then obtain g gs where "u = f g" "G g" "us = map f gs" "list_all G gs" using assms by auto
    then show ?case by (intro exI [of _ "g # gs"]) simp
  qed simp
  with us show "\<exists>gs. s = concat (map f gs) \<and> R (length gs) \<and> list_all G gs" by auto
next
  assume "\<exists>gs. s = concat (map f gs) \<and> R (length gs) \<and> list_all G gs"
  then obtain gs where "s = concat (map f gs)" "R (length gs)" "list_all G gs" by blast
  then show "\<exists>us. s = concat us \<and> R (length us) \<and> list_all (matches r) us"
    using assms by (intro exI [of _ "map f gs"]) (auto simp: list_all_iff)
qed

lemma matches_groups:
  assumes "m \<le> n"
  shows "matches (between m n group_colon) s \<longleftrightarrow> (\<exists>gs. s = colons_after gs \<and> m \<le> length gs \<and> length gs \<le> n \<and> list_all hex_group gs)"
    and "matches (between m n colon_group) s \<longleftrightarrow> (\<exists>gs. s = colons_before gs \<and> m \<le> length gs \<and> length gs \<le> n \<and> list_all hex_group gs)"
  using listed [OF matches_colon_group(1), where R = "\<lambda>k. m \<le> k \<and> k \<le> n" and s = s]
    listed [OF matches_colon_group(2), where R = "\<lambda>k. m \<le> k \<and> k \<le> n" and s = s]
  by (simp_all add: matches_between [OF assms] colons_after_def colons_before_def conj_ac)

text \<open>The groups around two colons that stand for the groups left out.\<close>

definition gapped :: "(nat \<Rightarrow> nat \<Rightarrow> bool) \<Rightarrow> string \<Rightarrow> bool" where
  "gapped R s \<longleftrightarrow> (\<exists>xs ys. s = joined xs @ ''::'' @ joined ys \<and> R (length xs) (length ys) \<and>
     list_all hex_group xs \<and> list_all hex_group ys)"

lemma gapped_or: "gapped R s \<or> gapped Q s \<longleftrightarrow> gapped (\<lambda>a b. R a b \<or> Q a b) s"
  by (auto simp: gapped_def)

lemma gapped_cong: "(\<And>a b. R a b \<longleftrightarrow> Q a b) \<Longrightarrow> gapped R s \<longleftrightarrow> gapped Q s"
  by (simp add: gapped_def)

lemma gapped_both:
  assumes "\<And>a b. R a b \<Longrightarrow> 0 < a \<and> 0 < b"
  shows "(\<exists>xs ys. s = colons_after xs @ colons_before ys \<and> R (length xs) (length ys) \<and> list_all hex_group xs \<and> list_all hex_group ys) \<longleftrightarrow>
    gapped R s"
proof -
  have "colons_after xs @ colons_before ys = joined xs @ ''::'' @ joined ys" if "R (length xs) (length ys)" for xs ys
    using assms [OF that] by (simp add: joined_after joined_before)
  then show ?thesis unfolding gapped_def by metis
qed

lemma one_long: "(\<exists>gs. P gs \<and> length gs = 1 \<and> Q gs) \<longleftrightarrow> (\<exists>g. P [g] \<and> Q [g])"
  by (auto simp: length_Suc_conv)

lemma one_group:
  "matches group_colon s \<longleftrightarrow> (\<exists>gs. s = colons_after gs \<and> length gs = 1 \<and> list_all hex_group gs)"
  "matches colon_group s \<longleftrightarrow> (\<exists>gs. s = colons_before gs \<and> length gs = 1 \<and> list_all hex_group gs)"
  unfolding one_long by (simp_all add: matches_colon_group colons_after_def colons_before_def)

lemma pairs_match:
  assumes "\<And>u. matches r u \<longleftrightarrow> (\<exists>xs. u = colons_after xs \<and> A (length xs) \<and> list_all hex_group xs)"
    and "\<And>u. matches q u \<longleftrightarrow> (\<exists>ys. u = colons_before ys \<and> B (length ys) \<and> list_all hex_group ys)"
    and "\<not> A 0" and "\<not> B 0"
  shows "matches (RSeq r q) s \<longleftrightarrow> gapped (\<lambda>a b. A a \<and> B b) s"
proof -
  have "gapped (\<lambda>a b. A a \<and> B b) s \<longleftrightarrow>
      (\<exists>xs ys. s = colons_after xs @ colons_before ys \<and> (A (length xs) \<and> B (length ys)) \<and> list_all hex_group xs \<and> list_all hex_group ys)"
    using assms(3,4) by (intro gapped_both [symmetric]) (metis gr0I)
  then show ?thesis by (simp only: matches_seq assms(1,2)) blast
qed

lemma gap_last: "matches (RSeq (between 1 7 group_colon) (lit '':'')) s \<longleftrightarrow> gapped (\<lambda>a b. 1 \<le> a \<and> a \<le> 7 \<and> b = 0) s"
proof -
  have "colons_after xs @ '':'' = joined xs @ ''::'' @ joined []" if "1 \<le> length xs" for xs
    using that by (cases "xs = []") (simp_all add: joined_after)
  moreover have "matches (RSeq (between 1 7 group_colon) (lit '':'')) s \<longleftrightarrow>
      (\<exists>xs. s = colons_after xs @ '':'' \<and> 1 \<le> length xs \<and> length xs \<le> 7 \<and> list_all hex_group xs)"
    unfolding matches_seq matches_lit using matches_groups(1) [of 1 7] by auto
  moreover have "gapped (\<lambda>a b. 1 \<le> a \<and> a \<le> 7 \<and> b = 0) s \<longleftrightarrow>
      (\<exists>xs. s = joined xs @ ''::'' @ joined [] \<and> 1 \<le> length xs \<and> length xs \<le> 7 \<and> list_all hex_group xs)"
    by (auto simp: gapped_def intro!: exI)
  ultimately show ?thesis by auto
qed

lemma gap_first: "matches (RSeq (lit '':'') (RAlt (between 1 7 colon_group) (lit '':''))) s \<longleftrightarrow> gapped (\<lambda>a b. a = 0 \<and> b \<le> 7) s"
proof -
  have c: "'':'' @ colons_before ys = ''::'' @ joined ys" if "1 \<le> length ys" for ys
    using that by (cases "ys = []") (simp_all add: joined_before)
  have "matches (RSeq (lit '':'') (RAlt (between 1 7 colon_group) (lit '':''))) s \<longleftrightarrow>
      (\<exists>ys. s = '':'' @ colons_before ys \<and> 1 \<le> length ys \<and> length ys \<le> 7 \<and> list_all hex_group ys) \<or> s = ''::''"
    unfolding matches_heads matches_simps matches_lit using matches_groups(2) [of 1 7] by auto
  also have "\<dots> \<longleftrightarrow> (\<exists>ys. s = ''::'' @ joined ys \<and> length ys \<le> 7 \<and> list_all hex_group ys)"
  proof
    assume "(\<exists>ys. s = '':'' @ colons_before ys \<and> 1 \<le> length ys \<and> length ys \<le> 7 \<and> list_all hex_group ys) \<or> s = ''::''"
    then show "\<exists>ys. s = ''::'' @ joined ys \<and> length ys \<le> 7 \<and> list_all hex_group ys"
      using c by (elim disjE exE conjE) (metis, intro exI [of _ "[]"], simp)
  next
    assume "\<exists>ys. s = ''::'' @ joined ys \<and> length ys \<le> 7 \<and> list_all hex_group ys"
    then obtain ys where ys: "s = ''::'' @ joined ys" "length ys \<le> 7" "list_all hex_group ys" by blast
    show "(\<exists>ys. s = '':'' @ colons_before ys \<and> 1 \<le> length ys \<and> length ys \<le> 7 \<and> list_all hex_group ys) \<or> s = ''::''"
    proof (cases "ys = []")
      case False
      then have "1 \<le> length ys" by (simp add: Suc_le_eq)
      with ys c [OF this] show ?thesis by metis
    qed (use ys in simp)
  qed
  also have "\<dots> \<longleftrightarrow> gapped (\<lambda>a b. a = 0 \<and> b \<le> 7) s" by (auto simp: gapped_def)
  finally show ?thesis .
qed

lemma full_address:
  "matches (RSeq (rep 7 group_colon) group_rx) s \<longleftrightarrow> (\<exists>gs. s = joined gs \<and> length gs = 8 \<and> list_all hex_group gs)"
proof -
  have r: "matches (rep 7 group_colon) u \<longleftrightarrow> (\<exists>gs. u = colons_after gs \<and> length gs = 7 \<and> list_all hex_group gs)" for u
    using listed [OF matches_colon_group(1), where R = "\<lambda>k. k = 7" and s = u] by (simp add: matches_rep colons_after_def)
  have "matches (RSeq (rep 7 group_colon) group_rx) s \<longleftrightarrow>
      (\<exists>gs g. s = colons_after gs @ g \<and> length gs = 7 \<and> list_all hex_group gs \<and> hex_group g)"
    unfolding matches_seq r matches_group by blast
  also have "\<dots> \<longleftrightarrow> (\<exists>gs. s = joined gs \<and> length gs = 8 \<and> list_all hex_group gs)"
  proof
    assume "\<exists>gs g. s = colons_after gs @ g \<and> length gs = 7 \<and> list_all hex_group gs \<and> hex_group g"
    then obtain gs g where "s = joined (gs @ [g])" "length gs = 7" "list_all hex_group gs" "hex_group g"
      by (auto simp: joined_snoc)
    then show "\<exists>gs. s = joined gs \<and> length gs = 8 \<and> list_all hex_group gs" by (intro exI [of _ "gs @ [g]"]) simp
  next
    assume "\<exists>gs. s = joined gs \<and> length gs = 8 \<and> list_all hex_group gs"
    then obtain gs where gs: "s = joined gs" "length gs = 8" "list_all hex_group gs" by blast
    then have "gs = butlast gs @ [last gs]" by (cases gs) simp_all
    then obtain hs g where "gs = hs @ [g]" by blast
    with gs have "s = colons_after hs @ g \<and> length hs = 7 \<and> list_all hex_group hs \<and> hex_group g" by (simp add: joined_snoc)
    then show "\<exists>gs g. s = colons_after gs @ g \<and> length gs = 7 \<and> list_all hex_group gs \<and> hex_group g" by blast
  qed
  finally show ?thesis .
qed

text \<open>The addresses of version 6 in hexadecimal digits only.\<close>

definition hex_address :: "string \<Rightarrow> bool" where
  "hex_address s \<longleftrightarrow> (\<exists>gs. s = joined gs \<and> length gs = 8 \<and> list_all hex_group gs) \<or> gapped (\<lambda>a b. a + b \<le> 7) s"

lemma pair_ranges:
  assumes "1 \<le> m" and "m \<le> n" and "1 \<le> m'" and "m' \<le> n'"
  shows "matches (RSeq (between m n group_colon) (between m' n' colon_group)) s \<longleftrightarrow>
    gapped (\<lambda>a b. (m \<le> a \<and> a \<le> n) \<and> m' \<le> b \<and> b \<le> n') s"
  by (rule pairs_match) (use assms in \<open>auto simp: matches_groups\<close>)

lemma pair_last: "matches (RSeq (between 1 6 group_colon) colon_group) s \<longleftrightarrow> gapped (\<lambda>a b. (1 \<le> a \<and> a \<le> 6) \<and> b = 1) s"
  by (rule pairs_match) (use matches_groups(1) [of 1 6] one_group in auto)

lemma pair_first: "matches (RSeq group_colon (between 1 6 colon_group)) s \<longleftrightarrow> gapped (\<lambda>a b. a = 1 \<and> 1 \<le> b \<and> b \<le> 6) s"
  by (rule pairs_match) (use matches_groups(2) [of 1 6] one_group in auto)

lemma gap_sizes:
  "((1 \<le> a \<and> a \<le> 7 \<and> b = 0) \<or> ((1 \<le> a \<and> a \<le> 6) \<and> b = 1) \<or> ((1 \<le> a \<and> a \<le> 5) \<and> 1 \<le> b \<and> b \<le> 2) \<or>
    ((1 \<le> a \<and> a \<le> 4) \<and> 1 \<le> b \<and> b \<le> 3) \<or> ((1 \<le> a \<and> a \<le> 3) \<and> 1 \<le> b \<and> b \<le> 4) \<or>
    ((1 \<le> a \<and> a \<le> 2) \<and> 1 \<le> b \<and> b \<le> 5) \<or> (a = 1 \<and> 1 \<le> b \<and> b \<le> 6) \<or> (a = 0 \<and> b \<le> 7)) \<longleftrightarrow> a + b \<le> (7 :: nat)"
  by presburger

lemma hex_alternatives: "matches (alts ipv6_hex) s \<longleftrightarrow> hex_address s"
proof -
  have "matches (alts ipv6_hex) s \<longleftrightarrow> (\<exists>gs. s = joined gs \<and> length gs = 8 \<and> list_all hex_group gs) \<or>
      gapped (\<lambda>a b. 1 \<le> a \<and> a \<le> 7 \<and> b = 0) s \<or> gapped (\<lambda>a b. (1 \<le> a \<and> a \<le> 6) \<and> b = 1) s \<or>
      gapped (\<lambda>a b. (1 \<le> a \<and> a \<le> 5) \<and> 1 \<le> b \<and> b \<le> 2) s \<or> gapped (\<lambda>a b. (1 \<le> a \<and> a \<le> 4) \<and> 1 \<le> b \<and> b \<le> 3) s \<or>
      gapped (\<lambda>a b. (1 \<le> a \<and> a \<le> 3) \<and> 1 \<le> b \<and> b \<le> 4) s \<or> gapped (\<lambda>a b. (1 \<le> a \<and> a \<le> 2) \<and> 1 \<le> b \<and> b \<le> 5) s \<or>
      gapped (\<lambda>a b. a = 1 \<and> 1 \<le> b \<and> b \<le> 6) s \<or> gapped (\<lambda>a b. a = 0 \<and> b \<le> 7) s"
    unfolding ipv6_hex_def alts.simps matches_simps full_address gap_last gap_first pair_last pair_first
    using pair_ranges [of 1 5 1 2 s] pair_ranges [of 1 4 1 3 s] pair_ranges [of 1 3 1 4 s] pair_ranges [of 1 2 1 5 s]
    by (simp del: One_nat_def)
  then show ?thesis unfolding gapped_or gap_sizes hex_address_def .
qed

lemma matches_alts: "matches (alts rs) s \<longleftrightarrow> (\<exists>r \<in> set rs. matches r s)"
  by (induction rs) auto

text \<open>
  C24: The test for addresses of version 6 accepts, among the strings of hexadecimal digits and colons, the empty string and
  exactly eight groups of one to four digits, or at most seven with one pair of colons in the place of the others.
\<close>

theorem ipv6_accepts:
  assumes "list_all (\<lambda>c. is_hex c \<or> c = CHR '':'') s"
  shows "ipv6 s \<longleftrightarrow> s = [] \<or> hex_address s"
proof -
  have no: "\<not> matches r s" if "r \<in> set ipv6_rest" for r
  proof
    assume m: "matches r s"
    have "CHR ''%'' \<in> set s \<or> CHR ''.'' \<in> set s"
      using that m by (auto simp: ipv6_rest_def dotted6_rx_def matches_seq numeral_3_eq_3)
    then show False using assms by (auto simp: list_all_iff is_hex_def is_digit_def rng_def chcode_def)
  qed
  have "ipv6 s \<longleftrightarrow> s = [] \<or> matches (alts ipv6_hex) s \<or> (\<exists>r \<in> set ipv6_rest. matches r s)"
    by (auto simp: ipv6_def ipv6_rx_def regex_match_iff matches_alts)
  with no show ?thesis by (auto simp: hex_alternatives)
qed

theorem ipv6_accepts_witness: "ipv6 ''fe80::1:2'' = hex_address ''fe80::1:2''"
proof -
  have "list_all (\<lambda>c. is_hex c \<or> c = CHR '':'') ''fe80::1:2''" by code_simp
  from ipv6_accepts [OF this] show ?thesis by simp
qed

lemma ipv6_samples: "ipv6 ''fe80::1:2''" "ipv6 ''1:2:3:4:5:6:7:8''" "\<not> ipv6 ''1:2:3:4:5:6:7''" "\<not> ipv6 ''1::2::3''"
  "ipv6 ''::ffff:1.2.3.4''" "ipv4 ''127.0.0.1''" "\<not> ipv4 ''127.0.0.256''"
  by code_simp+

section \<open>Injection\<close>

text \<open>The characters that occur in addresses, numbers and names.\<close>

definition plain_char :: "char \<Rightarrow> bool" where "plain_char c \<longleftrightarrow> is_word c \<or> c \<in> set '':.%''"

lemma plain_inject: "list_all plain_char s \<Longrightarrow> inject s"
proof -
  assume s: "list_all plain_char s"
  have "\<not> plain_char (CHR ''-'')" "list_all (\<lambda>c. \<not> plain_char c) inject_chars" by code_simp+
  then have "CHR ''-'' \<notin> set s" "\<forall>c \<in> set inject_chars. c \<notin> set s" using s by (auto simp: list_all_iff)
  then show "inject s"
    by (auto simp: inject_def except_chars_def except_strs_def list_all_iff str_find_def find_sub_None sublist_def)
qed

lemma char_classes: "is_digit c \<Longrightarrow> plain_char c" "is_alnum c \<Longrightarrow> plain_char c" "is_hex c \<Longrightarrow> plain_char c" "is_word c \<Longrightarrow> plain_char c"
  "rng 48 53 c \<Longrightarrow> plain_char c" "rng 48 52 c \<Longrightarrow> plain_char c" "rng 48 49 c \<Longrightarrow> plain_char c" "rng 49 57 c \<Longrightarrow> plain_char c"
  by (auto simp: plain_char_def is_word_def is_alnum_def is_hex_def is_upper_def is_lower_def is_digit_def rng_def)

lemma plain_lits: "plain_char (CHR ''.'')" "plain_char (CHR '':'')" "plain_char (CHR ''%'')" "plain_char (CHR ''0'')"
  "plain_char (CHR ''1'')" "plain_char (CHR ''2'')" "plain_char (CHR ''5'')" "plain_char (CHR ''8'')" "plain_char (CHR ''e'')"
  "plain_char (CHR ''f'')"
  by code_simp+

lemma ipv4_over: "over plain_char ipv4_rx"
  by (simp add: ipv4_rx_def octet_rx_def over_rep over_lit plain_lits char_classes)

lemma ipv6_over: "over plain_char ipv6_rx"
  by (simp add: ipv6_rx_def ipv6_hex_def ipv6_rest_def dotted6_rx_def octet6_rx_def group_colon_def colon_group_def group_rx_def
      over_rep over_lit plain_lits char_classes)

text \<open>
  C31: What the tests for addresses, numbers and names accept passes the test for injection.
\<close>

theorem accepted_not_injecting:
  assumes "ip_test s \<or> num s \<or> schar s \<or> user_test s"
  shows "inject s"
proof (rule plain_inject)
  have "over plain_char (RStar (RCh is_digit))" "over plain_char schar_rx" by (simp_all add: schar_rx_def char_classes)
  moreover have "over plain_char user_rx"
    by (auto simp: user_rx_def plain_char_def is_word_def is_upper_def is_lower_def rng_def)
  ultimately show "list_all plain_char s"
    using assms ipv4_over ipv6_over
    by (auto simp: ip_test_def ipv4_def ipv6_def num_def schar_def user_test_def regex_match_iff intro: matches_over)
qed

theorem accepted_not_injecting_witness: "inject ''127.0.0.1''"
proof -
  have "ip_test ''127.0.0.1''" using ipv6_samples by (simp add: ip_test_def)
  then show ?thesis by (intro accepted_not_injecting) simp
qed

section \<open>Names, passwords, URLs and files\<close>

text \<open>
  The test for user names accepts the empty string and five to sixteen letters, digits and underscores that begin with
  a letter; the one for strong passwords accepts the empty string and eight to sixteen characters of one line with a
  digit, a small and a capital letter.
\<close>

theorem names_and_passwords:
  "(user_test s \<longleftrightarrow> s = [] \<or> 5 \<le> length s \<and> length s \<le> 16 \<and> (is_lower (hd s) \<or> is_upper (hd s)) \<and> list_all is_word s) \<and>
   (pwdHard s \<longleftrightarrow> s = [] \<or> 8 \<le> length s \<and> length s \<le> 16 \<and> list_all is_dot s \<and>
      list_ex is_digit s \<and> list_ex is_lower s \<and> list_ex is_upper s)"
proof (intro conjI)
  have w: "is_lower c \<or> is_upper c \<Longrightarrow> is_word c" for c by (auto simp: is_lower_def is_upper_def rng_def is_word_def)
  show "user_test s \<longleftrightarrow> s = [] \<or> 5 \<le> length s \<and> length s \<le> 16 \<and> (is_lower (hd s) \<or> is_upper (hd s)) \<and> list_all is_word s"
    using w by (cases s) (auto simp: user_test_def regex_match_iff user_rx_def matches_between_ch)
next
  have any: "matches any_rx u" for u by (simp add: any_rx_def matches_star_ch list_all_iff)
  have l: "matches (RSeq (RSeq (RStar (RCh is_dot)) (RCh P)) any_rx) s \<longleftrightarrow> list_ex P s" if "list_all is_dot s" for P
  proof
    assume "list_ex P s"
    then obtain c where "c \<in> set s" "P c" by (auto simp: list_ex_iff)
    then obtain u v where s: "s = (u @ [c]) @ v" by (metis append.assoc append_Cons append_Nil split_list)
    have "list_all is_dot u" using that by (simp add: s)
    then have "matches (RSeq (RStar (RCh is_dot)) (RCh P)) (u @ [c])"
      by (intro seq) (simp_all add: matches_star_ch \<open>P c\<close>)
    then show "matches (RSeq (RSeq (RStar (RCh is_dot)) (RCh P)) any_rx) s" unfolding s by (rule seq [OF _ any])
  qed (auto simp: matches_seq)
  show "pwdHard s \<longleftrightarrow> s = [] \<or> 8 \<le> length s \<and> length s \<le> 16 \<and> list_all is_dot s \<and>
      list_ex is_digit s \<and> list_ex is_lower s \<and> list_ex is_upper s"
    using l by (auto simp: pwdHard_def regex_match_iff pwdHard_rx_def look_def matches_between_ch)
qed

text \<open>
  No URL that ends with a slash is accepted, although the pattern lists the slash among the characters at the end:
  the word boundary behind it does not hold there.
\<close>

theorem url_final_slash: "\<not> url_test (u @ ''/'')"
proof
  assume "url_test (u @ ''/'')"
  then have "matches (RSeq any_rx (RCh is_word)) (u @ ''/'')" by (simp add: url_test_def url_rx_def bounded_def regex_match_iff)
  then obtain v c where "u @ ''/'' = v @ [c]" "is_word c" by (auto simp: matches_seq)
  then have "is_word (CHR ''/'')" by simp
  moreover have "\<not> is_word (CHR ''/'')" by code_simp
  ultimately show False by contradiction
qed

text \<open>
  The test for file names rejects the empty string, and it takes single bytes for Chinese characters: it accepts
  any letters outside ASCII whose bytes are below EA, and rejects the characters whose first byte is above.
\<close>

theorem fileName_bytes:
  "fileName s \<longleftrightarrow> s \<noteq> [] \<and> list_all (\<lambda>c. 0x80 \<le> chcode c \<and> chcode c \<le> 0xE9 \<or> is_alnum c \<or> c = CHR ''_'' \<or> c = CHR ''.'') s"
proof -
  have "is_chinese c \<longleftrightarrow> 0x80 \<le> chcode c \<and> chcode c \<le> 0xE9" for c by (auto simp: is_chinese_def rng_def)
  then show ?thesis by (auto simp: fileName_def fileName_rx_def regex_match_iff matches_at_least_ch Suc_le_eq list_all_iff)
qed

text \<open>A chain of checks.\<close>

theorem verify_chain: "verify (chain vs) = Ok (if list_all holds vs then 0 else - 1)"
proof -
  have "chain vs = (if list_all holds vs then Ok () else Throw (- 1))"
    by (induction vs) (simp_all add: check_def)
  then show ?thesis by (simp add: verify_def)
qed

end
