(* ===== verification/Ys_Endpoint.thy ===== *)
theory Ys_Endpoint
  imports Ys_Url
begin

text \<open>
  \<open>YS_EndPoint\<close> of \<open>isaac/ys_endpoint.h\<close>: the address of a socket, of version 4 or 6.  The union of the
  structures of the operating system is the 28 bytes of the largest: the family in the first two, the port
  in network order in the next two, then the four bytes of an address of version 4, or from the ninth on
  the sixteen of one of version 6.  The functions of the C library between addresses and text are
  parameters.
\<close>

unbundle bit_operations_syntax

section \<open>Structures\<close>

type_synonym sockaddr = bytes

definition AF_INET :: u16 where "AF_INET = 2"

definition AF_INET6 :: u16 where "AF_INET6 = 10"

definition sizeof_addr4 :: nat where "sizeof_addr4 = 16"

definition sizeof_addr6 :: nat where "sizeof_addr6 = 28"

definition sa_family :: "sockaddr \<Rightarrow> u16" where "sa_family ep = le_word (take 2 ep)"

text \<open>\<open>htons\<close> and \<open>ntohs\<close> on a little-endian machine, as bytes in memory.\<close>

definition port_bytes :: "u16 \<Rightarrow> bytes" where "port_bytes p = [ucast (drop_bit 8 p), ucast p]"

definition port_of :: "sockaddr \<Rightarrow> u16" where
  "port_of ep = push_bit 8 (ucast (ep ! 2)) OR ucast (ep ! 3)"

record net_text =
  pton4 :: "string \<Rightarrow> bytes option"
  pton6 :: "string \<Rightarrow> bytes option"
  ntop4 :: "bytes \<Rightarrow> string"
  ntop6 :: "bytes \<Rightarrow> string"

section \<open>Operations\<close>

definition c_string :: "string \<Rightarrow> string" where "c_string s = takeWhile (\<lambda>c. c \<noteq> CHR 0x00) s"

definition setAddr :: "net_text \<Rightarrow> string \<Rightarrow> 32 word \<Rightarrow> sockaddr" where
  "setAddr os ip prt =
     (let zero = replicate sizeof_addr6 0; z = c_string ip
      in if CHR '':'' \<in> set z
         then (case pton6 os z of
                 None \<Rightarrow> zero
               | Some a \<Rightarrow> le_bytes 2 AF_INET6 @ port_bytes (ucast prt) @ replicate 4 0 @ a @ replicate 4 0)
         else (case pton4 os z of
                 None \<Rightarrow> zero
               | Some a \<Rightarrow> le_bytes 2 AF_INET @ port_bytes (ucast prt) @ a @ replicate 20 0))"

text \<open>From a structure of the operating system; the rest of the union keeps what was there.\<close>

definition setAddr_sock :: "sockaddr \<Rightarrow> sockaddr \<Rightarrow> sockaddr" where
  "setAddr_sock pAddr ep =
     (if sa_family pAddr = AF_INET then take sizeof_addr4 pAddr @ drop sizeof_addr4 ep
      else if sa_family pAddr = AF_INET6 then take sizeof_addr6 pAddr
      else ep)"

definition setAddr_copy :: "sockaddr \<Rightarrow> sockaddr" where "setAddr_copy ed = take sizeof_addr6 ed"

definition isIpv6 :: "sockaddr \<Rightarrow> bool" where "isIpv6 ep \<longleftrightarrow> sa_family ep = AF_INET6"

definition sockSize :: "sockaddr \<Rightarrow> nat" where "sockSize ep = (if isIpv6 ep then sizeof_addr6 else sizeof_addr4)"

text \<open>\<open>memcmp\<close>: the difference of the first bytes that differ.\<close>

fun memcmp :: "bytes \<Rightarrow> bytes \<Rightarrow> int" where
  "memcmp (a # as) (b # bs) = (if a = b then memcmp as bs else uint a - uint b)"
| "memcmp _ _ = 0"

definition cmpare :: "sockaddr \<Rightarrow> sockaddr \<Rightarrow> int" where
  "cmpare ep ed = (if sockSize ed = sockSize ep then memcmp (take (sockSize ep) ep) (take (sockSize ep) ed) else 1)"

text \<open>\<open>inet_ntop\<close> fails for another family than these two, and the text stays empty.\<close>

definition getIp :: "net_text \<Rightarrow> sockaddr \<Rightarrow> string" where
  "getIp os ep =
     (if isIpv6 ep then ntop6 os (take 16 (drop 8 ep))
      else if sa_family ep = AF_INET then ntop4 os (take 4 (drop 4 ep))
      else [])"

definition getPort :: "sockaddr \<Rightarrow> 32 word" where "getPort ep = ucast (port_of ep)"

definition getAddr :: "net_text \<Rightarrow> sockaddr \<Rightarrow> string" where
  "getAddr os ep = getIp os ep @ '':'' @ dec_str (unat (getPort ep))"

text \<open>\<open>dns\<close>, with the list that \<open>getaddrinfo\<close> gives, or none where it fails.\<close>

definition dns :: "net_text \<Rightarrow> sockaddr list option \<Rightarrow> sockaddr \<Rightarrow> string list" where
  "dns os res junk =
     (case res of
        None \<Rightarrow> []
      | Some as \<Rightarrow> map (\<lambda>a. getIp os (setAddr_sock a junk))
          (filter (\<lambda>a. sa_family a = AF_INET \<or> sa_family a = AF_INET6) as))"

section \<open>Properties\<close>

text \<open>What is documented of the functions between addresses and text.\<close>

definition text_laws :: "net_text \<Rightarrow> bool" where
  "text_laws os \<longleftrightarrow>
     (\<forall>s a. pton4 os s = Some a \<longrightarrow> length a = 4 \<and> pton4 os (ntop4 os a) = Some a \<and>
        CHR '':'' \<notin> set (ntop4 os a) \<and> CHR 0x00 \<notin> set (ntop4 os a)) \<and>
     (\<forall>s a. pton6 os s = Some a \<longrightarrow> length a = 16 \<and> pton6 os (ntop6 os a) = Some a \<and>
        CHR '':'' \<in> set (ntop6 os a) \<and> CHR 0x00 \<notin> set (ntop6 os a))"

lemma c_string_id: "CHR 0x00 \<notin> set s \<Longrightarrow> c_string s = s"
  unfolding c_string_def takeWhile_eq_all_conv by auto

lemma family_word: "le_word (le_bytes 2 f) = (f :: u16)"
  by (simp add: byte_simps)

lemma port_word: "push_bit 8 (ucast (ucast (drop_bit 8 p) :: byte)) OR ucast (ucast p :: byte) = (p :: u16)"
  by (rule bit_word_eqI) (auto simp: bit_simps)

lemma le_two: "le_bytes 2 w = [ucast w, ucast (drop_bit 8 w)]"
  by (simp add: numeral_2_eq_2)

text \<open>The fields of an address that has been set.\<close>

lemma addr4_fields:
  assumes "length a = 4"
    and ep_def: "ep = le_bytes 2 AF_INET @ port_bytes p @ a @ replicate 20 0"
  shows "sa_family ep = AF_INET" "port_of ep = p" "take 4 (drop 4 ep) = a" "length ep = 28" "\<not> isIpv6 ep"
proof -
  have "take 2 ep = le_bytes 2 AF_INET" by (simp add: ep_def)
  then show f: "sa_family ep = AF_INET" by (simp only: sa_family_def family_word)
  show "port_of ep = p" by (simp add: port_of_def ep_def le_two port_bytes_def port_word)
  show "take 4 (drop 4 ep) = a" "length ep = 28" by (simp_all add: ep_def port_bytes_def assms(1))
  show "\<not> isIpv6 ep" by (simp add: isIpv6_def f AF_INET_def AF_INET6_def)
qed

lemma addr6_fields:
  assumes "length a = 16"
    and ep_def: "ep = le_bytes 2 AF_INET6 @ port_bytes p @ replicate 4 0 @ a @ replicate 4 0"
  shows "sa_family ep = AF_INET6" "port_of ep = p" "take 16 (drop 8 ep) = a" "length ep = 28" "isIpv6 ep"
proof -
  have "take 2 ep = le_bytes 2 AF_INET6" by (simp add: ep_def)
  then show f: "sa_family ep = AF_INET6" by (simp only: sa_family_def family_word)
  show "port_of ep = p" by (simp add: port_of_def ep_def le_two port_bytes_def port_word)
  show "take 16 (drop 8 ep) = a" "length ep = 28" by (simp_all add: ep_def port_bytes_def assms(1))
  show "isIpv6 ep" by (simp add: isIpv6_def f)
qed

definition no_addr :: sockaddr where "no_addr = replicate sizeof_addr6 0"

lemma no_addr_fields: "sa_family no_addr = 0" "\<not> isIpv6 no_addr" "length no_addr = 28"
proof -
  show z: "sa_family no_addr = 0" by (simp add: no_addr_def sa_family_def sizeof_addr6_def numeral_2_eq_2)
  show "\<not> isIpv6 no_addr" by (simp add: isIpv6_def z AF_INET6_def)
qed (simp add: no_addr_def sizeof_addr6_def)

lemma setAddr_cases:
  assumes "text_laws os"
  obtains "setAddr os ip prt = no_addr"
  | a where "setAddr os ip prt = le_bytes 2 AF_INET @ port_bytes (ucast prt) @ a @ replicate 20 0" "length a = 4"
      "pton4 os (ntop4 os a) = Some a" "CHR '':'' \<notin> set (ntop4 os a)" "CHR 0x00 \<notin> set (ntop4 os a)"
  | a where "setAddr os ip prt = le_bytes 2 AF_INET6 @ port_bytes (ucast prt) @ replicate 4 0 @ a @ replicate 4 0" "length a = 16"
      "pton6 os (ntop6 os a) = Some a" "CHR '':'' \<in> set (ntop6 os a)" "CHR 0x00 \<notin> set (ntop6 os a)"
proof (cases "CHR '':'' \<in> set (c_string ip)")
  case True
  with assms that(1,3) show ?thesis
    by (cases "pton6 os (c_string ip)") (auto simp: setAddr_def no_addr_def text_laws_def Let_def)
next
  case False
  with assms that(1,2) show ?thesis
    by (cases "pton4 os (c_string ip)") (auto simp: setAddr_def no_addr_def text_laws_def Let_def)
qed

lemma port_back: "(ucast (ucast (p :: u16) :: 32 word) :: u16) = p"
  by (rule bit_word_eqI) (auto simp: bit_simps)

lemma setAddr_shape:
  assumes "text_laws os"
  shows "length (setAddr os ip prt) = 28 \<and> (\<not> isIpv6 (setAddr os ip prt) \<longrightarrow> drop 16 (setAddr os ip prt) = replicate 12 0)"
proof (rule setAddr_cases [OF assms, of ip prt])
  assume "setAddr os ip prt = no_addr"
  then show ?thesis by (simp add: no_addr_fields(3)) (simp add: no_addr_def sizeof_addr6_def)
next
  fix a :: bytes assume "setAddr os ip prt = le_bytes 2 AF_INET @ port_bytes (ucast prt) @ a @ replicate 20 0" "length a = 4"
  then show ?thesis by (simp add: port_bytes_def)
next
  fix a :: bytes
  assume a: "setAddr os ip prt = le_bytes 2 AF_INET6 @ port_bytes (ucast prt) @ replicate 4 0 @ a @ replicate 4 0" "length a = 16"
  from addr6_fields(4,5) [OF a(2,1)] show ?thesis by simp
qed

lemma memcmp_zero: "length a = length b \<Longrightarrow> memcmp a b = 0 \<longleftrightarrow> a = b"
  by (induction a b rule: memcmp.induct) (auto simp: word_uint_eq_iff)

text \<open>
  C40: The text of an address and its port, read again, give the same bytes; the port is the argument modulo 2 ^ 16; and
  an address compares equal to another only if all the bytes of the two agree.
\<close>

theorem endpoint_roundtrip:
  assumes os: "text_laws os" and ep: "ep = setAddr os ip prt" "sa_family ep \<noteq> 0"
  shows "setAddr os (getIp os ep) (getPort ep) = ep \<and> getPort ep = ucast (ucast prt :: u16) \<and> setAddr_copy ep = ep \<and>
    (cmpare ep (setAddr os ip' prt') = 0 \<longleftrightarrow> setAddr os ip' prt' = ep)"
proof (intro conjI)
  let ?e = "setAddr os ip' prt'"
  have s: "length ep = 28" "length ?e = 28" "\<not> isIpv6 ep \<Longrightarrow> drop 16 ep = replicate 12 0" "\<not> isIpv6 ?e \<Longrightarrow> drop 16 ?e = replicate 12 0"
    using setAddr_shape [OF os, of ip prt] setAddr_shape [OF os, of ip' prt'] by (auto simp: ep(1))
  show "setAddr_copy ep = ep" by (simp add: setAddr_copy_def sizeof_addr6_def s(1))
  show "cmpare ep ?e = 0 \<longleftrightarrow> ?e = ep"
  proof (cases "isIpv6 ep = isIpv6 ?e")
    case True
    then have "cmpare ep ?e = memcmp (take (sockSize ep) ep) (take (sockSize ep) ?e)" by (simp add: cmpare_def sockSize_def)
    then have "cmpare ep ?e = 0 \<longleftrightarrow> take (sockSize ep) ep = take (sockSize ep) ?e" using memcmp_zero s(1,2) by simp
    also have "\<dots> \<longleftrightarrow> ?e = ep"
    proof (cases "isIpv6 ep")
      case False
      with True s(3,4) have "drop 16 ep = drop 16 ?e" by simp
      with False show ?thesis
        unfolding sockSize_def sizeof_addr4_def by (metis append_take_drop_id)
    qed (use s in \<open>auto simp: sockSize_def sizeof_addr6_def\<close>)
    finally show ?thesis .
  qed (auto simp: cmpare_def sockSize_def sizeof_addr4_def sizeof_addr6_def)
  have "setAddr os (getIp os ep) (getPort ep) = ep \<and> getPort ep = ucast (ucast prt :: u16)"
  proof (rule setAddr_cases [OF os, of ip prt])
    assume "setAddr os ip prt = no_addr"
    with ep no_addr_fields(1) show ?thesis by simp
  next
    fix a assume a: "setAddr os ip prt = le_bytes 2 AF_INET @ port_bytes (ucast prt) @ a @ replicate 20 0" "length a = 4"
      "pton4 os (ntop4 os a) = Some a" "CHR '':'' \<notin> set (ntop4 os a)" "CHR 0x00 \<notin> set (ntop4 os a)"
    note f = addr4_fields [OF a(2) ep(1) [unfolded a(1)]]
    have g: "getIp os ep = ntop4 os a" "getPort ep = ucast (ucast prt :: u16)"
      using f by (simp_all add: getIp_def getPort_def)
    have "setAddr os (ntop4 os a) (ucast (ucast prt :: u16)) = le_bytes 2 AF_INET @ port_bytes (ucast prt) @ a @ replicate 20 0"
      by (simp add: setAddr_def c_string_id a(3-5) port_back)
    then show ?thesis unfolding g by (simp add: ep(1) a(1))
  next
    fix a assume a: "setAddr os ip prt = le_bytes 2 AF_INET6 @ port_bytes (ucast prt) @ replicate 4 0 @ a @ replicate 4 0"
      "length a = 16" "pton6 os (ntop6 os a) = Some a" "CHR '':'' \<in> set (ntop6 os a)" "CHR 0x00 \<notin> set (ntop6 os a)"
    note f = addr6_fields [OF a(2) ep(1) [unfolded a(1)]]
    have g: "getIp os ep = ntop6 os a" "getPort ep = ucast (ucast prt :: u16)"
      using f by (simp_all add: getIp_def getPort_def)
    have "setAddr os (ntop6 os a) (ucast (ucast prt :: u16)) = le_bytes 2 AF_INET6 @ port_bytes (ucast prt) @ replicate 4 0 @ a @ replicate 4 0"
      by (simp add: setAddr_def c_string_id a(3-5) port_back)
    then show ?thesis unfolding g by (simp add: ep(1) a(1))
  qed
  then show "setAddr os (getIp os ep) (getPort ep) = ep" "getPort ep = ucast (ucast prt :: u16)" by blast+
qed

text \<open>The functions of the C library on the loopback addresses.\<close>

definition loopback :: net_text where
  "loopback = \<lparr>pton4 = (\<lambda>s. if s = ''127.0.0.1'' then Some [127, 0, 0, 1] else None),
     pton6 = (\<lambda>s. if s = ''::1'' then Some (replicate 15 0 @ [1]) else None),
     ntop4 = (\<lambda>a. ''127.0.0.1''), ntop6 = (\<lambda>a. ''::1'')\<rparr>"

theorem endpoint_roundtrip_witness:
  "getIp loopback (setAddr loopback ''127.0.0.1'' 65616) = ''127.0.0.1'' \<and> getPort (setAddr loopback ''127.0.0.1'' 65616) = 80"
proof -
  have l: "text_laws loopback" by (auto simp: text_laws_def loopback_def)
  have "setAddr loopback ''127.0.0.1'' 65616 = le_bytes 2 AF_INET @ port_bytes (ucast (65616 :: 32 word)) @ [127, 0, 0, 1] @ replicate 20 0"
    by (simp add: setAddr_def c_string_def loopback_def)
  note f = addr4_fields [OF _ this]
  have "sa_family (setAddr loopback ''127.0.0.1'' 65616) \<noteq> 0" using f(1) by (simp add: AF_INET_def)
  from endpoint_roundtrip [OF l refl this, of "[]" 0]
  have "getPort (setAddr loopback ''127.0.0.1'' 65616) = 80" by simp
  moreover have "getIp loopback (setAddr loopback ''127.0.0.1'' 65616) = ''127.0.0.1''"
    using f(1,5) by (simp add: getIp_def) (simp add: loopback_def)
  ultimately show ?thesis by simp
qed

text \<open>
  An address that cannot be read is no error: it becomes the structure of zeros, whatever the port, which is of
  neither family, has the empty text and compares equal to every other address that could not be read.
\<close>

theorem bad_address_is_silent:
  assumes "pton4 os (c_string ip) = None" and "pton6 os (c_string ip) = None"
  shows "setAddr os ip prt = no_addr \<and> sa_family (setAddr os ip prt) \<notin> {AF_INET, AF_INET6} \<and>
    getIp os (setAddr os ip prt) = [] \<and> getPort (setAddr os ip prt) = 0 \<and>
    (pton4 os (c_string ip') = None \<longrightarrow> pton6 os (c_string ip') = None \<longrightarrow> cmpare (setAddr os ip prt) (setAddr os ip' prt') = 0)"
proof -
  have z: "setAddr os ip prt = no_addr" if "pton4 os (c_string ip) = None" "pton6 os (c_string ip) = None" for ip prt
    using that by (simp add: setAddr_def no_addr_def Let_def)
  moreover have "getPort no_addr = 0" by (simp add: getPort_def port_of_def no_addr_def sizeof_addr6_def)
  ultimately show ?thesis
    using assms by (auto simp: no_addr_fields getIp_def AF_INET_def AF_INET6_def cmpare_def memcmp_zero)
qed

theorem bad_address_is_silent_witness: "setAddr loopback ''localhost'' 80 = no_addr"
proof -
  have "pton4 loopback (c_string ''localhost'') = None" "pton6 loopback (c_string ''localhost'') = None"
    by (simp_all add: loopback_def c_string_def)
  from bad_address_is_silent [OF this] show ?thesis by simp
qed

end
