(* ===== verification/Ys_Xpack.thy ===== *)
theory Ys_Xpack
  imports Ys_Buffer
begin

text \<open>
  \<open>YS_Xpack::isComplete\<close> of \<open>isaac/ys_xpack.h\<close>, which looks for the end of a JSON text by counting braces.
\<close>

definition brace_open :: byte where "brace_open = 123"

definition brace_close :: byte where "brace_close = 125"

fun count_braces :: "bytes \<Rightarrow> u32 \<Rightarrow> u32 \<Rightarrow> u32 \<times> u32" where
  "count_braces [] l r = (l, r)"
| "count_braces (c # cs) l r =
     (if c = brace_open then count_braces cs (l + 1) r
      else if c = brace_close then count_braces cs l (r + 1)
      else count_braces cs l r)"

definition isComplete :: "ys_buf \<Rightarrow> 32 word" where
  "isComplete b =
     (let (l, r) = count_braces (contents b) 0 0
      in if l = 0 \<or> l < r then - 1 else if l = r then 0 else 2048)"

lemma count_braces_counts:
  "count_braces s l r = (l + of_nat (count_list s brace_open), r + of_nat (count_list s brace_close))"
  by (induction s l r rule: count_braces.induct) (auto simp: brace_open_def brace_close_def algebra_simps)

text \<open>A text whose first brace is closed by its last byte, by braces alone.\<close>

definition nested :: "bytes \<Rightarrow> bool" where
  "nested m \<longleftrightarrow> m \<noteq> [] \<and> hd m = brace_open \<and> count_list m brace_close = count_list m brace_open \<and>
     (\<forall>k. 0 < k \<and> k < length m \<longrightarrow> count_list (take k m) brace_close < count_list (take k m) brace_open)"

text \<open>
  Of a text in braces, as long as none of them stands in a string, every part is incomplete and the whole is complete.
\<close>

theorem isComplete_nested:
  assumes "nested m" and "length m < 2 ^ 32" and "contents b = take k m" and "0 < k" and "k \<le> length m"
  shows "isComplete b = (if k = length m then 0 else 2048)"
proof -
  let ?s = "take k m"
  have o: "0 < count_list ?s brace_open"
    using assms(1,4) by (cases m; cases k) (auto simp: nested_def)
  have n: "count_list ?s brace_open \<le> length m" "count_list ?s brace_close \<le> length m"
    using count_le_length [of ?s] assms(5) by (metis length_take min_def le_trans)+
  then have u: "unat (of_nat (count_list ?s brace_open) :: u32) = count_list ?s brace_open"
    "unat (of_nat (count_list ?s brace_close) :: u32) = count_list ?s brace_close"
    using assms(2) by (simp_all add: unat_of_nat)
  let ?l = "of_nat (count_list ?s brace_open) :: u32" and ?r = "of_nat (count_list ?s brace_close) :: u32"
  have l: "?l \<noteq> 0" using o u(1) by (metis less_irrefl unat_0)
  have i: "isComplete b = (if ?l = 0 \<or> ?l < ?r then - 1 else if ?l = ?r then 0 else 2048)"
    by (simp add: isComplete_def count_braces_counts assms(3))
  show ?thesis
  proof (cases "k = length m")
    case True
    then have "?l = ?r" using assms(1) by (simp add: nested_def)
    with l i True show ?thesis by simp
  next
    case False
    then have c: "count_list ?s brace_close < count_list ?s brace_open" using assms(1,4,5) by (simp add: nested_def)
    then have "?r < ?l" by (simp only: word_less_nat_alt u)
    then have "\<not> ?l < ?r" "?l \<noteq> ?r" by simp_all
    with l i False show ?thesis by simp
  qed
qed

theorem isComplete_nested_witness:
  "isComplete \<lparr>bmem = Some [123, 123, 125, 125], blen = 3, bcap = 4\<rparr> = 2048"
proof -
  have n: "nested [123, 123, 125, 125]"
    unfolding nested_def
  proof (intro conjI allI impI)
    fix k assume "0 < k \<and> k < length [123 :: byte, 123, 125, 125]"
    then have "k = 1 \<or> k = 2 \<or> k = 3" by auto
    then show "count_list (take k [123 :: byte, 123, 125, 125]) brace_close < count_list (take k [123, 123, 125, 125]) brace_open"
      by (auto simp: brace_open_def brace_close_def numeral_2_eq_2 numeral_3_eq_3)
  qed (simp_all add: brace_open_def brace_close_def)
  show ?thesis
    by (subst isComplete_nested [OF n, where k = 3]) (simp_all add: contents_def)
qed

text \<open>A brace in a string counts as well: the first text is complete, the second is not.\<close>

theorem isComplete_counts_strings:
  "contents b = [123, 34, 97, 34, 58, 34, 125, 34, 125] \<Longrightarrow> isComplete b = - 1"
  by (simp add: isComplete_def brace_open_def brace_close_def)

end
