(* ===== verification/Spec2Isabelle.thy ===== *)
theory Spec2Isabelle
  imports Ys_TcpServer Ys_EventLoop Ys_UdpServer Ys_Sync Ys_Services Ys_HttpUrl Ys_Cipher Ys_Drbg Ys_Validator Ys_Endpoint
    Ys_Xpack
begin

text \<open>
  A model of isaac, a C++ network library (the headers under \<open>src/isaac\<close>).

  \<^bold>\<open>The program.\<close> A server accepts connections (\<open>ys_accepter.h\<close>, \<open>ys_tcp_server.h\<close>) and hands each of them to
  the network thread with the fewest of them.  A network thread (\<open>ys_thread_asyn.h\<close>) waits for events
  (\<open>ys_epoller.h\<close>), reads into a buffer it takes from a pool and asks its driver whether the buffer holds
  a whole packet; if so, the buffer goes through queues (\<open>ys_thread_queue.hpp\<close>) to the business threads,
  whose driver handles it, and the reply goes back.  Two drivers come with the library: a binary
  protocol (\<open>ys_pack_proto.h\<close>) whose packets are objects serialised by \<open>ys_pack.hpp\<close>, and HTTP
  (\<open>ys_http_server.h\<close>, \<open>ys_http_mount.h\<close>) over a parser of messages (\<open>ys_http_parser_ex.h\<close>,
  \<open>ys_http_parser.h\<close>).  Helpers for strings, paths, URLs, digests and ciphers stand beside them.

  \<^bold>\<open>The theories.\<close> One theory per component, named after its header; a definition has the name of the
  function it models, fields of classes are fields of records, and \<open>PROJECT.json\<close> gives the lines.

  \<^item> \<open>Isaac_Prelude\<close>: types of machine words, outcomes of calls (\<open>Ok\<close>, \<open>Throw\<close>, \<open>Undef\<close> for undefined
    behaviour of C++ or a failed assertion), memory blocks as lists of bytes, little-endian words.
  \<^item> \<open>Ys_Buffer\<close>, \<open>Ys_Pack\<close>, \<open>Ys_Packet\<close>: \<open>YS_Buf\<close> with its capacity and offsets, the encoder and the decoder of
    objects of any shape, the frame of a packet.  Packing and unpacking give back the object, unpacking
    never reads outside the packet, and a prefix of a packet is told from a whole one.
  \<^item> \<open>Ys_Socket\<close>, \<open>Ys_TcpClient\<close>, \<open>Ys_Engine\<close>, \<open>Ys_PackProto\<close>: the loops that send and receive, over a script of
    what the system calls return, the client's wait for a packet, the routing table, the handlers of the
    binary protocol, and a call of a remote procedure from end to end.
  \<^item> \<open>Ys_NetBuf\<close>, \<open>Ys_ThQueue\<close>, \<open>Ys_ConnList\<close>, \<open>Ys_NetThread\<close>, \<open>Ys_TcpServer\<close>: the state of the network and business
    threads (connection table, queues, pools of buffers) and one step per operation of a thread, so that
    a run is an interleaving of such steps.  In every reachable state a buffer has one owner; connections
    are spread evenly; a request that has arrived is answered on its own socket.
  \<^item> \<open>Ys_EventLoop\<close>: what the event loop means when connections own their buffers and queues hold buffers instead of
    pointers (\<open>loop_spec\<close>), the abstraction \<open>view\<close> from the state of a network thread, and the refinement: \<open>epollRun\<close>
    with all its handlers computes what the specification says, on every branch.
  \<^item> \<open>Ys_UdpServer\<close>: the server for datagrams.  \<open>Ys_Sync\<close>: the lock for readers and writers, the condition
    variable and the threads, as interleavings of the steps of several threads.
  \<^item> \<open>Ys_NetBuf\<close> also states the interface of a driver, its function \<open>isFullPkt\<close>: the locale \<open>assembling\<close> says how
    a driver that keeps a context behaves on the prefixes of a message, and \<open>framing\<close>, which gives it, how one
    behaves that reads a length from a header.  \<open>Ys_TcpClient\<close> proves in it that a client gets every message
    whole, \<open>Ys_NetRequest\<close> (the locale \<open>request_driver\<close>) that a network thread hands every request over whole,
    however it is cut and whatever the thread does in between.  Packets and HTTP messages interpret it.
  \<^item> \<open>Ys_HttpTypes\<close>, \<open>Ys_HttpExec\<close>: the tables and the state machine of \<open>http_parser_execute\<close>, one definition per
    group of \<open>case\<close> labels.  \<open>Ys_HttpSafe\<close>: an invariant of all reachable parsers; no assertion fails and no
    call consumes more than its data.  \<open>Ys_HttpFrag\<close>, \<open>Ys_HttpCut\<close>: the parser with its inner loops agrees with
    the one that takes single characters, and how a message is cut makes no difference to a consumer of
    the callbacks (the locale \<open>http_consumer\<close>).  \<open>Ys_HttpUrl\<close>: \<open>http_parser_parse_url\<close>.
  \<^item> \<open>Ys_Http\<close>: the context the callbacks fill, header operations, framing, texts of requests and responses.
    \<open>Ys_HttpServer\<close>: the driver, static files, JSON handlers; answers depend on nothing outside the mounted
    directory, and a response is well formed.  \<open>Ys_HttpRound\<close>: the parser reads back every request and response that the library
    formats.  \<open>Ys_HttpFrame\<close>, \<open>Ys_HttpClient\<close>: HTTP messages as messages of the locale above, and \<open>doRequest\<close>.
  \<^item> \<open>Ys_Services\<close>: the drivers on a network thread.  A call over either protocol from end to end, the driver
    that tells the protocols apart, and what a request that is none does to its buffer.
  \<^item> \<open>Ys_Url\<close>, \<open>Ys_String\<close>, \<open>Ys_Base64\<close>, \<open>Ys_Digest\<close>, \<open>Ys_Cipher\<close>: URLs, string and path helpers, Base64, MD5 and SM3
    (one locale for hash functions that take their input in pieces, interpreted for both), SM4 and the
    cipher Islam built on it; \<open>Ys_Drbg\<close>: the random bytes made with SM3; round trips and equivalence
    with reference definitions.  \<open>Ys_Regex\<close>, \<open>Ys_Validator\<close>: what the program uses of regular expressions, and the tests of
    strings, with the sets of strings they accept.  \<open>Ys_Endpoint\<close>: socket addresses.  \<open>Ys_Xpack\<close>: the end of a JSON text.

  \<^bold>\<open>Loops.\<close> A loop over data is a recursive function with its termination proof; a loop that may not end
  (\<open>YS_Buf::append\<close>, \<open>YS_String::replace\<close>, Base64, whose index of 32 bits wraps on inputs of 4 GiB) is a partial function whose value \<open>None\<close> is not returning, and
  the lemmas say when it returns.  A loop over system calls runs along a finite script of their results.

  \<^bold>\<open>Not modelled.\<close> What the operating system, OpenSSL, hiredis and the C++ library do: their results are
  arguments of the definitions.  Symbolic links: a path names what the file system has there.  Copies of third-party libraries under \<open>src/isaac\<close> (fmt, xpack, rapidjson,
  wepoll, mINI, argh, QR codes, scope guards), because the program only calls them; logs, processes,
  signals, options of sockets, the HTML of directory listings, Windows variants, and the tests.
\<close>

end
